(* ===== verification/Prelude.thy ===== *)
theory Prelude
  imports Main "HOL-Library.Word" "HOL-Library.Multiset" "HOL-Library.Monad_Syntax"
begin

text \<open>
  What every component of the development shares: the addresses of C objects, the result of code
  that may stop in the middle, and the small facts on lists and machine integers the proofs need.

  Code that can stop (a failed \<open>ASSERT\<close>, a \<open>PANIC\<close>, a dereference of a null or dangling pointer, a
  loop that does not end) has an option type: \<open>None\<close> means that the function does not return.
  Sequencing is the library's \<open>do\<close> notation for options.
\<close>

named_theorems kdefs \<open>straight-line operations, unfolded by the proofs of their component\<close>

section \<open>Addresses and stopping\<close>

type_synonym addr = nat

abbreviation (input) NULL :: addr where "NULL \<equiv> 0"

definition ASSERT :: "bool \<Rightarrow> unit option" where
  "ASSERT b = (if b then Some () else None)"

lemma ASSERT_simps [simp]: "ASSERT True = Some ()" "ASSERT False = None"
  by (simp_all add: ASSERT_def)

lemma ASSERT_bind_Some [simp]: "(ASSERT b \<bind> f = Some x) \<longleftrightarrow> b \<and> f () = Some x"
  by (cases b) simp_all

lemma ASSERT_Some [simp]: "(ASSERT b = Some u) \<longleftrightarrow> b"
  by (simp add: ASSERT_def)

section \<open>Counting loops\<close>

text \<open>\<open>for_upto a b f s\<close> is \<open>for (i = a; i < b; i++) s = f(i, s);\<close> and \<open>for_ret\<close> is the same loop with
  a body that may leave it: \<open>Inl s\<close> goes on with the next index, \<open>Inr r\<close> is a \<open>return\<close> or \<open>break\<close>.\<close>

function for_upto :: "nat \<Rightarrow> nat \<Rightarrow> (nat \<Rightarrow> 's \<Rightarrow> 's option) \<Rightarrow> 's \<Rightarrow> 's option" where
  "for_upto a b f s = (if a < b then f a s \<bind> for_upto (Suc a) b f else Some s)"
  by pat_completeness auto
termination by (relation "measure (\<lambda>(a, b, f, s). b - a)") auto

function for_ret ::
  "nat \<Rightarrow> nat \<Rightarrow> (nat \<Rightarrow> 's \<Rightarrow> ('s + 'r) option) \<Rightarrow> 's \<Rightarrow> ('s + 'r) option" where
  "for_ret a b f s =
     (if a < b then
        (case f a s of None \<Rightarrow> None
         | Some (Inl s') \<Rightarrow> for_ret (Suc a) b f s'
         | Some (Inr r) \<Rightarrow> Some (Inr r))
      else Some (Inl s))"
  by pat_completeness auto
termination by (relation "measure (\<lambda>(a, b, f, s). b - a)") auto

declare for_upto.simps [simp del] for_ret.simps [simp del]

lemma for_upto_done [simp]: "b \<le> a \<Longrightarrow> for_upto a b f s = Some s"
  by (simp add: for_upto.simps)

lemma for_ret_done [simp]: "b \<le> a \<Longrightarrow> for_ret a b f s = Some (Inl s)"
  by (simp add: for_ret.simps)

lemma for_upto_inv:
  assumes "P a s" "a \<le> b"
    and "\<And>i s. a \<le> i \<Longrightarrow> i < b \<Longrightarrow> P i s \<Longrightarrow> \<exists>s'. f i s = Some s' \<and> P (Suc i) s'"
  shows "\<exists>s'. for_upto a b f s = Some s' \<and> P b s'"
  using assms
proof (induction a b f s rule: for_upto.induct)
  case (1 a b f s)
  show ?case
  proof (cases "a < b")
    case True
    obtain s1 where s1: "f a s = Some s1" "P (Suc a) s1"
      using "1.prems"(1) "1.prems"(3)[of a s] True by auto
    have "\<exists>s'. for_upto (Suc a) b f s1 = Some s' \<and> P b s'"
      by (rule "1.IH"[OF True s1]) (use True "1.prems"(3) in auto)
    then show ?thesis using True s1 by (simp add: for_upto.simps[of a b f s])
  next
    case False
    then show ?thesis using "1.prems" by (simp add: for_upto.simps[of a b f s])
  qed
qed

text \<open>\<open>P i s\<close> holds at the head of the loop, \<open>Q r\<close> of any value it is left with.\<close>

lemma for_ret_inv:
  assumes "P a s" "a \<le> b"
    and "\<And>i s. a \<le> i \<Longrightarrow> i < b \<Longrightarrow> P i s \<Longrightarrow>
      (\<exists>s'. f i s = Some (Inl s') \<and> P (Suc i) s') \<or> (\<exists>r. f i s = Some (Inr r) \<and> Q r)"
  shows "(\<exists>s'. for_ret a b f s = Some (Inl s') \<and> P b s') \<or> (\<exists>r. for_ret a b f s = Some (Inr r) \<and> Q r)"
  using assms
proof (induction a b f s rule: for_ret.induct)
  case (1 a b f s)
  show ?case
  proof (cases "a < b")
    case True
    from "1.prems"(1) "1.prems"(3)[of a s] True consider
        s1 where "f a s = Some (Inl s1)" "P (Suc a) s1"
      | r where "f a s = Some (Inr r)" "Q r" by auto
    then show ?thesis
    proof cases
      case 1
      have "(\<exists>s'. for_ret (Suc a) b f s1 = Some (Inl s') \<and> P b s')
          \<or> (\<exists>r. for_ret (Suc a) b f s1 = Some (Inr r) \<and> Q r)"
        by (rule "1.IH"[OF True 1(1) refl 1(2)]) (use True "1.prems"(3) in auto)
      then show ?thesis using True 1(1) by (simp add: for_ret.simps[of a b f s])
    next
      case 2
      then show ?thesis using True by (simp add: for_ret.simps[of a b f s])
    qed
  next
    case False
    then show ?thesis using "1.prems" by (simp add: for_ret.simps[of a b f s])
  qed
qed

section \<open>\<open>size_t\<close> arithmetic\<close>

definition size_add :: "nat \<Rightarrow> nat \<Rightarrow> nat" where
  "size_add a b = (a + b) mod 2 ^ 32"

lemma size_add_exact [simp]: "a + b < 2 ^ 32 \<Longrightarrow> size_add a b = a + b"
  by (simp add: size_add_def)

section \<open>Rounding macros (lib/round.h)\<close>

definition DIV_ROUND_UP :: "nat \<Rightarrow> nat \<Rightarrow> nat" where
  "DIV_ROUND_UP x step = (x + step - 1) div step"

definition ROUND_UP :: "nat \<Rightarrow> nat \<Rightarrow> nat" where
  "ROUND_UP x step = (x + step - 1) div step * step"

definition ROUND_DOWN :: "nat \<Rightarrow> nat \<Rightarrow> nat" where
  "ROUND_DOWN x step = x div step * step"

lemma ROUND_UP_ge:
  assumes "0 < s" shows "x \<le> ROUND_UP x s"
proof -
  have "(x + s - 1) mod s < s" using assms by simp
  moreover have "(x + s - 1) div s * s + (x + s - 1) mod s = x + s - 1" by simp
  ultimately show ?thesis unfolding ROUND_UP_def using assms by linarith
qed

lemma ROUND_UP_lt: "0 < s \<Longrightarrow> ROUND_UP x s < x + s"
proof -
  assume "0 < s"
  moreover have "(x + s - 1) div s * s \<le> x + s - 1" by simp
  ultimately show ?thesis unfolding ROUND_UP_def by linarith
qed

lemma ROUND_UP_dvd [simp]: "s dvd ROUND_UP x s"
  by (simp add: ROUND_UP_def)

lemma DIV_ROUND_UP_le_iff: "0 < s \<Longrightarrow> DIV_ROUND_UP x s \<le> n \<longleftrightarrow> x \<le> n * s"
proof -
  assume s: "0 < s"
  have "DIV_ROUND_UP x s \<le> n \<longleftrightarrow> (x + s - 1) div s < Suc n"
    by (simp add: DIV_ROUND_UP_def less_Suc_eq_le)
  also have "\<dots> \<longleftrightarrow> x + s - 1 < Suc n * s"
    using s by (simp add: div_less_iff_less_mult)
  also have "\<dots> \<longleftrightarrow> x \<le> n * s"
    using s by auto
  finally show ?thesis .
qed

lemma DIV_ROUND_UP_gt: "0 < s \<Longrightarrow> i < x \<Longrightarrow> i div s < DIV_ROUND_UP x s"
  using DIV_ROUND_UP_le_iff[of s x "i div s"] div_times_less_eq_dividend[of i s]
  by (meson le_trans linorder_not_less)

section \<open>Lists\<close>

lemma hd_append_Cons2 [simp]: "hd (xs @ y # z # zs) = hd (xs @ [y])"
  by (cases xs) simp_all

lemma last_Cons_snoc [simp]: "last (a # xs @ [b]) = b"
  by simp

lemma distinct_split: "distinct (xs @ a # ys) \<longleftrightarrow>
   distinct (xs @ ys) \<and> a \<notin> set xs \<and> a \<notin> set ys"
  by auto

end
