(* ===== verification/Strings.thy ===== *)
theory Strings
  imports Prelude
begin

text \<open>
  lib/string.c on a byte-addressed memory.  A pointer is an address, an access outside the mapped bytes
  has no result, and so does a scan that never meets the terminator.  A string in memory is a run of
  nonzero bytes before a zero byte; the lemmas say what each function computes on strings.
\<close>

type_synonym mem = "addr \<Rightarrow> 8 word option"

definition store :: "addr \<Rightarrow> 8 word \<Rightarrow> mem \<Rightarrow> mem option" where
  "store p b m = (if m p = None then None else Some (m(p \<mapsto> b)))"

section \<open>Blocks\<close>

primrec copy_up :: "nat \<Rightarrow> addr \<Rightarrow> addr \<Rightarrow> mem \<Rightarrow> mem option" where
  "copy_up 0 dst src m = Some m"
| "copy_up (Suc n) dst src m = do {
     b \<leftarrow> m src;
     m \<leftarrow> store dst b m;
     copy_up n (dst + 1) (src + 1) m }"

primrec copy_down :: "nat \<Rightarrow> addr \<Rightarrow> addr \<Rightarrow> mem \<Rightarrow> mem option" where
  "copy_down 0 dst src m = Some m"
| "copy_down (Suc n) dst src m = do {
     b \<leftarrow> m (src - 1);
     m \<leftarrow> store (dst - 1) b m;
     copy_down n (dst - 1) (src - 1) m }"

definition memcpy :: "addr \<Rightarrow> addr \<Rightarrow> nat \<Rightarrow> mem \<Rightarrow> (addr \<times> mem) option" where
  "memcpy dst src n m = do {
     ASSERT (dst \<noteq> NULL \<or> n = 0);
     ASSERT (src \<noteq> NULL \<or> n = 0);
     m \<leftarrow> copy_up n dst src m;
     Some (dst, m) }"

text \<open>\<open>memmove\<close> returns its moved pointer: past the block when it copied upwards.\<close>

definition memmove :: "addr \<Rightarrow> addr \<Rightarrow> nat \<Rightarrow> mem \<Rightarrow> (addr \<times> mem) option" where
  "memmove dst src n m = do {
     ASSERT (dst \<noteq> NULL \<or> n = 0);
     ASSERT (src \<noteq> NULL \<or> n = 0);
     if dst < src then do { m \<leftarrow> copy_up n dst src m; Some (dst + n, m) }
     else do { m \<leftarrow> copy_down n (dst + n) (src + n) m; Some (dst, m) } }"

primrec memcmp_loop :: "nat \<Rightarrow> addr \<Rightarrow> addr \<Rightarrow> mem \<Rightarrow> int option" where
  "memcmp_loop 0 a b m = Some 0"
| "memcmp_loop (Suc n) a b m = do {
     x \<leftarrow> m a;
     y \<leftarrow> m b;
     if x \<noteq> y then Some (if x > y then 1 else -1) else memcmp_loop n (a + 1) (b + 1) m }"

definition memcmp :: "addr \<Rightarrow> addr \<Rightarrow> nat \<Rightarrow> mem \<Rightarrow> int option" where
  "memcmp a b n m = do {
     ASSERT (a \<noteq> NULL \<or> n = 0);
     ASSERT (b \<noteq> NULL \<or> n = 0);
     memcmp_loop n a b m }"

primrec memchr_loop :: "nat \<Rightarrow> addr \<Rightarrow> 8 word \<Rightarrow> mem \<Rightarrow> addr option" where
  "memchr_loop 0 block ch m = Some NULL"
| "memchr_loop (Suc n) block ch m = do {
     b \<leftarrow> m block;
     if b = ch then Some block else memchr_loop n (block + 1) ch m }"

definition memchr :: "addr \<Rightarrow> 8 word \<Rightarrow> nat \<Rightarrow> mem \<Rightarrow> addr option" where
  "memchr block ch n m = do { ASSERT (block \<noteq> NULL \<or> n = 0); memchr_loop n block ch m }"

primrec memset_loop :: "nat \<Rightarrow> addr \<Rightarrow> 8 word \<Rightarrow> mem \<Rightarrow> mem option" where
  "memset_loop 0 dst v m = Some m"
| "memset_loop (Suc n) dst v m = do { m \<leftarrow> store dst v m; memset_loop n (dst + 1) v m }"

definition memset :: "addr \<Rightarrow> 8 word \<Rightarrow> nat \<Rightarrow> mem \<Rightarrow> (addr \<times> mem) option" where
  "memset dst v n m = do {
     ASSERT (dst \<noteq> NULL \<or> n = 0);
     m \<leftarrow> memset_loop n dst v m;
     Some (dst, m) }"

section \<open>Strings\<close>

partial_function (option) strlen_loop :: "addr \<Rightarrow> mem \<Rightarrow> addr option" where
  "strlen_loop p m = do { b \<leftarrow> m p; if b \<noteq> 0 then strlen_loop (p + 1) m else Some p }"

definition strlen :: "addr \<Rightarrow> mem \<Rightarrow> nat option" where
  "strlen string m = do { ASSERT (string \<noteq> NULL); p \<leftarrow> strlen_loop string m; Some (p - string) }"

text \<open>The bound of \<open>strnlen\<close> is tested after the byte is read.\<close>

partial_function (option) strnlen_loop :: "addr \<Rightarrow> nat \<Rightarrow> nat \<Rightarrow> mem \<Rightarrow> nat option" where
  "strnlen_loop string maxlen len m = do {
     b \<leftarrow> m (string + len);
     if b \<noteq> 0 \<and> len < maxlen then strnlen_loop string maxlen (len + 1) m else Some len }"

definition strnlen :: "addr \<Rightarrow> nat \<Rightarrow> mem \<Rightarrow> nat option" where
  "strnlen string maxlen m = strnlen_loop string maxlen 0 m"

partial_function (option) strcmp_loop :: "addr \<Rightarrow> addr \<Rightarrow> mem \<Rightarrow> int option" where
  "strcmp_loop a b m = do {
     x \<leftarrow> m a;
     if x \<noteq> 0 then do {
       y \<leftarrow> m b;
       if x = y then strcmp_loop (a + 1) (b + 1) m
       else Some (if x < y then -1 else if x > y then 1 else 0) }
     else do { y \<leftarrow> m b; Some (if x < y then -1 else if x > y then 1 else 0) } }"

definition strcmp :: "addr \<Rightarrow> addr \<Rightarrow> mem \<Rightarrow> int option" where
  "strcmp a b m = do { ASSERT (a \<noteq> NULL); ASSERT (b \<noteq> NULL); strcmp_loop a b m }"

partial_function (option) strchr_loop :: "addr \<Rightarrow> 8 word \<Rightarrow> mem \<Rightarrow> addr option" where
  "strchr_loop string c m = do {
     b \<leftarrow> m string;
     if b = c then Some string else if b = 0 then Some NULL else strchr_loop (string + 1) c m }"

definition strchr :: "addr \<Rightarrow> 8 word \<Rightarrow> mem \<Rightarrow> addr option" where
  "strchr string c m = do { ASSERT (string \<noteq> NULL); strchr_loop string c m }"

partial_function (option) strcspn_loop :: "addr \<Rightarrow> addr \<Rightarrow> nat \<Rightarrow> mem \<Rightarrow> nat option" where
  "strcspn_loop string stop len m = do {
     b \<leftarrow> m (string + len);
     if b \<noteq> 0 then do {
       q \<leftarrow> strchr stop b m;
       if q \<noteq> NULL then Some len else strcspn_loop string stop (len + 1) m }
     else Some len }"

definition strcspn :: "addr \<Rightarrow> addr \<Rightarrow> mem \<Rightarrow> nat option" where
  "strcspn string stop m = strcspn_loop string stop 0 m"

partial_function (option) strspn_loop :: "addr \<Rightarrow> addr \<Rightarrow> nat \<Rightarrow> mem \<Rightarrow> nat option" where
  "strspn_loop string skip len m = do {
     b \<leftarrow> m (string + len);
     if b \<noteq> 0 then do {
       q \<leftarrow> strchr skip b m;
       if q = NULL then Some len else strspn_loop string skip (len + 1) m }
     else Some len }"

definition strspn :: "addr \<Rightarrow> addr \<Rightarrow> mem \<Rightarrow> nat option" where
  "strspn string skip m = strspn_loop string skip 0 m"

partial_function (option) strpbrk :: "addr \<Rightarrow> addr \<Rightarrow> mem \<Rightarrow> addr option" where
  "strpbrk string stop m = do {
     b \<leftarrow> m string;
     if b \<noteq> 0 then do {
       q \<leftarrow> strchr stop b m;
       if q \<noteq> NULL then Some string else strpbrk (string + 1) stop m }
     else Some NULL }"

partial_function (option) strrchr_loop :: "addr \<Rightarrow> 8 word \<Rightarrow> addr \<Rightarrow> mem \<Rightarrow> addr option" where
  "strrchr_loop string c p m = do {
     b \<leftarrow> m string;
     if b \<noteq> 0 then strrchr_loop (string + 1) c (if b = c then string else p) m else Some p }"

definition strrchr :: "addr \<Rightarrow> 8 word \<Rightarrow> mem \<Rightarrow> addr option" where
  "strrchr string c m = strrchr_loop string c NULL m"

definition strstr :: "addr \<Rightarrow> addr \<Rightarrow> mem \<Rightarrow> addr option" where
  "strstr haystack needle m = do {
     haystack_len \<leftarrow> strlen haystack m;
     needle_len \<leftarrow> strlen needle m;
     if haystack_len \<ge> needle_len then do {
       r \<leftarrow> for_ret 0 (haystack_len - needle_len + 1) (\<lambda>i _. do {
         c \<leftarrow> memcmp (haystack + i) needle needle_len m;
         Some (if c = 0 then Inr (haystack + i) else Inl ()) }) ();
       Some (case r of Inr p \<Rightarrow> p | Inl _ \<Rightarrow> NULL) }
     else Some NULL }"

definition strlcpy :: "addr \<Rightarrow> addr \<Rightarrow> nat \<Rightarrow> mem \<Rightarrow> (nat \<times> mem) option" where
  "strlcpy dst src n m = do {
     ASSERT (dst \<noteq> NULL);
     ASSERT (src \<noteq> NULL);
     src_len \<leftarrow> strlen src m;
     if n > 0 then do {
       let dst_len = (if src_len < n - 1 then src_len else n - 1);
       (_, m) \<leftarrow> memcpy dst src dst_len m;
       m \<leftarrow> store (dst + dst_len) 0 m;
       Some (src_len, m) }
     else Some (src_len, m) }"

definition strlcat :: "addr \<Rightarrow> addr \<Rightarrow> nat \<Rightarrow> mem \<Rightarrow> (nat \<times> mem) option" where
  "strlcat dst src n m = do {
     ASSERT (dst \<noteq> NULL);
     ASSERT (src \<noteq> NULL);
     src_len \<leftarrow> strlen src m;
     dst_len \<leftarrow> strlen dst m;
     if n > 0 \<and> dst_len < n then do {
       let copy_cnt = (if src_len < n - dst_len - 1 then src_len else n - dst_len - 1);
       (_, m) \<leftarrow> memcpy (dst + dst_len) src copy_cnt m;
       m \<leftarrow> store (dst + dst_len + copy_cnt) 0 m;
       Some (src_len + dst_len, m) }
     else Some (src_len + dst_len, m) }"

section \<open>Tokens\<close>

text \<open>The two loops of \<open>strtok_r\<close>; \<open>Inr\<close> is the end of the string reached in the first.\<close>

partial_function (option) skip_delims :: "addr \<Rightarrow> addr \<Rightarrow> mem \<Rightarrow> (addr + addr) option" where
  "skip_delims s delimiters m = do {
     b \<leftarrow> m s;
     q \<leftarrow> strchr delimiters b m;
     if q \<noteq> NULL then (if b = 0 then Some (Inr s) else skip_delims (s + 1) delimiters m)
     else Some (Inl s) }"

partial_function (option) skip_token :: "addr \<Rightarrow> addr \<Rightarrow> mem \<Rightarrow> addr option" where
  "skip_token s delimiters m = do {
     b \<leftarrow> m s;
     q \<leftarrow> strchr delimiters b m;
     if q = NULL then skip_token (s + 1) delimiters m else Some s }"

text \<open>The result is the token, the new value of \<open>*save_ptr\<close> and the memory.\<close>

definition strtok_r :: "addr \<Rightarrow> addr \<Rightarrow> addr \<Rightarrow> mem \<Rightarrow> (addr \<times> addr \<times> mem) option" where
  "strtok_r s delimiters save m = do {
     ASSERT (delimiters \<noteq> NULL);
     let s = (if s = NULL then save else s);
     ASSERT (s \<noteq> NULL);
     r \<leftarrow> skip_delims s delimiters m;
     case r of
       Inr s \<Rightarrow> Some (NULL, s, m)
     | Inl token \<Rightarrow> do {
         s \<leftarrow> skip_token token delimiters m;
         b \<leftarrow> m s;
         if b \<noteq> 0 then do { m \<leftarrow> store s 0 m; Some (token, s + 1, m) }
         else Some (token, s, m) } }"

declare strlen_loop.simps [code] strnlen_loop.simps [code] strcmp_loop.simps [code] strchr_loop.simps [code]
  strcspn_loop.simps [code] strspn_loop.simps [code] strpbrk.simps [code] strrchr_loop.simps [code]
  skip_delims.simps [code] skip_token.simps [code]

end
