(* ===== verification/StringSpec.thy ===== *)
theory StringSpec
  imports Strings
begin

text \<open>
  What the functions of lib/string.c compute on strings and blocks: comparison is the lexicographic
  order of the bytes, \<open>memmove\<close> is a simultaneous assignment however the blocks overlap, copies with a
  bound are truncated and always terminated, and \<open>strtok_r\<close> cuts the next word out of a string.
\<close>

definition bytes_at :: "mem \<Rightarrow> addr \<Rightarrow> 8 word list \<Rightarrow> bool" where
  "bytes_at m p bs \<longleftrightarrow> (\<forall>i < length bs. m (p + i) = Some (bs ! i))"

definition str_at :: "mem \<Rightarrow> addr \<Rightarrow> 8 word list \<Rightarrow> bool" where
  "str_at m p s \<longleftrightarrow> bytes_at m p (s @ [0]) \<and> 0 \<notin> set s"

lemma bytes_at_simps [simp]:
  "bytes_at m p []"
  "bytes_at m p (b # bs) \<longleftrightarrow> m p = Some b \<and> bytes_at m (p + 1) bs"
proof -
  show "bytes_at m p (b # bs) \<longleftrightarrow> m p = Some b \<and> bytes_at m (p + 1) bs"
    by (simp add: bytes_at_def All_less_Suc2)
qed (simp add: bytes_at_def)

lemma bytes_at_append [simp]: "bytes_at m p (xs @ ys) \<longleftrightarrow> bytes_at m p xs \<and> bytes_at m (p + length xs) ys"
  by (induction xs arbitrary: p) auto

lemma str_at_simps [simp]:
  "str_at m p [] \<longleftrightarrow> m p = Some 0"
  "str_at m p (b # s) \<longleftrightarrow> b \<noteq> 0 \<and> m p = Some b \<and> str_at m (p + 1) s"
  by (auto simp: str_at_def)

lemma bytes_at_cong:
  "bytes_at m p bs \<Longrightarrow> \<forall>a. p \<le> a \<and> a < p + length bs \<longrightarrow> m' a = m a \<Longrightarrow> bytes_at m' p bs"
  by (simp add: bytes_at_def)

lemma str_at_cong:
  "str_at m p s \<Longrightarrow> \<forall>a. p \<le> a \<and> a \<le> p + length s \<longrightarrow> m' a = m a \<Longrightarrow> str_at m' p s"
  unfolding str_at_def by (auto intro: bytes_at_cong[of m p "s @ [0]"] simp del: bytes_at_append)

lemma str_at_suffix: "str_at m p (xs @ ys) \<Longrightarrow> str_at m (p + length xs) ys"
proof (induction xs arbitrary: p)
  case (Cons a xs)
  then show ?case using Cons.IH[of "p + 1"] by simp
qed simp

section \<open>Length, comparison, search\<close>

lemma strlen_str: "str_at m p s \<Longrightarrow> p \<noteq> NULL \<Longrightarrow> strlen p m = Some (length s)"
proof -
  have "strlen_loop p m = Some (p + length s)" if "str_at m p s" for p
    using that by (induction s arbitrary: p) (subst strlen_loop.simps, simp)+
  then show "str_at m p s \<Longrightarrow> p \<noteq> NULL \<Longrightarrow> strlen p m = Some (length s)" by (simp add: strlen_def)
qed

lemma strnlen_str:
  assumes "str_at m p s" shows "strnlen p n m = Some (min n (length s))"
proof -
  have "strnlen_loop p n len m = Some (min n (length s))"
    if "len \<le> n" "len \<le> length s" "str_at m (p + len) (drop len s)" for len
    using that
  proof (induction "length s - len" arbitrary: len)
    case 0
    then show ?case by (subst strnlen_loop.simps) simp
  next
    case (Suc k)
    then have "drop len s = s ! len # drop (Suc len) s" by (simp add: Cons_nth_drop_Suc)
    then have h: "m (p + len) = Some (s ! len)" "s ! len \<noteq> 0" "str_at m (p + Suc len) (drop (Suc len) s)"
      using Suc.prems(3) by simp_all
    show ?case
    proof (cases "len < n")
      case True
      then have "strnlen_loop p n (Suc len) m = Some (min n (length s))"
        using Suc.hyps(1)[of "Suc len"] Suc.hyps(2) h by simp
      then show ?thesis using h True by (subst strnlen_loop.simps) simp
    next
      case False
      then show ?thesis using h Suc.prems by (subst strnlen_loop.simps) simp
    qed
  qed
  then show ?thesis using assms by (simp add: strnlen_def)
qed

definition cmp_bytes :: "8 word list \<Rightarrow> 8 word list \<Rightarrow> int" where
  "cmp_bytes xs ys = (if xs = ys then 0 else if ord_class.lexordp xs ys then -1 else 1)"

lemma strcmp_str:
  assumes "str_at m a xs" "str_at m b ys" "a \<noteq> NULL" "b \<noteq> NULL"
  shows "strcmp a b m = Some (cmp_bytes xs ys)"
proof -
  have "strcmp_loop a b m = Some (cmp_bytes xs ys)" if "str_at m a xs" "str_at m b ys" for a b
    using that
  proof (induction xs arbitrary: a b ys)
    case Nil
    then show ?case
      by (subst strcmp_loop.simps) (cases ys, auto simp: cmp_bytes_def word_gt_0)
  next
    case (Cons x xs)
    then show ?case
    proof (cases ys)
      case Nil
      then show ?thesis using Cons.prems
        by (subst strcmp_loop.simps) (auto simp: cmp_bytes_def word_gt_0)
    next
      case (Cons y ys')
      have "strcmp_loop (a + 1) (b + 1) m = Some (cmp_bytes xs ys')" if "x = y"
        using Cons.IH[of "a + 1" "b + 1" ys'] Cons.prems Cons by simp
      then show ?thesis using Cons.prems Cons
        by (subst strcmp_loop.simps) (auto simp: cmp_bytes_def)
    qed
  qed
  then show ?thesis using assms by (simp add: strcmp_def)
qed

lemma memcmp_bytes:
  assumes "bytes_at m a xs" "bytes_at m b ys" "length xs = length ys" "a \<noteq> NULL" "b \<noteq> NULL"
  shows "memcmp a b (length xs) m = Some (cmp_bytes xs ys)"
proof -
  have "memcmp_loop (length xs) a b m = Some (cmp_bytes xs ys)"
    if "bytes_at m a xs" "bytes_at m b ys" "length xs = length ys" for a b
    using that(3,1,2)
    by (induction xs ys arbitrary: a b rule: list_induct2) (auto simp: cmp_bytes_def)
  then show ?thesis using assms by (simp add: memcmp_def)
qed

lemma strchr_str:
  assumes "str_at m p s" "p \<noteq> NULL"
  shows "strchr p c m = Some (if c \<in> set s \<or> c = 0 then p + length (takeWhile (\<lambda>b. b \<noteq> c) s) else NULL)"
proof -
  have "strchr_loop p c m = Some (if c \<in> set s \<or> c = 0 then p + length (takeWhile (\<lambda>b. b \<noteq> c) s) else NULL)"
    if "str_at m p s" for p
    using that by (induction s arbitrary: p) (subst strchr_loop.simps, auto)+
  then show ?thesis using assms by (simp add: strchr_def)
qed

lemma strchr_found:
  assumes "str_at m p s" "p \<noteq> NULL"
  shows "\<exists>q. strchr p c m = Some q \<and> (q \<noteq> NULL \<longleftrightarrow> c \<in> set s \<or> c = 0)"
  using strchr_str[OF assms, of c] assms(2) by auto

section \<open>Copies\<close>

definition copied :: "addr \<Rightarrow> addr \<Rightarrow> nat \<Rightarrow> mem \<Rightarrow> mem" where
  "copied dst src n m = (\<lambda>a. if dst \<le> a \<and> a < dst + n then m (src + (a - dst)) else m a)"

definition mapped :: "addr \<Rightarrow> nat \<Rightarrow> mem \<Rightarrow> bool" where
  "mapped p n m \<longleftrightarrow> (\<forall>a. p \<le> a \<and> a < p + n \<longrightarrow> m a \<noteq> None)"

lemma copy_up_copied:
  assumes "mapped dst n m" "mapped src n m" "dst < src \<or> src + n \<le> dst"
  shows "copy_up n dst src m = Some (copied dst src n m)"
  using assms
proof (induction n arbitrary: dst src m)
  case 0
  then show ?case by (auto simp: copied_def fun_eq_iff)
next
  case (Suc n)
  obtain b where b: "m src = Some b" using Suc.prems(2) by (auto simp: mapped_def)
  have d: "m dst \<noteq> None" using Suc.prems(1) by (simp add: mapped_def)
  let ?m = "m(dst \<mapsto> b)"
  have "mapped (dst + 1) n ?m" "mapped (src + 1) n ?m" "dst + 1 < src + 1 \<or> src + 1 + n \<le> dst + 1"
    using Suc.prems by (auto simp: mapped_def)
  from Suc.IH[OF this] have "copy_up n (dst + 1) (src + 1) ?m = Some (copied (dst + 1) (src + 1) n ?m)" .
  moreover have "copied (dst + 1) (src + 1) n ?m = copied dst src (Suc n) m"
  proof
    fix a
    consider "a = dst" | "dst < a" "a < dst + Suc n" | "a < dst \<or> dst + Suc n \<le> a" by linarith
    then show "copied (dst + 1) (src + 1) n ?m a = copied dst src (Suc n) m a"
      by cases (use Suc.prems(3) b in \<open>auto simp: copied_def Suc_diff_le intro!: arg_cong[where f = m]\<close>)
  qed
  ultimately show ?case using b d by (auto simp: store_def)
qed

lemma copy_down_copied:
  assumes "mapped dst n m" "mapped src n m" "src \<le> dst"
  shows "copy_down n (dst + n) (src + n) m = Some (copied dst src n m)"
  using assms
proof (induction n arbitrary: m)
  case 0
  then show ?case by (auto simp: copied_def fun_eq_iff)
next
  case (Suc n)
  have "m (src + n) \<noteq> None" using Suc.prems(2) by (simp add: mapped_def)
  then obtain b where b: "m (src + n) = Some b" by blast
  have d: "m (dst + n) \<noteq> None" using Suc.prems(1) by (simp add: mapped_def)
  let ?m = "m(dst + n \<mapsto> b)"
  have "mapped dst n ?m" "mapped src n ?m" using Suc.prems by (auto simp: mapped_def)
  from Suc.IH[OF this Suc.prems(3)] have "copy_down n (dst + n) (src + n) ?m = Some (copied dst src n ?m)" .
  moreover have "copied dst src n ?m = copied dst src (Suc n) m"
  proof
    fix a
    consider "a = dst + n" | "a \<noteq> dst + n" by blast
    then show "copied dst src n ?m a = copied dst src (Suc n) m a"
      by cases (use Suc.prems(3) b in \<open>auto simp: copied_def\<close>)
  qed
  ultimately show ?case using b d by (auto simp: store_def)
qed

lemma memmove_copied:
  assumes "mapped dst n m" "mapped src n m" "dst \<noteq> NULL" "src \<noteq> NULL"
  shows "memmove dst src n m = Some (if dst < src then dst + n else dst, copied dst src n m)"
  using copy_up_copied[OF assms(1,2)] copy_down_copied[OF assms(1,2)] assms(3,4)
  by (cases "dst < src") (auto simp: memmove_def)

lemma bytes_at_mapped: "bytes_at m p bs \<Longrightarrow> n \<le> length bs \<Longrightarrow> mapped p n m"
  unfolding mapped_def bytes_at_def by (metis le_add_diff_inverse less_diff_conv2 less_le_trans nat_add_left_cancel_less option.discI)

lemma bytes_at_copied:
  assumes "bytes_at m src bs" "n \<le> length bs" shows "bytes_at (copied dst src n m) dst (take n bs)"
  using assms by (auto simp: bytes_at_def copied_def)

text \<open>Whatever the size, the copy in a buffer of \<open>n\<close> bytes is the string cut to \<open>n - 1\<close>, terminated.\<close>

lemma strlcpy_str:
  assumes "str_at m src s" "mapped dst n m" "src \<noteq> NULL" "dst \<noteq> NULL" "0 < n"
    "src + length s < dst \<or> dst + n \<le> src"
  shows "\<exists>m'. strlcpy dst src n m = Some (length s, m') \<and> str_at m' dst (take (n - 1) s)
    \<and> (\<forall>a. a < dst \<or> dst + n \<le> a \<longrightarrow> m' a = m a)"
proof -
  let ?k = "if length s < n - 1 then length s else n - 1"
  have k: "?k \<le> n - 1" "?k \<le> length s" by auto
  have b: "bytes_at m src (s @ [0])" "0 \<notin> set s" using assms(1) by (simp_all add: str_at_def)
  have maps: "mapped dst ?k m" "mapped src ?k m"
    using assms(2) k bytes_at_mapped[OF b(1), of ?k] by (auto simp: mapped_def)
  have c: "copy_up ?k dst src m = Some (copied dst src ?k m)"
    by (rule copy_up_copied[OF maps]) (use k assms(5,6) in auto)
  let ?m = "copied dst src ?k m"
  have "?m (dst + ?k) \<noteq> None" using assms(2,5) k by (auto simp: copied_def mapped_def)
  then have st: "store (dst + ?k) 0 ?m = Some (?m(dst + ?k \<mapsto> 0))" by (simp add: store_def)
  have "bytes_at ?m dst (take ?k s)" using bytes_at_copied[OF b(1), of ?k dst] k by simp
  then have "bytes_at (?m(dst + ?k \<mapsto> 0)) dst (take ?k s)"
    by (rule bytes_at_cong) (auto simp: min_def)
  moreover have "take ?k s = take (n - 1) s" by auto
  moreover have "0 \<notin> set (take ?k s)" using b(2) by (meson in_set_takeD)
  ultimately have "str_at (?m(dst + ?k \<mapsto> 0)) dst (take (n - 1) s)"
    using k by (simp add: str_at_def min_def split: if_splits)
  moreover have "strlcpy dst src n m = Some (length s, ?m(dst + ?k \<mapsto> 0))"
    using strlen_str[OF assms(1,3)] assms(3-5) c st by (simp add: strlcpy_def memcpy_def Let_def)
  moreover have "\<forall>a. a < dst \<or> dst + n \<le> a \<longrightarrow> (?m(dst + ?k \<mapsto> 0)) a = m a"
    using k assms(5) by (auto simp: copied_def)
  ultimately show ?thesis by blast
qed

section \<open>Tokens\<close>

lemma skip_delims_str:
  assumes "str_at m p s" "str_at m d ds" "d \<noteq> NULL"
  shows "skip_delims p d m = Some (if dropWhile (\<lambda>b. b \<in> set ds) s = [] then Inr (p + length s)
    else Inl (p + length (takeWhile (\<lambda>b. b \<in> set ds) s)))"
  using assms(1)
proof (induction s arbitrary: p)
  case Nil
  then show ?case using strchr_found[OF assms(2,3), of 0] by (subst skip_delims.simps) auto
next
  case (Cons b s)
  then show ?case using strchr_found[OF assms(2,3), of b] Cons.IH[of "p + 1"]
    by (subst skip_delims.simps) auto
qed

lemma skip_token_str:
  assumes "str_at m p s" "str_at m d ds" "d \<noteq> NULL"
  shows "skip_token p d m = Some (p + length (takeWhile (\<lambda>b. b \<notin> set ds) s))"
  using assms(1)
proof (induction s arbitrary: p)
  case Nil
  then show ?case using strchr_found[OF assms(2,3), of 0] by (subst skip_token.simps) auto
next
  case (Cons b s)
  then show ?case using strchr_found[OF assms(2,3), of b] Cons.IH[of "p + 1"]
    by (subst skip_token.simps) auto
qed

text \<open>The next word of a string and what is left behind it, without the delimiter that ended it.\<close>

definition next_word :: "8 word list \<Rightarrow> 8 word list \<Rightarrow> 8 word list" where
  "next_word ds s = takeWhile (\<lambda>b. b \<notin> set ds) (dropWhile (\<lambda>b. b \<in> set ds) s)"

definition after_word :: "8 word list \<Rightarrow> 8 word list \<Rightarrow> 8 word list" where
  "after_word ds s = tl (dropWhile (\<lambda>b. b \<notin> set ds) (dropWhile (\<lambda>b. b \<in> set ds) s))"

lemma strtok_r_str:
  assumes "str_at m p s" "str_at m d ds" "d \<noteq> NULL" "p \<noteq> NULL" "q = p \<and> save = x \<or> q = NULL \<and> save = p"
    "d + length ds < p \<or> p + length s < d"
  shows "\<exists>t save' m'. strtok_r q d save m = Some (t, save', m') \<and> p \<le> save' \<and> save' + length (after_word ds s) \<le> p + length s
    \<and> str_at m' save' (after_word ds s) \<and> str_at m' d ds
    \<and> (if next_word ds s = [] then t = NULL \<and> m' = m
       else p \<le> t \<and> str_at m' t (next_word ds s) \<and> (t + length (next_word ds s) < save' \<or> after_word ds s = []))
    \<and> (\<forall>a. a < p \<or> p + length s < a \<longrightarrow> m' a = m a)"
proof -
  define pre where "pre = takeWhile (\<lambda>b. b \<in> set ds) s"
  define s1 where "s1 = dropWhile (\<lambda>b. b \<in> set ds) s"
  define w where "w = takeWhile (\<lambda>b. b \<notin> set ds) s1"
  define r where "r = dropWhile (\<lambda>b. b \<notin> set ds) s1"
  have s: "s = pre @ s1" "s1 = w @ r" by (simp_all add: pre_def s1_def w_def r_def)
  have nw: "next_word ds s = w" "after_word ds s = tl r"
    by (simp_all add: next_word_def after_word_def w_def r_def s1_def)
  let ?t = "p + length pre"
  have s1at: "str_at m ?t s1" using str_at_suffix[of m p pre s1] assms(1) s(1) by simp
  then have rat: "str_at m (?t + length w) r" using str_at_suffix[of m ?t w r] s(2) by simp
  have start: "(if q = NULL then save else q) = p" using assms(4,5) by auto
  note sk = skip_delims_str[OF assms(1-3)]
  show ?thesis
  proof (cases "s1 = []")
    case True
    then have "strtok_r q d save m = Some (NULL, p + length s, m)"
      using sk start assms(3,4) by (simp add: strtok_r_def s1_def Let_def)
    moreover have "m (p + length s) = Some 0" using s1at True s(1) by simp
    ultimately show ?thesis using nw True s(2) assms(2) by simp
  next
    case False
    have w: "w \<noteq> []"
      using False hd_dropWhile[of "\<lambda>b. b \<in> set ds" s] unfolding w_def s1_def
      by (cases "dropWhile (\<lambda>b. b \<in> set ds) s") auto
    have st: "skip_delims p d m = Some (Inl ?t)" using sk False by (simp add: s1_def pre_def)
    have sw: "skip_token ?t d m = Some (?t + length w)" using skip_token_str[OF s1at assms(2,3)] by (simp add: w_def)
    have wb: "bytes_at m ?t w" "0 \<notin> set w" using s1at s(2) by (auto simp: str_at_def)
    show ?thesis
    proof (cases r)
      case Nil
      then have z: "m (?t + length w) = Some 0" using rat by simp
      then have "strtok_r q d save m = Some (?t, ?t + length w, m)"
        using st sw start assms(3,4) by (simp add: strtok_r_def Let_def)
      moreover have "str_at m ?t w" using wb z by (simp add: str_at_def)
      ultimately show ?thesis using nw w Nil z s assms(2) by simp
    next
      case (Cons c r')
      then have c: "c \<noteq> 0" "m (?t + length w) = Some c" "str_at m (?t + length w + 1) r'" using rat by simp_all
      let ?m = "m(?t + length w \<mapsto> 0)"
      have "strtok_r q d save m = Some (?t, ?t + length w + 1, ?m)"
        using st sw start assms(3,4) c by (simp add: strtok_r_def Let_def store_def)
      moreover have "bytes_at ?m ?t w" using wb(1) by (rule bytes_at_cong) auto
      then have "str_at ?m ?t w" using wb(2) by (simp add: str_at_def)
      moreover have "str_at ?m (?t + length w + 1) r'" using c(3) by (rule str_at_cong) auto
      moreover have "str_at ?m d ds" using assms(2) by (rule str_at_cong) (use assms(6) s Cons in auto)
      ultimately show ?thesis using nw w Cons s by simp
    qed
  qed
qed

end
