(* ===== verification/Bytes.thy ===== *)
theory Bytes
  imports StringSpec
begin

text \<open>
  Words in the byte memory of lib/string.c: a variable is the run of its bytes, lowest first, and is read and
  written whole.  A write is the function \<open>wr\<close>, so that the lemmas rewrite what is read after a write.
\<close>

section \<open>Bytes of a variable\<close>

text \<open>The bytes of a variable, and \<open>memcpy\<close> from a variable to memory.\<close>

primrec load_bytes :: "addr \<Rightarrow> nat \<Rightarrow> mem \<Rightarrow> 8 word list option" where
  "load_bytes a 0 m = Some []"
| "load_bytes a (Suc n) m = do { b \<leftarrow> m a; bs \<leftarrow> load_bytes (a + 1) n m; Some (b # bs) }"

primrec copy_bytes :: "addr \<Rightarrow> 8 word list \<Rightarrow> mem \<Rightarrow> mem option" where
  "copy_bytes a [] m = Some m"
| "copy_bytes a (b # bs) m = do { m \<leftarrow> store a b m; copy_bytes (a + 1) bs m }"

lemma load_bytes_at: "bytes_at m a bs \<Longrightarrow> load_bytes a (length bs) m = Some bs"
  by (induction bs arbitrary: a) auto

lemma load_bytes_mapped: "mapped a n m \<Longrightarrow> \<exists>bs. load_bytes a n m = Some bs \<and> length bs = n \<and> bytes_at m a bs"
proof (induction n arbitrary: a)
  case (Suc n)
  have "mapped (a + 1) n m" using Suc.prems by (auto simp: mapped_def)
  from Suc.IH[OF this] obtain bs where "load_bytes (a + 1) n m = Some bs" "length bs = n" "bytes_at m (a + 1) bs" by blast
  moreover have "m a \<noteq> None" using Suc.prems by (simp add: mapped_def)
  then obtain b where "m a = Some b" by auto
  ultimately show ?case by (auto intro!: exI[of _ "b # bs"])
qed simp

lemma copy_bytes_ok:
  assumes "mapped a (length bs) m"
  shows "\<exists>m'. copy_bytes a bs m = Some m' \<and> bytes_at m' a bs \<and> dom m' = dom m
    \<and> (\<forall>x. x < a \<or> a + length bs \<le> x \<longrightarrow> m' x = m x)"
  using assms
proof (induction bs arbitrary: a m)
  case (Cons b bs)
  have a: "m a \<noteq> None" "mapped (a + 1) (length bs) (m(a \<mapsto> b))" using Cons.prems by (auto simp: mapped_def)
  from Cons.IH[OF a(2)] obtain m' where m': "copy_bytes (a + 1) bs (m(a \<mapsto> b)) = Some m'" "bytes_at m' (a + 1) bs"
    "dom m' = dom (m(a \<mapsto> b))" "\<forall>x. x < a + 1 \<or> a + 1 + length bs \<le> x \<longrightarrow> m' x = (m(a \<mapsto> b)) x" by blast
  have "dom m' = dom m" using m'(3) a(1) by auto
  then show ?case using m' a(1) by (intro exI[of _ m']) (auto simp: store_def)
qed simp

lemma mapped_dom: "mapped a n m \<Longrightarrow> dom m' = dom m \<Longrightarrow> mapped a n m'"
  unfolding mapped_def by (metis domIff)

lemma mapped_part: "mapped a n m \<Longrightarrow> a \<le> b \<Longrightarrow> b + k \<le> a + n \<Longrightarrow> mapped b k m"
  by (auto simp: mapped_def)

lemma copy_bytes_at:
  assumes "bytes_at m a old" "length bs = length old"
  shows "\<exists>m'. copy_bytes a bs m = Some m' \<and> bytes_at m' a bs \<and> (\<forall>x. x < a \<or> a + length bs \<le> x \<longrightarrow> m' x = m x)"
  using copy_bytes_ok[of a bs m] bytes_at_mapped[OF assms(1), of "length bs"] assms(2) by auto

section \<open>Words in memory\<close>

primrec le_bytes :: "nat \<Rightarrow> nat \<Rightarrow> 8 word list" where
  "le_bytes 0 n = []"
| "le_bytes (Suc k) n = word_of_nat n # le_bytes k (n div 256)"

primrec of_le :: "8 word list \<Rightarrow> nat" where
  "of_le [] = 0"
| "of_le (b # bs) = unat b + 256 * of_le bs"

definition ld64 :: "addr \<Rightarrow> mem \<Rightarrow> nat option" where "ld64 a m = map_option of_le (load_bytes a 8 m)"
definition ld32 :: "addr \<Rightarrow> mem \<Rightarrow> nat option" where "ld32 a m = map_option of_le (load_bytes a 4 m)"
definition st64 :: "addr \<Rightarrow> nat \<Rightarrow> mem \<Rightarrow> mem option" where "st64 a n m = copy_bytes a (le_bytes 8 n) m"
definition st32 :: "addr \<Rightarrow> nat \<Rightarrow> mem \<Rightarrow> mem option" where "st32 a n m = copy_bytes a (le_bytes 4 n) m"

section \<open>Reading and writing\<close>

lemma length_le_bytes [simp]: "length (le_bytes k n) = k"
  by (induction k arbitrary: n) auto

lemma of_le_bytes: "n < 256 ^ k \<Longrightarrow> of_le (le_bytes k n) = n"
proof (induction k arbitrary: n)
  case (Suc k)
  then have "n div 256 < 256 ^ k" by (simp add: less_mult_imp_div_less mult.commute)
  then show ?case using Suc.IH[of "n div 256"] by (simp add: unat_of_nat mod_mult_div_eq)
qed simp

definition wr :: "addr \<Rightarrow> 8 word list \<Rightarrow> mem \<Rightarrow> mem" where
  "wr a bs m = (\<lambda>x. if a \<le> x \<and> x < a + length bs then Some (bs ! (x - a)) else m x)"

lemma copy_bytes_wr: "mapped a (length bs) m \<Longrightarrow> copy_bytes a bs m = Some (wr a bs m)"
proof -
  assume "mapped a (length bs) m"
  from copy_bytes_ok[OF this] obtain m' where m': "copy_bytes a bs m = Some m'" "bytes_at m' a bs"
    "\<forall>x. x < a \<or> a + length bs \<le> x \<longrightarrow> m' x = m x" by blast
  have "m' x = wr a bs m x" for x
  proof (cases "a \<le> x \<and> x < a + length bs")
    case True
    then obtain i where x: "x = a + i" "i < length bs" by (metis add_less_cancel_left le_Suc_ex)
    then have "m' x = Some (bs ! i)" using m'(2) by (simp add: bytes_at_def)
    then show ?thesis using x by (simp add: wr_def)
  next
    case False
    then show ?thesis using m'(3) by (auto simp: wr_def)
  qed
  then show ?thesis using m'(1) by auto
qed

lemma load_bytes_cong: "\<forall>x. a \<le> x \<and> x < a + n \<longrightarrow> m' x = m x \<Longrightarrow> load_bytes a n m' = load_bytes a n m"
  by (induction n arbitrary: a) auto

lemma load_wr_same: "load_bytes a (length bs) (wr a bs m) = Some bs"
  by (rule load_bytes_at) (simp add: bytes_at_def wr_def)

lemma ld64_same: "n < 2 ^ 64 \<Longrightarrow> ld64 a (wr a (le_bytes 8 n) m) = Some n"
  using load_wr_same[of a "le_bytes 8 n" m] of_le_bytes[of n 8] by (simp add: ld64_def)

lemma ld32_same: "n < 2 ^ 32 \<Longrightarrow> ld32 a (wr a (le_bytes 4 n) m) = Some n"
  using load_wr_same[of a "le_bytes 4 n" m] of_le_bytes[of n 4] by (simp add: ld32_def)

lemma of_le_less: "of_le bs < 256 ^ length bs"
proof (induction bs)
  case (Cons b bs)
  have "unat b < 256" using unsigned_less[of b] by simp
  then show ?case using Cons by simp
qed simp

lemma of_le_zeros: "of_le (replicate n 0) = 0"
  by (induction n) auto

lemma load_bytes_length: "load_bytes a n m = Some bs \<Longrightarrow> length bs = n"
  by (induction n arbitrary: a bs) (auto split: bind_splits)

lemma ld64_less: "ld64 a m = Some n \<Longrightarrow> n < 2 ^ 64"
proof -
  assume "ld64 a m = Some n"
  then obtain bs where bs: "load_bytes a 8 m = Some bs" "n = of_le bs" by (auto simp: ld64_def)
  then show ?thesis using of_le_less[of bs] load_bytes_length[OF bs(1)] by simp
qed

lemma ld64_cong: "\<forall>x. a \<le> x \<and> x < a + 8 \<longrightarrow> m' x = m x \<Longrightarrow> ld64 a m' = ld64 a m"
  by (simp add: ld64_def load_bytes_cong[of a 8 m' m])

lemma ld32_cong: "\<forall>x. a \<le> x \<and> x < a + 4 \<longrightarrow> m' x = m x \<Longrightarrow> ld32 a m' = ld32 a m"
  by (simp add: ld32_def load_bytes_cong[of a 4 m' m])

lemma ld64_other: "b + 8 \<le> a \<or> a + length bs \<le> b \<Longrightarrow> ld64 b (wr a bs m) = ld64 b m"
  by (rule ld64_cong) (auto simp: wr_def)

lemma ld32_other: "b + 4 \<le> a \<or> a + length bs \<le> b \<Longrightarrow> ld32 b (wr a bs m) = ld32 b m"
  by (rule ld32_cong) (auto simp: wr_def)

lemma dom_wr: "mapped a (length bs) m \<Longrightarrow> dom (wr a bs m) = dom m"
  by (auto simp: wr_def mapped_def dom_def split: if_splits)

lemma st64_wr: "mapped a 8 m \<Longrightarrow> st64 a n m = Some (wr a (le_bytes 8 n) m)"
  by (simp add: st64_def copy_bytes_wr)

lemma st32_wr: "mapped a 4 m \<Longrightarrow> st32 a n m = Some (wr a (le_bytes 4 n) m)"
  by (simp add: st32_def copy_bytes_wr)

lemma mapped_wr [simp]: "mapped b k m \<Longrightarrow> mapped b k (wr a bs m)"
  by (simp add: wr_def mapped_def)

definition zeroed :: "addr \<Rightarrow> nat \<Rightarrow> mem \<Rightarrow> mem" where
  "zeroed a n m = (\<lambda>x. if a \<le> x \<and> x < a + n then Some 0 else m x)"

lemma memset_zeroed: "mapped a n m \<Longrightarrow> memset_loop n a 0 m = Some (zeroed a n m)"
proof (induction n arbitrary: a m)
  case (Suc n)
  have a: "m a \<noteq> None" "mapped (a + 1) n (m(a \<mapsto> 0))" using Suc.prems by (auto simp: mapped_def)
  have "zeroed (a + 1) n (m(a \<mapsto> 0)) = zeroed a (Suc n) m" by (auto simp: zeroed_def fun_eq_iff)
  moreover have "memset_loop (Suc n) a 0 m = memset_loop n (a + 1) 0 (m(a \<mapsto> 0))" using a(1) by (auto simp: store_def)
  ultimately show ?case using Suc.IH[OF a(2)] by (simp only:)
qed (auto simp: zeroed_def fun_eq_iff)


lemma dom_copied:
  assumes "mapped src n m" "mapped dst n m" shows "dom (copied dst src n m) = dom m"
proof -
  have "copied dst src n m x \<noteq> None \<longleftrightarrow> m x \<noteq> None" for x
  proof (cases "dst \<le> x \<and> x < dst + n")
    case True
    then have "src \<le> src + (x - dst) \<and> src + (x - dst) < src + n" by auto
    then have "m (src + (x - dst)) \<noteq> None" using assms(1) unfolding mapped_def by blast
    then show ?thesis using True assms(2) by (simp add: copied_def mapped_def)
  qed (auto simp: copied_def)
  then show ?thesis by (auto simp: dom_def)
qed

end
