(* ===== verification/Bitmap.thy ===== *)
theory Bitmap
  imports Prelude
begin

unbundle bit_operations_syntax

text \<open>
  Arrays of bits (lib/kernel/bitmap.c): a bit count and an array of 32-bit words, the element type
  \<open>unsigned long\<close> of the 80x86.  Word-level access, the \<open>ASSERT\<close>s and the C loops are kept; the
  abstraction \<open>bm_bits\<close> is the list of the bits the bitmap stands for, and the lemmas relate each
  operation to it.  The three \<open>asm\<close> instructions are the bitwise operations their comments name.
  Storage from \<open>malloc\<close> has arbitrary contents: they are a parameter of \<open>bitmap_create\<close>.
\<close>

record bitmap =
  bit_cnt :: nat
  bits :: "32 word list"

definition BITMAP_ERROR :: nat where "BITMAP_ERROR = 4294967295"

definition ELEM_BITS :: nat where "ELEM_BITS = 32"

definition elem_idx :: "nat \<Rightarrow> nat" where "elem_idx bit_idx = bit_idx div ELEM_BITS"

definition bit_mask :: "nat \<Rightarrow> 32 word" where
  "bit_mask bit_idx = push_bit (bit_idx mod ELEM_BITS) 1"

definition elem_cnt :: "nat \<Rightarrow> nat" where "elem_cnt n = DIV_ROUND_UP n ELEM_BITS"

definition byte_cnt :: "nat \<Rightarrow> nat" where "byte_cnt n = 4 * elem_cnt n"

definition last_mask :: "bitmap \<Rightarrow> 32 word" where
  "last_mask b = (let last_bits = bit_cnt b mod ELEM_BITS
                  in if last_bits \<noteq> 0 then push_bit last_bits 1 - 1 else - 1)"

definition bitmap_size :: "bitmap \<Rightarrow> nat" where "bitmap_size b = bit_cnt b"

text \<open>A word of the array is updated in place; outside the array the access is undefined.\<close>

definition upd_elem :: "bitmap \<Rightarrow> nat \<Rightarrow> (32 word \<Rightarrow> 32 word) \<Rightarrow> bitmap option" where
  "upd_elem b idx f =
     (if idx < length (bits b) then Some (b\<lparr>bits := (bits b)[idx := f (bits b ! idx)]\<rparr>) else None)"

definition bitmap_mark :: "bitmap \<Rightarrow> nat \<Rightarrow> bitmap option" where
  "bitmap_mark b bit_idx = upd_elem b (elem_idx bit_idx) (\<lambda>w. w OR bit_mask bit_idx)"

definition bitmap_reset :: "bitmap \<Rightarrow> nat \<Rightarrow> bitmap option" where
  "bitmap_reset b bit_idx = upd_elem b (elem_idx bit_idx) (\<lambda>w. w AND NOT (bit_mask bit_idx))"

definition bitmap_flip :: "bitmap \<Rightarrow> nat \<Rightarrow> bitmap option" where
  "bitmap_flip b bit_idx = upd_elem b (elem_idx bit_idx) (\<lambda>w. w XOR bit_mask bit_idx)"

definition bitmap_set :: "bitmap \<Rightarrow> nat \<Rightarrow> bool \<Rightarrow> bitmap option" where
  "bitmap_set b idx value = do {
     ASSERT (idx < bit_cnt b);
     if value then bitmap_mark b idx else bitmap_reset b idx }"

definition bitmap_test :: "bitmap \<Rightarrow> nat \<Rightarrow> bool option" where
  "bitmap_test b idx = do {
     ASSERT (idx < bit_cnt b);
     if elem_idx idx < length (bits b)
     then Some ((bits b ! elem_idx idx) AND bit_mask idx \<noteq> 0) else None }"

definition bitmap_set_multiple :: "bitmap \<Rightarrow> nat \<Rightarrow> nat \<Rightarrow> bool \<Rightarrow> bitmap option" where
  "bitmap_set_multiple b start cnt value = do {
     ASSERT (start \<le> bit_cnt b);
     ASSERT (size_add start cnt \<le> bit_cnt b);
     for_upto 0 cnt (\<lambda>i b. bitmap_set b (size_add start i) value) b }"

definition bitmap_set_all :: "bitmap \<Rightarrow> bool \<Rightarrow> bitmap option" where
  "bitmap_set_all b value = bitmap_set_multiple b 0 (bitmap_size b) value"

definition bitmap_count :: "bitmap \<Rightarrow> nat \<Rightarrow> nat \<Rightarrow> bool \<Rightarrow> nat option" where
  "bitmap_count b start cnt value = do {
     ASSERT (start \<le> bit_cnt b);
     ASSERT (size_add start cnt \<le> bit_cnt b);
     for_upto 0 cnt (\<lambda>i value_cnt. do {
       t \<leftarrow> bitmap_test b (size_add start i);
       Some (if t = value then value_cnt + 1 else value_cnt) }) 0 }"

definition bitmap_contains :: "bitmap \<Rightarrow> nat \<Rightarrow> nat \<Rightarrow> bool \<Rightarrow> bool option" where
  "bitmap_contains b start cnt value = do {
     ASSERT (start \<le> bit_cnt b);
     ASSERT (size_add start cnt \<le> bit_cnt b);
     r \<leftarrow> for_ret 0 cnt (\<lambda>i _. do {
       t \<leftarrow> bitmap_test b (size_add start i);
       Some (if t = value then Inr True else Inl ()) }) ();
     Some (case r of Inr v \<Rightarrow> v | Inl _ \<Rightarrow> False) }"

definition bitmap_any :: "bitmap \<Rightarrow> nat \<Rightarrow> nat \<Rightarrow> bool option" where
  "bitmap_any b start cnt = bitmap_contains b start cnt True"

definition bitmap_none :: "bitmap \<Rightarrow> nat \<Rightarrow> nat \<Rightarrow> bool option" where
  "bitmap_none b start cnt = map_option Not (bitmap_contains b start cnt True)"

definition bitmap_all :: "bitmap \<Rightarrow> nat \<Rightarrow> nat \<Rightarrow> bool option" where
  "bitmap_all b start cnt = map_option Not (bitmap_contains b start cnt False)"

definition bitmap_scan :: "bitmap \<Rightarrow> nat \<Rightarrow> nat \<Rightarrow> bool \<Rightarrow> nat option" where
  "bitmap_scan b start cnt value = do {
     ASSERT (start \<le> bit_cnt b);
     if cnt \<le> bit_cnt b then do {
       let lst = bit_cnt b - cnt;
       r \<leftarrow> for_ret start (lst + 1) (\<lambda>i _. do {
         c \<leftarrow> bitmap_contains b i cnt (\<not> value);
         Some (if \<not> c then Inr i else Inl ()) }) ();
       Some (case r of Inr i \<Rightarrow> i | Inl _ \<Rightarrow> BITMAP_ERROR) }
     else Some BITMAP_ERROR }"

definition bitmap_scan_and_flip :: "bitmap \<Rightarrow> nat \<Rightarrow> nat \<Rightarrow> bool \<Rightarrow> (bitmap \<times> nat) option" where
  "bitmap_scan_and_flip b start cnt value = do {
     idx \<leftarrow> bitmap_scan b start cnt value;
     if idx \<noteq> BITMAP_ERROR then do {
       b \<leftarrow> bitmap_set_multiple b idx cnt (\<not> value);
       Some (b, idx) }
     else Some (b, idx) }"

text \<open>\<open>ok\<close> says that the allocation of the header succeeds, \<open>storage\<close> what \<open>malloc\<close> returns for the
  array.  The outer option is an assertion failure, the inner one the null pointer.\<close>

definition bitmap_create :: "nat \<Rightarrow> bool \<Rightarrow> 32 word list option \<Rightarrow> bitmap option option" where
  "bitmap_create n ok storage =
     (if ok then
        (case storage of
           Some g \<Rightarrow> map_option Some (bitmap_set_all \<lparr>bit_cnt = n, bits = g\<rparr> False)
         | None \<Rightarrow> if n = 0 then map_option Some (bitmap_set_all \<lparr>bit_cnt = n, bits = []\<rparr> False)
                   else Some None)
      else Some None)"

definition bitmap_buf_size :: "nat \<Rightarrow> nat" where
  "bitmap_buf_size n = 8 + byte_cnt n"

text \<open>The storage behind the header is \<open>block\<close>, of \<open>block_size - 8\<close> bytes.\<close>

definition bitmap_create_in_buf :: "nat \<Rightarrow> 32 word list \<Rightarrow> nat \<Rightarrow> bitmap option" where
  "bitmap_create_in_buf n block block_size = do {
     ASSERT (block_size \<ge> bitmap_buf_size n);
     bitmap_set_all \<lparr>bit_cnt = n, bits = block\<rparr> False }"

definition bitmap_file_size :: "bitmap \<Rightarrow> nat" where
  "bitmap_file_size b = byte_cnt (bit_cnt b)"

section \<open>The bits a bitmap stands for\<close>

definition bm_ok :: "bitmap \<Rightarrow> bool" where
  "bm_ok b \<longleftrightarrow> elem_cnt (bit_cnt b) \<le> length (bits b) \<and> bit_cnt b < BITMAP_ERROR"

definition bm_bit :: "bitmap \<Rightarrow> nat \<Rightarrow> bool" where
  "bm_bit b i = bit (bits b ! (i div 32)) (i mod 32)"

definition bm_bits :: "bitmap \<Rightarrow> bool list" where
  "bm_bits b = map (bm_bit b) [0..<bit_cnt b]"

lemma length_bm_bits [simp]: "length (bm_bits b) = bit_cnt b"
  by (simp add: bm_bits_def)

lemma nth_bm_bits [simp]: "i < bit_cnt b \<Longrightarrow> bm_bits b ! i = bm_bit b i"
  by (simp add: bm_bits_def)

lemma bm_ok_idx: "bm_ok b \<Longrightarrow> i < bit_cnt b \<Longrightarrow> elem_idx i < length (bits b)"
  using DIV_ROUND_UP_gt[of 32 i "bit_cnt b"]
  by (simp add: bm_ok_def elem_idx_def elem_cnt_def ELEM_BITS_def)

lemma bit_bit_mask: "bit (bit_mask i) n \<longleftrightarrow> n = i mod 32 \<and> n < 32"
  by (auto simp: bit_mask_def ELEM_BITS_def bit_simps)

lemma and_bit_mask: "(w AND bit_mask i \<noteq> 0) \<longleftrightarrow> bit w (i mod 32)"
  by (simp add: bit_mask_def ELEM_BITS_def push_bit_of_1 and_exp_eq_0_iff_not_bit)

lemma bitmap_test_bm: "bm_ok b \<Longrightarrow> i < bit_cnt b \<Longrightarrow> bitmap_test b i = Some (bm_bit b i)"
  using bm_ok_idx[of b i]
  by (simp add: bitmap_test_def and_bit_mask bm_bit_def elem_idx_def ELEM_BITS_def)

lemma div_mod_neq: "i \<noteq> (j::nat) \<Longrightarrow> i div 32 = j div 32 \<Longrightarrow> i mod 32 \<noteq> j mod 32"
  by (metis div_mult_mod_eq)

lemma bitmap_set_bm:
  assumes "bm_ok b" "i < bit_cnt b"
  shows "\<exists>b'. bitmap_set b i v = Some b' \<and> bm_ok b' \<and> bit_cnt b' = bit_cnt b
    \<and> length (bits b') = length (bits b) \<and> (\<forall>j. bm_bit b' j = (if j = i then v else bm_bit b j))"
proof -
  have i: "i div 32 < length (bits b)"
    using bm_ok_idx[OF assms] by (simp add: elem_idx_def ELEM_BITS_def)
  have b: "bm_bit (b\<lparr>bits := (bits b)[i div 32 := f (bits b ! (i div 32))]\<rparr>) j
      = (if j = i then v else bm_bit b j)"
    if f: "\<And>w n. n < 32 \<Longrightarrow> bit (f w) n = (if n = i mod 32 then v else bit w n)" for f j
  proof (cases "j div 32 = i div 32")
    case True
    then have "j mod 32 = i mod 32 \<longleftrightarrow> j = i" using div_mod_neq[of i j] by metis
    then show ?thesis using True i f[where n = "j mod 32" and w = "bits b ! (i div 32)"]
      by (simp add: bm_bit_def)
  next
    case False
    then have "j \<noteq> i" by auto
    then show ?thesis using False by (simp add: bm_bit_def)
  qed
  have m: "bit (w OR bit_mask i) n = (if n = i mod 32 then True else bit w n)" if "n < 32" for w n
    using that by (auto simp: bit_or_iff bit_bit_mask)
  have r: "bit (w AND NOT (bit_mask i)) n = (if n = i mod 32 then False else bit w n)" if "n < 32" for w n
    using that by (auto simp: bit_and_iff bit_not_iff bit_bit_mask)
  show ?thesis using i assms b[of "\<lambda>w. w OR bit_mask i"] b[of "\<lambda>w. w AND NOT (bit_mask i)"] m r
    by (cases v) (simp_all add: bitmap_set_def bitmap_mark_def bitmap_reset_def upd_elem_def
      elem_idx_def ELEM_BITS_def bm_ok_def)
qed

lemma bm_ok_size: "bm_ok b \<Longrightarrow> n \<le> bit_cnt b \<Longrightarrow> n < 4294967296"
  by (simp add: bm_ok_def BITMAP_ERROR_def)

lemma bitmap_set_multiple_bm:
  assumes ok: "bm_ok b" and rng: "start + cnt \<le> bit_cnt b"
  shows "\<exists>b'. bitmap_set_multiple b start cnt v = Some b' \<and> bm_ok b' \<and> bit_cnt b' = bit_cnt b
    \<and> (\<forall>j. bm_bit b' j = (if start \<le> j \<and> j < start + cnt then v else bm_bit b j))"
proof -
  let ?P = "\<lambda>i b'. bm_ok b' \<and> bit_cnt b' = bit_cnt b
    \<and> (\<forall>j. bm_bit b' j = (if start \<le> j \<and> j < start + i then v else bm_bit b j))"
  have "\<exists>b'. for_upto 0 cnt (\<lambda>i b. bitmap_set b (size_add start i) v) b = Some b' \<and> ?P cnt b'"
  proof (rule for_upto_inv)
    fix i s assume i: "i < cnt" and P: "?P i s"
    then have lt: "start + i < bit_cnt s" using rng by simp
    moreover have "size_add start i = start + i"
      using bm_ok_size[of s "start + i"] lt P by simp
    ultimately obtain s' where "bitmap_set s (size_add start i) v = Some s'" "bm_ok s'"
        "bit_cnt s' = bit_cnt s" "\<forall>j. bm_bit s' j = (if j = start + i then v else bm_bit s j)"
      using bitmap_set_bm[of s "start + i" v] P by auto
    then show "\<exists>s'. bitmap_set s (size_add start i) v = Some s' \<and> ?P (Suc i) s'"
      using P by (auto simp: less_Suc_eq)
  qed (use ok in auto)
  then show ?thesis using rng bm_ok_size[OF ok, of "start + cnt"]
    by (simp add: bitmap_set_multiple_def)
qed

lemma bitmap_contains_bm:
  assumes ok: "bm_ok b" and rng: "start + cnt \<le> bit_cnt b"
  shows "bitmap_contains b start cnt v = Some (\<exists>j. start \<le> j \<and> j < start + cnt \<and> bm_bit b j = v)"
proof -
  let ?f = "\<lambda>i (_::unit). do {
       t \<leftarrow> bitmap_test b (size_add start i);
       Some (if t = v then Inr True else Inl ()) }"
  have "(\<exists>s. for_ret 0 cnt ?f () = Some (Inl s) \<and> (\<forall>j. start \<le> j \<and> j < start + cnt \<longrightarrow> bm_bit b j \<noteq> v))
      \<or> (\<exists>r. for_ret 0 cnt ?f () = Some (Inr r)
           \<and> (r \<and> (\<exists>j. start \<le> j \<and> j < start + cnt \<and> bm_bit b j = v)))"
  proof (rule for_ret_inv)
    fix i and s :: unit assume i: "i < cnt" and P: "\<forall>j. start \<le> j \<and> j < start + i \<longrightarrow> bm_bit b j \<noteq> v"
    then have lt: "start + i < bit_cnt b" using rng by simp
    then have "bitmap_test b (size_add start i) = Some (bm_bit b (start + i))"
      using bitmap_test_bm[OF ok lt] bm_ok_size[OF ok, of "start + i"] by simp
    then show "(\<exists>s'. ?f i s = Some (Inl s') \<and> (\<forall>j. start \<le> j \<and> j < start + Suc i \<longrightarrow> bm_bit b j \<noteq> v))
      \<or> (\<exists>r. ?f i s = Some (Inr r) \<and> (r \<and> (\<exists>j. start \<le> j \<and> j < start + cnt \<and> bm_bit b j = v)))"
      using P i by (auto simp: less_Suc_eq)
  qed auto
  then show ?thesis using rng bm_ok_size[OF ok, of "start + cnt"]
    by (auto simp: bitmap_contains_def)
qed

lemma bitmap_all_bm:
  "bm_ok b \<Longrightarrow> start + cnt \<le> bit_cnt b \<Longrightarrow>
   bitmap_all b start cnt = Some (\<forall>j. start \<le> j \<and> j < start + cnt \<longrightarrow> bm_bit b j)"
  by (auto simp: bitmap_all_def bitmap_contains_bm)

lemma bitmap_none_bm:
  "bm_ok b \<Longrightarrow> start + cnt \<le> bit_cnt b \<Longrightarrow>
   bitmap_none b start cnt = Some (\<forall>j. start \<le> j \<and> j < start + cnt \<longrightarrow> \<not> bm_bit b j)"
  by (auto simp: bitmap_none_def bitmap_contains_bm)

definition bm_group :: "bitmap \<Rightarrow> nat \<Rightarrow> nat \<Rightarrow> bool \<Rightarrow> bool" where
  "bm_group b i cnt v \<longleftrightarrow> i + cnt \<le> bit_cnt b \<and> (\<forall>j. i \<le> j \<and> j < i + cnt \<longrightarrow> bm_bit b j = v)"

lemma bitmap_scan_bm:
  assumes ok: "bm_ok b" and st: "start \<le> bit_cnt b"
  shows "\<exists>r. bitmap_scan b start cnt v = Some r \<and>
    (if \<exists>i\<ge>start. bm_group b i cnt v
     then start \<le> r \<and> bm_group b r cnt v \<and> (\<forall>i. start \<le> i \<and> i < r \<longrightarrow> \<not> bm_group b i cnt v)
     else r = BITMAP_ERROR)"
proof (cases "cnt \<le> bit_cnt b \<and> start \<le> bit_cnt b - cnt")
  case False
  then have "\<not> bm_group b i cnt v" if "i \<ge> start" for i using that by (auto simp: bm_group_def)
  then show ?thesis using st False by (auto simp: bitmap_scan_def)
next
  case True
  let ?l = "bit_cnt b - cnt"
  let ?f = "\<lambda>i (_::unit). do {
         c \<leftarrow> bitmap_contains b i cnt (\<not> v);
         Some (if \<not> c then Inr i else Inl ()) }"
  have "(\<exists>s. for_ret start (?l + 1) ?f () = Some (Inl s) \<and> (\<forall>i. start \<le> i \<and> i < ?l + 1 \<longrightarrow> \<not> bm_group b i cnt v))
      \<or> (\<exists>r. for_ret start (?l + 1) ?f () = Some (Inr r)
           \<and> start \<le> r \<and> bm_group b r cnt v \<and> (\<forall>i. start \<le> i \<and> i < r \<longrightarrow> \<not> bm_group b i cnt v))"
  proof (rule for_ret_inv)
    fix i and s :: unit
    assume i: "start \<le> i" "i < ?l + 1" and P: "\<forall>j. start \<le> j \<and> j < i \<longrightarrow> \<not> bm_group b j cnt v"
    then have "i + cnt \<le> bit_cnt b" using True by simp
    moreover from this have "bitmap_contains b i cnt (\<not> v) = Some (\<not> bm_group b i cnt v)"
      using bitmap_contains_bm[OF ok, of i cnt "\<not> v"] by (auto simp: bm_group_def)
    ultimately show "(\<exists>s'. ?f i s = Some (Inl s') \<and> (\<forall>j. start \<le> j \<and> j < Suc i \<longrightarrow> \<not> bm_group b j cnt v))
      \<or> (\<exists>r. ?f i s = Some (Inr r) \<and> start \<le> r \<and> bm_group b r cnt v
           \<and> (\<forall>j. start \<le> j \<and> j < r \<longrightarrow> \<not> bm_group b j cnt v))"
      using P i by (auto simp: less_Suc_eq)
  qed (use True in auto)
  moreover have "i < ?l + 1" if "bm_group b i cnt v" for i using that by (auto simp: bm_group_def)
  ultimately have lt: "\<And>i. bm_group b i cnt v \<Longrightarrow> i < ?l + 1" and
    D: "(\<exists>s. for_ret start (?l + 1) ?f () = Some (Inl s) \<and> (\<forall>i. start \<le> i \<and> i < ?l + 1 \<longrightarrow> \<not> bm_group b i cnt v))
      \<or> (\<exists>r. for_ret start (?l + 1) ?f () = Some (Inr r)
           \<and> start \<le> r \<and> bm_group b r cnt v \<and> (\<forall>i. start \<le> i \<and> i < r \<longrightarrow> \<not> bm_group b i cnt v))"
    by blast+
  from D show ?thesis
  proof (elim disjE exE conjE)
    fix s assume s: "for_ret start (?l + 1) ?f () = Some (Inl s)"
      and no: "\<forall>i. start \<le> i \<and> i < ?l + 1 \<longrightarrow> \<not> bm_group b i cnt v"
    have none: "\<not> (\<exists>i\<ge>start. bm_group b i cnt v)" using no lt by blast
    have "bitmap_scan b start cnt v = Some BITMAP_ERROR"
      using s True st by (simp add: bitmap_scan_def Let_def)
    then show ?thesis unfolding if_not_P[OF none] by blast
  next
    fix r assume r: "for_ret start (?l + 1) ?f () = Some (Inr r)" "start \<le> r" "bm_group b r cnt v"
      "\<forall>i. start \<le> i \<and> i < r \<longrightarrow> \<not> bm_group b i cnt v"
    then have "\<exists>i\<ge>start. bm_group b i cnt v" by blast
    moreover have "bitmap_scan b start cnt v = Some r"
      using r(1) True st by (simp add: bitmap_scan_def Let_def)
    ultimately show ?thesis using r(2-4) by simp
  qed
qed

lemma bm_group_lt_error: "bm_ok b \<Longrightarrow> bm_group b i cnt v \<Longrightarrow> i \<noteq> BITMAP_ERROR"
  by (auto simp: bm_group_def bm_ok_def)

text \<open>Allocation on a bitmap: \<open>scan_and_flip\<close> finds the first group and flips exactly its bits.\<close>

lemma bitmap_scan_and_flip_bm:
  assumes ok: "bm_ok b" and st: "start \<le> bit_cnt b"
  shows "\<exists>b' r. bitmap_scan_and_flip b start cnt v = Some (b', r) \<and>
    (if \<exists>i\<ge>start. bm_group b i cnt v
     then r \<noteq> BITMAP_ERROR \<and> start \<le> r \<and> bm_group b r cnt v \<and>
       (\<forall>i. start \<le> i \<and> i < r \<longrightarrow> \<not> bm_group b i cnt v) \<and> bm_ok b' \<and> bit_cnt b' = bit_cnt b \<and>
       (\<forall>j. bm_bit b' j = (if r \<le> j \<and> j < r + cnt then \<not> v else bm_bit b j))
     else r = BITMAP_ERROR \<and> b' = b)"
proof -
  obtain r where r: "bitmap_scan b start cnt v = Some r"
    "if \<exists>i\<ge>start. bm_group b i cnt v
     then start \<le> r \<and> bm_group b r cnt v \<and> (\<forall>i. start \<le> i \<and> i < r \<longrightarrow> \<not> bm_group b i cnt v)
     else r = BITMAP_ERROR"
    using bitmap_scan_bm[OF assms] by blast
  show ?thesis
  proof (cases "\<exists>i\<ge>start. bm_group b i cnt v")
    case True
    note r2 = r(2)[unfolded if_P[OF True]]
    then have g: "bm_group b r cnt v" by simp
    have ne: "r \<noteq> BITMAP_ERROR" by (rule bm_group_lt_error[OF ok g])
    moreover obtain b' where "bitmap_set_multiple b r cnt (\<not> v) = Some b'" "bm_ok b'"
        "bit_cnt b' = bit_cnt b" "\<forall>j. bm_bit b' j = (if r \<le> j \<and> j < r + cnt then \<not> v else bm_bit b j)"
      using bitmap_set_multiple_bm[OF ok, of r cnt "\<not> v"] g by (auto simp: bm_group_def)
    moreover from this have "bitmap_scan_and_flip b start cnt v = Some (b', r)"
      using r(1) ne by (simp add: bitmap_scan_and_flip_def)
    ultimately show ?thesis using r2 unfolding if_P[OF True] by blast
  next
    case False
    then have "r = BITMAP_ERROR" using r(2) by simp
    then have "bitmap_scan_and_flip b start cnt v = Some (b, r)"
      using r(1) by (simp add: bitmap_scan_and_flip_def)
    then show ?thesis unfolding if_not_P[OF False] using \<open>r = BITMAP_ERROR\<close> by blast
  qed
qed

lemma bitmap_count_bm:
  assumes ok: "bm_ok b" and rng: "start + cnt \<le> bit_cnt b"
  shows "bitmap_count b start cnt v = Some (card {j. start \<le> j \<and> j < start + cnt \<and> bm_bit b j = v})"
proof -
  let ?f = "\<lambda>i value_cnt. do {
       t \<leftarrow> bitmap_test b (size_add start i);
       Some (if t = v then value_cnt + 1 else value_cnt) }"
  let ?S = "\<lambda>i. {j. start \<le> j \<and> j < start + i \<and> bm_bit b j = v}"
  have "\<exists>s. for_upto 0 cnt ?f 0 = Some s \<and> s = card (?S cnt)"
  proof (rule for_upto_inv)
    fix i s assume i: "i < cnt" and P: "s = card (?S i)"
    then have lt: "start + i < bit_cnt b" using rng by simp
    have "?S (Suc i) = (if bm_bit b (start + i) = v then insert (start + i) (?S i) else ?S i)"
      by (auto simp: less_Suc_eq)
    moreover have "finite (?S i)" by (rule finite_subset[of _ "{..<start + i}"]) auto
    ultimately show "\<exists>s'. ?f i s = Some s' \<and> s' = card (?S (Suc i))"
      using P bitmap_test_bm[OF ok lt] bm_ok_size[OF ok, of "start + i"] lt by simp
  qed auto
  then show ?thesis using rng bm_ok_size[OF ok, of "start + cnt"]
    by (simp add: bitmap_count_def)
qed

lemma bitmap_set_all_bm:
  assumes "elem_cnt n \<le> length g" "n < BITMAP_ERROR"
  shows "\<exists>b'. bitmap_set_all \<lparr>bit_cnt = n, bits = g\<rparr> v = Some b' \<and> bm_ok b'
    \<and> bm_bits b' = replicate n v"
proof -
  have "bm_ok \<lparr>bit_cnt = n, bits = g\<rparr>" using assms by (simp add: bm_ok_def)
  from bitmap_set_multiple_bm[OF this, of 0 n v] show ?thesis
    by (auto simp: bitmap_set_all_def bitmap_size_def intro!: nth_equalityI)
qed

end
