(* ===== verification/Inode.thy ===== *)
theory Inode
  imports Bitmap
begin

text \<open>
  The file system of the kernel as the course hands it out (proj-pregame/src/filesys/inode.c, file.c,
  free-map.c, with devices/block.c and the file part of lib/kernel/bitmap.c below): inodes whose data
  is one run of sectors, the open-inode list, open files, and the free map with its file on the disk.

  The disk is a sequence of sectors of 512 bytes; an access past its end panics.  Structures on the
  disk are the bytes of their little-endian members.  The kernel heap hands out addresses it has not
  used before, and a null pointer once \<open>mem_left\<close> blocks are in use.  \<open>None\<close> is a panic, a failed
  assertion or a dereference of a pointer to no object.  \<open>off_t\<close> is an \<open>int\<close>, read from the disk with
  its sign.  The device of the file system is not of type \<open>BLOCK_FOREIGN\<close>.  Disk statistics are left out.
\<close>

section \<open>State\<close>

type_synonym byte = "8 word"

datatype block_type = BLOCK_KERNEL | BLOCK_FILESYS | BLOCK_SCRATCH | BLOCK_SWAP | BLOCK_RAW | BLOCK_FOREIGN

definition BLOCK_SECTOR_SIZE :: nat where "BLOCK_SECTOR_SIZE = 512"

definition INODE_MAGIC :: nat where "INODE_MAGIC = 1229867844"

record inode_disk =
  d_start :: nat
  d_length :: int
  d_magic :: nat

record inode =
  sector :: nat
  open_cnt :: int
  removed :: bool
  deny_write_cnt :: int
  data :: inode_disk

record open_file =
  f_inode :: addr
  f_pos :: int
  f_deny_write :: bool

record dir =
  dir_inode :: addr
  dir_pos :: int

record fs =
  disk :: "nat \<Rightarrow> byte list"
  disk_size :: nat
  free_map :: bitmap
  free_map_file :: addr
  inodes :: "addr \<Rightarrow> inode option"
  open_inodes :: "addr list"
  files :: "addr \<Rightarrow> open_file option"
  dirs :: "addr \<Rightarrow> dir option"
  mem_left :: nat
  next_addr :: addr

section \<open>Bytes\<close>

definition le32 :: "nat \<Rightarrow> byte list" where
  "le32 n = map (\<lambda>i. word_of_nat (n div 256 ^ i)) [0, 1, 2, 3]"

definition of_le32 :: "byte list \<Rightarrow> nat" where
  "of_le32 bs = (\<Sum>i \<leftarrow> [0, 1, 2, 3]. unat (bs ! i) * 256 ^ i)"

definition of_off :: "int \<Rightarrow> nat" where "of_off n = nat (n mod 2 ^ 32)"

definition to_off :: "nat \<Rightarrow> int" where
  "to_off n = (if n < 2 ^ 31 then int n else int n - 2 ^ 32)"

definition inode_disk_bytes :: "inode_disk \<Rightarrow> byte list" where
  "inode_disk_bytes d = le32 (d_start d) @ le32 (of_off (d_length d)) @ le32 (d_magic d) @ replicate 500 0"

definition inode_disk_of :: "byte list \<Rightarrow> inode_disk" where
  "inode_disk_of bs = \<lparr>d_start = of_le32 (take 4 bs), d_length = to_off (of_le32 (take 4 (drop 4 bs))),
     d_magic = of_le32 (take 4 (drop 8 bs))\<rparr>"

text \<open>\<open>memcpy\<close> of \<open>ys\<close> into a buffer at offset \<open>ofs\<close>.\<close>

definition memcpy_at :: "'a list \<Rightarrow> nat \<Rightarrow> 'a list \<Rightarrow> 'a list" where
  "memcpy_at xs ofs ys = take ofs xs @ ys @ drop (ofs + length ys) xs"

section \<open>Heap and block device\<close>

definition malloc :: "fs \<Rightarrow> addr \<times> fs" where
  "malloc s = (if mem_left s = 0 then (NULL, s)
     else (next_addr s, s\<lparr>mem_left := mem_left s - 1, next_addr := next_addr s + 1\<rparr>))"

definition free_block :: "fs \<Rightarrow> fs" where
  "free_block s = s\<lparr>mem_left := mem_left s + 1\<rparr>"

definition check_sector :: "fs \<Rightarrow> nat \<Rightarrow> unit option" where
  "check_sector s sec = (if sec \<ge> disk_size s then None else Some ())"

definition block_read :: "nat \<Rightarrow> fs \<Rightarrow> byte list option" where
  "block_read sec s = do { check_sector s sec; Some (disk s sec) }"

definition block_write :: "nat \<Rightarrow> byte list \<Rightarrow> fs \<Rightarrow> fs option" where
  "block_write sec buffer s = do { check_sector s sec; Some (s\<lparr>disk := (disk s)(sec := buffer)\<rparr>) }"

section \<open>Reading and writing an inode\<close>

definition bytes_to_sectors :: "int \<Rightarrow> nat" where
  "bytes_to_sectors sz = DIV_ROUND_UP (nat sz) BLOCK_SECTOR_SIZE"

definition byte_to_sector :: "inode \<Rightarrow> int \<Rightarrow> nat" where
  "byte_to_sector ino pos = (if pos < d_length (data ino)
     then (d_start (data ino) + nat pos div BLOCK_SECTOR_SIZE) mod 2 ^ 32 else 2 ^ 32 - 1)"

definition inode_length :: "inode \<Rightarrow> int" where
  "inode_length ino = d_length (data ino)"

text \<open>The number of bytes the next round of a transfer moves: the rest of the request, of the file or
  of the sector, whichever is least.\<close>

definition chunk_size :: "inode \<Rightarrow> int \<Rightarrow> int \<Rightarrow> int" where
  "chunk_size ino sz offset = (let
     sector_ofs = offset mod int BLOCK_SECTOR_SIZE;
     inode_left = inode_length ino - offset;
     sector_left = int BLOCK_SECTOR_SIZE - sector_ofs;
     min_left = (if inode_left < sector_left then inode_left else sector_left)
     in if sz < min_left then sz else min_left)"

text \<open>The loops; \<open>bounce\<close> says whether the bounce buffer is allocated.  Negative offsets would index
  before the buffer: they have no result.\<close>

function inode_read_loop :: "inode \<Rightarrow> int \<Rightarrow> int \<Rightarrow> bool \<Rightarrow> byte list \<Rightarrow> fs \<Rightarrow> byte list option" where
  "inode_read_loop ino sz offset bounce buffer s =
     (if sz > 0 then
        (let sector_idx = byte_to_sector ino offset; sector_ofs = nat offset mod BLOCK_SECTOR_SIZE;
             chunk = chunk_size ino sz offset in
         if chunk \<le> 0 then Some buffer
         else if offset < 0 then None
         else if sector_ofs = 0 \<and> chunk = int BLOCK_SECTOR_SIZE then do {
           b \<leftarrow> block_read sector_idx s;
           inode_read_loop ino (sz - chunk) (offset + chunk) bounce (buffer @ b) s }
         else if \<not> bounce \<and> mem_left s = 0 then Some buffer
         else do {
           b \<leftarrow> block_read sector_idx s;
           inode_read_loop ino (sz - chunk) (offset + chunk) True
             (buffer @ take (nat chunk) (drop sector_ofs b)) s })
      else Some buffer)"
  by pat_completeness auto
termination by (relation "measure (\<lambda>(ino, sz, offset, bounce, buffer, s). nat sz)") (auto simp: Let_def)

declare inode_read_loop.simps [simp del]

text \<open>The bytes stored into the caller's buffer; their number is the result of the function.\<close>

definition inode_read_at :: "addr \<Rightarrow> int \<Rightarrow> int \<Rightarrow> fs \<Rightarrow> byte list option" where
  "inode_read_at p sz offset s = do {
     ino \<leftarrow> inodes s p;
     inode_read_loop ino sz offset False [] s }"

function inode_write_loop ::
  "inode \<Rightarrow> byte list \<Rightarrow> int \<Rightarrow> int \<Rightarrow> bool \<Rightarrow> int \<Rightarrow> fs \<Rightarrow> (int \<times> fs) option" where
  "inode_write_loop ino buffer sz offset bounce bytes_written s =
     (if sz > 0 then
        (let sector_idx = byte_to_sector ino offset; sector_ofs = nat offset mod BLOCK_SECTOR_SIZE;
             chunk = chunk_size ino sz offset;
             src = take (nat chunk) (drop (nat bytes_written) buffer) in
         if chunk \<le> 0 then Some (bytes_written, s)
         else if offset < 0 \<or> length src < nat chunk then None
         else if sector_ofs = 0 \<and> chunk = int BLOCK_SECTOR_SIZE then do {
           s \<leftarrow> block_write sector_idx src s;
           inode_write_loop ino buffer (sz - chunk) (offset + chunk) bounce (bytes_written + chunk) s }
         else if \<not> bounce \<and> mem_left s = 0 then Some (bytes_written, s)
         else do {
           b \<leftarrow> (if sector_ofs > 0 \<or> chunk < int BLOCK_SECTOR_SIZE - int sector_ofs
                 then block_read sector_idx s else Some (replicate BLOCK_SECTOR_SIZE 0));
           s \<leftarrow> block_write sector_idx (memcpy_at b sector_ofs src) s;
           inode_write_loop ino buffer (sz - chunk) (offset + chunk) True (bytes_written + chunk) s })
      else Some (bytes_written, s))"
  by pat_completeness auto
termination
  by (relation "measure (\<lambda>(ino, buffer, sz, offset, bounce, bytes_written, s). nat sz)") (auto simp: Let_def)

declare inode_write_loop.simps [simp del]

definition inode_write_at :: "addr \<Rightarrow> byte list \<Rightarrow> int \<Rightarrow> int \<Rightarrow> fs \<Rightarrow> (int \<times> fs) option" where
  "inode_write_at p buffer sz offset s = do {
     ino \<leftarrow> inodes s p;
     if deny_write_cnt ino \<noteq> 0 then Some (0, s)
     else inode_write_loop ino buffer sz offset False 0 s }"

end
