(* ===== verification/Filesys.thy ===== *)
theory Filesys
  imports Inode
begin

text \<open>
  The rest of proj-pregame/src/filesys: open files (file.c), the free map and its file (free-map.c and
  the file input and output of lib/kernel/bitmap.c), creating, opening, closing and removing inodes
  (inode.c), directories (directory.c) and the operations on file names (filesys.c).  A file name is
  the list of its bytes without the terminating zero; the messages of \<open>do_format\<close> are left out.
\<close>

unbundle bit_operations_syntax

section \<open>Open files\<close>

definition file_read :: "addr \<Rightarrow> int \<Rightarrow> fs \<Rightarrow> (byte list \<times> fs) option" where
  "file_read f sz s = do {
     fl \<leftarrow> files s f;
     bs \<leftarrow> inode_read_at (f_inode fl) sz (f_pos fl) s;
     Some (bs, s\<lparr>files := (files s)(f \<mapsto> fl\<lparr>f_pos := f_pos fl + int (length bs)\<rparr>)\<rparr>) }"

definition file_read_at :: "addr \<Rightarrow> int \<Rightarrow> int \<Rightarrow> fs \<Rightarrow> byte list option" where
  "file_read_at f sz file_ofs s = do { fl \<leftarrow> files s f; inode_read_at (f_inode fl) sz file_ofs s }"

definition file_write :: "addr \<Rightarrow> byte list \<Rightarrow> int \<Rightarrow> fs \<Rightarrow> (int \<times> fs) option" where
  "file_write f buffer sz s = do {
     fl \<leftarrow> files s f;
     (bytes_written, s) \<leftarrow> inode_write_at (f_inode fl) buffer sz (f_pos fl) s;
     Some (bytes_written, s\<lparr>files := (files s)(f \<mapsto> fl\<lparr>f_pos := f_pos fl + bytes_written\<rparr>)\<rparr>) }"

definition file_write_at :: "addr \<Rightarrow> byte list \<Rightarrow> int \<Rightarrow> int \<Rightarrow> fs \<Rightarrow> (int \<times> fs) option" where
  "file_write_at f buffer sz file_ofs s = do {
     fl \<leftarrow> files s f;
     inode_write_at (f_inode fl) buffer sz file_ofs s }"

definition file_length :: "addr \<Rightarrow> fs \<Rightarrow> int option" where
  "file_length f s = do { fl \<leftarrow> files s f; ino \<leftarrow> inodes s (f_inode fl); Some (inode_length ino) }"

definition file_seek :: "addr \<Rightarrow> int \<Rightarrow> fs \<Rightarrow> fs option" where
  "file_seek f new_pos s = do {
     fl \<leftarrow> files s f;
     ASSERT (new_pos \<ge> 0);
     Some (s\<lparr>files := (files s)(f \<mapsto> fl\<lparr>f_pos := new_pos\<rparr>)\<rparr>) }"

definition file_tell :: "addr \<Rightarrow> fs \<Rightarrow> int option" where
  "file_tell f s = do { fl \<leftarrow> files s f; Some (f_pos fl) }"

definition inode_deny_write :: "addr \<Rightarrow> fs \<Rightarrow> fs option" where
  "inode_deny_write p s = do {
     ino \<leftarrow> inodes s p;
     ASSERT (deny_write_cnt ino + 1 \<le> open_cnt ino);
     Some (s\<lparr>inodes := (inodes s)(p \<mapsto> ino\<lparr>deny_write_cnt := deny_write_cnt ino + 1\<rparr>)\<rparr>) }"

definition inode_allow_write :: "addr \<Rightarrow> fs \<Rightarrow> fs option" where
  "inode_allow_write p s = do {
     ino \<leftarrow> inodes s p;
     ASSERT (deny_write_cnt ino > 0);
     ASSERT (deny_write_cnt ino \<le> open_cnt ino);
     Some (s\<lparr>inodes := (inodes s)(p \<mapsto> ino\<lparr>deny_write_cnt := deny_write_cnt ino - 1\<rparr>)\<rparr>) }"

definition file_deny_write :: "addr \<Rightarrow> fs \<Rightarrow> fs option" where
  "file_deny_write f s = do {
     fl \<leftarrow> files s f;
     if \<not> f_deny_write fl
     then inode_deny_write (f_inode fl) (s\<lparr>files := (files s)(f \<mapsto> fl\<lparr>f_deny_write := True\<rparr>)\<rparr>)
     else Some s }"

definition file_allow_write :: "addr \<Rightarrow> fs \<Rightarrow> fs option" where
  "file_allow_write f s = do {
     fl \<leftarrow> files s f;
     if f_deny_write fl
     then inode_allow_write (f_inode fl) (s\<lparr>files := (files s)(f \<mapsto> fl\<lparr>f_deny_write := False\<rparr>)\<rparr>)
     else Some s }"

section \<open>Free map\<close>

definition bitmap_bytes :: "bitmap \<Rightarrow> byte list" where
  "bitmap_bytes b = concat (map (\<lambda>w. le32 (unat w)) (bits b))"

text \<open>\<open>bs\<close> read into the array of the bitmap; a short read fills the front of it.\<close>

definition fill_bytes :: "bitmap \<Rightarrow> byte list \<Rightarrow> bitmap" where
  "fill_bytes b bs = (let all = memcpy_at (bitmap_bytes b) 0 bs in
     b\<lparr>bits := map (\<lambda>i. word_of_nat (of_le32 (take 4 (drop (4 * i) all)))) [0..<length (bits b)]\<rparr>)"

definition bitmap_read :: "bitmap \<Rightarrow> addr \<Rightarrow> fs \<Rightarrow> (bool \<times> bitmap) option" where
  "bitmap_read b f s =
     (if bit_cnt b > 0 then do {
        let sz = byte_cnt (bit_cnt b);
        bs \<leftarrow> file_read_at f (int sz) 0 s;
        b \<leftarrow> upd_elem (fill_bytes b bs) (elem_cnt (bit_cnt b) - 1) (\<lambda>w. w AND last_mask b);
        Some (length bs = sz, b) }
      else Some (True, b))"

definition bitmap_write :: "bitmap \<Rightarrow> addr \<Rightarrow> fs \<Rightarrow> (bool \<times> fs) option" where
  "bitmap_write b f s = do {
     let sz = byte_cnt (bit_cnt b);
     (n, s) \<leftarrow> file_write_at f (bitmap_bytes b) (int sz) 0 s;
     Some (n = int sz, s) }"

definition FREE_MAP_SECTOR :: nat where "FREE_MAP_SECTOR = 0"
definition ROOT_DIR_SECTOR :: nat where "ROOT_DIR_SECTOR = 1"

definition free_map_init :: "bool \<Rightarrow> 32 word list option \<Rightarrow> fs \<Rightarrow> fs option" where
  "free_map_init ok storage s = do {
     r \<leftarrow> bitmap_create (disk_size s) ok storage;
     b \<leftarrow> r;
     b \<leftarrow> bitmap_mark b FREE_MAP_SECTOR;
     b \<leftarrow> bitmap_mark b ROOT_DIR_SECTOR;
     Some (s\<lparr>free_map := b\<rparr>) }"

text \<open>The result is the sector stored into \<open>*sectorp\<close>, or \<open>None\<close> for a failure.\<close>

definition free_map_allocate :: "nat \<Rightarrow> fs \<Rightarrow> (nat option \<times> fs) option" where
  "free_map_allocate cnt s = do {
     (b, sec) \<leftarrow> bitmap_scan_and_flip (free_map s) 0 cnt False;
     let s = s\<lparr>free_map := b\<rparr>;
     if sec \<noteq> BITMAP_ERROR \<and> free_map_file s \<noteq> NULL then do {
       (ok, s) \<leftarrow> bitmap_write b (free_map_file s) s;
       if ok then Some (Some sec, s)
       else do {
         b \<leftarrow> bitmap_set_multiple b sec cnt False;
         Some (None, s\<lparr>free_map := b\<rparr>) } }
     else Some (if sec \<noteq> BITMAP_ERROR then Some sec else None, s) }"

definition free_map_release :: "nat \<Rightarrow> nat \<Rightarrow> fs \<Rightarrow> fs option" where
  "free_map_release sec cnt s = do {
     a \<leftarrow> bitmap_all (free_map s) sec cnt;
     ASSERT a;
     b \<leftarrow> bitmap_set_multiple (free_map s) sec cnt False;
     let s = s\<lparr>free_map := b\<rparr>;
     (_, s) \<leftarrow> bitmap_write b (free_map_file s) s;
     Some s }"

section \<open>Inodes\<close>

definition inode_init :: "fs \<Rightarrow> fs" where
  "inode_init s = s\<lparr>open_inodes := []\<rparr>"

definition inode_create :: "nat \<Rightarrow> int \<Rightarrow> fs \<Rightarrow> (bool \<times> fs) option" where
  "inode_create sec len s = do {
     ASSERT (len \<ge> 0);
     if mem_left s = 0 then Some (False, s)
     else do {
       let s = s\<lparr>mem_left := mem_left s - 1, next_addr := next_addr s + 1\<rparr>;
       let sectors = bytes_to_sectors len;
       (r, s) \<leftarrow> free_map_allocate sectors s;
       case r of
         None \<Rightarrow> Some (False, free_block s)
       | Some st \<Rightarrow> do {
           s \<leftarrow> block_write sec (inode_disk_bytes \<lparr>d_start = st, d_length = len, d_magic = INODE_MAGIC\<rparr>) s;
           s \<leftarrow> for_upto 0 sectors (\<lambda>i s. block_write ((st + i) mod 2 ^ 32) (replicate BLOCK_SECTOR_SIZE 0) s) s;
           Some (True, free_block s) } } }"

definition inode_reopen :: "addr \<Rightarrow> fs \<Rightarrow> fs option" where
  "inode_reopen p s =
     (if p \<noteq> NULL then do {
        ino \<leftarrow> inodes s p;
        Some (s\<lparr>inodes := (inodes s)(p \<mapsto> ino\<lparr>open_cnt := open_cnt ino + 1\<rparr>)\<rparr>) }
      else Some s)"

text \<open>The walk over the list of open inodes.\<close>

primrec find_open :: "nat \<Rightarrow> addr list \<Rightarrow> fs \<Rightarrow> addr option option" where
  "find_open sec [] s = Some None"
| "find_open sec (p # ps) s = do {
     ino \<leftarrow> inodes s p;
     if sector ino = sec then Some (Some p) else find_open sec ps s }"

definition inode_open :: "nat \<Rightarrow> fs \<Rightarrow> (addr \<times> fs) option" where
  "inode_open sec s = do {
     r \<leftarrow> find_open sec (open_inodes s) s;
     case r of
       Some p \<Rightarrow> do { s \<leftarrow> inode_reopen p s; Some (p, s) }
     | None \<Rightarrow> do {
         let (p, s) = malloc s;
         if p = NULL then Some (NULL, s)
         else do {
           b \<leftarrow> block_read sec s;
           Some (p, s\<lparr>open_inodes := p # open_inodes s,
             inodes := (inodes s)(p \<mapsto> \<lparr>sector = sec, open_cnt = 1, removed = False, deny_write_cnt = 0,
               data = inode_disk_of b\<rparr>)\<rparr>) } } }"

definition inode_get_inumber :: "addr \<Rightarrow> fs \<Rightarrow> nat option" where
  "inode_get_inumber p s = map_option sector (inodes s p)"

definition inode_close :: "addr \<Rightarrow> fs \<Rightarrow> fs option" where
  "inode_close p s =
     (if p = NULL then Some s
      else do {
        ino \<leftarrow> inodes s p;
        let ino = ino\<lparr>open_cnt := open_cnt ino - 1\<rparr>;
        let s = s\<lparr>inodes := (inodes s)(p \<mapsto> ino)\<rparr>;
        if open_cnt ino = 0 then do {
          ASSERT (p \<in> set (open_inodes s));
          let s = s\<lparr>open_inodes := remove1 p (open_inodes s)\<rparr>;
          s \<leftarrow> (if removed ino then do {
                 s \<leftarrow> free_map_release (sector ino) 1 s;
                 free_map_release (d_start (data ino)) (bytes_to_sectors (d_length (data ino))) s }
               else Some s);
          Some (free_block (s\<lparr>inodes := (inodes s)(p := None)\<rparr>)) }
        else Some s })"

definition inode_remove :: "addr \<Rightarrow> fs \<Rightarrow> fs option" where
  "inode_remove p s = do {
     ino \<leftarrow> inodes s p;
     Some (s\<lparr>inodes := (inodes s)(p \<mapsto> ino\<lparr>removed := True\<rparr>)\<rparr>) }"

section \<open>Opening and closing files\<close>

definition file_open :: "addr \<Rightarrow> fs \<Rightarrow> (addr \<times> fs) option" where
  "file_open p s = do {
     let (f, s) = malloc s;
     if p \<noteq> NULL \<and> f \<noteq> NULL
     then Some (f, s\<lparr>files := (files s)(f \<mapsto> \<lparr>f_inode = p, f_pos = 0, f_deny_write = False\<rparr>)\<rparr>)
     else do {
       s \<leftarrow> inode_close p s;
       Some (NULL, if f \<noteq> NULL then free_block s else s) } }"

definition file_reopen :: "addr \<Rightarrow> fs \<Rightarrow> (addr \<times> fs) option" where
  "file_reopen f s = do { fl \<leftarrow> files s f; s \<leftarrow> inode_reopen (f_inode fl) s; file_open (f_inode fl) s }"

definition file_close :: "addr \<Rightarrow> fs \<Rightarrow> fs option" where
  "file_close f s =
     (if f \<noteq> NULL then do {
        s \<leftarrow> file_allow_write f s;
        fl \<leftarrow> files s f;
        s \<leftarrow> inode_close (f_inode fl) s;
        Some (free_block (s\<lparr>files := (files s)(f := None)\<rparr>)) }
      else Some s)"

definition free_map_open :: "fs \<Rightarrow> fs option" where
  "free_map_open s = do {
     (p, s) \<leftarrow> inode_open FREE_MAP_SECTOR s;
     (f, s) \<leftarrow> file_open p s;
     let s = s\<lparr>free_map_file := f\<rparr>;
     ASSERT (f \<noteq> NULL);
     (ok, b) \<leftarrow> bitmap_read (free_map s) f s;
     ASSERT ok;
     Some (s\<lparr>free_map := b\<rparr>) }"

text \<open>The pointer to the closed file is not reset.\<close>

definition free_map_close :: "fs \<Rightarrow> fs option" where
  "free_map_close s = file_close (free_map_file s) s"

definition free_map_create :: "fs \<Rightarrow> fs option" where
  "free_map_create s = do {
     (ok, s) \<leftarrow> inode_create FREE_MAP_SECTOR (int (bitmap_file_size (free_map s))) s;
     ASSERT ok;
     (p, s) \<leftarrow> inode_open FREE_MAP_SECTOR s;
     (f, s) \<leftarrow> file_open p s;
     let s = s\<lparr>free_map_file := f\<rparr>;
     ASSERT (f \<noteq> NULL);
     (ok, s) \<leftarrow> bitmap_write (free_map s) f s;
     ASSERT ok;
     Some s }"

section \<open>Directories\<close>

definition NAME_MAX :: nat where "NAME_MAX = 14"

record dir_entry =
  inode_sector :: nat
  e_name :: "byte list"
  in_use :: bool

definition DIR_ENTRY_SIZE :: nat where "DIR_ENTRY_SIZE = 20"

text \<open>An entry in memory has all 15 bytes of its name; the string in it ends before the first zero.\<close>

definition dir_entry_bytes :: "dir_entry \<Rightarrow> byte list" where
  "dir_entry_bytes e = le32 (inode_sector e) @ e_name e @ [if in_use e then 1 else 0]"

definition dir_entry_of :: "byte list \<Rightarrow> dir_entry" where
  "dir_entry_of bs = \<lparr>inode_sector = of_le32 (take 4 bs), e_name = take 15 (drop 4 bs), in_use = bs ! 19 \<noteq> 0\<rparr>"

definition cstr :: "byte list \<Rightarrow> byte list" where
  "cstr bs = takeWhile (\<lambda>b. b \<noteq> 0) bs"

text \<open>\<open>strlcpy\<close> into a buffer with the contents \<open>dst\<close>.\<close>

definition strlcpy_into :: "byte list \<Rightarrow> byte list \<Rightarrow> byte list" where
  "strlcpy_into dst src = memcpy_at dst 0 (take (length dst - 1) src @ [0])"

definition dir_create :: "nat \<Rightarrow> nat \<Rightarrow> fs \<Rightarrow> (bool \<times> fs) option" where
  "dir_create sec entry_cnt s = inode_create sec (int (entry_cnt * DIR_ENTRY_SIZE)) s"

definition dir_open :: "addr \<Rightarrow> fs \<Rightarrow> (addr \<times> fs) option" where
  "dir_open p s = do {
     let (d, s) = malloc s;
     if p \<noteq> NULL \<and> d \<noteq> NULL then Some (d, s\<lparr>dirs := (dirs s)(d \<mapsto> \<lparr>dir_inode = p, dir_pos = 0\<rparr>)\<rparr>)
     else do {
       s \<leftarrow> inode_close p s;
       Some (NULL, if d \<noteq> NULL then free_block s else s) } }"

definition dir_open_root :: "fs \<Rightarrow> (addr \<times> fs) option" where
  "dir_open_root s = do { (p, s) \<leftarrow> inode_open ROOT_DIR_SECTOR s; dir_open p s }"

definition dir_reopen :: "addr \<Rightarrow> fs \<Rightarrow> (addr \<times> fs) option" where
  "dir_reopen d s = do { dr \<leftarrow> dirs s d; s \<leftarrow> inode_reopen (dir_inode dr) s; dir_open (dir_inode dr) s }"

definition dir_close :: "addr \<Rightarrow> fs \<Rightarrow> fs option" where
  "dir_close d s =
     (if d \<noteq> NULL then do {
        dr \<leftarrow> dirs s d;
        s \<leftarrow> inode_close (dir_inode dr) s;
        Some (free_block (s\<lparr>dirs := (dirs s)(d := None)\<rparr>)) }
      else Some s)"

text \<open>The scans over the entries.  Each entry that is read whole moves the offset by its size; \<open>fuel\<close>
  bounds their number, one more than fit into the file is always enough.\<close>

fun lookup_loop :: "nat \<Rightarrow> addr \<Rightarrow> byte list \<Rightarrow> nat \<Rightarrow> fs \<Rightarrow> (dir_entry \<times> nat) option option" where
  "lookup_loop 0 p name ofs s = None"
| "lookup_loop (Suc fuel) p name ofs s = do {
     bs \<leftarrow> inode_read_at p (int DIR_ENTRY_SIZE) (int ofs) s;
     if length bs = DIR_ENTRY_SIZE then
       (let e = dir_entry_of bs in
        if in_use e \<and> cstr (e_name e) = name then Some (Some (e, ofs))
        else lookup_loop fuel p name (ofs + DIR_ENTRY_SIZE) s)
     else Some None }"

definition entries_fuel :: "addr \<Rightarrow> fs \<Rightarrow> nat" where
  "entries_fuel p s = (case inodes s p of Some ino \<Rightarrow> nat (inode_length ino) + 1 | None \<Rightarrow> 1)"

definition lookup_entry :: "addr \<Rightarrow> byte list \<Rightarrow> fs \<Rightarrow> (dir_entry \<times> nat) option option" where
  "lookup_entry d name s = do {
     dr \<leftarrow> dirs s d;
     lookup_loop (entries_fuel (dir_inode dr) s) (dir_inode dr) name 0 s }"

definition dir_lookup :: "addr \<Rightarrow> byte list \<Rightarrow> fs \<Rightarrow> (addr \<times> fs) option" where
  "dir_lookup d name s = do {
     r \<leftarrow> lookup_entry d name s;
     case r of Some (e, _) \<Rightarrow> inode_open (inode_sector e) s | None \<Rightarrow> Some (NULL, s) }"

text \<open>The free slot: its offset and what the buffer of the entry holds afterwards.  A short read at the
  end of the file fills only the front of the buffer.\<close>

fun free_slot_loop :: "nat \<Rightarrow> addr \<Rightarrow> byte list \<Rightarrow> nat \<Rightarrow> fs \<Rightarrow> (byte list \<times> nat) option" where
  "free_slot_loop 0 p buf ofs s = None"
| "free_slot_loop (Suc fuel) p buf ofs s = do {
     bs \<leftarrow> inode_read_at p (int DIR_ENTRY_SIZE) (int ofs) s;
     let buf = memcpy_at buf 0 bs;
     if length bs = DIR_ENTRY_SIZE then
       (if \<not> in_use (dir_entry_of buf) then Some (buf, ofs)
        else free_slot_loop fuel p buf (ofs + DIR_ENTRY_SIZE) s)
     else Some (buf, ofs) }"

text \<open>\<open>junk\<close> is what the 20 bytes of the local entry hold on entry.\<close>

definition dir_add :: "addr \<Rightarrow> byte list \<Rightarrow> nat \<Rightarrow> byte list \<Rightarrow> fs \<Rightarrow> (bool \<times> fs) option" where
  "dir_add d name sec junk s = do {
     dr \<leftarrow> dirs s d;
     if name = [] \<or> length name > NAME_MAX then Some (False, s)
     else do {
       r \<leftarrow> lookup_entry d name s;
       case r of
         Some _ \<Rightarrow> Some (False, s)
       | None \<Rightarrow> do {
           (buf, ofs) \<leftarrow> free_slot_loop (entries_fuel (dir_inode dr) s) (dir_inode dr) junk 0 s;
           let e = (dir_entry_of buf)\<lparr>in_use := True, e_name := strlcpy_into (e_name (dir_entry_of buf)) name,
             inode_sector := sec\<rparr>;
           (n, s) \<leftarrow> inode_write_at (dir_inode dr) (dir_entry_bytes e) (int DIR_ENTRY_SIZE) (int ofs) s;
           Some (n = int DIR_ENTRY_SIZE, s) } } }"

definition dir_remove :: "addr \<Rightarrow> byte list \<Rightarrow> fs \<Rightarrow> (bool \<times> fs) option" where
  "dir_remove d name s = do {
     dr \<leftarrow> dirs s d;
     r \<leftarrow> lookup_entry d name s;
     case r of
       None \<Rightarrow> do { s \<leftarrow> inode_close NULL s; Some (False, s) }
     | Some (e, ofs) \<Rightarrow> do {
         (p, s) \<leftarrow> inode_open (inode_sector e) s;
         if p = NULL then do { s \<leftarrow> inode_close p s; Some (False, s) }
         else do {
           (n, s) \<leftarrow> inode_write_at (dir_inode dr) (dir_entry_bytes (e\<lparr>in_use := False\<rparr>))
             (int DIR_ENTRY_SIZE) (int ofs) s;
           if n \<noteq> int DIR_ENTRY_SIZE then do { s \<leftarrow> inode_close p s; Some (False, s) }
           else do {
             s \<leftarrow> inode_remove p s;
             s \<leftarrow> inode_close p s;
             Some (True, s) } } } }"

text \<open>The result is the name of the next entry in use.\<close>

fun readdir_loop :: "nat \<Rightarrow> addr \<Rightarrow> int \<Rightarrow> fs \<Rightarrow> (byte list option \<times> int) option" where
  "readdir_loop 0 p pos s = None"
| "readdir_loop (Suc fuel) p pos s = do {
     bs \<leftarrow> inode_read_at p (int DIR_ENTRY_SIZE) pos s;
     if length bs = DIR_ENTRY_SIZE then
       (let e = dir_entry_of bs; pos = pos + int DIR_ENTRY_SIZE in
        if in_use e then Some (Some (cstr (e_name e)), pos) else readdir_loop fuel p pos s)
     else Some (None, pos) }"

definition dir_readdir :: "addr \<Rightarrow> fs \<Rightarrow> (byte list option \<times> fs) option" where
  "dir_readdir d s = do {
     dr \<leftarrow> dirs s d;
     (r, pos) \<leftarrow> readdir_loop (entries_fuel (dir_inode dr) s) (dir_inode dr) (dir_pos dr) s;
     Some (r, s\<lparr>dirs := (dirs s)(d \<mapsto> dr\<lparr>dir_pos := pos\<rparr>)\<rparr>) }"

section \<open>File names\<close>

definition filesys_create :: "byte list \<Rightarrow> int \<Rightarrow> byte list \<Rightarrow> fs \<Rightarrow> (bool \<times> fs) option" where
  "filesys_create name initial_size junk s = do {
     (d, s) \<leftarrow> dir_open_root s;
     (success, sec, s) \<leftarrow>
       (if d = NULL then Some (False, 0, s)
        else do {
          (r, s) \<leftarrow> free_map_allocate 1 s;
          case r of
            None \<Rightarrow> Some (False, 0, s)
          | Some sec \<Rightarrow> do {
              (ok, s) \<leftarrow> inode_create sec initial_size s;
              if ok then do { (ok, s) \<leftarrow> dir_add d name sec junk s; Some (ok, sec, s) }
              else Some (False, sec, s) } });
     s \<leftarrow> (if \<not> success \<and> sec \<noteq> 0 then free_map_release sec 1 s else Some s);
     s \<leftarrow> dir_close d s;
     Some (success, s) }"

definition filesys_open :: "byte list \<Rightarrow> fs \<Rightarrow> (addr \<times> fs) option" where
  "filesys_open name s = do {
     (d, s) \<leftarrow> dir_open_root s;
     (p, s) \<leftarrow> (if d \<noteq> NULL then dir_lookup d name s else Some (NULL, s));
     s \<leftarrow> dir_close d s;
     file_open p s }"

definition filesys_remove :: "byte list \<Rightarrow> fs \<Rightarrow> (bool \<times> fs) option" where
  "filesys_remove name s = do {
     (d, s) \<leftarrow> dir_open_root s;
     (success, s) \<leftarrow> (if d \<noteq> NULL then dir_remove d name s else Some (False, s));
     s \<leftarrow> dir_close d s;
     Some (success, s) }"

definition do_format :: "fs \<Rightarrow> fs option" where
  "do_format s = do {
     s \<leftarrow> free_map_create s;
     (ok, s) \<leftarrow> dir_create ROOT_DIR_SECTOR 16 s;
     ASSERT ok;
     free_map_close s }"

definition filesys_init :: "bool \<Rightarrow> bool \<Rightarrow> 32 word list option \<Rightarrow> fs \<Rightarrow> fs option" where
  "filesys_init format ok storage s = do {
     let s = inode_init s;
     s \<leftarrow> free_map_init ok storage s;
     s \<leftarrow> (if format then do_format s else Some s);
     free_map_open s }"

definition filesys_done :: "fs \<Rightarrow> fs option" where
  "filesys_done s = free_map_close s"

end
