(* ===== verification/InodeData.thy ===== *)
theory InodeData
  imports Inode
begin

text \<open>
  What reading and writing an inode means: the data of an inode is the sequence of the bytes in its
  run of sectors, cut to its length.  \<open>inode_read_at\<close> returns a slice of it; \<open>inode_write_at\<close> replaces a
  slice and touches no sector outside the run.
\<close>

definition data_byte :: "(nat \<Rightarrow> byte list) \<Rightarrow> inode \<Rightarrow> nat \<Rightarrow> byte" where
  "data_byte d ino i = d (d_start (data ino) + i div BLOCK_SECTOR_SIZE) ! (i mod BLOCK_SECTOR_SIZE)"

definition contents :: "(nat \<Rightarrow> byte list) \<Rightarrow> inode \<Rightarrow> byte list" where
  "contents d ino = map (data_byte d ino) [0..<nat (inode_length ino)]"

definition sectors_of :: "inode \<Rightarrow> nat set" where
  "sectors_of ino = {d_start (data ino)..<d_start (data ino) + bytes_to_sectors (inode_length ino)}"

definition disk_ok :: "fs \<Rightarrow> bool" where
  "disk_ok s \<longleftrightarrow> disk_size s < 2 ^ 32 \<and> (\<forall>i < disk_size s. length (disk s i) = BLOCK_SECTOR_SIZE)"

definition inode_ok :: "fs \<Rightarrow> inode \<Rightarrow> bool" where
  "inode_ok s ino \<longleftrightarrow> 0 \<le> inode_length ino \<and> sectors_of ino \<subseteq> {..<disk_size s}"

lemma length_contents [simp]: "length (contents d ino) = nat (inode_length ino)"
  by (simp add: contents_def)

lemma sector_of_pos:
  assumes "inode_ok s ino" "disk_ok s" "i < nat (inode_length ino)"
  shows "byte_to_sector ino (int i) = d_start (data ino) + i div BLOCK_SECTOR_SIZE"
    "d_start (data ino) + i div BLOCK_SECTOR_SIZE < disk_size s"
    "d_start (data ino) + i div BLOCK_SECTOR_SIZE \<in> sectors_of ino"
proof -
  have "i div 512 < DIV_ROUND_UP (nat (inode_length ino)) 512"
    using DIV_ROUND_UP_gt[of 512 i "nat (inode_length ino)"] assms(3) by simp
  then show m: "d_start (data ino) + i div BLOCK_SECTOR_SIZE \<in> sectors_of ino"
    by (simp add: sectors_of_def bytes_to_sectors_def BLOCK_SECTOR_SIZE_def)
  then show "d_start (data ino) + i div BLOCK_SECTOR_SIZE < disk_size s"
    using assms(1) by (auto simp: inode_ok_def)
  then show "byte_to_sector ino (int i) = d_start (data ino) + i div BLOCK_SECTOR_SIZE"
    using assms(2,3) by (simp add: byte_to_sector_def inode_length_def disk_ok_def)
qed

text \<open>The chunk of a round: at least one byte while there is something to do, and within one sector.\<close>

lemma chunk_size_int:
  "chunk_size ino (int n) (int ofs) = min (int n) (min (inode_length ino - int ofs)
     (int (BLOCK_SECTOR_SIZE - ofs mod BLOCK_SECTOR_SIZE)))"
proof -
  have "int ofs mod 512 = int (ofs mod 512)" "ofs mod 512 < 512" by (simp_all add: zmod_int)
  then have "int ofs mod 512 = int (ofs mod 512)" "int (512 - ofs mod 512) = 512 - int (ofs mod 512)"
    by (simp_all only: of_nat_diff less_imp_le of_nat_numeral)
  then show ?thesis by (simp only: chunk_size_def Let_def BLOCK_SECTOR_SIZE_def min_def of_nat_numeral) auto
qed

lemma chunk_size_bounds:
  assumes "0 < n" "ofs < nat (inode_length ino)"
  obtains c where "chunk_size ino (int n) (int ofs) = int c" "0 < c" "c \<le> n" "ofs + c \<le> nat (inode_length ino)"
    "c \<le> BLOCK_SECTOR_SIZE - ofs mod BLOCK_SECTOR_SIZE"
    "c = min n (min (nat (inode_length ino) - ofs) (BLOCK_SECTOR_SIZE - ofs mod BLOCK_SECTOR_SIZE))"
proof -
  let ?c = "min n (min (nat (inode_length ino) - ofs) (BLOCK_SECTOR_SIZE - ofs mod BLOCK_SECTOR_SIZE))"
  have "ofs mod BLOCK_SECTOR_SIZE < BLOCK_SECTOR_SIZE" by (simp add: BLOCK_SECTOR_SIZE_def)
  then show thesis using assms by (intro that[of ?c]) (auto simp: chunk_size_int min_def)
qed

lemma div_mod_within:
  fixes ofs j b :: nat
  assumes "ofs mod b + j < b"
  shows "(ofs + j) div b = ofs div b" "(ofs + j) mod b = ofs mod b + j"
proof -
  show "(ofs + j) div b = ofs div b" using assms by (simp add: div_add1_eq[of ofs j])
  show "(ofs + j) mod b = ofs mod b + j" using assms mod_add_left_eq[of ofs b j] by simp
qed

lemma sector_slice:
  assumes "c \<le> BLOCK_SECTOR_SIZE - ofs mod BLOCK_SECTOR_SIZE"
    "length (d (d_start (data ino) + ofs div BLOCK_SECTOR_SIZE)) = BLOCK_SECTOR_SIZE"
  shows "take c (drop (ofs mod BLOCK_SECTOR_SIZE) (d (d_start (data ino) + ofs div BLOCK_SECTOR_SIZE)))
    = map (data_byte d ino) [ofs..<ofs + c]"
proof (rule nth_equalityI)
  fix j assume "j < length (take c (drop (ofs mod BLOCK_SECTOR_SIZE)
      (d (d_start (data ino) + ofs div BLOCK_SECTOR_SIZE))))"
  then have j: "j < c" by simp
  then have "ofs mod BLOCK_SECTOR_SIZE + j < BLOCK_SECTOR_SIZE" using assms(1) by simp
  from div_mod_within[OF this] j assms show
    "take c (drop (ofs mod BLOCK_SECTOR_SIZE) (d (d_start (data ino) + ofs div BLOCK_SECTOR_SIZE))) ! j
      = map (data_byte d ino) [ofs..<ofs + c] ! j"
    by (simp add: data_byte_def)
qed (use assms in simp)

section \<open>Reading\<close>

lemma contents_slice:
  "ofs + c \<le> nat (inode_length ino) \<Longrightarrow>
     map (data_byte d ino) [ofs..<ofs + c] = take c (drop ofs (contents d ino))"
  by (simp add: contents_def take_map drop_map take_upt)

lemma inode_read_loop_data:
  assumes "inode_ok s ino" "disk_ok s" "bounce \<or> 0 < mem_left s"
  shows "inode_read_loop ino (int n) (int ofs) bounce buffer s =
    Some (buffer @ take n (drop ofs (contents (disk s) ino)))"
  using assms(3)
proof (induction n arbitrary: ofs bounce buffer rule: less_induct)
  case (less n)
  show ?case
  proof (cases "0 < n \<and> ofs < nat (inode_length ino)")
    case False
    then have "chunk_size ino (int n) (int ofs) \<le> 0"
      by (auto simp: chunk_size_int min_def)
    then show ?thesis using False
      by (cases "n = 0") (auto simp: inode_read_loop.simps[of ino "int n"] inode_read_loop.simps[of ino 0] Let_def)
  next
    case True
    then obtain c where c: "chunk_size ino (int n) (int ofs) = int c" "0 < c" "c \<le> n"
        "ofs + c \<le> nat (inode_length ino)" "c \<le> BLOCK_SECTOR_SIZE - ofs mod BLOCK_SECTOR_SIZE"
      using chunk_size_bounds by metis
    let ?sec = "d_start (data ino) + ofs div BLOCK_SECTOR_SIZE"
    have sec: "byte_to_sector ino (int ofs) = ?sec" "?sec < disk_size s"
      using sector_of_pos[OF assms(1,2)] True by auto
    have len: "length (disk s ?sec) = BLOCK_SECTOR_SIZE" using sec assms(2) by (simp add: disk_ok_def)
    have slice: "take c (drop (ofs mod BLOCK_SECTOR_SIZE) (disk s ?sec)) = take c (drop ofs (contents (disk s) ino))"
      using sector_slice[OF c(5), of "disk s" ino, OF len] contents_slice[OF c(4)] by simp
    have full: "disk s ?sec = take c (drop ofs (contents (disk s) ino))"
      if "ofs mod BLOCK_SECTOR_SIZE = 0" "c = BLOCK_SECTOR_SIZE" using slice that len by simp
    have rd: "block_read ?sec s = Some (disk s ?sec)" using sec(2) by (simp add: block_read_def check_sector_def)
    have e: "take c (drop ofs C) @ take (n - c) (drop (ofs + c) C) = take n (drop ofs C)" for C :: "byte list"
      using take_add[of c "n - c" "drop ofs C"] c(3) by (simp add: add.commute)
    have ih: "inode_read_loop ino (int n - int c) (int ofs + int c) b (buf @ take c (drop ofs (contents (disk s) ino))) s
      = Some (buf @ take n (drop ofs (contents (disk s) ino)))" if "b \<or> 0 < mem_left s" for b buf
      using less.IH[of "n - c" b "ofs + c"] that c e by (simp add: of_nat_diff)
    show ?thesis
    proof (cases "ofs mod BLOCK_SECTOR_SIZE = 0 \<and> c = BLOCK_SECTOR_SIZE")
      case True
      then show ?thesis
        using c(1-3) sec rd full ih[OF less.prems, of buffer]
        by (subst inode_read_loop.simps) (simp add: Let_def)
    next
      case False
      then show ?thesis
        using c(1-3) sec rd slice less.prems ih[of True buffer]
        by (subst inode_read_loop.simps) (auto simp: Let_def)
    qed
  qed
qed

lemma inode_read_at_data:
  assumes "inodes s p = Some ino" "inode_ok s ino" "disk_ok s" "0 < mem_left s"
  shows "inode_read_at p (int n) (int ofs) s = Some (take n (drop ofs (contents (disk s) ino)))"
  using inode_read_loop_data[OF assms(2,3), of False n ofs "[]"] assms(1,4)
  by (simp add: inode_read_at_def)

section \<open>Writing\<close>

text \<open>The disk after a write of \<open>bs\<close> at \<open>ofs\<close>: the bytes of the file change, nothing else does.\<close>

definition wrote :: "inode \<Rightarrow> nat \<Rightarrow> byte list \<Rightarrow> (nat \<Rightarrow> byte list) \<Rightarrow> (nat \<Rightarrow> byte list) \<Rightarrow> bool" where
  "wrote ino ofs bs d d' \<longleftrightarrow>
     (\<forall>i < nat (inode_length ino). data_byte d' ino i =
        (if ofs \<le> i \<and> i < ofs + length bs then bs ! (i - ofs) else data_byte d ino i))
     \<and> (\<forall>sec. length (d' sec) = length (d sec)) \<and> (\<forall>sec. sec \<notin> sectors_of ino \<longrightarrow> d' sec = d sec)"

lemma wrote_refl: "wrote ino ofs [] d d"
  by (simp add: wrote_def)

lemma wrote_append:
  assumes "wrote ino ofs xs d d'" "wrote ino (ofs + length xs) ys d' d''"
  shows "wrote ino ofs (xs @ ys) d d''"
  using assms by (auto simp: wrote_def nth_append)

lemma wrote_contents:
  assumes "wrote ino ofs bs d d'" "ofs + length bs \<le> nat (inode_length ino)"
  shows "contents d' ino = memcpy_at (contents d ino) ofs bs"
proof (rule nth_equalityI)
  show "length (contents d' ino) = length (memcpy_at (contents d ino) ofs bs)"
    using assms(2) by (simp add: memcpy_at_def)
  fix i assume "i < length (contents d' ino)"
  then show "contents d' ino ! i = memcpy_at (contents d ino) ofs bs ! i"
    using assms by (auto simp: contents_def memcpy_at_def wrote_def nth_append)
qed

text \<open>One sector of the data rewritten from \<open>ofs\<close> on.\<close>

lemma wrote_sector:
  assumes "inode_ok s ino" "disk_ok s" "ofs < nat (inode_length ino)"
    "length bs \<le> BLOCK_SECTOR_SIZE - ofs mod BLOCK_SECTOR_SIZE"
  defines "sec \<equiv> d_start (data ino) + ofs div BLOCK_SECTOR_SIZE"
  shows "wrote ino ofs bs (disk s) ((disk s)(sec := memcpy_at (disk s sec) (ofs mod BLOCK_SECTOR_SIZE) bs))"
proof -
  have sec: "sec < disk_size s" "sec \<in> sectors_of ino"
    using sector_of_pos[OF assms(1-3)] by (simp_all add: sec_def)
  then have len: "length (disk s sec) = BLOCK_SECTOR_SIZE" using assms(2) by (simp add: disk_ok_def)
  have m: "ofs mod BLOCK_SECTOR_SIZE < BLOCK_SECTOR_SIZE" by (simp add: BLOCK_SECTOR_SIZE_def)
  have "memcpy_at (disk s sec) (ofs mod BLOCK_SECTOR_SIZE) bs ! (i mod BLOCK_SECTOR_SIZE)
      = (if ofs \<le> i \<and> i < ofs + length bs then bs ! (i - ofs) else disk s sec ! (i mod BLOCK_SECTOR_SIZE))"
    if "i div BLOCK_SECTOR_SIZE = ofs div BLOCK_SECTOR_SIZE" for i
  proof -
    have "i = ofs - ofs mod BLOCK_SECTOR_SIZE + i mod BLOCK_SECTOR_SIZE"
      using that by (metis div_mult_mod_eq minus_mod_eq_div_mult)
    moreover have "ofs mod BLOCK_SECTOR_SIZE \<le> ofs" "i mod BLOCK_SECTOR_SIZE < BLOCK_SECTOR_SIZE"
      by (simp_all add: BLOCK_SECTOR_SIZE_def)
    ultimately have "ofs \<le> i \<Longrightarrow> i - ofs = i mod BLOCK_SECTOR_SIZE - ofs mod BLOCK_SECTOR_SIZE"
      "ofs \<le> i \<longleftrightarrow> ofs mod BLOCK_SECTOR_SIZE \<le> i mod BLOCK_SECTOR_SIZE"
      "i < ofs + length bs \<longleftrightarrow> i mod BLOCK_SECTOR_SIZE < ofs mod BLOCK_SECTOR_SIZE + length bs"
      "i mod BLOCK_SECTOR_SIZE < BLOCK_SECTOR_SIZE" by linarith+
    then show ?thesis using assms(4) len m by (auto simp: memcpy_at_def nth_append)
  qed
  moreover have "i div BLOCK_SECTOR_SIZE = ofs div BLOCK_SECTOR_SIZE"
    if "ofs \<le> i" "i < ofs + length bs" for i
    using div_mod_within(1)[of ofs BLOCK_SECTOR_SIZE "i - ofs"] that assms(4) m by simp
  ultimately show ?thesis using sec len m assms(4)
    by (auto simp: wrote_def data_byte_def sec_def memcpy_at_def)
qed

lemma inode_write_loop_data:
  assumes "inode_ok s ino" "disk_ok s" "bounce \<or> 0 < mem_left s" "bw + n \<le> length buffer"
  shows "\<exists>d'. inode_write_loop ino buffer (int n) (int ofs) bounce (int bw) s =
      Some (int bw + int (min n (nat (inode_length ino) - ofs)), s\<lparr>disk := d'\<rparr>)
    \<and> wrote ino ofs (take (min n (nat (inode_length ino) - ofs)) (drop bw buffer)) (disk s) d'"
  using assms
proof (induction n arbitrary: ofs bounce bw s rule: less_induct)
  case (less n)
  show ?case
  proof (cases "0 < n \<and> ofs < nat (inode_length ino)")
    case False
    then have "chunk_size ino (int n) (int ofs) \<le> 0"
      by (auto simp: chunk_size_int min_def)
    then have "inode_write_loop ino buffer (int n) (int ofs) bounce (int bw) s = Some (int bw, s)"
      by (subst inode_write_loop.simps) (simp add: Let_def)
    moreover have "min n (nat (inode_length ino) - ofs) = 0" using False by auto
    ultimately show ?thesis by (auto intro!: exI[of _ "disk s"] simp: wrote_refl)
  next
    case True
    then obtain c where c: "chunk_size ino (int n) (int ofs) = int c" "0 < c" "c \<le> n"
        "ofs + c \<le> nat (inode_length ino)" "c \<le> BLOCK_SECTOR_SIZE - ofs mod BLOCK_SECTOR_SIZE"
      using chunk_size_bounds by metis
    define sec where "sec = d_start (data ino) + ofs div BLOCK_SECTOR_SIZE"
    define src where "src = take c (drop bw buffer)"
    define d1 where "d1 = (disk s)(sec := memcpy_at (disk s sec) (ofs mod BLOCK_SECTOR_SIZE) src)"
    have len: "length src = c" using c(3) less.prems(4) by (simp add: src_def)
    have sec: "byte_to_sector ino (int ofs) = sec" "sec < disk_size s"
      using sector_of_pos[OF less.prems(1,2)] True by (auto simp: sec_def)
    have slen: "length (disk s sec) = BLOCK_SECTOR_SIZE" using sec less.prems(2) by (simp add: disk_ok_def)
    have w: "wrote ino ofs src (disk s) d1"
      using wrote_sector[OF less.prems(1,2), of ofs src] True len c(5) by (simp add: d1_def sec_def)
    let ?s1 = "s\<lparr>disk := d1\<rparr>"
    have s1: "inode_ok ?s1 ino" "disk_ok ?s1"
      using less.prems(1,2) w by (auto simp: inode_ok_def disk_ok_def wrote_def)
    have rest: "\<exists>d'. inode_write_loop ino buffer (int n - int c) (int ofs + int c) b (int bw + int c) ?s1 =
        Some (int bw + int (min n (nat (inode_length ino) - ofs)), s\<lparr>disk := d'\<rparr>)
      \<and> wrote ino ofs (take (min n (nat (inode_length ino) - ofs)) (drop bw buffer)) (disk s) d'"
      if b: "b \<or> 0 < mem_left s" for b
    proof -
      obtain d' where d': "inode_write_loop ino buffer (int (n - c)) (int (ofs + c)) b (int (bw + c)) ?s1 =
          Some (int (bw + c) + int (min (n - c) (nat (inode_length ino) - (ofs + c))), ?s1\<lparr>disk := d'\<rparr>)"
        "wrote ino (ofs + c) (take (min (n - c) (nat (inode_length ino) - (ofs + c))) (drop (bw + c) buffer)) d1 d'"
        using less.IH[of "n - c" ?s1 b "bw + c" "ofs + c"] s1 b c less.prems(4) by auto
      have m: "min n (nat (inode_length ino) - ofs) = c + min (n - c) (nat (inode_length ino) - (ofs + c))"
        using c(3,4) by auto
      have "take (min n (nat (inode_length ino) - ofs)) (drop bw buffer)
          = src @ take (min (n - c) (nat (inode_length ino) - (ofs + c))) (drop (bw + c) buffer)"
        unfolding m src_def take_add by (simp add: add.commute)
      then show ?thesis using d' c(3) wrote_append[OF w, unfolded len, OF d'(2)] m
        by (intro exI[of _ d']) (simp add: of_nat_diff)
    qed
    have wr: "block_write sec (memcpy_at (disk s sec) (ofs mod BLOCK_SECTOR_SIZE) src) s = Some ?s1"
      using sec by (simp add: block_write_def check_sector_def d1_def)
    have rd: "block_read sec s = Some (disk s sec)"
      using sec by (simp add: block_read_def check_sector_def)
    have whole: "memcpy_at b 0 src = src" if "c = BLOCK_SECTOR_SIZE" "length b = BLOCK_SECTOR_SIZE" for b
      using that len by (simp add: memcpy_at_def)
    show ?thesis
    proof (cases "ofs mod BLOCK_SECTOR_SIZE = 0 \<and> c = BLOCK_SECTOR_SIZE")
      case True
      then have "block_write sec src s = Some ?s1" "take BLOCK_SECTOR_SIZE (drop bw buffer) = src"
        using wr whole[of "disk s sec"] slen by (simp_all add: src_def)
      then show ?thesis
        using c True sec rest[OF less.prems(3)] len
        by (subst inode_write_loop.simps) (simp add: Let_def)
    next
      case False
      have "int c < int BLOCK_SECTOR_SIZE - int (ofs mod BLOCK_SECTOR_SIZE) \<or> 0 < ofs mod BLOCK_SECTOR_SIZE"
        using False c(5) by auto
      then show ?thesis
        using c False sec rd wr less.prems(3) rest[of True] len
        by (subst inode_write_loop.simps) (auto simp: Let_def src_def[symmetric])
    qed
  qed
qed

lemma inode_write_at_data:
  assumes "inodes s p = Some ino" "inode_ok s ino" "disk_ok s" "0 < mem_left s" "deny_write_cnt ino = 0"
    "n \<le> length buffer"
  shows "\<exists>d'. inode_write_at p buffer (int n) (int ofs) s =
      Some (int (min n (nat (inode_length ino) - ofs)), s\<lparr>disk := d'\<rparr>)
    \<and> wrote ino ofs (take (min n (nat (inode_length ino) - ofs)) buffer) (disk s) d'"
  using inode_write_loop_data[OF assms(2,3), of False 0 n buffer ofs] assms(1,4,5,6)
  by (simp add: inode_write_at_def)

end
