(* ===== verification/DirSpec.thy ===== *)
theory DirSpec
  imports Filesys InodeData
begin

text \<open>
  Directories as finite maps: the contents of a directory is a sequence of 20-byte entries, and the
  names of the entries in use map to the sectors of their inodes.  Looking up, adding and removing a
  name compute lookup, update and deletion of this map; a full directory and a name in use are errors
  that leave the contents as they are.
\<close>

section \<open>Entries\<close>

definition dir_entries :: "byte list \<Rightarrow> dir_entry list" where
  "dir_entries c = map (\<lambda>j. dir_entry_of (take DIR_ENTRY_SIZE (drop (DIR_ENTRY_SIZE * j) c)))
     [0..<length c div DIR_ENTRY_SIZE]"

definition named :: "dir_entry \<Rightarrow> byte list \<Rightarrow> bool" where
  "named e name \<longleftrightarrow> in_use e \<and> cstr (e_name e) = name"

definition dir_map :: "dir_entry list \<Rightarrow> byte list \<Rightarrow> nat option" where
  "dir_map es name = map_option inode_sector (find (\<lambda>e. named e name) es)"

definition uniq_names :: "dir_entry list \<Rightarrow> bool" where
  "uniq_names es \<longleftrightarrow> (\<forall>i < length es. \<forall>j < length es. \<forall>name.
     named (es ! i) name \<longrightarrow> named (es ! j) name \<longrightarrow> i = j)"

definition file_name :: "byte list \<Rightarrow> bool" where
  "file_name name \<longleftrightarrow> name \<noteq> [] \<and> length name \<le> NAME_MAX \<and> 0 \<notin> set name"

lemma length_dir_entries [simp]: "length (dir_entries c) = length c div DIR_ENTRY_SIZE"
  by (simp add: dir_entries_def)

lemma nth_dir_entries [simp]: "j < length c div DIR_ENTRY_SIZE \<Longrightarrow>
    dir_entries c ! j = dir_entry_of (take DIR_ENTRY_SIZE (drop (DIR_ENTRY_SIZE * j) c))"
  by (simp add: dir_entries_def)

lemma of_le32_le32: "n < 2 ^ 32 \<Longrightarrow> of_le32 (le32 n) = n"
proof -
  assume n: "n < 2 ^ 32"
  have "unat (word_of_nat m :: byte) = m mod 256" for m
    by (simp add: unat_of_nat)
  then have "of_le32 (le32 n) = n mod 256 + (n div 256 mod 256) * 256 + (n div 65536 mod 256) * 65536
      + (n div 16777216 mod 256) * 16777216"
    by (simp add: of_le32_def le32_def)
  moreover have "n div 65536 = n div 256 div 256" "n div 16777216 = n div 256 div 256 div 256"
    by (simp_all add: div_mult2_eq[symmetric])
  moreover have "n div 256 div 256 div 256 < 256" using n by (simp add: div_mult2_eq[symmetric])
  ultimately have "of_le32 (le32 n) = n mod 256 + (n div 256 mod 256) * 256
      + (n div 256 div 256 mod 256) * 65536 + (n div 256 div 256 div 256) * 16777216" by simp
  then show ?thesis
    using div_mult_mod_eq[of n 256] div_mult_mod_eq[of "n div 256" 256] div_mult_mod_eq[of "n div 256 div 256" 256]
    by linarith
qed

lemma length_le32 [simp]: "length (le32 n) = 4"
  by (simp add: le32_def)

lemma dir_entry_roundtrip:
  assumes "inode_sector e < 2 ^ 32" "length (e_name e) = 15"
  shows "dir_entry_of (dir_entry_bytes e) = e" "length (dir_entry_bytes e) = DIR_ENTRY_SIZE"
  using assms by (simp_all add: dir_entry_of_def dir_entry_bytes_def of_le32_le32 nth_append DIR_ENTRY_SIZE_def)

lemma entry_bytes_in:
  assumes "j < length c div DIR_ENTRY_SIZE"
  shows "DIR_ENTRY_SIZE * j + DIR_ENTRY_SIZE \<le> length c"
    "length (take DIR_ENTRY_SIZE (drop (DIR_ENTRY_SIZE * j) c)) = DIR_ENTRY_SIZE"
proof -
  have "Suc j * DIR_ENTRY_SIZE \<le> length c"
    using assms by (metis Suc_leI div_times_less_eq_dividend le_trans mult_le_mono1)
  then show "DIR_ENTRY_SIZE * j + DIR_ENTRY_SIZE \<le> length c" by (simp add: mult.commute)
  then show "length (take DIR_ENTRY_SIZE (drop (DIR_ENTRY_SIZE * j) c)) = DIR_ENTRY_SIZE" by simp
qed

lemma length_entry_name:
  "j < length c div DIR_ENTRY_SIZE \<Longrightarrow> length (e_name (dir_entries c ! j)) = 15"
  using entry_bytes_in[of j c] by (simp add: dir_entry_of_def DIR_ENTRY_SIZE_def)

lemma dir_entries_update:
  assumes "j < length c div DIR_ENTRY_SIZE" "length bs = DIR_ENTRY_SIZE"
  shows "dir_entries (memcpy_at c (DIR_ENTRY_SIZE * j) bs) = (dir_entries c)[j := dir_entry_of bs]"
proof (rule nth_equalityI)
  have len: "length (memcpy_at c (DIR_ENTRY_SIZE * j) bs) = length c"
    using entry_bytes_in[OF assms(1)] assms(2) by (simp add: memcpy_at_def)
  then show "length (dir_entries (memcpy_at c (DIR_ENTRY_SIZE * j) bs)) = length ((dir_entries c)[j := dir_entry_of bs])"
    by simp
  fix i assume "i < length (dir_entries (memcpy_at c (DIR_ENTRY_SIZE * j) bs))"
  then have i: "i < length c div DIR_ENTRY_SIZE" using len by simp
  have in_i: "DIR_ENTRY_SIZE * i + DIR_ENTRY_SIZE \<le> length c" and in_j: "DIR_ENTRY_SIZE * j + DIR_ENTRY_SIZE \<le> length c"
    using entry_bytes_in i assms(1) by blast+
  have "take DIR_ENTRY_SIZE (drop (DIR_ENTRY_SIZE * i) (memcpy_at c (DIR_ENTRY_SIZE * j) bs))
      = (if i = j then bs else take DIR_ENTRY_SIZE (drop (DIR_ENTRY_SIZE * i) c))"
  proof (cases i j rule: linorder_cases)
    case less
    then have "DIR_ENTRY_SIZE * i + DIR_ENTRY_SIZE \<le> DIR_ENTRY_SIZE * j"
      by (metis Suc_leI add.commute mult_Suc_right mult_le_mono2)
    then show ?thesis using less in_j by (simp add: memcpy_at_def take_drop min_def)
  next
    case equal
    then show ?thesis using in_j assms(2) by (simp add: memcpy_at_def)
  next
    case greater
    then have g: "DIR_ENTRY_SIZE * j + DIR_ENTRY_SIZE \<le> DIR_ENTRY_SIZE * i"
      by (metis Suc_leI add.commute mult_Suc_right mult_le_mono2)
    then have "drop (DIR_ENTRY_SIZE * i) (memcpy_at c (DIR_ENTRY_SIZE * j) bs) = drop (DIR_ENTRY_SIZE * i) c"
      using in_j assms(2) greater by (simp add: memcpy_at_def)
    then show ?thesis using greater by simp
  qed
  then show "dir_entries (memcpy_at c (DIR_ENTRY_SIZE * j) bs) ! i = (dir_entries c)[j := dir_entry_of bs] ! i"
    using i len by (auto simp: nth_list_update)
qed

lemma find_index:
  "find P xs = None \<longleftrightarrow> (\<forall>j < length xs. \<not> P (xs ! j))"
  "j < length xs \<Longrightarrow> P (xs ! j) \<Longrightarrow> \<forall>k < j. \<not> P (xs ! k) \<Longrightarrow> find P xs = Some (xs ! j)"
  by (auto simp: find_None_iff in_set_conv_nth find_Some_iff)

lemma dir_map_Some:
  assumes "uniq_names es"
  shows "dir_map es name = Some sec \<longleftrightarrow> (\<exists>j < length es. named (es ! j) name \<and> inode_sector (es ! j) = sec)"
proof
  assume "dir_map es name = Some sec"
  then show "\<exists>j < length es. named (es ! j) name \<and> inode_sector (es ! j) = sec"
    by (auto simp: dir_map_def find_Some_iff)
next
  assume "\<exists>j < length es. named (es ! j) name \<and> inode_sector (es ! j) = sec"
  then obtain j where j: "j < length es" "named (es ! j) name" "inode_sector (es ! j) = sec" by blast
  then have "\<forall>k < j. \<not> named (es ! k) name"
    using assms unfolding uniq_names_def by (metis less_trans nat_neq_iff)
  then show "dir_map es name = Some sec" using j find_index(2)[of j es "\<lambda>e. named e name"]
    by (simp add: dir_map_def)
qed

lemma dir_map_None: "dir_map es name = None \<longleftrightarrow> (\<forall>j < length es. \<not> named (es ! j) name)"
  by (simp add: dir_map_def find_index(1))

text \<open>Writing a fresh name into a free slot updates the map; clearing an entry deletes its name.\<close>

lemma dir_map_add:
  assumes "uniq_names es" "j < length es" "\<not> in_use (es ! j)" "dir_map es name = None"
    "named e name" "inode_sector e = sec"
  shows "uniq_names (es[j := e]) \<and> dir_map (es[j := e]) = (dir_map es)(name \<mapsto> sec)"
proof -
  have e: "named e n \<longleftrightarrow> n = name" for n using assms(5) by (auto simp: named_def)
  have j: "\<not> named (es ! j) n" for n using assms(3) by (simp add: named_def)
  have n: "\<forall>k < length es. \<not> named (es ! k) name" using assms(4) by (simp add: dir_map_None)
  have u: "uniq_names (es[j := e])"
    using assms(1,2) e n unfolding uniq_names_def by (auto simp: nth_list_update)
  have "dir_map (es[j := e]) n = Some x \<longleftrightarrow> ((dir_map es)(name \<mapsto> sec)) n = Some x" for n x
  proof -
    have "dir_map (es[j := e]) n = Some x \<longleftrightarrow>
        (n = name \<and> x = sec) \<or> (\<exists>k < length es. k \<noteq> j \<and> named (es ! k) n \<and> inode_sector (es ! k) = x)"
      unfolding dir_map_Some[OF u] using assms(2,6) e
      by (metis length_list_update nth_list_update_eq nth_list_update_neq)
    also have "\<dots> \<longleftrightarrow> (n = name \<and> x = sec) \<or> dir_map es n = Some x"
      using j dir_map_Some[OF assms(1)] by metis
    also have "\<dots> \<longleftrightarrow> ((dir_map es)(name \<mapsto> sec)) n = Some x" using assms(4) by auto
    finally show ?thesis .
  qed
  then show ?thesis using u by (metis ext option.exhaust)
qed

lemma dir_map_remove:
  assumes "uniq_names es" "j < length es" "named (es ! j) name" "\<not> in_use e"
  shows "uniq_names (es[j := e]) \<and> dir_map (es[j := e]) = (dir_map es)(name := None)"
proof -
  have e: "\<not> named e n" for n using assms(4) by (simp add: named_def)
  have j: "named (es ! j) n \<longleftrightarrow> n = name" for n using assms(3) by (auto simp: named_def)
  have u: "uniq_names (es[j := e])"
    using assms(1,2) e unfolding uniq_names_def by (simp add: nth_list_update)
  have "dir_map (es[j := e]) n = Some x \<longleftrightarrow> ((dir_map es)(name := None)) n = Some x" for n x
  proof -
    have "dir_map (es[j := e]) n = Some x \<longleftrightarrow>
        (\<exists>k < length es. k \<noteq> j \<and> named (es ! k) n \<and> inode_sector (es ! k) = x)"
      unfolding dir_map_Some[OF u] using assms(2) e
      by (metis length_list_update nth_list_update_eq nth_list_update_neq)
    also have "\<dots> \<longleftrightarrow> n \<noteq> name \<and> dir_map es n = Some x"
      using j dir_map_Some[OF assms(1)] assms(1-3) unfolding uniq_names_def by metis
    finally show ?thesis by auto
  qed
  then show ?thesis using u by (metis ext option.exhaust)
qed

end
