(* ===== verification/Vaddr.thy ===== *)
theory Vaddr
  imports Prelude
begin

unbundle bit_operations_syntax

text \<open>
  threads/vaddr.h and threads/pte.h: virtual addresses, their page numbers and offsets, and the entries
  of page directories and page tables.  An address is a natural number below \<open>2 ^ 32\<close>; masks and shifts
  are those of the 32-bit words.  The lemmas give the arithmetic meaning of the masks and show that an
  entry remembers the page it was made for.
\<close>

section \<open>Pages\<close>

abbreviation w32 :: "nat \<Rightarrow> 32 word" where "w32 \<equiv> word_of_nat"

definition BITMASK :: "nat \<Rightarrow> nat \<Rightarrow> 32 word" where
  "BITMASK shift cnt = push_bit shift (push_bit cnt 1 - 1)"

definition PGBITS :: nat where "PGBITS = 12"
definition PGSIZE :: nat where "PGSIZE = 4096"
definition PGMASK :: "32 word" where "PGMASK = BITMASK 0 PGBITS"
definition PHYS_BASE :: nat where "PHYS_BASE = 0xc0000000"

definition pg_ofs :: "nat \<Rightarrow> nat" where "pg_ofs va = unat (w32 va AND PGMASK)"
definition pg_no :: "nat \<Rightarrow> nat" where "pg_no va = unat (drop_bit PGBITS (w32 va))"
definition pg_round_up :: "nat \<Rightarrow> nat" where
  "pg_round_up va = unat ((w32 va + w32 PGSIZE - 1) AND NOT PGMASK)"
definition pg_round_down :: "nat \<Rightarrow> nat" where "pg_round_down va = unat (w32 va AND NOT PGMASK)"

definition is_user_vaddr :: "nat \<Rightarrow> bool" where "is_user_vaddr va \<longleftrightarrow> va < PHYS_BASE"
definition is_kernel_vaddr :: "nat \<Rightarrow> bool" where "is_kernel_vaddr va \<longleftrightarrow> va \<ge> PHYS_BASE"

definition ptov :: "nat \<Rightarrow> nat option" where
  "ptov paddr = do { ASSERT (paddr < PHYS_BASE); Some ((paddr + PHYS_BASE) mod 2 ^ 32) }"

definition vtop :: "nat \<Rightarrow> nat option" where
  "vtop va = do { ASSERT (is_kernel_vaddr va); Some (va - PHYS_BASE) }"

section \<open>Entries\<close>

definition PTSHIFT :: nat where "PTSHIFT = PGBITS"
definition PTBITS :: nat where "PTBITS = 10"
definition PTMASK :: "32 word" where "PTMASK = BITMASK PTSHIFT PTBITS"
definition PDSHIFT :: nat where "PDSHIFT = PTSHIFT + PTBITS"

definition pt_no :: "nat \<Rightarrow> nat" where "pt_no va = unat (drop_bit PTSHIFT (w32 va AND PTMASK))"
definition pd_no :: "nat \<Rightarrow> nat" where "pd_no va = unat (drop_bit PDSHIFT (w32 va))"

definition PTE_ADDR :: "32 word" where "PTE_ADDR = 0xfffff000"
definition PTE_P :: "32 word" where "PTE_P = 0x1"
definition PTE_W :: "32 word" where "PTE_W = 0x2"
definition PTE_U :: "32 word" where "PTE_U = 0x4"
definition PTE_A :: "32 word" where "PTE_A = 0x20"
definition PTE_D :: "32 word" where "PTE_D = 0x40"

definition pde_create :: "nat \<Rightarrow> 32 word option" where
  "pde_create pt = do { ASSERT (pg_ofs pt = 0); p \<leftarrow> vtop pt; Some (w32 p OR PTE_U OR PTE_P OR PTE_W) }"

definition pde_get_pt :: "32 word \<Rightarrow> nat option" where
  "pde_get_pt pde = do { ASSERT (pde AND PTE_P \<noteq> 0); ptov (unat (pde AND PTE_ADDR)) }"

definition pte_create_kernel :: "nat \<Rightarrow> bool \<Rightarrow> 32 word option" where
  "pte_create_kernel page writable = do {
     ASSERT (pg_ofs page = 0);
     p \<leftarrow> vtop page;
     Some (w32 p OR PTE_P OR (if writable then PTE_W else 0)) }"

definition pte_create_user :: "nat \<Rightarrow> bool \<Rightarrow> 32 word option" where
  "pte_create_user page writable = do { e \<leftarrow> pte_create_kernel page writable; Some (e OR PTE_U) }"

definition pte_get_page :: "32 word \<Rightarrow> nat option" where
  "pte_get_page pte = ptov (unat (pte AND PTE_ADDR))"

section \<open>What the masks compute\<close>

lemma PGMASK_mask: "PGMASK = mask 12"
  by (simp add: PGMASK_def BITMASK_def PGBITS_def mask_eq_exp_minus_1)

lemma unat_w32 [simp]: "va < 2 ^ 32 \<Longrightarrow> unat (w32 va) = va"
  by (simp add: unat_of_nat)

lemma pg_ofs_mod: "va < 2 ^ 32 \<Longrightarrow> pg_ofs va = va mod PGSIZE"
  by (simp add: pg_ofs_def PGMASK_mask PGSIZE_def flip: take_bit_eq_mask) (simp add: unsigned_take_bit_eq take_bit_nat_def)

lemma unat_drop: "unat (drop_bit n (w :: 32 word)) = unat w div 2 ^ n"
  unfolding unat_drop_bit_eq by (rule drop_bit_eq_div)

lemma pg_no_div: "va < 2 ^ 32 \<Longrightarrow> pg_no va = va div PGSIZE"
  by (simp add: pg_no_def PGBITS_def PGSIZE_def unat_drop)

lemma pd_no_div: "va < 2 ^ 32 \<Longrightarrow> pd_no va = va div 2 ^ 22"
  by (simp add: pd_no_def PDSHIFT_def PTSHIFT_def PTBITS_def PGBITS_def unat_drop)

lemma pt_no_div: "va < 2 ^ 32 \<Longrightarrow> pt_no va = va div PGSIZE mod 1024"
proof -
  assume va: "va < 2 ^ 32"
  have m: "PTMASK = push_bit 12 (mask 10)"
    by (simp add: PTMASK_def BITMASK_def PTSHIFT_def PTBITS_def PGBITS_def mask_eq_exp_minus_1)
  have "drop_bit 12 (w32 va AND PTMASK) = take_bit 10 (drop_bit 12 (w32 va))"
    unfolding m by (intro bit_word_eqI) (auto simp: bit_simps)
  then show ?thesis using va
    by (simp add: pt_no_def PTSHIFT_def PGBITS_def PGSIZE_def unsigned_take_bit_eq unat_drop take_bit_nat_def)
qed

lemma pg_round_down_sub: "va < 2 ^ 32 \<Longrightarrow> pg_round_down va = va - va mod PGSIZE"
proof -
  assume va: "va < 2 ^ 32"
  have "w32 va AND NOT PGMASK = push_bit 12 (drop_bit 12 (w32 va))"
    by (intro bit_word_eqI) (auto simp: PGMASK_mask bit_simps)
  also have "\<dots> = w32 va - take_bit 12 (w32 va)"
    using bits_ident[of 12 "w32 va"] by (simp add: eq_diff_eq)
  finally have "pg_round_down va = unat (w32 va - take_bit 12 (w32 va))" by (simp add: pg_round_down_def)
  also have "\<dots> = va - va mod 4096"
  proof -
    have t: "unat (take_bit 12 (w32 va)) = va mod 4096"
      using va by (simp add: unsigned_take_bit_eq take_bit_nat_def)
    then have "take_bit 12 (w32 va) \<le> w32 va" using va by (simp add: word_le_nat_alt)
    then show ?thesis using t va by (simp add: unat_sub)
  qed
  finally show ?thesis by (simp add: PGSIZE_def)
qed

lemma aligned_split: "va < 2 ^ 32 \<Longrightarrow> pg_round_down va + pg_ofs va = va"
  by (simp add: pg_round_down_sub pg_ofs_mod)

section \<open>Entries remember their page\<close>

lemma entry_addr:
  assumes "p < 2 ^ 32" "p mod PGSIZE = 0" "f < 4096"
  shows "(w32 p OR w32 f) AND PTE_ADDR = w32 p"
proof -
  have a: "PTE_ADDR = NOT (mask 12)" by (simp add: PTE_ADDR_def mask_eq_exp_minus_1)
  have "take_bit 12 (w32 p) = 0"
  proof -
    have "unat (take_bit 12 (w32 p)) = 0"
      using assms(1,2) by (simp add: unsigned_take_bit_eq take_bit_nat_def PGSIZE_def)
    then show ?thesis by (simp add: unsigned_eq_0_iff)
  qed
  then have lo: "\<not> bit (w32 p) n" if "n < 12" for n
    using that by (metis bit_take_bit_iff bit_0_eq bot_apply bot_bool_def)
  have "unat (take_bit 12 (w32 f)) = unat (w32 f)"
    using assms(3) by (simp add: unsigned_take_bit_eq take_bit_nat_def)
  then have "take_bit 12 (w32 f) = w32 f" by (simp add: unsigned_word_eqI)
  then have hi: "\<not> bit (w32 f) n" if "12 \<le> n" for n
    using that by (metis bit_take_bit_iff linorder_not_less)
  show ?thesis unfolding a
  proof (rule bit_word_eqI)
    fix n assume n: "n < LENGTH(32)"
    have "bit ((w32 p OR w32 f) AND NOT (mask 12)) n \<longleftrightarrow> (bit (w32 p) n \<or> bit (w32 f) n) \<and> 12 \<le> n"
      using n by (auto simp: bit_and_iff bit_or_iff bit_not_iff bit_mask_iff)
    then show "bit ((w32 p OR w32 f) AND NOT (mask 12)) n \<longleftrightarrow> bit (w32 p) n" using lo hi by (meson not_less)
  qed
qed

end
