(* ===== verification/ArgStack.thy ===== *)
theory ArgStack
  imports Bytes DirSpec Vaddr
begin

text \<open>
  The command line on a new process's stack (\<open>reverse\<close>, \<open>push\<close> and \<open>init_cmd_line\<close> in
  projects1-3/src/userprog/process.c), in the byte memory of lib/string.c.  The page is written through
  its kernel address \<open>kpage\<close>; the pointers in it are relative to its user address \<open>upage\<close>.  A pointer
  variable and an int have 4 bytes; \<open>ofs\<close> starts at the size of the page and loses at most
  24 bytes before the first check, so its subtractions do not wrap.

  The lemmas follow the code as it is: \<open>sizeof(cmd_line) + 1\<close> is 5, so that only command lines of up to
  4 bytes arrive whole; the call of \<open>reverse\<close> passes a pointer for the count, which is a negative int, so
  that the arguments stay in the order of the pushes, the last one first.
\<close>

section \<open>The code\<close>

abbreviation (input) SIZEOF_PTR :: nat where "SIZEOF_PTR \<equiv> 4"

definition MAX_ARGS :: nat where "MAX_ARGS = 1024"

text \<open>A pointer passed where an int is expected.\<close>

definition as_int :: "addr \<Rightarrow> int" where
  "as_int a = sint (word_of_nat a :: 32 word)"

function reverse :: "int \<Rightarrow> addr \<Rightarrow> mem \<Rightarrow> mem option" where
  "reverse argc argv m =
     (if argc > 1 then do {
        let tail = argv + SIZEOF_PTR * nat (argc - 1);
        tmp \<leftarrow> load_bytes argv SIZEOF_PTR m;
        p \<leftarrow> load_bytes tail SIZEOF_PTR m;
        m \<leftarrow> copy_bytes argv p m;
        m \<leftarrow> copy_bytes tail tmp m;
        reverse (argc - 2) (argv + SIZEOF_PTR) m }
      else Some m)"
  by pat_completeness auto
termination by (relation "measure (\<lambda>(argc, _). nat argc)") auto

declare reverse.simps [simp del]

text \<open>The pointer to the pushed object or NULL, the new \<open>*ofs\<close>, and the memory; \<open>buf\<close> is the object.\<close>

definition push :: "addr \<Rightarrow> nat \<Rightarrow> 8 word list \<Rightarrow> mem \<Rightarrow> (addr \<times> nat \<times> mem) option" where
  "push kpage ofs buf m = (
     let sz = length buf; pad_size = ROUND_UP sz 4 in
     if ofs < pad_size then Some (NULL, ofs, m)
     else do {
       let ofs = ofs - pad_size;
       m \<leftarrow> copy_bytes (ofs + kpage + (pad_size - sz)) buf m;
       Some (ofs + kpage + (pad_size - sz), ofs, m) })"

text \<open>
  The loop over \<open>strtok_r\<close>; \<open>s\<close> is the string for the first call and NULL later, \<open>spaces\<close> the address
  of the literal.  An argument past the end of the array has no result.
\<close>

partial_function (option) parse_args ::
    "addr \<Rightarrow> addr \<Rightarrow> addr \<Rightarrow> addr \<Rightarrow> addr \<Rightarrow> nat list \<Rightarrow> mem \<Rightarrow> (nat list \<times> mem) option" where
  "parse_args upage kpage spaces s saveptr arguments m = do {
     (karg, saveptr, m) \<leftarrow> strtok_r s spaces saveptr m;
     if karg = NULL then Some (arguments, m)
     else if length arguments < MAX_ARGS
     then parse_args upage kpage spaces NULL saveptr (arguments @ [upage + (karg - kpage)]) m
     else None }"

declare parse_args.simps [code]

fun push_args :: "addr \<Rightarrow> nat \<Rightarrow> nat list \<Rightarrow> mem \<Rightarrow> (bool \<times> nat \<times> mem) option" where
  "push_args kpage ofs [] m = Some (True, ofs, m)"
| "push_args kpage ofs (a # as) m = do {
     (p, ofs, m) \<leftarrow> push kpage ofs (le32 a) m;
     if p = NULL then Some (False, ofs, m) else push_args kpage ofs as m }"

text \<open>The stack pointer for the process, or nothing when the arguments do not fit.\<close>

definition init_cmd_line :: "addr \<Rightarrow> addr \<Rightarrow> addr \<Rightarrow> addr \<Rightarrow> mem \<Rightarrow> (addr option \<times> mem) option" where
  "init_cmd_line upage kpage cmd_line spaces m = do {
     buf \<leftarrow> load_bytes cmd_line (SIZEOF_PTR + 1) m;
     (cmd_line_cpy, ofs, m) \<leftarrow> push kpage PGSIZE buf m;
     if cmd_line_cpy = NULL then Some (None, m) else do {
     (arguments, m) \<leftarrow> parse_args upage kpage spaces cmd_line_cpy 0 [] m;
     let argc = length arguments;
     let padding = ((PGSIZE - ofs) + (argc + 1) * SIZEOF_PTR + SIZEOF_PTR + 4) mod 16;
     let ofs = ofs - (16 - padding);
     (p, ofs, m) \<leftarrow> push kpage ofs (le32 NULL) m;
     if p = NULL then Some (None, m) else do {
     (ok, ofs, m) \<leftarrow> push_args kpage ofs arguments m;
     if \<not> ok then Some (None, m) else do {
     let argv = upage + ofs;
     m \<leftarrow> reverse (as_int argv) (upage + ofs) m;
     (p, ofs, m) \<leftarrow> push kpage ofs (le32 argv) m;
     if p = NULL then Some (None, m) else do {
     (p, ofs, m) \<leftarrow> push kpage ofs (le32 argc) m;
     if p = NULL then Some (None, m) else do {
     (p, ofs, m) \<leftarrow> push kpage ofs (le32 NULL) m;
     if p = NULL then Some (None, m) else Some (Some (upage + ofs), m) } } } } } }"

section \<open>Pushing\<close>

text \<open>A push of a word puts it below the bytes pushed before.\<close>

definition stacked :: "mem \<Rightarrow> addr \<Rightarrow> nat \<Rightarrow> mem \<Rightarrow> bool" where
  "stacked m kpage lim m' \<longleftrightarrow> dom m' = dom m \<and> (\<forall>a. a < kpage \<or> kpage + lim \<le> a \<longrightarrow> m' a = m a)"

lemma stacked_refl [simp]: "stacked m kpage lim m"
  by (simp add: stacked_def)

lemma stacked_trans:
  "stacked m kpage lim m' \<Longrightarrow> stacked m' kpage lim' m'' \<Longrightarrow> lim' \<le> lim \<Longrightarrow> stacked m kpage lim m''"
  by (simp add: stacked_def)

lemma push_ok:
  assumes "mapped kpage PGSIZE m" "ROUND_UP (length buf) 4 \<le> ofs" "ofs \<le> PGSIZE" "kpage \<noteq> NULL" "buf \<noteq> []"
  defines "o' \<equiv> ofs - ROUND_UP (length buf) 4"
  defines "p \<equiv> kpage + ofs - length buf"
  shows "\<exists>m'. push kpage ofs buf m = Some (p, o', m') \<and> bytes_at m' p buf \<and> stacked m kpage ofs m' \<and> p \<noteq> NULL"
proof -
  have le: "length buf \<le> ROUND_UP (length buf) 4" using ROUND_UP_ge by simp
  then have p: "o' + kpage + (ROUND_UP (length buf) 4 - length buf) = p" using assms(2) by (simp add: o'_def p_def)
  have "mapped p (length buf) m" using assms(1) by (rule mapped_part) (use le assms(2,3) in \<open>auto simp: p_def\<close>)
  from copy_bytes_ok[OF this] obtain m' where m': "copy_bytes p buf m = Some m'" "bytes_at m' p buf" "dom m' = dom m"
    "\<forall>x. x < p \<or> p + length buf \<le> x \<longrightarrow> m' x = m x" by blast
  have "stacked m kpage ofs m'" using m'(3,4) le assms(2) unfolding stacked_def p_def by auto
  moreover have "p \<noteq> NULL" using assms(2,4) le by (auto simp: p_def)
  moreover have "push kpage ofs buf m = Some (p, o', m')"
    using m'(1) assms(2) p by (simp add: push_def Let_def o'_def[symmetric])
  ultimately show ?thesis using m'(2) by blast
qed

lemma ROUND_UP_4 [simp]: "ROUND_UP 4 4 = 4"
  by (simp add: ROUND_UP_def)

lemma push_le32_ok:
  assumes "mapped kpage PGSIZE m" "4 \<le> ofs" "ofs \<le> PGSIZE" "kpage \<noteq> NULL"
  shows "\<exists>m'. push kpage ofs (le32 n) m = Some (kpage + (ofs - 4), ofs - 4, m')
    \<and> bytes_at m' (kpage + (ofs - 4)) (le32 n) \<and> stacked m kpage ofs m'"
proof -
  have "le32 n \<noteq> []" "kpage + ofs - 4 = kpage + (ofs - 4)" using assms(2) by (simp_all add: le32_def)
  then show ?thesis using push_ok[of kpage m "le32 n" ofs] assms by auto
qed

lemma bytes_at_stacked:
  "bytes_at m (kpage + o') bs \<Longrightarrow> stacked m kpage lim m' \<Longrightarrow> lim \<le> o' \<Longrightarrow> bytes_at m' (kpage + o') bs"
  by (erule bytes_at_cong) (simp add: stacked_def)

lemma push_args_ok:
  assumes "mapped kpage PGSIZE m" "4 * length as \<le> ofs" "ofs \<le> PGSIZE" "kpage \<noteq> NULL"
  defines "o' \<equiv> ofs - 4 * length as"
  shows "\<exists>m'. push_args kpage ofs as m = Some (True, o', m')
    \<and> bytes_at m' (kpage + o') (concat (map le32 (rev as))) \<and> stacked m kpage ofs m'"
  using assms(1-3) unfolding o'_def
proof (induction as arbitrary: m ofs)
  case (Cons a as)
  from push_le32_ok[of kpage m ofs a] Cons.prems assms(4) obtain m1 where
    m1: "push kpage ofs (le32 a) m = Some (kpage + (ofs - 4), ofs - 4, m1)"
      "bytes_at m1 (kpage + (ofs - 4)) (le32 a)" "stacked m kpage ofs m1" by auto
  have "mapped kpage PGSIZE m1" using Cons.prems(1) m1(3) by (auto intro: mapped_dom simp: stacked_def)
  moreover have "4 * length as \<le> ofs - 4" "ofs - 4 \<le> PGSIZE" using Cons.prems by auto
  ultimately obtain m' where
    m': "push_args kpage (ofs - 4) as m1 = Some (True, ofs - 4 - 4 * length as, m')"
      "bytes_at m' (kpage + (ofs - 4 - 4 * length as)) (concat (map le32 (rev as)))" "stacked m1 kpage (ofs - 4) m'"
    using Cons.IH by blast
  have len: "length (concat (map le32 (rev as))) = 4 * length as"
    by (simp add: length_concat comp_def sum_list_triv)
  have "bytes_at m' (kpage + (ofs - 4)) (le32 a)" using m1(2) m'(3) by (rule bytes_at_stacked) simp
  moreover have "stacked m kpage ofs m'" using m1(3) m'(3) by (rule stacked_trans) simp
  moreover have "kpage + (ofs - 4 - 4 * length as) + 4 * length as = kpage + (ofs - 4)" using Cons.prems(2) by simp
  ultimately show ?case using m1(1) m' assms(4) len by (intro exI[of _ m']) (simp add: algebra_simps)
qed simp

text \<open>With the number of words and their address \<open>reverse\<close> does reverse them.\<close>

lemma length_concat_4: "\<forall>b \<in> set bs. length b = 4 \<Longrightarrow> length (concat bs) = 4 * length bs"
  by (induction bs) auto

lemma reverse_ok:
  assumes "bytes_at m a (concat bs)" "\<forall>b \<in> set bs. length b = 4"
  shows "\<exists>m'. reverse (int (length bs)) a m = Some m' \<and> bytes_at m' a (concat (rev bs))
    \<and> (\<forall>x. x < a \<or> a + 4 * length bs \<le> x \<longrightarrow> m' x = m x)"
  using assms
proof (induction "length bs" arbitrary: bs a m rule: less_induct)
  case less
  show ?case
  proof (cases "length bs \<le> 1")
    case True
    then have "rev bs = bs" by (cases bs) auto
    then show ?thesis using True less.prems(1) by (subst reverse.simps) simp
  next
    case False
    then obtain b mid c where bs: "bs = b # mid @ [c]"
      by (metis One_nat_def append_butlast_last_id length_0_conv length_Cons list.exhaust nat_le_linear zero_le_one)
    have len: "length b = 4" "length c = 4" "\<forall>b \<in> set mid. length b = 4" using less.prems(2) bs by auto
    let ?t = "a + 4 + 4 * length mid"
    have at: "bytes_at m a b" "bytes_at m (a + 4) (concat mid)" "bytes_at m ?t c"
      using less.prems(1) len length_concat_4[OF len(3)] by (auto simp: bs)
    from copy_bytes_at[OF at(1), of c] len obtain m1 where
      m1: "copy_bytes a c m = Some m1" "bytes_at m1 a c" "\<forall>x. x < a \<or> a + 4 \<le> x \<longrightarrow> m1 x = m x" by auto
    have "bytes_at m1 ?t c" using at(3) by (rule bytes_at_cong) (use m1(3) in auto)
    from copy_bytes_at[OF this, of b] len obtain m2 where
      m2: "copy_bytes ?t b m1 = Some m2" "bytes_at m2 ?t b" "\<forall>x. x < ?t \<or> ?t + 4 \<le> x \<longrightarrow> m2 x = m1 x" by auto
    have "bytes_at m2 (a + 4) (concat mid)"
      using at(2) by (rule bytes_at_cong) (use m1(3) m2(3) length_concat_4[OF len(3)] in auto)
    with less.hyps[of mid m2 "a + 4"] len(3) bs obtain m' where
      m': "reverse (int (length mid)) (a + 4) m2 = Some m'" "bytes_at m' (a + 4) (concat (rev mid))"
        "\<forall>x. x < a + 4 \<or> ?t \<le> x \<longrightarrow> m' x = m2 x" by auto
    have "bytes_at m2 a c" using m1(2) by (rule bytes_at_cong) (use m2(3) len in auto)
    then have ends: "bytes_at m' a c" by (rule bytes_at_cong) (use m'(3) len in auto)
    have other: "bytes_at m' ?t b" using m2(2) by (rule bytes_at_cong) (use m'(3) in auto)
    have "load_bytes a 4 m = Some b" "load_bytes ?t 4 m = Some c"
      using load_bytes_at[OF at(1)] load_bytes_at[OF at(3)] len by simp_all
    moreover have tl: "a + 4 * nat (int (length bs) - 1) = ?t" by (simp add: bs)
    moreover have "int (length bs) - 2 = int (length mid)" "1 < int (length bs)" by (simp_all add: bs)
    ultimately have "reverse (int (length bs)) a m = reverse (int (length mid)) (a + 4) m2"
      using m1(1) m2(1) by (subst reverse.simps) (simp only: tl Let_def if_True bind.bind_lunit)
    moreover have "bytes_at m' a (concat (rev bs))"
      using ends other m'(2) length_concat_4[of "rev mid"] len by (auto simp: bs algebra_simps)
    moreover have "\<forall>x. x < a \<or> a + 4 * length bs \<le> x \<longrightarrow> m' x = m x" using m1(3) m2(3) m'(3) by (auto simp: bs)
    ultimately show ?thesis using m'(1) by auto
  qed
qed

section \<open>Splitting\<close>

lemma next_word_shorter:
  assumes "next_word ds s \<noteq> []" shows "length (after_word ds s) < length s"
proof -
  let ?s = "dropWhile (\<lambda>b. b \<in> set ds) s"
  have "?s \<noteq> []" using assms unfolding next_word_def by (rule contrapos_nn) (simp only: takeWhile.simps)
  moreover have "length (dropWhile (\<lambda>b. b \<notin> set ds) ?s) \<le> length ?s" by (rule length_dropWhile_le)
  ultimately have "length (after_word ds s) < length ?s"
    unfolding after_word_def length_tl length_greater_0_conv[symmetric] by linarith
  then show ?thesis using length_dropWhile_le[of "\<lambda>b. b \<in> set ds" s] by linarith
qed

function args_of :: "8 word list \<Rightarrow> 8 word list list" where
  "args_of s = (if next_word [32] s = [] then [] else next_word [32] s # args_of (after_word [32] s))"
  by pat_completeness auto
termination by (relation "measure length") (auto dest: next_word_shorter)

declare args_of.simps [simp del]

lemma strtok_r_dom: "strtok_r s d save m = Some (t, s', m') \<Longrightarrow> dom m' = dom m"
  unfolding strtok_r_def Let_def
  by (auto simp: store_def split: bind_splits sum.splits if_splits)

lemma length_args_of: "length (args_of s) \<le> length s"
proof (induction s rule: args_of.induct)
  case (1 s)
  then show ?case using next_word_shorter[of "[32]" s] by (subst args_of.simps) auto
qed

text \<open>The pointers are those of the words, wherever the string lies in the page.\<close>

lemma parse_args_ok:
  assumes "str_at m p s" "str_at m sp [32]" "sp \<noteq> NULL" "p \<noteq> NULL" "q = p \<and> save = x \<or> q = NULL \<and> save = p"
    "sp + 1 < p \<or> p + length s < sp" "kpage \<le> p" "length acc + length s \<le> MAX_ARGS"
  shows "\<exists>qs m'. parse_args upage kpage sp q save acc m = Some (acc @ qs, m')
    \<and> list_all2 (\<lambda>q w. upage + (p - kpage) \<le> q \<and> str_at m' (kpage + (q - upage)) w) qs (args_of s)
    \<and> dom m' = dom m \<and> (args_of s = [] \<longrightarrow> m' = m) \<and> (\<forall>a. a < p \<or> p + length s < a \<longrightarrow> m' a = m a)"
  using assms
proof (induction s arbitrary: m p q save x acc rule: args_of.induct)
  case (1 s)
  let ?w = "next_word [32] s" and ?r = "after_word [32] s"
  have d: "sp + length [32 :: 8 word] < p \<or> p + length s < sp" using "1.prems"(6) by simp
  from strtok_r_str[OF "1.prems"(1-5) d] obtain t save' m1 where
    tok: "strtok_r q sp save m = Some (t, save', m1)" "p \<le> save'" "save' + length ?r \<le> p + length s" "str_at m1 save' ?r"
      "str_at m1 sp [32]"
    and w: "if ?w = [] then t = NULL \<and> m1 = m
       else p \<le> t \<and> str_at m1 t ?w \<and> (t + length ?w < save' \<or> ?r = [])"
    and fr: "\<forall>a. a < p \<or> p + length s < a \<longrightarrow> m1 a = m a" by blast
  show ?case
  proof (cases "?w = []")
    case True
    then show ?thesis using tok(1) w by (subst parse_args.simps) (simp add: args_of.simps)
  next
    case False
    then have t: "p \<le> t" "t \<noteq> NULL" "str_at m1 t ?w" "t + length ?w < save' \<or> ?r = []" using w "1.prems"(4) by auto
    note sh = next_word_shorter[OF False]
    have pre: "save' \<noteq> NULL" "sp + 1 < save' \<or> save' + length ?r < sp" "kpage \<le> save'"
      "length (acc @ [upage + (t - kpage)]) + length ?r \<le> MAX_ARGS"
      using tok(2,3) "1.prems"(4,6,7,8) sh by auto
    from "1.IH"[OF False tok(4,5) "1.prems"(3) pre(1) _ pre(2-4), of NULL save' 0] obtain qs m' where
      rest: "parse_args upage kpage sp NULL save' (acc @ [upage + (t - kpage)]) m1 = Some ((acc @ [upage + (t - kpage)]) @ qs, m')"
        "list_all2 (\<lambda>q w. upage + (save' - kpage) \<le> q \<and> str_at m' (kpage + (q - upage)) w) qs (args_of ?r)"
        "dom m' = dom m1" "args_of ?r = [] \<longrightarrow> m' = m1" "\<forall>a. a < save' \<or> save' + length ?r < a \<longrightarrow> m' a = m1 a"
      by blast
    have "str_at m' t ?w"
    proof (cases "t + length ?w < save'")
      case True
      then show ?thesis using rest(5) by (intro str_at_cong[OF t(3)]) auto
    next
      case False
      then have "args_of ?r = []" using t(4) by (simp add: args_of.simps next_word_def)
      then show ?thesis using rest(4) t(3) by simp
    qed
    moreover have "list_all2 (\<lambda>q w. upage + (p - kpage) \<le> q \<and> str_at m' (kpage + (q - upage)) w) qs (args_of ?r)"
      using rest(2) by (rule list_all2_mono) (use tok(2) "1.prems"(7) in auto)
    moreover have "dom m' = dom m" using rest(3) strtok_r_dom[OF tok(1)] by simp
    moreover have "\<forall>a. a < p \<or> p + length s < a \<longrightarrow> m' a = m a" using rest(5) fr tok(2,3) by auto
    moreover have "parse_args upage kpage sp q save acc m = Some (acc @ (upage + (t - kpage)) # qs, m')"
      using tok(1) t(2) rest(1) "1.prems"(8) sh by (subst parse_args.simps) simp
    ultimately show ?thesis using False t(1) "1.prems"(7)
      by (intro exI[of _ "(upage + (t - kpage)) # qs"] exI[of _ m']) (simp add: args_of.simps[of s])
  qed
qed

text \<open>A run of nonzero bytes that the memory ends: the loops read on past its end.\<close>

lemma skip_delims_run:
  assumes "bytes_at m p bs" "0 \<notin> set bs" "m (p + length bs) = None" "str_at m d ds" "d \<noteq> NULL"
  shows "skip_delims p d m = (if dropWhile (\<lambda>b. b \<in> set ds) bs = [] then None
    else Some (Inl (p + length (takeWhile (\<lambda>b. b \<in> set ds) bs))))"
  using assms(1-3)
proof (induction bs arbitrary: p)
  case Nil
  then show ?case by (subst skip_delims.simps) auto
next
  case (Cons b bs)
  then show ?case using strchr_found[OF assms(4,5), of b] Cons.IH[of "p + 1"]
    by (subst skip_delims.simps) auto
qed

lemma skip_token_run:
  assumes "bytes_at m p bs" "0 \<notin> set bs" "m (p + length bs) = None" "str_at m d ds" "d \<noteq> NULL"
  shows "skip_token p d m = (if dropWhile (\<lambda>b. b \<notin> set ds) bs = [] then None
    else Some (p + length (takeWhile (\<lambda>b. b \<notin> set ds) bs)))"
  using assms(1-3)
proof (induction bs arbitrary: p)
  case Nil
  then show ?case by (subst skip_token.simps) auto
next
  case (Cons b bs)
  then show ?case using strchr_found[OF assms(4,5), of b] Cons.IH[of "p + 1"]
    by (subst skip_token.simps) auto
qed

lemma parse_args_run:
  assumes "bytes_at m p bs" "0 \<notin> set bs" "m (p + length bs) = None" "str_at m sp [32]" "sp \<noteq> NULL" "p \<noteq> NULL"
    "q = p \<and> save = x \<or> q = NULL \<and> save = p" "sp + 1 < p \<or> p + length bs < sp"
  shows "parse_args upage kpage sp q save acc m = None"
  using assms
proof (induction "length bs" arbitrary: bs m p q save x acc rule: less_induct)
  case less
  let ?D = "\<lambda>b. b \<in> set [32 :: 8 word]" and ?N = "\<lambda>b. b \<notin> set [32 :: 8 word]"
  define pre s1 w r where "pre = takeWhile ?D bs" and "s1 = dropWhile ?D bs" and "w = takeWhile ?N s1" and "r = dropWhile ?N s1"
  have bs: "bs = pre @ w @ r" by (simp add: pre_def s1_def w_def r_def)
  have start: "(if q = NULL then save else q) = p" using less.prems(6,7) by auto
  note sk = skip_delims_run[OF less.prems(1-5), folded pre_def s1_def]
  have none: ?case if "strtok_r q sp save m = None"
    using that by (subst parse_args.simps) simp
  show ?case
  proof (cases "s1 = []")
    case True
    then show ?thesis using sk start less.prems(5,6) by (intro none) (simp add: strtok_r_def Let_def)
  next
    case False
    let ?t = "p + length pre"
    have s1: "s1 = w @ r" by (simp add: w_def r_def)
    have "bs = pre @ s1" by (simp add: pre_def s1_def)
    then have at: "bytes_at m ?t s1" "0 \<notin> set s1" "m (?t + length s1) = None"
      using less.prems(1-3) by (auto simp: algebra_simps)
    note st = skip_token_run[OF at less.prems(4,5), folded w_def r_def]
    show ?thesis
    proof (cases r)
      case Nil
      then show ?thesis using sk st False start less.prems(5,6)
        by (intro none) (simp add: strtok_r_def Let_def)
    next
      case (Cons c r')
      let ?e = "?t + length w" let ?m = "m(?e \<mapsto> 0)"
      have c: "c \<noteq> 0" "m ?e = Some c" "bytes_at m (?e + 1) r'" using at s1 Cons by auto
      have tok: "strtok_r q sp save m = Some (?t, ?e + 1, ?m)"
        using sk st False start less.prems(5,6) c Cons by (simp add: strtok_r_def Let_def store_def)
      have "bytes_at ?m (?e + 1) r'" using c(3) by (rule bytes_at_cong) auto
      moreover have "0 \<notin> set r'" "?m (?e + 1 + length r') = None" "length r' < length bs"
        using less.prems(2,3) bs Cons by (auto simp: algebra_simps)
      moreover have "str_at ?m sp [32]" using less.prems(4) by (rule str_at_cong) (use less.prems(8) bs Cons in auto)
      moreover have "sp + 1 < ?e + 1 \<or> ?e + 1 + length r' < sp" using less.prems(8) bs Cons by auto
      ultimately have "parse_args upage kpage sp NULL (?e + 1) acc' ?m = None" for acc'
        using less.hyps[of r' ?m "?e + 1" NULL "?e + 1" 0] less.prems(5) by auto
      then show ?thesis using tok less.prems(6) by (subst parse_args.simps) simp
    qed
  qed
qed

section \<open>The stack of the process\<close>

lemma as_int_negative:
  assumes "2 ^ 31 \<le> a" "a < 2 ^ 32" shows "as_int a < 0"
proof -
  have "a div 2 ^ 31 = 1" using assms by (simp add: div_nat_eqI)
  then have "bit (int a) 31" by (simp add: bit_iff_odd flip: zdiv_int[of a "2 ^ 31", simplified])
  then show ?thesis by (simp add: as_int_def signed_of_nat signed_take_bit_negative_iff)
qed

lemma reverse_pointer: "2 ^ 31 \<le> argv \<Longrightarrow> argv < 2 ^ 32 \<Longrightarrow> reverse (as_int argv) a m = Some m"
  using as_int_negative[of argv] by (subst reverse.simps) simp

lemma length_words: "2 * length (args_of s) \<le> length s + 1"
proof (induction s rule: args_of.induct)
  case (1 s)
  let ?w = "next_word [32] s" and ?r = "after_word [32] s"
  let ?s = "dropWhile (\<lambda>b. b \<in> set [32]) s"
  have tl: "length (tl xs) + (if tl xs = [] then 0 else 1) \<le> length xs" for xs :: "8 word list" by (cases xs) auto
  have "length ?s \<le> length s" by (rule length_dropWhile_le)
  moreover have "length ?s = length ?w + length (dropWhile (\<lambda>b. b \<notin> set [32]) ?s)"
    unfolding next_word_def by (metis length_append takeWhile_dropWhile_id)
  moreover have "length ?r + (if ?r = [] then 0 else 1) \<le> length (dropWhile (\<lambda>b. b \<notin> set [32]) ?s)"
    unfolding after_word_def by (rule tl)
  ultimately have le: "length ?w + length ?r + (if ?r = [] then 0 else 1) \<le> length s" by linarith
  show ?case
  proof (cases "?w = []")
    case False
    then have "1 \<le> length ?w" by (simp add: Suc_le_eq)
    moreover have "args_of ?r = []" if "?r = []" using that by (simp add: args_of.simps next_word_def)
    ultimately show ?thesis using "1.IH"[OF False] le False by (subst args_of.simps) (auto split: if_splits)
  qed (simp add: args_of.simps)
qed

text \<open>The words on the stack of a process, from its stack pointer up.\<close>

definition stack_words :: "addr \<Rightarrow> nat list \<Rightarrow> nat list" where
  "stack_words esp argv = [NULL, length argv, esp + 12] @ argv @ [NULL]"

lemma pushed_line:
  assumes s: "str_at m cmd s" "length s \<le> 4" "mapped cmd 5 m" and page: "mapped kpage PGSIZE m" "kpage \<noteq> NULL"
  shows "\<exists>buf m'. load_bytes cmd (SIZEOF_PTR + 1) m = Some buf
    \<and> push kpage PGSIZE buf m = Some (kpage + 4091, 4088, m')
    \<and> str_at m' (kpage + 4091) s \<and> stacked m kpage PGSIZE m'"
proof -
  from load_bytes_mapped[OF s(3)] obtain buf where buf: "load_bytes cmd 5 m = Some buf" "length buf = 5" "bytes_at m cmd buf"
    by blast
  have "take (length s + 1) buf = s @ [0]"
  proof (rule nth_equalityI)
    fix i assume "i < length (take (length s + 1) buf)"
    then have i: "i < length (s @ [0])" "i < length buf" by auto
    have "m (cmd + i) = Some ((s @ [0]) ! i)" "m (cmd + i) = Some (buf ! i)"
      using s(1) buf(3) i unfolding str_at_def bytes_at_def by blast+
    then show "take (length s + 1) buf ! i = (s @ [0]) ! i" using i by simp
  qed (use s(2) buf(2) in simp)
  then obtain rest where b: "buf = (s @ [0]) @ rest" by (metis append_take_drop_id)
  have ne: "buf \<noteq> []" using buf(2) by auto
  have r: "ROUND_UP (length buf) 4 = 8" using buf(2) by (simp add: ROUND_UP_def)
  from push_ok[OF page(1) _ _ page(2) ne, of PGSIZE] obtain m' where
    m': "push kpage PGSIZE buf m = Some (kpage + 4091, 4088, m')" "bytes_at m' (kpage + 4091) buf" "stacked m kpage PGSIZE m'"
    by (auto simp: r[unfolded buf(2)] buf(2) PGSIZE_def add.commute)
  have "str_at m' (kpage + 4091) s" using m'(2) s(1) unfolding b str_at_def by simp
  then show ?thesis using buf(1) m' by auto
qed

lemma mapped_stacked: "mapped kpage PGSIZE m \<Longrightarrow> stacked m kpage lim m' \<Longrightarrow> mapped kpage PGSIZE m'"
  by (auto intro: mapped_dom simp: stacked_def)

lemma pushed_args:
  assumes page: "mapped kpage PGSIZE m" "kpage \<noteq> NULL" and n: "length qs \<le> 2"
  defines "o' \<equiv> 4076 + 4 * length qs"
  shows "\<exists>m1 m'. push kpage o' (le32 NULL) m = Some (kpage + (o' - 4), o' - 4, m1)
    \<and> push_args kpage (o' - 4) qs m1 = Some (True, 4072, m')
    \<and> bytes_at m' (kpage + 4072) (concat (map le32 (rev qs)) @ le32 NULL) \<and> stacked m kpage 4084 m'"
proof -
  have b: "4 \<le> o'" "o' \<le> PGSIZE" "o' \<le> 4084" "o' - 4 - 4 * length qs = 4072" using n by (simp_all add: o'_def PGSIZE_def)
  from push_le32_ok[OF page(1) b(1,2) page(2)] obtain m1 where
    m1: "push kpage o' (le32 NULL) m = Some (kpage + (o' - 4), o' - 4, m1)" "bytes_at m1 (kpage + (o' - 4)) (le32 NULL)"
      "stacked m kpage o' m1" by blast
  have "4 * length qs \<le> o' - 4" "o' - 4 \<le> PGSIZE" using b by (simp_all add: o'_def)
  from push_args_ok[OF mapped_stacked[OF page(1) m1(3)] this page(2)] obtain m' where
    m': "push_args kpage (o' - 4) qs m1 = Some (True, 4072, m')" "bytes_at m' (kpage + 4072) (concat (map le32 (rev qs)))"
      "stacked m1 kpage (o' - 4) m'" unfolding b(4) by blast
  have "length (concat (map le32 (rev qs))) = 4 * length qs" by (simp add: length_concat comp_def sum_list_triv)
  then have at: "kpage + 4072 + length (concat (map le32 (rev qs))) = kpage + (o' - 4)" by (simp add: o'_def)
  have "bytes_at m' (kpage + (o' - 4)) (le32 NULL)" using m1(2) m'(3) by (rule bytes_at_stacked) simp
  then have "bytes_at m' (kpage + 4072) (concat (map le32 (rev qs)) @ le32 NULL)" using m'(2) by (simp only: bytes_at_append at)
  moreover have "stacked m kpage 4084 m1" using m1(3) b(3) by (auto simp: stacked_def)
  then have "stacked m kpage 4084 m'" using m'(3) by (rule stacked_trans) (use b in simp)
  ultimately show ?thesis using m1(1) m'(1) by blast
qed

lemma pushed_top:
  assumes page: "mapped kpage PGSIZE m" "kpage \<noteq> NULL"
  shows "\<exists>m1 m2 m'. push kpage 4072 (le32 a) m = Some (kpage + 4068, 4068, m1)
    \<and> push kpage 4068 (le32 b) m1 = Some (kpage + 4064, 4064, m2)
    \<and> push kpage 4064 (le32 c) m2 = Some (kpage + 4060, 4060, m')
    \<and> bytes_at m' (kpage + 4060) (le32 c @ le32 b @ le32 a) \<and> stacked m kpage 4072 m'"
proof -
  from push_le32_ok[OF page(1) _ _ page(2), of 4072 a] obtain m1 where
    m1: "push kpage 4072 (le32 a) m = Some (kpage + 4068, 4068, m1)" "bytes_at m1 (kpage + 4068) (le32 a)"
      "stacked m kpage 4072 m1" by (auto simp: PGSIZE_def)
  note page1 = mapped_stacked[OF page(1) m1(3)]
  from push_le32_ok[OF page1 _ _ page(2), of 4068 b] obtain m2 where
    m2: "push kpage 4068 (le32 b) m1 = Some (kpage + 4064, 4064, m2)" "bytes_at m2 (kpage + 4064) (le32 b)"
      "stacked m1 kpage 4068 m2" by (auto simp: PGSIZE_def)
  from push_le32_ok[OF mapped_stacked[OF page1 m2(3)] _ _ page(2), of 4064 c] obtain m' where
    m': "push kpage 4064 (le32 c) m2 = Some (kpage + 4060, 4060, m')" "bytes_at m' (kpage + 4060) (le32 c)"
      "stacked m2 kpage 4064 m'" by (auto simp: PGSIZE_def)
  have "bytes_at m' (kpage + 4064) (le32 b)" using m2(2) m'(3) by (rule bytes_at_stacked) simp
  moreover have "stacked m1 kpage 4068 m'" using m2(3) m'(3) by (rule stacked_trans) simp
  then have "bytes_at m' (kpage + 4068) (le32 a)" "stacked m kpage 4072 m'"
    using m1(2,3) by (auto intro: bytes_at_stacked stacked_trans)
  ultimately show ?thesis using m1(1) m2(1) m' by (auto simp: add.commute[of kpage])
qed

lemma init_cmd_line_short:
  assumes s: "str_at m cmd s" "length s \<le> 4" "mapped cmd 5 m"
    and page: "mapped kpage PGSIZE m" "kpage \<noteq> NULL"
    and sp: "str_at m sp [32]" "sp \<noteq> NULL" "sp + 1 < kpage \<or> kpage + PGSIZE \<le> sp"
  defines "upage \<equiv> PHYS_BASE - PGSIZE" and "esp \<equiv> PHYS_BASE - 36"
  shows "\<exists>argv m'. init_cmd_line upage kpage cmd sp m = Some (Some esp, m')
    \<and> bytes_at m' (kpage + (esp - upage)) (concat (map le32 (stack_words esp argv)))
    \<and> list_all2 (\<lambda>q w. upage \<le> q \<and> str_at m' (kpage + (q - upage)) w) (rev argv) (args_of s)"
proof -
  from pushed_line[OF s page] obtain buf m1 where
    m1: "load_bytes cmd (SIZEOF_PTR + 1) m = Some buf" "push kpage PGSIZE buf m = Some (kpage + 4091, 4088, m1)"
      "str_at m1 (kpage + 4091) s" "stacked m kpage PGSIZE m1" by blast
  have sp1: "str_at m1 sp [32]" using sp(1) by (rule str_at_cong) (use sp(3) m1(4) in \<open>auto simp: stacked_def\<close>)
  have dis: "sp + 1 < kpage + 4091 \<or> kpage + 4091 + length s < sp" using sp(3) s(2) by (auto simp: PGSIZE_def)
  from parse_args_ok[OF m1(3) sp1 sp(2) _ _ dis, of "kpage + 4091" 0 0 kpage "[]" upage] s(2) obtain qs m2 where
    m2: "parse_args upage kpage sp (kpage + 4091) 0 [] m1 = Some (qs, m2)"
      "list_all2 (\<lambda>q w. upage + 4091 \<le> q \<and> str_at m2 (kpage + (q - upage)) w) qs (args_of s)"
      "dom m2 = dom m1" by (auto simp: MAX_ARGS_def)
  define n where "n = length qs"
  have n: "length qs \<le> 2" "n = 0 \<or> n = 1 \<or> n = 2"
    using list_all2_lengthD[OF m2(2)] length_words[of s] s(2) unfolding n_def by linarith+
  have pad: "4088 - (16 - ((PGSIZE - 4088) + (n + 1) * SIZEOF_PTR + SIZEOF_PTR + 4) mod 16) = 4076 + 4 * n"
    using n(2) by (auto simp: PGSIZE_def)
  have page2: "mapped kpage PGSIZE m2" using mapped_stacked[OF page(1) m1(4)] m2(3) by (rule mapped_dom)
  from pushed_args[OF page2 page(2) n(1)] obtain m3 m4 where
    m4: "push kpage (4076 + 4 * n) (le32 NULL) m2 = Some (kpage + (4076 + 4 * n - 4), 4076 + 4 * n - 4, m3)"
      "push_args kpage (4076 + 4 * n - 4) qs m3 = Some (True, 4072, m4)"
      "bytes_at m4 (kpage + 4072) (concat (map le32 (rev qs)) @ le32 NULL)" "stacked m2 kpage 4084 m4"
    unfolding n_def by blast
  from pushed_top[OF mapped_stacked[OF page2 m4(4)] page(2), of "upage + 4072" n NULL] obtain m5 m6 m' where
    m': "push kpage 4072 (le32 (upage + 4072)) m4 = Some (kpage + 4068, 4068, m5)"
      "push kpage 4068 (le32 n) m5 = Some (kpage + 4064, 4064, m6)"
      "push kpage 4064 (le32 NULL) m6 = Some (kpage + 4060, 4060, m')"
      "bytes_at m' (kpage + 4060) (le32 NULL @ le32 n @ le32 (upage + 4072))" "stacked m4 kpage 4072 m'" by blast
  have esp: "esp = upage + 4060" "esp - upage = 4060" "esp + 12 = upage + 4072"
    by (simp_all add: esp_def upage_def PHYS_BASE_def PGSIZE_def)
  have rv: "reverse (as_int (upage + 4072)) a m' = Some m'" for a m'
    by (rule reverse_pointer) (simp_all add: upage_def PHYS_BASE_def PGSIZE_def)
  have run: "init_cmd_line upage kpage cmd sp m = Some (Some esp, m')"
    using m1(1,2) m2(1) m4(1,2) m'(1-3) page(2) rv pad esp(1)
    by (simp add: init_cmd_line_def Let_def n_def[symmetric])
  have "bytes_at m' (kpage + 4072) (concat (map le32 (rev qs)) @ le32 NULL)" using m4(3) m'(5) by (rule bytes_at_stacked) simp
  then have words: "bytes_at m' (kpage + (esp - upage)) (concat (map le32 (stack_words esp (rev qs))))"
    using m'(4) by (simp add: stack_words_def esp(2,3) n_def ac_simps)
  have "\<forall>a. kpage + 4084 \<le> a \<longrightarrow> m' a = m2 a" using m4(4) m'(5) by (simp add: stacked_def)
  then have "list_all2 (\<lambda>q w. upage \<le> q \<and> str_at m' (kpage + (q - upage)) w) qs (args_of s)"
    by (intro list_all2_mono[OF m2(2)]) (auto intro: str_at_cong)
  then show ?thesis using run words by (intro exI[of _ "rev qs"] exI[of _ m']) simp
qed

lemma init_cmd_line_long:
  assumes s: "bytes_at m cmd s" "0 \<notin> set s" "4 < length s"
    and page: "mapped kpage PGSIZE m" "m (kpage + PGSIZE) = None" "kpage \<noteq> NULL"
    and sp: "str_at m sp [32]" "sp \<noteq> NULL" "sp + 1 < kpage \<or> kpage + PGSIZE \<le> sp"
  shows "init_cmd_line upage kpage cmd sp m = None"
proof -
  define buf where "buf = take 5 s"
  have b: "length buf = 5" "0 \<notin> set buf" "bytes_at m cmd buf"
    using s set_take_subset[of 5 s] unfolding buf_def by (auto simp: bytes_at_def)
  have ld: "load_bytes cmd (SIZEOF_PTR + 1) m = Some buf" using load_bytes_at[OF b(3)] b(1) by simp
  have ne: "buf \<noteq> []" using b(1) by auto
  have r: "ROUND_UP 5 4 = 8" by (simp add: ROUND_UP_def)
  from push_ok[OF page(1) _ _ page(3) ne, of PGSIZE] obtain m' where
    m': "push kpage PGSIZE buf m = Some (kpage + 4091, 4088, m')" "bytes_at m' (kpage + 4091) buf" "stacked m kpage PGSIZE m'"
    by (auto simp: r b(1) PGSIZE_def add.commute)
  have "m' (kpage + 4091 + length buf) = None" using page(2) m'(3) b(1) by (simp add: stacked_def PGSIZE_def add.commute)
  moreover have "str_at m' sp [32]" using sp(1) by (rule str_at_cong) (use sp(3) m'(3) in \<open>auto simp: stacked_def\<close>)
  moreover have "sp + 1 < kpage + 4091 \<or> kpage + 4091 + length buf < sp" using sp(3) page(2) sp(1) b(1)
    by (cases "sp = kpage + PGSIZE") (auto simp: PGSIZE_def)
  ultimately have "parse_args upage kpage sp (kpage + 4091) 0 [] m' = None"
    using m'(2) b(2) sp(2) by (intro parse_args_run[of m' "kpage + 4091" buf]) auto
  then show ?thesis using ld m'(1) page(3) by (simp add: init_cmd_line_def Let_def)
qed

end
