(* ===== verification/Arith64.thy ===== *)
theory Arith64
  imports Prelude
begin

text \<open>
  64-bit division on a 32-bit machine (lib/arithmetic.c).  Unsigned values are naturals below
  \<open>2^64\<close> (or \<open>2^32\<close>), with the truncation of every conversion, shift and sum written out;
  \<open>None\<close> is the divide error of the processor.  The lemmas show that the routines compute the exact
  quotient and when the 32-bit return type of the two remainder routines loses bits.
\<close>

definition divl :: "nat \<Rightarrow> nat \<Rightarrow> nat option" where
  "divl n d = (if d = 0 \<or> n div d \<ge> 2 ^ 32 then None else Some (n div d))"

definition nlz :: "nat \<Rightarrow> nat" where
  "nlz x0 = (let
     n = 0; x = x0;
     (n, x) = (if x \<le> 0x0000FFFF then (n + 16, x * 2 ^ 16 mod 2 ^ 32) else (n, x));
     (n, x) = (if x \<le> 0x00FFFFFF then (n + 8, x * 2 ^ 8 mod 2 ^ 32) else (n, x));
     (n, x) = (if x \<le> 0x0FFFFFFF then (n + 4, x * 2 ^ 4 mod 2 ^ 32) else (n, x));
     (n, x) = (if x \<le> 0x3FFFFFFF then (n + 2, x * 2 ^ 2 mod 2 ^ 32) else (n, x))
     in if x \<le> 0x7FFFFFFF then n + 1 else n)"

definition udiv64 :: "nat \<Rightarrow> nat \<Rightarrow> nat option" where
  "udiv64 n d =
     (if d div 2 ^ 32 = 0 then
        (let b = 2 ^ 32; n1 = n div 2 ^ 32; n0 = n mod 2 ^ 32; d0 = d mod 2 ^ 32 in
         if d0 = 0 then None
         else do {
           q \<leftarrow> divl ((b * (n1 mod d0) + n0) mod 2 ^ 64) d0;
           Some ((q + b * (n1 div d0)) mod 2 ^ 64) })
      else if n < d then Some 0
      else
        (let d1 = d div 2 ^ 32; s = nlz d1 in do {
         q1 \<leftarrow> divl (n div 2) ((d * 2 ^ s mod 2 ^ 64) div 2 ^ 32);
         let q = q1 div 2 ^ (31 - s);
         Some (if (n + 2 ^ 64 - (q - 1) * d mod 2 ^ 64) mod 2 ^ 64 < d then q - 1 else q) }))"

definition umod64 :: "nat \<Rightarrow> nat \<Rightarrow> nat option" where
  "umod64 n d = map_option (\<lambda>q. ((n + 2 ^ 64 - d * q mod 2 ^ 64) mod 2 ^ 64) mod 2 ^ 32) (udiv64 n d)"

text \<open>Signed operands are two's complement 64-bit integers.\<close>

definition to_u64 :: "int \<Rightarrow> nat" where "to_u64 z = nat (z mod 2 ^ 64)"

definition to_s64 :: "nat \<Rightarrow> int" where
  "to_s64 u = (let m = u mod 2 ^ 64 in if m < 2 ^ 63 then int m else int m - 2 ^ 64)"

definition to_s32 :: "int \<Rightarrow> int" where
  "to_s32 z = (let m = z mod 2 ^ 32 in if m < 2 ^ 31 then m else m - 2 ^ 32)"

definition sdiv64 :: "int \<Rightarrow> int \<Rightarrow> int option" where
  "sdiv64 n d = do {
     let n_abs = (if n \<ge> 0 then to_u64 n else to_u64 (- n));
     let d_abs = (if d \<ge> 0 then to_u64 d else to_u64 (- d));
     q_abs \<leftarrow> udiv64 n_abs d_abs;
     Some (if (n < 0) = (d < 0) then to_s64 q_abs else to_s64 (to_u64 (- to_s64 q_abs))) }"

definition smod64 :: "int \<Rightarrow> int \<Rightarrow> int option" where
  "smod64 n d = map_option (\<lambda>q. to_s32 (n - d * q)) (sdiv64 n d)"

definition divdi3 :: "int \<Rightarrow> int \<Rightarrow> int option" where "divdi3 n d = sdiv64 n d"
definition moddi3 :: "int \<Rightarrow> int \<Rightarrow> int option" where "moddi3 n d = smod64 n d"
definition udivdi3 :: "nat \<Rightarrow> nat \<Rightarrow> nat option" where "udivdi3 n d = udiv64 n d"
definition umoddi3 :: "nat \<Rightarrow> nat \<Rightarrow> nat option" where "umoddi3 n d = umod64 n d"

section \<open>Leading zeros\<close>

text \<open>Each step of \<open>nlz\<close> keeps \<open>x = x0 * 2^n\<close> below \<open>2^32\<close> and raises its lower bound.\<close>

lemma nlz_step:
  fixes x x' x0 n n' k :: nat
  assumes "x < 2 ^ 32" "2 ^ (32 - 2 * k) \<le> x" "0 < k" "2 * k \<le> 32" "x = x0 * 2 ^ n"
    and "(n', x') = (if x \<le> 2 ^ (32 - k) - 1 then (n + k, x * 2 ^ k mod 2 ^ 32) else (n, x))"
  shows "x' < 2 ^ 32 \<and> 2 ^ (32 - k) \<le> x' \<and> x' = x0 * 2 ^ n' \<and> n' \<le> n + k"
proof (cases "x \<le> 2 ^ (32 - k) - 1")
  case True
  have "(0::nat) < 2 ^ (32 - k)" by simp
  then have "x < 2 ^ (32 - k)" using True by linarith
  then have "x * 2 ^ k < 2 ^ (32 - k) * 2 ^ k" by simp
  also have "(2::nat) ^ (32 - k) * 2 ^ k = 2 ^ 32" using assms(4) by (simp flip: power_add)
  finally have lt: "x * 2 ^ k < 2 ^ 32" .
  have "2 ^ (32 - 2 * k) * 2 ^ k \<le> x * 2 ^ k" using assms(2) by simp
  moreover have "(2::nat) ^ (32 - 2 * k) * 2 ^ k = 2 ^ (32 - k)"
    using assms(4) by (simp flip: power_add)
  ultimately show ?thesis using True assms(5,6) lt by (simp add: power_add)
next
  case False
  then show ?thesis using assms(1,5,6) by auto
qed

lemma nlz_correct:
  assumes "0 < x" "x < 2 ^ 32"
  shows "nlz x \<le> 31 \<and> 2 ^ 31 \<le> x * 2 ^ nlz x \<and> x * 2 ^ nlz x < 2 ^ 32"
proof -
  define p1 where "p1 = (if x \<le> 2 ^ (32 - 16) - 1 then (0 + 16, x * 2 ^ 16 mod 2 ^ 32) else (0::nat, x))"
  obtain n1 x1 where e1: "(n1, x1) = p1" by (metis surj_pair)
  define p2 where "p2 = (if x1 \<le> 2 ^ (32 - 8) - 1 then (n1 + 8, x1 * 2 ^ 8 mod 2 ^ 32) else (n1, x1))"
  obtain n2 x2 where e2: "(n2, x2) = p2" by (metis surj_pair)
  define p3 where "p3 = (if x2 \<le> 2 ^ (32 - 4) - 1 then (n2 + 4, x2 * 2 ^ 4 mod 2 ^ 32) else (n2, x2))"
  obtain n3 x3 where e3: "(n3, x3) = p3" by (metis surj_pair)
  define p4 where "p4 = (if x3 \<le> 2 ^ (32 - 2) - 1 then (n3 + 2, x3 * 2 ^ 2 mod 2 ^ 32) else (n3, x3))"
  obtain n4 x4 where e4: "(n4, x4) = p4" by (metis surj_pair)
  have s1: "x1 < 2 ^ 32 \<and> 2 ^ (32 - 16) \<le> x1 \<and> x1 = x * 2 ^ n1 \<and> n1 \<le> 0 + 16"
    by (rule nlz_step[where k = 16]) (use assms e1 p1_def in auto)
  have s2: "x2 < 2 ^ 32 \<and> 2 ^ (32 - 8) \<le> x2 \<and> x2 = x * 2 ^ n2 \<and> n2 \<le> n1 + 8"
    by (rule nlz_step[where k = 8]) (use s1 e2 p2_def in auto)
  have s3: "x3 < 2 ^ 32 \<and> 2 ^ (32 - 4) \<le> x3 \<and> x3 = x * 2 ^ n3 \<and> n3 \<le> n2 + 4"
    by (rule nlz_step[where k = 4]) (use s2 e3 p3_def in auto)
  have s4: "x4 < 2 ^ 32 \<and> 2 ^ (32 - 2) \<le> x4 \<and> x4 = x * 2 ^ n4 \<and> n4 \<le> n3 + 2"
    by (rule nlz_step[where k = 2]) (use s3 e4 p4_def in auto)
  have a1: "(if x \<le> 0x0000FFFF then (0 + 16, x * 2 ^ 16 mod 2 ^ 32) else (0, x)) = (n1, x1)"
    unfolding e1 p1_def by simp
  have a2: "(if x1 \<le> 0x00FFFFFF then (n1 + 8, x1 * 2 ^ 8 mod 2 ^ 32) else (n1, x1)) = (n2, x2)"
    unfolding e2 p2_def by simp
  have a3: "(if x2 \<le> 0x0FFFFFFF then (n2 + 4, x2 * 2 ^ 4 mod 2 ^ 32) else (n2, x2)) = (n3, x3)"
    unfolding e3 p3_def by simp
  have a4: "(if x3 \<le> 0x3FFFFFFF then (n3 + 2, x3 * 2 ^ 2 mod 2 ^ 32) else (n3, x3)) = (n4, x4)"
    unfolding e4 p4_def by simp
  have nl: "nlz x = (if x4 \<le> 0x7FFFFFFF then n4 + 1 else n4)"
    unfolding nlz_def Let_def by (simp only: a1 a2 a3 a4 prod.case)
  have s4': "x4 < 4294967296" "1073741824 \<le> x4" "x4 = x * 2 ^ n4" "n4 \<le> 30"
    using s1 s2 s3 s4 by simp_all
  show ?thesis
  proof (cases "x4 \<le> 0x7FFFFFFF")
    case True
    then have "x * 2 ^ nlz x = 2 * x4" using nl s4'(3) by simp
    then show ?thesis using True nl s4' by simp
  next
    case False
    then show ?thesis using nl s4' by simp
  qed
qed

section \<open>The quotient is exact\<close>

lemma divl_fits: "d \<noteq> 0 \<Longrightarrow> n div d < 2 ^ 32 \<Longrightarrow> divl n d = Some (n div d)"
  by (simp add: divl_def)

lemma sub_mod_2_64: "y \<le> n \<Longrightarrow> n < 2 ^ 64 \<Longrightarrow> (n + 2 ^ 64 - y mod 2 ^ 64) mod 2 ^ 64 = n - (y::nat)"
proof -
  assume a: "y \<le> n" "n < 2 ^ 64"
  then have "n + 2 ^ 64 - y mod 2 ^ 64 = (n - y) + 2 ^ 64" by simp
  then have "(n + 2 ^ 64 - y mod 2 ^ 64) mod 2 ^ 64 = (n - y) mod 2 ^ 64"
    by (simp only: mod_add_self2)
  also have "\<dots> = n - y" using a by (intro mod_less) linarith
  finally show ?thesis .
qed

text \<open>The decomposition the comment in \<open>udiv64\<close> proves: \<open>b (n1 mod d) + n0\<close> divided by \<open>d\<close> is below \<open>b\<close>.\<close>

lemma short_division:
  fixes b n1 n0 d :: nat
  assumes "n0 < b" "0 < d"
  shows "b * (n1 mod d) + n0 < b * d"
    and "(b * (n1 mod d) + n0) div d < b"
    and "(b * n1 + n0) div d = (b * (n1 mod d) + n0) div d + b * (n1 div d)"
proof -
  have "n1 mod d + 1 \<le> d" using assms(2) by (simp add: Suc_leI)
  then have "b * (n1 mod d + 1) \<le> b * d" by (rule mult_le_mono2)
  then show lt: "b * (n1 mod d) + n0 < b * d" using assms(1) by (simp add: algebra_simps)
  then show "(b * (n1 mod d) + n0) div d < b" using assms(2) by (simp add: div_less_iff_less_mult)
  have "b * n1 + n0 = b * (n1 mod d + n1 div d * d) + n0" by simp
  also have "\<dots> = (b * (n1 mod d) + n0) + b * (n1 div d) * d" by (simp only: algebra_simps)
  finally have eq: "b * n1 + n0 = (b * (n1 mod d) + n0) + b * (n1 div d) * d" .
  show "(b * n1 + n0) div d = (b * (n1 mod d) + n0) div d + b * (n1 div d)"
    unfolding eq using assms(2) by (metis add.commute div_mult_self1 not_gr_zero)
qed

lemma udiv64_short:
  assumes "n < 2 ^ 64" "0 < d" "d < 2 ^ 32"
  shows "udiv64 n d = Some (n div d)"
proof -
  define b :: nat where "b = 2 ^ 32"
  define n1 where "n1 = n div b"
  define n0 where "n0 = n mod b"
  have n: "n = b * n1 + n0" by (simp add: n1_def n0_def)
  have "n0 < b" by (simp add: n0_def b_def)
  note sd = short_division[OF this assms(2), of n1]
  have e: "d div b = 0" "d mod b = d" "d \<noteq> 0" using assms(2,3) by (simp_all add: b_def)
  have "b * d \<le> b * b" using assms(3) by (simp add: b_def)
  also have "b * b = 2 ^ 64" by (simp add: b_def)
  finally have m64: "b * (n1 mod d) + n0 < 2 ^ 64" using sd(1) by linarith
  have n64: "n div d < 2 ^ 64" using assms(1) by (meson div_le_dividend le_less_trans)
  have "divl ((b * (n1 mod d) + n0) mod 2 ^ 64) d = Some ((b * (n1 mod d) + n0) div d)"
    unfolding mod_less[OF m64] using sd(2) by (intro divl_fits[OF e(3)]) (simp only: b_def)
  then have "udiv64 n d = Some (((b * (n1 mod d) + n0) div d + b * (n1 div d)) mod 2 ^ 64)"
    unfolding udiv64_def Let_def b_def[symmetric] n1_def[symmetric] n0_def[symmetric] e
    using e(3) by (simp only: if_True if_False refl bind.bind_lunit)
  then show ?thesis unfolding sd(3)[symmetric] n[symmetric] mod_less[OF n64] .
qed

text \<open>The estimate of the long case, with the divisor rounded down to 32 significant bits.\<close>

lemma quotient_estimate:
  fixes n d D e s :: nat
  assumes "n < 2 ^ 64" "s \<le> 31" "2 ^ (63 - s) \<le> D" "d = D + e" "e < 2 ^ (32 - s)"
  shows "n div d \<le> n div D \<and> n div D \<le> n div d + 1"
proof
  have D0: "0 < D" using assms(3) by (metis not_le zero_less_numeral zero_less_power gr_zeroI)
  then show "n div d \<le> n div D" using assms(4) by (simp add: div_le_mono2)
  let ?Q = "n div d"
  have d0: "0 < d" using D0 assms(4) by simp
  have "?Q * d \<le> n" by simp
  have "2 ^ (63 - s) \<le> d" using assms(3,4) by simp
  then have "?Q * 2 ^ (63 - s) \<le> n" using \<open>?Q * d \<le> n\<close> by (meson le_trans mult_le_mono2)
  moreover have "(2::nat) ^ (s + 1) * 2 ^ (63 - s) = 2 ^ 64" using assms(2) by (simp flip: power_add)
  ultimately have "?Q * 2 ^ (63 - s) < 2 ^ (s + 1) * 2 ^ (63 - s)" using assms(1) by linarith
  then have "?Q < 2 ^ (s + 1)" by (simp only: mult_less_cancel2)
  then have Q: "?Q + 1 \<le> 2 ^ (s + 1)" by simp
  have e: "e + 1 \<le> 2 ^ (32 - s)" using assms(5) by simp
  have "(?Q + 1) * e + (?Q + 1) \<le> (?Q + 1) * 2 ^ (32 - s)" using e
    by (metis add_mult_distrib2 mult.right_neutral mult_le_mono2)
  have p33: "(2::nat) ^ (s + 1) * 2 ^ (32 - s) = 2 ^ 33" using assms(2) by (simp flip: power_add)
  have "(?Q + 1) * e \<le> 2 ^ (s + 1) * e" using Q by (rule mult_le_mono1)
  also have "\<dots> \<le> 2 ^ (s + 1) * (2 ^ (32 - s) - 1)" using e by simp
  also have "\<dots> = 2 ^ 33 - 2 ^ (s + 1)" using p33 by (simp add: diff_mult_distrib2)
  also have "\<dots> \<le> 2 ^ (63 - s)"
  proof (cases "s = 31")
    case False
    then have "(2::nat) ^ 33 \<le> 2 ^ (63 - s)" using assms(2) by (intro power_increasing) auto
    then show ?thesis by simp
  qed simp
  finally have qe: "(?Q + 1) * e \<le> D" using assms(3) by linarith
  have "n < (?Q + 1) * d"
    using d0 by (metis add.commute dividend_less_div_times mult_Suc plus_1_eq_Suc)
  also have "\<dots> = (?Q + 1) * D + (?Q + 1) * e" using assms(4) by (simp add: add_mult_distrib2)
  also have "\<dots> \<le> (?Q + 2) * D" using qe by (simp add: algebra_simps)
  finally have "n div D < ?Q + 2" using D0 by (simp add: div_less_iff_less_mult)
  then show "n div D \<le> ?Q + 1" by simp
qed

lemma udiv64_long:
  assumes n: "n < 2 ^ 64" and d: "d < 2 ^ 64" "2 ^ 32 \<le> d" and le: "d \<le> n"
  shows "udiv64 n d = Some (n div d)"
proof -
  define s where "s = nlz (d div 2 ^ 32)"
  define v1 where "v1 = d * 2 ^ s mod 2 ^ 64 div 2 ^ 32"
  define D where "D = v1 * 2 ^ (32 - s)"
  have d1: "0 < d div 2 ^ 32" "d div 2 ^ 32 < 2 ^ 32" using d by (auto simp: div_greater_zero_iff div_less_iff_less_mult)
  have s: "s \<le> 31" "2 ^ 31 \<le> d div 2 ^ 32 * 2 ^ s" "d div 2 ^ 32 * 2 ^ s < 2 ^ 32"
    using nlz_correct[OF d1] by (simp_all add: s_def)
  have p32: "(2::nat) ^ 32 = 2 ^ (32 - s) * 2 ^ s" using s(1) by (simp flip: power_add)
  have "d < (d div 2 ^ 32 + 1) * 2 ^ 32"
    by (metis add.commute dividend_less_div_times mult_Suc plus_1_eq_Suc zero_less_numeral zero_less_power)
  then have "d * 2 ^ s < (d div 2 ^ 32 + 1) * 2 ^ 32 * 2 ^ s" by simp
  also have "\<dots> = (d div 2 ^ 32 * 2 ^ s + 2 ^ s) * 2 ^ 32" by (simp add: algebra_simps)
  also have "\<dots> \<le> 2 ^ 32 * 2 ^ 32"
  proof -
    have "d div 2 ^ 32 * 2 ^ s + 2 ^ s \<le> 2 ^ 32"
      using s(3) p32 by (metis Suc_leI add.commute mult_Suc mult_le_mono1 mult_less_cancel2)
    then show ?thesis by simp
  qed
  finally have v64: "d * 2 ^ s < 2 ^ 64" by simp
  then have v1: "v1 = d * 2 ^ s div 2 ^ 32" by (simp add: v1_def)
  also have "\<dots> = d div 2 ^ (32 - s)" unfolding p32 by (simp add: mult.commute div_mult2_eq)
  finally have v1d: "v1 = d div 2 ^ (32 - s)" .
  have dD: "d = D + d mod 2 ^ (32 - s)" unfolding D_def v1d by (rule div_mult_mod_eq[symmetric])
  have "d div 2 ^ 32 * 2 ^ s \<le> v1"
  proof -
    have "d div 2 ^ 32 * 2 ^ 32 \<le> d" by simp
    then have "d div 2 ^ 32 * 2 ^ 32 * 2 ^ s \<le> d * 2 ^ s" by simp
    then have "(d div 2 ^ 32 * 2 ^ s) * 2 ^ 32 \<le> d * 2 ^ s" by (simp add: algebra_simps)
    then show ?thesis unfolding v1 by (simp add: less_eq_div_iff_mult_less_eq)
  qed
  then have v31: "2 ^ 31 \<le> v1" using s(2) by linarith
  then have "2 ^ 31 * 2 ^ (32 - s) \<le> D" unfolding D_def by simp
  moreover have "(2::nat) ^ 31 * 2 ^ (32 - s) = 2 ^ (63 - s)"
    using s(1) by (simp only: power_add[symmetric]) simp
  ultimately have D: "2 ^ (63 - s) \<le> D" by simp
  have "n div 2 < 2 ^ 31 * 2 ^ 32" using n by simp
  then have "n div 2 < v1 * 2 ^ 32" using v31 by (meson less_le_trans mult_le_mono1)
  then have q1: "n div 2 div v1 < 2 ^ 32"
    using v31 by (simp add: div_less_iff_less_mult mult.commute)
  have "n div 2 div v1 div 2 ^ (31 - s) = n div (2 ^ (31 - s) * 2 * v1)"
    by (simp flip: div_mult2_eq add: ac_simps)
  also have "(2::nat) ^ (31 - s) * 2 = 2 ^ (32 - s)"
    using s(1) by (simp add: Suc_diff_le[of s 31, symmetric] mult.commute flip: power_Suc)
  finally have "n div 2 div v1 div 2 ^ (31 - s) = n div D" by (simp only: D_def mult.commute)
  then have q: "n div 2 div v1 div 2 ^ (31 - s) = n div D" .
  let ?Q = "n div d" and ?q = "n div D"
  have est: "?Q \<le> ?q \<and> ?q \<le> ?Q + 1"
    by (rule quotient_estimate[OF n s(1) D dD]) simp
  have Q1: "1 \<le> ?Q" using le d(2) by (simp add: Suc_le_eq div_greater_zero_iff)
  have lt: "(?q - 1) * d \<le> n"
    using est by (metis add_le_imp_le_diff diff_le_mono div_times_less_eq_dividend le_diff_conv le_trans mult_le_mono1)
  then have e: "(n + 2 ^ 64 - (?q - 1) * d mod 2 ^ 64) mod 2 ^ 64 = n - (?q - 1) * d"
    using n by (rule sub_mod_2_64)
  have r: "n - ?Q * d < d" using d(2) by (simp add: minus_div_mult_eq_mod)
  have fin: "(if n - (?q - 1) * d < d then ?q - 1 else ?q) = ?Q"
  proof (cases "?q = ?Q")
    case True
    have "(?Q - 1) * d + d = ?Q * d" using Q1 by (metis Suc_pred' add.commute less_eq_Suc_le mult_Suc One_nat_def)
    then have "\<not> n - (?Q - 1) * d < d" by (metis add_le_imp_le_diff div_times_less_eq_dividend not_less add.commute)
    then show ?thesis using True by simp
  next
    case False
    then have "?q = ?Q + 1" using conjunct1[OF est] conjunct2[OF est] by linarith
    then have "?q - 1 = ?Q" by simp
    then show ?thesis using r by simp
  qed
  have "\<not> n < d" "d div 2 ^ 32 \<noteq> 0" "v1 \<noteq> 0" using le d1(1) v31 by auto
  then have "divl (n div 2) v1 = Some (n div 2 div v1)" using q1 by (intro divl_fits)
  then have "udiv64 n d = Some (if (n + 2 ^ 64 - (?q - 1) * d mod 2 ^ 64) mod 2 ^ 64 < d then ?q - 1 else ?q)"
    using \<open>\<not> n < d\<close> \<open>d div 2 ^ 32 \<noteq> 0\<close>
    unfolding udiv64_def Let_def s_def[symmetric] v1_def[symmetric]
    by (simp only: if_False bind.bind_lunit q)
  then show ?thesis unfolding e fin .
qed

lemma udiv64_exact:
  assumes "n < 2 ^ 64" "0 < d" "d < 2 ^ 64"
  shows "udiv64 n d = Some (n div d)"
proof (cases "d < 2 ^ 32")
  case False
  then show ?thesis
    using assms udiv64_long[of n d] by (cases "n < d") (auto simp: udiv64_def)
qed (use assms udiv64_short in auto)

lemma umod64_low:
  assumes "n < 2 ^ 64" "0 < d" "d < 2 ^ 64"
  shows "umod64 n d = Some (n mod d mod 2 ^ 32)"
proof -
  have "d * (n div d) \<le> n" by simp
  then have "(n + 2 ^ 64 - d * (n div d) mod 2 ^ 64) mod 2 ^ 64 = n - d * (n div d)"
    using assms(1) by (rule sub_mod_2_64)
  then show ?thesis using udiv64_exact[OF assms] by (simp add: umod64_def minus_mult_div_eq_mod)
qed

end
