(* ===== verification/Klist.thy ===== *)
theory Klist
  imports Prelude
begin

text \<open>
  The kernel's intrusive doubly linked lists (lib/kernel/list.c, list.h), at the level of the
  memory the code manipulates: a heap maps the address of each \<open>struct list_elem\<close> to its two links,
  and a \<open>struct list\<close> is the pair of the addresses of its two sentinels.  Loops are
  \<open>partial_function (option)\<close>: \<open>None\<close> is a failed assertion, a bad dereference or a loop that does
  not end.  The order \<open>less\<close> of the C callbacks is a function of the element's address, since none
  of these routines changes the data an element is embedded in.

  The abstraction \<open>dll\<close> says that a heap holds a well-formed list with given elements.  The lemmas
  show for every operation that it returns on such a heap and what list it leaves.
\<close>

section \<open>Memory\<close>

record list_elem =
  le_prev :: addr
  le_next :: addr

record klist =
  k_head :: addr
  k_tail :: addr

type_synonym lheap = "addr \<Rightarrow> list_elem option"

definition deref :: "lheap \<Rightarrow> addr \<Rightarrow> list_elem option" where
  "deref h a = (if a = NULL then None else h a)"

definition get_prev :: "lheap \<Rightarrow> addr \<Rightarrow> addr option" where
  "get_prev h a = map_option le_prev (deref h a)"

definition get_next :: "lheap \<Rightarrow> addr \<Rightarrow> addr option" where
  "get_next h a = map_option le_next (deref h a)"

definition set_prev :: "lheap \<Rightarrow> addr \<Rightarrow> addr \<Rightarrow> lheap option" where
  "set_prev h a p = map_option (\<lambda>e. h(a \<mapsto> e\<lparr>le_prev := p\<rparr>)) (deref h a)"

definition set_next :: "lheap \<Rightarrow> addr \<Rightarrow> addr \<Rightarrow> lheap option" where
  "set_next h a n = map_option (\<lambda>e. h(a \<mapsto> e\<lparr>le_next := n\<rparr>)) (deref h a)"

section \<open>The operations\<close>

definition is_head :: "lheap \<Rightarrow> addr \<Rightarrow> bool option" where
  "is_head h elem = (if elem = NULL then Some False
     else do { p \<leftarrow> get_prev h elem; n \<leftarrow> get_next h elem; Some (p = NULL \<and> n \<noteq> NULL) })"

definition is_interior :: "lheap \<Rightarrow> addr \<Rightarrow> bool option" where
  "is_interior h elem = (if elem = NULL then Some False
     else do { p \<leftarrow> get_prev h elem; n \<leftarrow> get_next h elem; Some (p \<noteq> NULL \<and> n \<noteq> NULL) })"

definition is_tail :: "lheap \<Rightarrow> addr \<Rightarrow> bool option" where
  "is_tail h elem = (if elem = NULL then Some False
     else do { p \<leftarrow> get_prev h elem; n \<leftarrow> get_next h elem; Some (p \<noteq> NULL \<and> n = NULL) })"

definition list_init :: "lheap \<Rightarrow> klist \<Rightarrow> lheap option" where
  "list_init h l = do {
     h \<leftarrow> set_prev h (k_head l) NULL;
     h \<leftarrow> set_next h (k_head l) (k_tail l);
     h \<leftarrow> set_prev h (k_tail l) (k_head l);
     set_next h (k_tail l) NULL }"

definition list_begin :: "lheap \<Rightarrow> klist \<Rightarrow> addr option" where
  "list_begin h l = get_next h (k_head l)"

definition list_next :: "lheap \<Rightarrow> addr \<Rightarrow> addr option" where
  "list_next h elem = do {
     hd \<leftarrow> is_head h elem; i \<leftarrow> is_interior h elem;
     ASSERT (hd \<or> i);
     get_next h elem }"

definition list_end :: "klist \<Rightarrow> addr" where
  "list_end l = k_tail l"

definition list_rbegin :: "lheap \<Rightarrow> klist \<Rightarrow> addr option" where
  "list_rbegin h l = get_prev h (k_tail l)"

definition list_prev :: "lheap \<Rightarrow> addr \<Rightarrow> addr option" where
  "list_prev h elem = do {
     i \<leftarrow> is_interior h elem; t \<leftarrow> is_tail h elem;
     ASSERT (i \<or> t);
     get_prev h elem }"

definition list_rend :: "klist \<Rightarrow> addr" where
  "list_rend l = k_head l"

definition list_head :: "klist \<Rightarrow> addr" where
  "list_head l = k_head l"

definition list_tail :: "klist \<Rightarrow> addr" where
  "list_tail l = k_tail l"

definition list_insert :: "lheap \<Rightarrow> addr \<Rightarrow> addr \<Rightarrow> lheap option" where
  "list_insert h before elem = do {
     i \<leftarrow> is_interior h before; t \<leftarrow> is_tail h before;
     ASSERT (i \<or> t);
     ASSERT (elem \<noteq> NULL);
     p \<leftarrow> get_prev h before;
     h \<leftarrow> set_prev h elem p;
     h \<leftarrow> set_next h elem before;
     p \<leftarrow> get_prev h before;
     h \<leftarrow> set_next h p elem;
     set_prev h before elem }"

definition list_splice :: "lheap \<Rightarrow> addr \<Rightarrow> addr \<Rightarrow> addr \<Rightarrow> lheap option" where
  "list_splice h before first lst = do {
     i \<leftarrow> is_interior h before; t \<leftarrow> is_tail h before;
     ASSERT (i \<or> t);
     if first = lst then Some h else do {
       lst \<leftarrow> list_prev h lst;
       i \<leftarrow> is_interior h first;
       ASSERT i;
       i \<leftarrow> is_interior h lst;
       ASSERT i;
       p \<leftarrow> get_prev h first; n \<leftarrow> get_next h lst;
       h \<leftarrow> set_next h p n;
       n \<leftarrow> get_next h lst; p \<leftarrow> get_prev h first;
       h \<leftarrow> set_prev h n p;
       p \<leftarrow> get_prev h before;
       h \<leftarrow> set_prev h first p;
       h \<leftarrow> set_next h lst before;
       p \<leftarrow> get_prev h before;
       h \<leftarrow> set_next h p first;
       set_prev h before lst } }"

definition list_push_front :: "lheap \<Rightarrow> klist \<Rightarrow> addr \<Rightarrow> lheap option" where
  "list_push_front h l elem = do { b \<leftarrow> list_begin h l; list_insert h b elem }"

definition list_push_back :: "lheap \<Rightarrow> klist \<Rightarrow> addr \<Rightarrow> lheap option" where
  "list_push_back h l elem = list_insert h (list_end l) elem"

definition list_remove :: "lheap \<Rightarrow> addr \<Rightarrow> (lheap \<times> addr) option" where
  "list_remove h elem = do {
     i \<leftarrow> is_interior h elem;
     ASSERT i;
     p \<leftarrow> get_prev h elem; n \<leftarrow> get_next h elem;
     h \<leftarrow> set_next h p n;
     n \<leftarrow> get_next h elem; p \<leftarrow> get_prev h elem;
     h \<leftarrow> set_prev h n p;
     r \<leftarrow> get_next h elem;
     Some (h, r) }"

definition list_empty :: "lheap \<Rightarrow> klist \<Rightarrow> bool option" where
  "list_empty h l = do { b \<leftarrow> list_begin h l; Some (b = list_end l) }"

definition list_front :: "lheap \<Rightarrow> klist \<Rightarrow> addr option" where
  "list_front h l = do { e \<leftarrow> list_empty h l; ASSERT (\<not> e); get_next h (k_head l) }"

definition list_back :: "lheap \<Rightarrow> klist \<Rightarrow> addr option" where
  "list_back h l = do { e \<leftarrow> list_empty h l; ASSERT (\<not> e); get_prev h (k_tail l) }"

definition list_pop_front :: "lheap \<Rightarrow> klist \<Rightarrow> (lheap \<times> addr) option" where
  "list_pop_front h l = do {
     front \<leftarrow> list_front h l; (h, r) \<leftarrow> list_remove h front; Some (h, front) }"

definition list_pop_back :: "lheap \<Rightarrow> klist \<Rightarrow> (lheap \<times> addr) option" where
  "list_pop_back h l = do {
     back \<leftarrow> list_back h l; (h, r) \<leftarrow> list_remove h back; Some (h, back) }"

partial_function (option) list_size_loop :: "lheap \<Rightarrow> klist \<Rightarrow> addr \<Rightarrow> nat \<Rightarrow> nat option" where
  "list_size_loop h l e cnt =
     (if e = list_end l then Some cnt
      else do { e' \<leftarrow> list_next h e; list_size_loop h l e' (cnt + 1) })"

definition list_size :: "lheap \<Rightarrow> klist \<Rightarrow> nat option" where
  "list_size h l = do { e \<leftarrow> list_begin h l; list_size_loop h l e 0 }"

text \<open>\<open>swap(&e->prev, &e->next)\<close> exchanges the two links of one element.\<close>

definition swap_links :: "lheap \<Rightarrow> addr \<Rightarrow> lheap option" where
  "swap_links h e = do {
     p \<leftarrow> get_prev h e; n \<leftarrow> get_next h e;
     h \<leftarrow> set_prev h e n;
     set_next h e p }"

partial_function (option) list_reverse_loop :: "lheap \<Rightarrow> klist \<Rightarrow> addr \<Rightarrow> lheap option" where
  "list_reverse_loop h l e =
     (if e = list_end l then Some h
      else do { h \<leftarrow> swap_links h e; e' \<leftarrow> get_prev h e; list_reverse_loop h l e' })"

definition list_reverse :: "lheap \<Rightarrow> klist \<Rightarrow> lheap option" where
  "list_reverse h l = do {
     em \<leftarrow> list_empty h l;
     if em then Some h
     else do {
       e \<leftarrow> list_begin h l;
       h \<leftarrow> list_reverse_loop h l e;
       n \<leftarrow> get_next h (k_head l); p \<leftarrow> get_prev h (k_tail l);
       h \<leftarrow> set_next h (k_head l) p;
       h \<leftarrow> set_prev h (k_tail l) n;
       hn \<leftarrow> get_next h (k_head l); tp \<leftarrow> get_prev h (k_tail l);
       x \<leftarrow> get_prev h hn; y \<leftarrow> get_next h tp;
       h \<leftarrow> set_prev h hn y;
       set_next h tp x } }"

partial_function (option) is_sorted_loop ::
  "lheap \<Rightarrow> addr \<Rightarrow> addr \<Rightarrow> (addr \<Rightarrow> addr \<Rightarrow> bool) \<Rightarrow> bool option" where
  "is_sorted_loop h a b lss = do {
     a \<leftarrow> list_next h a;
     if a = b then Some True
     else do {
       p \<leftarrow> list_prev h a;
       if lss a p then Some False else is_sorted_loop h a b lss } }"

definition is_sorted :: "lheap \<Rightarrow> addr \<Rightarrow> addr \<Rightarrow> (addr \<Rightarrow> addr \<Rightarrow> bool) \<Rightarrow> bool option" where
  "is_sorted h a b lss = (if a \<noteq> b then is_sorted_loop h a b lss else Some True)"

partial_function (option) find_end_of_run_loop ::
  "lheap \<Rightarrow> addr \<Rightarrow> addr \<Rightarrow> (addr \<Rightarrow> addr \<Rightarrow> bool) \<Rightarrow> addr option" where
  "find_end_of_run_loop h a b lss = do {
     a \<leftarrow> list_next h a;
     if a = b then Some a
     else do {
       p \<leftarrow> list_prev h a;
       if lss a p then Some a else find_end_of_run_loop h a b lss } }"

definition find_end_of_run ::
  "lheap \<Rightarrow> addr \<Rightarrow> addr \<Rightarrow> (addr \<Rightarrow> addr \<Rightarrow> bool) \<Rightarrow> addr option" where
  "find_end_of_run h a b lss = do {
     ASSERT (a \<noteq> NULL); ASSERT (b \<noteq> NULL); ASSERT (a \<noteq> b);
     find_end_of_run_loop h a b lss }"

partial_function (option) inplace_merge_loop ::
  "lheap \<Rightarrow> addr \<Rightarrow> addr \<Rightarrow> addr \<Rightarrow> (addr \<Rightarrow> addr \<Rightarrow> bool) \<Rightarrow> lheap option" where
  "inplace_merge_loop h a0 a1b0 b1 lss =
     (if a0 \<noteq> a1b0 \<and> a1b0 \<noteq> b1 then
        (if \<not> lss a1b0 a0 then do {
           a0 \<leftarrow> list_next h a0;
           inplace_merge_loop h a0 a1b0 b1 lss }
         else do {
           a1b0 \<leftarrow> list_next h a1b0;
           p \<leftarrow> list_prev h a1b0;
           h \<leftarrow> list_splice h a0 p a1b0;
           inplace_merge_loop h a0 a1b0 b1 lss })
      else Some h)"

definition inplace_merge ::
  "lheap \<Rightarrow> addr \<Rightarrow> addr \<Rightarrow> addr \<Rightarrow> (addr \<Rightarrow> addr \<Rightarrow> bool) \<Rightarrow> lheap option" where
  "inplace_merge h a0 a1b0 b1 lss = do {
     ASSERT (a0 \<noteq> NULL); ASSERT (a1b0 \<noteq> NULL); ASSERT (b1 \<noteq> NULL);
     s \<leftarrow> is_sorted h a0 a1b0 lss;
     ASSERT s;
     s \<leftarrow> is_sorted h a1b0 b1 lss;
     ASSERT s;
     inplace_merge_loop h a0 a1b0 b1 lss }"

text \<open>One pass of \<open>list_sort\<close>: the \<open>for\<close> loop, returning the heap and the number of output runs.\<close>

partial_function (option) list_sort_pass ::
  "lheap \<Rightarrow> klist \<Rightarrow> addr \<Rightarrow> nat \<Rightarrow> (addr \<Rightarrow> addr \<Rightarrow> bool) \<Rightarrow> (lheap \<times> nat) option" where
  "list_sort_pass h l a0 output_run_cnt lss =
     (if a0 = list_end l then Some (h, output_run_cnt)
      else do {
        a1b0 \<leftarrow> find_end_of_run h a0 (list_end l) lss;
        if a1b0 = list_end l then Some (h, output_run_cnt + 1)
        else do {
          b1 \<leftarrow> find_end_of_run h a1b0 (list_end l) lss;
          h \<leftarrow> inplace_merge h a0 a1b0 b1 lss;
          list_sort_pass h l b1 (output_run_cnt + 1) lss } })"

partial_function (option) list_sort_loop ::
  "lheap \<Rightarrow> klist \<Rightarrow> (addr \<Rightarrow> addr \<Rightarrow> bool) \<Rightarrow> lheap option" where
  "list_sort_loop h l lss = do {
     a0 \<leftarrow> list_begin h l;
     (h, output_run_cnt) \<leftarrow> list_sort_pass h l a0 0 lss;
     if output_run_cnt > 1 then list_sort_loop h l lss else Some h }"

definition list_sort :: "lheap \<Rightarrow> klist \<Rightarrow> (addr \<Rightarrow> addr \<Rightarrow> bool) \<Rightarrow> lheap option" where
  "list_sort h l lss = do {
     h \<leftarrow> list_sort_loop h l lss;
     b \<leftarrow> list_begin h l;
     s \<leftarrow> is_sorted h b (list_end l) lss;
     ASSERT s;
     Some h }"

partial_function (option) insert_ordered_loop ::
  "lheap \<Rightarrow> klist \<Rightarrow> addr \<Rightarrow> addr \<Rightarrow> (addr \<Rightarrow> addr \<Rightarrow> bool) \<Rightarrow> addr option" where
  "insert_ordered_loop h l e elem lss =
     (if e = list_end l then Some e
      else if lss elem e then Some e
      else do { e \<leftarrow> list_next h e; insert_ordered_loop h l e elem lss })"

definition list_insert_ordered ::
  "lheap \<Rightarrow> klist \<Rightarrow> addr \<Rightarrow> (addr \<Rightarrow> addr \<Rightarrow> bool) \<Rightarrow> lheap option" where
  "list_insert_ordered h l elem lss = do {
     ASSERT (elem \<noteq> NULL);
     e \<leftarrow> list_begin h l;
     e \<leftarrow> insert_ordered_loop h l e elem lss;
     list_insert h e elem }"

partial_function (option) list_unique_loop ::
  "lheap \<Rightarrow> klist \<Rightarrow> klist option \<Rightarrow> addr \<Rightarrow> (addr \<Rightarrow> addr \<Rightarrow> bool) \<Rightarrow> lheap option" where
  "list_unique_loop h l duplicates elem lss = do {
     nx \<leftarrow> list_next h elem;
     if nx = list_end l then Some h
     else if \<not> lss elem nx \<and> \<not> lss nx elem then do {
       (h, r) \<leftarrow> list_remove h nx;
       h \<leftarrow> (case duplicates of None \<Rightarrow> Some h | Some d \<Rightarrow> list_push_back h d nx);
       list_unique_loop h l duplicates elem lss }
     else list_unique_loop h l duplicates nx lss }"

definition list_unique ::
  "lheap \<Rightarrow> klist \<Rightarrow> klist option \<Rightarrow> (addr \<Rightarrow> addr \<Rightarrow> bool) \<Rightarrow> lheap option" where
  "list_unique h l duplicates lss = do {
     em \<leftarrow> list_empty h l;
     if em then Some h
     else do { e \<leftarrow> list_begin h l; list_unique_loop h l duplicates e lss } }"

partial_function (option) list_max_loop ::
  "lheap \<Rightarrow> klist \<Rightarrow> addr \<Rightarrow> addr \<Rightarrow> (addr \<Rightarrow> addr \<Rightarrow> bool) \<Rightarrow> addr option" where
  "list_max_loop h l mx e lss =
     (if e = list_end l then Some mx
      else do { e' \<leftarrow> list_next h e; list_max_loop h l (if lss mx e then e else mx) e' lss })"

definition list_max :: "lheap \<Rightarrow> klist \<Rightarrow> (addr \<Rightarrow> addr \<Rightarrow> bool) \<Rightarrow> addr option" where
  "list_max h l lss = do {
     mx \<leftarrow> list_begin h l;
     if mx \<noteq> list_end l then do { e \<leftarrow> list_next h mx; list_max_loop h l mx e lss }
     else Some mx }"

partial_function (option) list_min_loop ::
  "lheap \<Rightarrow> klist \<Rightarrow> addr \<Rightarrow> addr \<Rightarrow> (addr \<Rightarrow> addr \<Rightarrow> bool) \<Rightarrow> addr option" where
  "list_min_loop h l mn e lss =
     (if e = list_end l then Some mn
      else do { e' \<leftarrow> list_next h e; list_min_loop h l (if lss e mn then e else mn) e' lss })"

definition list_min :: "lheap \<Rightarrow> klist \<Rightarrow> (addr \<Rightarrow> addr \<Rightarrow> bool) \<Rightarrow> addr option" where
  "list_min h l lss = do {
     mn \<leftarrow> list_begin h l;
     if mn \<noteq> list_end l then do { e \<leftarrow> list_next h mn; list_min_loop h l mn e lss }
     else Some mn }"


lemmas access_defs = deref_def get_prev_def get_next_def set_prev_def set_next_def
  is_head_def is_interior_def is_tail_def list_next_def list_prev_def

section \<open>Well-formed lists\<close>

text \<open>\<open>dls h p as n\<close>: the nodes \<open>as\<close> are linked in this order, the first one's predecessor is \<open>p\<close>
  and the last one's successor is \<open>n\<close>.\<close>

fun dls :: "lheap \<Rightarrow> addr \<Rightarrow> addr list \<Rightarrow> addr \<Rightarrow> bool" where
  "dls h p [] n = True"
| "dls h p (a # as) n =
     (a \<noteq> NULL \<and> h a = Some \<lparr>le_prev = p, le_next = hd (as @ [n])\<rparr> \<and> dls h a as n)"

definition dln :: "lheap \<Rightarrow> addr list \<Rightarrow> bool" where
  "dln h ns \<longleftrightarrow> dls h NULL ns NULL \<and> distinct ns"

definition dll :: "lheap \<Rightarrow> klist \<Rightarrow> addr list \<Rightarrow> bool" where
  "dll h l xs \<longleftrightarrow> dln h (k_head l # xs @ [k_tail l])"

lemma dls_append [simp]:
  "dls h p (xs @ ys) n \<longleftrightarrow> dls h p xs (hd (ys @ [n])) \<and> dls h (last (p # xs)) ys n"
proof (induction xs arbitrary: p)
  case (Cons a xs)
  then show ?case by (cases xs) auto
qed simp

lemma dls_upd [simp]: "a \<notin> set xs \<Longrightarrow> dls (h(a := v)) p xs n = dls h p xs n"
  by (induction xs arbitrary: p) auto

lemma dls_cong: "(\<And>a. a \<in> set xs \<Longrightarrow> h a = h' a) \<Longrightarrow> dls h p xs n = dls h' p xs n"
  by (induction xs arbitrary: p) auto

lemma dls_not_null: "dls h p xs n \<Longrightarrow> NULL \<notin> set xs"
  by (induction xs arbitrary: p) auto

lemma dls_mapped: "dls h p xs n \<Longrightarrow> a \<in> set xs \<Longrightarrow> h a \<noteq> None"
  by (induction xs arbitrary: p) auto

lemma dln_distinct: "dln h ns \<Longrightarrow> distinct ns"
  by (simp add: dln_def)

lemma dln_not_null: "dln h ns \<Longrightarrow> NULL \<notin> set ns"
  by (auto simp: dln_def dest: dls_not_null)

lemma dln_cong: "(\<And>a. a \<in> set ns \<Longrightarrow> h a = h' a) \<Longrightarrow> dln h ns = dln h' ns"
  unfolding dln_def using dls_cong[of ns h h'] by blast

lemma dln_at:
  "dln h (us @ a # vs) \<Longrightarrow>
   a \<noteq> NULL \<and> h a = Some \<lparr>le_prev = last (NULL # us), le_next = hd (vs @ [NULL])\<rparr>"
  by (auto simp: dln_def)

lemma dln_mem_not_null: "dln h ns \<Longrightarrow> x \<in> set ns \<Longrightarrow> x \<noteq> NULL"
  using dln_not_null by metis

lemma dln_last_us: "dln h (us @ a # vs) \<Longrightarrow> us \<noteq> [] \<Longrightarrow> last us \<noteq> NULL"
  by (erule dln_mem_not_null) simp

lemma dln_hd_vs: "dln h (us @ a # vs) \<Longrightarrow> vs \<noteq> [] \<Longrightarrow> hd vs \<noteq> NULL"
  by (erule dln_mem_not_null) simp

lemma list_next_step: "dln h (us @ a # b # vs) \<Longrightarrow> list_next h a = Some b"
  using dln_at[of h us a "b # vs"] dln_not_null[of h "us @ a # b # vs"]
  by (auto simp: access_defs)

lemma list_prev_step: "dln h (us @ a # b # vs) \<Longrightarrow> list_prev h b = Some a"
  using dln_at[of h "us @ [a]" b vs] dln_not_null[of h "us @ a # b # vs"]
  by (auto simp: access_defs)

lemma is_interior_step: "dln h (us @ a # vs) \<Longrightarrow> us \<noteq> [] \<Longrightarrow> vs \<noteq> [] \<Longrightarrow> is_interior h a = Some True"
  using dln_at[of h us a vs] dln_last_us[of h us a vs] dln_hd_vs[of h us a vs]
  by (auto simp: access_defs)

section \<open>Straight-line operations\<close>

lemma list_insert_dln:
  assumes "dln h (us @ a # b # vs)" "e \<notin> set (us @ a # b # vs)" "e \<noteq> NULL" "h e \<noteq> None"
  shows "\<exists>h'. list_insert h b e = Some h' \<and> dln h' (us @ a # e # b # vs)
            \<and> (\<forall>x. x \<notin> {a, e, b} \<longrightarrow> h' x = h x)"
proof -
  obtain r where r: "h e = Some r" using assms(4) by auto
  show ?thesis using assms(1-3)
    by (auto simp: dln_def list_insert_def access_defs r)
qed

lemma list_remove_dln:
  assumes "dln h (us @ a # x # b # vs)"
  shows "\<exists>h'. list_remove h x = Some (h', b) \<and> dln h' (us @ a # b # vs)
            \<and> (\<forall>y. y \<notin> {a, b} \<longrightarrow> h' y = h y)"
  using assms by (auto simp: dln_def list_remove_def access_defs)

lemma list_splice_one_dln:
  assumes "dln h (us @ p # A @ m # q # vs)" "A \<noteq> []"
  shows "\<exists>h'. list_splice h (hd A) m q = Some h' \<and> dln h' (us @ p # m # A @ q # vs)
            \<and> (\<forall>y. y \<notin> set (us @ p # m # A @ q # vs) \<longrightarrow> h' y = h y)"
proof -
  obtain b A' where A: "A = b # A'" using assms(2) by (cases A) auto
  show ?thesis
  proof (cases A' rule: rev_cases)
    case Nil
    then show ?thesis using assms(1) A
      by (auto simp: dln_def list_splice_def access_defs)
  next
    case (snoc A'' c)
    then show ?thesis using assms(1) A
      by (auto simp: dln_def list_splice_def access_defs)
  qed
qed


text \<open>The same facts on whole lists.\<close>

lemma dll_dln: "dll h l xs \<longleftrightarrow> dln h (k_head l # xs @ [k_tail l])"
  by (simp add: dll_def)

lemma list_init_dll:
  assumes "k_head l \<noteq> NULL" "k_tail l \<noteq> NULL" "k_head l \<noteq> k_tail l"
    and "h (k_head l) \<noteq> None" "h (k_tail l) \<noteq> None"
  shows "\<exists>h'. list_init h l = Some h' \<and> dll h' l []
    \<and> (\<forall>x. x \<notin> {k_head l, k_tail l} \<longrightarrow> h' x = h x)"
  using assms by (auto simp: list_init_def access_defs dll_def dln_def)

lemma list_begin_dll: "dll h l xs \<Longrightarrow> list_begin h l = Some (hd (xs @ [k_tail l]))"
  by (auto simp: dll_def dln_def list_begin_def access_defs)

lemma list_rbegin_dll: "dll h l xs \<Longrightarrow> list_rbegin h l = Some (last (k_head l # xs))"
  by (auto simp: dll_def dln_def list_rbegin_def access_defs)

lemma list_empty_dll: "dll h l xs \<Longrightarrow> list_empty h l = Some (xs = [])"
  using list_begin_dll[of h l xs]
  by (cases xs) (auto simp: list_empty_def list_end_def dll_def dln_def)

lemma list_front_dll: "dll h l (x # xs) \<Longrightarrow> list_front h l = Some x"
  using list_empty_dll[of h l "x # xs"] list_begin_dll[of h l "x # xs"]
  by (simp add: list_front_def list_begin_def)

lemma list_front_empty: "dll h l [] \<Longrightarrow> list_front h l = None"
  using list_empty_dll[of h l "[]"] by (simp add: list_front_def)

lemma list_back_dll: "dll h l (xs @ [x]) \<Longrightarrow> list_back h l = Some x"
  using list_empty_dll[of h l "xs @ [x]"] list_rbegin_dll[of h l "xs @ [x]"]
  by (simp add: list_back_def list_rbegin_def)

lemma list_insert_dll:
  assumes "dll h l (xs @ ys)" "e \<noteq> NULL" "h e \<noteq> None" "e \<notin> set (k_head l # xs @ ys @ [k_tail l])"
  shows "\<exists>h'. list_insert h (hd (ys @ [k_tail l])) e = Some h' \<and> dll h' l (xs @ e # ys)
     \<and> (\<forall>x. x \<notin> set (k_head l # e # xs @ ys @ [k_tail l]) \<longrightarrow> h' x = h x)"
proof -
  obtain us a where ua: "k_head l # xs = us @ [a]"
    by (metis append_butlast_last_id list.distinct(1))
  obtain b vs where bv: "ys @ [k_tail l] = b # vs"
    by (cases "ys @ [k_tail l]") auto
  have eq: "k_head l # xs @ zs @ ys @ [k_tail l] = us @ a # zs @ b # vs" for zs
    using ua bv by (metis append.assoc append_Cons append_Nil)
  have "dln h (us @ a # b # vs)" using assms(1) eq[of "[]"] by (simp add: dll_def)
  moreover have "set (us @ a # b # vs) = set (k_head l # xs @ ys @ [k_tail l])"
    using eq[of "[]"] by (metis append_Nil)
  then have "e \<notin> set (us @ a # b # vs)" using assms(4) by simp
  ultimately obtain h' where h': "list_insert h b e = Some h'" "dln h' (us @ a # e # b # vs)"
      "\<forall>x. x \<notin> {a, e, b} \<longrightarrow> h' x = h x"
    using list_insert_dln[of h us a b vs e] assms(2,3) by auto
  have "a \<in> set (k_head l # xs)" using ua by simp
  moreover have "b \<in> set (ys @ [k_tail l])" using bv by simp
  ultimately have "\<forall>x. x \<notin> set (k_head l # e # xs @ ys @ [k_tail l]) \<longrightarrow> h' x = h x"
    using h'(3) by auto
  moreover have "dll h' l (xs @ e # ys)" unfolding dll_def using h'(2) eq[of "[e]"] by simp
  moreover have "b = hd (ys @ [k_tail l])" using bv by simp
  ultimately show ?thesis using h'(1) by blast
qed

lemma list_push_front_dll:
  assumes "dll h l xs" "e \<noteq> NULL" "h e \<noteq> None" "e \<notin> set (k_head l # xs @ [k_tail l])"
  shows "\<exists>h'. list_push_front h l e = Some h' \<and> dll h' l (e # xs)"
  using list_insert_dll[of h l "[]" xs e] assms
  by (auto simp: list_push_front_def list_begin_dll)

lemma list_push_back_dll:
  assumes "dll h l xs" "e \<noteq> NULL" "h e \<noteq> None" "e \<notin> set (k_head l # xs @ [k_tail l])"
  shows "\<exists>h'. list_push_back h l e = Some h' \<and> dll h' l (xs @ [e])
     \<and> (\<forall>x. x \<notin> set (k_head l # e # xs @ [k_tail l]) \<longrightarrow> h' x = h x)"
  using list_insert_dll[of h l xs "[]" e] assms
  by (auto simp: list_push_back_def list_end_def)

lemma list_remove_dll:
  assumes "dll h l (xs @ x # ys)"
  shows "\<exists>h'. list_remove h x = Some (h', hd (ys @ [k_tail l])) \<and> dll h' l (xs @ ys)
     \<and> (\<forall>y. y \<notin> set (k_head l # xs @ ys @ [k_tail l]) \<longrightarrow> h' y = h y)"
proof -
  obtain us a where ua: "k_head l # xs = us @ [a]"
    by (metis append_butlast_last_id list.distinct(1))
  obtain b vs where bv: "ys @ [k_tail l] = b # vs"
    by (cases "ys @ [k_tail l]") auto
  have eq: "k_head l # xs @ zs @ ys @ [k_tail l] = us @ a # zs @ b # vs" for zs
    using ua bv by (metis append.assoc append_Cons append_Nil)
  have "dln h (us @ a # x # b # vs)" using assms eq[of "[x]"] by (simp add: dll_def)
  then obtain h' where h': "list_remove h x = Some (h', b)" "dln h' (us @ a # b # vs)"
      "\<forall>y. y \<notin> {a, b} \<longrightarrow> h' y = h y"
    using list_remove_dln[of h us a x b vs] by auto
  have "a \<in> set (k_head l # xs)" using ua by simp
  moreover have "b \<in> set (ys @ [k_tail l])" using bv by simp
  ultimately have "\<forall>y. y \<notin> set (k_head l # xs @ ys @ [k_tail l]) \<longrightarrow> h' y = h y"
    using h'(3) by auto
  moreover have "dll h' l (xs @ ys)" unfolding dll_def using h'(2) eq[of "[]"] by simp
  moreover have "b = hd (ys @ [k_tail l])" using bv by simp
  ultimately show ?thesis using h'(1) by blast
qed

lemma list_pop_front_dll:
  assumes "dll h l (x # xs)"
  shows "\<exists>h'. list_pop_front h l = Some (h', x) \<and> dll h' l xs"
  using list_remove_dll[of h l "[]" x xs] list_front_dll[OF assms] assms
  by (auto simp: list_pop_front_def)

lemma list_pop_back_dll:
  assumes "dll h l (xs @ [x])"
  shows "\<exists>h'. list_pop_back h l = Some (h', x) \<and> dll h' l xs"
  using list_remove_dll[of h l xs x "[]"] list_back_dll[OF assms] assms
  by (auto simp: list_pop_back_def)

section \<open>Loops\<close>

lemma dll_next:
  assumes "dll h l (us @ x # ys)"
  shows "list_next h x = Some (hd (ys @ [k_tail l]))" "x \<noteq> k_tail l"
proof -
  obtain b vs where "ys @ [k_tail l] = b # vs" by (cases "ys @ [k_tail l]") auto
  then show "list_next h x = Some (hd (ys @ [k_tail l]))"
    using assms list_next_step[of h "k_head l # us" x b vs] by (simp add: dll_def)
  show "x \<noteq> k_tail l" using assms by (auto simp: dll_def dln_def)
qed

lemma list_size_loop_dll:
  "dll h l (us @ ys) \<Longrightarrow> list_size_loop h l (hd (ys @ [k_tail l])) cnt = Some (cnt + length ys)"
proof (induction ys arbitrary: us cnt)
  case Nil
  then show ?case by (subst list_size_loop.simps) (simp add: list_end_def)
next
  case (Cons y ys)
  then show ?case using dll_next[OF Cons.prems] Cons.IH[of "us @ [y]" "cnt + 1"]
    by (subst list_size_loop.simps) (simp add: list_end_def)
qed

lemma list_size_dll: "dll h l xs \<Longrightarrow> list_size h l = Some (length xs)"
  using list_size_loop_dll[of h l "[]" xs 0] by (simp add: list_size_def list_begin_dll)

lemma is_sorted_loop_dln:
  "dln h (us @ x # A @ q # vs) \<Longrightarrow>
   is_sorted_loop h x q lss = Some (successively (\<lambda>a b. \<not> lss b a) (x # A))"
proof (induction A arbitrary: us x)
  case Nil
  then show ?case using list_next_step[of h us x q vs]
    by (subst is_sorted_loop.simps) simp
next
  case (Cons y A)
  have "y \<noteq> q" using Cons.prems by (auto simp: dln_def)
  then show ?case using Cons.prems list_next_step[of h us x y "A @ q # vs"]
      list_prev_step[of h us x y "A @ q # vs"] Cons.IH[of "us @ [x]" y]
    by (subst is_sorted_loop.simps) simp
qed

lemma is_sorted_dln:
  assumes "dln h (us @ A @ q # vs)"
  shows "is_sorted h (hd (A @ [q])) q lss = Some (successively (\<lambda>a b. \<not> lss b a) A)"
proof (cases A)
  case Nil then show ?thesis by (simp add: is_sorted_def)
next
  case (Cons x B)
  then have "x \<noteq> q" using assms by (auto simp: dln_def)
  then show ?thesis using assms Cons is_sorted_loop_dln[of h us x B q vs lss]
    by (simp add: is_sorted_def)
qed

fun split_run :: "(addr \<Rightarrow> addr \<Rightarrow> bool) \<Rightarrow> addr list \<Rightarrow> addr list \<times> addr list" where
  "split_run lss [] = ([], [])"
| "split_run lss [x] = ([x], [])"
| "split_run lss (x # y # zs) =
     (if lss y x then ([x], y # zs) else (let (a, b) = split_run lss (y # zs) in (x # a, b)))"

lemma find_end_of_run_loop_dln:
  "dln h (us @ x # A @ q # vs) \<Longrightarrow>
   find_end_of_run_loop h x q lss = Some (hd (snd (split_run lss (x # A)) @ [q]))"
proof (induction A arbitrary: us x)
  case Nil
  then show ?case using list_next_step[of h us x q vs]
    by (subst find_end_of_run_loop.simps) simp
next
  case (Cons y A)
  have "y \<noteq> q" using Cons.prems by (auto simp: dln_def)
  then show ?case using Cons.prems list_next_step[of h us x y "A @ q # vs"]
      list_prev_step[of h us x y "A @ q # vs"] Cons.IH[of "us @ [x]" y]
    by (subst find_end_of_run_loop.simps) (simp add: case_prod_unfold Let_def)
qed

lemma find_end_of_run_dln:
  assumes "dln h (us @ A @ q # vs)" "A \<noteq> []"
  shows "find_end_of_run h (hd A) q lss = Some (hd (snd (split_run lss A) @ [q]))"
proof -
  obtain x B where A: "A = x # B" using assms(2) by (cases A) auto
  then have "x \<noteq> q" "x \<noteq> NULL" "q \<noteq> NULL"
    using assms(1) dln_mem_not_null[OF assms(1)] by (auto simp: dln_def)
  then show ?thesis using assms(1) A find_end_of_run_loop_dln[of h us x B q vs lss]
    by (simp add: find_end_of_run_def)
qed

fun lmerge :: "(addr \<Rightarrow> addr \<Rightarrow> bool) \<Rightarrow> addr list \<Rightarrow> addr list \<Rightarrow> addr list" where
  "lmerge lss [] ys = ys"
| "lmerge lss xs [] = xs"
| "lmerge lss (x # xs) (y # ys) =
     (if lss y x then y # lmerge lss (x # xs) ys else x # lmerge lss xs (y # ys))"

lemma inplace_merge_loop_dln:
  "dln h (us @ p # A @ B @ q # vs) \<Longrightarrow>
   \<exists>h'. inplace_merge_loop h (hd (A @ B @ [q])) (hd (B @ [q])) q lss = Some h'
      \<and> dln h' (us @ p # lmerge lss A B @ q # vs)
      \<and> (\<forall>x. x \<notin> set (us @ p # A @ B @ q # vs) \<longrightarrow> h' x = h x)"
proof (induction lss A B arbitrary: h us p rule: lmerge.induct)
  case (1 lss ys)
  then show ?case by (subst inplace_merge_loop.simps) simp
next
  case (2 lss x xs)
  then show ?case by (subst inplace_merge_loop.simps) simp
next
  case (3 lss x xs y ys)
  have ne: "x \<noteq> y" "y \<noteq> q" using "3.prems" by (auto simp: dln_def)
  show ?case
  proof (cases "lss y x")
    case False
    have "dln h ((us @ [p]) @ x # xs @ (y # ys) @ q # vs)" using "3.prems" by simp
    from "3.IH"(2)[OF False this] obtain h' where
      "inplace_merge_loop h (hd (xs @ (y # ys) @ [q])) y q lss = Some h'"
      "dln h' ((us @ [p]) @ x # lmerge lss xs (y # ys) @ q # vs)"
      "\<forall>z. z \<notin> set ((us @ [p]) @ x # xs @ (y # ys) @ q # vs) \<longrightarrow> h' z = h z" by auto
    moreover have "list_next h x = Some (hd (xs @ (y # ys) @ [q]))"
      using "3.prems" list_next_step[of h "us @ [p]" x "hd (xs @ y # ys @ [q])" "tl (xs @ y # ys @ q # vs)"]
      by (cases xs) auto
    ultimately show ?thesis using False ne
      by (subst inplace_merge_loop.simps) simp
  next
    case True
    obtain b vs' where bv: "ys @ q # vs = b # vs'" by (cases "ys @ q # vs") auto
    have hb: "hd (ys @ [q]) = b" using bv by (cases ys) auto
    have d: "dln h (us @ p # (x # xs) @ y # b # vs')" using "3.prems" bv by simp
    have nx: "list_next h y = Some b"
      using d list_next_step[of h "us @ p # x # xs" y b vs'] by simp
    have pv: "list_prev h b = Some y"
      using d list_prev_step[of h "us @ p # x # xs" y b vs'] by simp
    obtain h1 where h1: "list_splice h x y b = Some h1"
        "dln h1 (us @ p # y # (x # xs) @ b # vs')"
        "\<forall>z. z \<notin> set (us @ p # y # (x # xs) @ b # vs') \<longrightarrow> h1 z = h z"
      using list_splice_one_dln[OF d] by auto
    have "dln h1 ((us @ [p]) @ y # (x # xs) @ ys @ q # vs)" using h1(2) bv by simp
    from "3.IH"(1)[OF True this] obtain h' where h':
      "inplace_merge_loop h1 x (hd (ys @ [q])) q lss = Some h'"
      "dln h' ((us @ [p]) @ y # lmerge lss (x # xs) ys @ q # vs)"
      "\<forall>z. z \<notin> set ((us @ [p]) @ y # (x # xs) @ ys @ q # vs) \<longrightarrow> h' z = h1 z" by auto
    have sv: "set (ys @ q # vs) = set (b # vs')" using bv by simp
    have "\<forall>z. z \<notin> set (us @ p # (x # xs) @ (y # ys) @ q # vs) \<longrightarrow> h' z = h z"
      using h'(3) h1(3) sv by auto
    then show ?thesis using True ne nx pv h1(1) h'(1,2) hb
      by (subst inplace_merge_loop.simps) simp
  qed
qed


section \<open>Sorting\<close>

text \<open>The three phases of \<open>list_sort\<close> on HOL lists, and what the heap code does in their terms.\<close>

lemma split_run_append: "fst (split_run lss xs) @ snd (split_run lss xs) = xs"
  by (induction lss xs rule: split_run.induct) (auto simp: Let_def case_prod_unfold)

lemma split_run_fst: "xs \<noteq> [] \<Longrightarrow> fst (split_run lss xs) \<noteq> []"
  by (induction lss xs rule: split_run.induct) (auto simp: Let_def case_prod_unfold)

lemma split_run_hd: "xs \<noteq> [] \<Longrightarrow> hd (fst (split_run lss xs)) = hd xs"
  by (induction lss xs rule: split_run.induct) (auto simp: Let_def case_prod_unfold)

lemma split_run_sorted: "successively (\<lambda>a b. \<not> lss b a) (fst (split_run lss xs))"
proof (induction lss xs rule: split_run.induct)
  case (3 lss x y zs)
  then show ?case using split_run_hd[of "y # zs" lss] split_run_fst[of "y # zs" lss]
    by (auto simp: Let_def case_prod_unfold successively_Cons)
qed auto

lemma split_run_length: "length (snd (split_run lss xs)) \<le> length xs"
  using split_run_append[of lss xs] by (metis length_append le_add2)

lemma split_run_length_less: "xs \<noteq> [] \<Longrightarrow> length (snd (split_run lss xs)) < length xs"
  using split_run_append[of lss xs] split_run_fst[of xs lss]
  by (metis append_eq_conv_conj length_append length_greater_0_conv less_add_same_cancel2)

function lpass :: "(addr \<Rightarrow> addr \<Rightarrow> bool) \<Rightarrow> addr list \<Rightarrow> addr list \<times> nat" where
  "lpass lss xs =
     (if xs = [] then ([], 0)
      else let (A, R) = split_run lss xs in
        if R = [] then (A, 1)
        else let (B, S) = split_run lss R; (out, n) = lpass lss S in (lmerge lss A B @ out, n + 1))"
  by pat_completeness auto
termination
proof (relation "measure (\<lambda>(lss, xs). length xs)")
  fix lss :: "addr \<Rightarrow> addr \<Rightarrow> bool" and xs z A R z' B S
  assume "xs \<noteq> []" "z = split_run lss xs" "(A, R) = z" "R \<noteq> []" "z' = split_run lss R" "(B, S) = z'"
  then have "length S < length R" "length R < length xs"
    using split_run_length_less[of xs lss] split_run_length_less[of R lss] by (metis snd_conv)+
  then show "((lss, S), (lss, xs)) \<in> measure (\<lambda>(lss, xs). length xs)" by simp
qed simp

declare lpass.simps [simp del]

lemma lpass_Nil [simp]: "lpass lss [] = ([], 0)"
  by (simp add: lpass.simps)

lemma lpass_one: "xs \<noteq> [] \<Longrightarrow> split_run lss xs = (A, []) \<Longrightarrow> lpass lss xs = (A, 1)"
  by (simp add: lpass.simps)

lemma lpass_two:
  "xs \<noteq> [] \<Longrightarrow> split_run lss xs = (A, R) \<Longrightarrow> R \<noteq> [] \<Longrightarrow> split_run lss R = (B, S) \<Longrightarrow>
   lpass lss xs = (lmerge lss A B @ fst (lpass lss S), Suc (snd (lpass lss S)))"
  by (simp add: lpass.simps[of lss xs] case_prod_unfold Let_def)

lemma lpass_induct [case_names Nil One Two]:
  assumes "\<And>lss. P lss []"
    and "\<And>lss xs A. xs \<noteq> [] \<Longrightarrow> split_run lss xs = (A, []) \<Longrightarrow> P lss xs"
    and "\<And>lss xs A R B S. xs \<noteq> [] \<Longrightarrow> split_run lss xs = (A, R) \<Longrightarrow> R \<noteq> [] \<Longrightarrow>
      split_run lss R = (B, S) \<Longrightarrow> P lss S \<Longrightarrow> P lss xs"
  shows "P lss xs"
proof (induction lss xs rule: lpass.induct)
  case (1 lss xs)
  show ?case
  proof (cases "xs = [] \<or> snd (split_run lss xs) = []")
    case True
    then show ?thesis using assms(1,2) by (metis prod.collapse)
  next
    case False
    then show ?thesis using "1.IH"[OF _ refl _ _ refl] assms(3) by (metis prod.collapse)
  qed
qed

lemma successively_mid: "successively P (A @ B) \<Longrightarrow> successively P A"
  by (simp add: successively_append_iff)

lemma list_sort_pass_dln:
  "dln h (us @ p # xs @ [k_tail l]) \<Longrightarrow>
   \<exists>h'. list_sort_pass h l (hd (xs @ [k_tail l])) cnt lss = Some (h', cnt + snd (lpass lss xs))
      \<and> dln h' (us @ p # fst (lpass lss xs) @ [k_tail l])
      \<and> (\<forall>x. x \<notin> set (us @ p # xs @ [k_tail l]) \<longrightarrow> h' x = h x)"
proof (induction lss xs arbitrary: h us p cnt rule: lpass_induct)
  case (Nil lss)
  then show ?case by (subst list_sort_pass.simps) (simp add: list_end_def)
next
  case (One lss xs A)
  have AX: "A = xs" using split_run_append[of lss xs] One(2) by simp
  have "find_end_of_run h (hd xs) (k_tail l) lss = Some (k_tail l)"
    using find_end_of_run_dln[of h "us @ [p]" xs "k_tail l" "[]" lss] One by simp
  moreover have "hd xs \<noteq> k_tail l"
    using dln_distinct[OF One(3)] hd_in_set[OF One(1)] by auto
  ultimately show ?case using One lpass_one[OF One(1,2)] AX
    by (subst list_sort_pass.simps) (simp add: list_end_def)
next
  case (Two lss xs A R B S)
  let ?t = "k_tail l"
  have X: "xs = A @ R" and R: "R = B @ S"
    using split_run_append[of lss xs] split_run_append[of lss R] Two(2,4) by simp_all
  have ne: "A \<noteq> []" "B \<noteq> []" "hd A = hd xs" "hd B = hd R"
    using split_run_fst[of xs lss] split_run_fst[of R lss] split_run_hd[of xs lss]
      split_run_hd[of R lss] Two(1-4) by simp_all
  have sA: "successively (\<lambda>a b. \<not> lss b a) A" and sB: "successively (\<lambda>a b. \<not> lss b a) B"
    using split_run_sorted[of lss xs] split_run_sorted[of lss R] Two(2,4) by simp_all
  have d: "dln h (us @ p # A @ B @ S @ [?t])" using Two.prems X R by simp
  have nt: "hd xs \<noteq> ?t" "hd R \<noteq> ?t"
    using d ne hd_in_set[of A] hd_in_set[of B] by (auto simp: dln_def)
  have f1: "find_end_of_run h (hd xs) ?t lss = Some (hd R)"
    using find_end_of_run_dln[of h "us @ [p]" xs ?t "[]" lss] Two by simp
  have f2: "find_end_of_run h (hd R) ?t lss = Some (hd (S @ [?t]))"
    using find_end_of_run_dln[of h "us @ p # A" R ?t "[]" lss] Two(3,4) d R by simp
  obtain q vs where qv: "S @ [?t] = q # vs" by (cases "S @ [?t]") auto
  have hq: "hd (S @ [?t]) = q" using qv by simp
  have dq: "dln h (us @ p # A @ B @ q # vs)" using d qv by simp
  have dq2: "dln h ((us @ [p]) @ A @ hd B # (tl B @ q # vs))" using dq ne(2) by (cases B) simp_all
  have "is_sorted h (hd A) (hd B) lss = Some True"
    using is_sorted_dln[OF dq2, of lss] ne sA by simp
  moreover have "is_sorted h (hd B) q lss = Some True"
    using is_sorted_dln[of h "us @ p # A" B q vs lss] dq ne sB by simp
  moreover have "hd A \<noteq> NULL" "hd B \<noteq> NULL" "q \<noteq> NULL"
    using dln_mem_not_null[OF dq, of "hd A"] dln_mem_not_null[OF dq, of "hd B"]
      dln_mem_not_null[OF dq, of q] hd_in_set[OF ne(1)] hd_in_set[OF ne(2)] by simp_all
  moreover obtain h1 where h1: "inplace_merge_loop h (hd A) (hd B) q lss = Some h1"
      "dln h1 (us @ p # lmerge lss A B @ q # vs)"
      "\<forall>x. x \<notin> set (us @ p # A @ B @ q # vs) \<longrightarrow> h1 x = h x"
    using inplace_merge_loop_dln[OF dq, of lss] ne by auto
  ultimately have mg: "inplace_merge h (hd xs) (hd R) q lss = Some h1"
    using ne by (simp add: inplace_merge_def)
  obtain us' p' where up: "us @ p # lmerge lss A B = us' @ [p']"
    by (metis append_butlast_last_id append_is_Nil_conv list.distinct(1))
  have up2: "us @ p # lmerge lss A B @ zs = us' @ p' # zs" for zs
    using up by (metis append.assoc append_Cons append_Nil)
  have "dln h1 (us' @ p' # S @ [?t])" using h1(2) qv up2 by simp
  from Two.IH[OF this, of "Suc cnt"] obtain h' where h':
    "list_sort_pass h1 l (hd (S @ [?t])) (Suc cnt) lss = Some (h', Suc cnt + snd (lpass lss S))"
    "dln h' (us' @ p' # fst (lpass lss S) @ [?t])"
    "\<forall>x. x \<notin> set (us' @ p' # S @ [?t]) \<longrightarrow> h' x = h1 x" by auto
  have "set (lmerge lss A B) = set A \<union> set B"
    by (induction lss A B rule: lmerge.induct) auto
  then have st: "set (us' @ p' # S @ [?t]) = set (us @ p # xs @ [?t])"
    unfolding up2[symmetric] using X R by auto
  have st2: "set (us @ p # A @ B @ q # vs) = set (us @ p # xs @ [?t])"
    unfolding qv[symmetric] using X R by auto
  have fr: "\<forall>x. x \<notin> set (us @ p # xs @ [?t]) \<longrightarrow> h' x = h x"
    using h'(3) h1(3) unfolding st st2 by simp
  have dd: "dln h' (us @ p # fst (lpass lss xs) @ [?t])"
    using h'(2) unfolding up2[symmetric] by (simp add: lpass_two[OF Two(1-4)])
  have "list_sort_pass h l (hd (xs @ [?t])) cnt lss = Some (h', cnt + snd (lpass lss xs))"
    using f1 f2 mg nt h'(1) hq Two(1) lpass_two[OF Two(1-4)]
    by (subst list_sort_pass.simps) (simp add: list_end_def)
  then show ?case using dd fr by blast
qed


text \<open>The number of natural runs falls with every pass, so the outer loop ends.\<close>

fun nruns :: "(addr \<Rightarrow> addr \<Rightarrow> bool) \<Rightarrow> addr list \<Rightarrow> nat" where
  "nruns lss [] = 0"
| "nruns lss [x] = 1"
| "nruns lss (x # y # zs) = (if lss y x then 1 else 0) + nruns lss (y # zs)"

lemma nruns_append: "nruns lss (xs @ ys) \<le> nruns lss xs + nruns lss ys"
proof (induction lss xs rule: nruns.induct)
  case (2 lss x)
  then show ?case by (cases ys) auto
qed auto

lemma nruns_sorted: "successively (\<lambda>a b. \<not> lss b a) xs \<Longrightarrow> nruns lss xs \<le> 1"
  by (induction lss xs rule: nruns.induct) auto

lemma nruns_split: "xs \<noteq> [] \<Longrightarrow> nruns lss xs = 1 + nruns lss (snd (split_run lss xs))"
  by (induction lss xs rule: nruns.induct) (auto simp: Let_def case_prod_unfold)

lemma lmerge_key:
  fixes key :: "addr \<Rightarrow> 'k::linorder"
  assumes "lss = (\<lambda>a b. key a < key b)" "sorted (map key xs)" "sorted (map key ys)"
  shows "sorted (map key (lmerge lss xs ys)) \<and> mset (lmerge lss xs ys) = mset xs + mset ys
    \<and> filter (\<lambda>x. key x = k) (lmerge lss xs ys) = filter (\<lambda>x. key x = k) (xs @ ys)"
  using assms
proof (induction lss xs ys rule: lmerge.induct)
  case (3 lss x xs y ys)
  have st: "set (lmerge lss xs (y # ys)) = set xs \<union> set (y # ys)" if "\<not> lss y x"
    using "3.IH"(2)[OF that] "3.prems" by (metis set_mset_mset set_mset_union list.simps(9) sorted_simps(2))
  have st': "set (lmerge lss (x # xs) ys) = set (x # xs) \<union> set ys" if "lss y x"
    using "3.IH"(1)[OF that] "3.prems" by (metis set_mset_mset set_mset_union list.simps(9) sorted_simps(2))
  show ?case
  proof (cases "lss y x")
    case True
    then have "filter (\<lambda>a. key a = key y) (x # xs) = []"
      using "3.prems" by (auto simp: filter_empty_conv)
    then show ?thesis using True "3.IH"(1)[OF True] "3.prems" st'
      by (auto simp: filter_empty_conv)
  next
    case False
    then show ?thesis using "3.IH"(2)[OF False] "3.prems" st by auto
  qed
qed auto

lemma successively_key:
  fixes key :: "addr \<Rightarrow> 'k::linorder"
  shows "successively (\<lambda>a b. \<not> key b < key a) xs \<longleftrightarrow> sorted (map key xs)"
  by (induction xs rule: induct_list012) (auto simp: not_less intro: order_trans)

lemma lpass_key:
  fixes key :: "addr \<Rightarrow> 'k::linorder"
  assumes "lss = (\<lambda>a b. key a < key b)"
  shows "mset (fst (lpass lss xs)) = mset xs
    \<and> filter (\<lambda>x. key x = k) (fst (lpass lss xs)) = filter (\<lambda>x. key x = k) xs
    \<and> nruns lss (fst (lpass lss xs)) \<le> snd (lpass lss xs)
    \<and> 2 * snd (lpass lss xs) \<le> nruns lss xs + 1
    \<and> (snd (lpass lss xs) \<le> 1 \<longrightarrow> sorted (map key (fst (lpass lss xs))))"
  using assms
proof (induction lss xs rule: lpass_induct)
  case (One lss xs A)
  have "A = xs" using split_run_append[of lss xs] One(2) by simp
  moreover have sA: "successively (\<lambda>a b. \<not> lss b a) A"
    using split_run_sorted[of lss xs] One(2) by simp
  moreover have "nruns lss xs = 1" using nruns_split[OF One(1)] One(2) by simp
  ultimately show ?case using lpass_one[OF One(1,2)] One(3) successively_key[of key A] by simp
next
  case (Two lss xs A R B S)
  have X: "xs = A @ B @ S" using split_run_append[of lss xs] split_run_append[of lss R] Two(2,4) by simp
  have "sorted (map key A)" "sorted (map key B)"
    using split_run_sorted[of lss xs] split_run_sorted[of lss R] Two(2,4,6)
      successively_key[of key A] successively_key[of key B] by simp_all
  note m = lmerge_key[OF Two(6) this]
  have "nruns lss (lmerge lss A B) \<le> 1"
    using m nruns_sorted[of lss "lmerge lss A B"] successively_key[of key "lmerge lss A B"] Two(6) by simp
  then have "nruns lss (lmerge lss A B @ fst (lpass lss S)) \<le> Suc (snd (lpass lss S))"
    using nruns_append[of lss "lmerge lss A B" "fst (lpass lss S)"] Two(5)[OF Two(6)] by simp
  moreover have "nruns lss xs = 2 + nruns lss S"
    using nruns_split[OF Two(1), of lss] nruns_split[OF Two(3), of lss] Two(2,4) by simp
  moreover have "snd (lpass lss S) = 0 \<Longrightarrow> S = []"
    using lpass_one[of S lss] lpass_two[of S lss] by (cases "split_run lss S") (cases "S = []"; auto; metis nat.simps(3) prod.collapse snd_conv zero_neq_one)
  ultimately show ?case using lpass_two[OF Two(1-4)] Two(5)[OF Two(6)] m X by auto
qed simp


lemma list_sort_loop_dll:
  fixes key :: "addr \<Rightarrow> 'k::linorder"
  assumes lss: "lss = (\<lambda>a b. key a < key b)"
  shows "dll h l xs \<Longrightarrow>
    \<exists>h'. list_sort_loop h l lss = Some h' \<and> dll h' l (sort_key key xs)
      \<and> (\<forall>x. x \<notin> set (k_head l # xs @ [k_tail l]) \<longrightarrow> h' x = h x)"
proof (induction "nruns lss xs" arbitrary: h xs rule: less_induct)
  case less
  let ?p = "lpass lss xs"
  obtain h1 where h1: "list_sort_pass h l (hd (xs @ [k_tail l])) 0 lss = Some (h1, snd ?p)"
      "dll h1 l (fst ?p)" "\<forall>x. x \<notin> set (k_head l # xs @ [k_tail l]) \<longrightarrow> h1 x = h x"
    using list_sort_pass_dln[of h "[]" "k_head l" xs l 0 lss] less.prems by (auto simp: dll_def)
  note k = lpass_key[OF lss, of xs]
  have ms: "mset (fst ?p) = mset xs" using k by blast
  have fl: "\<And>k. filter (\<lambda>x. key x = k) (fst ?p) = filter (\<lambda>x. key x = k) xs" using k by blast
  have sk: "sort_key key (fst ?p) = sort_key key xs"
  proof (rule properties_for_sort_key)
    show "mset (sort_key key xs) = mset (fst ?p)" using ms by simp
    fix a assume "a \<in> set (sort_key key xs)"
    show "filter (\<lambda>x. key a = key x) (sort_key key xs) = filter (\<lambda>x. key a = key x) (fst ?p)"
      using fl[of "key a"] sort_key_stable[where f = key and k = "key a" and xs = xs]
      by (simp add: eq_commute[of "key a"])
  qed simp
  have set_eq: "set (fst ?p) = set xs" using ms by (rule mset_eq_setD)
  show ?case
  proof (cases "snd ?p > 1")
    case False
    then have "sorted (map key (fst ?p))" using k by simp
    then have "sort_key key xs = fst ?p"
      using ms fl by (intro properties_for_sort_key) (auto simp: eq_commute)
    then show ?thesis using False h1 list_begin_dll[OF less.prems]
      by (subst list_sort_loop.simps) auto
  next
    case True
    have "nruns lss (fst ?p) \<le> snd ?p" "2 * snd ?p \<le> nruns lss xs + 1" using k by blast+
    then have "nruns lss (fst ?p) < nruns lss xs" using True by linarith
    from less.hyps[OF this h1(2)] sk obtain h' where h': "list_sort_loop h1 l lss = Some h'"
        "dll h' l (sort_key key xs)"
        "\<forall>x. x \<notin> set (k_head l # xs @ [k_tail l]) \<longrightarrow> h' x = h1 x"
      using set_eq by auto
    then show ?thesis using True h1 list_begin_dll[OF less.prems]
      by (subst list_sort_loop.simps) auto
  qed
qed

lemma list_sort_dll:
  fixes key :: "addr \<Rightarrow> 'k::linorder"
  assumes lss: "lss = (\<lambda>a b. key a < key b)" and d: "dll h l xs"
  shows "\<exists>h'. list_sort h l lss = Some h' \<and> dll h' l (sort_key key xs)
      \<and> (\<forall>x. x \<notin> set (k_head l # xs @ [k_tail l]) \<longrightarrow> h' x = h x)"
proof -
  obtain h' where h': "list_sort_loop h l lss = Some h'" "dll h' l (sort_key key xs)"
      "\<forall>x. x \<notin> set (k_head l # xs @ [k_tail l]) \<longrightarrow> h' x = h x"
    using list_sort_loop_dll[OF lss d] by auto
  have "is_sorted h' (hd (sort_key key xs @ [k_tail l])) (k_tail l) lss = Some True"
    using is_sorted_dln[of h' "[k_head l]" "sort_key key xs" "k_tail l" "[]" lss] h'(2) lss
      successively_key[of key "sort_key key xs"] by (simp add: dll_def)
  then show ?thesis using h' list_begin_dll[OF h'(2)]
    by (simp add: list_sort_def list_end_def)
qed

section \<open>Ordered insertion, reversal, duplicates and extrema\<close>

lemma insert_ordered_loop_dll:
  "dll h l (us @ ys) \<Longrightarrow>
   insert_ordered_loop h l (hd (ys @ [k_tail l])) e lss
     = Some (hd (dropWhile (\<lambda>x. \<not> lss e x) ys @ [k_tail l]))"
proof (induction ys arbitrary: us)
  case Nil
  then show ?case by (subst insert_ordered_loop.simps) (simp add: list_end_def)
next
  case (Cons y ys)
  then show ?case using dll_next[OF Cons.prems] Cons.IH[of "us @ [y]"]
    by (subst insert_ordered_loop.simps) (simp add: list_end_def)
qed

lemma list_insert_ordered_dll:
  assumes "dll h l xs" "e \<noteq> NULL" "h e \<noteq> None" "e \<notin> set (k_head l # xs @ [k_tail l])"
  shows "\<exists>h'. list_insert_ordered h l e lss = Some h'
     \<and> dll h' l (takeWhile (\<lambda>x. \<not> lss e x) xs @ e # dropWhile (\<lambda>x. \<not> lss e x) xs)"
proof -
  have "e \<notin> set (k_head l # takeWhile (\<lambda>x. \<not> lss e x) xs @ dropWhile (\<lambda>x. \<not> lss e x) xs @ [k_tail l])"
    using assms(4) by (metis append.assoc append_Cons takeWhile_dropWhile_id)
  then show ?thesis
    using list_insert_dll[of h l "takeWhile (\<lambda>x. \<not> lss e x) xs" "dropWhile (\<lambda>x. \<not> lss e x) xs" e]
      insert_ordered_loop_dll[of h l "[]" xs e lss] assms(1-3) list_begin_dll[OF assms(1)]
    by (auto simp: list_insert_ordered_def)
qed

definition swap_elem :: "list_elem \<Rightarrow> list_elem" where
  "swap_elem e = \<lparr>le_prev = le_next e, le_next = le_prev e\<rparr>"

definition swap_set :: "lheap \<Rightarrow> addr set \<Rightarrow> lheap" where
  "swap_set h S = (\<lambda>x. if x \<in> S then map_option swap_elem (h x) else h x)"

lemma dls_swap: "dls h p xs n \<Longrightarrow> set xs \<subseteq> S \<Longrightarrow> dls (swap_set h S) n (rev xs) p"
proof (induction xs arbitrary: p)
  case (Cons a xs)
  then show ?case by (cases xs rule: rev_cases) (auto simp: swap_set_def swap_elem_def hd_rev last_rev)
qed simp

lemma swap_links_set:
  assumes "h e = Some r" "e \<noteq> NULL" "e \<notin> S"
  shows "swap_links (swap_set h S) e = Some (swap_set h (insert e S))"
proof -
  have "swap_set h S e = Some r" using assms by (simp add: swap_set_def)
  moreover have "(swap_set h S)(e \<mapsto> swap_elem r) = swap_set h (insert e S)"
    using assms by (auto simp: swap_set_def fun_eq_iff)
  moreover have "r\<lparr>le_prev := le_next r, le_next := le_prev r\<rparr> = swap_elem r"
    by (cases r) (simp add: swap_elem_def)
  ultimately show ?thesis using assms(2)
    by (simp add: swap_links_def access_defs)
qed

lemma list_reverse_loop_dll:
  "dll h l (us @ ys) \<Longrightarrow>
   list_reverse_loop (swap_set h (set us)) l (hd (ys @ [k_tail l])) = Some (swap_set h (set (us @ ys)))"
proof (induction ys arbitrary: us)
  case Nil
  then show ?case by (subst list_reverse_loop.simps) (simp add: list_end_def)
next
  case (Cons y ys)
  have y: "y \<noteq> NULL" "h y = Some \<lparr>le_prev = last (NULL # k_head l # us), le_next = hd (ys @ [k_tail l])\<rparr>"
      "y \<notin> set us" "y \<noteq> k_tail l"
    using dln_at[of h "k_head l # us" y "ys @ [k_tail l]"] dln_distinct[of h] Cons.prems
    by (simp_all add: dll_def) fastforce+
  have "get_prev (swap_set h (insert y (set us))) y = Some (hd (ys @ [k_tail l]))"
    using y by (simp add: access_defs swap_set_def swap_elem_def)
  then show ?case using y swap_links_set[where h = h and e = y and S = "set us", OF y(2,1,3)] Cons.IH[of "us @ [y]"] Cons.prems
    by (subst list_reverse_loop.simps) (simp add: list_end_def)
qed


lemma list_reverse_dll:
  assumes "dll h l xs"
  shows "\<exists>h'. list_reverse h l = Some h' \<and> dll h' l (rev xs)
     \<and> (\<forall>x. x \<notin> set (k_head l # xs @ [k_tail l]) \<longrightarrow> h' x = h x)"
proof (cases xs)
  case Nil
  then show ?thesis using assms list_empty_dll[OF assms] by (auto simp: list_reverse_def)
next
  case (Cons y ys)
  let ?s = "swap_set h (set xs)" and ?H = "k_head l" and ?T = "k_tail l"
  have "swap_set h {} = h" by (simp add: swap_set_def)
  then have lp: "list_reverse_loop h l (hd (xs @ [?T])) = Some ?s"
    using list_reverse_loop_dll[of h l "[]" xs] assms by simp
  have d: "dls h ?H xs ?T" "distinct (?H # xs @ [?T])" "?H \<noteq> NULL" "?T \<noteq> NULL"
      "h ?H = Some \<lparr>le_prev = NULL, le_next = hd xs\<rparr>" "h ?T = Some \<lparr>le_prev = last xs, le_next = NULL\<rparr>"
    using assms Cons by (auto simp: dll_def dln_def)
  have sw: "dls ?s ?T (rev xs) ?H" using d(1) by (rule dls_swap) simp
  have sh: "?s ?H = h ?H" "?s ?T = h ?T" using d(2) by (auto simp: swap_set_def)
  show ?thesis
  proof (cases ys rule: rev_cases)
    case Nil
    with Cons have "xs = [y]" by simp
    then show ?thesis using sw sh d list_empty_dll[OF assms] list_begin_dll[OF assms] lp
      by (simp add: list_reverse_def access_defs dll_def dln_def swap_set_def)
  next
    case (snoc zs z)
    with Cons have "xs = y # zs @ [z]" by simp
    then show ?thesis using sw sh d list_empty_dll[OF assms] list_begin_dll[OF assms] lp
      by (simp add: list_reverse_def access_defs dll_def dln_def swap_set_def)
  qed
qed

text \<open>\<open>list_max\<close> and \<open>list_min\<close> return the first extreme element.\<close>

fun fold_max :: "(addr \<Rightarrow> addr \<Rightarrow> bool) \<Rightarrow> addr \<Rightarrow> addr list \<Rightarrow> addr" where
  "fold_max lss mx [] = mx"
| "fold_max lss mx (e # es) = fold_max lss (if lss mx e then e else mx) es"

lemma list_max_loop_dll:
  "dll h l (us @ ys) \<Longrightarrow> list_max_loop h l mx (hd (ys @ [k_tail l])) lss = Some (fold_max lss mx ys)"
proof (induction ys arbitrary: us mx)
  case Nil
  then show ?case by (subst list_max_loop.simps) (simp add: list_end_def)
next
  case (Cons y ys)
  then show ?case using dll_next[OF Cons.prems] Cons.IH[of "us @ [y]"]
    by (subst list_max_loop.simps) (simp add: list_end_def)
qed

lemma list_min_loop_dll:
  "dll h l (us @ ys) \<Longrightarrow>
   list_min_loop h l mn (hd (ys @ [k_tail l])) lss = Some (fold_max (\<lambda>a b. lss b a) mn ys)"
proof (induction ys arbitrary: us mn)
  case Nil
  then show ?case by (subst list_min_loop.simps) (simp add: list_end_def)
next
  case (Cons y ys)
  then show ?case using dll_next[OF Cons.prems] Cons.IH[of "us @ [y]"]
    by (subst list_min_loop.simps) (simp add: list_end_def)
qed

lemma fold_max_key:
  fixes key :: "addr \<Rightarrow> 'k::linorder"
  assumes "lss = (\<lambda>a b. key a < key b)"
  shows "fold_max lss mx ys \<in> set (mx # ys) \<and> (\<forall>y \<in> set (mx # ys). key y \<le> key (fold_max lss mx ys))"
  by (induction ys arbitrary: mx) (use assms in \<open>fastforce simp: not_less dest: less_imp_le order_trans\<close>)+

lemma list_max_dll:
  assumes "dll h l (x # xs)"
  shows "list_max h l lss = Some (fold_max lss x xs)"
  using list_begin_dll[OF assms] dll_next[of h l "[]" x xs] list_max_loop_dll[of h l "[x]" xs x lss] assms
  by (simp add: list_max_def list_end_def)

lemma list_max_empty: "dll h l [] \<Longrightarrow> list_max h l lss = Some (k_tail l)"
  by (simp add: list_max_def list_begin_dll list_end_def)

lemma list_min_dll:
  assumes "dll h l (x # xs)"
  shows "list_min h l lss = Some (fold_max (\<lambda>a b. lss b a) x xs)"
  using list_begin_dll[OF assms] dll_next[of h l "[]" x xs] list_min_loop_dll[of h l "[x]" xs x lss] assms
  by (simp add: list_min_def list_end_def)

lemma list_min_empty: "dll h l [] \<Longrightarrow> list_min h l lss = Some (k_tail l)"
  by (simp add: list_min_def list_begin_dll list_end_def)

text \<open>\<open>list_unique\<close> drops, after each element kept, the elements equal to it.\<close>

fun uniq :: "(addr \<Rightarrow> addr \<Rightarrow> bool) \<Rightarrow> addr \<Rightarrow> addr list \<Rightarrow> addr list \<times> addr list" where
  "uniq lss x [] = ([], [])"
| "uniq lss x (y # ys) =
     (if \<not> lss x y \<and> \<not> lss y x then (let (k, d) = uniq lss x ys in (k, y # d))
      else (let (k, d) = uniq lss y ys in (y # k, d)))"

lemma list_unique_loop_dll:
  "dll h l (us @ x # ys) \<Longrightarrow>
   \<exists>h'. list_unique_loop h l None x lss = Some h' \<and> dll h' l (us @ x # fst (uniq lss x ys))"
proof (induction lss x ys arbitrary: h us rule: uniq.induct)
  case (1 lss x)
  then show ?case using dll_next(1)[OF 1]
    by (subst list_unique_loop.simps) (simp add: list_end_def)
next
  case (2 lss x y ys)
  have nx: "list_next h x = Some y" "y \<noteq> k_tail l"
    using dll_next(1)[OF "2.prems"] dll_next(2)[of h l "us @ [x]" y ys] "2.prems" by simp_all
  show ?case
  proof (cases "\<not> lss x y \<and> \<not> lss y x")
    case True
    obtain h1 where h1: "list_remove h y = Some (h1, hd (ys @ [k_tail l]))" "dll h1 l (us @ x # ys)"
      using list_remove_dll[of h l "us @ [x]" y ys] "2.prems" by auto
    then show ?thesis using "2.IH"(1)[OF True h1(2)] nx True
      by (subst list_unique_loop.simps) (auto simp: list_end_def case_prod_unfold Let_def)
  next
    case False
    have "dll h l ((us @ [x]) @ y # ys)" using "2.prems" by simp
    from "2.IH"(2)[OF False this] show ?thesis using nx False
      by (subst list_unique_loop.simps) (auto simp: list_end_def case_prod_unfold Let_def)
  qed
qed

lemma list_unique_dll:
  assumes "dll h l (x # xs)"
  shows "\<exists>h'. list_unique h l None lss = Some h' \<and> dll h' l (x # fst (uniq lss x xs))"
  using list_unique_loop_dll[of h l "[]" x xs lss] assms list_empty_dll[OF assms] list_begin_dll[OF assms]
  by (simp add: list_unique_def)


text \<open>Insertion into a sorted list keeps it sorted and is stable.\<close>

lemma takeWhile_dropWhile_key:
  fixes key :: "addr \<Rightarrow> 'k::linorder"
  assumes "sorted (map key xs)"
  shows "(\<forall>x \<in> set (takeWhile (\<lambda>x. \<not> key e < key x) xs). key x \<le> key e)
    \<and> (\<forall>x \<in> set (dropWhile (\<lambda>x. \<not> key e < key x) xs). key e < key x)"
  using assms
proof (induction xs)
  case (Cons x xs)
  show ?case
  proof (cases "key e < key x")
    case True
    then show ?thesis using Cons.prems by (auto intro: less_le_trans)
  next
    case False
    then show ?thesis using Cons by (simp add: not_less)
  qed
qed simp

lemma sorted_insert_mid:
  fixes key :: "addr \<Rightarrow> 'k::linorder"
  assumes "sorted (map key us)" "sorted (map key vs)"
    and "\<forall>x \<in> set us. key x \<le> key e" "\<forall>x \<in> set vs. key e < key x"
  shows "sorted (map key (us @ e # vs))"
proof -
  have "\<forall>x \<in> set us. \<forall>y \<in> set vs. key x \<le> key y"
    using assms(3,4) by (meson less_imp_le order_trans)
  then show ?thesis using assms by (auto simp: sorted_append less_imp_le)
qed

lemma list_insert_ordered_key:
  fixes key :: "addr \<Rightarrow> 'k::linorder"
  assumes "dll h l xs" "sorted (map key xs)" "e \<noteq> NULL" "h e \<noteq> None"
    "e \<notin> set (k_head l # xs @ [k_tail l])"
  shows "\<exists>h' us vs. list_insert_ordered h l e (\<lambda>a b. key a < key b) = Some h'
    \<and> dll h' l (us @ e # vs) \<and> xs = us @ vs \<and> sorted (map key (us @ e # vs))
    \<and> (\<forall>x \<in> set us. key x \<le> key e) \<and> (\<forall>x \<in> set vs. key e < key x)"
proof -
  let ?us = "takeWhile (\<lambda>x. \<not> key e < key x) xs" and ?vs = "dropWhile (\<lambda>x. \<not> key e < key x) xs"
  have x: "xs = ?us @ ?vs" by simp
  note k = takeWhile_dropWhile_key[OF assms(2), of e]
  have "sorted (map key ?us)" "sorted (map key ?vs)"
    using assms(2) by (metis sorted_append map_append takeWhile_dropWhile_id)+
  then have so: "sorted (map key (?us @ e # ?vs))"
    by (rule sorted_insert_mid[OF _ _ conjunct1[OF k] conjunct2[OF k]])
  obtain h' where li: "list_insert_ordered h l e (\<lambda>a b. key a < key b) = Some h'"
      "dll h' l (?us @ e # ?vs)"
    using list_insert_ordered_dll[OF assms(1,3,4,5), of "\<lambda>a b. key a < key b"] by blast
  show ?thesis
    by (rule exI[of _ h'], rule exI[of _ ?us], rule exI[of _ ?vs])
      (intro conjI li x so conjunct1[OF k] conjunct2[OF k])
qed

text \<open>What \<open>uniq\<close> keeps and drops.\<close>

lemma uniq_mset: "mset (fst (uniq lss x ys)) + mset (snd (uniq lss x ys)) = mset ys"
  by (induction lss x ys rule: uniq.induct) (auto simp: Let_def case_prod_unfold)

lemma uniq_key:
  fixes key :: "addr \<Rightarrow> 'k::linorder"
  assumes "lss = (\<lambda>a b. key a < key b)" "sorted (map key (x # ys))"
  shows "sorted_wrt (<) (map key (x # fst (uniq lss x ys)))
    \<and> key ` set (x # fst (uniq lss x ys)) = key ` set (x # ys)"
  using assms
proof (induction lss x ys rule: uniq.induct)
  case (2 lss x y ys)
  show ?case
  proof (cases "key x = key y")
    case True
    then show ?thesis using "2.IH"(1) "2.prems" by (auto simp: Let_def case_prod_unfold)
  next
    case False
    define K where "K = fst (uniq lss y ys)"
    from False have lt: "key x < key y" using "2.prems" by auto
    have IH: "sorted_wrt (<) (map key (y # K))" "key ` set (y # K) = key ` set (y # ys)"
      using "2.IH"(2) "2.prems" lt by (auto simp: K_def)
    have u: "fst (uniq lss x (y # ys)) = y # K"
      using "2.prems"(1) lt by (simp add: K_def Let_def case_prod_unfold)
    have "\<forall>z \<in> set K. key x < key z" using IH(1) lt by (auto intro: less_trans)
    then have "sorted_wrt (<) (map key (x # y # K))" using IH(1) lt by simp
    moreover have "key ` set (x # y # K) = key ` set (x # y # ys)"
      using IH(2) by (metis image_insert list.simps(15))
    ultimately show ?thesis unfolding u by blast
  qed
qed simp

lemma list_unique_key:
  fixes key :: "addr \<Rightarrow> 'k::linorder"
  assumes "dll h l xs" "sorted (map key xs)"
  shows "\<exists>h' ys. list_unique h l None (\<lambda>a b. key a < key b) = Some h' \<and> dll h' l ys
    \<and> sorted_wrt (<) (map key ys) \<and> key ` set ys = key ` set xs \<and> set ys \<subseteq> set xs"
proof (cases xs)
  case Nil
  then show ?thesis using assms list_empty_dll[OF assms(1)] by (auto simp: list_unique_def)
next
  case (Cons x zs)
  have "set (fst (uniq (\<lambda>a b. key a < key b) x zs)) \<subseteq> set zs"
    using uniq_mset[of "\<lambda>a b. key a < key b" x zs] by (metis set_mset_mset set_mset_union Un_upper1)
  then show ?thesis
    using uniq_key[OF refl, of key x zs] list_unique_dll[of h l x zs "\<lambda>a b. key a < key b"] assms Cons
    by fastforce
qed

section \<open>An example list\<close>

definition list_example :: lheap where
  "list_example = (\<lambda>_. None)(1 \<mapsto> \<lparr>le_prev = 0, le_next = 10\<rparr>, 10 \<mapsto> \<lparr>le_prev = 1, le_next = 12\<rparr>,
     12 \<mapsto> \<lparr>le_prev = 10, le_next = 11\<rparr>, 11 \<mapsto> \<lparr>le_prev = 12, le_next = 2\<rparr>,
     2 \<mapsto> \<lparr>le_prev = 11, le_next = 0\<rparr>, 20 \<mapsto> \<lparr>le_prev = 0, le_next = 0\<rparr>)"

definition list_example_l :: klist where
  "list_example_l = \<lparr>k_head = 1, k_tail = 2\<rparr>"

lemma list_example_dll: "dll list_example list_example_l [10, 12, 11]"
  by (simp add: dll_def dln_def list_example_def list_example_l_def)

end
