(* ===== verification/Sched.thy ===== *)
theory Sched
  imports Klist
begin

text \<open>
  threads/thread.c and the interrupt side of threads/interrupt.c: threads, the ready queues of the
  FIFO and the strict-priority scheduler, blocking, yielding, priority donation.

  A kernel list is the sequence of its elements: theory Klist proves that the operations of list.c
  compute exactly the sequence operations used here (\<open>list_insert_ordered_dll\<close>, \<open>list_sort_dll\<close>).
  A thread is named by the address of its page, a lock and a semaphore by their addresses; a
  structure that was never made or was freed is \<open>None\<close> in its store.  An operation runs with
  interrupts off from its beginning until the next context switch; so it is one transition, and
  the interrupt level itself is not part of the state.  \<open>process_activate\<close>, the stack frames of a
  new thread and the names of threads do not influence scheduling and are left out.
\<close>

section \<open>State\<close>

datatype thread_status = THREAD_RUNNING | THREAD_READY | THREAD_BLOCKED | THREAD_DYING

datatype sched_policy = SCHED_FIFO | SCHED_PRIO | SCHED_FAIR | SCHED_MLFQS

definition PRI_MIN :: int where "PRI_MIN = 0"
definition PRI_DEFAULT :: int where "PRI_DEFAULT = 31"
definition PRI_MAX :: int where "PRI_MAX = 63"
definition TIME_SLICE :: nat where "TIME_SLICE = 4"

record thread =
  tid :: int
  status :: thread_status
  priority :: int
  effective_priority :: int
  wake_time :: int
  donated_to :: addr
  donated_locks :: "addr list"
  has_pcb :: bool

record semaphore =
  svalue :: nat
  waiters :: "addr list"

text \<open>\<open>struct semaphore_elem\<close> on the waiter list of a condition: its semaphore and its \<open>thread\<close> member.\<close>

record semaphore_elem =
  e_sema :: addr
  e_thread :: addr

text \<open>The counters of a readers-writers lock: active and waiting readers, active and waiting writers.\<close>

record rw_counts =
  AR :: int
  WR :: int
  AW :: int
  WW :: int

record kernel =
  threads :: "addr \<Rightarrow> thread option"
  holders :: "addr \<Rightarrow> addr option"
  semas :: "addr \<Rightarrow> semaphore option"
  conds :: "addr \<Rightarrow> semaphore_elem list option"
  rw_locks :: "addr \<Rightarrow> rw_counts option"
  fifo_ready_list :: "addr list"
  priority_queue :: "addr list"
  all_list :: "addr list"
  sleeping_list :: "addr list"
  current :: addr
  idle_thread :: addr
  initial_thread :: addr
  active_sched_policy :: sched_policy
  in_external_intr :: bool
  yield_on_return :: bool
  ticks :: int
  thread_ticks :: nat
  idle_ticks :: nat
  kernel_ticks :: nat
  user_ticks :: nat
  tid_lock :: addr
  next_tid :: int

text \<open>A lock is its holder followed by its semaphore, so the semaphore lives 4 bytes into it.\<close>

definition lock_sema :: "addr \<Rightarrow> addr" where
  "lock_sema l = l + 4"

section \<open>Running thread\<close>

definition is_thread :: "addr \<Rightarrow> kernel \<Rightarrow> bool" where
  "is_thread t k \<longleftrightarrow> t \<noteq> NULL \<and> threads k t \<noteq> None"

definition running_thread :: "kernel \<Rightarrow> addr" where
  "running_thread k = current k"

definition upd_thread :: "addr \<Rightarrow> (thread \<Rightarrow> thread) \<Rightarrow> kernel \<Rightarrow> kernel option" where
  "upd_thread t f k = do { th \<leftarrow> threads k t; Some (k\<lparr>threads := (threads k)(t \<mapsto> f th)\<rparr>) }"

definition thread_current :: "kernel \<Rightarrow> addr option" where
  "thread_current k = do {
     let t = running_thread k;
     ASSERT (is_thread t k);
     th \<leftarrow> threads k t;
     ASSERT (status th = THREAD_RUNNING);
     Some t }"

definition thread_tid :: "kernel \<Rightarrow> int option" where
  "thread_tid k = do { t \<leftarrow> thread_current k; th \<leftarrow> threads k t; Some (tid th) }"

definition intr_context :: "kernel \<Rightarrow> bool" where
  "intr_context k = in_external_intr k"

definition intr_yield_on_return :: "kernel \<Rightarrow> kernel option" where
  "intr_yield_on_return k = do { ASSERT (intr_context k); Some (k\<lparr>yield_on_return := True\<rparr>) }"

section \<open>Ready queues\<close>

definition eff :: "kernel \<Rightarrow> addr \<Rightarrow> int" where
  "eff k t = (case threads k t of Some th \<Rightarrow> effective_priority th | None \<Rightarrow> 0)"

definition thread_priority_comparator :: "kernel \<Rightarrow> addr \<Rightarrow> addr \<Rightarrow> bool" where
  "thread_priority_comparator k ta tb \<longleftrightarrow> eff k ta > eff k tb"

text \<open>What \<open>list_insert_ordered\<close> does with the sequence of elements.\<close>

definition insert_ordered :: "('a \<Rightarrow> 'a \<Rightarrow> bool) \<Rightarrow> 'a \<Rightarrow> 'a list \<Rightarrow> 'a list" where
  "insert_ordered lss e xs =
     takeWhile (\<lambda>x. \<not> lss e x) xs @ e # dropWhile (\<lambda>x. \<not> lss e x) xs"

definition thread_enqueue :: "addr \<Rightarrow> kernel \<Rightarrow> kernel option" where
  "thread_enqueue t k = do {
     ASSERT (is_thread t k);
     case active_sched_policy k of
       SCHED_FIFO \<Rightarrow> Some (k\<lparr>fifo_ready_list := fifo_ready_list k @ [t]\<rparr>)
     | SCHED_PRIO \<Rightarrow> Some (k\<lparr>priority_queue :=
           insert_ordered (thread_priority_comparator k) t (priority_queue k)\<rparr>)
     | _ \<Rightarrow> None }"

definition thread_schedule_fifo :: "kernel \<Rightarrow> addr \<times> kernel" where
  "thread_schedule_fifo k = (case fifo_ready_list k of
       t # ts \<Rightarrow> (t, k\<lparr>fifo_ready_list := ts\<rparr>) | [] \<Rightarrow> (idle_thread k, k))"

definition thread_schedule_prio :: "kernel \<Rightarrow> addr \<times> kernel" where
  "thread_schedule_prio k = (case priority_queue k of
       t # ts \<Rightarrow> (t, k\<lparr>priority_queue := ts\<rparr>) | [] \<Rightarrow> (idle_thread k, k))"

definition next_thread_to_run :: "kernel \<Rightarrow> (addr \<times> kernel) option" where
  "next_thread_to_run k = (case active_sched_policy k of
       SCHED_FIFO \<Rightarrow> Some (thread_schedule_fifo k)
     | SCHED_PRIO \<Rightarrow> Some (thread_schedule_prio k)
     | SCHED_FAIR \<Rightarrow> None
     | SCHED_MLFQS \<Rightarrow> None)"

text \<open>\<open>list_remove(&t->elem)\<close> of a ready thread takes it off the queue it is on.  On a thread that is on
  no ready queue the call would write through stale links; the model stops there.\<close>

definition unlink_ready :: "addr \<Rightarrow> kernel \<Rightarrow> kernel option" where
  "unlink_ready t k =
     (if t \<in> set (priority_queue k) then Some (k\<lparr>priority_queue := remove1 t (priority_queue k)\<rparr>)
      else if t \<in> set (fifo_ready_list k) then Some (k\<lparr>fifo_ready_list := remove1 t (fifo_ready_list k)\<rparr>)
      else None)"

definition requeue :: "addr \<Rightarrow> kernel \<Rightarrow> kernel option" where
  "requeue t k = do {
     k \<leftarrow> unlink_ready t k;
     Some (k\<lparr>priority_queue := insert_ordered (thread_priority_comparator k) t (priority_queue k)\<rparr>) }"

section \<open>Context switch\<close>

definition thread_switch_tail :: "addr \<Rightarrow> kernel \<Rightarrow> kernel option" where
  "thread_switch_tail prev k = do {
     let cur = running_thread k;
     k \<leftarrow> upd_thread cur (\<lambda>th. th\<lparr>status := THREAD_RUNNING\<rparr>) k;
     let k = k\<lparr>thread_ticks := 0\<rparr>;
     if prev \<noteq> NULL then do {
       p \<leftarrow> threads k prev;
       if status p = THREAD_DYING \<and> prev \<noteq> initial_thread k then do {
         ASSERT (prev \<noteq> cur);
         Some (k\<lparr>threads := (threads k)(prev := None)\<rparr>) }
       else Some k }
     else Some k }"

text \<open>\<open>switch_threads\<close> (assembly) saves \<open>cur\<close>, makes \<open>nxt\<close> the running thread and returns \<open>cur\<close> to it.\<close>

definition schedule :: "kernel \<Rightarrow> kernel option" where
  "schedule k = do {
     let cur = running_thread k;
     (nxt, k) \<leftarrow> next_thread_to_run k;
     c \<leftarrow> threads k cur;
     ASSERT (status c \<noteq> THREAD_RUNNING);
     ASSERT (is_thread nxt k);
     if cur \<noteq> nxt then thread_switch_tail cur (k\<lparr>current := nxt\<rparr>)
     else thread_switch_tail NULL k }"

definition thread_block :: "kernel \<Rightarrow> kernel option" where
  "thread_block k = do {
     ASSERT (\<not> intr_context k);
     t \<leftarrow> thread_current k;
     k \<leftarrow> upd_thread t (\<lambda>th. th\<lparr>status := THREAD_BLOCKED\<rparr>) k;
     schedule k }"

definition thread_unblock :: "addr \<Rightarrow> kernel \<Rightarrow> kernel option" where
  "thread_unblock t k = do {
     ASSERT (is_thread t k);
     th \<leftarrow> threads k t;
     ASSERT (status th = THREAD_BLOCKED);
     k \<leftarrow> thread_enqueue t k;
     upd_thread t (\<lambda>th. th\<lparr>status := THREAD_READY\<rparr>) k }"

definition thread_yield :: "kernel \<Rightarrow> kernel option" where
  "thread_yield k = do {
     cur \<leftarrow> thread_current k;
     ASSERT (\<not> intr_context k);
     k \<leftarrow> (if cur \<noteq> idle_thread k then thread_enqueue cur k else Some k);
     k \<leftarrow> upd_thread cur (\<lambda>th. th\<lparr>status := THREAD_READY\<rparr>) k;
     schedule k }"

definition thread_exit :: "kernel \<Rightarrow> kernel option" where
  "thread_exit k = do {
     ASSERT (\<not> intr_context k);
     t \<leftarrow> thread_current k;
     let k = k\<lparr>all_list := remove1 t (all_list k)\<rparr>;
     k \<leftarrow> upd_thread t (\<lambda>th. th\<lparr>status := THREAD_DYING\<rparr>) k;
     schedule k }"

section \<open>Priorities and donation\<close>

partial_function (option) recurse_donate_loop :: "addr \<Rightarrow> kernel \<Rightarrow> kernel option" where
  "recurse_donate_loop cur k = do {
     c \<leftarrow> threads k cur;
     if donated_to c \<noteq> NULL then do {
       h \<leftarrow> holders k (donated_to c);
       if h \<noteq> NULL then do {
         n \<leftarrow> threads k h;
         if effective_priority n < effective_priority c then do {
           k \<leftarrow> upd_thread h (\<lambda>th. th\<lparr>effective_priority := effective_priority c\<rparr>) k;
           k \<leftarrow> (if status n = THREAD_READY then requeue h k else Some k);
           recurse_donate_loop h k }
         else Some k }
       else Some k }
     else Some k }"

declare recurse_donate_loop.simps [code]

definition recurse_donate :: "addr \<Rightarrow> kernel \<Rightarrow> kernel option" where
  "recurse_donate t k = recurse_donate_loop t k"

text \<open>The loop over the locks a thread holds.  The inner statement of the source is written with the
  keyword \<open>for\<close> and a single expression, which is no C statement; it is read as the \<open>if\<close> it stands for:
  it looks at the front waiter of the lock.\<close>

primrec max_donation :: "kernel \<Rightarrow> addr list \<Rightarrow> int \<Rightarrow> int option" where
  "max_donation k [] max_priority = Some max_priority"
| "max_donation k (l # ls) max_priority = do {
     s \<leftarrow> semas k (lock_sema l);
     case waiters s of
       [] \<Rightarrow> max_donation k ls max_priority
     | highest_waiter # _ \<Rightarrow> do {
         w \<leftarrow> threads k highest_waiter;
         max_donation k ls (if effective_priority w > max_priority then effective_priority w
                            else max_priority) } }"

definition update_priority :: "addr \<Rightarrow> kernel \<Rightarrow> kernel option" where
  "update_priority t k = do {
     ASSERT (t \<noteq> NULL);
     th \<leftarrow> threads k t;
     max_priority \<leftarrow> max_donation k (donated_locks th) (priority th);
     k \<leftarrow> upd_thread t (\<lambda>th. th\<lparr>effective_priority := max_priority\<rparr>) k;
     if status th = THREAD_READY then requeue t k else Some k }"

text \<open>The statement \<open>thread_yield;\<close> inside \<open>thread_set_priority\<close> names the function without calling it.\<close>

definition thread_set_priority :: "int \<Rightarrow> kernel \<Rightarrow> kernel option" where
  "thread_set_priority new_priority k = do {
     cur \<leftarrow> thread_current k;
     k \<leftarrow> upd_thread cur (\<lambda>th. th\<lparr>priority := new_priority, effective_priority := new_priority\<rparr>) k;
     update_priority cur k }"

definition thread_get_priority :: "kernel \<Rightarrow> int option" where
  "thread_get_priority k = do { t \<leftarrow> thread_current k; th \<leftarrow> threads k t; Some (priority th) }"

section \<open>New threads\<close>

text \<open>\<open>memset\<close>, the fields and the list of all threads; \<open>t\<close> is a fresh page.\<close>

definition init_thread :: "addr \<Rightarrow> int \<Rightarrow> kernel \<Rightarrow> kernel option" where
  "init_thread t pri k = do {
     ASSERT (t \<noteq> NULL);
     ASSERT (PRI_MIN \<le> pri \<and> pri \<le> PRI_MAX);
     Some (k\<lparr>threads := (threads k)(t \<mapsto>
         \<lparr>tid = 0, status = THREAD_BLOCKED, priority = pri, effective_priority = pri,
          wake_time = 0, donated_to = NULL, donated_locks = [], has_pcb = False\<rparr>),
       all_list := all_list k @ [t]\<rparr>) }"

section \<open>Timer interrupt\<close>

text \<open>The three parts of \<open>thread_tick\<close>: statistics, preemption by a more urgent ready thread, and the
  end of the time slice.\<close>

definition tick_stats :: "addr \<Rightarrow> thread \<Rightarrow> kernel \<Rightarrow> kernel" where
  "tick_stats t th k = (if t = idle_thread k then k\<lparr>idle_ticks := idle_ticks k + 1\<rparr>
     else if has_pcb th then k\<lparr>user_ticks := user_ticks k + 1\<rparr>
     else k\<lparr>kernel_ticks := kernel_ticks k + 1\<rparr>)"

definition tick_preempt :: "addr \<Rightarrow> kernel \<Rightarrow> kernel option" where
  "tick_preempt t k =
     (if active_sched_policy k = SCHED_PRIO \<and> priority_queue k \<noteq> []
         \<and> eff k (hd (priority_queue k)) > eff k t
      then intr_yield_on_return k else Some k)"

definition tick_slice :: "kernel \<Rightarrow> kernel option" where
  "tick_slice k = (let k = k\<lparr>thread_ticks := thread_ticks k + 1\<rparr> in
     if thread_ticks k \<ge> TIME_SLICE then intr_yield_on_return k else Some k)"

definition thread_tick :: "kernel \<Rightarrow> kernel option" where
  "thread_tick k = do {
     t \<leftarrow> thread_current k;
     th \<leftarrow> threads k t;
     k \<leftarrow> tick_preempt t (tick_stats t th k);
     tick_slice k }"

primrec wake_sleepers :: "addr list \<Rightarrow> kernel \<Rightarrow> kernel option" where
  "wake_sleepers [] k = Some (k\<lparr>sleeping_list := []\<rparr>)"
| "wake_sleepers (t # ts) k = do {
     th \<leftarrow> threads k t;
     if wake_time th \<le> ticks k then do {
       k \<leftarrow> thread_unblock t (k\<lparr>sleeping_list := ts\<rparr>);
       wake_sleepers ts k }
     else Some (k\<lparr>sleeping_list := t # ts\<rparr>) }"

definition timer_interrupt :: "kernel \<Rightarrow> kernel option" where
  "timer_interrupt k = do {
     let k = k\<lparr>ticks := ticks k + 1\<rparr>;
     k \<leftarrow> wake_sleepers (sleeping_list k) k;
     thread_tick k }"

definition wake :: "kernel \<Rightarrow> addr \<Rightarrow> int" where
  "wake k t = (case threads k t of Some th \<Rightarrow> wake_time th | None \<Rightarrow> 0)"

definition wake_time_comparator :: "kernel \<Rightarrow> addr \<Rightarrow> addr \<Rightarrow> bool" where
  "wake_time_comparator k ta tb \<longleftrightarrow> wake k ta < wake k tb"

text \<open>\<open>timer_sleep\<close> in two parts, because interrupts are on until the second one begins: the wake-up time,
  whose sum wraps as a 64-bit integer does, and the place in the list and the context switch.\<close>

definition int64 :: "int \<Rightarrow> int" where
  "int64 x = (x + 2 ^ 63) mod 2 ^ 64 - 2 ^ 63"

definition set_alarm :: "int \<Rightarrow> kernel \<Rightarrow> kernel option" where
  "set_alarm tks k = do {
     t \<leftarrow> thread_current k;
     upd_thread t (\<lambda>th. th\<lparr>wake_time := int64 (ticks k + tks)\<rparr>) k }"

definition fall_asleep :: "kernel \<Rightarrow> kernel option" where
  "fall_asleep k =
     thread_block (k\<lparr>sleeping_list := insert_ordered (wake_time_comparator k) (running_thread k) (sleeping_list k)\<rparr>)"

text \<open>\<open>intr_handler\<close> for the timer's vector: an external interrupt.\<close>

definition intr_handler_timer :: "kernel \<Rightarrow> kernel option" where
  "intr_handler_timer k = do {
     ASSERT (\<not> intr_context k);
     k \<leftarrow> timer_interrupt (k\<lparr>in_external_intr := True, yield_on_return := False\<rparr>);
     ASSERT (intr_context k);
     let k = k\<lparr>in_external_intr := False\<rparr>;
     if yield_on_return k then thread_yield k else Some k }"

end
