(* ===== verification/SchedInv.thy ===== *)
theory SchedInv
  imports Sched
begin

text \<open>
  The invariant of the strict-priority scheduler of theory Sched: the ready queue holds each ready
  thread once, in descending effective priority, and exactly one thread runs.  Every context switch,
  block, unblock, yield and exit keeps it and takes the most urgent thread.
\<close>

section \<open>Sequences in priority order\<close>

definition prio_sorted :: "('a \<Rightarrow> int) \<Rightarrow> 'a list \<Rightarrow> bool" where
  "prio_sorted f xs \<longleftrightarrow> sorted_wrt (\<lambda>a b. f b \<le> f a) xs"

lemma prio_sorted_simps [simp]: "prio_sorted f []"
  "prio_sorted f (x # xs) \<longleftrightarrow> (\<forall>y \<in> set xs. f y \<le> f x) \<and> prio_sorted f xs"
  by (simp_all add: prio_sorted_def)

lemma prio_sorted_append: "prio_sorted f (xs @ ys) \<longleftrightarrow>
    prio_sorted f xs \<and> prio_sorted f ys \<and> (\<forall>x \<in> set xs. \<forall>y \<in> set ys. f y \<le> f x)"
  by (simp add: prio_sorted_def sorted_wrt_append)

lemma prio_sorted_cong: "(\<And>x. x \<in> set xs \<Longrightarrow> f x = g x) \<Longrightarrow> prio_sorted f xs \<longleftrightarrow> prio_sorted g xs"
  by (induction xs) auto

lemma prio_sorted_remove1: "prio_sorted f xs \<Longrightarrow> prio_sorted f (remove1 a xs)"
  by (induction xs) (auto dest: notin_set_remove1[THEN contrapos_pn] in_set_remove1[THEN iffD1]
      dest: set_remove1_subset[THEN subsetD])

lemma set_insert_ordered [simp]: "set (insert_ordered lss e xs) = insert e (set xs)"
  unfolding insert_ordered_def by (metis Un_insert_right set_append takeWhile_dropWhile_id list.simps(15))

lemma mset_insert_ordered [simp]: "mset (insert_ordered lss e xs) = add_mset e (mset xs)"
  unfolding insert_ordered_def by (metis add_mset_add_single mset.simps(2) mset_append
      takeWhile_dropWhile_id union_mset_add_mset_right)

lemma distinct_insert_ordered [simp]: "distinct (insert_ordered lss e xs) \<longleftrightarrow> e \<notin> set xs \<and> distinct xs"
  by (metis distinct.simps(2) mset.simps(2) mset_eq_imp_distinct_iff mset_insert_ordered)

lemma insert_ordered_prio:
  assumes "prio_sorted f xs" "\<And>x. lss e x \<longleftrightarrow> f e > f x"
  shows "prio_sorted f (insert_ordered lss e xs)"
  using assms(1) unfolding insert_ordered_def assms(2)
  by (induction xs) (auto dest!: set_takeWhileD set_dropWhileD intro: order_trans)

text \<open>The sequence operation is what list.c computes in memory.\<close>

lemma insert_ordered_list_c:
  assumes "dll h l xs" "e \<noteq> NULL" "h e \<noteq> None" "e \<notin> set (k_head l # xs @ [k_tail l])"
  shows "\<exists>h'. list_insert_ordered h l e lss = Some h' \<and> dll h' l (insert_ordered lss e xs)"
  using list_insert_ordered_dll[OF assms] by (simp add: insert_ordered_def)

section \<open>Invariant of the priority scheduler\<close>

definition st :: "kernel \<Rightarrow> addr \<Rightarrow> thread_status option" where
  "st k t = map_option status (threads k t)"

definition queue_inv :: "kernel \<Rightarrow> bool" where
  "queue_inv k \<longleftrightarrow> active_sched_policy k = SCHED_PRIO \<and> fifo_ready_list k = []
     \<and> distinct (priority_queue k) \<and> prio_sorted (eff k) (priority_queue k)
     \<and> (\<forall>t. st k t = Some THREAD_READY \<longrightarrow> t \<in> set (priority_queue k) \<or> t = idle_thread k)
     \<and> (\<forall>t \<in> set (priority_queue k). st k t = Some THREAD_READY)
     \<and> idle_thread k \<notin> set (priority_queue k)
     \<and> st k (idle_thread k) \<notin> {None, Some THREAD_DYING} \<and> st k NULL = None"

definition sched_inv :: "kernel \<Rightarrow> bool" where
  "sched_inv k \<longleftrightarrow> queue_inv k \<and> (\<forall>t. st k t = Some THREAD_RUNNING \<longleftrightarrow> t = current k)"

lemma st_Some: "st k t = Some s \<longleftrightarrow> (\<exists>th. threads k t = Some th \<and> status th = s)"
  by (auto simp: st_def)

lemma is_thread_st: "st k NULL = None \<Longrightarrow> is_thread t k \<longleftrightarrow> st k t \<noteq> None"
  by (cases "t = 0") (auto simp: is_thread_def st_def)

lemma st_nonnull: "st k t \<noteq> None \<Longrightarrow> st k NULL = None \<Longrightarrow> t \<noteq> NULL"
  by (cases "t = 0") auto

text \<open>Changes that leave the scheduler's view of the state alone.\<close>

definition same_sched :: "kernel \<Rightarrow> kernel \<Rightarrow> bool" where
  "same_sched k k' \<longleftrightarrow> st k' = st k \<and> eff k' = eff k \<and> priority_queue k' = priority_queue k
     \<and> fifo_ready_list k' = fifo_ready_list k \<and> idle_thread k' = idle_thread k
     \<and> current k' = current k \<and> active_sched_policy k' = active_sched_policy k"

lemma same_sched_inv: "same_sched k k' \<Longrightarrow> sched_inv k \<Longrightarrow> sched_inv k'"
  by (simp add: same_sched_def sched_inv_def queue_inv_def)

lemma thread_current_inv:
  assumes "sched_inv k" shows "thread_current k = Some (current k)"
proof -
  have "st k (current k) = Some THREAD_RUNNING" "st k NULL = None"
    using assms unfolding sched_inv_def queue_inv_def by auto
  then show ?thesis
    by (cases "current k = 0") (auto simp: thread_current_def running_thread_def is_thread_def st_def)
qed

lemma sched_inv_current: "sched_inv k \<Longrightarrow> st k (current k) = Some THREAD_RUNNING"
  by (simp add: sched_inv_def)

lemma st_upd: "st (k\<lparr>threads := (threads k)(t \<mapsto> th)\<rparr>) = (st k)(t \<mapsto> status th)"
  by (auto simp: st_def)

lemma eff_upd: "eff (k\<lparr>threads := (threads k)(t \<mapsto> th)\<rparr>) = (eff k)(t := effective_priority th)"
  by (auto simp: eff_def)

lemma st_other [simp]:
  "st (k\<lparr>holders := x0\<rparr>) = st k"
  "st (k\<lparr>semas := x1\<rparr>) = st k"
  "st (k\<lparr>conds := x2\<rparr>) = st k"
  "st (k\<lparr>rw_locks := y0\<rparr>) = st k"
  "st (k\<lparr>fifo_ready_list := x3\<rparr>) = st k"
  "st (k\<lparr>priority_queue := x4\<rparr>) = st k"
  "st (k\<lparr>all_list := x5\<rparr>) = st k"
  "st (k\<lparr>sleeping_list := x6\<rparr>) = st k"
  "st (k\<lparr>current := x7\<rparr>) = st k"
  "st (k\<lparr>in_external_intr := x8\<rparr>) = st k"
  "st (k\<lparr>yield_on_return := x9\<rparr>) = st k"
  "st (k\<lparr>ticks := x10\<rparr>) = st k"
  "st (k\<lparr>thread_ticks := x11\<rparr>) = st k"
  "st (k\<lparr>idle_ticks := x12\<rparr>) = st k"
  "st (k\<lparr>kernel_ticks := x13\<rparr>) = st k"
  "st (k\<lparr>user_ticks := x14\<rparr>) = st k"
  "st (k\<lparr>next_tid := x15\<rparr>) = st k"
  by (simp_all add: st_def fun_eq_iff)

lemma eff_other [simp]:
  "eff (k\<lparr>holders := x0\<rparr>) = eff k"
  "eff (k\<lparr>semas := x1\<rparr>) = eff k"
  "eff (k\<lparr>conds := x2\<rparr>) = eff k"
  "eff (k\<lparr>rw_locks := y0\<rparr>) = eff k"
  "eff (k\<lparr>fifo_ready_list := x3\<rparr>) = eff k"
  "eff (k\<lparr>priority_queue := x4\<rparr>) = eff k"
  "eff (k\<lparr>all_list := x5\<rparr>) = eff k"
  "eff (k\<lparr>sleeping_list := x6\<rparr>) = eff k"
  "eff (k\<lparr>current := x7\<rparr>) = eff k"
  "eff (k\<lparr>in_external_intr := x8\<rparr>) = eff k"
  "eff (k\<lparr>yield_on_return := x9\<rparr>) = eff k"
  "eff (k\<lparr>ticks := x10\<rparr>) = eff k"
  "eff (k\<lparr>thread_ticks := x11\<rparr>) = eff k"
  "eff (k\<lparr>idle_ticks := x12\<rparr>) = eff k"
  "eff (k\<lparr>kernel_ticks := x13\<rparr>) = eff k"
  "eff (k\<lparr>user_ticks := x14\<rparr>) = eff k"
  "eff (k\<lparr>next_tid := x15\<rparr>) = eff k"
  by (simp_all add: eff_def fun_eq_iff)

text \<open>The thread chosen, and the whole state after the switch to it.\<close>

definition chosen :: "kernel \<Rightarrow> addr" where
  "chosen k = (case priority_queue k of [] \<Rightarrow> idle_thread k | t # _ \<Rightarrow> t)"

definition switched :: "kernel \<Rightarrow> kernel" where
  "switched k = k\<lparr>priority_queue := tl (priority_queue k), current := chosen k, thread_ticks := 0,
     threads := (let ths = (threads k)(chosen k := map_option (\<lambda>th. th\<lparr>status := THREAD_RUNNING\<rparr>) (threads k (chosen k)))
       in if st k (current k) = Some THREAD_DYING \<and> current k \<noteq> initial_thread k
          then ths(current k := None) else ths)\<rparr>"

lemma schedule_switched:
  assumes "queue_inv k" "st k (current k) \<noteq> None" "\<And>t. st k t \<noteq> Some THREAD_RUNNING"
    "st k (chosen k) \<noteq> Some THREAD_DYING"
  shows "schedule k = Some (switched k)"
proof -
  obtain c where c1: "threads k (current k) = Some c"
    using assms(2) unfolding st_def by (cases "threads k (current k)") simp_all
  have c2: "status c \<noteq> THREAD_RUNNING" using assms(3)[of "current k"] c1 by (simp add: st_def)
  note c = c1 c2
  have rq: "\<forall>t \<in> set (priority_queue k). st k t = Some THREAD_READY"
    and id: "st k (idle_thread k) \<noteq> None" and nul: "st k NULL = None"
    and pol: "active_sched_policy k = SCHED_PRIO"
    using assms(1) unfolding queue_inv_def by simp_all
  have ch: "st k (chosen k) \<noteq> None"
    using rq id unfolding chosen_def by (cases "priority_queue k") auto
  then have chn: "chosen k \<noteq> NULL" using nul by (rule st_nonnull)
  obtain n where n: "threads k (chosen k) = Some n" using ch by (auto simp: st_def)
  have nd: "status n \<noteq> THREAD_DYING" using assms(4) n by (simp add: st_def)
  have nx: "next_thread_to_run k = Some (chosen k, k\<lparr>priority_queue := tl (priority_queue k)\<rparr>)"
    unfolding next_thread_to_run_def thread_schedule_prio_def chosen_def pol
    by (cases "priority_queue k") simp_all
  have cn: "current k \<noteq> NULL" using assms(2) nul by (rule st_nonnull)
  have cs: "st k (current k) = Some THREAD_DYING \<longleftrightarrow> status c = THREAD_DYING" using c by (simp add: st_def)
  show ?thesis
  proof (cases "current k = chosen k")
    case True
    then have "schedule k = Some (k\<lparr>priority_queue := tl (priority_queue k),
        threads := (threads k)(chosen k \<mapsto> c\<lparr>status := THREAD_RUNNING\<rparr>), thread_ticks := 0\<rparr>)"
      using c chn by (simp add: schedule_def nx running_thread_def is_thread_def thread_switch_tail_def
        upd_thread_def)
    also have "\<dots> = Some (switched k)"
      using True c n nd assms(4) by (simp add: switched_def Let_def)
    finally show ?thesis .
  next
    case False
    then show ?thesis using c n nd cn chn
      by (simp add: schedule_def nx running_thread_def is_thread_def thread_switch_tail_def upd_thread_def
        switched_def cs Let_def)
  qed
qed

lemma st_switched:
  assumes "st k (chosen k) \<noteq> None"
  shows "st (switched k) = (let s = (st k)(chosen k \<mapsto> THREAD_RUNNING)
     in if st k (current k) = Some THREAD_DYING \<and> current k \<noteq> initial_thread k
        then s(current k := None) else s)"
proof -
  obtain n where "threads k (chosen k) = Some n"
    using assms unfolding st_def by (cases "threads k (chosen k)") simp_all
  then show ?thesis by (auto simp: st_def switched_def Let_def fun_eq_iff)
qed

lemma eff_switched:
  assumes "st k t \<noteq> Some THREAD_DYING"
  shows "eff (switched k) t = eff k t"
  using assms by (auto simp: eff_def switched_def Let_def split: option.splits)

lemma switched_inv:
  assumes q: "queue_inv k" and c: "st k (current k) \<noteq> None"
    and nr: "\<And>t. st k t \<noteq> Some THREAD_RUNNING"
  shows "sched_inv (switched k)"
proof -
  have rq: "\<forall>t \<in> set (priority_queue k). st k t = Some THREAD_READY"
    and rdy: "\<And>t. st k t = Some THREAD_READY \<Longrightarrow> t \<in> set (priority_queue k) \<or> t = idle_thread k"
    and id: "st k (idle_thread k) \<noteq> None" "st k (idle_thread k) \<noteq> Some THREAD_DYING"
    and idq: "idle_thread k \<notin> set (priority_queue k)" and nul: "st k NULL = None"
    and dist: "distinct (priority_queue k)" and srt: "prio_sorted (eff k) (priority_queue k)"
    and pol: "active_sched_policy k = SCHED_PRIO" "fifo_ready_list k = []"
    using q unfolding queue_inv_def by simp_all
  have ch: "st k (chosen k) \<noteq> None" "st k (chosen k) \<noteq> Some THREAD_DYING"
    using rq id unfolding chosen_def by (cases "priority_queue k"; simp)+
  have q': "priority_queue (switched k) = tl (priority_queue k)" "current (switched k) = chosen k"
    "idle_thread (switched k) = idle_thread k" "active_sched_policy (switched k) = SCHED_PRIO"
    "fifo_ready_list (switched k) = []"
    by (simp_all add: switched_def pol)
  have tlq: "t \<in> set (priority_queue k) \<and> t \<noteq> chosen k" if "t \<in> set (tl (priority_queue k))" for t
    using that dist unfolding chosen_def by (cases "priority_queue k") auto
  have rest: "t \<in> set (tl (priority_queue k))" if "t \<in> set (priority_queue k)" "t \<noteq> chosen k" for t
    using that unfolding chosen_def by (cases "priority_queue k") auto
  have s': "st (switched k) t = (if t = current k \<and> st k t = Some THREAD_DYING \<and> t \<noteq> initial_thread k then None
      else if t = chosen k then Some THREAD_RUNNING else st k t)" for t
    using st_switched[OF ch(1)] by (auto simp: Let_def)
  have tlst: "st k t = Some THREAD_READY" "t \<noteq> chosen k" if "t \<in> set (tl (priority_queue k))" for t
    using tlq[OF that] rq by auto
  have chd: "\<not> (chosen k = current k \<and> st k (chosen k) = Some THREAD_DYING \<and> chosen k \<noteq> initial_thread k)"
    using ch(2) by simp
  have srt': "prio_sorted (eff (switched k)) (tl (priority_queue k))"
  proof -
    have "prio_sorted (eff k) (tl (priority_queue k))" using srt by (cases "priority_queue k") auto
    moreover have "eff (switched k) t = eff k t" if "t \<in> set (tl (priority_queue k))" for t
      using eff_switched tlst(1)[OF that] by simp
    ultimately show ?thesis using prio_sorted_cong by metis
  qed
  have run: "st (switched k) t = Some THREAD_RUNNING \<longleftrightarrow> t = chosen k" for t
    using nr[of t] chd s'[of t] by auto
  have ready: "t \<in> set (tl (priority_queue k)) \<or> t = idle_thread k" if "st (switched k) t = Some THREAD_READY" for t
  proof -
    have "st k t = Some THREAD_READY" "t \<noteq> chosen k" using that s'[of t] by (auto split: if_splits)
    then show ?thesis using rdy rest by blast
  qed
  have idle': "st (switched k) (idle_thread k) \<notin> {None, Some THREAD_DYING}"
    using id s'[of "idle_thread k"] by auto
  have nul': "st (switched k) NULL = None"
    using nul s'[of 0] ch st_nonnull[OF ch(1) nul] by auto
  show ?thesis
    unfolding sched_inv_def queue_inv_def q'
    using srt' run ready idle' nul' dist idq tlq tlst s'
    by (auto simp: distinct_tl)
qed

text \<open>Strict priority: no ready thread is more urgent than the one the processor is given to.\<close>

lemma chosen_max:
  assumes "queue_inv k" "st k t = Some THREAD_READY" "t \<noteq> idle_thread k"
  shows "eff k t \<le> eff k (chosen k) \<and> chosen k \<in> set (priority_queue k)"
proof -
  have "t \<in> set (priority_queue k)" "prio_sorted (eff k) (priority_queue k)"
    using assms unfolding queue_inv_def by auto
  then show ?thesis unfolding chosen_def by (cases "priority_queue k") auto
qed

section \<open>Blocking, unblocking, yielding\<close>

text \<open>The running thread gives up the processor with its status already changed.\<close>

definition with_status :: "addr \<Rightarrow> thread_status \<Rightarrow> kernel \<Rightarrow> kernel" where
  "with_status t s k = k\<lparr>threads := (threads k)(t := map_option (\<lambda>th. th\<lparr>status := s\<rparr>) (threads k t))\<rparr>"

lemma st_with_status: "st k t \<noteq> None \<Longrightarrow> st (with_status t s k) = (st k)(t \<mapsto> s)"
  by (auto simp: st_def with_status_def fun_eq_iff)

lemma eff_with_status [simp]: "eff (with_status t s k) = eff k"
  by (auto simp: eff_def with_status_def fun_eq_iff split: option.splits)

lemma with_status_sel [simp]:
  "priority_queue (with_status t s k) = priority_queue k" "current (with_status t s k) = current k"
  "idle_thread (with_status t s k) = idle_thread k" "fifo_ready_list (with_status t s k) = fifo_ready_list k"
  "active_sched_policy (with_status t s k) = active_sched_policy k"
  "initial_thread (with_status t s k) = initial_thread k"
  by (simp_all add: with_status_def)

lemma upd_status: "st k t \<noteq> None \<Longrightarrow> upd_thread t (\<lambda>th. th\<lparr>status := s\<rparr>) k = Some (with_status t s k)"
  by (auto simp: upd_thread_def with_status_def st_def)

lemma queue_inv_status:
  assumes "queue_inv k" "st k' = (st k)(t \<mapsto> s)" "eff k' = eff k" "priority_queue k' = priority_queue k"
    "fifo_ready_list k' = fifo_ready_list k" "idle_thread k' = idle_thread k"
    "active_sched_policy k' = active_sched_policy k"
    "st k t \<noteq> Some THREAD_READY" "s = THREAD_READY \<Longrightarrow> t = idle_thread k"
    "s = THREAD_DYING \<Longrightarrow> t \<noteq> idle_thread k" "t \<noteq> NULL"
  shows "queue_inv k'"
proof -
  note q = assms(1)[unfolded queue_inv_def]
  have nt: "t \<notin> set (priority_queue k)" using q assms(8) by blast
  have "\<forall>u. ((st k)(t \<mapsto> s)) u = Some THREAD_READY \<longrightarrow> u \<in> set (priority_queue k) \<or> u = idle_thread k"
    using q assms(9) by (metis fun_upd_apply option.inject)
  moreover have "\<forall>u \<in> set (priority_queue k). ((st k)(t \<mapsto> s)) u = Some THREAD_READY"
    using q nt by auto
  moreover have "((st k)(t \<mapsto> s)) (idle_thread k) \<notin> {None, Some THREAD_DYING}"
    using q assms(10) by (simp add: fun_upd_apply) metis
  moreover have "((st k)(t \<mapsto> s)) NULL = None" using q assms(11) by simp
  ultimately show ?thesis unfolding queue_inv_def assms(2-7) using q by blast
qed

lemma stop_running:
  assumes "sched_inv k" "s \<noteq> THREAD_RUNNING" "s \<noteq> THREAD_READY \<or> current k = idle_thread k"
    "s \<noteq> THREAD_DYING \<or> current k \<noteq> idle_thread k"
  shows "queue_inv (with_status (current k) s k)"
    "st (with_status (current k) s k) (current k) \<noteq> None"
    "st (with_status (current k) s k) t \<noteq> Some THREAD_RUNNING"
proof -
  have c: "st k (current k) = Some THREAD_RUNNING" and q: "queue_inv k"
    using assms(1) by (auto simp: sched_inv_def)
  have w: "st (with_status (current k) s k) = (st k)(current k \<mapsto> s)"
    by (rule st_with_status) (simp add: c)
  have "st k NULL = None" using q by (simp add: queue_inv_def)
  then have cn: "current k \<noteq> NULL" using c st_nonnull[of k "current k"] by simp
  show "queue_inv (with_status (current k) s k)"
    by (rule queue_inv_status[OF q, of _ "current k" s]) (use assms(3,4) c cn w in auto)
  show "st (with_status (current k) s k) (current k) \<noteq> None" by (simp add: w)
  show "st (with_status (current k) s k) t \<noteq> Some THREAD_RUNNING"
    using assms(1,2) by (simp add: w sched_inv_def)
qed

lemma chosen_alive:
  assumes "queue_inv k" shows "st k (chosen k) \<noteq> Some THREAD_DYING" "st k (chosen k) \<noteq> None"
  using assms unfolding queue_inv_def chosen_def by (cases "priority_queue k"; auto)+

lemma thread_block_inv:
  assumes "sched_inv k" "\<not> intr_context k"
  shows "\<exists>k'. thread_block k = Some k' \<and> k' = switched (with_status (current k) THREAD_BLOCKED k) \<and> sched_inv k'"
proof -
  note s = stop_running[OF assms(1), of THREAD_BLOCKED, simplified]
  have "st k (current k) \<noteq> None" using sched_inv_current[OF assms(1)] by simp
  then show ?thesis
    using schedule_switched[OF s(1) _ s(3) chosen_alive(1)[OF s(1)]] switched_inv[OF s(1) _ s(3)] s(2) assms
    by (simp add: thread_block_def thread_current_inv upd_status)
qed

lemma thread_exit_inv:
  assumes "sched_inv k" "\<not> intr_context k" "current k \<noteq> idle_thread k"
  shows "\<exists>k'. thread_exit k = Some k' \<and> sched_inv k'"
proof -
  define k1 where "k1 = k\<lparr>all_list := remove1 (current k) (all_list k)\<rparr>"
  have k1: "sched_inv k1" "current k1 = current k" "idle_thread k1 = idle_thread k"
    using assms(1) same_sched_inv[of k k1] by (simp_all add: same_sched_def k1_def)
  note s = stop_running[OF k1(1), of THREAD_DYING, unfolded k1(2,3), simplified, OF assms(3)]
  have "st k1 (current k) \<noteq> None" using sched_inv_current[OF k1(1)] k1(2) by simp
  then show ?thesis
    using schedule_switched[OF s(1) _ s(3) chosen_alive(1)[OF s(1)]] switched_inv[OF s(1) _ s(3)] s(2) assms k1
    by (simp add: thread_exit_def thread_current_inv upd_status flip: k1_def)
qed


text \<open>A thread that is not ready is put on the ready queue.\<close>

definition make_ready :: "addr \<Rightarrow> kernel \<Rightarrow> kernel" where
  "make_ready t k = with_status t THREAD_READY
     (k\<lparr>priority_queue := insert_ordered (thread_priority_comparator k) t (priority_queue k)\<rparr>)"

lemma make_ready_sel [simp]:
  "priority_queue (make_ready t k) = insert_ordered (thread_priority_comparator k) t (priority_queue k)"
  "current (make_ready t k) = current k" "idle_thread (make_ready t k) = idle_thread k"
  "active_sched_policy (make_ready t k) = active_sched_policy k"
  "eff (make_ready t k) = eff k" "in_external_intr (make_ready t k) = in_external_intr k"
  by (simp_all add: make_ready_def) (simp add: with_status_def)

lemma st_make_ready: "st k t \<noteq> None \<Longrightarrow> st (make_ready t k) = (st k)(t \<mapsto> THREAD_READY)"
  unfolding make_ready_def by (subst st_with_status) simp_all

lemma make_ready_queue_inv:
  assumes "queue_inv k" "st k t \<noteq> None" "st k t \<noteq> Some THREAD_READY" "t \<noteq> idle_thread k"
  shows "queue_inv (make_ready t k)"
proof -
  note q = assms(1)[unfolded queue_inv_def]
  have nt: "t \<notin> set (priority_queue k)" using q assms(3) by blast
  have t0: "t \<noteq> NULL" using assms(2) q st_nonnull by blast
  have "prio_sorted (eff k) (insert_ordered (thread_priority_comparator k) t (priority_queue k))"
    by (rule insert_ordered_prio) (use q in \<open>simp_all add: thread_priority_comparator_def\<close>)
  moreover have "\<forall>u. st (make_ready t k) u = Some THREAD_READY \<longrightarrow>
      u \<in> set (priority_queue (make_ready t k)) \<or> u = idle_thread k"
    using q by (simp add: st_make_ready[OF assms(2)])
  moreover have "\<forall>u \<in> set (priority_queue (make_ready t k)). st (make_ready t k) u = Some THREAD_READY"
    using q by (simp add: st_make_ready[OF assms(2)])
  ultimately show ?thesis
    unfolding queue_inv_def using q nt assms(4) t0
    by (simp add: st_make_ready[OF assms(2)]) (simp add: make_ready_def with_status_def)
qed

lemma thread_enqueue_ready:
  assumes "queue_inv k" "st k t \<noteq> None"
  shows "thread_enqueue t k \<bind> upd_thread t (\<lambda>th. th\<lparr>status := THREAD_READY\<rparr>) = Some (make_ready t k)"
proof -
  have "is_thread t k" "active_sched_policy k = SCHED_PRIO"
    using assms is_thread_st[of k t] by (auto simp: queue_inv_def)
  then show ?thesis using assms(2) by (simp add: thread_enqueue_def make_ready_def upd_status)
qed

lemma thread_unblock_inv:
  assumes "sched_inv k" "st k t = Some THREAD_BLOCKED" "t \<noteq> idle_thread k"
  shows "thread_unblock t k = Some (make_ready t k)" "sched_inv (make_ready t k)"
proof -
  have q: "queue_inv k" using assms(1) by (simp add: sched_inv_def)
  obtain th where th: "threads k t = Some th" "status th = THREAD_BLOCKED"
    using assms(2) by (auto simp: st_Some)
  have "is_thread t k" using q assms(2) is_thread_st[of k t] by (simp add: queue_inv_def)
  then show "thread_unblock t k = Some (make_ready t k)"
    using thread_enqueue_ready[OF q, of t] assms(2) th by (simp add: thread_unblock_def)
  have "queue_inv (make_ready t k)" using make_ready_queue_inv[OF q] assms(2,3) by simp
  moreover have "t \<noteq> current k" using assms(1,2) sched_inv_current by fastforce
  ultimately show "sched_inv (make_ready t k)"
    using assms(1,2) unfolding sched_inv_def by (simp add: st_make_ready)
qed

text \<open>What \<open>thread_yield\<close> leaves to the scheduler.\<close>

definition stepped_down :: "kernel \<Rightarrow> kernel" where
  "stepped_down k = (if current k \<noteq> idle_thread k then make_ready (current k) k
                     else with_status (current k) THREAD_READY k)"

lemma stepped_down_inv:
  assumes "sched_inv k"
  shows "queue_inv (stepped_down k)" "st (stepped_down k) = (st k)(current k \<mapsto> THREAD_READY)"
    "eff (stepped_down k) = eff k" "current (stepped_down k) = current k"
    "idle_thread (stepped_down k) = idle_thread k"
proof -
  have q: "queue_inv k" and c: "st k (current k) = Some THREAD_RUNNING"
    using assms by (auto simp: sched_inv_def)
  show "queue_inv (stepped_down k)"
  proof (cases "current k = idle_thread k")
    case True
    then show ?thesis using stop_running(1)[OF assms, of THREAD_READY] by (simp add: stepped_down_def)
  next
    case False
    then show ?thesis using make_ready_queue_inv[OF q, of "current k"] c by (simp add: stepped_down_def)
  qed
  show "st (stepped_down k) = (st k)(current k \<mapsto> THREAD_READY)"
    using c st_with_status[of k "current k" THREAD_READY]
    by (auto simp: stepped_down_def st_make_ready)
qed (simp_all add: stepped_down_def)

lemma thread_yield_inv:
  assumes "sched_inv k" "\<not> intr_context k"
  shows "thread_yield k = Some (switched (stepped_down k))" "sched_inv (switched (stepped_down k))"
proof -
  note s = stepped_down_inv[OF assms(1)]
  have c: "st k (current k) \<noteq> None" using sched_inv_current[OF assms(1)] by simp
  have q: "queue_inv k" using assms(1) by (simp add: sched_inv_def)
  have alive: "st (stepped_down k) (current (stepped_down k)) \<noteq> None" by (simp add: s)
  have nr: "st (stepped_down k) t \<noteq> Some THREAD_RUNNING" for t
    using assms(1) by (simp add: s sched_inv_def)
  have "thread_yield k = (if current k \<noteq> idle_thread k then thread_enqueue (current k) k else Some k)
      \<bind> upd_thread (current k) (\<lambda>th. th\<lparr>status := THREAD_READY\<rparr>) \<bind> schedule"
    using assms by (simp add: thread_yield_def thread_current_inv)
  also have "\<dots> = schedule (stepped_down k)"
    using thread_enqueue_ready[OF q c] upd_status[OF c]
    by (cases "current k = idle_thread k") (simp_all add: stepped_down_def)
  finally have "thread_yield k = schedule (stepped_down k)" .
  then show "thread_yield k = Some (switched (stepped_down k))"
    using schedule_switched[OF s(1) alive nr chosen_alive(1)[OF s(1)]] by simp
  show "sched_inv (switched (stepped_down k))" by (rule switched_inv[OF s(1) alive nr])
qed

text \<open>After a yield the running thread is at least as urgent as every ready thread.\<close>

lemma thread_yield_strict:
  assumes "sched_inv k" "\<not> intr_context k" "thread_yield k = Some k'"
    "st k' t = Some THREAD_READY" "t \<noteq> idle_thread k"
  shows "eff k' t \<le> eff k' (current k')"
proof -
  let ?s = "stepped_down k"
  note s = stepped_down_inv[OF assms(1)]
  have k': "k' = switched ?s" using thread_yield_inv(1)[OF assms(1,2)] assms(3) by simp
  have nd: "st ?s t \<noteq> Some THREAD_DYING" "st ?s (current ?s) \<noteq> Some THREAD_DYING"
    "st ?s (chosen ?s) \<noteq> Some THREAD_DYING"
    using assms(4) st_switched[OF chosen_alive(2)[OF s(1)]] chosen_alive(1)[OF s(1)]
    by (auto simp: k' s Let_def split: if_splits)
  have "st ?s t = Some THREAD_READY"
    using assms(4) st_switched[OF chosen_alive(2)[OF s(1)]] nd(2)
    by (auto simp: k' Let_def split: if_splits)
  then have "eff ?s t \<le> eff ?s (chosen ?s)" using chosen_max[OF s(1)] assms(5) s(5) by simp
  moreover have "eff k' t = eff ?s t" "eff k' (chosen ?s) = eff ?s (chosen ?s)"
    unfolding k' by (rule eff_switched, rule nd)+
  moreover have "current k' = chosen ?s" by (simp add: k' switched_def)
  ultimately show ?thesis by simp
qed

end
