(* ===== verification/Donation.thy ===== *)
theory Donation
  imports SchedInv
begin

text \<open>
  Priority donation (\<open>recurse_donate\<close>, \<open>update_priority\<close>, \<open>thread_set_priority\<close> of threads/thread.c):
  the chain of donations ends, also on a cyclic chain, and afterwards no lock holder is less urgent
  than a thread that waits for its lock.
\<close>

section \<open>Raising a priority\<close>

definition with_eff :: "addr \<Rightarrow> int \<Rightarrow> kernel \<Rightarrow> kernel" where
  "with_eff t p k = k\<lparr>threads := (threads k)(t := map_option (\<lambda>th. th\<lparr>effective_priority := p\<rparr>) (threads k t))\<rparr>"

definition resorted :: "addr \<Rightarrow> int \<Rightarrow> kernel \<Rightarrow> kernel" where
  "resorted t p k = (let k1 = with_eff t p k in
     if st k t = Some THREAD_READY
     then k1\<lparr>priority_queue := insert_ordered (thread_priority_comparator k1) t (remove1 t (priority_queue k))\<rparr>
     else k1)"

lemma with_eff_sel [simp]:
  "priority_queue (with_eff t p k) = priority_queue k" "current (with_eff t p k) = current k"
  "idle_thread (with_eff t p k) = idle_thread k" "fifo_ready_list (with_eff t p k) = fifo_ready_list k"
  "active_sched_policy (with_eff t p k) = active_sched_policy k" "holders (with_eff t p k) = holders k"
  "semas (with_eff t p k) = semas k" "st (with_eff t p k) = st k"
  by (simp_all add: with_eff_def) (auto simp: st_def fun_eq_iff with_eff_def option.map_comp o_def)

lemma eff_with_eff: "st k t \<noteq> None \<Longrightarrow> eff (with_eff t p k) = (eff k)(t := p)"
  by (auto simp: eff_def with_eff_def st_def fun_eq_iff)

lemma resorted_sel [simp]:
  "st (resorted t p k) = st k" "current (resorted t p k) = current k"
  "idle_thread (resorted t p k) = idle_thread k" "holders (resorted t p k) = holders k"
  "threads (resorted t p k) = threads (with_eff t p k)" "semas (resorted t p k) = semas k"
  by (simp_all add: resorted_def Let_def)

lemma eff_resorted: "st k t \<noteq> None \<Longrightarrow> eff (resorted t p k) = (eff k)(t := p)"
  by (simp add: resorted_def Let_def eff_with_eff)

lemma threads_with_eff: "threads (with_eff t p k) u =
    (if u = t then map_option (\<lambda>th. th\<lparr>effective_priority := p\<rparr>) (threads k t) else threads k u)"
  by (simp add: with_eff_def)

lemma resorted_queue_inv:
  assumes "queue_inv k" "st k t \<noteq> None" "st k t \<noteq> Some THREAD_READY \<or> t \<noteq> idle_thread k"
  shows "queue_inv (resorted t p k)"
proof -
  note q = assms(1)[unfolded queue_inv_def]
  have e: "eff (with_eff t p k) = (eff k)(t := p)" by (rule eff_with_eff[OF assms(2)])
  let ?r = "remove1 t (priority_queue k)"
  have "prio_sorted (eff (with_eff t p k)) ?r"
    using prio_sorted_remove1[of "eff k" "priority_queue k" t] q
      prio_sorted_cong[of ?r "eff (with_eff t p k)" "eff k"] by (simp add: e)
  show ?thesis
  proof (cases "st k t = Some THREAD_READY")
    case True
    let ?q = "insert_ordered (thread_priority_comparator (with_eff t p k)) t ?r"
    have tq: "t \<in> set (priority_queue k)" using q True assms(3) by blast
    then have sq: "set ?q = set (priority_queue k)" using q by auto
    have "prio_sorted (eff (with_eff t p k)) ?q"
      by (rule insert_ordered_prio) (use \<open>prio_sorted _ ?r\<close> in \<open>simp_all add: thread_priority_comparator_def\<close>)
    moreover have "distinct ?q" using q by simp
    ultimately show ?thesis using q sq True
      unfolding queue_inv_def resorted_def Let_def by simp
  next
    case False
    then have "t \<notin> set (priority_queue k)" using q by blast
    then have "?r = priority_queue k" by (simp add: remove1_idem)
    then show ?thesis using q \<open>prio_sorted _ ?r\<close> False
      unfolding queue_inv_def resorted_def Let_def by simp
  qed
qed

lemma upd_eff: "st k t \<noteq> None \<Longrightarrow>
    upd_thread t (\<lambda>th. th\<lparr>effective_priority := p\<rparr>) k = Some (with_eff t p k)"
  by (auto simp: upd_thread_def with_eff_def st_def)

lemma comparator_queue: "thread_priority_comparator (k\<lparr>priority_queue := q\<rparr>) = thread_priority_comparator k"
  by (simp add: thread_priority_comparator_def fun_eq_iff)

lemma requeue_resorted:
  assumes "queue_inv k" "st k t = Some s" "s \<noteq> THREAD_READY \<or> t \<noteq> idle_thread k"
  shows "(upd_thread t (\<lambda>th. th\<lparr>effective_priority := p\<rparr>) k
      \<bind> (\<lambda>k. if s = THREAD_READY then requeue t k else Some k)) = Some (resorted t p k)"
proof -
  have "s = THREAD_READY \<Longrightarrow> t \<in> set (priority_queue k)" using assms unfolding queue_inv_def by blast
  then show ?thesis using assms(2)
    by (simp add: upd_eff requeue_def unlink_ready_def resorted_def Let_def comparator_queue)
qed

section \<open>The donation chain\<close>

text \<open>The locks and holders the threads point to exist, and the idle thread holds no lock.\<close>

definition waits_for :: "kernel \<Rightarrow> addr \<Rightarrow> addr option" where
  "waits_for k t = (case threads k t of None \<Rightarrow> None
     | Some th \<Rightarrow> if donated_to th = NULL then None else
         (case holders k (donated_to th) of None \<Rightarrow> None | Some h \<Rightarrow> if h = NULL then None else Some h))"

definition locks_wf :: "kernel \<Rightarrow> bool" where
  "locks_wf k \<longleftrightarrow>
     (\<forall>t th. threads k t = Some th \<longrightarrow> donated_to th \<noteq> NULL \<longrightarrow> holders k (donated_to th) \<noteq> None)
   \<and> (\<forall>t h. waits_for k t = Some h \<longrightarrow> st k h \<noteq> None \<and> h \<noteq> idle_thread k)"

text \<open>Whoever waits for a lock is not more urgent than its holder.\<close>

definition donated :: "kernel \<Rightarrow> addr \<Rightarrow> bool" where
  "donated k t \<longleftrightarrow> (\<forall>h. waits_for k t = Some h \<longrightarrow> eff k t \<le> eff k h)"

lemma waits_for_resorted [simp]: "waits_for (resorted t p k) = waits_for k"
  by (auto simp: waits_for_def threads_with_eff fun_eq_iff split: option.splits)

lemma locks_wf_resorted: "locks_wf k \<Longrightarrow> locks_wf (resorted t p k)"
  unfolding locks_wf_def by (auto simp: threads_with_eff)

lemma dom_resorted [simp]: "dom (threads (resorted t p k)) = dom (threads k)"
  by (auto simp: threads_with_eff split: if_splits)

lemma recurse_donate_step:
  assumes "queue_inv k" "locks_wf k" "st k t \<noteq> None"
  shows "recurse_donate_loop t k = (case waits_for k t of
       None \<Rightarrow> Some k
     | Some h \<Rightarrow> if eff k h < eff k t then recurse_donate_loop h (resorted h (eff k t) k) else Some k)"
proof -
  obtain th where th: "threads k t = Some th" using assms(3) by (auto simp: st_def)
  show ?thesis
  proof (cases "donated_to th = NULL")
    case True
    then show ?thesis using th by (simp add: recurse_donate_loop.simps waits_for_def)
  next
    case dt: False
    then obtain h where h: "holders k (donated_to th) = Some h"
      using assms(2) th unfolding locks_wf_def by blast
    show ?thesis
    proof (cases "h = NULL")
      case True
      then show ?thesis using th dt h by (simp add: recurse_donate_loop.simps waits_for_def)
    next
      case False
      then have w: "waits_for k t = Some h" using th dt h by (simp add: waits_for_def)
      then have "st k h \<noteq> None" and hi: "h \<noteq> idle_thread k" using assms(2) unfolding locks_wf_def by blast+
      then obtain n where n: "threads k h = Some n" by (auto simp: st_def)
      then have sn: "st k h = Some (status n)" by (simp add: st_def)
      have e: "eff k h = effective_priority n" "eff k t = effective_priority th" using th n by (simp_all add: eff_def)
      have "recurse_donate_loop t k = (if eff k h < eff k t then
            (upd_thread h (\<lambda>x. x\<lparr>effective_priority := eff k t\<rparr>) k
              \<bind> (\<lambda>k. if status n = THREAD_READY then requeue h k else Some k)) \<bind> recurse_donate_loop h
          else Some k)"
        using th dt h False n by (subst recurse_donate_loop.simps) (simp add: e)
      then show ?thesis using requeue_resorted[OF assms(1) sn, of "eff k t"] hi w by simp
    qed
  qed
qed

lemma recurse_donate_correct:
  assumes "queue_inv k" "locks_wf k" "st k t \<noteq> None" "finite (dom (threads k))"
    "\<forall>u. u \<noteq> t \<longrightarrow> donated k u"
  shows "\<exists>k'. recurse_donate_loop t k = Some k' \<and> queue_inv k' \<and> (\<forall>u. donated k' u)
     \<and> st k' = st k \<and> current k' = current k \<and> idle_thread k' = idle_thread k \<and> waits_for k' = waits_for k
     \<and> holders k' = holders k \<and> semas k' = semas k
     \<and> (\<forall>u. eff k' u = eff k u \<or> (eff k u < eff k t \<and> eff k' u = eff k t))"
  using assms
proof (induction "card {u \<in> dom (threads k). eff k u < eff k t}" arbitrary: k t rule: less_induct)
  case less
  note step = recurse_donate_step[OF less.prems(1-3)]
  show ?case
  proof (cases "\<exists>h. waits_for k t = Some h \<and> eff k h < eff k t")
    case False
    then have "recurse_donate_loop t k = Some k" using step by (auto split: option.splits)
    moreover have "donated k t" using False unfolding donated_def by (auto simp: not_less)
    moreover have "\<forall>u. donated k u" using calculation(2) less.prems(5) by metis
    ultimately show ?thesis using less.prems(1) by (intro exI[of _ k]) simp
  next
    case True
    then obtain h where h: "waits_for k t = Some h" "eff k h < eff k t" by blast
    let ?k = "resorted h (eff k t) k"
    have hs: "st k h \<noteq> None" "h \<noteq> idle_thread k" using less.prems(2) h(1) unfolding locks_wf_def by blast+
    then have hd: "h \<in> dom (threads k)" by (auto simp: st_def)
    have e: "eff ?k = (eff k)(h := eff k t)" by (rule eff_resorted[OF hs(1)])
    have sub: "{u \<in> dom (threads k). eff ?k u < eff k t} \<subset> {u \<in> dom (threads k). eff k u < eff k t}"
      using h(2) hd by (auto simp: e)
    have "card {u \<in> dom (threads ?k). eff ?k u < eff ?k h} < card {u \<in> dom (threads k). eff k u < eff k t}"
      using psubset_card_mono[OF _ sub] less.prems(4) by (simp add: e del: resorted_sel)
    moreover have "\<forall>u. u \<noteq> h \<longrightarrow> donated ?k u"
    proof (intro allI impI)
      fix u assume "u \<noteq> h"
      show "donated ?k u"
      proof (cases "u = t")
        case True
        then show ?thesis using h \<open>u \<noteq> h\<close> by (simp add: donated_def e)
      next
        case False
        then have "donated k u" using less.prems(5) by simp
        then show ?thesis using \<open>u \<noteq> h\<close> h(2) by (auto simp: donated_def e)
      qed
    qed
    ultimately obtain k' where k': "recurse_donate_loop h ?k = Some k'" "queue_inv k'" "\<forall>u. donated k' u"
      "st k' = st k" "current k' = current k" "idle_thread k' = idle_thread k" "waits_for k' = waits_for k"
      "holders k' = holders k" "semas k' = semas k"
      "\<forall>u. eff k' u = eff ?k u \<or> (eff ?k u < eff ?k h \<and> eff k' u = eff ?k h)"
      using less.hyps[of ?k h] resorted_queue_inv[OF less.prems(1) hs(1)] hs locks_wf_resorted[OF less.prems(2)]
        less.prems(4) by (auto simp del: resorted_sel(5))
    have "recurse_donate_loop t k = Some k'" using step h k'(1) by simp
    moreover have "\<forall>u. eff k' u = eff k u \<or> (eff k u < eff k t \<and> eff k' u = eff k t)"
      using k'(10) h(2) by (auto simp: e split: if_splits)
    ultimately show ?thesis using k' by blast
  qed
qed

end
