(* ===== verification/Synch.thy ===== *)
theory Synch
  imports Donation
begin

text \<open>
  threads/synch.c: semaphores, locks with priority donation, condition variables and readers-writers
  locks, and the parts of threads/thread.c that use them (\<open>thread_create\<close>, \<open>allocate_tid\<close>, the idle
  thread).

  A call that can block is cut at the context switch.  A \<open>frame\<close> is a point at which a thread's
  kernel code goes on when the thread runs again; an operation returns the frames its caller still
  has to run, innermost first.  Frames run with interrupts off, as in the source, up to the next
  switch.
\<close>

section \<open>Semaphores\<close>

definition sema_init :: "addr \<Rightarrow> nat \<Rightarrow> kernel \<Rightarrow> kernel option" where
  "sema_init s v k = do {
     ASSERT (s \<noteq> NULL);
     Some (k\<lparr>semas := (semas k)(s \<mapsto> \<lparr>svalue = v, waiters = []\<rparr>)\<rparr>) }"

definition set_sema :: "addr \<Rightarrow> semaphore \<Rightarrow> kernel \<Rightarrow> kernel" where
  "set_sema s sem k = k\<lparr>semas := (semas k)(s \<mapsto> sem)\<rparr>"

text \<open>One round of the loop of \<open>sema_down\<close>: \<open>True\<close> when the semaphore was taken, \<open>False\<close> when the thread
  queued itself and blocked.\<close>

definition sema_down_round :: "addr \<Rightarrow> kernel \<Rightarrow> (bool \<times> kernel) option" where
  "sema_down_round s k = do {
     ASSERT (s \<noteq> NULL);
     ASSERT (\<not> intr_context k);
     sem \<leftarrow> semas k s;
     if svalue sem = 0 then do {
       t \<leftarrow> thread_current k;
       k \<leftarrow> thread_block (set_sema s (sem\<lparr>waiters := waiters sem @ [t]\<rparr>) k);
       Some (False, k) }
     else Some (True, set_sema s (sem\<lparr>svalue := svalue sem - 1\<rparr>) k) }"

definition sema_try_down :: "addr \<Rightarrow> kernel \<Rightarrow> (bool \<times> kernel) option" where
  "sema_try_down s k = do {
     ASSERT (s \<noteq> NULL);
     sem \<leftarrow> semas k s;
     if svalue sem > 0 then Some (True, set_sema s (sem\<lparr>svalue := svalue sem - 1\<rparr>) k)
     else Some (False, k) }"

text \<open>\<open>list_sort\<close> is a stable sort (theory Klist), here by descending effective priority.\<close>

definition wake_one :: "addr \<Rightarrow> kernel \<Rightarrow> (addr \<times> kernel) option" where
  "wake_one s k = do {
     sem \<leftarrow> semas k s;
     let ws = (if \<not> intr_context k then sort_key (\<lambda>t. - eff k t) (waiters sem) else waiters sem);
     case ws of
       [] \<Rightarrow> Some (NULL, k)
     | unblocked # rest \<Rightarrow> do {
         k \<leftarrow> thread_unblock unblocked (set_sema s (sem\<lparr>waiters := rest\<rparr>) k);
         Some (unblocked, k) } }"

definition sema_up :: "addr \<Rightarrow> kernel \<Rightarrow> kernel option" where
  "sema_up s k = do {
     ASSERT (s \<noteq> NULL);
     (unblocked, k) \<leftarrow> wake_one s k;
     sem \<leftarrow> semas k s;
     let k = set_sema s (sem\<lparr>svalue := size_add (svalue sem) 1\<rparr>) k;
     if \<not> intr_context k \<and> unblocked \<noteq> NULL then do {
       cur \<leftarrow> thread_current k;
       if eff k unblocked > eff k cur then thread_yield k else Some k }
     else Some k }"

section \<open>Locks\<close>

definition lock_init :: "addr \<Rightarrow> kernel \<Rightarrow> kernel option" where
  "lock_init l k = do {
     ASSERT (l \<noteq> NULL);
     sema_init (lock_sema l) 1 (k\<lparr>holders := (holders k)(l \<mapsto> NULL)\<rparr>) }"

definition lock_held_by_current_thread :: "addr \<Rightarrow> kernel \<Rightarrow> bool option" where
  "lock_held_by_current_thread l k = do {
     ASSERT (l \<noteq> NULL);
     h \<leftarrow> holders k l;
     t \<leftarrow> thread_current k;
     Some (h = t) }"

text \<open>A round of \<open>sema_down\<close> inside \<open>lock_acquire\<close>, and what follows it when the lock was taken.\<close>

definition lock_acquire_round :: "addr \<Rightarrow> kernel \<Rightarrow> (bool \<times> kernel) option" where
  "lock_acquire_round l k = do {
     (ok, k) \<leftarrow> sema_down_round (lock_sema l) k;
     if ok then do {
       t \<leftarrow> thread_current k;
       k \<leftarrow> upd_thread t (\<lambda>th. th\<lparr>donated_to := NULL, donated_locks := donated_locks th @ [l]\<rparr>) k;
       Some (True, k\<lparr>holders := (holders k)(l \<mapsto> t)\<rparr>) }
     else Some (False, k) }"

definition lock_acquire :: "addr \<Rightarrow> kernel \<Rightarrow> (bool \<times> kernel) option" where
  "lock_acquire l k = do {
     ASSERT (l \<noteq> NULL);
     ASSERT (\<not> intr_context k);
     held \<leftarrow> lock_held_by_current_thread l k;
     ASSERT (\<not> held);
     t \<leftarrow> thread_current k;
     k \<leftarrow> upd_thread t (\<lambda>th. th\<lparr>donated_to := l\<rparr>) k;
     h \<leftarrow> holders k l;
     k \<leftarrow> (if h \<noteq> NULL then recurse_donate t k else Some k);
     lock_acquire_round l k }"

definition lock_try_acquire :: "addr \<Rightarrow> kernel \<Rightarrow> (bool \<times> kernel) option" where
  "lock_try_acquire l k = do {
     ASSERT (l \<noteq> NULL);
     held \<leftarrow> lock_held_by_current_thread l k;
     ASSERT (\<not> held);
     (success, k) \<leftarrow> sema_try_down (lock_sema l) k;
     if success then do {
       t \<leftarrow> thread_current k;
       Some (True, k\<lparr>holders := (holders k)(l \<mapsto> t)\<rparr>) }
     else Some (False, k) }"

text \<open>\<open>list_remove(&lock->elem)\<close>: the element is linked only by \<open>lock_acquire\<close>, into the list of the
  thread that acquired the lock.  The model stops where the element is not in that list, as for a lock
  taken with \<open>lock_try_acquire\<close>: there \<open>list_remove\<close> fails its assertion on an element that was never
  linked, and otherwise writes through the links the element has kept from an earlier list.\<close>

definition unlink_lock :: "addr \<Rightarrow> addr \<Rightarrow> kernel \<Rightarrow> kernel option" where
  "unlink_lock t l k = do {
     th \<leftarrow> threads k t;
     ASSERT (l \<in> set (donated_locks th));
     upd_thread t (\<lambda>th. th\<lparr>donated_locks := remove1 l (donated_locks th)\<rparr>) k }"

definition lock_release :: "addr \<Rightarrow> kernel \<Rightarrow> kernel option" where
  "lock_release l k = do {
     ASSERT (l \<noteq> NULL);
     held \<leftarrow> lock_held_by_current_thread l k;
     ASSERT held;
     t \<leftarrow> thread_current k;
     k \<leftarrow> unlink_lock t l k;
     k \<leftarrow> update_priority t (k\<lparr>holders := (holders k)(l \<mapsto> NULL)\<rparr>);
     sema_up (lock_sema l) k }"

section \<open>Frames\<close>

text \<open>\<open>FRwLoop\<close> is the head of the waiting loop of \<open>rw_lock_acquire\<close>, \<open>FRwWoken\<close> the statement behind its
  \<open>cond_wait\<close>.  The last two arguments are the address of the \<open>semaphore_elem\<close> on the thread's stack and
  the uninitialised contents of its \<open>thread\<close> member.  \<open>FTid\<close> and \<open>FCreated\<close> are the two points inside
  \<open>thread_create\<close> behind the acquisition and the release of the tid lock, \<open>FSleep\<close> the one inside
  \<open>timer_sleep\<close> at which interrupts go off.\<close>

datatype frame =
    FSemaDown addr
  | FLockAcquire addr
  | FLockDown addr
  | FLockRelease addr
  | FRwLoop addr bool addr addr
  | FRwWoken addr bool addr addr
  | FRwRelease addr bool
  | FBroadcast addr addr
  | FTid addr
  | FCreated addr int
  | FSleep
  | FIdleStart addr
  | FIdle

definition cond_init :: "addr \<Rightarrow> kernel \<Rightarrow> kernel option" where
  "cond_init c k = do { ASSERT (c \<noteq> NULL); Some (k\<lparr>conds := (conds k)(c \<mapsto> [])\<rparr>) }"

definition cond_wait :: "addr \<Rightarrow> addr \<Rightarrow> addr \<Rightarrow> addr \<Rightarrow> kernel \<Rightarrow> (frame list \<times> kernel) option" where
  "cond_wait c l waiter junk k = do {
     ASSERT (c \<noteq> NULL);
     ASSERT (l \<noteq> NULL);
     ASSERT (\<not> intr_context k);
     held \<leftarrow> lock_held_by_current_thread l k;
     ASSERT held;
     k \<leftarrow> sema_init waiter 0 k;
     ws \<leftarrow> conds k c;
     k \<leftarrow> lock_release l (k\<lparr>conds := (conds k)(c \<mapsto> ws @ [\<lparr>e_sema = waiter, e_thread = junk\<rparr>])\<rparr>);
     Some ([FSemaDown waiter, FLockAcquire l], k) }"

definition sema_comparator :: "kernel \<Rightarrow> semaphore_elem \<Rightarrow> semaphore_elem \<Rightarrow> bool" where
  "sema_comparator k a b \<longleftrightarrow> eff k (e_thread a) > eff k (e_thread b)"

text \<open>With two or more waiters the sort calls the comparison function, which follows the \<open>thread\<close> members.\<close>

definition cond_signal :: "addr \<Rightarrow> addr \<Rightarrow> kernel \<Rightarrow> kernel option" where
  "cond_signal c l k = do {
     ASSERT (c \<noteq> NULL);
     ASSERT (l \<noteq> NULL);
     ASSERT (\<not> intr_context k);
     held \<leftarrow> lock_held_by_current_thread l k;
     ASSERT held;
     ws \<leftarrow> conds k c;
     ASSERT (length ws \<ge> 2 \<longrightarrow> (\<forall>w \<in> set ws. threads k (e_thread w) \<noteq> None));
     let ws = sort_key (\<lambda>w. - eff k (e_thread w)) ws;
     case ws of
       [] \<Rightarrow> None
     | waiter # rest \<Rightarrow> sema_up (e_sema waiter) (k\<lparr>conds := (conds k)(c \<mapsto> rest)\<rparr>) }"

text \<open>One round of the loop of \<open>cond_broadcast\<close>; the signal may switch to the woken thread, and the
  loop goes on when the caller runs again.\<close>

definition cond_broadcast :: "addr \<Rightarrow> addr \<Rightarrow> kernel \<Rightarrow> (frame list \<times> kernel) option" where
  "cond_broadcast c l k = do {
     ASSERT (c \<noteq> NULL);
     ASSERT (l \<noteq> NULL);
     ws \<leftarrow> conds k c;
     if ws = [] then Some ([], k)
     else do { k \<leftarrow> cond_signal c l k; Some ([FBroadcast c l], k) } }"

section \<open>Readers-writers locks\<close>

text \<open>\<open>struct rw_lock\<close>: a lock (32 bytes), two conditions (16 bytes each), the counters.\<close>

definition rw_guard :: "addr \<Rightarrow> addr" where "rw_guard rw = rw"
definition rw_read :: "addr \<Rightarrow> addr" where "rw_read rw = rw + 32"
definition rw_write :: "addr \<Rightarrow> addr" where "rw_write rw = rw + 48"

definition rw_lock_init :: "addr \<Rightarrow> kernel \<Rightarrow> kernel option" where
  "rw_lock_init rw k = do {
     k \<leftarrow> lock_init (rw_guard rw) k;
     k \<leftarrow> cond_init (rw_read rw) k;
     k \<leftarrow> cond_init (rw_write rw) k;
     Some (k\<lparr>rw_locks := (rw_locks k)(rw \<mapsto> \<lparr>AR = 0, WR = 0, AW = 0, WW = 0\<rparr>)\<rparr>) }"

definition set_rw :: "addr \<Rightarrow> rw_counts \<Rightarrow> kernel \<Rightarrow> kernel" where
  "set_rw rw c k = k\<lparr>rw_locks := (rw_locks k)(rw \<mapsto> c)\<rparr>"

text \<open>What a thread that holds the guard lock decides about the counters.\<close>

definition rw_must_wait :: "bool \<Rightarrow> rw_counts \<Rightarrow> bool" where
  "rw_must_wait reader c \<longleftrightarrow> (if reader then AW c + WW c > 0 else AR c + AW c > 0)"

definition rw_enter :: "bool \<Rightarrow> rw_counts \<Rightarrow> rw_counts" where
  "rw_enter reader c = (if reader then c\<lparr>AR := AR c + 1\<rparr> else c\<lparr>AW := AW c + 1\<rparr>)"

definition rw_begin_wait :: "bool \<Rightarrow> rw_counts \<Rightarrow> rw_counts" where
  "rw_begin_wait reader c = (if reader then c\<lparr>WR := WR c + 1\<rparr> else c\<lparr>WW := WW c + 1\<rparr>)"

definition rw_end_wait :: "bool \<Rightarrow> rw_counts \<Rightarrow> rw_counts" where
  "rw_end_wait reader c = (if reader then c\<lparr>WR := WR c - 1\<rparr> else c\<lparr>WW := WW c - 1\<rparr>)"

definition rw_leave :: "bool \<Rightarrow> rw_counts \<Rightarrow> rw_counts" where
  "rw_leave reader c = (if reader then c\<lparr>AR := AR c - 1\<rparr> else c\<lparr>AW := AW c - 1\<rparr>)"

definition rw_lock_acquire :: "addr \<Rightarrow> bool \<Rightarrow> addr \<Rightarrow> addr \<Rightarrow> frame list" where
  "rw_lock_acquire rw reader waiter junk = [FLockAcquire (rw_guard rw), FRwLoop rw reader waiter junk]"

definition rw_loop :: "addr \<Rightarrow> bool \<Rightarrow> addr \<Rightarrow> addr \<Rightarrow> kernel \<Rightarrow> (frame list \<times> kernel) option" where
  "rw_loop rw reader waiter junk k = do {
     c \<leftarrow> rw_locks k rw;
     if rw_must_wait reader c then do {
       (fs, k) \<leftarrow> cond_wait (if reader then rw_read rw else rw_write rw) (rw_guard rw) waiter junk
                    (set_rw rw (rw_begin_wait reader c) k);
       Some (fs @ [FRwWoken rw reader waiter junk], k) }
     else do {
       k \<leftarrow> lock_release (rw_guard rw) (set_rw rw (rw_enter reader c) k);
       Some ([], k) } }"

definition rw_woken :: "addr \<Rightarrow> bool \<Rightarrow> addr \<Rightarrow> addr \<Rightarrow> kernel \<Rightarrow> (frame list \<times> kernel) option" where
  "rw_woken rw reader waiter junk k = do {
     c \<leftarrow> rw_locks k rw;
     rw_loop rw reader waiter junk (set_rw rw (rw_end_wait reader c) k) }"

text \<open>The wake-ups of \<open>rw_lock_release\<close>; they may switch, after which the guard is released.\<close>

definition rw_release :: "addr \<Rightarrow> bool \<Rightarrow> kernel \<Rightarrow> (frame list \<times> kernel) option" where
  "rw_release rw reader k = do {
     c \<leftarrow> rw_locks k rw;
     let c = rw_leave reader c;
     let k = set_rw rw c k;
     (fs, k) \<leftarrow>
       (if WW c > 0 \<and> (reader \<longrightarrow> AR c = 0) then
          map_option (Pair []) (cond_signal (rw_write rw) (rw_guard rw) k)
        else if \<not> reader \<and> WR c > 0 then cond_broadcast (rw_read rw) (rw_guard rw) k
        else Some ([], k));
     Some (fs @ [FLockRelease (rw_guard rw)], k) }"

definition rw_lock_release :: "addr \<Rightarrow> bool \<Rightarrow> frame list" where
  "rw_lock_release rw reader = [FLockAcquire (rw_guard rw), FRwRelease rw reader]"

section \<open>Threads that come and go\<close>

text \<open>\<open>thread_create\<close> up to \<open>allocate_tid\<close>; \<open>page\<close> is the result of \<open>palloc_get_page\<close>.\<close>

definition thread_create :: "addr \<Rightarrow> int \<Rightarrow> kernel \<Rightarrow> (frame list \<times> kernel) option" where
  "thread_create page pri k =
     (if page = NULL then Some ([], k)
      else do {
        k \<leftarrow> init_thread page pri k;
        Some ([FLockAcquire (tid_lock k), FTid page], k) })"

definition allocate_tid :: "addr \<Rightarrow> kernel \<Rightarrow> (frame list \<times> kernel) option" where
  "allocate_tid t k = do {
     let tid = next_tid k;
     k \<leftarrow> lock_release (tid_lock k) (k\<lparr>next_tid := next_tid k + 1\<rparr>);
     Some ([FCreated t tid], k) }"

definition thread_created :: "addr \<Rightarrow> int \<Rightarrow> kernel \<Rightarrow> kernel option" where
  "thread_created t new_tid k = do {
     k \<leftarrow> upd_thread t (\<lambda>th. th\<lparr>tid := new_tid\<rparr>) k;
     k \<leftarrow> thread_unblock t k;
     cur \<leftarrow> thread_current k;
     if eff k t > eff k cur then thread_yield k else Some k }"

text \<open>The idle thread registers itself, wakes \<open>thread_start\<close> and then blocks again and again.\<close>

definition idle :: "addr \<Rightarrow> kernel \<Rightarrow> (frame list \<times> kernel) option" where
  "idle idle_started k = do {
     t \<leftarrow> thread_current k;
     k \<leftarrow> sema_up idle_started (k\<lparr>idle_thread := t\<rparr>);
     Some ([FIdle], k) }"

text \<open>\<open>timer_sleep\<close> of devices/timer.c.  An interrupt, and with it other threads, may run between the
  computation of the wake-up time and the frame that puts the thread on the list.\<close>

definition timer_sleep :: "int \<Rightarrow> kernel \<Rightarrow> (frame list \<times> kernel) option" where
  "timer_sleep tks k =
     (if tks \<le> 0 then Some ([], k)
      else do { k \<leftarrow> set_alarm tks k; Some ([FSleep], k) })"

section \<open>Running a frame\<close>

definition again :: "frame \<Rightarrow> bool \<times> kernel \<Rightarrow> frame list \<times> kernel" where
  "again f r = (if fst r then [] else [f], snd r)"

fun run_frame :: "frame \<Rightarrow> kernel \<Rightarrow> (frame list \<times> kernel) option" where
  "run_frame (FSemaDown s) k = map_option (again (FSemaDown s)) (sema_down_round s k)"
| "run_frame (FLockAcquire l) k = map_option (again (FLockDown l)) (lock_acquire l k)"
| "run_frame (FLockDown l) k = map_option (again (FLockDown l)) (lock_acquire_round l k)"
| "run_frame (FLockRelease l) k = map_option (Pair []) (lock_release l k)"
| "run_frame (FRwLoop rw reader waiter junk) k = rw_loop rw reader waiter junk k"
| "run_frame (FRwWoken rw reader waiter junk) k = rw_woken rw reader waiter junk k"
| "run_frame (FRwRelease rw reader) k = rw_release rw reader k"
| "run_frame (FBroadcast c l) k = cond_broadcast c l k"
| "run_frame (FTid t) k = allocate_tid t k"
| "run_frame (FCreated t new_tid) k = map_option (Pair []) (thread_created t new_tid k)"
| "run_frame FSleep k = map_option (Pair []) (fall_asleep k)"
| "run_frame (FIdleStart s) k = idle s k"
| "run_frame FIdle k = map_option (Pair [FIdle]) (thread_block k)"

section \<open>Boot\<close>

text \<open>The statically allocated state is zero.\<close>

definition kernel_zero :: kernel where
  "kernel_zero = \<lparr>threads = (\<lambda>_. None), holders = (\<lambda>_. None), semas = (\<lambda>_. None), conds = (\<lambda>_. None),
     rw_locks = (\<lambda>_. None), fifo_ready_list = [], priority_queue = [], all_list = [], sleeping_list = [],
     current = NULL, idle_thread = NULL, initial_thread = NULL, active_sched_policy = SCHED_FIFO,
     in_external_intr = False, yield_on_return = False, ticks = 0, thread_ticks = 0, idle_ticks = 0,
     kernel_ticks = 0, user_ticks = 0, tid_lock = NULL, next_tid = 1\<rparr>"

text \<open>\<open>thread_init\<close>: the code that runs becomes the thread at \<open>main_page\<close>; the tid lock is at \<open>tidl\<close>.
  Nobody else runs yet, so the first \<open>allocate_tid\<close> does not block.\<close>

definition thread_init :: "addr \<Rightarrow> addr \<Rightarrow> kernel \<Rightarrow> kernel option" where
  "thread_init main_page tidl k = do {
     k \<leftarrow> lock_init tidl (k\<lparr>tid_lock := tidl\<rparr>);
     let k = k\<lparr>fifo_ready_list := [], all_list := [], priority_queue := [],
               current := main_page, initial_thread := main_page\<rparr>;
     k \<leftarrow> init_thread main_page PRI_DEFAULT k;
     k \<leftarrow> upd_thread main_page (\<lambda>th. th\<lparr>status := THREAD_RUNNING\<rparr>) k;
     (ok, k) \<leftarrow> lock_acquire tidl k;
     ASSERT ok;
     let new_tid = next_tid k;
     k \<leftarrow> lock_release tidl (k\<lparr>next_tid := next_tid k + 1\<rparr>);
     upd_thread main_page (\<lambda>th. th\<lparr>tid := new_tid\<rparr>) k }"

text \<open>\<open>thread_start\<close>: the idle thread gets the page \<open>page\<close>; \<open>s\<close> is the semaphore \<open>idle_started\<close>.\<close>

definition thread_start :: "addr \<Rightarrow> addr \<Rightarrow> kernel \<Rightarrow> (frame list \<times> kernel) option" where
  "thread_start page s k = do {
     k \<leftarrow> sema_init s 0 k;
     (fs, k) \<leftarrow> thread_create page PRI_MIN k;
     Some (fs @ [FSemaDown s], k) }"

end
