(* ===== verification/SynchInv.thy ===== *)
theory SynchInv
  imports Synch
begin

text \<open>
  Invariants of theory Synch: a thread on a wait list is blocked and is on one list only, the value of
  a lock's semaphore is 1 exactly while nobody holds the lock, and every lock is on the list of its
  holder at most.  All operations keep them, whatever thread they switch to.
\<close>

section \<open>Views of the state\<close>

definition waits :: "kernel \<Rightarrow> addr \<Rightarrow> addr option \<Rightarrow> bool" where
  "waits k t p = (case p of None \<Rightarrow> t \<in> set (sleeping_list k)
     | Some s \<Rightarrow> (case semas k s of None \<Rightarrow> False | Some sem \<Rightarrow> t \<in> set (waiters sem)))"

definition svals :: "kernel \<Rightarrow> addr \<Rightarrow> nat option" where
  "svals k s = map_option svalue (semas k s)"

definition dlocks :: "kernel \<Rightarrow> addr \<Rightarrow> addr list option" where
  "dlocks k t = map_option donated_locks (threads k t)"

definition waits_ok :: "kernel \<Rightarrow> bool" where
  "waits_ok k \<longleftrightarrow>
     (\<forall>t p. waits k t p \<longrightarrow> st k t = Some THREAD_BLOCKED \<and> t \<noteq> idle_thread k)
   \<and> (\<forall>t p q. waits k t p \<longrightarrow> waits k t q \<longrightarrow> p = q)
   \<and> (\<forall>s sem. semas k s = Some sem \<longrightarrow> distinct (waiters sem)) \<and> distinct (sleeping_list k)"

definition base_inv :: "kernel \<Rightarrow> bool" where
  "base_inv k \<longleftrightarrow> sched_inv k \<and> \<not> in_external_intr k \<and> waits_ok k"

definition locks_ok :: "kernel \<Rightarrow> bool" where
  "locks_ok k \<longleftrightarrow>
     (\<forall>l h. holders k l = Some h \<longrightarrow> svals k (lock_sema l) = Some (if h = NULL then 1 else 0))
   \<and> (\<forall>t ls. dlocks k t = Some ls \<longrightarrow> distinct ls \<and> (\<forall>l \<in> set ls. holders k l = Some t))"

section \<open>Context switches\<close>

text \<open>What a switch, a wake-up and a change of priorities have in common.\<close>

definition same_sync :: "kernel \<Rightarrow> kernel \<Rightarrow> bool" where
  "same_sync k k' \<longleftrightarrow> holders k' = holders k \<and> semas k' = semas k \<and> dlocks k' = dlocks k
     \<and> sleeping_list k' = sleeping_list k \<and> idle_thread k' = idle_thread k
     \<and> in_external_intr k' = in_external_intr k \<and> tid_lock k' = tid_lock k
     \<and> conds k' = conds k \<and> rw_locks k' = rw_locks k"

lemma same_sync_refl [simp]: "same_sync k k"
  by (simp add: same_sync_def)

lemma same_sync_trans: "same_sync a b \<Longrightarrow> same_sync b c \<Longrightarrow> same_sync a c"
  by (simp add: same_sync_def)

lemma same_syncD:
  assumes "same_sync k k'"
  shows "waits k' = waits k" "svals k' = svals k" "locks_ok k' = locks_ok k"
proof -
  have "waits k' t p = waits k t p" for t p
    using assms by (simp add: same_sync_def waits_def split: option.split)
  then show "waits k' = waits k" by (intro ext)
  show sv: "svals k' = svals k"
    using assms by (intro ext) (simp add: same_sync_def svals_def)
  show "locks_ok k' = locks_ok k"
    using assms unfolding locks_ok_def sv by (simp add: same_sync_def)
qed

text \<open>A thread that was created but not started yet: blocked and on no wait list.  Operations of other
  threads leave it alone, as well as the stores they do not mention.\<close>

definition dormant :: "kernel \<Rightarrow> addr \<Rightarrow> bool" where
  "dormant k t \<longleftrightarrow> st k t = Some THREAD_BLOCKED \<and> t \<noteq> idle_thread k \<and> (\<forall>p. \<not> waits k t p)"

definition kept :: "kernel \<Rightarrow> kernel \<Rightarrow> bool" where
  "kept k k' \<longleftrightarrow> idle_thread k' = idle_thread k \<and> tid_lock k' = tid_lock k \<and> conds k' = conds k
     \<and> rw_locks k' = rw_locks k \<and> (\<forall>t. dormant k t \<longrightarrow> dormant k' t)"

lemma kept_refl [simp]: "kept k k"
  by (simp add: kept_def)

lemma kept_trans: "kept a b \<Longrightarrow> kept b c \<Longrightarrow> kept a c"
  by (simp add: kept_def)

lemma kept_sync:
  assumes "same_sync k k'" "\<And>t. st k t = Some THREAD_BLOCKED \<Longrightarrow> t \<noteq> idle_thread k \<Longrightarrow> st k' t = st k t"
  shows "kept k k'"
  unfolding kept_def dormant_def same_syncD(1)[OF assms(1)]
  using assms by (simp add: same_sync_def)

lemma waits_ok_same:
  assumes "waits_ok k" "same_sync k k'" "\<And>t. st k t = Some THREAD_BLOCKED \<Longrightarrow> t \<noteq> idle_thread k \<Longrightarrow> st k' t = st k t"
  shows "waits_ok k'"
  using assms unfolding waits_ok_def same_syncD(1)[OF assms(2)] unfolding same_sync_def by auto

lemma dlocks_other [simp]:
  "dlocks (with_status t s k) = dlocks k" "dlocks (with_eff t p k) = dlocks k"
  "dlocks (k\<lparr>semas := a\<rparr>) = dlocks k" "dlocks (k\<lparr>holders := b\<rparr>) = dlocks k"
  "dlocks (k\<lparr>sleeping_list := ss\<rparr>) = dlocks k" "dlocks (k\<lparr>conds := c\<rparr>) = dlocks k"
  "dlocks (k\<lparr>rw_locks := d\<rparr>) = dlocks k" "dlocks (k\<lparr>next_tid := n\<rparr>) = dlocks k"
  "dlocks (k\<lparr>priority_queue := q\<rparr>) = dlocks k"
  by (auto simp: dlocks_def with_status_def with_eff_def fun_eq_iff option.map_comp o_def)

lemma same_sync_with_status [simp]: "same_sync k (with_status t s k)"
  by (simp add: same_sync_def) (simp add: with_status_def)

lemma same_sync_make_ready [simp]: "same_sync k (make_ready t k)"
  by (simp add: same_sync_def make_ready_def) (simp add: with_status_def)

lemma same_sync_stepped_down [simp]: "same_sync k (stepped_down k)"
  by (simp add: stepped_down_def)

lemma same_sync_switched: "st k (current k) \<noteq> Some THREAD_DYING \<Longrightarrow> same_sync k (switched k)"
  by (auto simp: same_sync_def switched_def dlocks_def Let_def fun_eq_iff option.map_comp o_def)

lemma chosen_not_waiting:
  assumes "queue_inv k" "st k t = Some THREAD_BLOCKED" "t \<noteq> idle_thread k"
  shows "t \<noteq> chosen k"
  using assms unfolding queue_inv_def chosen_def by (auto split: list.splits)

lemma base_inv_current: "base_inv k \<Longrightarrow> thread_current k = Some (current k)"
  "base_inv k \<Longrightarrow> st k (current k) = Some THREAD_RUNNING"
  by (simp_all add: base_inv_def thread_current_inv sched_inv_current)

lemma thread_yield_base:
  assumes "base_inv k" "thread_yield k = Some k'"
  shows "base_inv k'" "same_sync k k'" "kept k k'"
proof -
  have s: "sched_inv k" "\<not> intr_context k" and w: "waits_ok k"
    using assms(1) by (simp_all add: base_inv_def intr_context_def)
  have k': "k' = switched (stepped_down k)" using thread_yield_inv(1)[OF s] assms(2) by simp
  note d = stepped_down_inv[OF s(1)]
  have "st (stepped_down k) (current (stepped_down k)) \<noteq> Some THREAD_DYING" by (simp add: d)
  then have "same_sync (stepped_down k) k'" using same_sync_switched k' by simp
  then show ss: "same_sync k k'" using same_sync_trans same_sync_stepped_down by blast
  have st': "st k' t = st k t" if t: "st k t = Some THREAD_BLOCKED" "t \<noteq> idle_thread k" for t
  proof -
    have tc: "t \<noteq> current k" using t(1) sched_inv_current[OF s(1)] by auto
    then have sb: "st (stepped_down k) t = Some THREAD_BLOCKED" by (simp add: d t)
    then have "t \<noteq> chosen (stepped_down k)" using chosen_not_waiting[OF d(1)] t(2) d(5) by simp
    then show ?thesis using st_switched[OF chosen_alive(2)[OF d(1)]] tc t(1) sb
      by (simp add: k' d Let_def)
  qed
  then show "kept k k'" using kept_sync[OF ss] by simp
  have "waits_ok k'" using waits_ok_same[OF w ss] st' by simp
  then show "base_inv k'"
    using thread_yield_inv(2)[OF s] assms(1) ss by (simp add: base_inv_def k' same_sync_def)
qed

lemma thread_unblock_waits:
  assumes "sched_inv k" "waits_ok k" "thread_unblock t k = Some k'" "\<And>p. \<not> waits k t p" "t \<noteq> idle_thread k"
  shows "sched_inv k'" "waits_ok k'" "same_sync k k'" "current k' = current k"
    "dormant k u \<Longrightarrow> u \<noteq> t \<Longrightarrow> dormant k' u"
proof -
  have b: "st k t = Some THREAD_BLOCKED"
    using assms(3) by (auto simp: thread_unblock_def st_def bind_eq_Some_conv)
  note u = thread_unblock_inv[OF assms(1) b assms(5)]
  have k': "k' = make_ready t k" using u(1) assms(3) by simp
  have st': "st k' = (st k)(t \<mapsto> THREAD_READY)" using b by (simp add: k' st_make_ready)
  show ss: "same_sync k k'" by (simp add: k')
  show "waits_ok k'"
    unfolding waits_ok_def same_syncD(1)[OF ss]
    using assms(2,4) ss st' by (auto simp: waits_ok_def same_sync_def)
  show "sched_inv k'" using u(2) by (simp add: k')
  show "current k' = current k" by (simp add: k')
  show "dormant k u \<Longrightarrow> u \<noteq> t \<Longrightarrow> dormant k' u"
    unfolding dormant_def same_syncD(1)[OF ss] using ss st' by (simp add: same_sync_def)
qed

lemma thread_unblock_base:
  assumes "base_inv k" "thread_unblock t k = Some k'" "\<And>p. \<not> waits k t p" "t \<noteq> idle_thread k"
  shows "base_inv k'" "same_sync k k'" "current k' = current k"
    "dormant k u \<Longrightarrow> u \<noteq> t \<Longrightarrow> dormant k' u"
  using thread_unblock_waits[OF _ _ assms(2-4)] assms(1) by (simp_all add: base_inv_def same_sync_def)

section \<open>Semaphores\<close>

text \<open>The part of the state the lock invariant looks at.\<close>

definition same_locks :: "kernel \<Rightarrow> kernel \<Rightarrow> bool" where
  "same_locks k k' \<longleftrightarrow> holders k' = holders k \<and> svals k' = svals k \<and> dlocks k' = dlocks k"

lemma same_locks_refl [simp]: "same_locks k k"
  by (simp add: same_locks_def)

lemma same_locks_trans: "same_locks a b \<Longrightarrow> same_locks b c \<Longrightarrow> same_locks a c"
  by (simp add: same_locks_def)

lemma same_sync_locks: "same_sync k k' \<Longrightarrow> same_locks k k'"
proof -
  assume a: "same_sync k k'"
  then have "svals k' = svals k" by (rule same_syncD(2))
  then show ?thesis using a unfolding same_sync_def same_locks_def by blast
qed

lemma same_locks_ok: "same_locks k k' \<Longrightarrow> locks_ok k' = locks_ok k"
  by (simp add: same_locks_def locks_ok_def)

lemma set_sema_sel [simp]:
  "holders (set_sema s m k) = holders k" "st (set_sema s m k) = st k" "eff (set_sema s m k) = eff k"
  "dlocks (set_sema s m k) = dlocks k" "idle_thread (set_sema s m k) = idle_thread k"
  "current (set_sema s m k) = current k" "tid_lock (set_sema s m k) = tid_lock k"
  "sleeping_list (set_sema s m k) = sleeping_list k" "in_external_intr (set_sema s m k) = in_external_intr k"
  "conds (set_sema s m k) = conds k" "rw_locks (set_sema s m k) = rw_locks k"
  "semas (set_sema s m k) = (semas k)(s \<mapsto> m)" "threads (set_sema s m k) = threads k"
  by (simp_all add: set_sema_def)

lemma svals_set_sema [simp]: "svals (set_sema s m k) = (svals k)(s \<mapsto> svalue m)"
  by (simp add: svals_def fun_eq_iff)

lemma sched_set_sema [simp]: "sched_inv (set_sema s m k) = sched_inv k"
proof
  assume "sched_inv (set_sema s m k)"
  then show "sched_inv k"
    by (rule same_sched_inv[rotated]) (simp add: same_sched_def, simp add: set_sema_def)
next
  assume "sched_inv k"
  then show "sched_inv (set_sema s m k)"
    by (rule same_sched_inv[rotated]) (simp add: same_sched_def, simp add: set_sema_def)
qed

lemma waits_set_sema:
  assumes "semas k s = Some sem"
  shows "waits (set_sema s m k) t p \<longleftrightarrow> (if p = Some s then t \<in> set (waiters m) else waits k t p)"
  by (auto simp: waits_def split: option.splits)

lemma waits_sema: "semas k s = Some sem \<Longrightarrow> waits k t (Some s) \<longleftrightarrow> t \<in> set (waiters sem)"
  by (simp add: waits_def)

text \<open>Removing waiters or reordering them keeps the invariant.\<close>

lemma base_inv_fewer:
  assumes "base_inv k" "semas k s = Some sem" "set (waiters m) \<subseteq> set (waiters sem)" "distinct (waiters m)"
  shows "base_inv (set_sema s m k)" "kept k (set_sema s m k)"
proof -
  have w: "waits_ok k" using assms(1) by (simp add: base_inv_def)
  have sub: "waits (set_sema s m k) t p \<Longrightarrow> waits k t p" for t p
    using assms(2,3) by (auto simp: waits_set_sema waits_sema split: if_splits)
  note wk = w[unfolded waits_ok_def]
  have "\<forall>t p. waits (set_sema s m k) t p \<longrightarrow> st k t = Some THREAD_BLOCKED \<and> t \<noteq> idle_thread k"
    using wk sub by blast
  moreover have "\<forall>t p q. waits (set_sema s m k) t p \<longrightarrow> waits (set_sema s m k) t q \<longrightarrow> p = q"
    using wk sub by blast
  ultimately have "waits_ok (set_sema s m k)"
    unfolding waits_ok_def using wk assms(4) by simp
  then show "base_inv (set_sema s m k)" using assms(1) by (simp add: base_inv_def)
  show "kept k (set_sema s m k)" unfolding kept_def dormant_def using sub by auto
qed

text \<open>The running thread joins a wait list and blocks.\<close>

lemma block_on:
  assumes b: "base_inv k" and ni: "current k \<noteq> idle_thread k"
    and k1: "sched_inv k1" "current k1 = current k" "st k1 = st k" "idle_thread k1 = idle_thread k"
      "in_external_intr k1 = False" "tid_lock k1 = tid_lock k" "conds k1 = conds k" "rw_locks k1 = rw_locks k"
    and w1: "\<And>t p. waits k1 t p \<longleftrightarrow> waits k t p \<or> (t = current k \<and> p = q)"
    and d1: "\<And>s sem. semas k1 s = Some sem \<Longrightarrow> distinct (waiters sem)" "distinct (sleeping_list k1)"
    and blk: "thread_block k1 = Some k'"
  shows "base_inv k'" "same_sync k1 k'" "kept k k'"
proof -
  have s: "sched_inv k" and w: "waits_ok k" using b by (simp_all add: base_inv_def)
  let ?c = "current k" and ?w = "with_status (current k) THREAD_BLOCKED k1"
  have cr: "st k ?c = Some THREAD_RUNNING" using sched_inv_current[OF s] .
  have k': "k' = switched ?w" "sched_inv k'"
    using thread_block_inv[OF k1(1)] blk k1(2,5) by (auto simp: intr_context_def)
  note t = stop_running[OF k1(1), of THREAD_BLOCKED, simplified, unfolded k1(2)]
  have stw: "st ?w = (st k)(?c \<mapsto> THREAD_BLOCKED)" using cr k1(3) by (simp add: st_with_status)
  have nd: "st ?w (current ?w) \<noteq> Some THREAD_DYING" by (simp add: stw k1)
  then have "same_sync ?w k'" using same_sync_switched k' by simp
  then show ss: "same_sync k1 k'" using same_sync_trans same_sync_with_status by blast
  have st': "st k' u = Some THREAD_BLOCKED" if "st k u = Some THREAD_BLOCKED \<or> u = ?c" "u \<noteq> idle_thread k" for u
  proof -
    have sb: "st ?w u = Some THREAD_BLOCKED" using that(1) by (auto simp: stw)
    then have "u \<noteq> chosen ?w" using chosen_not_waiting[OF t(1)] that(2) k1(4) by simp
    then show ?thesis using st_switched[OF chosen_alive(2)[OF t(1)]] sb nd by (simp add: k' Let_def)
  qed
  have nw: "\<not> waits k ?c p" for p using w cr unfolding waits_ok_def by fastforce
  have "waits_ok k'"
    unfolding waits_ok_def same_syncD(1)[OF ss] w1
    using w nw st' ss d1 ni k1(4) unfolding waits_ok_def same_sync_def by auto
  then show "base_inv k'" using k'(2) ss k1(5) by (simp add: base_inv_def same_sync_def)
  show "kept k k'"
    unfolding kept_def dormant_def same_syncD(1)[OF ss] w1
    using cr st' ss k1(4,6,7,8) by (auto simp: same_sync_def)
qed

lemma sema_down_round_inv:
  assumes "base_inv k" "current k \<noteq> idle_thread k" "sema_down_round s k = Some (ok, k')"
  shows "base_inv k'"
    "ok \<Longrightarrow> \<exists>v. svals k s = Some (Suc v) \<and> svals k' = (svals k)(s \<mapsto> v) \<and> current k' = current k
        \<and> holders k' = holders k \<and> dlocks k' = dlocks k \<and> st k' = st k \<and> threads k' = threads k"
    "\<not> ok \<Longrightarrow> same_locks k k'" "kept k k'"
proof -
  obtain sem where sem: "semas k s = Some sem" using assms(3)
    by (cases "semas k s") (simp_all add: sema_down_round_def bind_eq_Some_conv)
  have w: "waits_ok k" using assms(1) by (simp add: base_inv_def)
  have dw: "distinct (waiters sem)" using w sem unfolding waits_ok_def by blast
  have "base_inv k' \<and> (ok \<longrightarrow> (\<exists>v. svals k s = Some (Suc v) \<and> svals k' = (svals k)(s \<mapsto> v) \<and> current k' = current k
        \<and> holders k' = holders k \<and> dlocks k' = dlocks k \<and> st k' = st k \<and> threads k' = threads k)) \<and> (\<not> ok \<longrightarrow> same_locks k k') \<and> kept k k'"
  proof (cases "svalue sem = 0")
    case True
    let ?k1 = "set_sema s (sem\<lparr>waiters := waiters sem @ [current k]\<rparr>) k"
    have blk: "thread_block ?k1 = Some k'" and ok: "\<not> ok"
      using assms(3) sem True base_inv_current(1)[OF assms(1)]
      by (simp_all add: sema_down_round_def bind_eq_Some_conv)
    have s: "sched_inv k" using assms(1) by (simp add: base_inv_def)
    have nc: "current k \<notin> set (waiters sem)"
    proof
      assume "current k \<in> set (waiters sem)"
      then have "waits k (current k) (Some s)" using waits_sema[OF sem] by simp
      then show False using w base_inv_current(2)[OF assms(1)] unfolding waits_ok_def by fastforce
    qed
    have w1: "waits ?k1 t p \<longleftrightarrow> waits k t p \<or> (t = current k \<and> p = Some s)" for t p
      using waits_sema[OF sem] by (auto simp: waits_set_sema[OF sem])
    have d1: "distinct (waiters m)" if "semas ?k1 s1 = Some m" for s1 m
      using that w dw nc unfolding waits_ok_def by (auto split: if_splits)
    have ex: "in_external_intr ?k1 = False" using assms(1) by (simp add: base_inv_def)
    have d2: "distinct (sleeping_list ?k1)" using w by (simp add: waits_ok_def)
    note r = block_on[OF assms(1,2) _ _ _ _ ex _ _ _ w1 d1 d2 blk]
    have "same_sync ?k1 k'" "base_inv k'" "kept k k'" using r s by auto
    moreover have "same_locks k ?k1" using sem by (auto simp: same_locks_def svals_def)
    ultimately show ?thesis using ok same_locks_trans same_sync_locks by blast
  next
    case False
    then have k': "ok" "k' = set_sema s (sem\<lparr>svalue := svalue sem - 1\<rparr>) k"
      using assms(3) sem by (simp_all add: sema_down_round_def bind_eq_Some_conv)
    then have "base_inv k'" "kept k k'" using base_inv_fewer[OF assms(1) sem] dw by simp_all
    moreover have "svals k s = Some (Suc (svalue sem - 1))" using False sem by (simp add: svals_def)
    ultimately show ?thesis using k' by auto
  qed
  then show "base_inv k'"
    "ok \<Longrightarrow> \<exists>v. svals k s = Some (Suc v) \<and> svals k' = (svals k)(s \<mapsto> v) \<and> current k' = current k
        \<and> holders k' = holders k \<and> dlocks k' = dlocks k \<and> st k' = st k \<and> threads k' = threads k"
    "\<not> ok \<Longrightarrow> same_locks k k'" "kept k k'" by blast+
qed

lemma wake_one_inv:
  assumes "base_inv k" "wake_one s k = Some (u, k')"
  shows "base_inv k'" "same_locks k k'" "current k' = current k" "kept k k'"
proof -
  obtain sem where sem: "semas k s = Some sem" using assms(2) by (auto simp: wake_one_def bind_eq_Some_conv)
  have ex: "\<not> intr_context k" and w: "waits_ok k" using assms(1) by (simp_all add: base_inv_def intr_context_def)
  have dw: "distinct (waiters sem)" using w sem unfolding waits_ok_def by blast
  define ws where "ws = sort_key (\<lambda>t. - eff k t) (waiters sem)"
  have ws: "set ws = set (waiters sem)" "distinct ws" using dw by (simp_all add: ws_def)
  have "base_inv k' \<and> same_locks k k' \<and> current k' = current k \<and> kept k k'"
  proof (cases ws)
    case Nil
    then have "k' = k" using assms(2) sem ex by (simp add: wake_one_def flip: ws_def)
    then show ?thesis using assms(1) by simp
  next
    case (Cons t rest)
    let ?k1 = "set_sema s (sem\<lparr>waiters := rest\<rparr>) k"
    have u: "thread_unblock t ?k1 = Some k'"
      using assms(2) sem ex Cons by (auto simp: wake_one_def bind_eq_Some_conv simp flip: ws_def)
    have "t \<in> set (waiters sem)" using ws(1) Cons by (metis list.set_intros(1))
    then have tw: "waits k t (Some s)" using waits_sema[OF sem] by simp
    then have t: "t \<noteq> idle_thread k" using w unfolding waits_ok_def by blast
    have b1: "base_inv ?k1" "kept k ?k1"
      using base_inv_fewer[OF assms(1) sem, of "sem\<lparr>waiters := rest\<rparr>"] ws Cons by auto
    have nw: "\<not> waits ?k1 t p" for p
    proof
      assume a: "waits ?k1 t p"
      have "p \<noteq> Some s" using a ws Cons by (auto simp: waits_set_sema[OF sem] split: if_splits)
      then have "waits k t p" using a by (simp add: waits_set_sema[OF sem])
      then show False using tw w \<open>p \<noteq> Some s\<close> unfolding waits_ok_def by blast
    qed
    have sl1: "same_locks k ?k1" using sem by (auto simp: same_locks_def svals_def)
    note ub = thread_unblock_base[OF b1(1) u nw]
    have ss: "same_sync ?k1 k'" "base_inv k'" "current k' = current k" using ub(1-3) t by simp_all
    have "dormant k' v" if v: "dormant k v" for v
    proof -
      have "v \<noteq> t" using v tw unfolding dormant_def by blast
      moreover have "dormant ?k1 v" using b1(2) v unfolding kept_def by blast
      ultimately show ?thesis using ub(4) t by simp
    qed
    then have "kept k k'" using ss(1) by (simp add: kept_def same_sync_def)
    then show ?thesis using ss same_locks_trans[OF sl1 same_sync_locks] by blast
  qed
  then show "base_inv k'" "same_locks k k'" "current k' = current k" "kept k k'" by blast+
qed

lemma sema_up_inv:
  assumes "base_inv k" "sema_up s k = Some k'"
  shows "base_inv k'" "\<exists>v. svals k s = Some v \<and> svals k' = (svals k)(s \<mapsto> size_add v 1)"
    "holders k' = holders k" "dlocks k' = dlocks k" "kept k k'"
proof -
  obtain u k1 where w1: "wake_one s k = Some (u, k1)" using assms(2)
    by (auto simp: sema_up_def bind_eq_Some_conv)
  obtain sem where sem: "semas k1 s = Some sem" using assms(2) w1
    by (auto simp: sema_up_def bind_eq_Some_conv)
  note i = wake_one_inv[OF assms(1) w1]
  define k2 where "k2 = set_sema s (sem\<lparr>svalue := size_add (svalue sem) 1\<rparr>) k1"
  have "distinct (waiters sem)" using i(1) sem unfolding base_inv_def waits_ok_def by blast
  then have b2: "base_inv k2" "kept k1 k2" using base_inv_fewer[OF i(1) sem] by (simp_all add: k2_def)
  have "thread_yield k2 = Some k' \<or> k' = k2"
    using assms(2) w1 sem by (auto simp: sema_up_def bind_eq_Some_conv k2_def Let_def split: if_splits)
  then have b: "base_inv k'" and ss: "same_locks k2 k'" and kp: "kept k2 k'"
    using thread_yield_base[OF b2(1)] b2 same_sync_locks by auto
  show "base_inv k'" by (rule b)
  have "svals k1 s = Some (svalue sem)" using sem by (simp add: svals_def)
  then have "svals k s = Some (svalue sem)" using i(2) by (simp add: same_locks_def)
  moreover have "svals k' = (svals k)(s \<mapsto> size_add (svalue sem) 1)"
    using ss i(2) by (simp add: same_locks_def k2_def)
  ultimately show "\<exists>v. svals k s = Some v \<and> svals k' = (svals k)(s \<mapsto> size_add v 1)" by blast
  show "holders k' = holders k" "dlocks k' = dlocks k"
    using ss i(2) by (simp_all add: same_locks_def k2_def)
  show "kept k k'" using i(4) b2(2) kp kept_trans by blast
qed


section \<open>Priorities\<close>

text \<open>Donation and recomputation only change effective priorities and the order of the ready queue.\<close>

definition only_prio :: "kernel \<Rightarrow> kernel \<Rightarrow> bool" where
  "only_prio k k' \<longleftrightarrow> (queue_inv k \<longrightarrow> queue_inv k') \<and> st k' = st k \<and> current k' = current k \<and> same_sync k k'"

lemma only_prio_refl [simp]: "only_prio k k"
  by (simp add: only_prio_def)

lemma only_prio_trans: "only_prio a b \<Longrightarrow> only_prio b c \<Longrightarrow> only_prio a c"
  unfolding only_prio_def using same_sync_trans by metis

lemma only_prio_inv:
  assumes "only_prio k k'" "base_inv k"
  shows "base_inv k'" "same_locks k k'" "current k' = current k" "kept k k'"
proof -
  have o: "queue_inv k \<longrightarrow> queue_inv k'" "st k' = st k" "current k' = current k" "same_sync k k'"
    using assms(1) by (simp_all add: only_prio_def)
  have "sched_inv k'" using assms(2) o by (simp add: base_inv_def sched_inv_def)
  moreover have "waits_ok k'" using waits_ok_same[OF _ o(4)] o(2) assms(2) by (simp add: base_inv_def)
  ultimately show "base_inv k'" using o(4) assms(2) by (simp add: base_inv_def same_sync_def)
  show "same_locks k k'" using o(4) same_sync_locks by simp
  show "current k' = current k" by (rule o(3))
  show "kept k k'" using kept_sync[OF o(4)] o(2) by simp
qed

lemma same_sync_resorted [simp]: "same_sync k (resorted t p k)"
  by (simp add: same_sync_def resorted_def Let_def) (simp add: with_eff_def)

lemma only_prio_step:
  assumes "upd_thread t (\<lambda>th. th\<lparr>effective_priority := p\<rparr>) k = Some k1" "threads k t = Some th"
    "(if status th = THREAD_READY then requeue t k1 else Some k1) = Some k2"
  shows "queue_inv k \<Longrightarrow> only_prio k k2"
proof -
  assume q: "queue_inv k"
  have s: "st k t = Some (status th)" using assms(2) by (simp add: st_def)
  have k1: "k1 = with_eff t p k" using assms(1) s by (simp add: upd_eff)
  have "t \<noteq> idle_thread k" if "status th = THREAD_READY"
  proof -
    have "t \<in> set (priority_queue k) \<or> t \<in> set (fifo_ready_list k)"
      using assms(3) that by (auto simp: k1 requeue_def unlink_ready_def bind_eq_Some_conv split: if_splits)
    then show ?thesis using q unfolding queue_inv_def by auto
  qed
  then have "k2 = resorted t p k" "queue_inv (resorted t p k)"
    using requeue_resorted[OF q s, of p] resorted_queue_inv[OF q, of t p] assms s by (auto split: if_splits)
  then show ?thesis by (simp add: only_prio_def)
qed

lemma recurse_donate_only:
  "recurse_donate_loop t k = Some k' \<Longrightarrow> queue_inv k \<longrightarrow> only_prio k k'"
proof (rule recurse_donate_loop.raw_induct[where P = "\<lambda>t k k'. queue_inv k \<longrightarrow> only_prio k k'"], intro impI)
  fix loop cur k k'
  assume IH: "\<And>h b y. loop h b = Some y \<Longrightarrow> queue_inv b \<longrightarrow> only_prio b y" and q: "queue_inv k"
    and run: "(threads k cur \<bind> (\<lambda>c. if donated_to c \<noteq> 0 then holders k (donated_to c) \<bind> (\<lambda>h.
      if h \<noteq> 0 then threads k h \<bind> (\<lambda>n. if effective_priority n < effective_priority c
        then upd_thread h (effective_priority_update (\<lambda>_. effective_priority c)) k \<bind>
          (\<lambda>k. (if status n = THREAD_READY then requeue h k else Some k) \<bind> loop h)
        else Some k) else Some k) else Some k)) = Some k'"
  show "only_prio k k'"
  proof (cases "k' = k")
    case False
    define rq where "rq = (\<lambda>(n :: thread) h k. if status n = THREAD_READY then requeue h k else Some k)"
    have rq: "(if status n = THREAD_READY then requeue h k else Some k) = rq n h k" for n :: thread and h k
      by (simp add: rq_def)
    obtain p h n k1 k2 where s: "threads k h = Some n"
        "upd_thread h (\<lambda>th. th\<lparr>effective_priority := p\<rparr>) k = Some k1"
        "rq n h k1 = Some k2" "loop h k2 = Some k'"
      using run False unfolding rq by (auto simp: bind_eq_Some_conv split: if_splits)
    have "only_prio k k2" by (rule only_prio_step[OF s(2,1) s(3)[unfolded rq_def] q])
    moreover have "only_prio k2 k'" using IH[OF s(4)] calculation q by (simp add: only_prio_def)
    ultimately show ?thesis by (rule only_prio_trans)
  qed simp
qed

lemma update_priority_only:
  assumes "update_priority t k = Some k'" "queue_inv k"
  shows "only_prio k k'"
proof -
  obtain th p k1 where "threads k t = Some th"
      "upd_thread t (\<lambda>th. th\<lparr>effective_priority := p\<rparr>) k = Some k1"
      "(if status th = THREAD_READY then requeue t k1 else Some k1) = Some k'"
    using assms(1) by (auto simp: update_priority_def bind_eq_Some_conv)
  then show ?thesis using only_prio_step assms(2) by blast
qed

section \<open>Locks\<close>

text \<open>A change of the running thread's donation fields or of the holders is invisible to the scheduler.\<close>

lemma base_inv_cong:
  assumes "base_inv k" "same_sched k k'" "semas k' = semas k" "sleeping_list k' = sleeping_list k"
    "in_external_intr k' = in_external_intr k"
  shows "base_inv k'"
proof -
  have "waits k' = waits k" using assms(3,4) by (intro ext) (simp add: waits_def split: option.split)
  then have "waits_ok k'" using assms unfolding base_inv_def waits_ok_def same_sched_def by simp
  then show ?thesis using assms same_sched_inv unfolding base_inv_def by auto
qed

lemma kept_cong:
  assumes "st k' = st k" "semas k' = semas k" "sleeping_list k' = sleeping_list k"
    "idle_thread k' = idle_thread k" "tid_lock k' = tid_lock k" "conds k' = conds k" "rw_locks k' = rw_locks k"
  shows "kept k k'"
proof -
  have "waits k' = waits k" using assms(2,3) by (intro ext) (simp add: waits_def split: option.split)
  then show ?thesis using assms by (simp add: kept_def dormant_def)
qed

lemma upd_thread_same_sched:
  assumes "upd_thread t f k = Some k'" "\<And>th. status (f th) = status th"
    "\<And>th. effective_priority (f th) = effective_priority th"
  shows "same_sched k k'" "semas k' = semas k" "sleeping_list k' = sleeping_list k"
    "in_external_intr k' = in_external_intr k" "holders k' = holders k" "svals k' = svals k"
    "kept k k'"
    "dlocks k' = (dlocks k)(t := map_option (\<lambda>th. donated_locks (f th)) (threads k t))"
proof -
  obtain th where th: "threads k t = Some th" "k' = k\<lparr>threads := (threads k)(t \<mapsto> f th)\<rparr>"
    using assms(1) by (auto simp: upd_thread_def bind_eq_Some_conv)
  have se: "st k' = st k" "eff k' = eff k" using th assms(2,3) by (auto simp: st_def eff_def fun_eq_iff)
  then show "same_sched k k'" using th by (simp add: same_sched_def)
  show "semas k' = semas k" "sleeping_list k' = sleeping_list k" "holders k' = holders k"
    "in_external_intr k' = in_external_intr k" using th by simp_all
  show "kept k k'" by (rule kept_cong) (use th se in simp_all)
  show "svals k' = svals k" using th by (simp add: svals_def fun_eq_iff)
  show "dlocks k' = (dlocks k)(t := map_option (\<lambda>th. donated_locks (f th)) (threads k t))"
    using th by (auto simp: dlocks_def)
qed

lemma same_sched_holders [simp]: "same_sched k (k\<lparr>holders := h\<rparr>)"
  by (simp add: same_sched_def)

lemma base_inv_holders: "base_inv k \<Longrightarrow> base_inv (k\<lparr>holders := h\<rparr>)"
  by (rule base_inv_cong) simp_all

text \<open>The whole invariant of the synchronisation layer.\<close>

definition sync_inv :: "kernel \<Rightarrow> bool" where
  "sync_inv k \<longleftrightarrow> base_inv k \<and> locks_ok k"

lemma sync_inv_same: "sync_inv k \<Longrightarrow> base_inv k' \<Longrightarrow> same_locks k k' \<Longrightarrow> sync_inv k'"
  by (simp add: sync_inv_def same_locks_ok)

lemma current_nonnull:
  assumes "base_inv k" shows "current k \<noteq> NULL" "dlocks k NULL = None"
proof -
  have n: "st k NULL = None" using assms by (simp add: base_inv_def sched_inv_def queue_inv_def)
  then show "dlocks k NULL = None" by (simp add: dlocks_def st_def)
  show "current k \<noteq> NULL" by (rule st_nonnull[OF _ n]) (simp add: base_inv_current(2)[OF assms])
qed

lemma lock_acquire_round_inv:
  assumes "sync_inv k" "current k \<noteq> idle_thread k" "holders k l \<noteq> None"
    "lock_acquire_round l k = Some (ok, k')"
  shows "sync_inv k'" "kept k k'"
    "ok \<Longrightarrow> holders k l = Some NULL \<and> holders k' = (holders k)(l \<mapsto> current k)"
    "\<not> ok \<Longrightarrow> holders k' = holders k"
proof -
  have b: "base_inv k" and lk: "locks_ok k" using assms(1) by (simp_all add: sync_inv_def)
  obtain k1 where r: "sema_down_round (lock_sema l) k = Some (ok, k1)"
    using assms(4) by (auto simp: lock_acquire_round_def bind_eq_Some_conv split: if_splits)
  note d = sema_down_round_inv[OF b assms(2) r]
  have "sync_inv k' \<and> kept k k'
    \<and> (ok \<longrightarrow> holders k l = Some NULL \<and> holders k' = (holders k)(l \<mapsto> current k))
    \<and> (\<not> ok \<longrightarrow> holders k' = holders k)"
  proof (cases ok)
    case False
    then have "k' = k1" using assms(4) r by (simp add: lock_acquire_round_def)
    then show ?thesis using d(1) d(3)[OF False] d(4) sync_inv_same[OF assms(1)] False by (simp add: same_locks_def)
  next
    case True
    obtain v where v: "svals k (lock_sema l) = Some (Suc v)" "svals k1 = (svals k)(lock_sema l \<mapsto> v)"
        "current k1 = current k" "holders k1 = holders k" "dlocks k1 = dlocks k"
        "threads k1 = threads k"
      using d(2)[OF True] by blast
    obtain k2 where u: "upd_thread (current k)
          (\<lambda>th. th\<lparr>donated_to := NULL, donated_locks := donated_locks th @ [l]\<rparr>) k1 = Some k2"
        "k' = k2\<lparr>holders := (holders k2)(l \<mapsto> current k)\<rparr>"
      using assms(4) r True base_inv_current(1)[OF d(1)] v(3)
      by (auto simp: lock_acquire_round_def bind_eq_Some_conv)
    note s = upd_thread_same_sched[OF u(1), simplified]
    obtain th where th: "threads k (current k) = Some th"
      using u(1) v(6) by (auto simp: upd_thread_def bind_eq_Some_conv)
    define ls where "ls = donated_locks th"
    have ls: "dlocks k (current k) = Some ls" "dlocks k2 = (dlocks k)(current k \<mapsto> ls @ [l])"
      using s(8) v(5,6) th by (simp_all add: ls_def) (simp add: dlocks_def)
    have b': "base_inv k'" unfolding u(2)
      by (rule base_inv_holders) (rule base_inv_cong[OF d(1) s(1-4)])
    obtain h where h: "holders k l = Some h" using assms(3) by blast
    have "svals k (lock_sema l) = Some (if h = NULL then 1 else 0)" using lk h by (simp add: locks_ok_def)
    then have h0: "h = NULL" "v = 0" using v(1) by (auto split: if_splits)
    have fresh: "l \<notin> set ls'" if "dlocks k t = Some ls'" "t \<noteq> NULL" for t ls'
      using lk that h h0 unfolding locks_ok_def by fastforce
    note cn = current_nonnull(1)[OF b] and dn = current_nonnull(2)[OF b]
    have inj: "lock_sema l' = lock_sema l \<longleftrightarrow> l' = l" for l' by (simp add: lock_sema_def)
    have "locks_ok k'"
      unfolding locks_ok_def
    proof (intro conjI allI impI ballI)
      fix l' h' assume "holders k' l' = Some h'"
      then show "svals k' (lock_sema l') = Some (if h' = NULL then 1 else 0)"
        using lk v s(5,6) h0 cn u(2) inj
        by (auto simp: locks_ok_def svals_def fun_eq_iff split: if_splits)
    next
      fix t ls' assume t: "dlocks k' t = Some ls'"
      then have t': "((dlocks k)(current k \<mapsto> ls @ [l])) t = Some ls'" by (simp add: u(2) ls)
      show "distinct ls'" using t' lk ls(1) fresh[OF ls(1) cn] by (auto simp: locks_ok_def split: if_splits)
      fix l' assume l': "l' \<in> set ls'"
      have "t \<noteq> NULL" using t' dn cn by (cases "t = 0") (auto split: if_splits)
      then have "l' = l \<Longrightarrow> t = current k" using t' fresh l' by (auto split: if_splits)
      then show "holders k' l' = Some t" using t' lk ls(1) l' u(2) s(5) v(4)
        by (auto simp: locks_ok_def split: if_splits)
    qed
    moreover have "kept k2 k'" by (rule kept_cong) (simp_all add: u(2))
    then have "kept k k'" using d(4) s(7) kept_trans by blast
    ultimately show ?thesis using b' True h h0 u(2) s v by (simp add: sync_inv_def same_sched_def)
  qed
  then show "sync_inv k'" "kept k k'"
    "ok \<Longrightarrow> holders k l = Some NULL \<and> holders k' = (holders k)(l \<mapsto> current k)"
    "\<not> ok \<Longrightarrow> holders k' = holders k" by blast+
qed

lemma held_Some: "base_inv k \<Longrightarrow> lock_held_by_current_thread l k = Some b \<Longrightarrow>
    l \<noteq> NULL \<and> (\<exists>h. holders k l = Some h \<and> b = (h = current k))"
  by (auto simp: lock_held_by_current_thread_def bind_eq_Some_conv base_inv_current)

lemma lock_acquire_inv:
  assumes "sync_inv k" "current k \<noteq> idle_thread k" "lock_acquire l k = Some (ok, k')"
  shows "sync_inv k'" "kept k k'"
    "ok \<Longrightarrow> holders k l = Some NULL \<and> holders k' = (holders k)(l \<mapsto> current k)"
    "\<not> ok \<Longrightarrow> holders k' = holders k"
proof -
  have b: "base_inv k" using assms(1) by (simp add: sync_inv_def)
  obtain k1 h k2 where s: "upd_thread (current k) (\<lambda>th. th\<lparr>donated_to := l\<rparr>) k = Some k1"
      "holders k1 l = Some h" "recurse_donate (current k) k1 = Some k2 \<or> k2 = k1"
      "lock_acquire_round l k2 = Some (ok, k')"
    using assms(3) by (auto simp: lock_acquire_def bind_eq_Some_conv base_inv_current[OF b] split: if_splits)
  note u = upd_thread_same_sched[OF s(1), simplified]
  have b1: "base_inv k1" by (rule base_inv_cong[OF b u(1-4)])
  have "dlocks k1 = dlocks k" using u(8) s(1)
    by (auto simp: upd_thread_def bind_eq_Some_conv dlocks_def fun_eq_iff)
  then have sl1: "same_locks k k1" using u by (simp add: same_locks_def same_sched_def)
  have o: "only_prio k1 k2" using s(3) recurse_donate_only b1
    by (auto simp: recurse_donate_def base_inv_def sched_inv_def split: if_splits)
  note o2 = only_prio_inv[OF o b1]
  have sl: "same_locks k k2" using sl1 o2(2) same_locks_trans by blast
  have c: "current k2 = current k" using o2(3) u(1) by (simp add: same_sched_def)
  have i2: "sync_inv k2" by (rule sync_inv_same[OF assms(1) o2(1) sl])
  have h2: "holders k2 l \<noteq> None" using s(2) sl u(5) by (simp add: same_locks_def)
  have kp: "kept k k2" using u(7) o2(4) kept_trans by blast
  have ci: "current k2 \<noteq> idle_thread k2" using c kp assms(2) by (simp add: kept_def)
  note r = lock_acquire_round_inv[OF i2 ci h2 s(4)]
  show "sync_inv k'" by (rule r(1))
  show "kept k k'" using r(2) kp kept_trans by blast
  show "ok \<Longrightarrow> holders k l = Some NULL \<and> holders k' = (holders k)(l \<mapsto> current k)"
    "\<not> ok \<Longrightarrow> holders k' = holders k" using r(3,4) sl c by (simp_all add: same_locks_def)
qed

lemma lock_release_inv:
  assumes "sync_inv k" "lock_release l k = Some k'"
  shows "sync_inv k'" "kept k k'"
    "holders k l = Some (current k) \<and> holders k' = (holders k)(l \<mapsto> NULL)"
proof -
  have b: "base_inv k" and lk: "locks_ok k" using assms(1) by (simp_all add: sync_inv_def)
  obtain k1 k2 where s: "unlink_lock (current k) l k = Some k1"
      "update_priority (current k) (k1\<lparr>holders := (holders k1)(l \<mapsto> NULL)\<rparr>) = Some k2"
      "sema_up (lock_sema l) k2 = Some k'" and h: "holders k l = Some (current k)"
    using assms(2) held_Some[OF b] by (auto simp: lock_release_def bind_eq_Some_conv base_inv_current[OF b])
  obtain th where th: "threads k (current k) = Some th" "l \<in> set (donated_locks th)"
      "upd_thread (current k) (\<lambda>th. th\<lparr>donated_locks := remove1 l (donated_locks th)\<rparr>) k = Some k1"
    using s(1) by (auto simp: unlink_lock_def bind_eq_Some_conv)
  note u = upd_thread_same_sched[OF th(3), simplified]
  define k3 where "k3 = k1\<lparr>holders := (holders k1)(l \<mapsto> NULL)\<rparr>"
  have b3: "base_inv k3" unfolding k3_def by (rule base_inv_holders) (rule base_inv_cong[OF b u(1-4)])
  have k3: "kept k1 k3" by (rule kept_cong) (simp_all add: k3_def)
  have o: "only_prio k3 k2"
    by (rule update_priority_only[where t = "current k"]) (use s(2) b3 in \<open>simp_all add: k3_def base_inv_def sched_inv_def\<close>)
  note o2 = only_prio_inv[OF o b3]
  note su = sema_up_inv[OF o2(1) s(3)]
  have hk: "holders k' = (holders k)(l \<mapsto> NULL)" using su(3) o2(2) u(5) by (simp add: same_locks_def k3_def)
  have dk: "dlocks k' = (dlocks k)(current k \<mapsto> remove1 l (donated_locks th))"
    using su(4) o2(2) u(8) th(1) by (simp add: same_locks_def k3_def)
  note cn = current_nonnull(1)[OF b]
  have "svals k (lock_sema l) = Some 0" using lk h cn by (simp add: locks_ok_def)
  moreover have "svals k2 = svals k" using o2(2) u(6) by (simp add: same_locks_def k3_def svals_def fun_eq_iff)
  ultimately have sk: "svals k' = (svals k)(lock_sema l \<mapsto> 1)" using su(2) by auto
  have inj: "lock_sema l' = lock_sema l \<longleftrightarrow> l' = l" for l' by (simp add: lock_sema_def)
  have dth: "dlocks k (current k) = Some (donated_locks th)" using th(1) by (simp add: dlocks_def)
  have "locks_ok k'"
    unfolding locks_ok_def
  proof (intro conjI allI impI ballI)
    fix l' h' assume "holders k' l' = Some h'"
    then show "svals k' (lock_sema l') = Some (if h' = NULL then 1 else 0)"
      using lk by (auto simp: locks_ok_def hk sk inj split: if_splits)
  next
    fix t ls' assume t: "dlocks k' t = Some ls'"
    show "distinct ls'" using t lk dth by (auto simp: locks_ok_def dk split: if_splits)
    fix l' assume l': "l' \<in> set ls'"
    have "distinct (donated_locks th)" using lk dth unfolding locks_ok_def by blast
    then have "l' \<noteq> l" using t l' lk h unfolding dk locks_ok_def
      by (auto split: if_splits)
    moreover have "holders k l' = Some t" using t l' lk dth unfolding dk locks_ok_def
      by (auto split: if_splits dest: in_set_remove1[THEN iffD1] set_remove1_subset[THEN subsetD])
    ultimately show "holders k' l' = Some t" by (simp add: hk)
  qed
  then show "sync_inv k'" using su(1) by (simp add: sync_inv_def)
  show "kept k k'" using u(7) k3 o2(4) su(5) kept_trans by blast
  show "holders k l = Some (current k) \<and> holders k' = (holders k)(l \<mapsto> NULL)" using h hk by simp
qed

section \<open>The queue of a lock\<close>

lemma upd_thread_semas: "upd_thread t f k = Some k' \<Longrightarrow> semas k' = semas k"
  by (auto simp: upd_thread_def bind_eq_Some_conv)

lemma schedule_semas:
  assumes "schedule k = Some k'"
  shows "semas k' = semas k"
proof -
  obtain nxt k1 k2 prev where s: "next_thread_to_run k = Some (nxt, k1)" "k2 = k1 \<or> k2 = k1\<lparr>current := nxt\<rparr>"
      "thread_switch_tail prev k2 = Some k'"
    using assms by (auto simp: schedule_def bind_eq_Some_conv Let_def split: if_splits)
  have "semas k1 = semas k"
    using s(1) by (auto simp: next_thread_to_run_def thread_schedule_fifo_def thread_schedule_prio_def
        split: sched_policy.splits list.splits)
  moreover obtain k3 where k3: "upd_thread (running_thread k2) (\<lambda>th. th\<lparr>status := THREAD_RUNNING\<rparr>) k2 = Some k3"
      "semas k' = semas k3"
    using s(3) by (auto simp: thread_switch_tail_def bind_eq_Some_conv Let_def split: if_splits)
  ultimately show ?thesis using s(2) upd_thread_semas[OF k3(1)] by auto
qed

lemma thread_block_semas: "thread_block k = Some k' \<Longrightarrow> semas k' = semas k"
  unfolding thread_block_def bind_eq_Some_conv using upd_thread_semas schedule_semas by metis

text \<open>A caller that does not get the lock is the last one in the queue of the lock's semaphore, and blocked.\<close>

definition queued_on :: "addr \<Rightarrow> kernel \<Rightarrow> kernel \<Rightarrow> bool" where
  "queued_on s k k' \<longleftrightarrow> (\<exists>sem. semas k s = Some sem \<and> svalue sem = 0
     \<and> semas k' = (semas k)(s \<mapsto> sem\<lparr>waiters := waiters sem @ [current k]\<rparr>)
     \<and> st k' (current k) = Some THREAD_BLOCKED)"

lemma sema_down_round_queues:
  assumes "base_inv k" "current k \<noteq> idle_thread k" "sema_down_round s k = Some (False, k')"
  shows "queued_on s k k'"
proof -
  obtain sem where sem: "semas k s = Some sem" using assms(3)
    by (cases "semas k s") (simp_all add: sema_down_round_def bind_eq_Some_conv)
  have v: "svalue sem = 0" "thread_block (set_sema s (sem\<lparr>waiters := waiters sem @ [current k]\<rparr>) k) = Some k'"
    using assms(3) sem base_inv_current(1)[OF assms(1)]
    by (auto simp: sema_down_round_def bind_eq_Some_conv split: if_splits)
  have q: "semas k' = (semas k)(s \<mapsto> sem\<lparr>waiters := waiters sem @ [current k]\<rparr>)"
    using thread_block_semas[OF v(2)] by simp
  have "waits_ok k'" using sema_down_round_inv(1)[OF assms] by (simp add: base_inv_def)
  moreover have "waits k' (current k) (Some s)" by (simp add: waits_def q)
  ultimately have "st k' (current k) = Some THREAD_BLOCKED" unfolding waits_ok_def by blast
  then show ?thesis using sem v(1) q by (simp add: queued_on_def)
qed

lemma lock_acquire_queues:
  assumes "sync_inv k" "current k \<noteq> idle_thread k" "lock_acquire l k = Some (False, k')"
  shows "queued_on (lock_sema l) k k'" "\<exists>h. holders k l = Some h \<and> h \<noteq> NULL"
proof -
  have b: "base_inv k" and lk: "locks_ok k" using assms(1) by (simp_all add: sync_inv_def)
  obtain k1 h k2 where s: "upd_thread (current k) (\<lambda>th. th\<lparr>donated_to := l\<rparr>) k = Some k1"
      "holders k1 l = Some h" "recurse_donate (current k) k1 = Some k2 \<or> k2 = k1"
      "lock_acquire_round l k2 = Some (False, k')"
    using assms(3) by (auto simp: lock_acquire_def bind_eq_Some_conv base_inv_current[OF b] split: if_splits)
  note u = upd_thread_same_sched[OF s(1), simplified]
  have b1: "base_inv k1" by (rule base_inv_cong[OF b u(1-4)])
  have o: "only_prio k1 k2" using s(3) recurse_donate_only b1
    by (auto simp: recurse_donate_def base_inv_def sched_inv_def)
  note o2 = only_prio_inv[OF o b1]
  have sm: "semas k2 = semas k" "idle_thread k2 = idle_thread k" "current k2 = current k"
    using o u(1,2) by (simp_all add: only_prio_def same_sync_def same_sched_def)
  have "sema_down_round (lock_sema l) k2 = Some (False, k')"
    using s(4) by (auto simp: lock_acquire_round_def bind_eq_Some_conv split: if_splits)
  then have q: "queued_on (lock_sema l) k2 k'" using sema_down_round_queues[OF o2(1)] assms(2) sm by simp
  then show "queued_on (lock_sema l) k k'" by (simp add: queued_on_def sm)
  have "svals k (lock_sema l) = Some (if h = NULL then 1 else 0)" using lk s(2) u(5) by (simp add: locks_ok_def)
  moreover have "svals k (lock_sema l) = Some 0" using q by (auto simp: queued_on_def svals_def sm)
  ultimately have "h \<noteq> NULL" by (auto split: if_splits)
  then show "\<exists>h. holders k l = Some h \<and> h \<noteq> NULL" using s(2) u(5) by auto
qed

end
