(* ===== verification/Kernel.thy ===== *)
theory Kernel
  imports SynchInv
begin

text \<open>
  All threads together: a system is the kernel state and, for every thread, the frames its kernel code
  still has to run.  The step relation interleaves frames, new calls of the running thread and timer
  interrupts.  The theorem is that the invariants of theories SchedInv and SynchInv hold in every
  reachable state.
\<close>

section \<open>Steps\<close>

type_synonym sys = "kernel \<times> (addr \<Rightarrow> frame list)"

datatype kcall =
    KSemaDown addr | KSemaTryDown addr | KSemaUp addr
  | KLockAcquire addr | KLockRelease addr
  | KCondWait addr addr addr addr | KCondSignal addr addr | KCondBroadcast addr addr
  | KRwAcquire addr bool addr addr | KRwRelease addr bool
  | KYield | KSleep int | KSetPriority int | KCreate addr int | KExit
  | KSemaInit addr nat | KLockInit addr | KCondInit addr | KRwInit addr

fun run_call :: "kcall \<Rightarrow> kernel \<Rightarrow> (frame list \<times> kernel) option" where
  "run_call (KSemaDown s) k = Some ([FSemaDown s], k)"
| "run_call (KSemaTryDown s) k = map_option (\<lambda>r. ([], snd r)) (sema_try_down s k)"
| "run_call (KSemaUp s) k = map_option (Pair []) (sema_up s k)"
| "run_call (KLockAcquire l) k = Some ([FLockAcquire l], k)"
| "run_call (KLockRelease l) k = map_option (Pair []) (lock_release l k)"
| "run_call (KCondWait c l w junk) k = cond_wait c l w junk k"
| "run_call (KCondSignal c l) k = map_option (Pair []) (cond_signal c l k)"
| "run_call (KCondBroadcast c l) k = Some ([FBroadcast c l], k)"
| "run_call (KRwAcquire rw reader w junk) k = Some (rw_lock_acquire rw reader w junk, k)"
| "run_call (KRwRelease rw reader) k = Some (rw_lock_release rw reader, k)"
| "run_call KYield k = map_option (Pair []) (thread_yield k)"
| "run_call (KSleep n) k = timer_sleep n k"
| "run_call (KSetPriority n) k = map_option (Pair []) (thread_set_priority n k)"
| "run_call (KCreate page pri) k = thread_create page pri k"
| "run_call KExit k = map_option (Pair []) (thread_exit k)"
| "run_call (KSemaInit s v) k = map_option (Pair []) (sema_init s v k)"
| "run_call (KLockInit l) k = map_option (Pair []) (lock_init l k)"
| "run_call (KCondInit c) k = map_option (Pair []) (cond_init c k)"
| "run_call (KRwInit rw) k = map_option (Pair []) (rw_lock_init rw k)"

text \<open>Memory does not overlap: a semaphore used by itself, or the one of a waiter on the stack of the
  thread that calls \<open>cond_wait\<close>, is not the one inside a lock; a waiter's semaphore has no waiters
  before it is initialised; a new thread's page is not in use.\<close>

definition plain_sema :: "kernel \<Rightarrow> addr \<Rightarrow> bool" where
  "plain_sema k s \<longleftrightarrow> s \<notin> lock_sema ` dom (holders k)"

definition fresh_sema :: "kernel \<Rightarrow> addr \<Rightarrow> bool" where
  "fresh_sema k w \<longleftrightarrow> plain_sema k w \<and> (\<forall>t. \<not> waits k t (Some w))"

fun frame_ok :: "frame \<Rightarrow> kernel \<Rightarrow> bool" where
  "frame_ok (FRwLoop rw reader w junk) k = fresh_sema k w"
| "frame_ok (FRwWoken rw reader w junk) k = fresh_sema k w"
| "frame_ok _ k = True"

fun call_ok :: "kcall \<Rightarrow> kernel \<Rightarrow> bool" where
  "call_ok (KSemaDown s) k = plain_sema k s"
| "call_ok (KSemaTryDown s) k = plain_sema k s"
| "call_ok (KSemaUp s) k = plain_sema k s"
| "call_ok (KCondWait c l w junk) k = fresh_sema k w"
| "call_ok (KCreate page pri) k = (threads k page = None)"
| "call_ok (KSemaInit s v) k = (fresh_sema k s \<and> v < 2 ^ 32)"
| "call_ok _ k = True"

text \<open>A lock is initialised in memory that is not in use as another object: nobody holds it, its semaphore
  has no waiters, and no thread is about to wait on that semaphore by itself.\<close>

definition lock_unused :: "kernel \<Rightarrow> (addr \<Rightarrow> frame list) \<Rightarrow> addr \<Rightarrow> bool" where
  "lock_unused k p l \<longleftrightarrow> (holders k l = None \<or> holders k l = Some NULL) \<and> (\<forall>t. \<not> waits k t (Some (lock_sema l)))
     \<and> (\<forall>u. FSemaDown (lock_sema l) \<notin> set (p u))
     \<and> (\<forall>c ws w. conds k c = Some ws \<longrightarrow> w \<in> set ws \<longrightarrow> e_sema w \<noteq> lock_sema l)"

fun init_ok :: "kcall \<Rightarrow> kernel \<Rightarrow> (addr \<Rightarrow> frame list) \<Rightarrow> bool" where
  "init_ok (KLockInit l) k p = lock_unused k p l"
| "init_ok (KRwInit rw) k p = lock_unused k p (rw_guard rw)"
| "init_ok _ k p = True"

fun called_thread :: "kcall \<Rightarrow> addr set" where
  "called_thread (KCreate page pri) = {page}"
| "called_thread _ = {}"

text \<open>The frames of a new thread are empty: it will make calls of its own.\<close>

inductive sys_step :: "sys \<Rightarrow> sys \<Rightarrow> bool" where
  frame: "p (current k) = f # fs \<Longrightarrow> frame_ok f k \<Longrightarrow> run_frame f k = Some (gs, k') \<Longrightarrow>
    sys_step (k, p) (k', p(current k := gs @ fs))"
| call: "p (current k) = [] \<Longrightarrow> current k \<noteq> idle_thread k \<Longrightarrow> call_ok c k \<Longrightarrow> init_ok c k p \<Longrightarrow>
    run_call c k = Some (gs, k') \<Longrightarrow>
    sys_step (k, p) (k', (\<lambda>t. if t = current k then gs else if t \<in> called_thread c then [] else p t))"
| irq: "intr_handler_timer k = Some k' \<Longrightarrow> sys_step (k, p) (k', p)"

inductive_cases sys_stepE: "sys_step s s'"

definition reachable :: "sys \<Rightarrow> sys \<Rightarrow> bool" where
  "reachable = sys_step\<^sup>*\<^sup>*"

section \<open>Invariant of the kernel state\<close>

definition conds_ok :: "kernel \<Rightarrow> bool" where
  "conds_ok k \<longleftrightarrow> (\<forall>c ws w. conds k c = Some ws \<longrightarrow> w \<in> set ws \<longrightarrow> plain_sema k (e_sema w))"

definition good :: "kernel \<Rightarrow> bool" where
  "good k \<longleftrightarrow> sync_inv k \<and> conds_ok k"

text \<open>What every operation respects; \<open>X\<close> holds the threads it may start.\<close>

definition calm :: "addr set \<Rightarrow> kernel \<Rightarrow> kernel \<Rightarrow> bool" where
  "calm X k k' \<longleftrightarrow> good k' \<and> idle_thread k' = idle_thread k \<and> dom (holders k') = dom (holders k)
     \<and> (\<forall>t. t \<notin> X \<longrightarrow> dormant k t \<longrightarrow> dormant k' t)"

lemma calm_trans: "calm X a b \<Longrightarrow> calm Y b c \<Longrightarrow> calm (X \<union> Y) a c"
  by (simp add: calm_def)

lemma calm_trans0: "calm {} a b \<Longrightarrow> calm {} b c \<Longrightarrow> calm {} a c"
  using calm_trans[of "{}" a b "{}" c] by simp

lemma goodD: "good k \<Longrightarrow> sync_inv k" "good k \<Longrightarrow> base_inv k" "good k \<Longrightarrow> sched_inv k"
  "good k \<Longrightarrow> waits_ok k" "good k \<Longrightarrow> \<not> intr_context k"
  by (simp_all add: good_def sync_inv_def base_inv_def intr_context_def)

lemma plain_sema_dom: "dom (holders k') = dom (holders k) \<Longrightarrow> plain_sema k' = plain_sema k"
  by (simp add: plain_sema_def fun_eq_iff)

lemma calm_kept:
  assumes "good k" "sync_inv k'" "kept k k'" "dom (holders k') = dom (holders k)"
  shows "calm {} k k'"
  using assms unfolding calm_def good_def conds_ok_def kept_def plain_sema_dom[OF assms(4)] by simp

lemma calm_base:
  assumes "good k" "base_inv k'" "same_locks k k'" "kept k k'"
  shows "calm {} k k'"
  using assms calm_kept[OF assms(1) _ assms(4)] sync_inv_same[of k k']
  by (simp add: goodD same_locks_def)

lemma calm_refl: "good k \<Longrightarrow> calm {} k k"
  by (simp add: calm_def)

text \<open>Counters and flags.\<close>

lemma calm_same:
  assumes "good k" "same_sched k k'" "semas k' = semas k" "sleeping_list k' = sleeping_list k"
    "in_external_intr k' = in_external_intr k" "holders k' = holders k" "dlocks k' = dlocks k"
    "\<And>c ws w. conds k' c = Some ws \<Longrightarrow> w \<in> set ws \<Longrightarrow> plain_sema k (e_sema w)"
  shows "calm {} k k'"
proof -
  have w: "waits k' = waits k" using assms(3,4) by (intro ext) (simp add: waits_def split: option.split)
  have "svals k' = svals k" using assms(3) by (intro ext) (simp add: svals_def)
  then have "same_locks k k'" using assms by (simp add: same_locks_def)
  moreover have "base_inv k'" by (rule base_inv_cong[OF goodD(2)[OF assms(1)] assms(2-5)])
  ultimately have "sync_inv k'" using sync_inv_same goodD(1)[OF assms(1)] by blast
  then show ?thesis
    using assms plain_sema_dom[of k' k] w
    by (auto simp: calm_def good_def conds_ok_def dormant_def same_sched_def)
qed

lemma calm_rw [simp]: "good k \<Longrightarrow> calm {} k (set_rw rw c k)"
  by (rule calm_same) (auto simp: set_rw_def same_sched_def good_def conds_ok_def)

section \<open>Operations\<close>

lemma sema_up_calm:
  assumes "good k" "plain_sema k s" "sema_up s k = Some k'"
  shows "calm {} k k'"
proof -
  note u = sema_up_inv[OF goodD(2)[OF assms(1)] assms(3)]
  have "lock_sema l \<noteq> s" if "holders k l = Some h" for l h
    using assms(2) that unfolding plain_sema_def by auto
  then have "locks_ok k'" using goodD(1)[OF assms(1)] u(2-4)
    by (fastforce simp: sync_inv_def locks_ok_def)
  then show ?thesis using calm_kept[OF assms(1) _ u(5)] u(1,3) by (simp add: sync_inv_def)
qed

lemma sema_down_calm:
  assumes "good k" "plain_sema k s" "current k \<noteq> idle_thread k" "sema_down_round s k = Some (ok, k')"
  shows "calm {} k k'"
proof -
  note d = sema_down_round_inv[OF goodD(2)[OF assms(1)] assms(3,4)]
  have ns: "lock_sema l \<noteq> s" if "holders k l = Some h" for l h
    using assms(2) that unfolding plain_sema_def by auto
  show ?thesis
  proof (cases ok)
    case True
    then obtain v where v: "svals k' = (svals k)(s \<mapsto> v)" "holders k' = holders k" "dlocks k' = dlocks k"
      using d(2) by blast
    then have "locks_ok k'" using goodD(1)[OF assms(1)] ns by (auto simp: sync_inv_def locks_ok_def)
    then show ?thesis using calm_kept[OF assms(1) _ d(4)] d(1) v(2) by (simp add: sync_inv_def)
  next
    case False
    show ?thesis by (rule calm_base[OF assms(1) d(1) d(3)[OF False] d(4)])
  qed
qed

lemma sema_try_down_calm:
  assumes "good k" "plain_sema k s" "sema_try_down s k = Some (ok, k')"
  shows "calm {} k k'"
proof -
  obtain sem where sem: "semas k s = Some sem" using assms(3)
    by (auto simp: sema_try_down_def bind_eq_Some_conv)
  have k': "k' = k \<or> k' = set_sema s (sem\<lparr>svalue := svalue sem - 1\<rparr>) k"
    using assms(3) sem by (auto simp: sema_try_down_def bind_eq_Some_conv split: if_splits)
  show ?thesis
  proof (cases "k' = k")
    case True
    then show ?thesis using assms(1) calm_refl by simp
  next
    case False
    then have k': "k' = set_sema s (sem\<lparr>svalue := svalue sem - 1\<rparr>) k" using k' by simp
    have "distinct (waiters sem)" using goodD(4)[OF assms(1)] sem unfolding waits_ok_def by blast
    then have b: "base_inv k'" "kept k k'" using base_inv_fewer[OF goodD(2)[OF assms(1)] sem] k' by simp_all
    have "lock_sema l \<noteq> s" if "holders k l = Some h" for l h
      using assms(2) that unfolding plain_sema_def by auto
    then have "locks_ok k'" using goodD(1)[OF assms(1)] by (auto simp: sync_inv_def locks_ok_def k')
    then show ?thesis using calm_kept[OF assms(1) _ b(2)] b(1) by (simp add: sync_inv_def k')
  qed
qed

lemma lock_acquire_calm:
  assumes "good k" "current k \<noteq> idle_thread k" "lock_acquire l k = Some (ok, k')"
  shows "calm {} k k'" "holders k l \<noteq> None"
proof -
  note a = lock_acquire_inv[OF goodD(1)[OF assms(1)] assms(2,3)]
  show l: "holders k l \<noteq> None"
    using assms(3) held_Some[OF goodD(2)[OF assms(1)], of l] by (auto simp: lock_acquire_def bind_eq_Some_conv)
  have "dom (holders k') = dom (holders k)" using a(3,4) l by (cases ok) auto
  then show "calm {} k k'" using calm_kept[OF assms(1) a(1,2)] by simp
qed

lemma lock_round_calm:
  assumes "good k" "current k \<noteq> idle_thread k" "holders k l \<noteq> None" "lock_acquire_round l k = Some (ok, k')"
  shows "calm {} k k'"
proof -
  note a = lock_acquire_round_inv[OF goodD(1)[OF assms(1)] assms(2,3,4)]
  have "dom (holders k') = dom (holders k)" using a(3,4) assms(3) by (cases ok) auto
  then show ?thesis using calm_kept[OF assms(1) a(1,2)] by simp
qed

lemma lock_release_calm:
  assumes "good k" "lock_release l k = Some k'"
  shows "calm {} k k'"
proof -
  note a = lock_release_inv[OF goodD(1)[OF assms(1)] assms(2)]
  have "dom (holders k') = dom (holders k)" using a(3) by auto
  then show ?thesis using calm_kept[OF assms(1) a(1,2)] by simp
qed

lemma sema_init_calm:
  assumes "good k" "fresh_sema k w" "sema_init w v k = Some k'"
  shows "calm {} k k'"
proof -
  have k': "k' = set_sema w \<lparr>svalue = v, waiters = []\<rparr> k"
    using assms(3) by (auto simp: sema_init_def set_sema_def)
  have sub: "waits k' t p \<Longrightarrow> waits k t p" for t p
    by (auto simp: waits_def k' split: option.splits if_splits)
  note wk = goodD(4)[OF assms(1), unfolded waits_ok_def]
  have "\<forall>t p q. waits k' t p \<longrightarrow> waits k' t q \<longrightarrow> p = q" using wk sub by blast
  moreover have "\<forall>t p. waits k' t p \<longrightarrow> st k t = Some THREAD_BLOCKED \<and> t \<noteq> idle_thread k" using wk sub by blast
  ultimately have "waits_ok k'" unfolding waits_ok_def using wk by (simp add: k')
  then have b: "base_inv k'" using goodD(2)[OF assms(1)] by (simp add: base_inv_def k')
  have "lock_sema l' \<noteq> w" if "holders k l' = Some h" for l' h
    using assms(2) that unfolding fresh_sema_def plain_sema_def by auto
  then have "locks_ok k'" using goodD(1)[OF assms(1)] by (auto simp: sync_inv_def locks_ok_def k')
  then have "sync_inv k'" using b by (simp add: sync_inv_def)
  moreover have "kept k k'" unfolding kept_def dormant_def using sub by (auto simp: k')
  ultimately show ?thesis using calm_kept[OF assms(1)] by (simp add: k')
qed

text \<open>A new lock: the system keeps its invariant although the address stops being a plain semaphore.\<close>

lemma lock_init_good:
  assumes "good k" "lock_unused k p l" "lock_init l k = Some k'"
  shows "good k'" "idle_thread k' = idle_thread k" "dom (holders k) \<subseteq> dom (holders k')"
    "dormant k t \<Longrightarrow> dormant k' t" "plain_sema k s \<Longrightarrow> s \<noteq> lock_sema l \<Longrightarrow> plain_sema k' s"
proof -
  have k': "k' = set_sema (lock_sema l) \<lparr>svalue = 1, waiters = []\<rparr> (k\<lparr>holders := (holders k)(l \<mapsto> NULL)\<rparr>)"
    using assms(3) by (auto simp: lock_init_def sema_init_def set_sema_def)
  have f: "threads k' = threads k" "st k' = st k" "conds k' = conds k" "idle_thread k' = idle_thread k"
    "holders k' = (holders k)(l \<mapsto> NULL)" "svals k' = (svals k)(lock_sema l \<mapsto> 1)" "dlocks k' = dlocks k"
    "sleeping_list k' = sleeping_list k" "semas k' = (semas k)(lock_sema l \<mapsto> \<lparr>svalue = 1, waiters = []\<rparr>)"
    by (simp_all add: k' st_def svals_def dlocks_def fun_eq_iff)
  have sub: "waits k' u q \<Longrightarrow> waits k u q" for u q
    by (auto simp: waits_def f split: option.splits if_splits)
  note wk = goodD(4)[OF assms(1), unfolded waits_ok_def]
  have "\<forall>t p q. waits k' t p \<longrightarrow> waits k' t q \<longrightarrow> p = q" using wk sub by blast
  moreover have "\<forall>t p. waits k' t p \<longrightarrow> st k t = Some THREAD_BLOCKED \<and> t \<noteq> idle_thread k" using wk sub by blast
  ultimately have w: "waits_ok k'" unfolding waits_ok_def using wk by (simp add: f)
  have "sched_inv k'" by (rule same_sched_inv[OF _ goodD(3)[OF assms(1)]]) (simp add: k' set_sema_def same_sched_def)
  moreover have "\<not> in_external_intr k'" using goodD(5)[OF assms(1)] by (simp add: k' intr_context_def)
  ultimately have b: "base_inv k'" using w by (simp add: base_inv_def)
  have lk: "locks_ok k" using goodD(1)[OF assms(1)] by (simp add: sync_inv_def)
  have nl: "l \<notin> set ls" if "dlocks k t = Some ls" for t ls
  proof
    assume "l \<in> set ls"
    then have "holders k l = Some t" using lk that unfolding locks_ok_def by blast
    then have "t = NULL" using assms(2) by (auto simp: lock_unused_def)
    then show False using that current_nonnull(2)[OF goodD(2)[OF assms(1)]] by simp
  qed
  have "locks_ok k'" using lk nl by (auto simp: locks_ok_def f lock_sema_def)
  then have si: "sync_inv k'" using b by (simp add: sync_inv_def)
  show pl: "plain_sema k s \<Longrightarrow> s \<noteq> lock_sema l \<Longrightarrow> plain_sema k' s" for s
    by (auto simp: plain_sema_def f)
  have "conds_ok k'" using assms(1,2) pl unfolding good_def conds_ok_def lock_unused_def f by blast
  then show "good k'" using si by (simp add: good_def)
  show "idle_thread k' = idle_thread k" by (rule f)
  show "dom (holders k) \<subseteq> dom (holders k')" by (auto simp: f)
  show "dormant k t \<Longrightarrow> dormant k' t" unfolding dormant_def using sub by (auto simp: f)
qed

lemma cond_init_calm:
  assumes "good k" "cond_init c k = Some k'"
  shows "calm {} k k'"
proof -
  have k': "k' = k\<lparr>conds := (conds k)(c \<mapsto> [])\<rparr>" using assms(2) by (simp add: cond_init_def bind_eq_Some_conv split: if_splits)
  show ?thesis
    by (rule calm_same[OF assms(1)])
      (use assms(1) in \<open>auto simp: k' same_sched_def good_def conds_ok_def split: if_splits\<close>)
qed

lemma cond_wait_calm:
  assumes "good k" "fresh_sema k w" "cond_wait c l w junk k = Some (gs, k')"
  shows "calm {} k k'" "gs = [FSemaDown w, FLockAcquire l]"
proof -
  obtain ws where ws: "conds k c = Some ws"
      "lock_release l (set_sema w \<lparr>svalue = 0, waiters = []\<rparr> k\<lparr>conds := (conds k)
          (c \<mapsto> ws @ [\<lparr>e_sema = w, e_thread = junk\<rparr>])\<rparr>) = Some k'" and gs: "gs = [FSemaDown w, FLockAcquire l]"
    using assms(3) by (auto simp: cond_wait_def sema_init_def set_sema_def bind_eq_Some_conv)
  let ?k1 = "set_sema w \<lparr>svalue = 0, waiters = []\<rparr> k"
  obtain k1 where "sema_init w 0 k = Some k1" "k1 = ?k1"
    using assms(3) by (auto simp: cond_wait_def sema_init_def set_sema_def bind_eq_Some_conv)
  then have c1: "calm {} k ?k1" using sema_init_calm[OF assms(1,2)] by simp
  let ?k2 = "?k1\<lparr>conds := (conds k)(c \<mapsto> ws @ [\<lparr>e_sema = w, e_thread = junk\<rparr>])\<rparr>"
  have g1: "good ?k1" using c1 by (simp add: calm_def)
  have pl: "plain_sema ?k1 (e_sema v)" if "conds ?k2 c' = Some vs" "v \<in> set vs" for c' vs v
  proof -
    have "plain_sema k (e_sema v)" using that assms(1,2) ws(1)
      by (auto simp: good_def conds_ok_def fresh_sema_def split: if_splits)
    then show ?thesis by (simp add: plain_sema_def)
  qed
  have c2: "calm {} ?k1 ?k2" by (rule calm_same[OF g1]) (use pl in \<open>simp_all add: same_sched_def\<close>)
  have "good ?k2" using c2 by (simp add: calm_def)
  then have "calm {} ?k2 k'" using lock_release_calm ws(2) by simp
  then show "calm {} k k'" using c1 c2 calm_trans0 by blast
  show "gs = [FSemaDown w, FLockAcquire l]" by (rule gs)
qed

lemma cond_signal_calm:
  assumes "good k" "cond_signal c l k = Some k'"
  shows "calm {} k k'"
proof -
  obtain ws where ws: "conds k c = Some ws" using assms(2) by (auto simp: cond_signal_def bind_eq_Some_conv)
  define vs where "vs = sort_key (\<lambda>w. - eff k (e_thread w)) ws"
  have sv: "set vs = set ws" by (simp add: vs_def)
  obtain v rest where v: "vs = v # rest" "sema_up (e_sema v) (k\<lparr>conds := (conds k)(c \<mapsto> rest)\<rparr>) = Some k'"
    using assms(2) ws by (auto simp: cond_signal_def bind_eq_Some_conv Let_def simp flip: vs_def split: list.splits)
  let ?k1 = "k\<lparr>conds := (conds k)(c \<mapsto> rest)\<rparr>"
  have pl: "plain_sema k (e_sema w)" if "conds ?k1 c' = Some us" "w \<in> set us" for c' us w
    using that assms(1) ws sv v(1) by (auto simp: good_def conds_ok_def split: if_splits)
  have c1: "calm {} k ?k1" by (rule calm_same[OF assms(1)]) (use pl in \<open>simp_all add: same_sched_def\<close>)
  have "v \<in> set ws" using sv v(1) by (metis list.set_intros(1))
  then have "plain_sema k (e_sema v)" using assms(1) ws unfolding good_def conds_ok_def by blast
  then have "plain_sema ?k1 (e_sema v)" by (simp add: plain_sema_def)
  moreover have "good ?k1" using c1 by (simp add: calm_def)
  ultimately have "calm {} ?k1 k'" using sema_up_calm v(2) by blast
  then show ?thesis using c1 calm_trans0 by blast
qed

lemma cond_broadcast_calm:
  assumes "good k" "cond_broadcast c l k = Some (gs, k')"
  shows "calm {} k k'" "gs = [] \<or> gs = [FBroadcast c l]"
proof -
  have a: "(gs = [] \<and> k' = k) \<or> (gs = [FBroadcast c l] \<and> cond_signal c l k = Some k')"
    using assms(2) by (auto simp: cond_broadcast_def bind_eq_Some_conv split: if_splits)
  then show "gs = [] \<or> gs = [FBroadcast c l]" by blast
  show "calm {} k k'" using a cond_signal_calm[OF assms(1)] calm_refl[OF assms(1)] by blast
qed


lemma rw_loop_calm:
  assumes "good k" "fresh_sema k w" "rw_loop rw reader w junk k = Some (gs, k')"
  shows "calm {} k k'"
    "gs = [] \<or> gs = [FSemaDown w, FLockAcquire (rw_guard rw), FRwWoken rw reader w junk]"
proof -
  obtain c where c: "rw_locks k rw = Some c" using assms(3) by (auto simp: rw_loop_def bind_eq_Some_conv)
  have "calm {} k k' \<and> (gs = [] \<or> gs = [FSemaDown w, FLockAcquire (rw_guard rw), FRwWoken rw reader w junk])"
  proof (cases "rw_must_wait reader c")
    case True
    let ?k1 = "set_rw rw (rw_begin_wait reader c) k"
    obtain fs where fs: "cond_wait (if reader then rw_read rw else rw_write rw) (rw_guard rw) w junk ?k1 = Some (fs, k')"
        "gs = fs @ [FRwWoken rw reader w junk]"
      using assms(3) c True by (auto simp: rw_loop_def bind_eq_Some_conv)
    have c1: "calm {} k ?k1" using assms(1) by simp
    have "fresh_sema ?k1 w"
      using assms(2) by (simp add: fresh_sema_def plain_sema_def set_rw_def waits_def cong: option.case_cong)
    then have "calm {} ?k1 k'" "fs = [FSemaDown w, FLockAcquire (rw_guard rw)]"
      using cond_wait_calm[OF _ _ fs(1)] c1 by (simp_all add: calm_def)
    then show ?thesis using c1 calm_trans0 fs(2) by auto
  next
    case False
    let ?k1 = "set_rw rw (rw_enter reader c) k"
    have r: "lock_release (rw_guard rw) ?k1 = Some k'" "gs = []"
      using assms(3) c False by (auto simp: rw_loop_def bind_eq_Some_conv)
    have c1: "calm {} k ?k1" using assms(1) by simp
    then have "calm {} ?k1 k'" using lock_release_calm[OF _ r(1)] by (simp add: calm_def)
    then show ?thesis using c1 calm_trans0 r(2) by blast
  qed
  then show "calm {} k k'"
    "gs = [] \<or> gs = [FSemaDown w, FLockAcquire (rw_guard rw), FRwWoken rw reader w junk]" by blast+
qed

lemma rw_woken_calm:
  assumes "good k" "fresh_sema k w" "rw_woken rw reader w junk k = Some (gs, k')"
  shows "calm {} k k'"
    "gs = [] \<or> gs = [FSemaDown w, FLockAcquire (rw_guard rw), FRwWoken rw reader w junk]"
proof -
  obtain c where c: "rw_loop rw reader w junk (set_rw rw (rw_end_wait reader c) k) = Some (gs, k')"
    using assms(3) by (auto simp: rw_woken_def bind_eq_Some_conv)
  let ?k1 = "set_rw rw (rw_end_wait reader c) k"
  have c1: "calm {} k ?k1" using assms(1) by simp
  have f: "fresh_sema ?k1 w"
    using assms(2) by (simp add: fresh_sema_def plain_sema_def set_rw_def waits_def cong: option.case_cong)
  have g: "good ?k1" using c1 by (simp add: calm_def)
  note r = rw_loop_calm[OF g f c]
  show "calm {} k k'" using c1 r(1) calm_trans0 by blast
  show "gs = [] \<or> gs = [FSemaDown w, FLockAcquire (rw_guard rw), FRwWoken rw reader w junk]" by (rule r(2))
qed

lemma rw_release_calm:
  assumes "good k" "rw_release rw reader k = Some (gs, k')"
  shows "calm {} k k'"
    "\<exists>fs. gs = fs @ [FLockRelease (rw_guard rw)] \<and> (fs = [] \<or> fs = [FBroadcast (rw_read rw) (rw_guard rw)])"
proof -
  obtain c fs where c: "rw_locks k rw = Some c" "gs = fs @ [FLockRelease (rw_guard rw)]" and
    alt: "(fs = [] \<and> cond_signal (rw_write rw) (rw_guard rw) (set_rw rw (rw_leave reader c) k) = Some k')
      \<or> cond_broadcast (rw_read rw) (rw_guard rw) (set_rw rw (rw_leave reader c) k) = Some (fs, k')
      \<or> (fs = [] \<and> k' = set_rw rw (rw_leave reader c) k)"
    using assms(2) by (auto simp: rw_release_def bind_eq_Some_conv Let_def split: if_splits)
  let ?k1 = "set_rw rw (rw_leave reader c) k"
  have c1: "calm {} k ?k1" using assms(1) by simp
  then have g1: "good ?k1" by (simp add: calm_def)
  have "calm {} ?k1 k' \<and> (fs = [] \<or> fs = [FBroadcast (rw_read rw) (rw_guard rw)])"
    using alt cond_signal_calm[OF g1] cond_broadcast_calm[OF g1] calm_refl[OF g1] by blast
  then show "calm {} k k'"
    "\<exists>fs. gs = fs @ [FLockRelease (rw_guard rw)] \<and> (fs = [] \<or> fs = [FBroadcast (rw_read rw) (rw_guard rw)])"
    using c1 calm_trans0 c(2) by blast+
qed

lemma thread_yield_calm:
  assumes "good k" "thread_yield k = Some k'"
  shows "calm {} k k'"
  using thread_yield_base[OF goodD(2)[OF assms(1)] assms(2)] calm_base[OF assms(1)] same_sync_locks by blast

lemma allocate_tid_calm:
  assumes "good k" "allocate_tid t k = Some (gs, k')"
  shows "calm {} k k'" "\<exists>i. gs = [FCreated t i]"
proof -
  obtain i where r: "lock_release (tid_lock k) (k\<lparr>next_tid := next_tid k + 1\<rparr>) = Some k'" "gs = [FCreated t i]"
    using assms(2) by (auto simp: allocate_tid_def bind_eq_Some_conv)
  have c1: "calm {} k (k\<lparr>next_tid := next_tid k + 1\<rparr>)"
    by (rule calm_same) (use assms(1) in \<open>auto simp: same_sched_def good_def conds_ok_def\<close>)
  then have "calm {} (k\<lparr>next_tid := next_tid k + 1\<rparr>) k'" using lock_release_calm[OF _ r(1)] by (simp add: calm_def)
  then show "calm {} k k'" using c1 calm_trans0 by blast
  show "\<exists>i. gs = [FCreated t i]" using r(2) by blast
qed

lemma thread_created_calm:
  assumes "good k" "dormant k t" "thread_created t i k = Some k'"
  shows "calm {t} k k'"
proof -
  obtain k1 k2 where s: "upd_thread t (\<lambda>th. th\<lparr>tid := i\<rparr>) k = Some k1" "thread_unblock t k1 = Some k2"
      and alt: "thread_yield k2 = Some k' \<or> k' = k2"
    using assms(3) by (auto simp: thread_created_def bind_eq_Some_conv split: if_splits)
  note u = upd_thread_same_sched[OF s(1), simplified]
  obtain th where th: "threads k t = Some th" using s(1) by (auto simp: upd_thread_def bind_eq_Some_conv)
  have "dlocks k1 = dlocks k" using u(8) th by (auto simp: dlocks_def fun_eq_iff)
  then have c1: "calm {} k k1"
    using u calm_base[OF assms(1) base_inv_cong[OF goodD(2)[OF assms(1)] u(1-4)] _ u(7)]
    by (simp add: same_locks_def)
  then have g1: "good k1" and d1: "dormant k1 t" using assms(2) by (auto simp: calm_def)
  then have nw: "\<not> waits k1 t p" and ti: "t \<noteq> idle_thread k1" for p by (auto simp: dormant_def)
  note ub = thread_unblock_base[OF goodD(2)[OF g1] s(2) nw ti]
  have si: "sync_inv k2" by (rule sync_inv_same[OF goodD(1)[OF g1] ub(1) same_sync_locks[OF ub(2)]])
  have ss: "holders k2 = holders k1" "conds k2 = conds k1" "idle_thread k2 = idle_thread k1"
    using ub(2) by (simp_all add: same_sync_def)
  have "plain_sema k2 = plain_sema k1" by (rule plain_sema_dom) (simp add: ss)
  then have c2: "calm {t} k1 k2" using si ub(4) ss g1 by (auto simp: calm_def good_def conds_ok_def)
  then have g2: "good k2" by (simp add: calm_def)
  have "calm {} k2 k'" using alt thread_yield_calm[OF g2] calm_refl[OF g2] by blast
  then show ?thesis using calm_trans[OF calm_trans[OF c1 c2]] by simp
qed

lemma thread_create_calm:
  assumes "good k" "threads k page = None" "thread_create page pri k = Some (gs, k')"
  shows "calm {} k k'" "gs = [] \<or> (gs = [FLockAcquire (tid_lock k), FTid page] \<and> dormant k' page)"
proof -
  let ?th = "\<lparr>tid = 0, status = THREAD_BLOCKED, priority = pri, effective_priority = pri,
     wake_time = 0, donated_to = NULL, donated_locks = [], has_pcb = False\<rparr> :: thread"
  let ?k1 = "k\<lparr>threads := (threads k)(page \<mapsto> ?th), all_list := all_list k @ [page]\<rparr>"
  have alt: "(gs = [] \<and> k' = k) \<or> (page \<noteq> NULL \<and> gs = [FLockAcquire (tid_lock k), FTid page] \<and> k' = ?k1)"
    using assms(3) by (auto simp: thread_create_def init_thread_def bind_eq_Some_conv split: if_splits)
  show "calm {} k k'" "gs = [] \<or> (gs = [FLockAcquire (tid_lock k), FTid page] \<and> dormant k' page)"
  proof -
    have "calm {} k ?k1 \<and> dormant ?k1 page" if p: "page \<noteq> NULL"
    proof -
      define k1 where "k1 = ?k1"
      have f: "priority_queue k1 = priority_queue k" "idle_thread k1 = idle_thread k" "current k1 = current k"
        "active_sched_policy k1 = active_sched_policy k" "fifo_ready_list k1 = fifo_ready_list k"
        "semas k1 = semas k" "sleeping_list k1 = sleeping_list k" "holders k1 = holders k"
        "in_external_intr k1 = in_external_intr k" "conds k1 = conds k" "rw_locks k1 = rw_locks k"
        "tid_lock k1 = tid_lock k" "threads k1 = (threads k)(page \<mapsto> ?th)"
        by (simp_all add: k1_def)
      have sn: "st k page = None" using assms(2) by (simp add: st_def)
      have st': "st k1 = (st k)(page \<mapsto> THREAD_BLOCKED)" by (auto simp: st_def fun_eq_iff f)
      have e': "eff k1 t = eff k t" if "t \<noteq> page" for t using that by (simp add: eff_def f)
      have w': "waits k1 = waits k" by (intro ext) (simp add: waits_def f split: option.split)
      note sc = goodD(3)[OF assms(1), unfolded sched_inv_def queue_inv_def]
      have np: "page \<notin> set (priority_queue k)" "page \<noteq> idle_thread k" using sc sn by auto
      have "prio_sorted (eff k1) (priority_queue k)"
        using sc prio_sorted_cong[of "priority_queue k" "eff k1" "eff k"] e' np(1) by metis
      moreover have "\<forall>t. st k1 t = Some THREAD_RUNNING \<longleftrightarrow> t = current k"
      proof -
        have "page \<noteq> current k" using sn sched_inv_current[OF goodD(3)[OF assms(1)]] by auto
        then show ?thesis using sc by (auto simp: st')
      qed
      moreover have "\<forall>t. st k1 t = Some THREAD_READY \<longrightarrow> t \<in> set (priority_queue k) \<or> t = idle_thread k"
        using sc by (auto simp: st')
      moreover have "\<forall>t \<in> set (priority_queue k). st k1 t = Some THREAD_READY"
        using sc np(1) by (auto simp: st')
      ultimately have "sched_inv k1"
        unfolding sched_inv_def queue_inv_def f using sc np(2) p by (simp add: st')
      moreover have nw: "\<not> waits k page p" for p
        using goodD(4)[OF assms(1)] sn unfolding waits_ok_def by fastforce
      moreover have "waits_ok k1"
        using goodD(4)[OF assms(1)] nw unfolding waits_ok_def w' st' f by auto
      ultimately have b: "base_inv k1" using goodD(2)[OF assms(1)] by (simp add: base_inv_def f)
      have "dlocks k1 = (dlocks k)(page \<mapsto> [])" by (auto simp: dlocks_def fun_eq_iff f)
      moreover have "svals k1 = svals k" by (simp add: svals_def fun_eq_iff f)
      ultimately have "locks_ok k1" using goodD(1)[OF assms(1)] by (auto simp: sync_inv_def locks_ok_def f)
      then have "sync_inv k1" using b by (simp add: sync_inv_def)
      moreover have "kept k k1" unfolding kept_def dormant_def w' st' f by simp
      moreover have "dormant k1 page" using nw np(2) by (simp add: dormant_def w' st' f)
      ultimately show ?thesis using calm_kept[OF assms(1)] by (simp add: f flip: k1_def)
    qed
    then show "calm {} k k'" "gs = [] \<or> (gs = [FLockAcquire (tid_lock k), FTid page] \<and> dormant k' page)"
      using alt calm_refl[OF assms(1)] by auto
  qed
qed

lemma set_priority_calm:
  assumes "good k" "thread_set_priority n k = Some k'"
  shows "calm {} k k'" "current k' = current k"
proof -
  let ?c = "current k"
  obtain k1 where s: "upd_thread ?c (\<lambda>th. th\<lparr>priority := n, effective_priority := n\<rparr>) k = Some k1"
      "update_priority ?c k1 = Some k'"
    using assms(2) by (auto simp: thread_set_priority_def bind_eq_Some_conv base_inv_current[OF goodD(2)[OF assms(1)]])
  obtain th where th: "threads k ?c = Some th"
      "k1 = k\<lparr>threads := (threads k)(?c \<mapsto> th\<lparr>priority := n, effective_priority := n\<rparr>)\<rparr>"
    using s(1) by (auto simp: upd_thread_def bind_eq_Some_conv)
  have st1: "st k1 = st k" and d1: "dlocks k1 = dlocks k" using th by (auto simp: st_def dlocks_def fun_eq_iff)
  have e1: "eff k1 t = eff k t" if "t \<noteq> ?c" for t using th that by (simp add: eff_def)
  have cq: "?c \<notin> set (priority_queue k)"
    using goodD(3)[OF assms(1)] sched_inv_current[OF goodD(3)[OF assms(1)]]
    unfolding sched_inv_def queue_inv_def by (metis option.inject thread_status.distinct(1))
  have "queue_inv k1"
    using goodD(3)[OF assms(1)] prio_sorted_cong[of "priority_queue k" "eff k1" "eff k"] e1 cq th(2)
    unfolding sched_inv_def queue_inv_def st1 by (simp, metis)
  moreover have "same_sync k k1" using th(2) d1 by (simp add: same_sync_def)
  ultimately have o1: "only_prio k k1" using th(2) st1 by (simp add: only_prio_def)
  have "only_prio k1 k'" by (rule update_priority_only[OF s(2)]) fact
  then have o: "only_prio k k'" using o1 only_prio_trans by blast
  note oi = only_prio_inv[OF o goodD(2)[OF assms(1)]]
  show "calm {} k k'" by (rule calm_base[OF assms(1) oi(1,2,4)])
  show "current k' = current k" by (rule oi(3))
qed

lemma timer_sleep_calm:
  assumes "good k" "timer_sleep n k = Some (gs, k')"
  shows "calm {} k k'" "gs = [] \<or> gs = [FSleep]"
proof -
  have "calm {} k k' \<and> (gs = [] \<or> gs = [FSleep])"
  proof (cases "n \<le> 0")
    case True
    then show ?thesis using assms calm_refl by (simp add: timer_sleep_def)
  next
    case False
    then have s: "upd_thread (current k) (\<lambda>th. th\<lparr>wake_time := int64 (ticks k + n)\<rparr>) k = Some k'" "gs = [FSleep]"
      using assms(2) by (auto simp: timer_sleep_def set_alarm_def bind_eq_Some_conv base_inv_current[OF goodD(2)[OF assms(1)]])
    note u = upd_thread_same_sched[OF s(1), simplified]
    obtain th where th: "threads k (current k) = Some th" using s(1) by (auto simp: upd_thread_def bind_eq_Some_conv)
    have "dlocks k' = dlocks k" using u(8) th by (auto simp: dlocks_def fun_eq_iff)
    then show ?thesis
      using u calm_base[OF assms(1) base_inv_cong[OF goodD(2)[OF assms(1)] u(1-4)] _ u(7)] s(2)
      by (simp add: same_locks_def)
  qed
  then show "calm {} k k'" "gs = [] \<or> gs = [FSleep]" by blast+
qed

lemma fall_asleep_calm:
  assumes "good k" "current k \<noteq> idle_thread k" "fall_asleep k = Some k'"
  shows "calm {} k k'"
proof -
  let ?c = "current k"
  let ?k2 = "k\<lparr>sleeping_list := insert_ordered (wake_time_comparator k) ?c (sleeping_list k)\<rparr>"
  have blk: "thread_block ?k2 = Some k'" using assms(3) by (simp add: fall_asleep_def running_thread_def)
  have b: "base_inv k" and w: "waits_ok k" by (rule goodD[OF assms(1)])+
  have ss: "same_sched k ?k2" by (simp add: same_sched_def)
  have w2: "waits ?k2 t p \<longleftrightarrow> waits k t p \<or> (t = ?c \<and> p = None)" for t p
    by (auto simp: waits_def split: option.split)
  have "\<not> waits k ?c None" using w base_inv_current(2)[OF b] unfolding waits_ok_def by fastforce
  then have nc: "?c \<notin> set (sleeping_list k)" by (simp add: waits_def)
  have d2: "distinct (sleeping_list ?k2)" using w nc by (simp add: waits_ok_def)
  have ds: "distinct (waiters m)" if "semas ?k2 s1 = Some m" for s1 m
    using that w unfolding waits_ok_def by simp
  have kp: "tid_lock ?k2 = tid_lock k" "conds ?k2 = conds k" "rw_locks ?k2 = rw_locks k" by simp_all
  have s2: "sched_inv ?k2" by (rule same_sched_inv[OF ss goodD(3)[OF assms(1)]])
  have e: "current ?k2 = current k" "st ?k2 = st k" "idle_thread ?k2 = idle_thread k" "in_external_intr ?k2 = False"
    using ss b by (simp_all add: same_sched_def base_inv_def)
  have r: "base_inv k'" "same_sync ?k2 k'" "kept k k'"
    by (rule block_on[OF b assms(2) s2 e kp w2 _ d2 blk], rule ds, assumption)+
  have "same_locks k ?k2" by (simp add: same_locks_def svals_def dlocks_def fun_eq_iff)
  then have "same_locks k k'" using same_sync_locks[OF r(2)] same_locks_trans by blast
  then show ?thesis using calm_base[OF assms(1) r(1) _ r(3)] by simp
qed

lemma thread_exit_calm:
  assumes "good k" "current k \<noteq> idle_thread k" "thread_exit k = Some k'"
  shows "calm {} k k'"
proof -
  let ?c = "current k"
  define k1 where "k1 = k\<lparr>all_list := remove1 ?c (all_list k)\<rparr>"
  define k2 where "k2 = with_status ?c THREAD_DYING k1"
  have s: "sched_inv k" and b: "base_inv k" and w: "waits_ok k" by (rule goodD[OF assms(1)])+
  have cr: "st k ?c = Some THREAD_RUNNING" by (rule sched_inv_current[OF s])
  have s1: "sched_inv k1" using s same_sched_inv[of k k1] by (simp add: same_sched_def k1_def)
  have f1: "current k1 = ?c" "idle_thread k1 = idle_thread k" "st k1 = st k" "same_sync k k1"
    by (simp_all add: k1_def same_sync_def dlocks_def fun_eq_iff)
  note t = stop_running[OF s1, of THREAD_DYING, unfolded f1(1,2), simplified, OF assms(2), folded k2_def]
  have "thread_exit k = schedule k2"
    using cr f1(3) base_inv_current(1)[OF b] goodD(5)[OF assms(1)]
    by (simp add: thread_exit_def upd_status k2_def flip: k1_def)
  moreover have c2: "current k2 = ?c" "st k2 (current k2) \<noteq> None" using t(2) f1 by (simp_all add: k2_def)
  ultimately have k': "k' = switched k2" "sched_inv k'"
    using schedule_switched[OF t(1) c2(2) t(3) chosen_alive(1)[OF t(1)]] switched_inv[OF t(1) c2(2) t(3)] assms(3)
    by simp_all
  have ss2: "same_sync k k2" using f1(4) same_sync_trans same_sync_with_status unfolding k2_def by blast
  have sv: "holders k' = holders k" "semas k' = semas k" "sleeping_list k' = sleeping_list k"
    "idle_thread k' = idle_thread k" "tid_lock k' = tid_lock k" "conds k' = conds k" "rw_locks k' = rw_locks k"
    "in_external_intr k' = in_external_intr k"
    using ss2 by (simp_all add: same_sync_def k' switched_def)
  have dl: "dlocks k' u = Some ls \<Longrightarrow> dlocks k u = Some ls" for u ls
  proof -
    assume "dlocks k' u = Some ls"
    then have "dlocks k2 u = Some ls" by (auto simp: dlocks_def k' switched_def Let_def split: if_splits)
    then show "dlocks k u = Some ls" using ss2 by (simp add: same_sync_def)
  qed
  have st2: "st k2 = (st k)(?c \<mapsto> THREAD_DYING)" using cr f1(3) by (simp add: k2_def st_with_status)
  have st': "st k' u = st k u" if u: "st k u = Some THREAD_BLOCKED" "u \<noteq> idle_thread k" for u
  proof -
    have "u \<noteq> ?c" using u(1) cr by auto
    moreover have "u \<noteq> chosen k2"
    proof (rule chosen_not_waiting[OF t(1)])
      show "st k2 u = Some THREAD_BLOCKED" using u(1) calculation by (simp add: st2)
      show "u \<noteq> idle_thread k2" using u(2) f1(2) by (simp add: k2_def)
    qed
    ultimately show ?thesis using st_switched[OF chosen_alive(2)[OF t(1)]] c2(1) by (simp add: k' st2 Let_def)
  qed
  have w': "waits k' = waits k" using sv(2,3) by (intro ext) (simp add: waits_def split: option.split)
  have "waits_ok k'" using w st' sv unfolding waits_ok_def w' by auto
  then have b': "base_inv k'" using k'(2) b sv(8) by (simp add: base_inv_def)
  have "svals k' = svals k" using sv(2) by (intro ext) (simp add: svals_def)
  then have "locks_ok k'"
    using goodD(1)[OF assms(1)] dl unfolding sync_inv_def locks_ok_def sv(1) by metis
  then have "sync_inv k'" using b' by (simp add: sync_inv_def)
  moreover have "kept k k'" using st' sv by (simp add: kept_def dormant_def w')
  ultimately show ?thesis using calm_kept[OF assms(1)] sv(1) by simp
qed

lemma thread_block_calm:
  assumes "good k" "thread_block k = Some k'"
  shows "calm {} k k'"
proof -
  have s: "sched_inv k" and b: "base_inv k" and w: "waits_ok k" by (rule goodD[OF assms(1)])+
  let ?w = "with_status (current k) THREAD_BLOCKED k"
  have k': "k' = switched ?w" "sched_inv k'"
    using thread_block_inv[OF s goodD(5)[OF assms(1)]] assms(2) by auto
  note t = stop_running[OF s, of THREAD_BLOCKED, simplified]
  have stw: "st ?w = (st k)(current k \<mapsto> THREAD_BLOCKED)"
    using sched_inv_current[OF s] by (simp add: st_with_status)
  have nd: "st ?w (current ?w) \<noteq> Some THREAD_DYING" by (simp add: stw)
  then have ss: "same_sync k k'" using same_sync_switched same_sync_trans same_sync_with_status unfolding k' by blast
  have st': "st k' u = st k u" if u: "st k u = Some THREAD_BLOCKED" "u \<noteq> idle_thread k" for u
  proof -
    have "st ?w u = Some THREAD_BLOCKED" using u(1) by (simp add: stw)
    moreover have "u \<noteq> chosen ?w" using chosen_not_waiting[OF t(1)] calculation u by simp
    ultimately show ?thesis using st_switched[OF chosen_alive(2)[OF t(1)]] nd u(1) by (simp add: k' Let_def)
  qed
  have "waits_ok k'" using waits_ok_same[OF w ss] st' by simp
  then have "base_inv k'" using k'(2) b ss by (simp add: base_inv_def same_sync_def)
  then show ?thesis using calm_base[OF assms(1) _ same_sync_locks[OF ss] kept_sync[OF ss]] st' by simp
qed

section \<open>Timer interrupt\<close>

lemma sleeping_list_same: "sleeping_list k = xs \<Longrightarrow> k\<lparr>sleeping_list := xs\<rparr> = k"
  by (cases k) simp

lemma wake_sleepers_inv:
  assumes "sched_inv k" "waits_ok k" "sleeping_list k = ts" "wake_sleepers ts k = Some k'"
  shows "sched_inv k' \<and> waits_ok k' \<and> same_locks k k' \<and> kept k k' \<and> current k' = current k
    \<and> in_external_intr k' = in_external_intr k"
  using assms
proof (induction ts arbitrary: k)
  case Nil
  then have "k' = k" using sleeping_list_same[of k "[]"] by simp
  then show ?case using Nil by simp
next
  case (Cons t ts)
  obtain th where th: "threads k t = Some th" using Cons.prems(4) by (auto simp: bind_eq_Some_conv)
  show ?case
  proof (cases "wake_time th \<le> ticks k")
    case False
    then have "k' = k" using Cons.prems(3,4) th sleeping_list_same[of k "t # ts"] by simp
    then show ?thesis using Cons.prems by simp
  next
    case True
    let ?k1 = "k\<lparr>sleeping_list := ts\<rparr>"
    obtain k2 where k2: "thread_unblock t ?k1 = Some k2" "wake_sleepers ts k2 = Some k'"
      using Cons.prems(4) th True by (auto simp: bind_eq_Some_conv)
    have sub: "waits ?k1 u p \<Longrightarrow> waits k u p" for u p
      using Cons.prems(3) by (auto simp: waits_def split: option.splits)
    note wk = Cons.prems(2)[unfolded waits_ok_def]
    have "\<forall>u p. waits ?k1 u p \<longrightarrow> st k u = Some THREAD_BLOCKED \<and> u \<noteq> idle_thread k" using wk sub by blast
    moreover have "\<forall>u p q. waits ?k1 u p \<longrightarrow> waits ?k1 u q \<longrightarrow> p = q" using wk sub by blast
    ultimately have w1: "waits_ok ?k1" unfolding waits_ok_def using wk Cons.prems(3) by simp
    have s1: "sched_inv ?k1"
      by (rule same_sched_inv[OF _ Cons.prems(1)]) (simp add: same_sched_def)
    have tw: "waits k t None" using Cons.prems(3) by (simp add: waits_def)
    have nt: "t \<notin> set ts" using wk Cons.prems(3) by simp
    have nw: "\<not> waits ?k1 t p" for p
    proof
      assume a: "waits ?k1 t p"
      then have "p = None" using wk sub tw by blast
      then show False using a nt by (simp add: waits_def)
    qed
    have ti: "t \<noteq> idle_thread ?k1" using wk tw by auto
    note u = thread_unblock_waits[OF s1 w1 k2(1) nw ti]
    have sl2: "sleeping_list k2 = ts" using u(3) by (simp add: same_sync_def)
    note IH = Cons.IH[OF u(1,2) sl2 k2(2)]
    have "same_locks k ?k1" by (simp add: same_locks_def svals_def fun_eq_iff)
    moreover have "same_locks ?k1 k2" by (rule same_sync_locks[OF u(3)])
    ultimately have "same_locks k k2" by (rule same_locks_trans)
    moreover have "kept k k2"
    proof -
      have "dormant k2 v" if v: "dormant k v" for v
      proof -
        have "v \<noteq> t" using v tw unfolding dormant_def by blast
        moreover have "dormant ?k1 v" using v sub unfolding dormant_def by auto
        ultimately show ?thesis using u(5) by simp
      qed
      then show ?thesis using u(3) by (simp add: kept_def same_sync_def)
    qed
    moreover have "current k2 = current k" "in_external_intr k2 = in_external_intr k"
      using u(3,4) by (simp_all add: same_sync_def)
    ultimately show ?thesis using IH same_locks_trans kept_trans by metis
  qed
qed

text \<open>What \<open>thread_tick\<close> changes: counters and the flag.\<close>

definition same_tick :: "kernel \<Rightarrow> kernel \<Rightarrow> bool" where
  "same_tick k k' \<longleftrightarrow> same_sched k k' \<and> semas k' = semas k \<and> sleeping_list k' = sleeping_list k
    \<and> holders k' = holders k \<and> in_external_intr k' = in_external_intr k \<and> threads k' = threads k
    \<and> conds k' = conds k \<and> rw_locks k' = rw_locks k \<and> tid_lock k' = tid_lock k"

lemma same_tick_intro:
  "same_tick k k" "same_tick a b \<Longrightarrow> same_tick b c \<Longrightarrow> same_tick a c"
  "intr_yield_on_return a = Some b \<Longrightarrow> same_tick a b" "same_tick k (tick_stats t th k)"
  "same_tick k (k\<lparr>thread_ticks := n\<rparr>)"
  by (auto simp: same_tick_def same_sched_def intr_yield_on_return_def bind_eq_Some_conv tick_stats_def)

lemma thread_tick_same:
  assumes "thread_tick k = Some k'"
  shows "same_tick k k'"
proof -
  obtain t th k2 where k2: "tick_preempt t (tick_stats t th k) = Some k2" "tick_slice k2 = Some k'"
    using assms by (auto simp: thread_tick_def bind_eq_Some_conv)
  have "same_tick (tick_stats t th k) k2"
    using k2(1) same_tick_intro(1,3) unfolding tick_preempt_def by (auto split: if_splits)
  then have "same_tick k k2" using same_tick_intro(2,4) by blast
  moreover have "same_tick (k2\<lparr>thread_ticks := thread_ticks k2 + 1\<rparr>) k'"
    using k2(2) same_tick_intro(1,3) unfolding tick_slice_def Let_def by (auto split: if_splits)
  ultimately show ?thesis using same_tick_intro(2,5) by blast
qed

lemma irq_calm:
  assumes "good k" "intr_handler_timer k = Some k'"
  shows "calm {} k k'"
proof -
  define k0 where "k0 = k\<lparr>in_external_intr := True, yield_on_return := False, ticks := ticks k + 1\<rparr>"
  obtain k1 k2 where s: "wake_sleepers (sleeping_list k0) k0 = Some k1" "thread_tick k1 = Some k2"
      and alt: "thread_yield (k2\<lparr>in_external_intr := False\<rparr>) = Some k' \<or> k' = k2\<lparr>in_external_intr := False\<rparr>"
    using assms(2) by (auto simp: intr_handler_timer_def timer_interrupt_def bind_eq_Some_conv k0_def Let_def split: if_splits)
  let ?k3 = "k2\<lparr>in_external_intr := False\<rparr>"
  have f0: "same_sched k k0" "semas k0 = semas k" "sleeping_list k0 = sleeping_list k" "kept k k0" "same_locks k k0"
    by (simp_all add: k0_def same_sched_def same_locks_def svals_def dlocks_def fun_eq_iff)
      (rule kept_cong; simp)
  have w0: "waits k0 = waits k" using f0 by (intro ext) (simp add: waits_def split: option.split)
  have "waits_ok k0" using goodD(4)[OF assms(1)] f0 unfolding waits_ok_def w0 by (simp add: same_sched_def)
  moreover have "sched_inv k0" by (rule same_sched_inv[OF f0(1) goodD(3)[OF assms(1)]])
  ultimately have i1: "sched_inv k1" "waits_ok k1" "same_locks k0 k1" "kept k0 k1" "current k1 = current k0"
    using wake_sleepers_inv[OF _ _ refl s(1)] by simp_all
  note tt = thread_tick_same[OF s(2), unfolded same_tick_def]
  have f3: "same_sched k1 ?k3" using tt by (simp add: same_sched_def)
  have w3: "waits ?k3 = waits k1" using tt by (intro ext) (simp add: waits_def split: option.split)
  have "waits_ok ?k3" using i1(2) f3 tt unfolding waits_ok_def w3 by (simp add: same_sched_def)
  moreover have "sched_inv ?k3" by (rule same_sched_inv[OF f3 i1(1)])
  ultimately have b3: "base_inv ?k3" by (simp add: base_inv_def)
  have "same_locks k1 ?k3" using tt by (simp add: same_locks_def svals_def dlocks_def fun_eq_iff)
  then have l3: "same_locks k ?k3" using f0(5) i1(3) same_locks_trans by blast
  have "kept k1 ?k3" by (rule kept_cong) (use tt f3 in \<open>simp_all add: same_sched_def\<close>)
  then have "kept k ?k3" using f0(4) i1(4) kept_trans by blast
  then have c3: "calm {} k ?k3" by (rule calm_base[OF assms(1) b3 l3])
  then have g3: "good ?k3" by (simp add: calm_def)
  have "calm {} ?k3 k'" using alt thread_yield_calm[OF g3] calm_refl[OF g3] by blast
  then show ?thesis using c3 calm_trans0 by blast
qed


section \<open>Invariant of the system\<close>

fun created :: "frame \<Rightarrow> addr list" where
  "created (FTid t) = [t]"
| "created (FCreated t i) = [t]"
| "created _ = []"

definition creating :: "frame list \<Rightarrow> addr list" where
  "creating fs = concat (map created fs)"

fun frame_inv :: "kernel \<Rightarrow> frame \<Rightarrow> bool" where
  "frame_inv k (FLockDown l) = (holders k l \<noteq> None)"
| "frame_inv k (FSemaDown s) = plain_sema k s"
| "frame_inv k (FTid t) = dormant k t"
| "frame_inv k (FCreated t i) = dormant k t"
| "frame_inv k (FIdleStart s) = False"
| "frame_inv k _ = True"

definition sys_inv :: "sys \<Rightarrow> bool" where
  "sys_inv s \<longleftrightarrow> (case s of (k, p) \<Rightarrow> good k
     \<and> (\<forall>u. \<forall>f \<in> set (p u). frame_inv k f) \<and> set (p (idle_thread k)) \<subseteq> {FIdle}
     \<and> (\<forall>u v. u \<noteq> v \<longrightarrow> set (creating (p u)) \<inter> set (creating (p v)) = {})
     \<and> (\<forall>u. distinct (creating (p u))))"

lemma creating_simps [simp]: "creating [] = []" "creating (f # fs) = created f @ creating fs"
  "creating (fs @ gs) = creating fs @ creating gs"
  by (simp_all add: creating_def)

lemma frame_inv_mono:
  assumes "calm X k k'" "frame_inv k f" "set (created f) \<inter> X = {}"
  shows "frame_inv k' f"
proof -
  have d: "dom (holders k') = dom (holders k)" using assms(1) by (simp add: calm_def)
  then have "holders k l \<noteq> None \<longleftrightarrow> holders k' l \<noteq> None" for l by (metis domIff)
  then show ?thesis using assms plain_sema_dom[OF d] by (cases f) (auto simp: calm_def)
qed

lemma created_set: "f \<in> set fs \<Longrightarrow> set (created f) \<subseteq> set (creating fs)"
  by (auto simp: creating_def)

text \<open>The thread a frame starts.\<close>

fun started :: "frame \<Rightarrow> addr set" where
  "started (FCreated t i) = {t}"
| "started _ = {}"

text \<open>One frame of the running thread.\<close>

lemma run_frame_calm:
  assumes "good k" "f = FIdle \<or> current k \<noteq> idle_thread k" "frame_inv k f" "frame_ok f k"
    "run_frame f k = Some (gs, k')"
  shows "calm (started f) k k'
    \<and> creating gs = (case f of FTid t \<Rightarrow> [t] | _ \<Rightarrow> []) \<and> (\<forall>g \<in> set gs. frame_inv k' g)
    \<and> (f = FIdle \<longrightarrow> gs = [FIdle])"
proof -
  have mono: "calm {} k k' \<Longrightarrow> frame_inv k g \<Longrightarrow> frame_inv k' g" for g
    using frame_inv_mono[of "{}"] by simp
  show ?thesis
  proof (cases f)
    case (FSemaDown s)
    then obtain ok where "sema_down_round s k = Some (ok, k')" "gs = (if ok then [] else [f])"
      using assms(5) by (auto simp: again_def)
    then show ?thesis using sema_down_calm assms(1-3) mono[of f] FSemaDown by auto
  next
    case (FLockAcquire l)
    then obtain ok where a: "lock_acquire l k = Some (ok, k')" "gs = (if ok then [] else [FLockDown l])"
      using assms(5) by (auto simp: again_def)
    then have c: "calm {} k k'" "holders k l \<noteq> None" using lock_acquire_calm assms(1,2) FLockAcquire by auto
    then show ?thesis using a(2) mono[of "FLockDown l"] FLockAcquire by auto
  next
    case (FLockDown l)
    then obtain ok where a: "lock_acquire_round l k = Some (ok, k')" "gs = (if ok then [] else [FLockDown l])"
      using assms(5) by (auto simp: again_def)
    then have "calm {} k k'" using lock_round_calm assms(1-3) FLockDown by auto
    then show ?thesis using a(2) mono[of f] assms(3) FLockDown by auto
  next
    case (FLockRelease l)
    then show ?thesis using assms(1,5) lock_release_calm by auto
  next
    case (FRwLoop rw r w junk)
    then have "calm {} k k'" "gs = [] \<or> gs = [FSemaDown w, FLockAcquire (rw_guard rw), FRwWoken rw r w junk]"
      using rw_loop_calm[of k w rw r junk gs k'] assms by simp_all
    moreover have "frame_inv k (FSemaDown w)" using assms(4) FRwLoop by (simp add: fresh_sema_def)
    ultimately show ?thesis using mono[of "FSemaDown w"] FRwLoop by auto
  next
    case (FRwWoken rw r w junk)
    then have "calm {} k k'" "gs = [] \<or> gs = [FSemaDown w, FLockAcquire (rw_guard rw), FRwWoken rw r w junk]"
      using rw_woken_calm[of k w rw r junk gs k'] assms by simp_all
    moreover have "frame_inv k (FSemaDown w)" using assms(4) FRwWoken by (simp add: fresh_sema_def)
    ultimately show ?thesis using mono[of "FSemaDown w"] FRwWoken by auto
  next
    case (FRwRelease rw r)
    then show ?thesis using rw_release_calm[of k rw r gs k'] assms(1,5) by auto
  next
    case (FBroadcast c l)
    then show ?thesis using cond_broadcast_calm[of k c l gs k'] assms(1,5) by auto
  next
    case (FTid t)
    then have "calm {} k k'" "\<exists>i. gs = [FCreated t i]" using allocate_tid_calm[of k t gs k'] assms(1,5) by simp_all
    then show ?thesis using mono[of f] assms(3) FTid by auto
  next
    case (FCreated t i)
    then show ?thesis using thread_created_calm[of k t i k'] assms(1,3,5) by auto
  next
    case FSleep
    then show ?thesis using fall_asleep_calm[of k k'] assms(1,2,5) by auto
  next
    case (FIdleStart s)
    then show ?thesis using assms(3) by simp
  next
    case FIdle
    then show ?thesis using assms(1,5) thread_block_calm by auto
  qed
qed

text \<open>One call of the running thread.\<close>

lemma run_call_calm:
  assumes "good k" "current k \<noteq> idle_thread k" "call_ok c k" "run_call c k = Some (gs, k')"
    "\<And>l. c \<noteq> KLockInit l \<and> c \<noteq> KRwInit l"
  shows "calm {} k k' \<and> (\<forall>g \<in> set gs. frame_inv k' g) \<and> distinct (creating gs)
    \<and> set (creating gs) \<subseteq> called_thread c \<and> (\<forall>t \<in> called_thread c. threads k t = None)"
proof -
  have mono: "calm {} k k' \<Longrightarrow> frame_inv k g \<Longrightarrow> frame_inv k' g" for g
    using frame_inv_mono[of "{}"] by simp
  note cr = calm_refl[OF assms(1)]
  show ?thesis
  proof (cases c)
    case (KSemaTryDown s)
    then show ?thesis using sema_try_down_calm[OF assms(1)] assms(3,4) by auto
  next
    case (KSemaUp s)
    then show ?thesis using sema_up_calm[OF assms(1)] assms(3,4) by auto
  next
    case (KLockRelease l)
    then show ?thesis using lock_release_calm[OF assms(1)] assms(4) by auto
  next
    case (KCondWait cd l w junk)
    then have "calm {} k k'" "gs = [FSemaDown w, FLockAcquire l]"
      using cond_wait_calm[OF assms(1), of w cd l junk gs k'] assms(3,4) by simp_all
    moreover have "frame_inv k (FSemaDown w)" using assms(3) KCondWait by (simp add: fresh_sema_def)
    ultimately show ?thesis using mono[of "FSemaDown w"] KCondWait by auto
  next
    case (KCondSignal cd l)
    then show ?thesis using cond_signal_calm[OF assms(1)] assms(4) by auto
  next
    case KYield
    then show ?thesis using thread_yield_calm[OF assms(1)] assms(4) by auto
  next
    case (KSleep n)
    then show ?thesis using timer_sleep_calm[OF assms(1), of n gs k'] assms(4) by auto
  next
    case (KSetPriority n)
    then show ?thesis using set_priority_calm(1)[OF assms(1)] assms(4) by auto
  next
    case (KCreate page pri)
    then show ?thesis using thread_create_calm[OF assms(1), of page pri gs k'] assms(3,4) by auto
  next
    case KExit
    then show ?thesis using thread_exit_calm[OF assms(1,2)] assms(4) by auto
  next
    case (KSemaInit x v)
    then show ?thesis using sema_init_calm[OF assms(1)] assms(3,4) by auto
  next
    case (KCondInit cd)
    then show ?thesis using cond_init_calm[OF assms(1)] assms(4) by auto
  qed (use assms(3-5) cr in \<open>auto simp: rw_lock_acquire_def rw_lock_release_def\<close>)
qed

definition undisturbed :: "(addr \<Rightarrow> frame list) \<Rightarrow> kernel \<Rightarrow> kernel \<Rightarrow> bool" where
  "undisturbed p k k' \<longleftrightarrow> good k' \<and> idle_thread k' = idle_thread k
     \<and> (\<forall>u. \<forall>f \<in> set (p u). frame_inv k f \<longrightarrow> frame_inv k' f)"

lemma calm_undisturbed: "calm {} k k' \<Longrightarrow> undisturbed p k k'"
  using frame_inv_mono[of "{}" k k'] by (simp add: undisturbed_def) (simp add: calm_def)

lemma undisturbed_trans: "undisturbed p a b \<Longrightarrow> undisturbed p b c \<Longrightarrow> undisturbed p a c"
  by (simp add: undisturbed_def)

lemma lock_init_undisturbed:
  assumes "good k" "lock_unused k p l" "lock_init l k = Some k'"
  shows "undisturbed p k k'"
proof -
  note g = lock_init_good[OF assms]
  have "frame_inv k' f" if f: "f \<in> set (p u)" "frame_inv k f" for u f
  proof -
    have "f \<noteq> FSemaDown (lock_sema l)" using f(1) assms(2) by (auto simp: lock_unused_def)
    moreover have "holders k m \<noteq> None \<Longrightarrow> holders k' m \<noteq> None" for m using g(3) by blast
    ultimately show ?thesis using f(2) g(4,5) by (cases f) auto
  qed
  then show ?thesis using g(1,2) by (simp add: undisturbed_def)
qed

lemma rw_lock_init_undisturbed:
  assumes "good k" "lock_unused k p (rw_guard rw)" "rw_lock_init rw k = Some k'"
  shows "undisturbed p k k'"
proof -
  obtain k1 k2 k3 where s: "lock_init (rw_guard rw) k = Some k1" "cond_init (rw_read rw) k1 = Some k2"
      "cond_init (rw_write rw) k2 = Some k3" "k' = set_rw rw \<lparr>AR = 0, WR = 0, AW = 0, WW = 0\<rparr> k3"
    using assms(3) by (auto simp: rw_lock_init_def set_rw_def bind_eq_Some_conv)
  have k1: "undisturbed p k k1" by (rule lock_init_undisturbed[OF assms(1,2) s(1)])
  have "calm {} k1 k2" using k1 cond_init_calm[OF _ s(2)] by (simp add: undisturbed_def)
  moreover from this have c3: "calm {} k2 k3" using cond_init_calm[OF _ s(3)] by (simp add: calm_def)
  moreover from this have "calm {} k3 k'" using calm_rw by (simp add: calm_def s(4))
  ultimately have "calm {} k1 k'" using calm_trans0 by blast
  then show ?thesis using undisturbed_trans[OF k1 calm_undisturbed] by blast
qed

lemma run_call_undisturbed:
  assumes "good k" "current k \<noteq> idle_thread k" "call_ok c k" "init_ok c k p" "run_call c k = Some (gs, k')"
  shows "undisturbed p k k' \<and> (\<forall>g \<in> set gs. frame_inv k' g) \<and> distinct (creating gs)
    \<and> set (creating gs) \<subseteq> called_thread c \<and> (\<forall>t \<in> called_thread c. threads k t = None)"
proof (cases "\<exists>l. c = KLockInit l \<or> c = KRwInit l")
  case True
  then show ?thesis
    using lock_init_undisturbed[OF assms(1)] rw_lock_init_undisturbed[OF assms(1)] assms(4,5) by auto
next
  case False
  then show ?thesis using run_call_calm[OF assms(1-3,5)] calm_undisturbed by blast
qed

lemma sys_step_inv:
  assumes "sys_step s s'" "sys_inv s"
  shows "sys_inv s'"
  using assms
proof (cases rule: sys_step.cases)
  case (frame p k f fs gs k')
  let ?c = "current k" and ?X = "started f"
  let ?p = "p(current k := gs @ fs)"
  have inv: "good k" "\<And>u g. g \<in> set (p u) \<Longrightarrow> frame_inv k g" "set (p (idle_thread k)) \<subseteq> {FIdle}"
    "\<And>u v. u \<noteq> v \<Longrightarrow> set (creating (p u)) \<inter> set (creating (p v)) = {}" "\<And>u. distinct (creating (p u))"
    using assms(2) frame(1) by (auto simp: sys_inv_def)
  have fi: "f = FIdle \<or> ?c \<noteq> idle_thread k" using inv(3) frame(3) by auto
  have ff: "frame_inv k f" using inv(2)[of f ?c] frame(3) by simp
  note r = run_frame_calm[OF inv(1) fi ff frame(4,5)]
  have X: "?X \<subseteq> set (created f)" by (cases f) auto
  have cg: "set (creating gs) \<subseteq> set (created f)" using r by (cases f) auto
  have nX: "set (created g) \<inter> ?X = {}" if "g \<in> set (?p u)" "g \<notin> set gs \<or> u \<noteq> ?c" for g u
  proof (cases "u = ?c")
    case True
    then have "set (created g) \<subseteq> set (creating fs)" using that created_set by auto
    moreover have "set (created f) \<inter> set (creating fs) = {}" using inv(5)[of ?c] frame(3) by simp
    ultimately show ?thesis using X by blast
  next
    case False
    then have "set (created g) \<subseteq> set (creating (p u))" using that created_set by simp
    moreover have "set (created f) \<subseteq> set (creating (p ?c))" using frame(3) by simp
    ultimately show ?thesis using inv(4)[OF False] X by blast
  qed
  have "frame_inv k' g" if "g \<in> set (?p u)" for g u
  proof (cases "g \<in> set gs \<and> u = ?c")
    case True
    then show ?thesis using r by blast
  next
    case False
    have "frame_inv k g" using that inv(2)[of g u] inv(2)[of g ?c] frame(3) False by (auto split: if_splits)
    then show ?thesis using frame_inv_mono r nX[OF that] False by blast
  qed
  moreover have "set (?p (idle_thread k')) \<subseteq> {FIdle}"
  proof -
    have ik: "idle_thread k' = idle_thread k" using r by (simp add: calm_def)
    show ?thesis
    proof (cases "?c = idle_thread k")
      case True
      then have "f = FIdle" using fi by simp
      then show ?thesis using r inv(3) frame(3) True by (simp add: ik)
    next
      case False
      then show ?thesis using inv(3) by (simp add: ik)
    qed
  qed
  moreover have cre: "set (creating (?p u)) \<subseteq> set (creating (p u))" for u
    using cg frame(3) by (cases "u = ?c") auto
  moreover have "distinct (creating (?p u))" for u
  proof (cases "u = ?c")
    case True
    have "distinct (created f @ creating fs)" using inv(5)[of ?c] frame(3) by simp
    moreover have "distinct (creating gs)" using r by (cases f) auto
    ultimately show ?thesis using True cg by auto
  qed (use inv(5) in simp)
  moreover have "set (creating (?p u)) \<inter> set (creating (?p v)) = {}" if "u \<noteq> v" for u v
    using inv(4)[OF that] cre[of u] cre[of v] by blast
  moreover have "good k'" using r by (simp add: calm_def)
  ultimately show ?thesis unfolding sys_inv_def frame(2) prod.case by blast
next
  case (call p k c gs k')
  let ?p = "\<lambda>t. if t = current k then gs else if t \<in> called_thread c then [] else p t"
  have inv: "good k" "\<And>u g. g \<in> set (p u) \<Longrightarrow> frame_inv k g" "set (p (idle_thread k)) \<subseteq> {FIdle}"
    "\<And>u v. u \<noteq> v \<Longrightarrow> set (creating (p u)) \<inter> set (creating (p v)) = {}" "\<And>u. distinct (creating (p u))"
    using assms(2) call(1) by (auto simp: sys_inv_def)
  note r = run_call_undisturbed[OF inv(1) call(4-7)]
  have ik: "idle_thread k' = idle_thread k" and ck: "undisturbed p k k'" using r by (simp_all add: undisturbed_def)
  have "frame_inv k' g" if "g \<in> set (?p u)" for g u
    using that r inv(2)[of g u] ck unfolding undisturbed_def by (auto split: if_splits)
  moreover have "set (?p (idle_thread k')) \<subseteq> {FIdle}" using inv(3) call(4) by (simp add: ik)
  moreover have "distinct (creating (?p u))" for u using inv(5) r by simp
  moreover have new: "called_thread c \<inter> set (creating (p u)) = {}" for u
  proof -
    have "threads k t \<noteq> None" if "t \<in> set (creating (p u))" for t
    proof -
      obtain g where g: "g \<in> set (p u)" "t \<in> set (created g)" using \<open>t \<in> _\<close> by (auto simp: creating_def)
      have "frame_inv k g" using inv(2) g(1) .
      then have "dormant k t" using g(2) by (cases g) auto
      then show ?thesis by (auto simp: dormant_def st_def)
    qed
    then show ?thesis using r by blast
  qed
  moreover have "set (creating (?p u)) \<inter> set (creating (?p v)) = {}" if "u \<noteq> v" for u v
  proof -
    have "set (creating gs) \<inter> set (creating (p w)) = {}" for w using new[of w] r by blast
    then show ?thesis using inv(4)[OF that] that by auto
  qed
  moreover have "good k'" using ck by (simp add: undisturbed_def)
  ultimately show ?thesis unfolding sys_inv_def call(2) prod.case by blast
next
  case (irq k k' p)
  have inv: "good k" using assms(2) irq(1) by (auto simp: sys_inv_def)
  have ck: "calm {} k k'" by (rule irq_calm[OF inv irq(3)])
  then have "idle_thread k' = idle_thread k" "good k'" by (simp_all add: calm_def)
  then show ?thesis using assms(2) irq(1,2) frame_inv_mono[OF ck] by (auto simp: sys_inv_def)
qed

lemma reachable_inv: "reachable s s' \<Longrightarrow> sys_inv s \<Longrightarrow> sys_inv s'"
  unfolding reachable_def by (induction rule: rtranclp_induct) (auto intro: sys_step_inv)

end
