(* ===== verification/Boot.thy ===== *)
theory Boot
  imports Kernel
begin

text \<open>
  The start of the system up to the end of \<open>thread_start\<close>, executed in the model, and the theorem that it
  ends in a state that satisfies the invariant of theory Kernel; then the schedules that show what
  the code does where it departs from its comments.
\<close>

section \<open>Boot\<close>

text \<open>The running thread executes its next frame.\<close>

fun run_sys :: "nat \<Rightarrow> sys \<Rightarrow> sys option" where
  "run_sys 0 s = Some s"
| "run_sys (Suc n) (k, p) = (case p (current k) of
       [] \<Rightarrow> None
     | f # fs \<Rightarrow> (case run_frame f k of
           None \<Rightarrow> None
         | Some (gs, k') \<Rightarrow> run_sys n (k', p(current k := gs @ fs))))"

definition boot :: "sched_policy \<Rightarrow> sys option" where
  "boot policy = do {
     k \<leftarrow> thread_init 4096 100 (kernel_zero\<lparr>active_sched_policy := policy\<rparr>);
     (fs, k) \<leftarrow> thread_start 8192 200 k;
     run_sys 6 (k, (\<lambda>_. [])(4096 := fs, 8192 := [FIdleStart 200])) }"

lemmas boot_defs = thread_init_def lock_init_def sema_init_def init_thread_def upd_thread_def lock_acquire_def
  lock_held_by_current_thread_def thread_current_def running_thread_def is_thread_def intr_context_def
  lock_acquire_round_def sema_down_round_def set_sema_def lock_release_def unlink_lock_def update_priority_def
  sema_up_def wake_one_def kernel_zero_def lock_sema_def PRI_MIN_def PRI_MAX_def PRI_DEFAULT_def size_add_def
  thread_start_def thread_create_def again_def allocate_tid_def thread_created_def thread_unblock_def
  thread_enqueue_def idle_def thread_yield_def schedule_def next_thread_to_run_def thread_schedule_prio_def
  thread_schedule_fifo_def thread_switch_tail_def thread_block_def eff_def insert_ordered_def
  thread_priority_comparator_def

definition main_thread :: thread where
  "main_thread = \<lparr>tid = 1, status = THREAD_RUNNING, priority = 31, effective_priority = 31, wake_time = 0,
     donated_to = NULL, donated_locks = [], has_pcb = False\<rparr>"

definition idle_thr :: thread where
  "idle_thr = \<lparr>tid = 2, status = THREAD_READY, priority = 0, effective_priority = 0, wake_time = 0,
     donated_to = NULL, donated_locks = [], has_pcb = False\<rparr>"

definition booted :: kernel where
  "booted = kernel_zero\<lparr>threads := [4096 \<mapsto> main_thread, 8192 \<mapsto> idle_thr], holders := [100 \<mapsto> NULL],
     semas := [104 \<mapsto> \<lparr>svalue = 1, waiters = []\<rparr>, 200 \<mapsto> \<lparr>svalue = 0, waiters = []\<rparr>],
     all_list := [4096, 8192], current := 4096, idle_thread := 8192, initial_thread := 4096,
     active_sched_policy := SCHED_PRIO, tid_lock := 100, next_tid := 3\<rparr>"

definition booted_pend :: "addr \<Rightarrow> frame list" where
  "booted_pend = (\<lambda>_. [])(8192 := [FIdle])"

lemma boot_booted: "boot SCHED_PRIO = Some (booted, booted_pend)"
proof -
  have six: "run_sys 6 = run_sys (Suc (Suc (Suc (Suc (Suc (Suc 0))))))" by (simp add: numeral_eq_Suc)
  show ?thesis unfolding boot_def six
    by (simp add: boot_defs booted_def main_thread_def idle_thr_def booted_pend_def fun_upd_twist)
      (simp add: fun_eq_iff)
qed

lemma threads_booted: "threads booted = [4096 \<mapsto> main_thread, 8192 \<mapsto> idle_thr]"
  by (simp add: booted_def)

lemma booted_sel [simp]: "current booted = 4096" "idle_thread booted = 8192" "priority_queue booted = []"
  "fifo_ready_list booted = []" "active_sched_policy booted = SCHED_PRIO" "sleeping_list booted = []"
  "in_external_intr booted = False" "holders booted = [100 \<mapsto> NULL]" "conds booted = (\<lambda>_. None)"
  "semas booted = [104 \<mapsto> \<lparr>svalue = 1, waiters = []\<rparr>, 200 \<mapsto> \<lparr>svalue = 0, waiters = []\<rparr>]"
  by (simp_all add: booted_def kernel_zero_def)

lemma st_booted: "st booted = [4096 \<mapsto> THREAD_RUNNING, 8192 \<mapsto> THREAD_READY]"
  by (auto simp: st_def threads_booted main_thread_def idle_thr_def fun_eq_iff)

lemma waits_booted: "\<not> waits booted t p"
  by (auto simp: waits_def split: option.split)

lemma booted_good: "good booted"
proof -
  have "sched_inv booted"
    by (auto simp: sched_inv_def queue_inv_def st_booted)
  moreover have "waits_ok booted" by (auto simp: waits_ok_def waits_booted)
  moreover have "locks_ok booted"
    by (auto simp: locks_ok_def svals_def lock_sema_def dlocks_def threads_booted main_thread_def idle_thr_def
        split: if_splits)
  ultimately show ?thesis by (simp add: good_def sync_inv_def base_inv_def conds_ok_def)
qed

lemma booted_sys_inv: "sys_inv (booted, booted_pend)"
  using booted_good by (auto simp: sys_inv_def booted_pend_def)

text \<open>The main thread initialises a lock of its own and takes it.\<close>

lemma booted_locks:
  "\<exists>k p. reachable (booted, booted_pend) (k, p) \<and> holders k 300 = Some 4096 \<and> current k = 4096"
proof -
  obtain k1 where k1: "run_call (KLockInit 300) booted = Some ([], k1)"
      "k1 = booted\<lparr>holders := [100 \<mapsto> NULL, 300 \<mapsto> NULL],
         semas := (semas booted)(304 \<mapsto> \<lparr>svalue = 1, waiters = []\<rparr>)\<rparr>"
    by (simp add: lock_init_def sema_init_def lock_sema_def)
  obtain k2 where k2: "run_frame (FLockAcquire 300) k1 = Some ([], k2)" "holders k2 300 = Some 4096" "current k2 = 4096"
    by (simp add: k1(2) booted_def boot_defs main_thread_def idle_thr_def)
  let ?p1 = "\<lambda>t. if t = current booted then [] else if t \<in> called_thread (KLockInit 300) then [] else booted_pend t"
  let ?p2 = "\<lambda>t. if t = current k1 then [FLockAcquire 300] else if t \<in> called_thread (KLockAcquire 300) then [] else ?p1 t"
  have "lock_unused booted booted_pend 300" by (simp add: lock_unused_def waits_booted booted_pend_def)
  then have "sys_step (booted, booted_pend) (k1, ?p1)"
    by (intro sys_step.call[OF _ _ _ _ k1(1)]) (simp_all add: booted_pend_def)
  then have "reachable (booted, booted_pend) (k1, ?p1)" unfolding reachable_def by (rule r_into_rtranclp)
  moreover have "sys_step (k1, ?p1) (k1, ?p2)"
    by (rule sys_step.call) (simp_all add: k1(2))
  ultimately have "reachable (booted, booted_pend) (k1, ?p2)" unfolding reachable_def by (rule rtranclp.rtrancl_into_rtrancl)
  moreover have "sys_step (k1, ?p2) (k2, ?p2(current k1 := [] @ []))"
    by (rule sys_step.frame[OF _ _ k2(1)]) simp_all
  ultimately have "reachable (booted, booted_pend) (k2, ?p2(current k1 := [] @ []))"
    unfolding reachable_def by (rule rtranclp.rtrancl_into_rtrancl)
  then show ?thesis using k2(2,3) by blast
qed

section \<open>More threads\<close>

definition mk_thread :: "int \<Rightarrow> thread_status \<Rightarrow> int \<Rightarrow> int \<Rightarrow> addr \<Rightarrow> addr list \<Rightarrow> thread" where
  "mk_thread i s pri e dt dl = \<lparr>tid = i, status = s, priority = pri, effective_priority = e, wake_time = 0,
     donated_to = dt, donated_locks = dl, has_pcb = False\<rparr>"

text \<open>A ready thread with the priority of the main thread.\<close>

definition two_threads :: kernel where
  "two_threads = booted\<lparr>threads := (threads booted)(12288 \<mapsto> mk_thread 3 THREAD_READY 31 31 NULL []),
     priority_queue := [12288]\<rparr>"

text \<open>Under the FIFO policy the main thread (31) wants the lock that the ready thread (10) holds.\<close>

definition fifo_holder :: kernel where
  "fifo_holder = booted\<lparr>active_sched_policy := SCHED_FIFO,
     threads := [4096 \<mapsto> main_thread, 8192 \<mapsto> idle_thr, 12288 \<mapsto> mk_thread 3 THREAD_READY 10 10 NULL [300]],
     fifo_ready_list := [12288],
     holders := [100 \<mapsto> NULL, 300 \<mapsto> 12288],
     semas := [104 \<mapsto> \<lparr>svalue = 1, waiters = []\<rparr>, 304 \<mapsto> \<lparr>svalue = 0, waiters = []\<rparr>]\<rparr>"

lemma fifo_holder_lost:
  "\<exists>k. lock_acquire 300 fifo_holder = Some (False, k) \<and> current k = 8192 \<and> fifo_ready_list k = []
     \<and> st k 12288 = Some THREAD_READY"
  by (simp add: fifo_holder_def booted_def boot_defs main_thread_def idle_thr_def mk_thread_def
      recurse_donate_def recurse_donate_loop.simps requeue_def unlink_ready_def st_def)

section \<open>Where the code departs from its comments\<close>

lemma requeue_fifo:
  assumes "active_sched_policy k = SCHED_FIFO" "distinct (fifo_ready_list k)" "t \<in> set (fifo_ready_list k)"
    "t \<notin> set (priority_queue k)"
  shows "\<exists>k'. requeue t k = Some k' \<and> t \<notin> set (fifo_ready_list k') \<and> t \<in> set (priority_queue k')
    \<and> active_sched_policy k' = SCHED_FIFO"
  using assms by (simp add: requeue_def unlink_ready_def)

lemma cond_signal_nobody: "conds k c = Some [] \<Longrightarrow> cond_signal c l k = None"
  by (auto simp: cond_signal_def bind_eq_None_conv)


section \<open>States for the witnesses\<close>

text \<open>The main thread has asked for the lock 300, which a ready thread of priority 10 holds.\<close>

definition low_holder :: kernel where
  "low_holder = booted\<lparr>threads := [4096 \<mapsto> mk_thread 1 THREAD_RUNNING 31 31 300 [], 8192 \<mapsto> idle_thr,
       12288 \<mapsto> mk_thread 3 THREAD_READY 10 10 NULL [300]],
     priority_queue := [12288], holders := [100 \<mapsto> NULL, 300 \<mapsto> 12288],
     semas := [104 \<mapsto> \<lparr>svalue = 1, waiters = []\<rparr>, 304 \<mapsto> \<lparr>svalue = 0, waiters = []\<rparr>]\<rparr>"

lemma low_holder_facts:
  "queue_inv low_holder" "locks_wf low_holder" "st low_holder 4096 \<noteq> None" "finite (dom (threads low_holder))"
  "\<forall>u. u \<noteq> 4096 \<longrightarrow> donated low_holder u" "waits_for low_holder 4096 = Some 12288"
  "eff low_holder 12288 = 10" "eff low_holder 4096 = 31"
proof -
  have st: "st low_holder = [4096 \<mapsto> THREAD_RUNNING, 8192 \<mapsto> THREAD_READY, 12288 \<mapsto> THREAD_READY]"
    by (auto simp: st_def low_holder_def mk_thread_def idle_thr_def fun_eq_iff)
  have wf: "waits_for low_holder u = (if u = 4096 then Some 12288 else None)" for u
    by (simp add: waits_for_def low_holder_def mk_thread_def idle_thr_def)
  show "queue_inv low_holder" unfolding queue_inv_def st by (auto simp: low_holder_def)
  show "locks_wf low_holder" unfolding locks_wf_def wf st
    by (auto simp: low_holder_def mk_thread_def idle_thr_def split: if_splits)
  show "st low_holder 4096 \<noteq> None" by (simp add: st)
  show "finite (dom (threads low_holder))" by (simp add: low_holder_def)
  show "\<forall>u. u \<noteq> 4096 \<longrightarrow> donated low_holder u" by (simp add: donated_def wf)
  show "waits_for low_holder 4096 = Some 12288" by (simp add: wf)
  show "eff low_holder 12288 = 10" "eff low_holder 4096 = 31"
    by (simp_all add: eff_def low_holder_def mk_thread_def)
qed

lemma two_threads_good: "good two_threads" "st two_threads 12288 = Some THREAD_READY"
proof -
  have t: "threads two_threads = [4096 \<mapsto> main_thread, 8192 \<mapsto> idle_thr, 12288 \<mapsto> mk_thread 3 THREAD_READY 31 31 NULL []]"
    by (simp add: two_threads_def threads_booted)
  have f: "priority_queue two_threads = [12288]" "current two_threads = 4096" "idle_thread two_threads = 8192"
    "semas two_threads = semas booted" "holders two_threads = holders booted" "conds two_threads = conds booted"
    "sleeping_list two_threads = []" "in_external_intr two_threads = False" "fifo_ready_list two_threads = []"
    "active_sched_policy two_threads = SCHED_PRIO"
    by (simp_all add: two_threads_def)
  have st: "st two_threads = [4096 \<mapsto> THREAD_RUNNING, 8192 \<mapsto> THREAD_READY, 12288 \<mapsto> THREAD_READY]"
    by (auto simp: st_def t main_thread_def idle_thr_def mk_thread_def fun_eq_iff)
  then show "st two_threads 12288 = Some THREAD_READY" by simp
  have nw: "\<not> waits two_threads u p" for u p
    by (auto simp: waits_def f(4,7) split: option.splits)
  have "sched_inv two_threads" unfolding sched_inv_def queue_inv_def st f by auto
  moreover have "waits_ok two_threads" using booted_good nw by (auto simp: waits_ok_def f)
  moreover have "locks_ok two_threads"
    by (auto simp: locks_ok_def svals_def f lock_sema_def dlocks_def t main_thread_def idle_thr_def mk_thread_def
        split: if_splits)
  ultimately show "good two_threads"
    by (simp add: good_def sync_inv_def base_inv_def conds_ok_def f)
qed

section \<open>Readers-writers exclusion\<close>

text \<open>A writer is alone: at most one active writer, and none beside active readers.\<close>

definition rw_excl :: "rw_counts \<Rightarrow> bool" where
  "rw_excl c \<longleftrightarrow> 0 \<le> AR c \<and> 0 \<le> AW c \<and> 0 \<le> WR c \<and> 0 \<le> WW c \<and> AW c \<le> 1 \<and> (AW c = 1 \<longrightarrow> AR c = 0)"

lemma rw_loop_enter:
  assumes "good k" "rw_locks k rw = Some c" "rw_excl c" "rw_loop rw reader w junk k = Some ([], k')"
  shows "\<exists>c'. rw_locks k' rw = Some c' \<and> rw_excl c' \<and> \<not> rw_must_wait reader c
    \<and> (if reader then AW c' = 0 \<and> AR c' = AR c + 1 else AR c' = 0 \<and> AW c' = 1)"
proof -
  have nw: "\<not> rw_must_wait reader c"
    using assms(2,4) by (auto simp: rw_loop_def bind_eq_Some_conv split: if_splits)
  have r: "lock_release (rw_guard rw) (set_rw rw (rw_enter reader c) k) = Some k'"
    using assms(2,4) nw by (auto simp: rw_loop_def bind_eq_Some_conv)
  have "good (set_rw rw (rw_enter reader c) k)" using calm_rw[OF assms(1)] by (simp add: calm_def)
  then have "kept (set_rw rw (rw_enter reader c) k) k'" using lock_release_inv(2)[OF goodD(1) r] by simp
  then have "rw_locks k' rw = Some (rw_enter reader c)" by (simp add: kept_def set_rw_def)
  then show ?thesis using nw assms(3)
    by (cases reader) (auto simp: rw_must_wait_def rw_enter_def rw_excl_def)
qed

section \<open>Sleeping\<close>

text \<open>With the sleepers in order, a tick wakes exactly those whose time has come.\<close>

lemma wake_sleepers_due:
  assumes "sleeping_list k = ts" "wake_sleepers ts k = Some k'" "sorted (map (wake k) ts)"
    "\<forall>t \<in> set ts. threads k t \<noteq> None"
  shows "sleeping_list k' = filter (\<lambda>t. wake k t > ticks k) ts \<and> ticks k' = ticks k
    \<and> (\<forall>t \<in> set ts. wake k t \<le> ticks k \<longrightarrow> st k' t = Some THREAD_READY)
    \<and> (\<forall>t. t \<notin> set ts \<longrightarrow> threads k' t = threads k t) \<and> wake k' = wake k"
  using assms
proof (induction ts arbitrary: k)
  case Nil
  then show ?case using sleeping_list_same[of k "[]"] by simp
next
  case (Cons t ts)
  obtain th where th: "threads k t = Some th" using Cons.prems(4) by auto
  then have wk: "wake k t = wake_time th" by (simp add: wake_def)
  show ?case
  proof (cases "wake_time th \<le> ticks k")
    case False
    then have "k' = k" using Cons.prems(1,2) th sleeping_list_same[of k "t # ts"] by simp
    moreover have "\<forall>u \<in> set (t # ts). wake k u > ticks k" using False Cons.prems(3) wk by fastforce
    ultimately show ?thesis using Cons.prems(1) by (auto simp: filter_id_conv)
  next
    case True
    let ?k1 = "k\<lparr>sleeping_list := ts\<rparr>"
    obtain k2 where k2: "thread_unblock t ?k1 = Some k2" "wake_sleepers ts k2 = Some k'"
      using Cons.prems(2) th True by (auto simp: bind_eq_Some_conv)
    obtain k3 where k3: "thread_enqueue t ?k1 = Some k3" "upd_thread t (\<lambda>th. th\<lparr>status := THREAD_READY\<rparr>) k3 = Some k2"
      using k2(1) by (auto simp: thread_unblock_def bind_eq_Some_conv)
    have e3: "threads k3 = threads k \<and> sleeping_list k3 = ts \<and> ticks k3 = ticks k"
      using k3(1) by (auto simp: thread_enqueue_def bind_eq_Some_conv split: sched_policy.splits)
    then have e2: "threads k2 = (threads k)(t \<mapsto> th\<lparr>status := THREAD_READY\<rparr>)" "sleeping_list k2 = ts" "ticks k2 = ticks k"
      using k3(2) th by (auto simp: upd_thread_def bind_eq_Some_conv)
    then have w2: "wake k2 = wake k" using th by (auto simp: wake_def fun_eq_iff)
    have IH: "sleeping_list k' = filter (\<lambda>t. wake k2 t > ticks k2) ts \<and> ticks k' = ticks k2
      \<and> (\<forall>t \<in> set ts. wake k2 t \<le> ticks k2 \<longrightarrow> st k' t = Some THREAD_READY)
      \<and> (\<forall>t. t \<notin> set ts \<longrightarrow> threads k' t = threads k2 t) \<and> wake k' = wake k2"
      by (rule Cons.IH[OF e2(2) k2(2)]) (use Cons.prems(3,4) w2 e2 in auto)
    have "st k' t = Some THREAD_READY"
    proof (cases "t \<in> set ts")
      case True
      then show ?thesis using IH w2 e2(3) wk \<open>wake_time th \<le> ticks k\<close> by simp
    next
      case False
      then show ?thesis using IH e2(1) by (simp add: st_def)
    qed
    then show ?thesis using IH w2 e2 wk True by auto
  qed
qed

text \<open>\<open>thread_set_priority\<close> never gives up the processor, even to a more urgent thread.\<close>

lemma set_priority_no_yield:
  assumes "good k" "thread_set_priority n k = Some k'"
  shows "current k' = current k \<and> good k'"
  using set_priority_calm[OF assms] by (simp add: calm_def)

lemma set_priority_example:
  "\<exists>k'. thread_set_priority 0 two_threads = Some k' \<and> current k' = 4096 \<and> eff k' 4096 = 0
    \<and> st k' 12288 = Some THREAD_READY \<and> eff k' 12288 = 31"
proof -
  obtain k' where k': "thread_set_priority 0 two_threads = Some k'" "eff k' 4096 = 0" "eff k' 12288 = 31"
      "st k' 12288 = Some THREAD_READY"
    by (simp add: two_threads_def booted_def boot_defs main_thread_def idle_thr_def mk_thread_def
        thread_set_priority_def st_def)
  then show ?thesis using set_priority_no_yield[OF two_threads_good(1) k'(1)] by (simp add: two_threads_def)
qed

end
