(* ===== verification/Cache.thy ===== *)
theory Cache
  imports Inode
begin

text \<open>
  The buffer cache of projects1-3/src/filesys/inode.c: 64 blocks in front of the device.  A cache
  operation runs to its end before the next begins.  \<open>bc_locked\<close> and \<open>cb_locked\<close> say that a lock is held
  although no operation runs, as after \<open>flush_cache\<close>: the thread that holds it panics when it acquires it
  again, every other thread waits for ever, and both are a missing result here.  The blocks of the cache
  are allocated when the kernel starts.  \<open>None\<close> is a panic, a loop without an end, or a copy over the end
  of a block's data.
\<close>

section \<open>The code\<close>

definition CACHE_SIZE :: nat where "CACHE_SIZE = 64"

record cached_block =
  cb_sector :: nat
  cb_use :: int
  cb_dirty :: int
  cb_valid :: int
  cb_locked :: bool
  cb_data :: "byte list"

record buffer_cache =
  cached_blocks :: "cached_block list"
  clock_hand :: nat
  bc_locked :: bool

record cdev =
  sectors :: "nat \<Rightarrow> byte list"
  sector_cnt :: nat
  dev_type :: block_type
  bcache :: buffer_cache

definition dev_read :: "nat \<Rightarrow> cdev \<Rightarrow> byte list option" where
  "dev_read sec s = do { ASSERT (sec < sector_cnt s); Some (sectors s sec) }"

definition dev_write :: "nat \<Rightarrow> byte list \<Rightarrow> cdev \<Rightarrow> cdev option" where
  "dev_write sec b s = do { ASSERT (sec < sector_cnt s); ASSERT (dev_type s \<noteq> BLOCK_FOREIGN); Some (s\<lparr>sectors := (sectors s)(sec := b)\<rparr>) }"

definition block_of :: "cdev \<Rightarrow> nat \<Rightarrow> cached_block" where
  "block_of s i = cached_blocks (bcache s) ! i"

definition set_block :: "nat \<Rightarrow> cached_block \<Rightarrow> cdev \<Rightarrow> cdev" where
  "set_block i cb s = s\<lparr>bcache := (bcache s)\<lparr>cached_blocks := (cached_blocks (bcache s))[i := cb]\<rparr>\<rparr>"

definition buffer_cache_init :: "cdev \<Rightarrow> cdev" where
  "buffer_cache_init s = s\<lparr>bcache := \<lparr>cached_blocks = replicate CACHE_SIZE
       \<lparr>cb_sector = 0, cb_use = 0, cb_dirty = 0, cb_valid = 0, cb_locked = False, cb_data = replicate BLOCK_SECTOR_SIZE 0\<rparr>,
     clock_hand = 0, bc_locked = False\<rparr>\<rparr>"

text \<open>The first block that is not valid.\<close>

definition find_invalid :: "cdev \<Rightarrow> nat option" where
  "find_invalid s = List.find (\<lambda>i. cb_valid (block_of s i) = 0) [0..<CACHE_SIZE]"

text \<open>The clock: the hand moves to \<open>(hand + 1) & CACHE_SIZE\<close>.  Block 64 is behind the array.\<close>

definition advance :: "nat \<Rightarrow> nat" where
  "advance hand = unat ((word_of_nat hand + 1 :: 32 word) AND word_of_nat CACHE_SIZE)"

partial_function (option) clock_loop :: "cdev \<Rightarrow> (nat \<times> cdev) option" where
  "clock_loop s = (let
     hand = advance (clock_hand (bcache s));
     s = s\<lparr>bcache := (bcache s)\<lparr>clock_hand := hand\<rparr>\<rparr>
     in do {
       ASSERT (hand < CACHE_SIZE);
       if cb_use (block_of s hand) = 0 then Some (hand, s)
       else do {
         ASSERT (\<not> cb_locked (block_of s hand));
         clock_loop (set_block hand ((block_of s hand)\<lparr>cb_use := 0\<rparr>) s) } })"

definition clock_find_victim :: "cdev \<Rightarrow> (nat \<times> cdev) option" where
  "clock_find_victim s = (case find_invalid s of Some i \<Rightarrow> Some (i, s) | None \<Rightarrow> clock_loop s)"

definition evict_and_replace :: "nat \<Rightarrow> nat \<Rightarrow> bool \<Rightarrow> cdev \<Rightarrow> cdev option" where
  "evict_and_replace i old_sector flush s = do {
     s \<leftarrow> (if flush then dev_write old_sector (cb_data (block_of s i)) s else Some s);
     b \<leftarrow> dev_read (cb_sector (block_of s i)) s;
     Some (set_block i ((block_of s i)\<lparr>cb_data := b\<rparr>) s) }"

primrec search_from :: "nat list \<Rightarrow> nat \<Rightarrow> cdev \<Rightarrow> nat option option" where
  "search_from [] sec s = Some None"
| "search_from (i # is) sec s = do {
     ASSERT (\<not> cb_locked (block_of s i));
     if cb_sector (block_of s i) = sec \<and> cb_valid (block_of s i) = 1 then Some (Some i) else search_from is sec s }"

definition cache_search :: "nat \<Rightarrow> cdev \<Rightarrow> nat option option" where
  "cache_search sec s = search_from [0..<CACHE_SIZE] sec s"

definition get_cached_block :: "nat \<Rightarrow> cdev \<Rightarrow> (nat \<times> cdev) option" where
  "get_cached_block sec s = do {
     ASSERT (\<not> bc_locked (bcache s));
     r \<leftarrow> cache_search sec s;
     case r of
       Some i \<Rightarrow> Some (i, s)
     | None \<Rightarrow> do {
         (i, s) \<leftarrow> clock_find_victim s;
         let cb = block_of s i;
         let flush = (cb_dirty cb = 1 \<and> cb_valid cb = 1);
         let old_sec = cb_sector cb;
         ASSERT (\<not> cb_locked cb);
         let s = set_block i (cb\<lparr>cb_sector := sec, cb_valid := 1, cb_use := 1, cb_dirty := 0\<rparr>) s;
         s \<leftarrow> evict_and_replace i old_sec flush s;
         Some (i, s) } }"

text \<open>\<open>buff\<close> is what the caller's buffer holds.  The copy goes from the buffer to the block.  Both functions
  start over when the block they are given has another sector by then.\<close>

partial_function (option) cache_read :: "nat \<Rightarrow> byte list \<Rightarrow> nat \<Rightarrow> cdev \<Rightarrow> (byte list \<times> cdev) option" where
  "cache_read sec buff offset s = do {
     (i, s) \<leftarrow> get_cached_block sec s;
     let cb = block_of s i;
     ASSERT (\<not> cb_locked cb);
     if cb_sector cb = sec then do {
       ASSERT (offset + length buff \<le> BLOCK_SECTOR_SIZE);
       Some (buff, set_block i (cb\<lparr>cb_data := memcpy_at (cb_data cb) offset buff\<rparr>) s) }
     else cache_read sec buff offset s }"

partial_function (option) cache_write :: "nat \<Rightarrow> byte list \<Rightarrow> nat \<Rightarrow> cdev \<Rightarrow> cdev option" where
  "cache_write sec buff offset s = do {
     (i, s) \<leftarrow> get_cached_block sec s;
     let cb = block_of s i;
     ASSERT (\<not> cb_locked cb);
     if cb_sector cb = sec then do {
       ASSERT (offset + length buff \<le> BLOCK_SECTOR_SIZE);
       Some (set_block i (cb\<lparr>cb_data := memcpy_at (cb_data cb) offset buff, cb_dirty := 1\<rparr>) s) }
     else cache_write sec buff offset s }"

primrec flush_from :: "nat list \<Rightarrow> cdev \<Rightarrow> cdev option" where
  "flush_from [] s = Some s"
| "flush_from (i # is) s = (let cb = block_of s i in
     if cb_dirty cb = 1 \<and> cb_valid cb = 1 then do {
       s \<leftarrow> dev_write (cb_sector cb) (cb_data cb) s;
       flush_from is (set_block i (cb\<lparr>cb_dirty := 0\<rparr>) s) }
     else flush_from is s)"

text \<open>The lock of the cache is not released: no access after a flush comes to an end.\<close>

definition flush_cache :: "cdev \<Rightarrow> cdev option" where
  "flush_cache s = do {
     ASSERT (\<not> bc_locked (bcache s));
     flush_from [0..<CACHE_SIZE] (s\<lparr>bcache := (bcache s)\<lparr>bc_locked := True\<rparr>\<rparr>) }"

section \<open>What the cache stands for\<close>

definition caches :: "cdev \<Rightarrow> nat \<Rightarrow> nat \<Rightarrow> bool" where
  "caches s i sec \<longleftrightarrow> i < CACHE_SIZE \<and> cb_valid (block_of s i) = 1 \<and> cb_sector (block_of s i) = sec"

text \<open>The device as the file system sees it: a cached sector has the bytes of its block.\<close>

definition view :: "cdev \<Rightarrow> nat \<Rightarrow> byte list" where
  "view s sec = (case List.find (\<lambda>i. caches s i sec) [0..<CACHE_SIZE] of
     Some i \<Rightarrow> cb_data (block_of s i) | None \<Rightarrow> sectors s sec)"

definition cache_ok :: "cdev \<Rightarrow> bool" where
  "cache_ok s \<longleftrightarrow> length (cached_blocks (bcache s)) = CACHE_SIZE \<and> clock_hand (bcache s) = 0
     \<and> dev_type s \<noteq> BLOCK_FOREIGN \<and> (\<forall>i < CACHE_SIZE. let cb = block_of s i in cb_valid cb \<in> {0, 1} \<and> cb_dirty cb \<in> {0, 1} \<and> \<not> cb_locked cb
          \<and> (cb_valid cb = 1 \<longrightarrow> cb_sector cb < sector_cnt s)
          \<and> (cb_valid cb = 1 \<and> cb_dirty cb = 0 \<longrightarrow> cb_data cb = sectors s (cb_sector cb)))
     \<and> (\<forall>i j sec. caches s i sec \<longrightarrow> caches s j sec \<longrightarrow> i = j)"

section \<open>Blocks\<close>

lemma cache_okD:
  assumes "cache_ok s" "i < CACHE_SIZE"
  shows "length (cached_blocks (bcache s)) = CACHE_SIZE" "cb_valid (block_of s i) = 0 \<or> cb_valid (block_of s i) = 1"
    "cb_dirty (block_of s i) = 0 \<or> cb_dirty (block_of s i) = 1" "\<not> cb_locked (block_of s i)"
    "cb_valid (block_of s i) = 1 \<Longrightarrow> cb_sector (block_of s i) < sector_cnt s"
    "cb_valid (block_of s i) = 1 \<Longrightarrow> cb_dirty (block_of s i) = 0 \<Longrightarrow> cb_data (block_of s i) = sectors s (cb_sector (block_of s i))"
  using assms by (auto simp: cache_ok_def Let_def)

lemma cache_ok_dev: "cache_ok s \<Longrightarrow> dev_type s \<noteq> BLOCK_FOREIGN"
  by (simp add: cache_ok_def)

lemma caches_unique: "cache_ok s \<Longrightarrow> caches s i sec \<Longrightarrow> caches s j sec \<Longrightarrow> i = j"
  by (simp add: cache_ok_def)

lemma view_cached:
  assumes "cache_ok s" "caches s i sec"
  shows "view s sec = cb_data (block_of s i)"
proof -
  have "List.find (\<lambda>i. caches s i sec) [0..<CACHE_SIZE] \<noteq> None"
    using assms(2) by (auto simp: find_None_iff caches_def)
  then obtain j where j: "List.find (\<lambda>i. caches s i sec) [0..<CACHE_SIZE] = Some j" by blast
  then have "caches s j sec" by (auto simp: find_Some_iff)
  then have "j = i" by (rule caches_unique[OF assms(1) _ assms(2)])
  then show ?thesis using j by (simp add: view_def)
qed

lemma view_uncached: "\<forall>i. \<not> caches s i sec \<Longrightarrow> view s sec = sectors s sec"
proof -
  assume "\<forall>i. \<not> caches s i sec"
  then have "List.find (\<lambda>i. caches s i sec) [0..<CACHE_SIZE] = None" by (simp add: find_None_iff)
  then show ?thesis by (simp add: view_def)
qed

lemma view_cong:
  assumes "\<And>i. caches s' i sec = caches s i sec" "\<And>i. caches s i sec \<Longrightarrow> cb_data (block_of s' i) = cb_data (block_of s i)"
    "sectors s' sec = sectors s sec"
  shows "view s' sec = view s sec"
proof -
  have "caches s i sec" if "List.find (\<lambda>i. caches s i sec) [0..<CACHE_SIZE] = Some i" for i
    using that by (auto simp: find_Some_iff)
  then show ?thesis using assms by (simp add: view_def split: option.splits)
qed

lemma block_of_set [simp]:
  "length (cached_blocks (bcache s)) = CACHE_SIZE \<Longrightarrow> i < CACHE_SIZE \<Longrightarrow>
     block_of (set_block i cb s) j = (if j = i then cb else block_of s j)"
  by (simp add: block_of_def set_block_def)

lemma set_block_simps [simp]:
  "dev_type (set_block i cb s) = dev_type s" "sectors (set_block i cb s) = sectors s" "sector_cnt (set_block i cb s) = sector_cnt s"
  "length (cached_blocks (bcache (set_block i cb s))) = length (cached_blocks (bcache s))"
  "clock_hand (bcache (set_block i cb s)) = clock_hand (bcache s)" "bc_locked (bcache (set_block i cb s)) = bc_locked (bcache s)"
  by (simp_all add: set_block_def)

lemma set_block_sectors: "set_block i cb (s\<lparr>sectors := d\<rparr>) = (set_block i cb s)\<lparr>sectors := d\<rparr>"
  by (cases s) (simp add: set_block_def)

lemma advance_0: "advance 0 = 0"
  by (simp add: advance_def CACHE_SIZE_def)

section \<open>Searching\<close>

lemma search_from_ok:
  assumes "cache_ok s" "set is \<subseteq> {..<CACHE_SIZE}"
  shows "\<exists>r. search_from is sec s = Some r \<and> (case r of Some i \<Rightarrow> i \<in> set is \<and> caches s i sec | None \<Rightarrow> \<forall>i \<in> set is. \<not> caches s i sec)"
  using assms(2)
proof (induction "is")
  case (Cons i "is")
  then have i: "i < CACHE_SIZE" "\<not> cb_locked (block_of s i)" using cache_okD(4)[OF assms(1)] by auto
  from Cons obtain r where r: "search_from is sec s = Some r"
    "case r of Some i \<Rightarrow> i \<in> set is \<and> caches s i sec | None \<Rightarrow> \<forall>i \<in> set is. \<not> caches s i sec" by auto
  show ?case
  proof (cases "cb_sector (block_of s i) = sec \<and> cb_valid (block_of s i) = 1")
    case True
    then show ?thesis using i by (simp add: caches_def)
  next
    case False
    then have "search_from (i # is) sec s = Some r" "\<not> caches s i sec" using i r(1) by (auto simp: caches_def)
    then show ?thesis using r(2) by (auto split: option.splits)
  qed
qed simp

lemma cache_search_ok:
  assumes "cache_ok s"
  shows "\<exists>r. cache_search sec s = Some r \<and> (case r of Some i \<Rightarrow> caches s i sec | None \<Rightarrow> \<forall>i. \<not> caches s i sec)"
  using search_from_ok[OF assms, of "[0..<CACHE_SIZE]" sec] by (auto simp: cache_search_def caches_def atLeast0LessThan split: option.splits)

section \<open>The victim\<close>

lemma find_invalid_Some: "find_invalid s = Some i \<Longrightarrow> i < CACHE_SIZE \<and> cb_valid (block_of s i) = 0"
  by (auto simp: find_invalid_def find_Some_iff)

text \<open>With every block in use the clock always stops at block 0.\<close>

lemma clock_loop_ok:
  assumes "cache_ok s"
  shows "clock_loop s = Some (0, set_block 0 ((block_of s 0)\<lparr>cb_use := 0\<rparr>) s)"
proof -
  have h: "clock_hand (bcache s) = 0" using assms by (simp add: cache_ok_def)
  have len: "length (cached_blocks (bcache s)) = CACHE_SIZE" using assms by (simp add: cache_ok_def)
  have c: "0 < CACHE_SIZE" by (simp add: CACHE_SIZE_def)
  have u: "s\<lparr>bcache := (bcache s)\<lparr>clock_hand := 0\<rparr>\<rparr> = s" using h by simp
  have step: "clock_loop t = (if cb_use (block_of t 0) = 0 then Some (0, t)
      else do { ASSERT (\<not> cb_locked (block_of t 0)); clock_loop (set_block 0 ((block_of t 0)\<lparr>cb_use := 0\<rparr>) t) })"
    if "clock_hand (bcache t) = 0" for t
  proof -
    have "t\<lparr>bcache := (bcache t)\<lparr>clock_hand := 0\<rparr>\<rparr> = t" using that by simp
    then show ?thesis
      by (subst clock_loop.simps) (simp only: that advance_0 c Let_def ASSERT_simps Option.bind.bind_lunit)
  qed
  let ?t = "set_block 0 ((block_of s 0)\<lparr>cb_use := 0\<rparr>) s"
  show ?thesis
  proof (cases "cb_use (block_of s 0) = 0")
    case True
    then have "(block_of s 0)\<lparr>cb_use := 0\<rparr> = block_of s 0" by (cases "block_of s 0") simp
    then have "?t = s" by (simp add: set_block_def block_of_def)
    then show ?thesis using step[OF h] True by simp
  next
    case False
    have "clock_loop ?t = Some (0, ?t)" using step[of ?t] h len c by simp
    then show ?thesis using step[OF h] False cache_okD(4)[OF assms c] by simp
  qed
qed

text \<open>Changing the use bits changes nothing.\<close>

lemma cache_ok_use:
  assumes "cache_ok s" "i < CACHE_SIZE"
  shows "cache_ok (set_block i ((block_of s i)\<lparr>cb_use := u\<rparr>) s)" "caches (set_block i ((block_of s i)\<lparr>cb_use := u\<rparr>) s) = caches s"
    "view (set_block i ((block_of s i)\<lparr>cb_use := u\<rparr>) s) = view s"
proof -
  let ?t = "set_block i ((block_of s i)\<lparr>cb_use := u\<rparr>) s"
  have len: "length (cached_blocks (bcache s)) = CACHE_SIZE" using assms by (simp add: cache_ok_def)
  have b: "cb_sector (block_of ?t j) = cb_sector (block_of s j)" "cb_valid (block_of ?t j) = cb_valid (block_of s j)"
    "cb_dirty (block_of ?t j) = cb_dirty (block_of s j)" "cb_locked (block_of ?t j) = cb_locked (block_of s j)"
    "cb_data (block_of ?t j) = cb_data (block_of s j)" for j using len assms(2) by simp_all
  show c: "caches ?t = caches s" by (intro ext) (simp add: caches_def b)
  show "cache_ok ?t" using assms(1) unfolding cache_ok_def c Let_def b by simp
  show "view ?t = view s" by (intro ext view_cong) (simp_all add: c b)
qed

lemma victim_ok:
  assumes "cache_ok s"
  shows "\<exists>i s'. clock_find_victim s = Some (i, s') \<and> i < CACHE_SIZE \<and> cache_ok s' \<and> caches s' = caches s \<and> view s' = view s
    \<and> sectors s' = sectors s \<and> sector_cnt s' = sector_cnt s \<and> bc_locked (bcache s') = bc_locked (bcache s)
    \<and> (find_invalid s = None \<longrightarrow> i = 0)"
proof (cases "find_invalid s")
  case None
  have c: "0 < CACHE_SIZE" by (simp add: CACHE_SIZE_def)
  show ?thesis using None clock_loop_ok[OF assms] cache_ok_use[OF assms c, of 0] c by (simp add: clock_find_victim_def)
next
  case (Some i)
  then show ?thesis using find_invalid_Some[OF Some] assms by (simp add: clock_find_victim_def)
qed

section \<open>Getting a block\<close>

lemma get_cached_block_ok:
  assumes "cache_ok s" "sec < sector_cnt s" "\<not> bc_locked (bcache s)"
  shows "\<exists>i s'. get_cached_block sec s = Some (i, s') \<and> cache_ok s' \<and> caches s' i sec \<and> view s' = view s
    \<and> sector_cnt s' = sector_cnt s \<and> \<not> bc_locked (bcache s')"
proof -
  obtain r where r: "cache_search sec s = Some r" "case r of Some i \<Rightarrow> caches s i sec | None \<Rightarrow> \<forall>i. \<not> caches s i sec"
    using cache_search_ok[OF assms(1)] by blast
  show ?thesis
  proof (cases r)
    case (Some i)
    then show ?thesis using r assms by (simp add: get_cached_block_def)
  next
    case None
    obtain i t where v: "clock_find_victim s = Some (i, t)" "i < CACHE_SIZE" "cache_ok t" "caches t = caches s" "view t = view s"
      "sectors t = sectors s" "sector_cnt t = sector_cnt s" "bc_locked (bcache t) = bc_locked (bcache s)"
      using victim_ok[OF assms(1)] by blast
    let ?cb = "block_of t i"
    let ?flush = "cb_dirty ?cb = 1 \<and> cb_valid ?cb = 1"
    define d where "d = (if ?flush then (sectors t)(cb_sector ?cb := cb_data ?cb) else sectors t)"
    define s' where "s' = (set_block i (?cb\<lparr>cb_sector := sec, cb_valid := 1, cb_use := 1, cb_dirty := 0, cb_data := d sec\<rparr>) t)\<lparr>sectors := d\<rparr>"
    note b = cache_okD[OF v(3,2)]
    have len: "length (cached_blocks (bcache t)) = CACHE_SIZE" by (rule b(1))
    have none: "\<not> caches t j sec" for j using r(2) None v(4) by simp
    have run: "get_cached_block sec s = Some (i, s')"
      using r(1) None assms(2,3) v(1,2,7) b(4,5) len cache_ok_dev[OF v(3)]
      by (auto simp: get_cached_block_def evict_and_replace_def dev_write_def dev_read_def s'_def d_def set_block_def block_of_def Let_def)
    have blk: "block_of s' j = (if j = i then ?cb\<lparr>cb_sector := sec, cb_valid := 1, cb_use := 1, cb_dirty := 0, cb_data := d sec\<rparr> else block_of t j)" for j
      using v(2) len by (simp add: s'_def block_of_def set_block_def)
    have c: "caches s' j x \<longleftrightarrow> (if j = i then x = sec else caches t j x)" for j x
      using v(2) by (auto simp: caches_def blk)
    have dview: "d x = view t x" if "caches t i x \<or> (\<forall>j. \<not> caches t j x)" for x
    proof (cases "caches t i x")
      case True
      then show ?thesis using view_cached[OF v(3) True] b(3,6) by (auto simp: d_def caches_def)
    next
      case False
      then have "d x = sectors t x" using v(2) by (auto simp: d_def caches_def)
      then show ?thesis using view_uncached[of t x] that False by simp
    qed
    have dother: "d x = sectors t x" if "\<not> caches t i x" for x using that v(2) by (auto simp: d_def caches_def)
    have ok: "cache_ok s'" unfolding cache_ok_def
    proof (intro conjI allI impI)
      show "length (cached_blocks (bcache s')) = CACHE_SIZE" "clock_hand (bcache s') = 0" "dev_type s' \<noteq> BLOCK_FOREIGN"
        using v(3) by (simp_all add: s'_def set_block_def cache_ok_def)
    next
      fix j x k assume "caches s' j x" "caches s' k x"
      then show "j = k" using none caches_unique[OF v(3)] by (auto simp: c split: if_splits)
    next
      fix j assume j: "j < CACHE_SIZE"
      have n: "sector_cnt s' = sector_cnt t" "sectors s' = d" by (simp_all add: s'_def)
      show "let cb = block_of s' j in cb_valid cb \<in> {0, 1} \<and> cb_dirty cb \<in> {0, 1} \<and> \<not> cb_locked cb
          \<and> (cb_valid cb = 1 \<longrightarrow> cb_sector cb < sector_cnt s') \<and> (cb_valid cb = 1 \<and> cb_dirty cb = 0 \<longrightarrow> cb_data cb = sectors s' (cb_sector cb))"
      proof (cases "j = i")
        case True
        then show ?thesis using b(4) assms(2) v(7) by (simp add: blk n Let_def)
      next
        case False
        note bj = cache_okD[OF v(3) j]
        have "d (cb_sector (block_of t j)) = sectors t (cb_sector (block_of t j))" if "cb_valid (block_of t j) = 1"
          using dother caches_unique[OF v(3), of j _ i] False that j by (auto simp: caches_def)
        then show ?thesis using False bj by (simp add: blk n Let_def)
      qed
    qed
    have view: "view s' x = view t x" for x
    proof (cases "x = sec")
      case True
      then show ?thesis using view_cached[OF ok, of i sec] c dview none by (simp add: blk)
    next
      case x: False
      show ?thesis
      proof (cases "\<exists>j. caches s' j x")
        case True
        then obtain j where j: "caches s' j x" "j \<noteq> i" "caches t j x" using c x by (auto split: if_splits)
        then show ?thesis using view_cached[OF ok j(1)] view_cached[OF v(3) j(3)] by (simp add: blk)
      next
        case False
        have "view s' x = d x" using view_uncached[of s' x] False by (simp add: s'_def)
        moreover have "\<forall>j. j \<noteq> i \<longrightarrow> \<not> caches t j x" using False unfolding c by (simp split: if_split_asm) metis
        ultimately show ?thesis using dview[of x] by metis
      qed
    qed
    have "sector_cnt s' = sector_cnt s" "\<not> bc_locked (bcache s')" using v(7,8) assms(3) by (simp_all add: s'_def set_block_def)
    moreover have "caches s' i sec" by (simp add: c)
    moreover have "view s' = view s" using view v(5) by (simp add: fun_eq_iff)
    ultimately show ?thesis using run ok by blast
  qed
qed

section \<open>Writing, reading, flushing\<close>

text \<open>A block whose data changes.\<close>

lemma set_data_view:
  assumes "cache_ok s" "caches s i sec"
  shows "caches (set_block i ((block_of s i)\<lparr>cb_data := b, cb_dirty := d\<rparr>) s) = caches s"
    "view (set_block i ((block_of s i)\<lparr>cb_data := b, cb_dirty := d\<rparr>) s) = (view s)(sec := b)"
    "d = 1 \<Longrightarrow> cache_ok (set_block i ((block_of s i)\<lparr>cb_data := b, cb_dirty := d\<rparr>) s)"
proof -
  let ?t = "set_block i ((block_of s i)\<lparr>cb_data := b, cb_dirty := d\<rparr>) s"
  have i: "i < CACHE_SIZE" using assms(2) by (simp add: caches_def)
  note len = cache_okD(1)[OF assms(1) i]
  have blk: "block_of ?t j = (if j = i then (block_of s i)\<lparr>cb_data := b, cb_dirty := d\<rparr> else block_of s j)" for j using len i by simp
  show c: "caches ?t = caches s" by (intro ext) (simp add: caches_def blk)
  show "view ?t = (view s)(sec := b)"
  proof
    fix x show "view ?t x = ((view s)(sec := b)) x"
    proof (cases "x = sec")
      case True
      have "List.find (\<lambda>j. caches s j sec) [0..<CACHE_SIZE] = Some i"
      proof -
        have "List.find (\<lambda>i. caches s i sec) [0..<CACHE_SIZE] \<noteq> None" using assms(2) by (auto simp: find_None_iff caches_def)
        then obtain j where j: "List.find (\<lambda>i. caches s i sec) [0..<CACHE_SIZE] = Some j" by blast
        then have "caches s j sec" by (auto simp: find_Some_iff)
        then show ?thesis using j caches_unique[OF assms] by simp
      qed
      then show ?thesis using True by (simp add: view_def c blk)
    next
      case False
      have "view ?t x = view s x"
        by (rule view_cong) (use False assms(2) in \<open>auto simp: c blk caches_def\<close>)
      then show ?thesis using False by simp
    qed
  qed
  show "cache_ok ?t" if "d = 1"
    using assms(1) that unfolding cache_ok_def c Let_def blk by simp
qed

lemma cache_write_ok:
  assumes "cache_ok s" "sec < sector_cnt s" "\<not> bc_locked (bcache s)" "ofs + length buff \<le> BLOCK_SECTOR_SIZE"
  shows "\<exists>s'. cache_write sec buff ofs s = Some s' \<and> cache_ok s' \<and> view s' = (view s)(sec := memcpy_at (view s sec) ofs buff)
    \<and> sector_cnt s' = sector_cnt s \<and> \<not> bc_locked (bcache s')"
proof -
  obtain i t where g: "get_cached_block sec s = Some (i, t)" "cache_ok t" "caches t i sec" "view t = view s"
    "sector_cnt t = sector_cnt s" "\<not> bc_locked (bcache t)" using get_cached_block_ok[OF assms(1-3)] by blast
  have i: "i < CACHE_SIZE" "cb_sector (block_of t i) = sec" using g(3) by (simp_all add: caches_def)
  have d: "cb_data (block_of t i) = view s sec" using view_cached[OF g(2,3)] g(4) by simp
  note o = set_data_view[OF g(2,3), where b = "memcpy_at (view s sec) ofs buff" and d = 1]
  have "cache_write sec buff ofs s = Some (set_block i ((block_of t i)\<lparr>cb_data := memcpy_at (view s sec) ofs buff, cb_dirty := 1\<rparr>) t)"
    by (subst cache_write.simps) (simp add: g(1) cache_okD(4)[OF g(2) i(1)] i(2) d assms(4))
  then show ?thesis using o g(4-6) by simp
qed

text \<open>Reading leaves the buffer of the caller as it is and overwrites the cached bytes with it.\<close>

lemma cache_read_ok:
  assumes "cache_ok s" "sec < sector_cnt s" "\<not> bc_locked (bcache s)" "ofs + length buff \<le> BLOCK_SECTOR_SIZE"
  shows "\<exists>s'. cache_read sec buff ofs s = Some (buff, s') \<and> view s' = (view s)(sec := memcpy_at (view s sec) ofs buff)"
proof -
  obtain i t where g: "get_cached_block sec s = Some (i, t)" "cache_ok t" "caches t i sec" "view t = view s"
    using get_cached_block_ok[OF assms(1-3)] by blast
  have i: "i < CACHE_SIZE" "cb_sector (block_of t i) = sec" using g(3) by (simp_all add: caches_def)
  have d: "cb_data (block_of t i) = view s sec" using view_cached[OF g(2,3)] g(4) by simp
  note o = set_data_view(2)[OF g(2,3), where b = "memcpy_at (view s sec) ofs buff" and d = "cb_dirty (block_of t i)"]
  have "cache_read sec buff ofs s = Some (buff, set_block i ((block_of t i)\<lparr>cb_data := memcpy_at (view s sec) ofs buff\<rparr>) t)"
    by (subst cache_read.simps) (simp add: g(1) cache_okD(4)[OF g(2) i(1)] i(2) d assms(4))
  then show ?thesis using o g(4) by simp
qed

text \<open>Flushing a block that is dirty.\<close>

lemma flush_one:
  assumes "cache_ok s" "i < CACHE_SIZE" "cb_valid (block_of s i) = 1"
  shows "cache_ok ((set_block i ((block_of s i)\<lparr>cb_dirty := 0\<rparr>) s)\<lparr>sectors := (sectors s)(cb_sector (block_of s i) := cb_data (block_of s i))\<rparr>)"
    "view ((set_block i ((block_of s i)\<lparr>cb_dirty := 0\<rparr>) s)\<lparr>sectors := (sectors s)(cb_sector (block_of s i) := cb_data (block_of s i))\<rparr>) = view s"
proof -
  let ?t = "(set_block i ((block_of s i)\<lparr>cb_dirty := 0\<rparr>) s)\<lparr>sectors := (sectors s)(cb_sector (block_of s i) := cb_data (block_of s i))\<rparr>"
  note len = cache_okD(1)[OF assms(1,2)]
  have blk: "block_of ?t j = (if j = i then (block_of s i)\<lparr>cb_dirty := 0\<rparr> else block_of s j)" for j
    using len assms(2) by (simp add: block_of_def set_block_def)
  have c: "caches ?t = caches s" by (intro ext) (simp add: caches_def blk)
  have here: "caches s i (cb_sector (block_of s i))" using assms(2,3) by (simp add: caches_def)
  have other: "cb_sector (block_of s j) \<noteq> cb_sector (block_of s i)" if "j \<noteq> i" "j < CACHE_SIZE" "cb_valid (block_of s j) = 1" for j
    using caches_unique[OF assms(1) here, of j] that by (auto simp: caches_def)
  have h: "clock_hand (bcache ?t) = 0" "length (cached_blocks (bcache ?t)) = CACHE_SIZE"
    using assms(1) len by (simp_all add: cache_ok_def)
  show "cache_ok ?t" unfolding cache_ok_def c Let_def
    using h caches_unique[OF assms(1)] cache_okD[OF assms(1)] other cache_ok_dev[OF assms(1)] by (auto simp: blk)
  show "view ?t = view s"
  proof
    fix x show "view ?t x = view s x"
    proof (cases "\<exists>j. caches s j x")
      case True
      then obtain j where j: "caches s j x" by blast
      then have "List.find (\<lambda>j. caches s j x) [0..<CACHE_SIZE] \<noteq> None" by (auto simp: find_None_iff caches_def)
      then show ?thesis by (auto simp: view_def c blk)
    next
      case False
      then have "x \<noteq> cb_sector (block_of s i)" using here by blast
      then show ?thesis using False view_uncached[of ?t x] view_uncached[of s x] by (simp add: c)
    qed
  qed
qed

lemma flush_from_ok:
  assumes "cache_ok s" "set is \<subseteq> {..<CACHE_SIZE}"
  shows "\<exists>s'. flush_from is s = Some s' \<and> cache_ok s' \<and> view s' = view s \<and> bc_locked (bcache s') = bc_locked (bcache s)
    \<and> caches s' = caches s \<and> (\<forall>i. cb_dirty (block_of s' i) = 0 \<or> cb_dirty (block_of s' i) = cb_dirty (block_of s i))
    \<and> (\<forall>i \<in> set is. cb_valid (block_of s i) = 1 \<longrightarrow> cb_dirty (block_of s' i) = 0)"
  using assms
proof (induction "is" arbitrary: s)
  case (Cons i "is")
  have i: "i < CACHE_SIZE" using Cons.prems(2) by simp
  note b = cache_okD[OF Cons.prems(1) i]
  show ?case
  proof (cases "cb_dirty (block_of s i) = 1 \<and> cb_valid (block_of s i) = 1")
    case True
    let ?t = "(set_block i ((block_of s i)\<lparr>cb_dirty := 0\<rparr>) s)\<lparr>sectors := (sectors s)(cb_sector (block_of s i) := cb_data (block_of s i))\<rparr>"
    note f = flush_one[OF Cons.prems(1) i conjunct2[OF True]]
    have blk: "block_of ?t j = (if j = i then (block_of s i)\<lparr>cb_dirty := 0\<rparr> else block_of s j)" for j
      using b(1) i by (simp add: block_of_def set_block_def)
    have c: "caches ?t = caches s" by (intro ext) (simp add: caches_def blk)
    have l: "bc_locked (bcache ?t) = bc_locked (bcache s)" by simp
    obtain s' where s': "flush_from is ?t = Some s'" "cache_ok s'" "view s' = view s" "bc_locked (bcache s') = bc_locked (bcache s)"
      "caches s' = caches s" "\<forall>j. cb_dirty (block_of s' j) = 0 \<or> cb_dirty (block_of s' j) = cb_dirty (block_of ?t j)"
      "\<forall>j \<in> set is. cb_valid (block_of ?t j) = 1 \<longrightarrow> cb_dirty (block_of s' j) = 0"
      using Cons.IH[OF f(1)] Cons.prems(2) f(2) c l by auto
    have "flush_from (i # is) s = flush_from is ?t"
      using True b(5) cache_ok_dev[OF Cons.prems(1)] by (simp add: dev_write_def Let_def set_block_sectors)
    then show ?thesis using s' by (auto simp: blk split: if_splits)
  next
    case False
    then have "flush_from (i # is) s = flush_from is s" by (auto simp: Let_def)
    moreover have "cb_valid (block_of s i) = 1 \<Longrightarrow> cb_dirty (block_of s i) = 0" using False b(3) by blast
    ultimately show ?thesis using Cons.IH[OF Cons.prems(1)] Cons.prems(2) by (auto 0 4)
  qed
qed simp

text \<open>After a flush the device has every byte of the file system, and the lock of the cache is held.\<close>

lemma flush_cache_ok:
  assumes "cache_ok s" "\<not> bc_locked (bcache s)"
  shows "\<exists>s'. flush_cache s = Some s' \<and> cache_ok s' \<and> view s' = view s \<and> sectors s' = view s \<and> bc_locked (bcache s')"
proof -
  let ?s = "s\<lparr>bcache := (bcache s)\<lparr>bc_locked := True\<rparr>\<rparr>"
  have blk: "block_of ?s = block_of s" by (simp add: block_of_def fun_eq_iff)
  have c: "caches ?s = caches s" by (intro ext) (simp add: caches_def blk)
  have ok: "cache_ok ?s" using assms(1) by (simp add: cache_ok_def c blk)
  have v: "view ?s = view s" by (intro ext view_cong) (simp_all add: c blk)
  obtain s' where s': "flush_from [0..<CACHE_SIZE] ?s = Some s'" "cache_ok s'" "view s' = view s" "bc_locked (bcache s')"
    "caches s' = caches s" "\<forall>i < CACHE_SIZE. cb_valid (block_of s i) = 1 \<longrightarrow> cb_dirty (block_of s' i) = 0"
    using flush_from_ok[OF ok, of "[0..<CACHE_SIZE]"] v c blk by (auto simp: atLeast0LessThan)
  have "sectors s' x = view s x" for x
  proof (cases "\<exists>i. caches s' i x")
    case True
    then obtain i where i: "caches s' i x" by blast
    then have "i < CACHE_SIZE" "cb_valid (block_of s' i) = 1" "cb_sector (block_of s' i) = x" "cb_valid (block_of s i) = 1"
      using s'(5) by (auto simp: caches_def fun_eq_iff)
    then show ?thesis using cache_okD(6)[OF s'(2), of i] s'(3,6) view_cached[OF s'(2) i] by simp
  next
    case False
    then show ?thesis using view_uncached[of s' x] s'(3) by simp
  qed
  then have "sectors s' = view s" by (simp add: fun_eq_iff)
  then show ?thesis using s' assms(2) by (simp add: flush_cache_def)
qed

lemma buffer_cache_init_ok: "dev_type s \<noteq> BLOCK_FOREIGN \<Longrightarrow> cache_ok (buffer_cache_init s)" "view (buffer_cache_init s) = sectors s"
proof -
  have b: "block_of (buffer_cache_init s) i = \<lparr>cb_sector = 0, cb_use = 0, cb_dirty = 0, cb_valid = 0, cb_locked = False,
      cb_data = replicate BLOCK_SECTOR_SIZE 0\<rparr>" if "i < CACHE_SIZE" for i
    using that by (simp add: buffer_cache_init_def block_of_def)
  then have c: "\<not> caches (buffer_cache_init s) i x" for i x by (auto simp: caches_def)
  have "clock_hand (bcache (buffer_cache_init s)) = 0" "length (cached_blocks (bcache (buffer_cache_init s))) = CACHE_SIZE"
    by (simp_all add: buffer_cache_init_def)
  then show "dev_type s \<noteq> BLOCK_FOREIGN \<Longrightarrow> cache_ok (buffer_cache_init s)"
    using b c by (simp add: cache_ok_def) (simp add: buffer_cache_init_def)
  show "view (buffer_cache_init s) = sectors s" using view_uncached[of "buffer_cache_init s"] c
    by (intro ext) (simp add: buffer_cache_init_def)
qed

end
