(* ===== verification/DirOps.thy ===== *)
theory DirOps
  imports DirSpec
begin

text \<open>
  The operations of directory.c on a directory whose inode and disk are well-formed, against the map
  of theory DirSpec.
\<close>

definition dir_at :: "fs \<Rightarrow> addr \<Rightarrow> inode \<Rightarrow> bool" where
  "dir_at s d ino \<longleftrightarrow> (\<exists>dr. dirs s d = Some dr \<and> inodes s (dir_inode dr) = Some ino)
     \<and> inode_ok s ino \<and> disk_ok s \<and> 0 < mem_left s"

abbreviation entries_at :: "fs \<Rightarrow> inode \<Rightarrow> dir_entry list" where
  "entries_at s ino \<equiv> dir_entries (contents (disk s) ino)"

lemma read_entry:
  assumes "inodes s p = Some ino" "inode_ok s ino" "disk_ok s" "0 < mem_left s"
    "j \<le> length (entries_at s ino)"
  shows "\<exists>bs. inode_read_at p (int DIR_ENTRY_SIZE) (int (DIR_ENTRY_SIZE * j)) s = Some bs
    \<and> length bs \<le> DIR_ENTRY_SIZE
    \<and> (if j < length (entries_at s ino) then length bs = DIR_ENTRY_SIZE \<and> dir_entry_of bs = entries_at s ino ! j
       else length bs \<noteq> DIR_ENTRY_SIZE)"
proof -
  let ?c = "contents (disk s) ino"
  have r: "inode_read_at p (int DIR_ENTRY_SIZE) (int (DIR_ENTRY_SIZE * j)) s
      = Some (take DIR_ENTRY_SIZE (drop (DIR_ENTRY_SIZE * j) ?c))"
    using inode_read_at_data[OF assms(1-4)] by blast
  show ?thesis
  proof (cases "j < length (entries_at s ino)")
    case True
    then show ?thesis using r entry_bytes_in[of j ?c] by simp
  next
    case False
    then have "j = length ?c div DIR_ENTRY_SIZE" using assms(5) by simp
    then have "length ?c - DIR_ENTRY_SIZE * j = length ?c mod DIR_ENTRY_SIZE"
      by (simp add: minus_mult_div_eq_mod)
    then have "length ?c - DIR_ENTRY_SIZE * j < DIR_ENTRY_SIZE" by (simp add: DIR_ENTRY_SIZE_def)
    then show ?thesis using r False by (simp del: length_contents)
  qed
qed

lemma lookup_loop_entries:
  assumes "inodes s p = Some ino" "inode_ok s ino" "disk_ok s" "0 < mem_left s"
    "j \<le> length (entries_at s ino)" "length (entries_at s ino) < j + fuel"
  shows "lookup_loop fuel p name (DIR_ENTRY_SIZE * j) s =
    (case filter (\<lambda>i. named (entries_at s ino ! i) name) [j..<length (entries_at s ino)] of
       [] \<Rightarrow> Some None | i # _ \<Rightarrow> Some (Some (entries_at s ino ! i, DIR_ENTRY_SIZE * i)))"
  using assms(5,6)
proof (induction fuel arbitrary: j)
  case 0
  then show ?case by simp
next
  case (Suc fuel)
  from read_entry[OF assms(1-4) Suc.prems(1)] obtain bs where
    bs: "inode_read_at p (int DIR_ENTRY_SIZE) (int (DIR_ENTRY_SIZE * j)) s = Some bs"
      "if j < length (entries_at s ino) then length bs = DIR_ENTRY_SIZE \<and> dir_entry_of bs = entries_at s ino ! j
       else length bs \<noteq> DIR_ENTRY_SIZE" by blast
  show ?case
  proof (cases "j < length (entries_at s ino)")
    case False
    then show ?thesis using bs by simp
  next
    case True
    have "lookup_loop fuel p name (DIR_ENTRY_SIZE * j + DIR_ENTRY_SIZE) s =
      (case filter (\<lambda>i. named (entries_at s ino ! i) name) [Suc j..<length (entries_at s ino)] of
         [] \<Rightarrow> Some None | i # _ \<Rightarrow> Some (Some (entries_at s ino ! i, DIR_ENTRY_SIZE * i)))"
      using Suc.IH[of "Suc j"] Suc.prems True by (simp add: add.commute)
    moreover have "[j..<length (entries_at s ino)] = j # [Suc j..<length (entries_at s ino)]"
      using True by (simp add: upt_conv_Cons)
    ultimately show ?thesis
      using bs True by (simp add: Let_def named_def del: upt_Suc length_dir_entries nth_dir_entries)
  qed
qed

lemma filter_upt_Cons:
  "filter P [a..<b] = j # js \<Longrightarrow> a \<le> j \<and> j < b \<and> P j \<and> (\<forall>k. a \<le> k \<longrightarrow> k < j \<longrightarrow> \<not> P k)"
proof -
  assume "filter P [a..<b] = j # js"
  then obtain us vs where u: "[a..<b] = us @ j # vs" "\<forall>u \<in> set us. \<not> P u" "P j"
    by (auto simp: filter_eq_Cons_iff)
  have l: "length us < b - a" using arg_cong[OF u(1), of length] by simp
  then have "j = a + length us" using arg_cong[OF u(1), of "\<lambda>xs. xs ! length us"] by simp
  moreover have "us = [a..<a + length us]" using arg_cong[OF u(1), of "take (length us)"] l by (simp add: take_upt)
  ultimately show ?thesis using u(2,3) l by (metis add.commute atLeastLessThan_iff le_add1 less_diff_conv set_upt)
qed

lemma filter_upt0_Cons:
  "filter P [0..<b] = j # js \<Longrightarrow> j < b \<and> P j \<and> (\<forall>k < j. \<not> P k)"
  by (drule filter_upt_Cons) auto

lemma lookup_entry_cases:
  assumes "dir_at s d ino"
  shows "(\<exists>j < length (entries_at s ino). lookup_entry d name s = Some (Some (entries_at s ino ! j, DIR_ENTRY_SIZE * j))
       \<and> named (entries_at s ino ! j) name \<and> dir_map (entries_at s ino) name = Some (inode_sector (entries_at s ino ! j)))
    \<or> lookup_entry d name s = Some None \<and> dir_map (entries_at s ino) name = None"
proof -
  obtain dr where dr: "dirs s d = Some dr" "inodes s (dir_inode dr) = Some ino"
    and ok: "inode_ok s ino" "disk_ok s" "0 < mem_left s" using assms by (auto simp: dir_at_def)
  let ?es = "entries_at s ino"
  let ?is = "filter (\<lambda>i. named (?es ! i) name) [0..<length ?es]"
  have fuel: "length ?es < 0 + entries_fuel (dir_inode dr) s"
    using dr(2) by (simp add: entries_fuel_def less_Suc_eq_le)
  have l: "lookup_entry d name s = (case ?is of
       [] \<Rightarrow> Some None | i # _ \<Rightarrow> Some (Some (?es ! i, DIR_ENTRY_SIZE * i)))"
    using lookup_loop_entries[OF dr(2) ok _ fuel] dr(1)
    by (simp add: lookup_entry_def del: length_dir_entries nth_dir_entries)
  show ?thesis
  proof (cases ?is)
    case Nil
    then have "dir_map ?es name = None" by (simp add: dir_map_None filter_empty_conv)
    then show ?thesis using l Nil by simp
  next
    case (Cons j js)
    note f = filter_upt0_Cons[OF Cons]
    note j = f[THEN conjunct1] f[THEN conjunct2, THEN conjunct1]
    have "find (\<lambda>e. named e name) ?es = Some (?es ! j)"
      by (rule find_index(2)) (rule j(1), rule j(2), rule f[THEN conjunct2, THEN conjunct2])
    then have "dir_map ?es name = Some (inode_sector (?es ! j))" by (simp add: dir_map_def)
    moreover have "lookup_entry d name s = Some (Some (?es ! j, DIR_ENTRY_SIZE * j))" using l Cons by simp
    ultimately show ?thesis using j(1,2) by - (intro disjI1 exI[of _ j] conjI; assumption)
  qed
qed

lemma free_slot_loop_entries:
  assumes "inodes s p = Some ino" "inode_ok s ino" "disk_ok s" "0 < mem_left s"
    "j \<le> length (entries_at s ino)" "length (entries_at s ino) < j + fuel" "length buf = DIR_ENTRY_SIZE"
  shows "\<exists>buf' i. free_slot_loop fuel p buf (DIR_ENTRY_SIZE * j) s = Some (buf', DIR_ENTRY_SIZE * i)
    \<and> length buf' = DIR_ENTRY_SIZE \<and> j \<le> i \<and> i \<le> length (entries_at s ino)
    \<and> (\<forall>k. j \<le> k \<longrightarrow> k < i \<longrightarrow> in_use (entries_at s ino ! k))
    \<and> (i < length (entries_at s ino) \<longrightarrow> \<not> in_use (entries_at s ino ! i))"
  using assms(5-7)
proof (induction fuel arbitrary: j buf)
  case 0
  then show ?case by simp
next
  case (Suc fuel)
  from read_entry[OF assms(1-4) Suc.prems(1)] obtain bs where
    bs: "inode_read_at p (int DIR_ENTRY_SIZE) (int (DIR_ENTRY_SIZE * j)) s = Some bs" "length bs \<le> DIR_ENTRY_SIZE"
      "if j < length (entries_at s ino) then length bs = DIR_ENTRY_SIZE \<and> dir_entry_of bs = entries_at s ino ! j
       else length bs \<noteq> DIR_ENTRY_SIZE" by blast
  let ?buf = "memcpy_at buf 0 bs"
  have len: "length ?buf = DIR_ENTRY_SIZE" using bs(2) Suc.prems(3) by (simp add: memcpy_at_def)
  show ?case
  proof (cases "j < length (entries_at s ino)")
    case False
    then show ?thesis using bs len Suc.prems(1) by (auto intro!: exI[of _ ?buf] exI[of _ j] simp: Let_def)
  next
    case True
    then have b: "?buf = bs" "length bs = DIR_ENTRY_SIZE" "dir_entry_of bs = entries_at s ino ! j"
      using bs(3) Suc.prems(3) by (simp_all add: memcpy_at_def)
    show ?thesis
    proof (cases "in_use (entries_at s ino ! j)")
      case False
      then show ?thesis using bs(1) b True
        by (auto intro!: exI[of _ bs] exI[of _ j] simp: Let_def simp del: length_dir_entries nth_dir_entries)
    next
      case used: True
      obtain buf' i where "free_slot_loop fuel p bs (DIR_ENTRY_SIZE * Suc j) s = Some (buf', DIR_ENTRY_SIZE * i)"
        "length buf' = DIR_ENTRY_SIZE" "Suc j \<le> i" "i \<le> length (entries_at s ino)"
        "\<forall>k. Suc j \<le> k \<longrightarrow> k < i \<longrightarrow> in_use (entries_at s ino ! k)"
        "i < length (entries_at s ino) \<longrightarrow> \<not> in_use (entries_at s ino ! i)"
        using Suc.IH[of "Suc j" bs] Suc.prems(2) True b(2) by (auto simp del: length_dir_entries nth_dir_entries)
      moreover have "in_use (entries_at s ino ! k)" if "j \<le> k" "k < i"
        "\<forall>k. Suc j \<le> k \<longrightarrow> k < i \<longrightarrow> in_use (entries_at s ino ! k)" for k i
        using that used by (metis Suc_leI le_neq_implies_less)
      ultimately show ?thesis using bs(1) b used
        by (intro exI[of _ buf'] exI[of _ i])
          (simp add: Let_def add.commute del: length_dir_entries nth_dir_entries)
    qed
  qed
qed

section \<open>Adding a name\<close>

lemma cstr_strlcpy:
  assumes "file_name name" "length dst = 15"
  shows "cstr (strlcpy_into dst name) = name" "length (strlcpy_into dst name) = 15"
proof -
  have "length name \<le> 14" "0 \<notin> set name" using assms(1) by (auto simp: file_name_def NAME_MAX_def)
  then show "cstr (strlcpy_into dst name) = name" "length (strlcpy_into dst name) = 15"
    using assms(2) by (auto simp: strlcpy_into_def cstr_def memcpy_at_def takeWhile_append)
qed

lemma dir_at_write:
  assumes "dir_at s d ino" "wrote ino ofs bs (disk s) d'"
  shows "dir_at (s\<lparr>disk := d'\<rparr>) d ino"
  using assms by (auto simp: dir_at_def wrote_def inode_ok_def disk_ok_def)

lemma wrote_entry:
  assumes "wrote ino (DIR_ENTRY_SIZE * i) (dir_entry_bytes e) (disk s) d'"
    "i < length (entries_at s ino)" "inode_sector e < 2 ^ 32" "length (e_name e) = 15"
  shows "dir_entries (contents d' ino) = (entries_at s ino)[i := e]"
proof -
  have len: "length (dir_entry_bytes e) = DIR_ENTRY_SIZE" using dir_entry_roundtrip assms(3,4) by blast
  have i: "i < length (contents (disk s) ino) div DIR_ENTRY_SIZE" using assms(2) by simp
  have "contents d' ino = memcpy_at (contents (disk s) ino) (DIR_ENTRY_SIZE * i) (dir_entry_bytes e)"
    using wrote_contents[OF assms(1)] entry_bytes_in(1)[OF i] len by simp
  then show ?thesis
    using dir_entries_update[OF i len] dir_entry_roundtrip(1)[OF assms(3,4)] by simp
qed

lemma dir_add_spec:
  assumes "dir_at s d ino" "file_name name" "deny_write_cnt ino = 0" "uniq_names (entries_at s ino)"
    "length junk = DIR_ENTRY_SIZE" "sec < 2 ^ 32"
  shows "if dir_map (entries_at s ino) name = None \<and> (\<exists>e \<in> set (entries_at s ino). \<not> in_use e)
    then \<exists>s'. dir_add d name sec junk s = Some (True, s') \<and> dir_at s' d ino \<and> uniq_names (entries_at s' ino)
      \<and> dir_map (entries_at s' ino) = (dir_map (entries_at s ino))(name \<mapsto> sec)
      \<and> s' = s\<lparr>disk := disk s'\<rparr> \<and> (\<forall>x. x \<notin> sectors_of ino \<longrightarrow> disk s' x = disk s x)
    else \<exists>s'. dir_add d name sec junk s = Some (False, s')
      \<and> dir_map (entries_at s' ino) = dir_map (entries_at s ino)"
proof -
  obtain dr where dr: "dirs s d = Some dr" "inodes s (dir_inode dr) = Some ino"
    and ok: "inode_ok s ino" "disk_ok s" "0 < mem_left s" using assms(1) by (auto simp: dir_at_def)
  let ?es = "entries_at s ino"
  have nm: "name \<noteq> []" "\<not> length name > NAME_MAX" using assms(2) by (auto simp: file_name_def)
  have fuel: "length ?es < 0 + entries_fuel (dir_inode dr) s"
    using dr(2) by (simp add: entries_fuel_def less_Suc_eq_le)
  show ?thesis
  proof (cases "dir_map ?es name")
    case (Some x)
    then obtain r where "lookup_entry d name s = Some (Some r)"
      using lookup_entry_cases[OF assms(1), of name] by auto
    then have "dir_add d name sec junk s = Some (False, s)" using dr nm by (simp add: dir_add_def)
    then show ?thesis using Some by simp
  next
    case None
    then have l: "lookup_entry d name s = Some None"
      using lookup_entry_cases[OF assms(1), of name] by auto
    obtain buf i where sl: "free_slot_loop (entries_fuel (dir_inode dr) s) (dir_inode dr) junk 0 s = Some (buf, DIR_ENTRY_SIZE * i)"
      "length buf = DIR_ENTRY_SIZE" "i \<le> length ?es" "\<forall>k < i. in_use (?es ! k)"
      "i < length ?es \<longrightarrow> \<not> in_use (?es ! i)"
      using free_slot_loop_entries[OF dr(2) ok _ fuel assms(5)] by (auto simp del: length_dir_entries nth_dir_entries)
    define e where "e = (dir_entry_of buf)\<lparr>in_use := True, e_name := strlcpy_into (e_name (dir_entry_of buf)) name,
             inode_sector := sec\<rparr>"
    have nlen: "length (e_name (dir_entry_of buf)) = 15" using sl(2) by (simp add: dir_entry_of_def DIR_ENTRY_SIZE_def)
    have e: "named e name" "inode_sector e = sec" "inode_sector e < 2 ^ 32" "length (e_name e) = 15"
      using cstr_strlcpy[OF assms(2) nlen] assms(6) by (simp_all add: e_def named_def)
    have blen: "length (dir_entry_bytes e) = DIR_ENTRY_SIZE" using dir_entry_roundtrip e(3,4) by blast
    obtain d' where w: "inode_write_at (dir_inode dr) (dir_entry_bytes e) (int DIR_ENTRY_SIZE) (int (DIR_ENTRY_SIZE * i)) s
        = Some (int (min DIR_ENTRY_SIZE (nat (inode_length ino) - DIR_ENTRY_SIZE * i)), s\<lparr>disk := d'\<rparr>)"
      "wrote ino (DIR_ENTRY_SIZE * i) (take (min DIR_ENTRY_SIZE (nat (inode_length ino) - DIR_ENTRY_SIZE * i)) (dir_entry_bytes e)) (disk s) d'"
      using inode_write_at_data[OF dr(2) ok assms(3), of DIR_ENTRY_SIZE "dir_entry_bytes e"] blen
      by (metis order_refl)
    have a: "dir_add d name sec junk s = Some (int (min DIR_ENTRY_SIZE (nat (inode_length ino) - DIR_ENTRY_SIZE * i)) = int DIR_ENTRY_SIZE, s\<lparr>disk := d'\<rparr>)"
      using dr nm l sl(1) w(1) by (simp add: dir_add_def Let_def e_def[symmetric])
    show ?thesis
    proof (cases "i < length ?es")
      case True
      then have i: "DIR_ENTRY_SIZE * i + DIR_ENTRY_SIZE \<le> nat (inode_length ino)"
        using entry_bytes_in(1)[of i "contents (disk s) ino"] by simp
      then have m: "min DIR_ENTRY_SIZE (nat (inode_length ino) - DIR_ENTRY_SIZE * i) = DIR_ENTRY_SIZE" by simp
      then have w': "wrote ino (DIR_ENTRY_SIZE * i) (dir_entry_bytes e) (disk s) d'" using w(2) blen by simp
      have es: "dir_entries (contents d' ino) = ?es[i := e]" using wrote_entry[OF w' True e(3,4)] .
      have "uniq_names (?es[i := e]) \<and> dir_map (?es[i := e]) = (dir_map ?es)(name \<mapsto> sec)"
        using dir_map_add[OF assms(4) True _ None e(1,2)] sl(5) True by blast
      moreover have "\<exists>e \<in> set ?es. \<not> in_use e" using True sl(5) nth_mem by blast
      moreover have "dir_at (s\<lparr>disk := d'\<rparr>) d ino" using dir_at_write[OF assms(1) w'] .
      ultimately show ?thesis using a m None es w' by (auto simp: wrote_def simp del: length_dir_entries nth_dir_entries)
    next
      case False
      then have i: "i = length ?es" using sl(3) by simp
      have "nat (inode_length ino) - DIR_ENTRY_SIZE * i = nat (inode_length ino) mod DIR_ENTRY_SIZE"
        using i by (simp add: minus_mult_div_eq_mod)
      then have m: "nat (inode_length ino) - DIR_ENTRY_SIZE * i < DIR_ENTRY_SIZE" by (simp add: DIR_ENTRY_SIZE_def)
      have "contents d' ino ! k = contents (disk s) ino ! k" if "k < DIR_ENTRY_SIZE * i" "k < nat (inode_length ino)" for k
        using w(2) that by (auto simp: contents_def wrote_def)
      moreover have k_in: "DIR_ENTRY_SIZE * x + y < DIR_ENTRY_SIZE * i"
        if "x < i" "y < DIR_ENTRY_SIZE" for x y
        using that by (metis add_less_cancel_left less_le_trans mult_Suc_right mult_le_mono2 Suc_leI add.commute)
      ultimately have "dir_entries (contents d' ino) = ?es"
        using i k_in by (intro nth_equalityI)
          (auto intro!: arg_cong[where f = dir_entry_of] nth_equalityI simp: add.commute)
      moreover have "\<not> (\<exists>e \<in> set ?es. \<not> in_use e)" using sl(4) i by (auto simp: in_set_conv_nth simp del: length_dir_entries nth_dir_entries)
      ultimately show ?thesis using a m None by auto
    qed
  qed
qed

end
