(* ===== verification/FsInv.thy ===== *)
theory FsInv
  imports DirOps
begin

text \<open>
  The invariant of the table of open inodes: an inode that is open is in memory once, is on the list
  of open inodes once, has at least one opener, and no two inodes in memory stand for the same sector.
  Every operation on files, directories and file names keeps it.
\<close>

definition fs_inv :: "fs \<Rightarrow> bool" where
  "fs_inv s \<longleftrightarrow> 0 < next_addr s \<and> distinct (open_inodes s)
     \<and> (\<forall>p. p \<in> set (open_inodes s) \<longleftrightarrow> inodes s p \<noteq> None)
     \<and> (\<forall>p ino. inodes s p = Some ino \<longrightarrow> 0 < p \<and> p < next_addr s \<and> 0 < open_cnt ino)
     \<and> (\<forall>p q i j. inodes s p = Some i \<longrightarrow> inodes s q = Some j \<longrightarrow> sector i = sector j \<longrightarrow> p = q)"

section \<open>What leaves the table alone\<close>

definition same_table :: "fs \<Rightarrow> fs \<Rightarrow> bool" where
  "same_table s s' \<longleftrightarrow> inodes s' = inodes s \<and> open_inodes s' = open_inodes s \<and> next_addr s \<le> next_addr s'"

lemma same_table_refl [simp]: "same_table s s"
  by (simp add: same_table_def)

lemma same_table_trans: "same_table s t \<Longrightarrow> same_table t u \<Longrightarrow> same_table s u"
  by (simp add: same_table_def)

lemma same_table_inv: "same_table s s' \<Longrightarrow> fs_inv s \<Longrightarrow> fs_inv s'"
  unfolding fs_inv_def same_table_def by (metis less_le_trans)

lemma block_write_disk: "block_write sec b s = Some s' \<Longrightarrow> s' = s\<lparr>disk := (disk s)(sec := b)\<rparr>"
  by (auto simp: block_write_def bind_eq_Some_conv)

lemma inode_write_loop_disk:
  "inode_write_loop ino buffer sz offset bounce n s = Some (m, s') \<Longrightarrow>
     \<exists>d. s' = s\<lparr>disk := d\<rparr> \<and> (\<forall>sec. (\<forall>pos. 0 \<le> pos \<longrightarrow> pos < d_length (data ino) \<longrightarrow> sec \<noteq> byte_to_sector ino pos) \<longrightarrow> d sec = disk s sec)"
proof (induction ino buffer sz offset bounce n s arbitrary: m s' rule: inode_write_loop.induct)
  case (1 ino buffer sz offset bounce n s)
  let ?c = "chunk_size ino sz offset" and ?sec = "byte_to_sector ino offset" and ?o = "nat offset mod BLOCK_SECTOR_SIZE"
  let ?src = "take (nat ?c) (drop (nat n) buffer)"
  show ?case
  proof (cases "sz > 0 \<and> 0 < ?c \<and> \<not> (offset < 0 \<or> length ?src < nat ?c)")
    case False
    then have "s' = s\<lparr>disk := disk s\<rparr>" using "1.prems"
      by (subst (asm) inode_write_loop.simps) (auto simp: Let_def split: if_splits)
    then show ?thesis by blast
  next
    case True
    have pos: "0 \<le> offset" "offset < d_length (data ino)"
      using True by (auto simp: chunk_size_def Let_def inode_length_def split: if_splits)
    have step: ?thesis
      if w: "block_write ?sec b s = Some s1"
        and ih: "\<exists>d. s' = s1\<lparr>disk := d\<rparr> \<and> (\<forall>sec. (\<forall>pos. 0 \<le> pos \<longrightarrow> pos < d_length (data ino) \<longrightarrow> sec \<noteq> byte_to_sector ino pos) \<longrightarrow> d sec = disk s1 sec)"
      for b s1
    proof -
      obtain d where d: "s' = s1\<lparr>disk := d\<rparr>"
        "\<forall>sec. (\<forall>pos. 0 \<le> pos \<longrightarrow> pos < d_length (data ino) \<longrightarrow> sec \<noteq> byte_to_sector ino pos) \<longrightarrow> d sec = disk s1 sec" using ih by blast
      have s1: "s1 = s\<lparr>disk := (disk s)(?sec := b)\<rparr>" using block_write_disk[OF w] .
      show ?thesis using d pos unfolding s1 by (intro exI[of _ d]) auto
    qed
    consider (full) "?o = 0 \<and> ?c = int BLOCK_SECTOR_SIZE" | (stop) "\<not> (?o = 0 \<and> ?c = int BLOCK_SECTOR_SIZE)" "\<not> bounce \<and> mem_left s = 0"
      | (part) "\<not> (?o = 0 \<and> ?c = int BLOCK_SECTOR_SIZE)" "\<not> (\<not> bounce \<and> mem_left s = 0)" by blast
    then show ?thesis
    proof cases
      case full
      then obtain s1 where s1: "block_write ?sec ?src s = Some s1"
        "inode_write_loop ino buffer (sz - ?c) (offset + ?c) bounce (n + ?c) s1 = Some (m, s')"
        using "1.prems" True by (subst (asm) inode_write_loop.simps) (auto simp: Let_def bind_eq_Some_conv)
      show ?thesis
        by (rule step[OF s1(1)], rule "1.IH"(1)[OF _ refl refl refl refl _ _ full _ s1(2)]) (use True s1(1) in auto)
    next
      case stop
      then have "s' = s\<lparr>disk := disk s\<rparr>" using "1.prems" True
        by (subst (asm) inode_write_loop.simps) (auto simp: Let_def split: if_splits)
      then show ?thesis by blast
    next
      case part
      then obtain b s1 where s1: "(if ?o > 0 \<or> ?c < int BLOCK_SECTOR_SIZE - int ?o then block_read ?sec s
            else Some (replicate BLOCK_SECTOR_SIZE 0)) = Some b"
        "block_write ?sec (memcpy_at b ?o ?src) s = Some s1"
        "inode_write_loop ino buffer (sz - ?c) (offset + ?c) True (n + ?c) s1 = Some (m, s')"
        using "1.prems" True by (subst (asm) inode_write_loop.simps) (auto simp: Let_def bind_eq_Some_conv simp del: not_less)
      show ?thesis
        by (rule step[OF s1(2)], rule "1.IH"(2)[OF _ refl refl refl refl _ _ part(1,2) _ _ s1(3)]) (use True s1(1,2) in auto)
    qed
  qed
qed

lemma inode_write_at_disk: "inode_write_at p buffer sz offset s = Some (m, s') \<Longrightarrow> \<exists>d. s' = s\<lparr>disk := d\<rparr>"
proof -
  assume a: "inode_write_at p buffer sz offset s = Some (m, s')"
  then obtain ino where "inodes s p = Some ino" by (auto simp: inode_write_at_def bind_eq_Some_conv)
  with a have "(m = 0 \<and> s' = s\<lparr>disk := disk s\<rparr>) \<or> inode_write_loop ino buffer sz offset False 0 s = Some (m, s')"
    by (auto simp: inode_write_at_def split: if_splits)
  then show ?thesis using inode_write_loop_disk by blast
qed

lemma bitmap_write_disk: "bitmap_write b f s = Some (ok, s') \<Longrightarrow> \<exists>d. s' = s\<lparr>disk := d\<rparr>"
  by (auto simp: bitmap_write_def file_write_at_def Let_def bind_eq_Some_conv dest!: inode_write_at_disk)

lemma only_disk_map:
  "(\<exists>d b. s' = s\<lparr>disk := d, free_map := b\<rparr>) \<longleftrightarrow> s'\<lparr>disk := disk s, free_map := free_map s\<rparr> = (s :: fs)"
proof
  assume "s'\<lparr>disk := disk s, free_map := free_map s\<rparr> = s"
  then have "s' = s\<lparr>disk := disk s', free_map := free_map s'\<rparr>" by (metis fs.surjective fs.update_convs(1,3))
  then show "\<exists>d b. s' = s\<lparr>disk := d, free_map := b\<rparr>" by blast
qed auto

lemma free_map_allocate_disk:
  "free_map_allocate cnt s = Some (r, s') \<Longrightarrow> \<exists>d b. s' = s\<lparr>disk := d, free_map := b\<rparr>"
proof -
  assume "free_map_allocate cnt s = Some (r, s')"
  then obtain b sec where b: "bitmap_scan_and_flip (free_map s) 0 cnt False = Some (b, sec)"
    and r: "(if sec \<noteq> BITMAP_ERROR \<and> free_map_file s \<noteq> NULL then do {
       (ok, s) \<leftarrow> bitmap_write b (free_map_file (s\<lparr>free_map := b\<rparr>)) (s\<lparr>free_map := b\<rparr>);
       if ok then Some (Some sec, s)
       else do { b \<leftarrow> bitmap_set_multiple b sec cnt False; Some (None, s\<lparr>free_map := b\<rparr>) } }
     else Some (if sec \<noteq> BITMAP_ERROR then Some sec else None, s\<lparr>free_map := b\<rparr>)) = Some (r, s')"
    by (auto simp: free_map_allocate_def Let_def bind_eq_Some_conv)
  show ?thesis unfolding only_disk_map using r
    by (auto simp: bind_eq_Some_conv split: if_splits dest!: bitmap_write_disk)
qed

lemma free_map_release_disk:
  "free_map_release sec cnt s = Some s' \<Longrightarrow> \<exists>d b. s' = s\<lparr>disk := d, free_map := b\<rparr>"
proof -
  assume "free_map_release sec cnt s = Some s'"
  then obtain b ok where "bitmap_write b (free_map_file s) (s\<lparr>free_map := b\<rparr>) = Some (ok, s')"
    by (auto simp: free_map_release_def Let_def bind_eq_Some_conv)
  then obtain d where "s' = s\<lparr>free_map := b\<rparr>\<lparr>disk := d\<rparr>" using bitmap_write_disk by blast
  then show ?thesis by (intro exI[of _ d] exI[of _ b]) simp
qed

lemma for_write_disk:
  "for_upto a b (\<lambda>i s. block_write (f i) (g i) s) s = Some s' \<Longrightarrow> \<exists>d. s' = s\<lparr>disk := d\<rparr>"
proof (induction "b - a" arbitrary: a s)
  case 0
  then have "s' = s\<lparr>disk := disk s\<rparr>" by simp
  then show ?case by blast
next
  case (Suc n)
  then obtain s1 where "block_write (f a) (g a) s = Some s1"
    "for_upto (Suc a) b (\<lambda>i s. block_write (f i) (g i) s) s1 = Some s'"
    by (subst (asm) for_upto.simps) (auto simp: bind_eq_Some_conv split: if_splits)
  with Suc.hyps(1)[of "Suc a" s1] Suc.hyps(2) block_write_disk show ?case by fastforce
qed

named_theorems table \<open>operations that do not change the table of open inodes\<close>

lemma write_table [table]: "inode_write_at p buffer sz offset s = Some (m, s') \<Longrightarrow> same_table s s'"
  by (auto simp: same_table_def dest!: inode_write_at_disk)

lemma allocate_table [table]: "free_map_allocate cnt s = Some (r, s') \<Longrightarrow> same_table s s'"
  by (auto simp: same_table_def dest!: free_map_allocate_disk)

lemma release_table [table]: "free_map_release sec cnt s = Some s' \<Longrightarrow> same_table s s'"
  by (auto simp: same_table_def dest!: free_map_release_disk)

lemma malloc_table [table]: "malloc s = (p, s') \<Longrightarrow> same_table s s'"
  by (auto simp: malloc_def same_table_def split: if_splits)

lemma free_block_table [simp]: "same_table s (free_block t) \<longleftrightarrow> same_table s t"
  by (simp add: same_table_def free_block_def)

lemma inode_create_table [table]: "inode_create sec len s = Some (ok, s') \<Longrightarrow> same_table s s'"
proof -
  assume c: "inode_create sec len s = Some (ok, s')"
  let ?s = "s\<lparr>mem_left := mem_left s - 1, next_addr := next_addr s + 1\<rparr>"
  show ?thesis
  proof (cases "mem_left s = 0")
    case True
    then show ?thesis using c by (simp add: inode_create_def)
  next
    case False
    then obtain r t where t: "free_map_allocate (bytes_to_sectors len) ?s = Some (r, t)"
      using c by (auto simp: inode_create_def Let_def bind_eq_Some_conv)
    then have st: "same_table s t" using allocate_table[OF t] by (simp add: same_table_def)
    show ?thesis
    proof (cases r)
      case None
      then show ?thesis using c False t st by (auto simp: inode_create_def Let_def)
    next
      case (Some a)
      then obtain u v where "block_write sec (inode_disk_bytes \<lparr>d_start = a, d_length = len, d_magic = INODE_MAGIC\<rparr>) t = Some u"
        "for_upto 0 (bytes_to_sectors len) (\<lambda>i s. block_write ((a + i) mod 2 ^ 32) (replicate BLOCK_SECTOR_SIZE 0) s) u = Some v"
        "s' = free_block v"
        using c False t by (auto simp: inode_create_def Let_def bind_eq_Some_conv)
      then show ?thesis using st by (auto simp: same_table_def free_block_def dest!: block_write_disk for_write_disk)
    qed
  qed
qed

section \<open>Opening and closing inodes\<close>

lemma fs_invD:
  assumes "fs_inv s"
  shows "0 < next_addr s" "distinct (open_inodes s)" "p \<in> set (open_inodes s) \<longleftrightarrow> inodes s p \<noteq> None"
    "inodes s p = Some ino \<Longrightarrow> 0 < p \<and> p < next_addr s \<and> 0 < open_cnt ino"
    "inodes s p = Some i \<Longrightarrow> inodes s q = Some j \<Longrightarrow> sector i = sector j \<Longrightarrow> p = q"
  using assms unfolding fs_inv_def by blast+

lemma fs_inv_upd:
  assumes "fs_inv s" "inodes s p = Some ino" "sector ino' = sector ino" "0 < open_cnt ino'"
  shows "fs_inv (s\<lparr>inodes := (inodes s)(p \<mapsto> ino')\<rparr>)"
  using assms unfolding fs_inv_def by simp (metis option.discI)

lemma find_open_Some:
  assumes "\<forall>p \<in> set ps. inodes s p \<noteq> None"
  shows "\<exists>r. find_open sec ps s = Some r \<and> (case r of
      Some p \<Rightarrow> p \<in> set ps \<and> (\<exists>ino. inodes s p = Some ino \<and> sector ino = sec)
    | None \<Rightarrow> \<forall>p \<in> set ps. \<forall>ino. inodes s p = Some ino \<longrightarrow> sector ino \<noteq> sec)"
  using assms by (induction ps) (auto split: option.splits)

lemma inode_reopen_inv: "fs_inv s \<Longrightarrow> inode_reopen p s = Some s' \<Longrightarrow> fs_inv s'"
  by (auto simp: inode_reopen_def bind_eq_Some_conv split: if_splits intro!: fs_inv_upd dest: fs_invD(4))

text \<open>An inode that is open already is shared; otherwise a new one is made, unless memory is short.\<close>

lemma inode_open_inv:
  assumes "fs_inv s" "inode_open sec s = Some (p, s')"
  shows "fs_inv s'"
    "p \<noteq> NULL \<Longrightarrow> \<exists>ino. inodes s' p = Some ino \<and> sector ino = sec"
    "inodes s p = Some ino \<Longrightarrow> s' = s\<lparr>inodes := (inodes s)(p \<mapsto> ino\<lparr>open_cnt := open_cnt ino + 1\<rparr>)\<rparr>"
    "p \<noteq> NULL \<Longrightarrow> inodes s p = None \<Longrightarrow> \<forall>q ino. inodes s q = Some ino \<longrightarrow> sector ino \<noteq> sec"
    "q \<noteq> p \<Longrightarrow> inodes s' q = inodes s q"
    "p = NULL \<Longrightarrow> mem_left s = 0 \<and> s' = s"
proof -
  have all: "\<forall>p \<in> set (open_inodes s). inodes s p \<noteq> None" using fs_invD(3)[OF assms(1)] by blast
  obtain r where r: "find_open sec (open_inodes s) s = Some r" "case r of
      Some p \<Rightarrow> p \<in> set (open_inodes s) \<and> (\<exists>ino. inodes s p = Some ino \<and> sector ino = sec)
    | None \<Rightarrow> \<forall>p \<in> set (open_inodes s). \<forall>ino. inodes s p = Some ino \<longrightarrow> sector ino \<noteq> sec"
    using find_open_Some[OF all] by blast
  have "fs_inv s' \<and> (p \<noteq> NULL \<longrightarrow> (\<exists>ino. inodes s' p = Some ino \<and> sector ino = sec))
    \<and> (\<forall>ino. inodes s p = Some ino \<longrightarrow> s' = s\<lparr>inodes := (inodes s)(p \<mapsto> ino\<lparr>open_cnt := open_cnt ino + 1\<rparr>)\<rparr>)
    \<and> (p \<noteq> NULL \<longrightarrow> inodes s p = None \<longrightarrow> (\<forall>q ino. inodes s q = Some ino \<longrightarrow> sector ino \<noteq> sec))
    \<and> (\<forall>q. q \<noteq> p \<longrightarrow> inodes s' q = inodes s q) \<and> (p = NULL \<longrightarrow> mem_left s = 0 \<and> s' = s)"
  proof (cases r)
    case (Some q)
    then obtain ino where q: "inodes s q = Some ino" "sector ino = sec" using r by auto
    then have q0: "q \<noteq> 0" using fs_invD(4)[OF assms(1)] by blast
    then have s': "p = q" "s' = s\<lparr>inodes := (inodes s)(q \<mapsto> ino\<lparr>open_cnt := open_cnt ino + 1\<rparr>)\<rparr>"
      using assms(2) r(1) Some q by (auto simp: inode_open_def inode_reopen_def)
    have "fs_inv s'" unfolding s' using fs_inv_upd[OF assms(1) q(1)] fs_invD(4)[OF assms(1) q(1)] by simp
    then show ?thesis using s' q q0 by simp
  next
    case None
    have fresh: "inodes s q = None" if "next_addr s \<le> q" for q
      using fs_invD(4)[OF assms(1), of q] that by (cases "inodes s q") auto
    show ?thesis
    proof (cases "mem_left s = 0")
      case True
      then have "p = 0" "s' = s" using assms(2) r(1) None by (auto simp: inode_open_def malloc_def)
      then show ?thesis using assms(1) True fs_invD(4)[OF assms(1), of 0] by (cases "inodes s 0") auto
    next
      case False
      let ?p = "next_addr s"
      obtain b where p: "p = ?p" "s' = s\<lparr>mem_left := mem_left s - 1, next_addr := ?p + 1, open_inodes := ?p # open_inodes s,
          inodes := (inodes s)(?p \<mapsto> \<lparr>sector = sec, open_cnt = 1, removed = False, deny_write_cnt = 0, data = inode_disk_of b\<rparr>)\<rparr>"
        using assms(2) r(1) None False fs_invD(1)[OF assms(1)] by (auto simp: inode_open_def malloc_def Let_def bind_eq_Some_conv)
      have other: "\<forall>q ino. inodes s q = Some ino \<longrightarrow> sector ino \<noteq> sec"
        using r(2) None fs_invD(3)[OF assms(1)] by auto
      have "fs_inv s'"
        using assms(1) fresh[of ?p] other unfolding p fs_inv_def by (auto simp: less_Suc_eq)
      then show ?thesis using p fresh[of ?p] other fs_invD(1)[OF assms(1)] by simp
    qed
  qed
  then show "fs_inv s'"
    "p \<noteq> NULL \<Longrightarrow> \<exists>ino. inodes s' p = Some ino \<and> sector ino = sec"
    "inodes s p = Some ino \<Longrightarrow> s' = s\<lparr>inodes := (inodes s)(p \<mapsto> ino\<lparr>open_cnt := open_cnt ino + 1\<rparr>)\<rparr>"
    "p \<noteq> NULL \<Longrightarrow> inodes s p = None \<Longrightarrow> \<forall>q ino. inodes s q = Some ino \<longrightarrow> sector ino \<noteq> sec"
    "q \<noteq> p \<Longrightarrow> inodes s' q = inodes s q"
    "p = NULL \<Longrightarrow> mem_left s = 0 \<and> s' = s" by blast+
qed

lemma fs_inv_remove:
  assumes "fs_inv s" "inodes s' = (inodes s)(p := None)" "open_inodes s' = remove1 p (open_inodes s)"
    "next_addr s \<le> next_addr s'"
  shows "fs_inv s'"
  unfolding fs_inv_def
proof (intro conjI allI impI)
  show "0 < next_addr s'" using fs_invD(1)[OF assms(1)] assms(4) by simp
  show "distinct (open_inodes s')" using fs_invD(2)[OF assms(1)] assms(3) by simp
  show "q \<in> set (open_inodes s') \<longleftrightarrow> inodes s' q \<noteq> None" for q
    using fs_invD(2,3)[OF assms(1)] assms(2,3) by simp
  fix q ino assume "inodes s' q = Some ino"
  then have "inodes s q = Some ino" using assms(2) by (simp split: if_splits)
  then show "0 < q" "q < next_addr s'" "0 < open_cnt ino"
    using fs_invD(4)[OF assms(1)] assms(4) by (auto dest: less_le_trans)
next
  fix q r i j assume "inodes s' q = Some i" "inodes s' r = Some j" "sector i = sector j"
  then show "q = r" using fs_invD(5)[OF assms(1)] assms(2) by (simp split: if_splits)
qed

lemma inode_close_inv:
  assumes "fs_inv s" "inode_close p s = Some s'"
  shows "fs_inv s'" "q \<noteq> p \<Longrightarrow> inodes s' q = inodes s q"
proof -
  have "fs_inv s' \<and> (\<forall>q. q \<noteq> p \<longrightarrow> inodes s' q = inodes s q)"
  proof (cases "p = NULL")
    case True
    then show ?thesis using assms by (simp add: inode_close_def)
  next
    case False
    then obtain ino where ino: "inodes s p = Some ino" using assms(2) by (auto simp: inode_close_def bind_eq_Some_conv)
    let ?ino = "ino\<lparr>open_cnt := open_cnt ino - 1\<rparr>"
    let ?s = "s\<lparr>inodes := (inodes s)(p \<mapsto> ?ino)\<rparr>"
    show ?thesis
    proof (cases "open_cnt ino = 1")
      case False
      then have "s' = ?s" using assms(2) ino \<open>p \<noteq> NULL\<close> by (simp add: inode_close_def Let_def)
      then show ?thesis using fs_inv_upd[OF assms(1) ino, of ?ino] fs_invD(4)[OF assms(1) ino] False by simp
    next
      case True
      let ?s1 = "?s\<lparr>open_inodes := remove1 p (open_inodes s)\<rparr>"
      obtain t where t: "same_table ?s1 t" "s' = free_block (t\<lparr>inodes := (inodes t)(p := None)\<rparr>)"
      proof (cases "removed ino")
        case False
        then show thesis using that[of ?s1] assms(2) ino \<open>p \<noteq> NULL\<close> True by (simp add: inode_close_def Let_def)
      next
        case True
        then obtain t u where "free_map_release (sector ino) 1 ?s1 = Some t"
          "free_map_release (d_start (data ino)) (bytes_to_sectors (d_length (data ino))) t = Some u"
          "s' = free_block (u\<lparr>inodes := (inodes u)(p := None)\<rparr>)"
          using assms(2) ino \<open>p \<noteq> NULL\<close> \<open>open_cnt ino = 1\<close>
          by (auto simp: inode_close_def Let_def bind_eq_Some_conv)
        moreover then have "same_table ?s1 u" using same_table_trans[OF release_table release_table] by blast
        ultimately show thesis using that by blast
      qed
      then have "inodes s' = (inodes s)(p := None)" "open_inodes s' = remove1 p (open_inodes s)"
        "next_addr s \<le> next_addr s'" by (simp_all add: same_table_def free_block_def)
      then show ?thesis using fs_inv_remove[OF assms(1)] by simp
    qed
  qed
  then show "fs_inv s'" "q \<noteq> p \<Longrightarrow> inodes s' q = inodes s q" by blast+
qed

lemma inode_remove_inv: "fs_inv s \<Longrightarrow> inode_remove p s = Some s' \<Longrightarrow> fs_inv s'"
  by (auto simp: inode_remove_def bind_eq_Some_conv intro!: fs_inv_upd dest: fs_invD(4))

section \<open>Files, directories and names\<close>

lemma inv_irrelevant [simp]:
  "fs_inv (s\<lparr>files := f\<rparr>) = fs_inv s" "fs_inv (s\<lparr>dirs := g\<rparr>) = fs_inv s" "fs_inv (free_block s) = fs_inv s"
  "fs_inv (s\<lparr>free_map_file := a\<rparr>) = fs_inv s" "fs_inv (s\<lparr>free_map := b\<rparr>) = fs_inv s"
  by (simp_all add: fs_inv_def free_block_def)

lemma file_open_inv: "fs_inv s \<Longrightarrow> file_open p s = Some (f, s') \<Longrightarrow> fs_inv s'"
proof -
  assume i: "fs_inv s" and o: "file_open p s = Some (f, s')"
  obtain a t where m: "malloc s = (a, t)" by fastforce
  then have t: "fs_inv t" using i same_table_inv malloc_table by blast
  show ?thesis
  proof (cases "p \<noteq> NULL \<and> a \<noteq> NULL")
    case True
    then show ?thesis using o m t by (auto simp: file_open_def)
  next
    case False
    then obtain u where "inode_close p t = Some u" "s' = (if a \<noteq> NULL then free_block u else u)"
      using o m by (auto simp: file_open_def bind_eq_Some_conv)
    then show ?thesis using inode_close_inv(1)[OF t] by simp
  qed
qed

lemma dir_open_inv: "fs_inv s \<Longrightarrow> dir_open p s = Some (d, s') \<Longrightarrow> fs_inv s'"
proof -
  assume i: "fs_inv s" and o: "dir_open p s = Some (d, s')"
  obtain a t where m: "malloc s = (a, t)" by fastforce
  then have t: "fs_inv t" using i same_table_inv malloc_table by blast
  show ?thesis
  proof (cases "p \<noteq> NULL \<and> a \<noteq> NULL")
    case True
    then show ?thesis using o m t by (auto simp: dir_open_def)
  next
    case False
    then obtain u where "inode_close p t = Some u" "s' = (if a \<noteq> NULL then free_block u else u)"
      using o m by (auto simp: dir_open_def bind_eq_Some_conv)
    then show ?thesis using inode_close_inv(1)[OF t] by simp
  qed
qed

lemma allow_write_inv: "fs_inv s \<Longrightarrow> inode_allow_write p s = Some s' \<Longrightarrow> fs_inv s'"
  by (auto simp: inode_allow_write_def bind_eq_Some_conv intro!: fs_inv_upd dest: fs_invD(4))

lemma deny_write_inv: "fs_inv s \<Longrightarrow> inode_deny_write p s = Some s' \<Longrightarrow> fs_inv s'"
  by (auto simp: inode_deny_write_def bind_eq_Some_conv intro!: fs_inv_upd dest: fs_invD(4))

lemma file_close_inv: "fs_inv s \<Longrightarrow> file_close f s = Some s' \<Longrightarrow> fs_inv s'"
  by (auto simp: file_close_def file_allow_write_def bind_eq_Some_conv split: if_splits
      dest!: inode_close_inv(1)[rotated] allow_write_inv[rotated])

lemma file_deny_write_inv: "fs_inv s \<Longrightarrow> file_deny_write f s = Some s' \<Longrightarrow> fs_inv s'"
  by (auto simp: file_deny_write_def bind_eq_Some_conv split: if_splits dest!: deny_write_inv[rotated])

lemma file_write_inv: "fs_inv s \<Longrightarrow> file_write f buffer sz s = Some (n, s') \<Longrightarrow> fs_inv s'"
  by (auto simp: file_write_def bind_eq_Some_conv dest!: write_table dest: same_table_inv)

lemma dir_close_inv: "fs_inv s \<Longrightarrow> dir_close d s = Some s' \<Longrightarrow> fs_inv s'"
  by (auto simp: dir_close_def bind_eq_Some_conv split: if_splits dest!: inode_close_inv(1)[rotated])

lemma dir_open_root_inv: "fs_inv s \<Longrightarrow> dir_open_root s = Some (d, s') \<Longrightarrow> fs_inv s'"
  by (auto simp: dir_open_root_def bind_eq_Some_conv dest!: inode_open_inv(1)[rotated] dir_open_inv[rotated])

lemma dir_lookup_inv: "fs_inv s \<Longrightarrow> dir_lookup d name s = Some (p, s') \<Longrightarrow> fs_inv s'"
  by (auto simp: dir_lookup_def bind_eq_Some_conv split: option.splits dest: inode_open_inv(1))

lemma dir_add_table: "dir_add d name sec junk s = Some (ok, s') \<Longrightarrow> same_table s s'"
  by (auto simp: dir_add_def Let_def bind_eq_Some_conv split: option.splits if_splits dest: write_table)

lemma dir_remove_inv:
  assumes "fs_inv s" "dir_remove d name s = Some (ok, s')" shows "fs_inv s'"
proof -
  obtain dr r where dr: "dirs s d = Some dr" "lookup_entry d name s = Some r"
    using assms(2) by (auto simp: dir_remove_def bind_eq_Some_conv)
  show ?thesis
  proof (cases r)
    case None
    then show ?thesis using assms dr by (auto simp: dir_remove_def inode_close_def)
  next
    case (Some eo)
    obtain e ofs where eo: "eo = (e, ofs)" by fastforce
    then obtain p t where t: "inode_open (inode_sector e) s = Some (p, t)"
      using assms(2) dr Some by (auto simp: dir_remove_def bind_eq_Some_conv)
    then have ti: "fs_inv t" using inode_open_inv(1)[OF assms(1)] by blast
    show ?thesis
    proof (cases "p = NULL")
      case True
      then show ?thesis using assms(2) dr Some eo t ti by (auto simp: dir_remove_def inode_close_def)
    next
      case False
      then obtain n u where u: "inode_write_at (dir_inode dr) (dir_entry_bytes (e\<lparr>in_use := False\<rparr>))
             (int DIR_ENTRY_SIZE) (int ofs) t = Some (n, u)"
        using assms(2) dr Some eo t by (auto simp: dir_remove_def bind_eq_Some_conv)
      then have "fs_inv u" using ti write_table same_table_inv by blast
      moreover have "inode_close p u = Some s' \<or> (\<exists>v. inode_remove p u = Some v \<and> inode_close p v = Some s')"
        using assms(2) dr Some eo t False u
        by (cases "n = int DIR_ENTRY_SIZE") (auto simp: dir_remove_def bind_eq_Some_conv)
      ultimately show ?thesis using inode_close_inv(1) inode_remove_inv by blast
    qed
  qed
qed

lemma filesys_open_inv:
  assumes "fs_inv s" "filesys_open name s = Some (f, s')" shows "fs_inv s'"
proof -
  obtain d p t u v where "dir_open_root s = Some (d, t)"
    "(if d \<noteq> NULL then dir_lookup d name t else Some (NULL, t)) = Some (p, u)"
    "dir_close d u = Some v" "file_open p v = Some (f, s')"
    using assms(2) by (auto simp: filesys_open_def bind_eq_Some_conv)
  then show ?thesis using assms(1) dir_open_root_inv dir_lookup_inv dir_close_inv file_open_inv
    by (metis option.inject prod.inject)
qed

lemma filesys_remove_inv:
  assumes "fs_inv s" "filesys_remove name s = Some (ok, s')" shows "fs_inv s'"
proof -
  obtain d t u where "dir_open_root s = Some (d, t)"
    "(if d \<noteq> NULL then dir_remove d name t else Some (False, t)) = Some (ok, u)" "dir_close d u = Some s'"
    using assms(2) by (auto simp: filesys_remove_def bind_eq_Some_conv)
  then show ?thesis using assms(1) dir_open_root_inv dir_remove_inv dir_close_inv
    by (metis option.inject prod.inject)
qed

lemma filesys_create_inv:
  assumes "fs_inv s" "filesys_create name len junk s = Some (ok, s')" shows "fs_inv s'"
proof -
  obtain d t ok' sec u v where d: "dir_open_root s = Some (d, t)"
    and u: "(if d = NULL then Some (False, 0, t)
        else do {
          (r, s) \<leftarrow> free_map_allocate 1 t;
          case r of
            None \<Rightarrow> Some (False, 0, s)
          | Some sec \<Rightarrow> do {
              (ok, s) \<leftarrow> inode_create sec len s;
              if ok then do { (ok, s) \<leftarrow> dir_add d name sec junk s; Some (ok, sec, s) }
              else Some (False, sec, s) } }) = Some (ok', sec, u)"
    and v: "(if \<not> ok' \<and> sec \<noteq> 0 then free_map_release sec 1 u else Some u) = Some v" "dir_close d v = Some s'"
    using assms(2) unfolding filesys_create_def bind_eq_Some_conv by (auto simp: bind_eq_Some_conv)
  have "same_table t u"
  proof (cases "d = NULL")
    case True
    then show ?thesis using u by simp
  next
    case False
    then obtain r a where a: "free_map_allocate 1 t = Some (r, a)" using u by (auto simp: bind_eq_Some_conv)
    show ?thesis
    proof (cases r)
      case None
      then show ?thesis using u a False allocate_table by simp
    next
      case (Some x)
      then obtain ok b where b: "inode_create x len a = Some (ok, b)"
        using u a False by (auto simp: bind_eq_Some_conv)
      then have tb: "same_table t b" using a allocate_table inode_create_table same_table_trans by blast
      show ?thesis
      proof (cases ok)
        case True
        then obtain ok c where "dir_add d name x junk b = Some (ok, c)" "u = c"
          using u a b Some False by (auto simp: bind_eq_Some_conv)
        then show ?thesis using tb dir_add_table same_table_trans by blast
      next
        case False
        then show ?thesis using u a b Some \<open>d \<noteq> NULL\<close> tb by simp
      qed
    qed
  qed
  then have "fs_inv u" using dir_open_root_inv[OF assms(1) d] same_table_inv by blast
  then have "fs_inv v" using v(1)
    by (cases "\<not> ok' \<and> sec \<noteq> 0") (auto intro: same_table_inv[OF release_table])
  then show ?thesis using dir_close_inv v(2) by blast
qed

section \<open>Runs of the file system\<close>

text \<open>A call of the file system by the rest of the kernel.\<close>

inductive fs_call :: "fs \<Rightarrow> fs \<Rightarrow> bool" where
  create_file: "filesys_create name len junk s = Some (ok, s') \<Longrightarrow> fs_call s s'"
| open_file: "filesys_open name s = Some (f, s') \<Longrightarrow> fs_call s s'"
| remove_file: "filesys_remove name s = Some (ok, s') \<Longrightarrow> fs_call s s'"
| close_file: "file_close f s = Some s' \<Longrightarrow> fs_call s s'"
| reopen_file: "file_reopen f s = Some (g, s') \<Longrightarrow> fs_call s s'"
| read_file: "file_read f sz s = Some (bs, s') \<Longrightarrow> fs_call s s'"
| write_file: "file_write f buffer sz s = Some (n, s') \<Longrightarrow> fs_call s s'"
| write_at: "file_write_at f buffer sz ofs s = Some (n, s') \<Longrightarrow> fs_call s s'"
| seek_file: "file_seek f pos s = Some s' \<Longrightarrow> fs_call s s'"
| deny_file: "file_deny_write f s = Some s' \<Longrightarrow> fs_call s s'"
| allow_file: "file_allow_write f s = Some s' \<Longrightarrow> fs_call s s'"
| open_dir: "dir_open_root s = Some (d, s') \<Longrightarrow> fs_call s s'"
| readdir: "dir_readdir d s = Some (r, s') \<Longrightarrow> fs_call s s'"
| close_dir: "dir_close d s = Some s' \<Longrightarrow> fs_call s s'"
| map_open: "free_map_open s = Some s' \<Longrightarrow> fs_call s s'"

lemma file_reopen_inv: "fs_inv s \<Longrightarrow> file_reopen f s = Some (g, s') \<Longrightarrow> fs_inv s'"
  unfolding file_reopen_def bind_eq_Some_conv using inode_reopen_inv file_open_inv by blast

lemma file_allow_write_inv: "fs_inv s \<Longrightarrow> file_allow_write f s = Some s' \<Longrightarrow> fs_inv s'"
  by (auto simp: file_allow_write_def bind_eq_Some_conv split: if_splits dest!: allow_write_inv[rotated])

lemma free_map_open_inv:
  assumes "fs_inv s" "free_map_open s = Some s'" shows "fs_inv s'"
proof -
  obtain p f t u b where "inode_open FREE_MAP_SECTOR s = Some (p, t)" "file_open p t = Some (f, u)"
    "s' = u\<lparr>free_map_file := f, free_map := b\<rparr>"
    using assms(2) by (auto simp: free_map_open_def Let_def bind_eq_Some_conv)
  moreover from this have "fs_inv t" using inode_open_inv(1)[OF assms(1)] by blast
  ultimately have "fs_inv u" using file_open_inv by blast
  then show ?thesis using \<open>s' = u\<lparr>free_map_file := f, free_map := b\<rparr>\<close> by (simp add: fs_inv_def)
qed

lemma fs_call_inv: "fs_call s s' \<Longrightarrow> fs_inv s \<Longrightarrow> fs_inv s'"
proof (induction rule: fs_call.induct)
  case (write_at f buffer sz ofs s n s')
  then show ?case
    by (auto simp: file_write_at_def bind_eq_Some_conv dest!: write_table dest: same_table_inv)
next
  case (read_file f sz s bs s')
  then show ?case by (auto simp: file_read_def bind_eq_Some_conv)
next
  case (seek_file f pos s s')
  then show ?case by (auto simp: file_seek_def bind_eq_Some_conv)
next
  case (readdir d s r s')
  then show ?case by (auto simp: dir_readdir_def bind_eq_Some_conv)
qed (erule (1) filesys_create_inv[rotated] filesys_open_inv[rotated] filesys_remove_inv[rotated]
    file_close_inv[rotated] file_reopen_inv[rotated] file_write_inv[rotated] file_deny_write_inv[rotated]
    file_allow_write_inv[rotated] dir_open_root_inv[rotated] dir_close_inv[rotated] free_map_open_inv[rotated])+

inductive_cases fs_callE: "fs_call s s'"

lemma fs_calls_inv: "fs_call\<^sup>*\<^sup>* s s' \<Longrightarrow> fs_inv s \<Longrightarrow> fs_inv s'"
  by (induction rule: rtranclp_induct) (auto intro: fs_call_inv)

text \<open>A file is read as a stream.\<close>

lemma file_read_at_pos:
  assumes "files s f = Some fl" "inodes s (f_inode fl) = Some ino" "inode_ok s ino" "disk_ok s" "0 < mem_left s" "0 \<le> f_pos fl"
  shows "file_read f (int n) s = (let xs = take n (drop (nat (f_pos fl)) (contents (disk s) ino)) in
      Some (xs, s\<lparr>files := (files s)(f \<mapsto> fl\<lparr>f_pos := f_pos fl + int (length xs)\<rparr>)\<rparr>))"
proof -
  have "inode_read_at (f_inode fl) (int n) (f_pos fl) s = Some (take n (drop (nat (f_pos fl)) (contents (disk s) ino)))"
    using inode_read_at_data[OF assms(2-5), of n "nat (f_pos fl)"] assms(6) by simp
  then show ?thesis by (simp add: file_read_def assms(1) Let_def)
qed

end
