(* ===== verification/FsCreate.thy ===== *)
theory FsCreate
  imports FsInv
begin

text \<open>
  Allocation and creation: a new inode gets a run of sectors that were free before, exactly these
  become used, and the file reads as zeros.  Removing a name from a directory deletes it from the
  directory's map, whatever closing the inode gives back to the free map.
\<close>

section \<open>Well-formed disks stay well-formed\<close>

lemma chunk_le_sector:
  "0 \<le> offset \<Longrightarrow> nat offset mod BLOCK_SECTOR_SIZE + nat (chunk_size ino sz offset) \<le> BLOCK_SECTOR_SIZE"
proof -
  assume "0 \<le> offset"
  then have "offset mod 512 = int (nat offset mod 512)" by (simp add: zmod_int)
  then have "chunk_size ino sz offset \<le> 512 - int (nat offset mod 512)"
    by (simp add: chunk_size_def Let_def BLOCK_SECTOR_SIZE_def)
  moreover have "nat offset mod 512 < 512" by simp
  ultimately show ?thesis unfolding BLOCK_SECTOR_SIZE_def by linarith
qed

lemma block_write_ok:
  "disk_ok s \<Longrightarrow> length b = BLOCK_SECTOR_SIZE \<Longrightarrow> block_write sec b s = Some s' \<Longrightarrow> disk_ok s'"
  by (auto simp: block_write_def disk_ok_def bind_eq_Some_conv)

lemma inode_write_loop_ok:
  "disk_ok s \<Longrightarrow> inode_write_loop ino buffer sz offset bounce n s = Some (m, s') \<Longrightarrow> disk_ok s'"
proof (induction ino buffer sz offset bounce n s arbitrary: m s' rule: inode_write_loop.induct)
  case (1 ino buffer sz offset bounce n s)
  let ?c = "chunk_size ino sz offset" and ?sec = "byte_to_sector ino offset" and ?o = "nat offset mod BLOCK_SECTOR_SIZE"
  let ?src = "take (nat ?c) (drop (nat n) buffer)"
  show ?case
  proof (cases "sz > 0 \<and> 0 < ?c \<and> \<not> (offset < 0 \<or> length ?src < nat ?c)")
    case False
    then have "s' = s" using "1.prems"(2)
      by (subst (asm) inode_write_loop.simps) (auto simp: Let_def split: if_splits)
    then show ?thesis using "1.prems"(1) by simp
  next
    case True
    then have len: "length ?src = nat ?c" by auto
    consider (full) "?o = 0 \<and> ?c = int BLOCK_SECTOR_SIZE" | (stop) "\<not> (?o = 0 \<and> ?c = int BLOCK_SECTOR_SIZE)" "\<not> bounce \<and> mem_left s = 0"
      | (part) "\<not> (?o = 0 \<and> ?c = int BLOCK_SECTOR_SIZE)" "\<not> (\<not> bounce \<and> mem_left s = 0)" by blast
    then show ?thesis
    proof cases
      case full
      then obtain s1 where s1: "block_write ?sec ?src s = Some s1"
        "inode_write_loop ino buffer (sz - ?c) (offset + ?c) bounce (n + ?c) s1 = Some (m, s')"
        using "1.prems"(2) True by (subst (asm) inode_write_loop.simps) (auto simp: Let_def bind_eq_Some_conv)
      have "disk_ok s1" using block_write_ok[OF "1.prems"(1) _ s1(1)] len full by simp
      show ?thesis
        by (rule "1.IH"(1)[OF _ refl refl refl refl _ _ full _ \<open>disk_ok s1\<close> s1(2)]) (use True s1(1) in auto)
    next
      case stop
      then have "s' = s" using "1.prems"(2) True
        by (subst (asm) inode_write_loop.simps) (auto simp: Let_def split: if_splits)
      then show ?thesis using "1.prems"(1) by simp
    next
      case part
      then obtain b s1 where s1: "(if ?o > 0 \<or> ?c < int BLOCK_SECTOR_SIZE - int ?o then block_read ?sec s
            else Some (replicate BLOCK_SECTOR_SIZE 0)) = Some b"
        "block_write ?sec (memcpy_at b ?o ?src) s = Some s1"
        "inode_write_loop ino buffer (sz - ?c) (offset + ?c) True (n + ?c) s1 = Some (m, s')"
        using "1.prems"(2) True by (subst (asm) inode_write_loop.simps) (auto simp: Let_def bind_eq_Some_conv simp del: not_less)
      have "length b = BLOCK_SECTOR_SIZE" using s1(1) "1.prems"(1)
        by (auto simp: block_read_def check_sector_def disk_ok_def split: if_splits)
      then have "disk_ok s1" using block_write_ok[OF "1.prems"(1) _ s1(2)] len True chunk_le_sector[of offset ino sz]
        by (simp add: memcpy_at_def)
      show ?thesis
        by (rule "1.IH"(2)[OF _ refl refl refl refl _ _ part(1,2) _ _ \<open>disk_ok s1\<close> s1(3)]) (use True s1(1,2) in auto)
    qed
  qed
qed

lemma inode_write_at_ok: "disk_ok s \<Longrightarrow> inode_write_at p buffer sz offset s = Some (m, s') \<Longrightarrow> disk_ok s'"
  by (auto simp: inode_write_at_def bind_eq_Some_conv split: if_splits dest: inode_write_loop_ok)

lemma bitmap_write_ok: "disk_ok s \<Longrightarrow> bitmap_write b f s = Some (r, s') \<Longrightarrow> disk_ok s'"
  by (auto simp: bitmap_write_def file_write_at_def Let_def bind_eq_Some_conv dest: inode_write_at_ok)

section \<open>Allocation\<close>

definition map_ok :: "fs \<Rightarrow> bool" where
  "map_ok s \<longleftrightarrow> bm_ok (free_map s) \<and> bit_cnt (free_map s) = disk_size s"

lemma free_map_allocate_spec:
  assumes "map_ok s" "disk_ok s" "free_map_allocate cnt s = Some (Some st, s')"
  shows "bm_group (free_map s) st cnt False" "map_ok s'" "disk_ok s'" "disk_size s' = disk_size s"
    "bm_bit (free_map s') j \<longleftrightarrow> bm_bit (free_map s) j \<or> (st \<le> j \<and> j < st + cnt)"
proof -
  have ok: "bm_ok (free_map s)" using assms(1) by (simp add: map_ok_def)
  from bitmap_scan_and_flip_bm[OF ok, of 0 cnt False] obtain b r where
    b: "bitmap_scan_and_flip (free_map s) 0 cnt False = Some (b, r)" and
    c: "if \<exists>i\<ge>0. bm_group (free_map s) i cnt False
     then r \<noteq> BITMAP_ERROR \<and> 0 \<le> r \<and> bm_group (free_map s) r cnt False \<and>
       (\<forall>i. 0 \<le> i \<and> i < r \<longrightarrow> \<not> bm_group (free_map s) i cnt False) \<and> bm_ok b \<and> bit_cnt b = bit_cnt (free_map s) \<and>
       (\<forall>j. bm_bit b j = (if r \<le> j \<and> j < r + cnt then \<not> False else bm_bit (free_map s) j))
     else r = BITMAP_ERROR \<and> b = free_map s" by blast
  have r: "r \<noteq> BITMAP_ERROR"
    using assms(3) b by (auto simp: free_map_allocate_def Let_def split: if_splits)
  then have g: "bm_group (free_map s) r cnt False" "bm_ok b" "bit_cnt b = bit_cnt (free_map s)"
    "\<forall>j. bm_bit b j = (if r \<le> j \<and> j < r + cnt then \<not> False else bm_bit (free_map s) j)"
    using c by (auto split: if_splits)
  have s': "r = st \<and> free_map s' = b \<and> disk_ok s' \<and> disk_size s' = disk_size s"
  proof (cases "free_map_file s = NULL")
    case True
    then show ?thesis using assms(2,3) b r by (auto simp: free_map_allocate_def Let_def disk_ok_def)
  next
    case False
    then obtain ok t where t: "bitmap_write b (free_map_file s) (s\<lparr>free_map := b\<rparr>) = Some (ok, t)"
      using assms(3) b r by (auto simp: free_map_allocate_def Let_def bind_eq_Some_conv)
    then have "ok \<and> r = st \<and> s' = t"
      using assms(3) b r False by (auto simp: free_map_allocate_def Let_def bind_eq_Some_conv split: if_splits)
    moreover have "disk_ok (s\<lparr>free_map := b\<rparr>)" using assms(2) by (simp add: disk_ok_def)
    ultimately show ?thesis using bitmap_write_ok[OF _ t] bitmap_write_disk[OF t] by auto
  qed
  then show "bm_group (free_map s) st cnt False" "map_ok s'" "disk_ok s'" "disk_size s' = disk_size s"
    "bm_bit (free_map s') j \<longleftrightarrow> bm_bit (free_map s) j \<or> (st \<le> j \<and> j < st + cnt)"
    using g assms(1) by (auto simp: map_ok_def)
qed

section \<open>Creating an inode\<close>

lemma of_off_to_off: "- (2 ^ 31) \<le> n \<Longrightarrow> n < 2 ^ 31 \<Longrightarrow> to_off (of_off n) = n"
proof -
  assume n: "- (2 ^ 31) \<le> n" "n < 2 ^ 31"
  show ?thesis
  proof (cases "0 \<le> n")
    case True
    then show ?thesis using n by (simp add: of_off_def to_off_def nat_less_iff)
  next
    case False
    have "n mod 2 ^ 32 = (n + 2 ^ 32) mod 2 ^ 32" by simp
    also have "\<dots> = n + 2 ^ 32" using False n by (intro mod_pos_pos_trivial) auto
    finally have "n mod 2 ^ 32 = n + 2 ^ 32" .
    then show ?thesis using n False by (simp add: of_off_def to_off_def nat_less_iff)
  qed
qed

lemma inode_disk_roundtrip:
  assumes "d_start d < 2 ^ 32" "- (2 ^ 31) \<le> d_length d" "d_length d < 2 ^ 31" "d_magic d < 2 ^ 32"
  shows "inode_disk_of (inode_disk_bytes d) = d" "length (inode_disk_bytes d) = BLOCK_SECTOR_SIZE"
proof -
  have "of_off (d_length d) < 2 ^ 32" by (simp add: of_off_def nat_less_iff)
  then show "inode_disk_of (inode_disk_bytes d) = d"
    using assms of_off_to_off[OF assms(2,3)] by (simp add: inode_disk_of_def inode_disk_bytes_def of_le32_le32)
  show "length (inode_disk_bytes d) = BLOCK_SECTOR_SIZE"
    by (simp add: inode_disk_bytes_def BLOCK_SECTOR_SIZE_def)
qed

lemma zero_sectors:
  "st + n \<le> disk_size s \<Longrightarrow> disk_size s < 2 ^ 32 \<Longrightarrow> k \<le> n \<Longrightarrow>
   for_upto k n (\<lambda>i s. block_write ((st + i) mod 2 ^ 32) z s) s
     = Some (s\<lparr>disk := \<lambda>x. if st + k \<le> x \<and> x < st + n then z else disk s x\<rparr>)"
proof (induction "n - k" arbitrary: k s)
  case 0
  then have "k = n" by simp
  moreover have "(\<lambda>x. if st + n \<le> x \<and> x < st + n then z else disk s x) = disk s" by (rule ext) auto
  ultimately show ?case by simp
next
  case (Suc m)
  let ?s = "s\<lparr>disk := (disk s)(st + k := z)\<rparr>"
  have "for_upto (Suc k) n (\<lambda>i s. block_write ((st + i) mod 2 ^ 32) z s) ?s
     = Some (?s\<lparr>disk := \<lambda>x. if st + Suc k \<le> x \<and> x < st + n then z else disk ?s x\<rparr>)"
    using Suc.hyps(1)[of "Suc k" ?s] Suc.hyps(2) Suc.prems by simp
  moreover have "(\<lambda>x. if st + Suc k \<le> x \<and> x < st + n then z else disk ?s x)
      = (\<lambda>x. if st + k \<le> x \<and> x < st + n then z else disk s x)"
    using Suc.hyps(2) by (auto simp: fun_eq_iff)
  moreover have "block_write ((st + k) mod 2 ^ 32) z s = Some ?s"
    using Suc.hyps(2) Suc.prems by (simp add: block_write_def check_sector_def)
  ultimately show ?case using Suc.hyps(2) by (subst for_upto.simps) simp
qed

lemma inode_create_spec:
  assumes "inode_create sec len s = Some (True, s')" "map_ok s" "disk_ok s" "len < 2 ^ 31"
    "bm_bit (free_map s) sec" "sec < disk_size s"
  defines "n \<equiv> bytes_to_sectors len"
  shows "\<exists>st. bm_group (free_map s) st n False
    \<and> (\<forall>j. bm_bit (free_map s') j \<longleftrightarrow> bm_bit (free_map s) j \<or> (st \<le> j \<and> j < st + n))
    \<and> inode_disk_of (disk s' sec) = \<lparr>d_start = st, d_length = len, d_magic = INODE_MAGIC\<rparr>
    \<and> (\<forall>x. st \<le> x \<longrightarrow> x < st + n \<longrightarrow> disk s' x = replicate BLOCK_SECTOR_SIZE 0)
    \<and> st + n \<le> disk_size s \<and> disk_size s' = disk_size s \<and> map_ok s' \<and> disk_ok s' \<and> 0 \<le> len"
proof -
  let ?s = "s\<lparr>mem_left := mem_left s - 1, next_addr := next_addr s + 1\<rparr>"
  have m: "mem_left s \<noteq> 0" "0 \<le> len" using assms(1) by (auto simp: inode_create_def split: if_splits)
  obtain st t u v where t: "free_map_allocate n ?s = Some (Some st, t)"
    and u: "block_write sec (inode_disk_bytes \<lparr>d_start = st, d_length = len, d_magic = INODE_MAGIC\<rparr>) t = Some u"
    and v: "for_upto 0 n (\<lambda>i s. block_write ((st + i) mod 2 ^ 32) (replicate BLOCK_SECTOR_SIZE 0) s) u = Some v"
    and s': "s' = free_block v"
    using assms(1) m by (auto simp: inode_create_def Let_def bind_eq_Some_conv n_def split: option.splits)
  have "map_ok ?s" "disk_ok ?s" using assms(2,3) by (simp_all add: map_ok_def disk_ok_def)
  note al = free_map_allocate_spec[OF this t]
  have st: "st + n \<le> disk_size s" "bm_group (free_map s) st n False"
    using al(1) assms(2) by (auto simp: bm_group_def map_ok_def)
  have sz: "disk_size s < 2 ^ 32" using assms(3) by (simp add: disk_ok_def)
  have nin: "\<not> (st \<le> sec \<and> sec < st + n)" using st(2) assms(5) by (auto simp: bm_group_def)
  let ?d = "\<lparr>d_start = st, d_length = len, d_magic = INODE_MAGIC\<rparr>"
  have rt: "inode_disk_of (inode_disk_bytes ?d) = ?d" "length (inode_disk_bytes ?d) = BLOCK_SECTOR_SIZE"
    using inode_disk_roundtrip[of ?d] st(1) sz m(2) assms(4) by (simp_all add: INODE_MAGIC_def)
  have u': "u = t\<lparr>disk := (disk t)(sec := inode_disk_bytes ?d)\<rparr>" using block_write_disk[OF u] .
  have "v = u\<lparr>disk := \<lambda>x. if st + 0 \<le> x \<and> x < st + n then replicate BLOCK_SECTOR_SIZE 0 else disk u x\<rparr>"
    using zero_sectors[of st n u 0] v st(1) sz al(4) u' by simp
  then have fin: "disk s' = (\<lambda>x. if st \<le> x \<and> x < st + n then replicate BLOCK_SECTOR_SIZE 0
      else ((disk t)(sec := inode_disk_bytes ?d)) x)" "free_map s' = free_map t" "disk_size s' = disk_size t"
    using s' u' arg_cong[OF u', of disk] by (simp_all add: free_block_def fun_eq_iff)
  have "disk_ok s'" using al(3) fin rt(2) by (auto simp: disk_ok_def)
  moreover have "map_ok s'" using al(2) fin by (simp add: map_ok_def)
  ultimately show ?thesis
    using st al(4,5) fin rt(1) nin m(2) by (intro exI[of _ st]) auto
qed

text \<open>Opened again, the new file has the length it was created with and is all zeros.\<close>

lemma created_contents:
  assumes "inode_create sec len s = Some (True, s')" "map_ok s" "disk_ok s" "len < 2 ^ 31"
    "bm_bit (free_map s) sec" "sec < disk_size s"
    "fs_inv s'" "\<forall>p ino. inodes s' p = Some ino \<longrightarrow> sector ino \<noteq> sec"
    "inode_open sec s' = Some (p, t)" "p \<noteq> NULL"
  shows "\<exists>ino. inodes t p = Some ino \<and> inode_ok t ino \<and> contents (disk t) ino = replicate (nat len) 0
    \<and> sector ino = sec \<and> bm_group (free_map s) (d_start (data ino)) (bytes_to_sectors len) False
    \<and> (\<forall>j. bm_bit (free_map s') j \<longleftrightarrow>
          bm_bit (free_map s) j \<or> (d_start (data ino) \<le> j \<and> j < d_start (data ino) + bytes_to_sectors len))"
proof -
  let ?n = "bytes_to_sectors len"
  obtain st where st: "inode_disk_of (disk s' sec) = \<lparr>d_start = st, d_length = len, d_magic = INODE_MAGIC\<rparr>"
    "\<forall>x. st \<le> x \<longrightarrow> x < st + ?n \<longrightarrow> disk s' x = replicate BLOCK_SECTOR_SIZE 0"
    "st + ?n \<le> disk_size s" "disk_size s' = disk_size s" "0 \<le> len" "bm_group (free_map s) st ?n False"
    "\<forall>j. bm_bit (free_map s') j \<longleftrightarrow> bm_bit (free_map s) j \<or> (st \<le> j \<and> j < st + ?n)"
    using inode_create_spec[OF assms(1-6)] by blast
  have all: "\<forall>p \<in> set (open_inodes s'). inodes s' p \<noteq> None" using fs_invD(3)[OF assms(7)] by blast
  have "find_open sec (open_inodes s') s' = Some None"
    using find_open_Some[OF all, of sec] assms(8) by (auto split: option.splits)
  then have t: "inodes t p = Some \<lparr>sector = sec, open_cnt = 1, removed = False, deny_write_cnt = 0,
      data = inode_disk_of (disk s' sec)\<rparr>" "disk t = disk s'" "disk_size t = disk_size s'"
    using assms(9,10)
    by (auto simp: inode_open_def malloc_def Let_def bind_eq_Some_conv block_read_def split: if_splits)
  let ?ino = "\<lparr>sector = sec, open_cnt = 1, removed = False, deny_write_cnt = 0, data = inode_disk_of (disk s' sec)\<rparr>"
  have "data_byte (disk t) ?ino i = 0" if "i < nat len" for i
  proof -
    have "i div 512 < DIV_ROUND_UP (nat len) 512" using DIV_ROUND_UP_gt[of 512 i "nat len"] that by simp
    then have "disk t (st + i div BLOCK_SECTOR_SIZE) = replicate BLOCK_SECTOR_SIZE 0"
      using st(2) t(2) by (simp add: bytes_to_sectors_def BLOCK_SECTOR_SIZE_def)
    then show ?thesis using st(1) by (simp add: data_byte_def BLOCK_SECTOR_SIZE_def)
  qed
  then have "contents (disk t) ?ino = replicate (nat len) 0"
    using st(1) by (intro nth_equalityI) (auto simp: contents_def inode_length_def)
  moreover have "inode_ok t ?ino" using st t(3) by (auto simp: inode_ok_def sectors_of_def inode_length_def)
  moreover have "d_start (data ?ino) = st" using st(1) by simp
  ultimately show ?thesis using t(1) st(6,7) by (intro exI[of _ ?ino]) simp
qed

end
