(* ===== verification/DirRemove.thy ===== *)
theory DirRemove
  imports FsCreate
begin

text \<open>
  Removing a name: the map of the directory loses exactly this name, although closing the inode may
  write the free map to its file; its sectors and those of the directory are disjoint.
\<close>

lemma data_cong:
  assumes "data i' = data i"
  shows "contents d i' = contents d i" "sectors_of i' = sectors_of i" "inode_ok s i' = inode_ok s i"
    "inode_length i' = inode_length i"
proof -
  have "data_byte d i' = data_byte d i" using assms by (simp add: data_byte_def fun_eq_iff)
  then show "contents d i' = contents d i" "sectors_of i' = sectors_of i" "inode_ok s i' = inode_ok s i"
    "inode_length i' = inode_length i"
    using assms by (simp_all add: contents_def sectors_of_def inode_ok_def inode_length_def)
qed

lemma contents_cong:
  assumes "\<forall>x \<in> sectors_of ino. d' x = d x"
  shows "contents d' ino = contents d ino"
proof -
  have "data_byte d' ino i = data_byte d ino i" if "i < nat (inode_length ino)" for i
  proof -
    have "i div 512 < DIV_ROUND_UP (nat (inode_length ino)) 512"
      using DIV_ROUND_UP_gt[of 512 i "nat (inode_length ino)"] that by simp
    then show ?thesis using assms
      by (simp add: sectors_of_def bytes_to_sectors_def BLOCK_SECTOR_SIZE_def data_byte_def)
  qed
  then show ?thesis by (simp add: contents_def)
qed

lemma of_le32_bound: "length bs = 4 \<Longrightarrow> of_le32 bs < 2 ^ 32"
proof -
  have b: "unat (x :: byte) \<le> 255" for x using unsigned_less[of x, where 'a = nat] by simp
  have "unat (bs ! 0) + unat (bs ! 1) * 256 + unat (bs ! 2) * 65536 + unat (bs ! 3) * 16777216
      \<le> 255 + 255 * 256 + 255 * 65536 + 255 * 16777216"
    by (intro add_mono mult_right_mono b) simp_all
  then show ?thesis by (simp add: of_le32_def)
qed

text \<open>The free map's file: an open file on a well-formed inode.\<close>

definition map_file :: "fs \<Rightarrow> inode \<Rightarrow> bool" where
  "map_file s fino \<longleftrightarrow> (\<exists>fl i. files s (free_map_file s) = Some fl \<and> inodes s (f_inode fl) = Some i
     \<and> data i = data fino \<and> inode_ok s fino)"

lemma write_at_frame:
  assumes "inode_write_at p buffer sz offset s = Some (m, s')" "inodes s p = Some i" "data i = data ino"
    "inode_ok s ino" "disk_ok s" "x \<notin> sectors_of ino"
  shows "disk s' x = disk s x"
proof -
  have b: "x \<noteq> byte_to_sector i pos" if "0 \<le> pos" "pos < d_length (data i)" for pos
  proof -
    have "nat pos < nat (inode_length ino)" using that assms(3) by (simp add: inode_length_def)
    from sector_of_pos[OF assms(4,5) this] assms(6) that(1) have "x \<noteq> byte_to_sector ino pos" by auto
    moreover have "byte_to_sector i pos = byte_to_sector ino pos" using assms(3) by (simp add: byte_to_sector_def)
    ultimately show ?thesis by simp
  qed
  have "s' = s \<or> inode_write_loop i buffer sz offset False 0 s = Some (m, s')"
    using assms(1,2) by (auto simp: inode_write_at_def split: if_splits)
  then show ?thesis using inode_write_loop_disk[of i buffer sz offset False 0 s m s'] b by auto
qed

lemma release_frame:
  assumes "free_map_release sec cnt s = Some s'" "map_file s fino" "disk_ok s" "x \<notin> sectors_of fino"
  shows "disk s' x = disk s x" "map_file s' fino" "disk_ok s'"
proof -
  obtain fl i where f: "files s (free_map_file s) = Some fl" "inodes s (f_inode fl) = Some i"
    "data i = data fino" "inode_ok s fino" using assms(2) by (auto simp: map_file_def)
  obtain b ok where w: "bitmap_write b (free_map_file s) (s\<lparr>free_map := b\<rparr>) = Some (ok, s')"
    using assms(1) by (auto simp: free_map_release_def Let_def bind_eq_Some_conv)
  let ?s = "s\<lparr>free_map := b\<rparr>"
  obtain n where n: "inode_write_at (f_inode fl) (bitmap_bytes b) (int (byte_cnt (bit_cnt b))) 0 ?s = Some (n, s')"
    using w f(1) by (auto simp: bitmap_write_def file_write_at_def Let_def bind_eq_Some_conv)
  have "disk_ok ?s" "inode_ok ?s fino" using assms(3) f(4) by (simp_all add: disk_ok_def inode_ok_def)
  then show "disk s' x = disk s x" using write_at_frame[OF n _ f(3) _ _ assms(4)] f(2) by simp
  show "disk_ok s'" using bitmap_write_ok[OF \<open>disk_ok ?s\<close> w] .
  obtain d where "s' = ?s\<lparr>disk := d\<rparr>" using bitmap_write_disk[OF w] by blast
  then show "map_file s' fino" using f by (auto simp: map_file_def inode_ok_def)
qed

lemma inode_close_frame:
  assumes "inode_close p s = Some s'" "map_file s fino" "disk_ok s" "x \<notin> sectors_of fino"
  shows "disk s' x = disk s x"
proof (cases "p = NULL")
  case True
  then show ?thesis using assms(1) by (simp add: inode_close_def)
next
  case False
  then obtain ino where ino: "inodes s p = Some ino" using assms(1) by (auto simp: inode_close_def bind_eq_Some_conv)
  let ?s1 = "s\<lparr>inodes := (inodes s)(p \<mapsto> ino\<lparr>open_cnt := open_cnt ino - 1\<rparr>),
    open_inodes := remove1 p (open_inodes s)\<rparr>"
  have "map_file ?s1 fino" "disk_ok ?s1"
    using assms(2,3) ino by (auto simp: map_file_def disk_ok_def inode_ok_def)
  note fr = release_frame[OF _ _ _ assms(4)]
  show ?thesis
  proof (cases "open_cnt ino = 1 \<and> removed ino")
    case False
    then show ?thesis using assms(1) ino \<open>p \<noteq> NULL\<close>
      by (auto simp: inode_close_def Let_def free_block_def bind_eq_Some_conv split: if_splits)
  next
    case True
    then obtain t u where t: "free_map_release (sector ino) 1 ?s1 = Some t"
      "free_map_release (d_start (data ino)) (bytes_to_sectors (d_length (data ino))) t = Some u"
      "s' = free_block (u\<lparr>inodes := (inodes u)(p := None)\<rparr>)"
      using assms(1) ino \<open>p \<noteq> NULL\<close> by (auto simp: inode_close_def Let_def bind_eq_Some_conv)
    then show ?thesis
      using fr(1)[OF t(2) fr(2)[OF t(1)] fr(3)[OF t(1)]] fr(1)[OF t(1)] \<open>map_file ?s1 fino\<close> \<open>disk_ok ?s1\<close>
      by (simp add: free_block_def)
  qed
qed

lemma inode_open_frame:
  assumes "fs_inv s" "inode_open sec s = Some (p, t)"
  shows "disk t = disk s" "disk_size t = disk_size s" "dirs t = dirs s" "files t = files s"
    "free_map_file t = free_map_file s" "mem_left s \<le> mem_left t + 1"
    "inodes s q = Some i \<Longrightarrow> \<exists>i'. inodes t q = Some i' \<and> data i' = data i \<and> deny_write_cnt i' = deny_write_cnt i"
proof -
  obtain r where r: "find_open sec (open_inodes s) s = Some r" using assms(2) by (auto simp: inode_open_def bind_eq_Some_conv)
  have "disk t = disk s \<and> disk_size t = disk_size s \<and> dirs t = dirs s \<and> files t = files s
    \<and> free_map_file t = free_map_file s \<and> mem_left s \<le> mem_left t + 1"
  proof (cases r)
    case (Some q)
    then show ?thesis using assms(2) r
      by (cases "q = NULL") (auto simp: inode_open_def inode_reopen_def bind_eq_Some_conv)
  next
    case None
    then show ?thesis using assms(2) r
      by (cases "mem_left s = 0"; cases "next_addr s = 0")
        (auto simp: inode_open_def malloc_def Let_def bind_eq_Some_conv)
  qed
  then show "disk t = disk s" "disk_size t = disk_size s" "dirs t = dirs s" "files t = files s"
    "free_map_file t = free_map_file s" "mem_left s \<le> mem_left t + 1" by blast+
  show "\<exists>i'. inodes t q = Some i' \<and> data i' = data i \<and> deny_write_cnt i' = deny_write_cnt i" if "inodes s q = Some i"
    using inode_open_inv(3)[OF assms, of i] inode_open_inv(5)[OF assms, of q] that by (cases "q = p") auto
qed

lemma dir_remove_spec:
  assumes "fs_inv s" "dir_at s d ino" "deny_write_cnt ino = 0" "uniq_names (entries_at s ino)"
    "map_file s fino" "sectors_of fino \<inter> sectors_of ino = {}" "1 < mem_left s"
    "dir_remove d name s = Some (r, s')"
  shows "if dir_map (entries_at s ino) name = None then \<not> r \<and> s' = s
    else r \<and> dir_map (entries_at s' ino) = (dir_map (entries_at s ino))(name := None)
      \<and> uniq_names (entries_at s' ino)"
proof -
  obtain dr where dr: "dirs s d = Some dr" "inodes s (dir_inode dr) = Some ino"
    and ok: "inode_ok s ino" "disk_ok s" using assms(2) by (auto simp: dir_at_def)
  let ?es = "entries_at s ino"
  show ?thesis
  proof (cases "dir_map ?es name")
    case None
    then have "lookup_entry d name s = Some None" using lookup_entry_cases[OF assms(2), of name] by auto
    then show ?thesis using assms(8) dr None by (simp add: dir_remove_def inode_close_def)
  next
    case (Some x)
    then obtain j where j: "j < length ?es" "lookup_entry d name s = Some (Some (?es ! j, DIR_ENTRY_SIZE * j))"
      "named (?es ! j) name" using lookup_entry_cases[OF assms(2), of name] by auto
    define e where "e = ?es ! j"
    have len: "j < length (contents (disk s) ino) div DIR_ENTRY_SIZE" using j(1) by simp
    have e: "inode_sector e < 2 ^ 32" "length (e_name e) = 15"
      using length_entry_name[OF len] entry_bytes_in[OF len] of_le32_bound len
      by (simp_all add: e_def dir_entry_of_def DIR_ENTRY_SIZE_def)
    obtain p t where t: "inode_open (inode_sector e) s = Some (p, t)"
      using assms(8) dr j(2) by (auto simp: dir_remove_def bind_eq_Some_conv e_def)
    have p: "p \<noteq> NULL" using inode_open_inv(6)[OF assms(1) t] assms(7) by auto
    note of = inode_open_frame[OF assms(1) t]
    obtain i where i: "inodes t (dir_inode dr) = Some i" "data i = data ino" "deny_write_cnt i = 0"
      using of(7)[OF dr(2)] assms(3) by auto
    have ti: "inode_ok t i" "disk_ok t" "0 < mem_left t"
      using ok of data_cong(3)[OF i(2)] assms(7) by (auto simp: inode_ok_def disk_ok_def)
    let ?e = "e\<lparr>in_use := False\<rparr>"
    have blen: "length (dir_entry_bytes ?e) = DIR_ENTRY_SIZE" using dir_entry_roundtrip(2)[of ?e] e by simp
    have full: "DIR_ENTRY_SIZE * j + DIR_ENTRY_SIZE \<le> nat (inode_length i)"
      using entry_bytes_in(1)[OF len] data_cong(4)[OF i(2)] by simp
    have m: "min DIR_ENTRY_SIZE (nat (inode_length i) - DIR_ENTRY_SIZE * j) = DIR_ENTRY_SIZE" using full by simp
    obtain d' where w: "inode_write_at (dir_inode dr) (dir_entry_bytes ?e) (int DIR_ENTRY_SIZE) (int (DIR_ENTRY_SIZE * j)) t
        = Some (int DIR_ENTRY_SIZE, t\<lparr>disk := d'\<rparr>)" "wrote i (DIR_ENTRY_SIZE * j) (dir_entry_bytes ?e) (disk t) d'"
      using inode_write_at_data[OF i(1) ti i(3), of DIR_ENTRY_SIZE "dir_entry_bytes ?e" "DIR_ENTRY_SIZE * j"] blen
      unfolding m by auto
    have es: "dir_entries (contents d' ino) = ?es[j := ?e]"
      using wrote_entry[OF w(2), of] j(1) e of(1) data_cong(1)[OF i(2)] data_cong(4)[OF i(2)] by simp
    let ?u = "t\<lparr>disk := d'\<rparr>"
    obtain v where v: "inode_remove p ?u = Some v" "inode_close p v = Some s'" "r"
      using assms(8) dr(1) j(2) t p w(1) by (auto simp: dir_remove_def bind_eq_Some_conv e_def)
    have dv: "disk v = d'" using v(1) by (auto simp: inode_remove_def bind_eq_Some_conv)
    have mu: "map_file v fino"
    proof -
      obtain fl fi where "files s (free_map_file s) = Some fl" "inodes s (f_inode fl) = Some fi" "data fi = data fino" "inode_ok s fino"
        using assms(5) by (auto simp: map_file_def)
      moreover from of(7)[OF this(2)] obtain fi' where "inodes t (f_inode fl) = Some fi'" "data fi' = data fi" by blast
      ultimately show ?thesis using v(1) of
        by (auto simp: map_file_def inode_remove_def bind_eq_Some_conv inode_ok_def)
    qed
    have "disk_ok v" using ti(2) v(1) w(2) by (auto simp: disk_ok_def inode_remove_def bind_eq_Some_conv wrote_def)
    then have "\<forall>x \<in> sectors_of ino. disk s' x = d' x"
      using inode_close_frame[OF v(2) mu] assms(6) dv by auto
    then have fin: "entries_at s' ino = ?es[j := ?e]" using es by (metis contents_cong)
    show ?thesis unfolding fin
      using dir_map_remove[OF assms(4) j(1,3), of ?e] v(3) Some by simp
  qed
qed

end
