(* ===== verification/FixedPoint.thy ===== *)
theory FixedPoint
  imports Prelude
begin

text \<open>
  threads/fixed-point.h: numbers with 16 fractional bits in an \<open>int\<close>.  A sum or product of \<open>int\<close> that
  does not fit is undefined in C: the model has no result.  Products and quotients computed as
  \<open>long long\<close> and then stored into the \<open>int\<close> of a number keep their low 32 bits, as gcc does it.  Division
  of machine integers cuts off towards zero.
\<close>

section \<open>The code\<close>

definition FIX_P :: nat where "FIX_P = 16"
definition FIX_Q :: nat where "FIX_Q = 16"
definition FIX_F :: int where "FIX_F = 2 ^ FIX_Q"
definition FIX_MAX_INT :: int where "FIX_MAX_INT = 2 ^ FIX_P - 1"
definition FIX_MIN_INT :: int where "FIX_MIN_INT = - FIX_MAX_INT"

text \<open>The quotient of C.\<close>

definition cdiv :: "int \<Rightarrow> int \<Rightarrow> int" where
  "cdiv a b = sgn a * sgn b * (\<bar>a\<bar> div \<bar>b\<bar>)"

definition fits32 :: "int \<Rightarrow> bool" where
  "fits32 v \<longleftrightarrow> - (2 ^ 31) \<le> v \<and> v < 2 ^ 31"

definition fits64 :: "int \<Rightarrow> bool" where
  "fits64 v \<longleftrightarrow> - (2 ^ 63) \<le> v \<and> v < 2 ^ 63"

definition int_op :: "int \<Rightarrow> int option" where
  "int_op v = do { ASSERT (fits32 v); Some v }"

definition long_op :: "int \<Rightarrow> int option" where
  "long_op v = do { ASSERT (fits64 v); Some v }"

definition trunc32 :: "int \<Rightarrow> int" where
  "trunc32 v = (v + 2 ^ 31) mod 2 ^ 32 - 2 ^ 31"

record fixed_point =
  fp :: int

definition mk_fix :: "int \<Rightarrow> fixed_point" where
  "mk_fix f = \<lparr>fp = f\<rparr>"

definition fix_int :: "int \<Rightarrow> fixed_point option" where
  "fix_int n = do {
     ASSERT (n \<ge> FIX_MIN_INT \<and> n \<le> FIX_MAX_INT);
     v \<leftarrow> int_op (n * FIX_F);
     Some (mk_fix v) }"

definition fix_frac :: "int \<Rightarrow> int \<Rightarrow> fixed_point option" where
  "fix_frac n d = do {
     ASSERT (d \<noteq> 0);
     q \<leftarrow> int_op (cdiv n d);
     ASSERT (q \<ge> FIX_MIN_INT \<and> q \<le> FIX_MAX_INT);
     v \<leftarrow> long_op (n * FIX_F);
     Some (mk_fix (trunc32 (cdiv v d))) }"

definition fix_round :: "fixed_point \<Rightarrow> int option" where
  "fix_round x = do { v \<leftarrow> int_op (fp x + cdiv FIX_F 2); Some (cdiv v FIX_F) }"

definition fix_trunc :: "fixed_point \<Rightarrow> int" where
  "fix_trunc x = cdiv (fp x) FIX_F"

definition fix_add :: "fixed_point \<Rightarrow> fixed_point \<Rightarrow> fixed_point option" where
  "fix_add x y = do { v \<leftarrow> int_op (fp x + fp y); Some (mk_fix v) }"

definition fix_sub :: "fixed_point \<Rightarrow> fixed_point \<Rightarrow> fixed_point option" where
  "fix_sub x y = do { v \<leftarrow> int_op (fp x - fp y); Some (mk_fix v) }"

definition fix_mul :: "fixed_point \<Rightarrow> fixed_point \<Rightarrow> fixed_point option" where
  "fix_mul x y = do { v \<leftarrow> long_op (fp x * fp y); Some (mk_fix (trunc32 (cdiv v FIX_F))) }"

definition fix_scale :: "fixed_point \<Rightarrow> int \<Rightarrow> fixed_point option" where
  "fix_scale x n = do { ASSERT (n \<ge> 0); v \<leftarrow> int_op (fp x * n); Some (mk_fix v) }"

definition fix_div :: "fixed_point \<Rightarrow> fixed_point \<Rightarrow> fixed_point option" where
  "fix_div x y = do {
     v \<leftarrow> long_op (fp x * FIX_F);
     ASSERT (fp y \<noteq> 0);
     Some (mk_fix (trunc32 (cdiv v (fp y)))) }"

definition fix_unscale :: "fixed_point \<Rightarrow> int \<Rightarrow> fixed_point option" where
  "fix_unscale x n = do { ASSERT (n > 0); Some (mk_fix (cdiv (fp x) n)) }"

definition fix_inv :: "fixed_point \<Rightarrow> fixed_point option" where
  "fix_inv x = do { one \<leftarrow> fix_int 1; fix_div one x }"

definition fix_compare :: "fixed_point \<Rightarrow> fixed_point \<Rightarrow> int" where
  "fix_compare x y = (if fp x < fp y then -1 else if fp x > fp y then 1 else 0)"

section \<open>Arithmetic\<close>

lemma FIX_F_num [simp]: "FIX_F = 65536"
  by (simp add: FIX_F_def FIX_Q_def)

lemma FIX_range [simp]: "FIX_MAX_INT = 65535" "FIX_MIN_INT = - 65535"
  by (simp_all add: FIX_MAX_INT_def FIX_MIN_INT_def FIX_P_def)

lemma trunc32_id [simp]: "fits32 v \<Longrightarrow> trunc32 v = v"
  by (simp add: trunc32_def fits32_def)

lemma int_op_Some [simp]: "int_op v = Some w \<longleftrightarrow> fits32 v \<and> w = v"
  by (auto simp: int_op_def)

lemma long_op_Some [simp]: "long_op v = Some w \<longleftrightarrow> fits64 v \<and> w = v"
  by (auto simp: long_op_def)

lemma cdiv_pos: "0 \<le> a \<Longrightarrow> 0 < b \<Longrightarrow> cdiv a b = a div b"
  by (cases "a = 0") (simp_all add: cdiv_def)

lemma cdiv_neg: "a < 0 \<Longrightarrow> 0 < b \<Longrightarrow> cdiv a b = - ((- a) div b)"
  by (simp add: cdiv_def)

text \<open>The quotient is within one of the exact one, towards zero.\<close>

lemma cdiv_error:
  assumes "0 < b"
  shows "\<bar>cdiv a b * b - a\<bar> < b" "\<bar>cdiv a b * b\<bar> \<le> \<bar>a\<bar>" "0 \<le> a \<Longrightarrow> 0 \<le> cdiv a b" "a \<le> 0 \<Longrightarrow> cdiv a b \<le> 0"
proof -
  have m: "0 \<le> x mod b" "x mod b < b" "x div b * b = x - x mod b" for x
    using assms by (simp_all add: minus_mod_eq_div_mult)
  show "\<bar>cdiv a b * b - a\<bar> < b"
  proof (cases "0 \<le> a")
    case True
    then show ?thesis using m[of a] assms by (simp add: cdiv_pos)
  next
    case False
    then show ?thesis using m[of "- a"] assms by (simp add: cdiv_neg)
  qed
  have d: "0 \<le> x \<Longrightarrow> x div b * b \<le> x" for x using m(1,3)[of x] by simp
  show "\<bar>cdiv a b * b\<bar> \<le> \<bar>a\<bar>"
  proof (cases "0 \<le> a")
    case True
    then show ?thesis using d[of a] assms by (simp add: cdiv_pos pos_imp_zdiv_nonneg_iff)
  next
    case False
    then have "0 \<le> (- a) div b" using assms by (simp add: pos_imp_zdiv_nonneg_iff)
    then show ?thesis using d[of "- a"] False assms by (simp add: cdiv_neg)
  qed
  show "0 \<le> a \<Longrightarrow> 0 \<le> cdiv a b" using assms by (simp add: cdiv_pos pos_imp_zdiv_nonneg_iff)
  show "a \<le> 0 \<Longrightarrow> cdiv a b \<le> 0" using assms by (cases "a = 0") (simp_all add: cdiv_neg cdiv_pos pos_imp_zdiv_nonneg_iff)
qed

section \<open>Range and rounding\<close>

text \<open>\<open>fix_int\<close> accepts every number up to \<open>FIX_MAX_INT\<close>, but only those of 16 bits fit.\<close>

lemma fix_int_iff: "fix_int n = Some x \<longleftrightarrow> - 32768 \<le> n \<and> n \<le> 32767 \<and> x = mk_fix (n * 65536)"
  by (auto simp: fix_int_def bind_eq_Some_conv fits32_def)

lemma fix_round_int:
  assumes "fix_int n = Some x"
  shows "fix_round x = Some (if n \<ge> 0 then n else n + 1)" "fix_trunc x = n"
proof -
  have n: "- 32768 \<le> n" "n \<le> 32767" "x = mk_fix (n * 65536)" using assms by (simp_all add: fix_int_iff)
  have h: "cdiv 65536 2 = 32768" by (simp add: cdiv_def)
  have "fits32 (n * 65536 + 32768)" using n(1,2) by (simp add: fits32_def)
  moreover have "cdiv (n * 65536 + 32768) 65536 = (if n \<ge> 0 then n else n + 1)"
  proof (cases "n \<ge> 0")
    case False
    then have "(- (n * 65536 + 32768)) div 65536 = - n - 1" by linarith
    then show ?thesis using False by (simp add: cdiv_neg)
  qed (simp add: cdiv_pos)
  ultimately show "fix_round x = Some (if n \<ge> 0 then n else n + 1)"
    by (simp add: fix_round_def n(3) mk_fix_def h int_op_def)
  show "fix_trunc x = n"
    by (cases "n \<ge> 0") (simp_all add: fix_trunc_def n(3) mk_fix_def cdiv_pos cdiv_neg)
qed

text \<open>A product is off by less than one unit of the last place, towards zero.\<close>

lemma fix_mul_error:
  assumes "fits32 (fp x)" "fits32 (fp y)" "\<bar>fp x * fp y\<bar> < 2 ^ 47"
  shows "\<exists>z. fix_mul x y = Some z \<and> fits32 (fp z) \<and> \<bar>fp z * 65536 - fp x * fp y\<bar> < 65536"
proof -
  let ?v = "fp x * fp y"
  have e: "\<bar>cdiv ?v 65536 * 65536 - ?v\<bar> < 65536" "\<bar>cdiv ?v 65536 * 65536\<bar> \<le> \<bar>?v\<bar>" using cdiv_error(1,2)[of 65536 ?v] by simp_all
  have q: "\<bar>q * 65536\<bar> \<le> \<bar>v\<bar> \<Longrightarrow> \<bar>v\<bar> < 2 ^ 47 \<Longrightarrow> fits32 q" for q v :: int by (simp add: fits32_def) linarith
  have f: "fits32 (cdiv ?v 65536)" by (rule q[OF e(2) assms(3)])
  have "\<bar>v\<bar> < 2 ^ 47 \<Longrightarrow> fits64 v" for v :: int by (simp add: fits64_def) linarith
  then have "fits64 ?v" using assms(3) by blast
  then show ?thesis using f e(1) by (simp add: fix_mul_def mk_fix_def long_op_def)
qed

end
