(* ===== verification/FsExample.thy ===== *)
theory FsExample
  imports DirRemove
begin

text \<open>
  A small file system the properties are applied to: eight sectors of zeros, a directory with two free
  entries in sector 2 and the file of the free map in sector 3, both open.
\<close>

definition dir_ino :: inode where
  "dir_ino = \<lparr>sector = 1, open_cnt = 1, removed = False, deny_write_cnt = 0,
     data = \<lparr>d_start = 2, d_length = 40, d_magic = INODE_MAGIC\<rparr>\<rparr>"

definition map_ino :: inode where
  "map_ino = \<lparr>sector = 0, open_cnt = 1, removed = False, deny_write_cnt = 0,
     data = \<lparr>d_start = 3, d_length = 4, d_magic = INODE_MAGIC\<rparr>\<rparr>"

definition small_fs :: fs where
  "small_fs = \<lparr>disk = (\<lambda>_. replicate BLOCK_SECTOR_SIZE 0), disk_size = 8,
     free_map = \<lparr>bit_cnt = 8, bits = [15]\<rparr>, free_map_file = 30,
     inodes = [10 \<mapsto> dir_ino, 20 \<mapsto> map_ino], open_inodes = [10, 20],
     files = [30 \<mapsto> \<lparr>f_inode = 20, f_pos = 0, f_deny_write = False\<rparr>],
     dirs = [40 \<mapsto> \<lparr>dir_inode = 10, dir_pos = 0\<rparr>], mem_left = 5, next_addr = 50\<rparr>"

lemma small_disk: "disk_ok small_fs" "inode_ok small_fs dir_ino" "inode_ok small_fs map_ino"
  "sectors_of dir_ino = {2}" "sectors_of map_ino = {3}" "inodes small_fs 10 = Some dir_ino"
  by (auto simp: disk_ok_def small_fs_def inode_ok_def sectors_of_def dir_ino_def map_ino_def inode_length_def
      bytes_to_sectors_def DIV_ROUND_UP_def BLOCK_SECTOR_SIZE_def)

lemma small_dir: "dir_at small_fs 40 dir_ino"
  using small_disk by (simp add: dir_at_def) (simp add: small_fs_def)

lemma small_contents: "contents (disk small_fs) dir_ino = replicate 40 0"
proof (rule nth_equalityI)
  fix i assume "i < length (contents (disk small_fs) dir_ino)"
  then have i: "i < 40" by (simp add: dir_ino_def inode_length_def)
  then have "i mod BLOCK_SECTOR_SIZE < BLOCK_SECTOR_SIZE" by (simp add: BLOCK_SECTOR_SIZE_def)
  then show "contents (disk small_fs) dir_ino ! i = replicate 40 0 ! i" using i
    by (simp add: contents_def data_byte_def small_fs_def dir_ino_def inode_length_def)
qed (simp add: dir_ino_def inode_length_def)

lemma small_entries:
  "entries_at small_fs dir_ino = replicate 2 \<lparr>inode_sector = 0, e_name = replicate 15 0, in_use = False\<rparr>"
proof -
  have "take 20 (drop (20 * j) (replicate 40 (0 :: byte))) = replicate 20 0" if "j < 2" for j
    using that by (auto simp: less_2_cases_iff)
  then show ?thesis
    by (intro nth_equalityI)
      (simp_all add: dir_entries_def small_contents DIR_ENTRY_SIZE_def dir_entry_of_def of_le32_def)
qed

lemma small_map: "uniq_names (entries_at small_fs dir_ino)" "dir_map (entries_at small_fs dir_ino) name = None"
  "\<exists>e \<in> set (entries_at small_fs dir_ino). \<not> in_use e"
  unfolding small_entries by (auto simp: uniq_names_def dir_map_None named_def)

lemma small_map_file: "map_file small_fs map_ino"
  using small_disk(3) by (simp add: map_file_def) (simp add: small_fs_def)

lemma small_inv: "fs_inv small_fs"
  by (auto simp: fs_inv_def small_fs_def dir_ino_def map_ino_def split: if_splits)

text \<open>The same disk before the free map has a file.\<close>

definition fresh_fs :: fs where
  "fresh_fs = small_fs\<lparr>free_map_file := NULL, inodes := Map.empty, open_inodes := [], files := Map.empty, dirs := Map.empty\<rparr>"

lemma fresh_ok: "map_ok fresh_fs" "disk_ok fresh_fs" "bm_bit (free_map fresh_fs) 1" "disk_size fresh_fs = 8" "fs_inv fresh_fs"
  by (simp_all add: map_ok_def fresh_fs_def small_fs_def disk_ok_def bm_ok_def elem_cnt_def ELEM_BITS_def
      DIV_ROUND_UP_def BITMAP_ERROR_def bm_bit_def fs_inv_def)

lemma fresh_create: "\<exists>s. inode_create 1 40 fresh_fs = Some (True, s) \<and> mem_left s = 5"
proof -
  let ?s = "fresh_fs\<lparr>mem_left := 4, next_addr := 51\<rparr>"
  have n: "bytes_to_sectors 40 = 1" by (simp add: bytes_to_sectors_def DIV_ROUND_UP_def BLOCK_SECTOR_SIZE_def)
  have ok: "bm_ok (free_map fresh_fs)" using fresh_ok(1) by (simp add: map_ok_def)
  have "bm_group (free_map fresh_fs) 4 1 False"
  proof -
    have "\<not> bit (15 :: 32 word) 4" by code_simp
    then have "\<not> bm_bit (free_map fresh_fs) 4" by (simp add: fresh_fs_def small_fs_def bm_bit_def)
    moreover have "\<And>j :: nat. 4 \<le> j \<Longrightarrow> j < 4 + 1 \<Longrightarrow> j = 4" by arith
    moreover have "4 + 1 \<le> bit_cnt (free_map fresh_fs)" by (simp add: fresh_fs_def small_fs_def)
    ultimately show ?thesis unfolding bm_group_def by metis
  qed
  then obtain b r where b: "bitmap_scan_and_flip (free_map fresh_fs) 0 1 False = Some (b, r)"
    "r \<noteq> BITMAP_ERROR" "bm_group (free_map fresh_fs) r 1 False"
    using bitmap_scan_and_flip_bm[OF ok, of 0 1 False] by (metis le0)
  let ?t = "?s\<lparr>free_map := b\<rparr>"
  have a: "free_map_allocate 1 ?s = Some (Some r, ?t)"
    using b by (simp add: free_map_allocate_def fresh_fs_def Let_def)
  have r: "r < 8" using b(3) by (simp add: bm_group_def fresh_fs_def small_fs_def)
  have w: "block_write x v u = Some (u\<lparr>disk := (disk u)(x := v)\<rparr>)" if "x < disk_size u" for x v u
    using that by (simp add: block_write_def check_sector_def)
  have ds: "disk_size ?t = 8" "disk_size (?t\<lparr>disk := x\<rparr>) = 8" for x using fresh_ok(4) by simp_all
  show ?thesis
    using a r n by (simp add: inode_create_def Let_def fresh_fs_def small_fs_def for_upto.simps free_block_def w)
qed

end
