(* ===== verification/Hash.thy ===== *)
theory Hash
  imports Prelude "HOL-Library.List_Lexorder"
begin

unbundle bit_operations_syntax

text \<open>
  lib/kernel/hash.c: a hash table with chaining that doubles and halves the number of its buckets.  A
  bucket is the sequence of its elements, an element is an address; the hash function and the order
  of elements are members of the table, as in the code.  \<open>ok\<close> tells whether the allocation of a new
  bucket array succeeds.

  The locale \<open>hashing\<close> states the contract of these two functions: the order compares keys and equal
  keys have equal hashes.  Under it the table is a finite map from keys to elements.
\<close>

section \<open>Hash functions\<close>

definition FNV_32_PRIME :: "32 word" where "FNV_32_PRIME = 16777619"
definition FNV_32_BASIS :: "32 word" where "FNV_32_BASIS = 2166136261"

definition hash_bytes :: "8 word list \<Rightarrow> 32 word" where
  "hash_bytes buf = fold (\<lambda>b h. (h * FNV_32_PRIME) XOR ucast b) buf FNV_32_BASIS"

definition hash_string :: "8 word list \<Rightarrow> 32 word" where
  "hash_string s = fold (\<lambda>b h. (h * FNV_32_PRIME) XOR ucast b) (takeWhile (\<lambda>b. b \<noteq> 0) s) FNV_32_BASIS"

definition hash_int :: "32 word \<Rightarrow> 32 word" where
  "hash_int i = hash_bytes (map (\<lambda>k. ucast (drop_bit (8 * k) i)) [0, 1, 2, 3])"

section \<open>The table\<close>

record hash =
  hash_elem_cnt :: nat
  bucket_cnt :: nat
  buckets :: "addr list list"
  hash_fn :: "addr \<Rightarrow> 32 word"
  less_fn :: "addr \<Rightarrow> addr \<Rightarrow> bool"

definition find_bucket :: "hash \<Rightarrow> addr \<Rightarrow> nat" where
  "find_bucket h e = unat (hash_fn h e) AND (bucket_cnt h - 1)"

definition find_elem :: "hash \<Rightarrow> nat \<Rightarrow> addr \<Rightarrow> addr" where
  "find_elem h b e = (case find (\<lambda>hi. \<not> less_fn h hi e \<and> \<not> less_fn h e hi) (buckets h ! b) of
     Some hi \<Rightarrow> hi | None \<Rightarrow> NULL)"

definition turn_off_least_1bit :: "nat \<Rightarrow> nat" where
  "turn_off_least_1bit x = x AND (x - 1)"

definition is_power_of_2 :: "nat \<Rightarrow> bool" where
  "is_power_of_2 x \<longleftrightarrow> x \<noteq> 0 \<and> turn_off_least_1bit x = 0"

definition MIN_BUCKETS :: nat where "MIN_BUCKETS = 4"
definition BEST_ELEMS_PER_BUCKET :: nat where "BEST_ELEMS_PER_BUCKET = 2"

partial_function (option) to_power_of_2 :: "nat \<Rightarrow> nat option" where
  "to_power_of_2 x = (if \<not> is_power_of_2 x then to_power_of_2 (turn_off_least_1bit x) else Some x)"

declare to_power_of_2.simps [code]

definition push_bucket :: "nat \<Rightarrow> addr \<Rightarrow> addr list list \<Rightarrow> addr list list" where
  "push_bucket b e bs = bs[b := e # bs ! b]"

definition rehash :: "bool \<Rightarrow> hash \<Rightarrow> hash option" where
  "rehash ok h = do {
     let n = hash_elem_cnt h div BEST_ELEMS_PER_BUCKET;
     new_bucket_cnt \<leftarrow> to_power_of_2 (if n < 4 then 4 else n);
     if new_bucket_cnt = bucket_cnt h then Some h
     else if \<not> ok then Some h
     else do {
       let g = h\<lparr>buckets := replicate new_bucket_cnt [], bucket_cnt := new_bucket_cnt\<rparr>;
       Some (g\<lparr>buckets := fold (\<lambda>e. push_bucket (find_bucket g e) e) (concat (buckets h)) (buckets g)\<rparr>) } }"

definition insert_elem :: "hash \<Rightarrow> nat \<Rightarrow> addr \<Rightarrow> hash" where
  "insert_elem h b e = h\<lparr>hash_elem_cnt := hash_elem_cnt h + 1, buckets := push_bucket b e (buckets h)\<rparr>"

text \<open>\<open>list_remove\<close> takes the element off the bucket it is on.\<close>

definition remove_elem :: "hash \<Rightarrow> addr \<Rightarrow> hash" where
  "remove_elem h e = h\<lparr>hash_elem_cnt := hash_elem_cnt h - 1, buckets := map (remove1 e) (buckets h)\<rparr>"

definition hash_clear :: "hash \<Rightarrow> hash" where
  "hash_clear h = h\<lparr>buckets := replicate (bucket_cnt h) [], hash_elem_cnt := 0\<rparr>"

definition hash_init :: "bool \<Rightarrow> (addr \<Rightarrow> 32 word) \<Rightarrow> (addr \<Rightarrow> addr \<Rightarrow> bool) \<Rightarrow> bool \<times> hash" where
  "hash_init ok hf lf = (let h = \<lparr>hash_elem_cnt = 0, bucket_cnt = MIN_BUCKETS, buckets = [], hash_fn = hf, less_fn = lf\<rparr>
     in if ok then (True, hash_clear h) else (False, h))"

definition hash_insert :: "bool \<Rightarrow> addr \<Rightarrow> hash \<Rightarrow> (addr \<times> hash) option" where
  "hash_insert ok new h = do {
     let bucket = find_bucket h new;
     let old = find_elem h bucket new;
     h \<leftarrow> rehash ok (if old = NULL then insert_elem h bucket new else h);
     Some (old, h) }"

definition hash_replace :: "bool \<Rightarrow> addr \<Rightarrow> hash \<Rightarrow> (addr \<times> hash) option" where
  "hash_replace ok new h = do {
     let bucket = find_bucket h new;
     let old = find_elem h bucket new;
     let h = (if old \<noteq> NULL then remove_elem h old else h);
     h \<leftarrow> rehash ok (insert_elem h bucket new);
     Some (old, h) }"

definition hash_find :: "addr \<Rightarrow> hash \<Rightarrow> addr" where
  "hash_find e h = find_elem h (find_bucket h e) e"

definition hash_delete :: "bool \<Rightarrow> addr \<Rightarrow> hash \<Rightarrow> (addr \<times> hash) option" where
  "hash_delete ok e h = do {
     let found = find_elem h (find_bucket h e) e;
     if found \<noteq> NULL then do { h \<leftarrow> rehash ok (remove_elem h found); Some (found, h) }
     else Some (found, h) }"

definition hash_apply :: "(addr \<Rightarrow> 's \<Rightarrow> 's option) \<Rightarrow> hash \<Rightarrow> 's \<Rightarrow> 's option" where
  "hash_apply action h s = for_upto 0 (bucket_cnt h)
     (\<lambda>i s. for_upto 0 (length (buckets h ! i)) (\<lambda>j. action (buckets h ! i ! j)) s) s"

definition hash_size :: "hash \<Rightarrow> nat" where "hash_size h = hash_elem_cnt h"

definition hash_empty :: "hash \<Rightarrow> bool" where "hash_empty h \<longleftrightarrow> hash_elem_cnt h = 0"

text \<open>An iterator: a bucket and a place in it; place 0 is the list's head, the last place its tail.\<close>

record hash_iterator =
  it_bucket :: nat
  it_place :: nat

definition hash_first :: "hash_iterator" where
  "hash_first = \<lparr>it_bucket = 0, it_place = 0\<rparr>"

function hash_next_loop :: "hash \<Rightarrow> hash_iterator \<Rightarrow> hash_iterator option" where
  "hash_next_loop h i =
     (if it_place i = length (buckets h ! it_bucket i) + 1 then
        (if it_bucket i + 1 \<ge> bucket_cnt h then None
         else hash_next_loop h \<lparr>it_bucket = it_bucket i + 1, it_place = 1\<rparr>)
      else Some i)"
  by pat_completeness auto
termination by (relation "measure (\<lambda>(h, i). bucket_cnt h - it_bucket i)") auto

declare hash_next_loop.simps [simp del]

definition hash_next :: "hash \<Rightarrow> hash_iterator \<Rightarrow> hash_iterator option" where
  "hash_next h i = hash_next_loop h (i\<lparr>it_place := it_place i + 1\<rparr>)"

definition hash_cur :: "hash \<Rightarrow> hash_iterator \<Rightarrow> addr" where
  "hash_cur h i = buckets h ! it_bucket i ! (it_place i - 1)"

section \<open>Powers of two\<close>

lemma and_nat_le: "(x :: nat) AND y \<le> y"
proof -
  have "int (x AND y) \<le> int y" unfolding of_nat_and_eq by (rule AND_upper2) simp
  then show ?thesis by simp
qed

lemma turn_off_less: "x \<noteq> 0 \<Longrightarrow> turn_off_least_1bit x < x"
  using and_nat_le[of x "x - 1"] by (simp add: turn_off_least_1bit_def)

lemma is_power_of_2_exp: "is_power_of_2 x \<longleftrightarrow> (\<exists>k. x = 2 ^ k)"
proof
  show "\<exists>k. x = 2 ^ k" if "is_power_of_2 x"
    using that
  proof (induction x rule: nat_bit_induct)
    case (even n)
    have "(2 * n) AND (2 * n - 1) = 2 * (n AND (n - 1))" if nz: "n \<noteq> 0"
    proof -
      obtain m where "n = Suc m" using nz by (cases n) auto
      moreover have "2 * Suc m - 1 = Suc (2 * m)" by simp
      ultimately show ?thesis by (subst and_rec) (simp del: mult_Suc_right)
    qed
    with even have "is_power_of_2 n" by (auto simp: is_power_of_2_def turn_off_least_1bit_def)
    with even.IH obtain k where "n = 2 ^ k" by blast
    then have "2 * n = 2 ^ Suc k" by simp
    then show ?case by blast
  next
    case (odd n)
    have "Suc (2 * n) AND 2 * n = 2 * n" by (subst and_rec) simp
    then have "n = 0" using odd by (simp add: is_power_of_2_def turn_off_least_1bit_def)
    then show ?case by (intro exI[of _ 0]) simp
  qed (simp add: is_power_of_2_def)
  show "is_power_of_2 x" if "\<exists>k. x = 2 ^ k"
  proof -
    from that obtain k where "x = 2 ^ k" by blast
    moreover have "(2 ^ k :: nat) AND (2 ^ k - 1) = 0"
      by (metis bits_mod_div_trivial mask_eq_exp_minus_1 mod_self take_bit_eq_mask take_bit_eq_mod)
    ultimately show ?thesis by (simp add: is_power_of_2_def turn_off_least_1bit_def)
  qed
qed

lemma to_power_of_2_total:
  "0 < x \<Longrightarrow> \<exists>k. to_power_of_2 x = Some (2 ^ k) \<and> 2 ^ k \<le> x"
proof (induction x rule: less_induct)
  case (less x)
  show ?case
  proof (cases "is_power_of_2 x")
    case True
    then obtain k where "x = 2 ^ k" using is_power_of_2_exp by blast
    then show ?thesis using True by (subst to_power_of_2.simps) auto
  next
    case False
    then have t: "0 < turn_off_least_1bit x" "turn_off_least_1bit x < x"
      using less.prems turn_off_less by (auto simp: is_power_of_2_def)
    then obtain k where "to_power_of_2 (turn_off_least_1bit x) = Some (2 ^ k)" "2 ^ k \<le> turn_off_least_1bit x"
      using less.IH by blast
    then show ?thesis using False t(2) by (subst to_power_of_2.simps) (auto intro: le_trans less_imp_le)
  qed
qed

section \<open>Invariant\<close>

definition in_bucket :: "hash \<Rightarrow> bool" where
  "in_bucket h \<longleftrightarrow> (\<forall>b < length (buckets h). \<forall>e \<in> set (buckets h ! b). find_bucket h e = b)"

definition elems :: "hash \<Rightarrow> addr set" where "elems h = set (concat (buckets h))"

definition hash_ok :: "hash \<Rightarrow> bool" where
  "hash_ok h \<longleftrightarrow> length (buckets h) = bucket_cnt h \<and> is_power_of_2 (bucket_cnt h)
     \<and> distinct (concat (buckets h)) \<and> hash_elem_cnt h = length (concat (buckets h)) \<and> in_bucket h \<and> NULL \<notin> elems h"

lemma find_bucket_lt: "0 < bucket_cnt h \<Longrightarrow> find_bucket h e < bucket_cnt h"
  using and_nat_le[of "unat (hash_fn h e)" "bucket_cnt h - 1"] by (simp add: find_bucket_def)

lemma find_bucket_cong:
  "bucket_cnt g = bucket_cnt h \<Longrightarrow> hash_fn g = hash_fn h \<Longrightarrow> find_bucket g = find_bucket h"
  by (simp add: find_bucket_def fun_eq_iff)

lemma mset_push_bucket:
  "b < length bs \<Longrightarrow> mset (concat (push_bucket b e bs)) = add_mset e (mset (concat bs))"
  unfolding push_bucket_def
  by (induction bs arbitrary: b) (auto simp: nth_Cons' less_Suc_eq_0_disj split: nat.splits)

lemma nth_push_bucket: "b < length bs \<Longrightarrow> push_bucket b e bs ! c = (if b = c then e # bs ! c else bs ! c)"
  by (simp add: push_bucket_def nth_list_update)

lemma length_push_bucket [simp]: "length (push_bucket b e bs) = length bs"
  by (simp add: push_bucket_def)

lemma fold_push:
  assumes "\<And>e. f e < n" "length bs = n" "\<forall>b < n. \<forall>e \<in> set (bs ! b). f e = b"
  shows "length (fold (\<lambda>e. push_bucket (f e) e) xs bs) = n
    \<and> mset (concat (fold (\<lambda>e. push_bucket (f e) e) xs bs)) = mset xs + mset (concat bs)
    \<and> (\<forall>b < n. \<forall>e \<in> set (fold (\<lambda>e. push_bucket (f e) e) xs bs ! b). f e = b)"
  using assms(2,3)
proof (induction xs arbitrary: bs)
  case (Cons x xs)
  have fx: "f x < length bs" using assms(1) Cons.prems(1) by simp
  have "\<forall>b < n. \<forall>e \<in> set (push_bucket (f x) x bs ! b). f e = b"
    using Cons.prems nth_push_bucket[OF fx] by auto
  note ih = Cons.IH[OF _ this, unfolded length_push_bucket, OF Cons.prems(1)]
  have eq: "mset xs + mset (concat (push_bucket (f x) x bs)) = mset (x # xs) + mset (concat bs)"
    unfolding mset_push_bucket[OF fx] by simp
  show ?case unfolding fold_simps by (rule ih[unfolded eq])
qed simp

lemma rehash_ok:
  assumes "hash_ok h"
  shows "\<exists>h'. rehash ok h = Some h' \<and> hash_ok h' \<and> elems h' = elems h
    \<and> hash_fn h' = hash_fn h \<and> less_fn h' = less_fn h"
proof -
  let ?n = "hash_elem_cnt h div BEST_ELEMS_PER_BUCKET"
  have "0 < (if ?n < 4 then 4 else ?n)" by simp
  then obtain k where k: "to_power_of_2 (if ?n < 4 then 4 else ?n) = Some (2 ^ k)"
    using to_power_of_2_total by blast
  show ?thesis
  proof (cases "2 ^ k = bucket_cnt h \<or> \<not> ok")
    case True
    then show ?thesis using assms k by (auto simp: rehash_def Let_def)
  next
    case False
    define g where "g = h\<lparr>buckets := replicate (2 ^ k) [], bucket_cnt := 2 ^ k\<rparr>"
    define bs where "bs = fold (\<lambda>e. push_bucket (find_bucket g e) e) (concat (buckets h)) (buckets g)"
    have lt: "find_bucket g e < 2 ^ k" for e using find_bucket_lt[of g e] by (simp add: g_def)
    have f: "length bs = 2 ^ k" "mset (concat bs) = mset (concat (buckets h))"
      "\<forall>b < 2 ^ k. \<forall>e \<in> set (bs ! b). find_bucket g e = b"
      using fold_push[of "find_bucket g" "2 ^ k" "buckets g" "concat (buckets h)"] lt
      by (simp_all add: bs_def g_def del: mset_concat)
    have r: "rehash ok h = Some (g\<lparr>buckets := bs\<rparr>)"
      using k False by (simp add: rehash_def Let_def g_def bs_def)
    have "find_bucket (g\<lparr>buckets := bs\<rparr>) = find_bucket g" by (rule find_bucket_cong) simp_all
    moreover have "set (concat bs) = set (concat (buckets h))" using f(2) by (metis set_mset_mset)
    moreover have "distinct (concat bs)" "length (concat bs) = length (concat (buckets h))"
      using assms f(2) mset_eq_imp_distinct_iff[OF f(2)] mset_eq_length[OF f(2)] by (simp_all add: hash_ok_def)
    ultimately have "hash_ok (g\<lparr>buckets := bs\<rparr>)" "elems (g\<lparr>buckets := bs\<rparr>) = elems h"
      using assms f is_power_of_2_exp[of "2 ^ k"]
      unfolding hash_ok_def in_bucket_def elems_def by (auto simp: g_def simp del: set_concat)
    then show ?thesis using r by (auto simp: g_def)
  qed
qed

lemma insert_elem_ok:
  assumes "hash_ok h" "e \<notin> elems h" "e \<noteq> NULL"
  shows "hash_ok (insert_elem h (find_bucket h e) e)" "elems (insert_elem h (find_bucket h e) e) = insert e (elems h)"
proof -
  let ?b = "find_bucket h e" and ?h = "insert_elem h (find_bucket h e) e"
  have b: "?b < length (buckets h)"
    using find_bucket_lt[of h e] assms(1) by (simp add: hash_ok_def is_power_of_2_def)
  have m: "mset (concat (buckets ?h)) = add_mset e (mset (concat (buckets h)))"
    using mset_push_bucket[OF b] by (simp add: insert_elem_def)
  then have m': "mset (concat (buckets ?h)) = mset (e # concat (buckets h))" by simp
  have s: "set (concat (buckets ?h)) = insert e (set (concat (buckets h)))"
    using arg_cong[OF m', of set_mset] by (simp only: set_mset_mset list.set)
  then show el: "elems ?h = insert e (elems h)" by (simp add: elems_def)
  have "find_bucket ?h = find_bucket h" by (rule find_bucket_cong) (simp_all add: insert_elem_def)
  then have "in_bucket ?h"
    using assms(1) nth_push_bucket[OF b] by (auto simp: in_bucket_def hash_ok_def insert_elem_def)
  moreover have "distinct (concat (buckets ?h))" "length (concat (buckets ?h)) = Suc (length (concat (buckets h)))"
    using mset_eq_imp_distinct_iff[OF m'] mset_eq_length[OF m'] assms(1,2) by (simp_all add: hash_ok_def elems_def)
  ultimately show "hash_ok ?h"
    using assms el unfolding hash_ok_def by (auto simp: insert_elem_def)
qed

lemma diff_one_add:
  "count M e = 0 \<or> count N e = 0 \<Longrightarrow> M - {#e#} + (N - {#e#}) = M + N - {#e#}"
  by (auto simp: multiset_eq_iff)

lemma concat_remove1:
  "distinct (concat bs) \<Longrightarrow> mset (concat (map (remove1 e) bs)) = mset (concat bs) - {#e#}"
proof (induction bs)
  case (Cons a bs)
  then have "e \<notin> set a \<or> e \<notin> set (concat bs)" by auto
  then have "count (mset a) e = 0 \<or> count (mset (concat bs)) e = 0" by (metis count_mset_0_iff)
  then have "mset a - {#e#} + (mset (concat bs) - {#e#}) = mset a + mset (concat bs) - {#e#}"
    by (rule diff_one_add)
  then show ?case using Cons by (simp del: mset_concat)
qed simp

lemma remove_elem_ok:
  assumes "hash_ok h" "e \<in> elems h"
  shows "hash_ok (remove_elem h e)" "elems (remove_elem h e) = elems h - {e}"
proof -
  let ?h = "remove_elem h e"
  have d: "distinct (concat (buckets h))" using assms(1) by (simp add: hash_ok_def)
  have m: "mset (concat (buckets ?h)) = mset (remove1 e (concat (buckets h)))"
    using concat_remove1[OF d] by (simp add: remove_elem_def)
  have s: "set (concat (buckets ?h)) = set (concat (buckets h)) - {e}"
    using arg_cong[OF m, of set_mset] d by (simp only: set_mset_mset set_remove1_eq)
  then show el: "elems ?h = elems h - {e}" by (simp add: elems_def)
  have "find_bucket ?h = find_bucket h" by (rule find_bucket_cong) (simp_all add: remove_elem_def)
  then have "in_bucket ?h"
    using assms(1) notin_set_remove1 by (fastforce simp: in_bucket_def hash_ok_def remove_elem_def)
  moreover have "distinct (concat (buckets ?h))" "length (concat (buckets ?h)) = length (concat (buckets h)) - 1"
    using mset_eq_imp_distinct_iff[OF m] mset_eq_length[OF m] d assms(2) by (simp_all add: elems_def length_remove1 del: set_concat)
  ultimately show "hash_ok ?h"
    using assms el unfolding hash_ok_def by (simp add: remove_elem_def)
qed

lemma hash_init_ok: "hash_ok (snd (hash_init True hf lf))" "elems (snd (hash_init True hf lf)) = {}"
  "hash_fn (snd (hash_init True hf lf)) = hf" "less_fn (snd (hash_init True hf lf)) = lf"
proof -
  have "is_power_of_2 4" by code_simp
  then show "hash_ok (snd (hash_init True hf lf))" "elems (snd (hash_init True hf lf)) = {}"
    "hash_fn (snd (hash_init True hf lf)) = hf" "less_fn (snd (hash_init True hf lf)) = lf"
    by (simp_all add: hash_init_def hash_clear_def hash_ok_def elems_def in_bucket_def MIN_BUCKETS_def)
qed

section \<open>A finite map\<close>

text \<open>The table as a map: the element that has the key.\<close>

definition table_map :: "(addr \<Rightarrow> 'k) \<Rightarrow> hash \<Rightarrow> 'k \<Rightarrow> addr option" where
  "table_map key h k = find (\<lambda>e. key e = k) (concat (buckets h))"

lemma table_map_init: "table_map key (snd (hash_init True hf lf)) = Map.empty"
  by (simp add: table_map_def hash_init_def hash_clear_def fun_eq_iff)

lemma elems_set: "elems h = set (concat (buckets h))"
  by (simp add: elems_def)

locale hashing =
  fixes key :: "addr \<Rightarrow> 'k :: linorder" and hf :: "addr \<Rightarrow> 32 word" and lf :: "addr \<Rightarrow> addr \<Rightarrow> bool"
  assumes less_key: "lf a b \<longleftrightarrow> key a < key b"
    and hash_key: "key a = key b \<Longrightarrow> hf a = hf b"
begin

definition keyed :: "hash \<Rightarrow> bool" where
  "keyed h \<longleftrightarrow> hash_ok h \<and> hash_fn h = hf \<and> less_fn h = lf \<and> inj_on key (elems h)"

abbreviation hash_map :: "hash \<Rightarrow> 'k \<Rightarrow> addr option" where
  "hash_map \<equiv> table_map key"

lemma hash_map_Some:
  assumes "keyed h" shows "hash_map h k = Some e \<longleftrightarrow> e \<in> elems h \<and> key e = k"
proof
  have found: "x \<in> elems h \<and> key x = k" if "hash_map h k = Some x" for x
    using that unfolding table_map_def find_Some_iff elems_set by (metis nth_mem)
  then show "hash_map h k = Some e \<Longrightarrow> e \<in> elems h \<and> key e = k" .
  assume e: "e \<in> elems h \<and> key e = k"
  then have "hash_map h k \<noteq> None" unfolding table_map_def find_None_iff elems_set by blast
  then obtain x where x: "hash_map h k = Some x" by blast
  then have "x = e" using found[OF x] e assms unfolding keyed_def by (metis inj_onD)
  then show "hash_map h k = Some e" using x by simp
qed

lemma hash_map_None: "hash_map h k = None \<longleftrightarrow> (\<forall>e \<in> elems h. key e \<noteq> k)"
  by (auto simp: table_map_def find_None_iff elems_set simp del: set_concat)

lemma find_elem_map:
  assumes "keyed h" shows "find_elem h (find_bucket h e) e = (case hash_map h (key e) of Some x \<Rightarrow> x | None \<Rightarrow> NULL)"
proof -
  let ?b = "find_bucket h e"
  have h: "hash_ok h" "hash_fn h = hf" "less_fn h = lf" using assms by (simp_all add: keyed_def)
  have b: "?b < length (buckets h)"
    using find_bucket_lt[of h e] h(1) by (simp add: hash_ok_def is_power_of_2_def)
  have eq: "(\<not> lf x e \<and> \<not> lf e x) \<longleftrightarrow> key x = key e" for x by (auto simp: less_key)
  have fe: "find_elem h ?b e = (case find (\<lambda>x. key x = key e) (buckets h ! ?b) of Some x \<Rightarrow> x | None \<Rightarrow> NULL)"
    unfolding find_elem_def h(3) eq ..
  show ?thesis
  proof (cases "find (\<lambda>x. key x = key e) (buckets h ! ?b)")
    case None
    have "key x \<noteq> key e" if x: "x \<in> elems h" for x
    proof
      assume k: "key x = key e"
      have "find_bucket h x = ?b" using hash_key[OF k] h(2) by (simp add: find_bucket_def)
      moreover obtain ys where "ys \<in> set (buckets h)" "x \<in> set ys" using x by (auto simp: elems_def)
      moreover from this(1) obtain c where "c < length (buckets h)" "buckets h ! c = ys"
        by (auto simp: in_set_conv_nth)
      ultimately have "x \<in> set (buckets h ! ?b)" using h(1) by (auto simp: hash_ok_def in_bucket_def)
      then show False using None k by (simp add: find_None_iff)
    qed
    then have "hash_map h (key e) = None" by (simp only: hash_map_None) blast
    then show ?thesis using None by (simp add: fe)
  next
    case (Some x)
    then have "x \<in> set (buckets h ! ?b)" "key x = key e" by (auto simp: find_Some_iff)
    then have "hash_map h (key e) = Some x" using b by (auto simp: hash_map_Some[OF assms] elems_def)
    then show ?thesis using Some by (simp add: fe)
  qed
qed

lemma keyed_rehash:
  assumes "keyed h"
  shows "\<exists>h'. rehash ok h = Some h' \<and> keyed h' \<and> elems h' = elems h \<and> hash_map h' = hash_map h"
proof -
  obtain h' where h': "rehash ok h = Some h'" "hash_ok h'" "elems h' = elems h" "hash_fn h' = hf" "less_fn h' = lf"
    using rehash_ok[of h ok] assms by (auto simp: keyed_def)
  then have "keyed h'" using assms by (simp add: keyed_def)
  moreover from this have "hash_map h' k = Some e \<longleftrightarrow> hash_map h k = Some e" for k e
    using h'(3) assms by (simp add: hash_map_Some)
  ultimately show ?thesis using h' by (metis ext option.exhaust)
qed

lemma keyed_remove:
  assumes "keyed h" "hash_map h k = Some x"
  shows "keyed (remove_elem h x) \<and> hash_map (remove_elem h x) = (hash_map h)(k := None) \<and> elems (remove_elem h x) = elems h - {x}"
proof -
  have x: "x \<in> elems h" "key x = k" using assms hash_map_Some by auto
  have h: "hash_ok h" "hash_fn h = hf" "less_fn h = lf" "inj_on key (elems h)" using assms(1) by (simp_all add: keyed_def)
  note r = remove_elem_ok[OF h(1) x(1)]
  have kk: "keyed (remove_elem h x)"
    using r h by (auto simp: keyed_def remove_elem_def intro: inj_on_subset)
  have "hash_map (remove_elem h x) k' = Some y \<longleftrightarrow> ((hash_map h)(k := None)) k' = Some y" for k' y
    using hash_map_Some[OF kk] hash_map_Some[OF assms(1)] r(2) x h(4) by (auto simp: inj_on_def)
  then show ?thesis using kk r(2) by (metis ext option.exhaust)
qed

lemma keyed_insert:
  assumes "keyed h" "hash_map h (key e) = None" "e \<noteq> NULL"
  shows "keyed (insert_elem h (find_bucket h e) e)
    \<and> hash_map (insert_elem h (find_bucket h e) e) = (hash_map h)(key e \<mapsto> e)"
proof -
  have n: "\<forall>x \<in> elems h. key x \<noteq> key e" using assms(2) by (simp add: hash_map_None)
  have h: "hash_ok h" "hash_fn h = hf" "less_fn h = lf" "inj_on key (elems h)" using assms(1) by (simp_all add: keyed_def)
  have "e \<notin> elems h" using n by blast
  note r = insert_elem_ok[OF h(1) this assms(3)]
  have kk: "keyed (insert_elem h (find_bucket h e) e)"
    using r h n by (auto simp: keyed_def insert_elem_def)
  have "hash_map (insert_elem h (find_bucket h e) e) k = Some y \<longleftrightarrow> ((hash_map h)(key e \<mapsto> e)) k = Some y" for k y
    using hash_map_Some[OF kk] hash_map_Some[OF assms(1)] r(2) n by auto
  then show ?thesis using kk by (metis ext option.exhaust)
qed

lemma hash_find_map: "keyed h \<Longrightarrow> hash_find e h = (case hash_map h (key e) of Some x \<Rightarrow> x | None \<Rightarrow> NULL)"
  by (simp add: hash_find_def find_elem_map)

lemma map_nonnull: "keyed h \<Longrightarrow> hash_map h k = Some x \<Longrightarrow> x \<noteq> NULL"
  using hash_map_Some unfolding keyed_def hash_ok_def by metis

lemma hash_insert_map:
  assumes "keyed h" "e \<noteq> NULL"
  shows "\<exists>h'. keyed h' \<and> (case hash_map h (key e) of
      Some x \<Rightarrow> hash_insert ok e h = Some (x, h') \<and> hash_map h' = hash_map h
    | None \<Rightarrow> hash_insert ok e h = Some (NULL, h') \<and> hash_map h' = (hash_map h)(key e \<mapsto> e))"
proof (cases "hash_map h (key e)")
  case None
  obtain h' where "rehash ok (insert_elem h (find_bucket h e) e) = Some h'" "keyed h'"
    "hash_map h' = hash_map (insert_elem h (find_bucket h e) e)"
    using keyed_rehash keyed_insert[OF assms(1) None assms(2)] by blast
  then show ?thesis using None keyed_insert[OF assms(1) None assms(2)] find_elem_map[OF assms(1), of e]
    by (auto simp: hash_insert_def)
next
  case (Some x)
  obtain h' where "rehash ok h = Some h'" "keyed h'" "hash_map h' = hash_map h"
    using keyed_rehash[OF assms(1)] by blast
  then show ?thesis using Some map_nonnull[OF assms(1) Some] find_elem_map[OF assms(1), of e]
    by (auto simp: hash_insert_def)
qed

lemma hash_delete_map:
  assumes "keyed h"
  shows "\<exists>h'. keyed h' \<and> hash_map h' = (hash_map h)(key e := None)
    \<and> hash_delete ok e h = Some (case hash_map h (key e) of Some x \<Rightarrow> x | None \<Rightarrow> NULL, h')"
proof (cases "hash_map h (key e)")
  case None
  then have "(hash_map h)(key e := None) = hash_map h" by auto
  then show ?thesis using None assms find_elem_map[OF assms, of e] by (auto simp: hash_delete_def)
next
  case (Some x)
  obtain h' where "rehash ok (remove_elem h x) = Some h'" "keyed h'" "hash_map h' = hash_map (remove_elem h x)"
    using keyed_rehash keyed_remove[OF assms Some] by blast
  then show ?thesis using Some map_nonnull[OF assms Some] find_elem_map[OF assms, of e] keyed_remove[OF assms Some]
    by (auto simp: hash_delete_def)
qed

lemma hash_replace_map:
  assumes "keyed h" "e \<noteq> NULL"
  shows "\<exists>h'. keyed h' \<and> hash_map h' = (hash_map h)(key e \<mapsto> e)
    \<and> hash_replace ok e h = Some (case hash_map h (key e) of Some x \<Rightarrow> x | None \<Rightarrow> NULL, h')"
proof -
  define g where "g = (case hash_map h (key e) of Some x \<Rightarrow> remove_elem h x | None \<Rightarrow> h)"
  have fr: "find_bucket (remove_elem h x) = find_bucket h" for x
    by (rule find_bucket_cong) (simp_all add: remove_elem_def)
  have g: "keyed g" "hash_map g = (hash_map h)(key e := None)" "find_bucket g = find_bucket h"
    using assms(1) keyed_remove[OF assms(1)] fr by (auto simp: g_def fun_upd_idem split: option.splits)
  have d: "hash_replace ok e h = do { h' \<leftarrow> rehash ok (insert_elem g (find_bucket h e) e);
      Some (case hash_map h (key e) of Some x \<Rightarrow> x | None \<Rightarrow> NULL, h') }"
  proof (cases "hash_map h (key e)")
    case None
    then show ?thesis using find_elem_map[OF assms(1), of e] by (simp add: hash_replace_def g_def)
  next
    case (Some x)
    have "x \<noteq> 0" using map_nonnull[OF assms(1) Some] .
    then show ?thesis using Some find_elem_map[OF assms(1), of e] by (simp add: hash_replace_def g_def)
  qed
  have i: "keyed (insert_elem g (find_bucket g e) e)"
    "hash_map (insert_elem g (find_bucket g e) e) = (hash_map h)(key e \<mapsto> e)"
    using keyed_insert[of g e] assms(2) g by simp_all
  obtain h' where "rehash ok (insert_elem g (find_bucket g e) e) = Some h'" "keyed h'"
    "hash_map h' = (hash_map h)(key e \<mapsto> e)" using keyed_rehash[OF i(1)] i(2) by metis
  then show ?thesis using g(3) d by auto
qed

end

text \<open>
  The two kinds of tables the hash functions of the library are made for: elements told apart by a string,
  hashed with \<open>hash_string\<close> and compared as \<open>strcmp\<close> does, and elements told apart by their address, hashed
  with \<open>hash_int\<close>.
\<close>

interpretation string_hash: hashing name "\<lambda>e. hash_string (name e)" "\<lambda>a b. name a < name b"
  for name :: "addr \<Rightarrow> 8 word list"
  by unfold_locales auto

interpretation int_hash: hashing "\<lambda>e. e" "\<lambda>e. hash_int (word_of_nat e)" "(<)"
  by unfold_locales auto

end
