(* ===== verification/Queues.thy ===== *)
theory Queues
  imports SchedInv
begin

text \<open>
  The contract of a queue whose users put elements in and take them out again, as locales, and its
  interpretation on the two ready queues of threads/thread.c.  The lemmas of the locales say that no
  element is lost or doubled, that a FIFO queue returns the elements in the order they came, and
  that a priority queue returns them in descending rank.
\<close>

section \<open>Contracts\<close>

primrec drain :: "('q \<Rightarrow> ('e \<times> 'q) option) \<Rightarrow> nat \<Rightarrow> 'q \<Rightarrow> 'e list \<times> 'q" where
  "drain get 0 q = ([], q)"
| "drain get (Suc n) q = (case get q of
       None \<Rightarrow> ([], q)
     | Some (e, q') \<Rightarrow> (let (es, q'') = drain get n q' in (e # es, q'')))"

locale waiting_queue =
  fixes qinv :: "'q \<Rightarrow> bool"
    and room :: "'q \<Rightarrow> 'e \<Rightarrow> bool"
    and put :: "'q \<Rightarrow> 'e \<Rightarrow> 'q"
    and get :: "'q \<Rightarrow> ('e \<times> 'q) option"
    and elems :: "'q \<Rightarrow> 'e list"
  assumes put_inv: "qinv q \<Longrightarrow> room q e \<Longrightarrow> qinv (put q e)"
    and put_elems: "qinv q \<Longrightarrow> room q e \<Longrightarrow> mset (elems (put q e)) = add_mset e (mset (elems q))"
    and get_None: "qinv q \<Longrightarrow> get q = None \<longleftrightarrow> elems q = []"
    and get_Some: "qinv q \<Longrightarrow> get q = Some (e, q') \<Longrightarrow> qinv q' \<and> elems q = e # elems q'"
begin

lemma drain_all: "qinv q \<Longrightarrow> fst (drain get (length (elems q)) q) = elems q
    \<and> qinv (snd (drain get (length (elems q)) q)) \<and> elems (snd (drain get (length (elems q)) q)) = []"
proof (induction "length (elems q)" arbitrary: q)
  case 0
  then show ?case by simp
next
  case (Suc n)
  then have "get q \<noteq> None" using get_None[OF Suc.prems] by auto
  then obtain e q' where g: "get q = Some (e, q')" by auto
  note s = get_Some[OF Suc.prems g]
  then have "n = length (elems q')" using Suc.hyps(2) by simp
  then have IH: "fst (drain get n q') = elems q'" "qinv (snd (drain get n q'))" "elems (snd (drain get n q')) = []"
    using Suc.hyps(1)[of q'] s by simp_all
  have "drain get (length (elems q)) q = (e # fst (drain get n q'), snd (drain get n q'))"
    using g Suc.hyps(2) by (simp add: split_beta flip: Suc.hyps(2))
  then show ?case using IH s by simp
qed

lemma drain_same: "qinv q \<Longrightarrow> mset (fst (drain get (length (elems q)) q)) = mset (elems q)"
  using drain_all by simp

end

locale fifo_queue = waiting_queue +
  assumes put_last: "qinv q \<Longrightarrow> room q e \<Longrightarrow> elems (put q e) = elems q @ [e]"
begin

lemma fold_put:
  assumes "qinv q" "\<And>ys y zs. xs = ys @ y # zs \<Longrightarrow> qinv (fold (\<lambda>e q. put q e) ys q) \<Longrightarrow>
      elems (fold (\<lambda>e q. put q e) ys q) = elems q @ ys \<Longrightarrow> room (fold (\<lambda>e q. put q e) ys q) y"
  shows "qinv (fold (\<lambda>e q. put q e) xs q) \<and> elems (fold (\<lambda>e q. put q e) xs q) = elems q @ xs"
  using assms(2)
proof (induction xs rule: rev_induct)
  case Nil
  then show ?case using assms(1) by simp
next
  case (snoc x xs)
  have IH: "qinv (fold (\<lambda>e q. put q e) xs q) \<and> elems (fold (\<lambda>e q. put q e) xs q) = elems q @ xs"
    by (rule snoc.IH) (use snoc.prems in auto)
  then have "room (fold (\<lambda>e q. put q e) xs q) x" using snoc.prems[of xs x "[]"] by simp
  then show ?case using IH put_inv put_last by simp
qed

lemma roundtrip:
  assumes "qinv q" "elems q = []" "\<And>ys y zs. xs = ys @ y # zs \<Longrightarrow> qinv (fold (\<lambda>e q. put q e) ys q) \<Longrightarrow>
      elems (fold (\<lambda>e q. put q e) ys q) = ys \<Longrightarrow> room (fold (\<lambda>e q. put q e) ys q) y"
  shows "fst (drain get (length xs) (fold (\<lambda>e q. put q e) xs q)) = xs"
proof -
  have "qinv (fold (\<lambda>e q. put q e) xs q) \<and> elems (fold (\<lambda>e q. put q e) xs q) = elems q @ xs"
    by (rule fold_put) (use assms in auto)
  then show ?thesis using drain_all[of "fold (\<lambda>e q. put q e) xs q"] assms(2) by simp
qed

end

locale rank_queue = waiting_queue +
  fixes rank :: "'b \<Rightarrow> int"
  assumes sorted: "qinv q \<Longrightarrow> prio_sorted rank (elems q)"
begin

lemma get_max: "qinv q \<Longrightarrow> get q = Some (e, q') \<Longrightarrow> \<forall>x \<in> set (elems q). rank x \<le> rank e"
  using sorted[of q] get_Some[of q e q'] by simp

lemma drain_sorted: "qinv q \<Longrightarrow> prio_sorted rank (fst (drain get (length (elems q)) q))"
  using drain_all sorted by simp

end

section \<open>The ready queues\<close>

definition enqueue :: "kernel \<Rightarrow> addr \<Rightarrow> kernel" where
  "enqueue k t = (case thread_enqueue t k of Some k' \<Rightarrow> k' | None \<Rightarrow> k)"

definition dequeue_fifo :: "kernel \<Rightarrow> (addr \<times> kernel) option" where
  "dequeue_fifo k = (if fifo_ready_list k = [] then None else Some (thread_schedule_fifo k))"

definition dequeue_prio :: "kernel \<Rightarrow> (addr \<times> kernel) option" where
  "dequeue_prio k = (if priority_queue k = [] then None else Some (thread_schedule_prio k))"

text \<open>The queues relative to a fixed table of threads.\<close>

definition fifo_inv :: "kernel \<Rightarrow> bool" where
  "fifo_inv k \<longleftrightarrow> active_sched_policy k = SCHED_FIFO"

definition prio_inv :: "(addr \<Rightarrow> thread option) \<Rightarrow> kernel \<Rightarrow> bool" where
  "prio_inv T k \<longleftrightarrow> active_sched_policy k = SCHED_PRIO \<and> threads k = T
     \<and> prio_sorted (eff k) (priority_queue k)"

definition table_eff :: "(addr \<Rightarrow> thread option) \<Rightarrow> addr \<Rightarrow> int" where
  "table_eff T t = (case T t of Some th \<Rightarrow> effective_priority th | None \<Rightarrow> 0)"

lemma eff_table: "threads k = T \<Longrightarrow> eff k = table_eff T"
  by (auto simp: eff_def table_eff_def fun_eq_iff)

interpretation fifo_ready: fifo_queue fifo_inv "\<lambda>k t. is_thread t k" enqueue dequeue_fifo fifo_ready_list
  by unfold_locales
    (auto simp: fifo_inv_def enqueue_def thread_enqueue_def dequeue_fifo_def thread_schedule_fifo_def
      split: list.splits if_splits)

lemma prio_queue_laws:
  assumes "prio_inv T k"
  shows "is_thread t k \<Longrightarrow> prio_inv T (enqueue k t) \<and>
      mset (priority_queue (enqueue k t)) = add_mset t (mset (priority_queue k))"
    "dequeue_prio k = None \<longleftrightarrow> priority_queue k = []"
    "dequeue_prio k = Some (e, k') \<Longrightarrow> prio_inv T k' \<and> priority_queue k = e # priority_queue k'"
    "prio_sorted (table_eff T) (priority_queue k)"
proof -
  have p: "active_sched_policy k = SCHED_PRIO" "threads k = T" "prio_sorted (eff k) (priority_queue k)"
    using assms by (simp_all add: prio_inv_def)
  show "prio_sorted (table_eff T) (priority_queue k)" using p(3) eff_table[OF p(2)] by simp
  show "dequeue_prio k = None \<longleftrightarrow> priority_queue k = []" by (simp add: dequeue_prio_def)
  show "dequeue_prio k = Some (e, k') \<Longrightarrow> prio_inv T k' \<and> priority_queue k = e # priority_queue k'"
    using p by (auto simp: dequeue_prio_def thread_schedule_prio_def prio_inv_def split: list.splits if_splits)
  assume t: "is_thread t k"
  have "prio_sorted (eff k) (insert_ordered (thread_priority_comparator k) t (priority_queue k))"
    by (rule insert_ordered_prio[OF p(3)]) (simp add: thread_priority_comparator_def)
  then show "prio_inv T (enqueue k t) \<and>
      mset (priority_queue (enqueue k t)) = add_mset t (mset (priority_queue k))"
    using p t by (simp add: enqueue_def thread_enqueue_def prio_inv_def)
qed

interpretation prio_ready: rank_queue "prio_inv T" "\<lambda>k t. is_thread t k" enqueue dequeue_prio
    "priority_queue" "table_eff T" for T
  by unfold_locales (use prio_queue_laws in blast)+

text \<open>What the interpretations say of the scheduler.\<close>

lemma ready_queue_drained:
  assumes "queue_inv k"
  shows "fst (drain dequeue_prio (length (priority_queue k)) k) = priority_queue k
    \<and> prio_sorted (eff k) (fst (drain dequeue_prio (length (priority_queue k)) k))"
proof -
  have i: "prio_inv (threads k) k" using assms by (simp add: queue_inv_def prio_inv_def)
  show ?thesis
    using prio_ready.drain_all[OF i] prio_ready.drain_sorted[OF i] eff_table[of k "threads k"] by simp
qed

lemma fifo_roundtrip:
  assumes "active_sched_policy k = SCHED_FIFO" "fifo_ready_list k = []" "\<forall>t \<in> set ts. is_thread t k"
  shows "fst (drain dequeue_fifo (length ts) (fold (\<lambda>t k. enqueue k t) ts k)) = ts"
proof -
  have fi: "fifo_inv k" using assms(1) by (simp add: fifo_inv_def)
  have thr: "threads (fold (\<lambda>t k. enqueue k t) ys k1) = threads k1" for ys k1
    by (induction ys arbitrary: k1)
      (auto simp: enqueue_def thread_enqueue_def is_thread_def ASSERT_def split: option.splits sched_policy.splits)
  show ?thesis
    by (rule fifo_ready.roundtrip[OF fi assms(2)]) (use assms(3) thr in \<open>simp add: is_thread_def\<close>)
qed

end
