(* ===== verification/Intq.thy ===== *)
theory Intq
  imports Queues
begin

text \<open>
  devices/intq.c: the circular byte buffer between interrupt handlers and kernel threads.  Interrupts
  are off in all operations.  \<open>intq_getc\<close> and \<open>intq_putc\<close> are modelled from the point where their waiting
  loop ends; on an empty (full) buffer they have no result and the caller goes to sleep with
  \<open>intq_wait_not_empty\<close> (\<open>intq_wait_not_full\<close>).  The buffer is an instance of the FIFO contract.
\<close>

definition INTQ_BUFSIZE :: nat where "INTQ_BUFSIZE = 64"

record intq =
  not_full :: addr
  not_empty :: addr
  buf :: "8 word list"
  head :: nat
  tail :: nat

definition intq_next :: "nat \<Rightarrow> nat" where
  "intq_next pos = (pos + 1) mod INTQ_BUFSIZE"

definition intq_init :: "8 word list \<Rightarrow> intq" where
  "intq_init storage = \<lparr>not_full = NULL, not_empty = NULL, buf = storage, head = 0, tail = 0\<rparr>"

definition intq_empty :: "intq \<Rightarrow> bool" where
  "intq_empty q \<longleftrightarrow> head q = tail q"

definition intq_full :: "intq \<Rightarrow> bool" where
  "intq_full q \<longleftrightarrow> intq_next (head q) = tail q"

text \<open>\<open>wait\<close> and \<open>signal\<close> for the two waiter members.\<close>

definition intq_wait_not_empty :: "intq \<Rightarrow> kernel \<Rightarrow> (intq \<times> kernel) option" where
  "intq_wait_not_empty q k = do {
     ASSERT (\<not> intr_context k);
     ASSERT (intq_empty q);
     t \<leftarrow> thread_current k;
     k \<leftarrow> thread_block k;
     Some (q\<lparr>not_empty := t\<rparr>, k) }"

definition intq_wait_not_full :: "intq \<Rightarrow> kernel \<Rightarrow> (intq \<times> kernel) option" where
  "intq_wait_not_full q k = do {
     ASSERT (\<not> intr_context k);
     ASSERT (intq_full q);
     t \<leftarrow> thread_current k;
     k \<leftarrow> thread_block k;
     Some (q\<lparr>not_full := t\<rparr>, k) }"

definition intq_signal_not_empty :: "intq \<Rightarrow> kernel \<Rightarrow> (intq \<times> kernel) option" where
  "intq_signal_not_empty q k = do {
     ASSERT (\<not> intq_empty q);
     if not_empty q \<noteq> NULL then do {
       k \<leftarrow> thread_unblock (not_empty q) k;
       Some (q\<lparr>not_empty := NULL\<rparr>, k) }
     else Some (q, k) }"

definition intq_signal_not_full :: "intq \<Rightarrow> kernel \<Rightarrow> (intq \<times> kernel) option" where
  "intq_signal_not_full q k = do {
     ASSERT (\<not> intq_full q);
     if not_full q \<noteq> NULL then do {
       k \<leftarrow> thread_unblock (not_full q) k;
       Some (q\<lparr>not_full := NULL\<rparr>, k) }
     else Some (q, k) }"

text \<open>The moves of the buffer itself.\<close>

definition intq_take :: "intq \<Rightarrow> (8 word \<times> intq) option" where
  "intq_take q = (if intq_empty q then None
     else Some (buf q ! tail q, q\<lparr>tail := intq_next (tail q)\<rparr>))"

definition intq_store :: "intq \<Rightarrow> 8 word \<Rightarrow> intq" where
  "intq_store q byte = q\<lparr>buf := (buf q)[head q := byte], head := intq_next (head q)\<rparr>"

definition intq_getc :: "intq \<Rightarrow> kernel \<Rightarrow> (8 word \<times> intq \<times> kernel) option" where
  "intq_getc q k = do {
     (byte, q) \<leftarrow> intq_take q;
     (q, k) \<leftarrow> intq_signal_not_full q k;
     Some (byte, q, k) }"

definition intq_putc :: "intq \<Rightarrow> 8 word \<Rightarrow> kernel \<Rightarrow> (intq \<times> kernel) option" where
  "intq_putc q byte k = do {
     ASSERT (\<not> intq_full q);
     intq_signal_not_empty (intq_store q byte) k }"

section \<open>Contents\<close>

definition intq_ok :: "intq \<Rightarrow> bool" where
  "intq_ok q \<longleftrightarrow> length (buf q) = INTQ_BUFSIZE \<and> head q < INTQ_BUFSIZE \<and> tail q < INTQ_BUFSIZE"

definition intq_count :: "intq \<Rightarrow> nat" where
  "intq_count q = (head q + INTQ_BUFSIZE - tail q) mod INTQ_BUFSIZE"

definition intq_bytes :: "intq \<Rightarrow> 8 word list" where
  "intq_bytes q = map (\<lambda>i. buf q ! ((tail q + i) mod INTQ_BUFSIZE)) [0..<intq_count q]"

lemma intq_count_alt:
  assumes "intq_ok q"
  shows "intq_count q = (if tail q \<le> head q then head q - tail q else head q + 64 - tail q)"
proof (cases "tail q \<le> head q")
  case True
  then have e: "head q + 64 - tail q = (head q - tail q) + 64" by simp
  have "(head q + 64 - tail q) mod 64 = head q - tail q"
    unfolding e using assms by (simp add: intq_ok_def INTQ_BUFSIZE_def less_imp_diff_less)
  then show ?thesis using True by (simp add: intq_count_def INTQ_BUFSIZE_def)
next
  case False
  then show ?thesis using assms by (simp add: intq_count_def INTQ_BUFSIZE_def intq_ok_def)
qed

lemma intq_next_alt: "n < 64 \<Longrightarrow> intq_next n = (if n = 63 then 0 else n + 1)"
  by (auto simp: intq_next_def INTQ_BUFSIZE_def)

lemma intq_empty_bytes: "intq_ok q \<Longrightarrow> intq_empty q \<longleftrightarrow> intq_bytes q = []"
  using intq_count_alt[of q] by (auto simp: intq_empty_def intq_bytes_def intq_ok_def INTQ_BUFSIZE_def split: if_splits)

lemma intq_full_count:
  assumes "intq_ok q" shows "intq_full q \<longleftrightarrow> length (intq_bytes q) = INTQ_BUFSIZE - 1"
  using intq_count_alt[OF assms] assms intq_next_alt[of "head q"]
  by (auto simp: intq_full_def intq_bytes_def intq_ok_def INTQ_BUFSIZE_def split: if_splits)

lemma intq_take_bytes:
  assumes "intq_ok q" "intq_take q = Some (b, q')"
  shows "intq_ok q' \<and> intq_bytes q = b # intq_bytes q'"
proof -
  have ne: "head q \<noteq> tail q" and b: "b = buf q ! tail q" and q': "q' = q\<lparr>tail := intq_next (tail q)\<rparr>"
    using assms(2) by (auto simp: intq_take_def intq_empty_def split: if_splits)
  have t: "tail q < 64" "head q < 64" using assms(1) by (simp_all add: intq_ok_def INTQ_BUFSIZE_def)
  have ok': "intq_ok q'" using assms(1) by (simp add: q' intq_ok_def intq_next_def INTQ_BUFSIZE_def)
  have c: "intq_count q = Suc (intq_count q')"
    using intq_count_alt[OF assms(1)] intq_count_alt[OF ok'] intq_next_alt[OF t(1)] t ne
    by (auto simp: q' split: if_splits)
  have "intq_bytes q = buf q ! tail q # map (\<lambda>i. buf q ! ((tail q + Suc i) mod 64)) [0..<intq_count q']"
    using t by (simp add: intq_bytes_def c INTQ_BUFSIZE_def upt_conv_Cons map_Suc_upt[symmetric] del: upt_Suc map_Suc_upt)
  moreover have "(tail q' + i) mod 64 = (tail q + Suc i) mod 64" for i
    by (simp add: q' intq_next_def INTQ_BUFSIZE_def mod_simps)
  moreover have "buf q' = buf q" by (simp add: q')
  ultimately show ?thesis using ok' by (simp add: intq_bytes_def[of q'] b INTQ_BUFSIZE_def)
qed

lemma intq_store_bytes:
  assumes "intq_ok q" "\<not> intq_full q"
  shows "intq_ok (intq_store q b) \<and> intq_bytes (intq_store q b) = intq_bytes q @ [b]"
proof -
  let ?q = "intq_store q b"
  have t: "tail q < 64" "head q < 64" "length (buf q) = 64" using assms(1) by (simp_all add: intq_ok_def INTQ_BUFSIZE_def)
  have ok': "intq_ok ?q" using assms(1) by (simp add: intq_store_def intq_ok_def intq_next_def INTQ_BUFSIZE_def)
  have c: "intq_count ?q = Suc (intq_count q)" and small: "intq_count q < 63"
    using intq_count_alt[OF assms(1)] intq_count_alt[OF ok'] intq_next_alt[OF t(2)] t assms(2)
    by (auto simp: intq_store_def intq_full_def split: if_splits)
  have h: "(tail q + intq_count q) mod 64 = head q"
    using intq_count_alt[OF assms(1)] t by (auto split: if_splits)
  have other: "(tail q + i) mod 64 \<noteq> head q" if "i < intq_count q" for i
  proof
    assume "(tail q + i) mod 64 = head q"
    then have "(tail q + intq_count q) mod 64 = (tail q + i) mod 64" using h by simp
    then have "64 dvd (tail q + intq_count q) - (tail q + i)"
      using that by (subst (asm) mod_eq_dvd_iff_nat) simp_all
    then have "64 \<le> intq_count q - i" using that by (simp add: dvd_imp_le)
    then show False using small by simp
  qed
  have "map (\<lambda>i. (buf q)[head q := b] ! ((tail q + i) mod 64)) [0..<intq_count q]
      = map (\<lambda>i. buf q ! ((tail q + i) mod 64)) [0..<intq_count q]"
    using other by (intro map_cong refl) (metis atLeastLessThan_iff nth_list_update_neq set_upt)
  then have "intq_bytes ?q = intq_bytes q @ [b]"
    using t h by (simp add: intq_bytes_def c INTQ_BUFSIZE_def) (simp add: intq_store_def)
  then show ?thesis using ok' by simp
qed

interpretation intq: fifo_queue intq_ok "\<lambda>q b. \<not> intq_full q" intq_store intq_take intq_bytes
proof unfold_locales
  fix q b b' q'
  assume ok: "intq_ok q"
  show "intq_take q = None \<longleftrightarrow> intq_bytes q = []" using intq_empty_bytes[OF ok] by (simp add: intq_take_def)
  show "intq_take q = Some (b', q') \<Longrightarrow> intq_ok q' \<and> intq_bytes q = b' # intq_bytes q'"
    using intq_take_bytes[OF ok] by simp
  assume "\<not> intq_full q"
  then show "intq_ok (intq_store q b)" "intq_bytes (intq_store q b) = intq_bytes q @ [b]"
    "mset (intq_bytes (intq_store q b)) = add_mset b (mset (intq_bytes q))"
    using intq_store_bytes[OF ok] by simp_all
qed

text \<open>The operations with their wake-ups move exactly the byte.\<close>

lemma intq_getc_bytes:
  assumes "intq_ok q" "intq_getc q k = Some (b, q', k')"
  shows "intq_ok q' \<and> intq_bytes q = b # intq_bytes q'"
proof -
  obtain q1 where q1: "intq_take q = Some (b, q1)" "intq_signal_not_full q1 k = Some (q', k')"
    using assms(2) by (auto simp: intq_getc_def bind_eq_Some_conv)
  have "buf q' = buf q1 \<and> head q' = head q1 \<and> tail q' = tail q1"
    using q1(2) by (auto simp: intq_signal_not_full_def bind_eq_Some_conv split: if_splits)
  then have "intq_ok q' = intq_ok q1" "intq_bytes q' = intq_bytes q1"
    by (simp_all add: intq_ok_def intq_bytes_def intq_count_def)
  then show ?thesis using intq_take_bytes[OF assms(1) q1(1)] by simp
qed

section \<open>Sequences of operations\<close>

text \<open>
  A sequence of calls on one queue, in the order they come.  A call that would have to wait has no
  result: at that point the caller goes to sleep.  The abstract queue is a list of bytes that holds at
  most 63 of them.
\<close>

datatype intq_op = Putc "8 word" | Getc

fun intq_run :: "intq_op list \<Rightarrow> intq \<Rightarrow> kernel \<Rightarrow> (8 word list \<times> intq \<times> kernel) option" where
  "intq_run [] q k = Some ([], q, k)"
| "intq_run (Putc b # ops) q k = do {
     (q, k) \<leftarrow> intq_putc q b k;
     intq_run ops q k }"
| "intq_run (Getc # ops) q k = do {
     (b, q, k) \<leftarrow> intq_getc q k;
     (bs, q, k) \<leftarrow> intq_run ops q k;
     Some (b # bs, q, k) }"

fun fifo_run :: "nat \<Rightarrow> intq_op list \<Rightarrow> 8 word list \<Rightarrow> (8 word list \<times> 8 word list) option" where
  "fifo_run bound [] xs = Some ([], xs)"
| "fifo_run bound (Putc b # ops) xs = (if length xs < bound then fifo_run bound ops (xs @ [b]) else None)"
| "fifo_run bound (Getc # ops) [] = None"
| "fifo_run bound (Getc # ops) (x # xs) = do { (ys, zs) \<leftarrow> fifo_run bound ops xs; Some (x # ys, zs) }"

definition unwatched :: "intq \<Rightarrow> bool" where
  "unwatched q \<longleftrightarrow> intq_ok q \<and> not_full q = NULL \<and> not_empty q = NULL"

lemma intq_putc_unwatched:
  assumes "unwatched q"
  shows "intq_putc q b k = (if length (intq_bytes q) < INTQ_BUFSIZE - 1 then Some (intq_store q b, k) else None)"
    "length (intq_bytes q) < INTQ_BUFSIZE - 1 \<Longrightarrow>
       unwatched (intq_store q b) \<and> intq_bytes (intq_store q b) = intq_bytes q @ [b]"
proof -
  have ok: "intq_ok q" and nul: "not_full q = NULL" "not_empty q = NULL" using assms by (simp_all add: unwatched_def)
  have le: "length (intq_bytes q) \<le> INTQ_BUFSIZE - 1"
    using ok by (simp add: intq_bytes_def intq_count_def INTQ_BUFSIZE_def less_Suc_eq_le[symmetric] del: less_Suc_eq_le)
  have full: "intq_full q \<longleftrightarrow> \<not> length (intq_bytes q) < INTQ_BUFSIZE - 1" using intq_full_count[OF ok] le by linarith
  show 2: "unwatched (intq_store q b) \<and> intq_bytes (intq_store q b) = intq_bytes q @ [b]"
    if "length (intq_bytes q) < INTQ_BUFSIZE - 1"
    using intq_store_bytes[OF ok, of b] full that nul by (simp add: unwatched_def) (simp add: intq_store_def)
  show "intq_putc q b k = (if length (intq_bytes q) < INTQ_BUFSIZE - 1 then Some (intq_store q b, k) else None)"
  proof (cases "length (intq_bytes q) < INTQ_BUFSIZE - 1")
    case True
    have "\<not> intq_empty (intq_store q b)"
      using intq_empty_bytes[of "intq_store q b"] 2[OF True] by (simp add: unwatched_def)
    moreover have "not_empty (intq_store q b) = NULL" using nul by (simp add: intq_store_def)
    ultimately show ?thesis using True full by (simp add: intq_putc_def intq_signal_not_empty_def)
  next
    case False
    then show ?thesis using full by (simp add: intq_putc_def)
  qed
qed

lemma intq_getc_unwatched:
  assumes "unwatched q"
  shows "intq_bytes q = [] \<Longrightarrow> intq_getc q k = None"
    "intq_bytes q = x # xs \<Longrightarrow> \<exists>q'. intq_getc q k = Some (x, q', k) \<and> unwatched q' \<and> intq_bytes q' = xs"
proof -
  have ok: "intq_ok q" and nul: "not_full q = NULL" "not_empty q = NULL" using assms by (simp_all add: unwatched_def)
  show "intq_getc q k = None" if "intq_bytes q = []"
    using that intq_empty_bytes[OF ok] by (simp add: intq_getc_def intq_take_def)
  assume b: "intq_bytes q = x # xs"
  then obtain y q' where t: "intq_take q = Some (y, q')"
    using intq_empty_bytes[OF ok] by (auto simp: intq_take_def)
  have q': "intq_ok q'" "y = x" "intq_bytes q' = xs" using intq_take_bytes[OF ok t] b by simp_all
  have "not_full q' = NULL" "not_empty q' = NULL" using t nul by (auto simp: intq_take_def split: if_splits)
  then have un: "unwatched q'" using q'(1) by (simp add: unwatched_def)
  have "length (intq_bytes q) < INTQ_BUFSIZE"
    using ok by (simp add: intq_bytes_def intq_count_def INTQ_BUFSIZE_def)
  then have "\<not> intq_full q'" using intq_full_count[OF q'(1)] b q'(3) by simp
  then have "intq_getc q k = Some (x, q', k)"
    using t q'(2) \<open>not_full q' = NULL\<close> by (simp add: intq_getc_def intq_signal_not_full_def)
  then show "\<exists>q'. intq_getc q k = Some (x, q', k) \<and> unwatched q' \<and> intq_bytes q' = xs"
    using un q'(3) by blast
qed

lemma intq_run_fifo: "unwatched q \<Longrightarrow>
    (case fifo_run (INTQ_BUFSIZE - 1) ops (intq_bytes q) of
       None \<Rightarrow> intq_run ops q k = None
     | Some (ys, zs) \<Rightarrow> \<exists>q'. intq_run ops q k = Some (ys, q', k) \<and> unwatched q' \<and> intq_bytes q' = zs)"
proof (induction ops arbitrary: q)
  case Nil
  then show ?case by simp
next
  case (Cons x ops)
  show ?case
  proof (cases x)
    case (Putc b)
    show ?thesis
      using intq_putc_unwatched[OF Cons.prems, of b] Cons.IH[of "intq_store q b"]
      by (auto simp: Putc split: option.splits)
  next
    case Getc
    show ?thesis
    proof (cases "intq_bytes q")
      case Nil
      then show ?thesis using intq_getc_unwatched(1)[OF Cons.prems Nil, of k] by (simp add: Getc)
    next
      case (Cons y ys)
      obtain q' where "intq_getc q k = Some (y, q', k)" "unwatched q'" "intq_bytes q' = ys"
        using intq_getc_unwatched(2)[OF Cons.prems Cons, of k] by blast
      then show ?thesis using Cons.IH[of q'] Cons by (auto simp: Getc split: option.splits)
    qed
  qed
qed

lemma unwatched_init:
  assumes "length storage = INTQ_BUFSIZE"
  shows "unwatched (intq_init storage)" "intq_bytes (intq_init storage) = []"
  using assms by (simp_all add: unwatched_def intq_ok_def intq_init_def INTQ_BUFSIZE_def intq_bytes_def intq_count_def)

end
