(* ===== verification/Palloc.thy ===== *)
theory Palloc
  imports Vaddr Bitmap
begin

text \<open>
  threads/palloc.c: the page allocator.  A pool is a base address and the bitmap of its used pages; the
  memory is a function from the addresses of 32-bit words to their values, which an allocation with
  \<open>PAL_ZERO\<close> and a release (the debugging fill with 0xcc) overwrite.  The locks of the pools are left
  out: an operation is one step.  Any record that extends \<open>pmem\<close> can be the state.

  \<open>used\<close> is the set of pages handed out.  An allocation returns a run of pages that were not used and
  makes exactly these used, and a release takes its pages out of the set again.
\<close>

section \<open>Operations\<close>

record pool =
  used_map :: bitmap
  base :: nat

record pmem =
  kernel_pool :: pool
  user_pool :: pool
  words :: "nat \<Rightarrow> 32 word"

datatype palloc_flag = PAL_ASSERT | PAL_ZERO | PAL_USER

definition fill_words :: "nat \<Rightarrow> nat \<Rightarrow> 32 word \<Rightarrow> 'a pmem_scheme \<Rightarrow> 'a pmem_scheme" where
  "fill_words a n v s = s\<lparr>words := (\<lambda>x. if a \<le> x \<and> x < a + n then v else words s x)\<rparr>"

definition init_pool :: "nat \<Rightarrow> nat \<Rightarrow> (nat \<Rightarrow> 32 word) \<Rightarrow> pool option" where
  "init_pool b page_cnt m = do {
     let bm_pages = DIV_ROUND_UP (bitmap_buf_size page_cnt) PGSIZE;
     ASSERT (\<not> bm_pages > page_cnt);
     let page_cnt = page_cnt - bm_pages;
     let storage = map (\<lambda>i. m (b + 8 + 4 * i)) [0..<(bm_pages * PGSIZE - 8) div 4];
     bm \<leftarrow> bitmap_create_in_buf page_cnt storage (bm_pages * PGSIZE);
     Some \<lparr>used_map = bm, base = b + bm_pages * PGSIZE\<rparr> }"

definition palloc_init :: "nat \<Rightarrow> nat \<Rightarrow> 'a pmem_scheme \<Rightarrow> 'a pmem_scheme option" where
  "palloc_init init_ram_pages user_page_limit s = do {
     free_start \<leftarrow> ptov (1024 * 1024);
     free_end \<leftarrow> ptov (init_ram_pages * PGSIZE);
     let free_pages = (free_end - free_start) div PGSIZE;
     let user_pages = free_pages div 2;
     let user_pages = (if user_pages > user_page_limit then user_page_limit else user_pages);
     let kernel_pages = free_pages - user_pages;
     k \<leftarrow> init_pool free_start kernel_pages (words s);
     u \<leftarrow> init_pool (free_start + kernel_pages * PGSIZE) user_pages (words s);
     Some (s\<lparr>kernel_pool := k, user_pool := u\<rparr>) }"

definition palloc_get_multiple :: "palloc_flag set \<Rightarrow> nat \<Rightarrow> 'a pmem_scheme \<Rightarrow> (addr \<times> 'a pmem_scheme) option" where
  "palloc_get_multiple flags page_cnt s = do {
     let pool = (if PAL_USER \<in> flags then user_pool s else kernel_pool s);
     if page_cnt = 0 then Some (NULL, s)
     else do {
       (bm, page_idx) \<leftarrow> bitmap_scan_and_flip (used_map pool) 0 page_cnt False;
       let pool = pool\<lparr>used_map := bm\<rparr>;
       let s = (if PAL_USER \<in> flags then s\<lparr>user_pool := pool\<rparr> else s\<lparr>kernel_pool := pool\<rparr>);
       let pages = (if page_idx \<noteq> BITMAP_ERROR then base pool + PGSIZE * page_idx else NULL);
       if pages \<noteq> NULL then
         Some (pages, if PAL_ZERO \<in> flags then fill_words pages (PGSIZE * page_cnt) 0 s else s)
       else do { ASSERT (PAL_ASSERT \<notin> flags); Some (pages, s) } } }"

definition palloc_get_page :: "palloc_flag set \<Rightarrow> 'a pmem_scheme \<Rightarrow> (addr \<times> 'a pmem_scheme) option" where
  "palloc_get_page flags s = palloc_get_multiple flags 1 s"

definition page_from_pool :: "pool \<Rightarrow> nat \<Rightarrow> bool" where
  "page_from_pool pool page = (let
     page_no = pg_no page; start_page = pg_no (base pool); end_page = start_page + bitmap_size (used_map pool)
     in page_no \<ge> start_page \<and> page_no < end_page)"

definition palloc_free_multiple :: "nat \<Rightarrow> nat \<Rightarrow> 'a pmem_scheme \<Rightarrow> 'a pmem_scheme option" where
  "palloc_free_multiple pages page_cnt s = do {
     ASSERT (pg_ofs pages = 0);
     if pages = NULL \<or> page_cnt = 0 then Some s
     else do {
       user \<leftarrow> (if page_from_pool (kernel_pool s) pages then Some False
               else if page_from_pool (user_pool s) pages then Some True else None);
       let pool = (if user then user_pool s else kernel_pool s);
       let page_idx = pg_no pages - pg_no (base pool);
       let s = fill_words pages (PGSIZE * page_cnt) 0xcccccccc s;
       all \<leftarrow> bitmap_all (used_map pool) page_idx page_cnt;
       ASSERT all;
       bm \<leftarrow> bitmap_set_multiple (used_map pool) page_idx page_cnt False;
       let pool = pool\<lparr>used_map := bm\<rparr>;
       Some (if user then s\<lparr>user_pool := pool\<rparr> else s\<lparr>kernel_pool := pool\<rparr>) } }"

definition palloc_free_page :: "nat \<Rightarrow> 'a pmem_scheme \<Rightarrow> 'a pmem_scheme option" where
  "palloc_free_page page s = palloc_free_multiple page 1 s"

section \<open>The pages in use\<close>

definition pool_ok :: "pool \<Rightarrow> bool" where
  "pool_ok p \<longleftrightarrow> bm_ok (used_map p) \<and> base p mod PGSIZE = 0 \<and> PHYS_BASE < base p \<and> base p < 2 ^ 32
     \<and> base p + PGSIZE * bit_cnt (used_map p) \<le> 2 ^ 32"

definition pool_end :: "pool \<Rightarrow> nat" where
  "pool_end p = base p + PGSIZE * bit_cnt (used_map p)"

definition pmem_ok :: "'a pmem_scheme \<Rightarrow> bool" where
  "pmem_ok s \<longleftrightarrow> pool_ok (kernel_pool s) \<and> pool_ok (user_pool s) \<and> pool_end (kernel_pool s) \<le> base (user_pool s)"

definition pool_used :: "pool \<Rightarrow> nat set" where
  "pool_used p = {base p + PGSIZE * i | i. i < bit_cnt (used_map p) \<and> bm_bit (used_map p) i}"

definition used :: "'a pmem_scheme \<Rightarrow> nat set" where
  "used s = pool_used (kernel_pool s) \<union> pool_used (user_pool s)"

definition run :: "nat \<Rightarrow> nat \<Rightarrow> nat set" where
  "run a n = {a + PGSIZE * i | i. i < n}"

lemma run_1 [simp]: "run a 1 = {a}" "run a (Suc 0) = {a}"
  by (auto simp: run_def)

lemma run_mem: "k < n \<Longrightarrow> a + PGSIZE * k \<in> run a n"
  by (auto simp: run_def)

lemma pool_used_nth: "base p + PGSIZE * i \<in> pool_used p \<longleftrightarrow> i < bit_cnt (used_map p) \<and> bm_bit (used_map p) i"
  by (auto simp: pool_used_def PGSIZE_def)

lemma pool_used_bounds: "a \<in> pool_used p \<Longrightarrow> base p \<le> a \<and> a < pool_end p"
  by (auto simp: pool_used_def pool_end_def PGSIZE_def)

lemma used_page:
  assumes "pmem_ok s" "a \<in> used s"
  shows "a mod PGSIZE = 0" "PHYS_BASE < a" "a + PGSIZE \<le> 2 ^ 32" "a \<noteq> NULL"
proof -
  obtain p i where p: "pool_ok p" "a = base p + PGSIZE * i" "i < bit_cnt (used_map p)"
    using assms by (auto simp: used_def pool_used_def pmem_ok_def)
  have "PGSIZE * (i + 1) \<le> PGSIZE * bit_cnt (used_map p)" using p(3) by (intro mult_left_mono) simp_all
  then show "a mod PGSIZE = 0" "PHYS_BASE < a" "a + PGSIZE \<le> 2 ^ 32" "a \<noteq> NULL"
    using p by (auto simp: pool_ok_def mod_add_eq)
qed

text \<open>Setting a run of bits of a pool.\<close>

lemma pool_used_set:
  assumes "pool_ok p" "bit_cnt bm = bit_cnt (used_map p)" "i + n \<le> bit_cnt bm"
    "\<And>j. bm_bit bm j = (if i \<le> j \<and> j < i + n then v else bm_bit (used_map p) j)"
  shows "pool_used (p\<lparr>used_map := bm\<rparr>) =
    (if v then pool_used p \<union> run (base p + PGSIZE * i) n else pool_used p - run (base p + PGSIZE * i) n)"
proof -
  have r: "base p + PGSIZE * j \<in> run (base p + PGSIZE * i) n \<longleftrightarrow> i \<le> j \<and> j < i + n" for j
  proof
    assume "base p + PGSIZE * j \<in> run (base p + PGSIZE * i) n"
    then obtain k where "k < n" "PGSIZE * j = PGSIZE * (i + k)" by (auto simp: run_def algebra_simps)
    then show "i \<le> j \<and> j < i + n" by (simp add: PGSIZE_def)
  next
    assume "i \<le> j \<and> j < i + n"
    then show "base p + PGSIZE * j \<in> run (base p + PGSIZE * i) n"
      unfolding run_def by (intro CollectI exI[of _ "j - i"]) (auto simp flip: add_mult_distrib2)
  qed
  have sub: "run (base p + PGSIZE * i) n \<subseteq> {base p + PGSIZE * j | j. j < bit_cnt bm}"
    using assms(3) by (auto simp: run_def) (metis add.assoc add_mult_distrib2 less_le_trans nat_add_left_cancel_less)
  show ?thesis
    using assms(2,4) sub r unfolding pool_used_def by (cases v) (auto, blast+)
qed

section \<open>Allocation and release\<close>

lemma pool_run:
  assumes "pool_ok p" "i + n \<le> bit_cnt (used_map p)"
  shows "(base p + PGSIZE * i) mod PGSIZE = 0" "PHYS_BASE < base p + PGSIZE * i"
    "base p + PGSIZE * i + PGSIZE * n \<le> pool_end p" "pool_end p \<le> 2 ^ 32"
proof -
  have "PGSIZE * (i + n) \<le> PGSIZE * bit_cnt (used_map p)" using assms(2) by (rule mult_le_mono2)
  then show "base p + PGSIZE * i + PGSIZE * n \<le> pool_end p" by (simp add: pool_end_def algebra_simps)
qed (use assms(1) in \<open>auto simp: pool_ok_def pool_end_def mod_add_eq\<close>)

lemma run_bounds: "x \<in> run a n \<Longrightarrow> a \<le> x \<and> x < a + PGSIZE * n"
  by (auto simp: run_def PGSIZE_def)

lemma pool_get:
  assumes "pool_ok p" "0 < n"
  shows "\<exists>bm r. bitmap_scan_and_flip (used_map p) 0 n False = Some (bm, r)
    \<and> (r = BITMAP_ERROR \<and> bm = used_map p \<and> \<not> (\<exists>i. bm_group (used_map p) i n False)
       \<or> r \<noteq> BITMAP_ERROR \<and> pool_ok (p\<lparr>used_map := bm\<rparr>) \<and> bit_cnt bm = bit_cnt (used_map p) \<and> r + n \<le> bit_cnt bm
         \<and> run (base p + PGSIZE * r) n \<inter> pool_used p = {}
         \<and> pool_used (p\<lparr>used_map := bm\<rparr>) = pool_used p \<union> run (base p + PGSIZE * r) n)"
proof -
  have ok: "bm_ok (used_map p)" using assms(1) by (simp add: pool_ok_def)
  obtain bm r where b: "bitmap_scan_and_flip (used_map p) 0 n False = Some (bm, r)"
    "if \<exists>i\<ge>0. bm_group (used_map p) i n False
     then r \<noteq> BITMAP_ERROR \<and> 0 \<le> r \<and> bm_group (used_map p) r n False \<and>
       (\<forall>i. 0 \<le> i \<and> i < r \<longrightarrow> \<not> bm_group (used_map p) i n False) \<and> bm_ok bm \<and> bit_cnt bm = bit_cnt (used_map p) \<and>
       (\<forall>j. bm_bit bm j = (if r \<le> j \<and> j < r + n then \<not> False else bm_bit (used_map p) j))
     else r = BITMAP_ERROR \<and> bm = used_map p"
    using bitmap_scan_and_flip_bm[OF ok, of 0 n False] by blast
  show ?thesis
  proof (cases "\<exists>i\<ge>0. bm_group (used_map p) i n False")
    case True
    note c = b(2)[unfolded if_P[OF True]]
    then have g: "r + n \<le> bit_cnt (used_map p)" "\<And>j. r \<le> j \<Longrightarrow> j < r + n \<Longrightarrow> \<not> bm_bit (used_map p) j"
      by (auto simp: bm_group_def)
    have u: "pool_used (p\<lparr>used_map := bm\<rparr>) = pool_used p \<union> run (base p + PGSIZE * r) n"
      using pool_used_set[OF assms(1), of bm r n True] c g(1) by simp
    have "run (base p + PGSIZE * r) n \<inter> pool_used p = {}"
    proof (rule equals0I)
      fix x assume "x \<in> run (base p + PGSIZE * r) n \<inter> pool_used p"
      then obtain k where k: "k < n" "x = base p + PGSIZE * (r + k)" "x \<in> pool_used p"
        by (auto simp: run_def add_mult_distrib2 add.assoc)
      then show False using g(2)[of "r + k"] by (simp add: pool_used_nth)
    qed
    moreover have "pool_ok (p\<lparr>used_map := bm\<rparr>)" using assms(1) c by (simp add: pool_ok_def)
    ultimately show ?thesis using b(1) c g(1) u by auto
  next
    case False
    then show ?thesis using b by auto
  qed
qed

lemma palloc_get_spec:
  assumes "pmem_ok s" "0 < n" "PAL_ASSERT \<notin> fl"
  shows "\<exists>a s'. palloc_get_multiple fl n s = Some (a, s') \<and> pmem_ok s' \<and> pmem.more s' = pmem.more s
    \<and> (if a = NULL then s' = s
       else run a n \<inter> used s = {} \<and> used s' = used s \<union> run a n \<and> a mod PGSIZE = 0 \<and> PHYS_BASE < a
         \<and> a + PGSIZE * n \<le> 2 ^ 32
         \<and> words s' = (\<lambda>x. if PAL_ZERO \<in> fl \<and> a \<le> x \<and> x < a + PGSIZE * n then 0 else words s x))"
proof -
  define p where "p = (if PAL_USER \<in> fl then user_pool s else kernel_pool s)"
  define q where "q = (if PAL_USER \<in> fl then kernel_pool s else user_pool s)"
  have p: "pool_ok p" "used s = pool_used p \<union> pool_used q" and dj: "pool_end p \<le> base q \<or> pool_end q \<le> base p"
    using assms(1) by (auto simp: p_def q_def pmem_ok_def used_def)
  obtain bm r where b: "bitmap_scan_and_flip (used_map p) 0 n False = Some (bm, r)"
    and c: "r = BITMAP_ERROR \<and> bm = used_map p
       \<or> r \<noteq> BITMAP_ERROR \<and> pool_ok (p\<lparr>used_map := bm\<rparr>) \<and> bit_cnt bm = bit_cnt (used_map p) \<and> r + n \<le> bit_cnt bm
         \<and> run (base p + PGSIZE * r) n \<inter> pool_used p = {}
         \<and> pool_used (p\<lparr>used_map := bm\<rparr>) = pool_used p \<union> run (base p + PGSIZE * r) n"
    using pool_get[OF p(1) assms(2)] by blast
  let ?s = "if PAL_USER \<in> fl then s\<lparr>user_pool := p\<lparr>used_map := bm\<rparr>\<rparr> else s\<lparr>kernel_pool := p\<lparr>used_map := bm\<rparr>\<rparr>"
  let ?a = "base p + PGSIZE * r"
  show ?thesis
  proof (cases "r = BITMAP_ERROR")
    case True
    then have "palloc_get_multiple fl n s = Some (NULL, s)"
      using b c assms(2,3) by (auto simp: palloc_get_multiple_def p_def Let_def)
    then show ?thesis using assms(1) by auto
  next
    case False
    then have c: "pool_ok (p\<lparr>used_map := bm\<rparr>)" "bit_cnt bm = bit_cnt (used_map p)" "r + n \<le> bit_cnt (used_map p)"
      "run ?a n \<inter> pool_used p = {}" "pool_used (p\<lparr>used_map := bm\<rparr>) = pool_used p \<union> run ?a n"
      using c by auto
    note rn = pool_run[OF p(1) c(3)]
    have "x \<notin> pool_used q" if "x \<in> run ?a n" for x
    proof -
      have "base p \<le> x" "x < pool_end p" using run_bounds[OF that] rn(3) by auto
      then show ?thesis using dj pool_used_bounds[of x q] by auto
    qed
    then have fresh: "run ?a n \<inter> used s = {}" using c(4) p(2) by blast
    have ok: "pmem_ok ?s" using assms(1) c(1,2) by (auto simp: pmem_ok_def p_def pool_end_def)
    have us: "used ?s = used s \<union> run ?a n" using c(5) by (auto simp: used_def p_def)
    have a: "?a \<noteq> NULL" "PHYS_BASE < ?a" using rn(2) by (metis not_less_zero) (rule rn(2))
    let ?s' = "if PAL_ZERO \<in> fl then fill_words ?a (PGSIZE * n) 0 ?s else ?s"
    have g: "palloc_get_multiple fl n s = Some (?a, ?s')"
      using b False a(1) assms(2) by (simp add: palloc_get_multiple_def p_def Let_def)
    have f: "pmem_ok ?s'" "used ?s' = used ?s" "pmem.more ?s' = pmem.more s"
      "words ?s' = (\<lambda>x. if PAL_ZERO \<in> fl \<and> ?a \<le> x \<and> x < ?a + PGSIZE * n then 0 else words s x)"
      using ok by (auto simp: fill_words_def pmem_ok_def used_def)
    have "?a + PGSIZE * n \<le> 2 ^ 32" using rn(3,4) by linarith
    then show ?thesis using g f us fresh a rn(1) by (intro exI[of _ ?a] exI[of _ ?s'] conjI) (simp_all only: if_False simp_thms)
  qed
qed

lemma palloc_free_spec:
  assumes "pmem_ok s" "p = kernel_pool s \<or> p = user_pool s" "run a n \<subseteq> pool_used p" "0 < n"
  shows "\<exists>s'. palloc_free_multiple a n s = Some s' \<and> pmem_ok s' \<and> pmem.more s' = pmem.more s
    \<and> used s' = used s - run a n
    \<and> words s' = (\<lambda>x. if a \<le> x \<and> x < a + PGSIZE * n then 0xcccccccc else words s x)"
proof -
  have ok: "pool_ok p" using assms(1,2) by (auto simp: pmem_ok_def)
  have "a \<in> run a n" using assms(4) by (auto simp: run_def intro!: exI[of _ 0])
  then have "a \<in> pool_used p" using assms(3) by blast
  then obtain i where i: "a = base p + PGSIZE * i" "i < bit_cnt (used_map p)" by (auto simp: pool_used_def)
  have bits: "i + k < bit_cnt (used_map p) \<and> bm_bit (used_map p) (i + k)" if "k < n" for k
  proof -
    have "base p + PGSIZE * (i + k) \<in> pool_used p"
      using assms(3) run_mem[OF that, of a] i(1) by (simp add: add_mult_distrib2 add.assoc subset_iff)
    then show ?thesis by (simp add: pool_used_nth)
  qed
  have n: "i + n \<le> bit_cnt (used_map p)" using bits[of "n - 1"] assms(4) by linarith
  note rn = pool_run[OF ok n]
  have a32: "a < 2 ^ 32" "base p < 2 ^ 32" using rn(3,4) i(1) assms(4) by (auto simp: PGSIZE_def)
  have ofs: "pg_ofs a = 0" "a \<noteq> NULL"
    using pg_ofs_mod[OF a32(1)] rn(1) rn(2)[folded i(1)] i(1) by simp (use rn(2)[folded i(1)] in simp)
  have div: "base q div PGSIZE + k = (base q + PGSIZE * k) div PGSIZE" for q k by (simp add: PGSIZE_def)
  have inq: "page_from_pool q a \<longleftrightarrow> base q \<le> a \<and> a < pool_end q" if "pool_ok q" for q
  proof -
    have q: "base q < 2 ^ 32" "base q = PGSIZE * (base q div PGSIZE)" "a = PGSIZE * (a div PGSIZE)"
      using that a32 rn(1) i(1) by (auto simp: pool_ok_def PHYS_BASE_def PGSIZE_def)
    show ?thesis
      unfolding page_from_pool_def Let_def pg_no_div[OF a32(1)] pg_no_div[OF q(1)] bitmap_size_def pool_end_def
      using q(2,3) by (auto simp: PGSIZE_def)
  qed
  have idx: "pg_no a - pg_no (base p) = i"
    using pg_no_div[OF a32(1)] pg_no_div[OF a32(2)] i(1) by (simp add: PGSIZE_def)
  have own: "base p \<le> a" "a < pool_end p" using rn(3) i(1) assms(4) by (auto simp: PGSIZE_def)
  have bk: "bm_ok (used_map p)" using ok by (simp add: pool_ok_def)
  have all: "bitmap_all (used_map p) i n = Some True"
      proof -
    have "bm_bit (used_map p) j" if "i \<le> j" "j < i + n" for j using bits[of "j - i"] that by simp
    then show ?thesis using bitmap_all_bm[OF bk n] by simp
  qed
  obtain bm where bm: "bitmap_set_multiple (used_map p) i n False = Some bm" "bm_ok bm" "bit_cnt bm = bit_cnt (used_map p)"
    "\<And>j. bm_bit bm j = (if i \<le> j \<and> j < i + n then False else bm_bit (used_map p) j)"
    using bitmap_set_multiple_bm[OF bk n, of False] by blast
  have pu: "pool_used (p\<lparr>used_map := bm\<rparr>) = pool_used p - run a n"
    using pool_used_set[OF ok bm(3), of i n False] bm(3,4) n i(1) by simp
  define user where "user = (\<not> page_from_pool (kernel_pool s) a)"
  have pq: "p = (if user then user_pool s else kernel_pool s)" "user \<Longrightarrow> page_from_pool (user_pool s) a"
    using assms(1,2) own inq[of "kernel_pool s"] inq[of "user_pool s"] by (auto simp: user_def pmem_ok_def)
  let ?s = "fill_words a (PGSIZE * n) 0xcccccccc s"
  let ?s' = "if user then ?s\<lparr>user_pool := p\<lparr>used_map := bm\<rparr>\<rparr> else ?s\<lparr>kernel_pool := p\<lparr>used_map := bm\<rparr>\<rparr>"
  have "palloc_free_multiple a n s = Some ?s'"
  proof -
    have "(if page_from_pool (kernel_pool s) a then Some False
        else if page_from_pool (user_pool s) a then Some True else None) = Some user"
      using pq(2) by (auto simp: user_def)
    then show ?thesis using ofs assms(4) idx all bm(1) pq(1)
      by (cases user) (simp_all add: palloc_free_multiple_def Let_def fill_words_def)
  qed
  moreover have "pmem_ok ?s'"
    using assms(1) bm(2,3) ok pq(1) by (auto simp: pmem_ok_def fill_words_def pool_ok_def pool_end_def)
  moreover have "used ?s' = used s - run a n"
  proof -
    have "run a n \<inter> pool_used (if user then kernel_pool s else user_pool s) = {}"
    proof (rule equals0I)
      fix x assume x: "x \<in> run a n \<inter> pool_used (if user then kernel_pool s else user_pool s)"
      then have "base p \<le> x" "x < pool_end p" using run_bounds[of x a n] rn(3) i(1) by auto
      moreover have "base (if user then kernel_pool s else user_pool s) \<le> x"
        "x < pool_end (if user then kernel_pool s else user_pool s)" using x pool_used_bounds by blast+
      ultimately show False using pq(1) assms(1) by (cases user) (auto simp: pmem_ok_def)
    qed
    then show ?thesis using pu pq(1) by (auto simp: used_def fill_words_def)
  qed
  ultimately show ?thesis by (auto simp: fill_words_def intro!: exI[of _ ?s'])
qed

lemma palloc_free_page_spec:
  assumes "pmem_ok s" "a \<in> used s"
  shows "\<exists>s'. palloc_free_page a s = Some s' \<and> pmem_ok s' \<and> pmem.more s' = pmem.more s \<and> used s' = used s - {a}
    \<and> words s' = (\<lambda>x. if a \<le> x \<and> x < a + PGSIZE then 0xcccccccc else words s x)"
  using palloc_free_spec[OF assms(1), of _ a 1] assms(2) by (auto simp: palloc_free_page_def used_def)

text \<open>Allocations without \<open>PAL_USER\<close> concern the kernel pool alone.\<close>

abbreviation kused :: "'a pmem_scheme \<Rightarrow> nat set" where
  "kused s \<equiv> pool_used (kernel_pool s)"

lemma kused_diff:
  assumes "pmem_ok s" shows "kused s = used s - pool_used (user_pool s)"
proof -
  have "x \<notin> pool_used (user_pool s)" if "x \<in> kused s" for x
    using pool_used_bounds[OF that] pool_used_bounds[of x "user_pool s"] assms by (auto simp: pmem_ok_def)
  then show ?thesis by (auto simp: used_def)
qed

lemma palloc_get_kernel:
  assumes "pmem_ok s" "0 < n" "PAL_ASSERT \<notin> fl" "PAL_USER \<notin> fl"
  shows "\<exists>a s'. palloc_get_multiple fl n s = Some (a, s') \<and> pmem_ok s' \<and> pmem.more s' = pmem.more s
    \<and> (a = NULL \<and> s' = s
       \<or> a \<noteq> NULL \<and> run a n \<inter> kused s = {} \<and> kused s' = kused s \<union> run a n \<and> a mod PGSIZE = 0 \<and> PHYS_BASE < a
         \<and> a + PGSIZE * n \<le> 2 ^ 32)"
proof -
  obtain a s' where g: "palloc_get_multiple fl n s = Some (a, s')" "pmem_ok s'" "pmem.more s' = pmem.more s"
    and c: "if a = NULL then s' = s
       else run a n \<inter> used s = {} \<and> used s' = used s \<union> run a n \<and> a mod PGSIZE = 0 \<and> PHYS_BASE < a
         \<and> a + PGSIZE * n \<le> 2 ^ 32
         \<and> words s' = (\<lambda>x. if PAL_ZERO \<in> fl \<and> a \<le> x \<and> x < a + PGSIZE * n then 0 else words s x)"
    using palloc_get_spec[OF assms(1-3)] by blast
  have u: "user_pool s' = user_pool s"
    using g(1) assms(2,4) by (auto simp: palloc_get_multiple_def fill_words_def bind_eq_Some_conv Let_def split: if_splits)
  show ?thesis
  proof (cases "a = NULL")
    case True
    then show ?thesis using g c by auto
  next
    case False
    then have c: "run a n \<inter> used s = {}" "used s' = used s \<union> run a n" "a mod PGSIZE = 0" "PHYS_BASE < a" "a + PGSIZE * n \<le> 2 ^ 32"
      using c by auto
    have "run a n \<inter> pool_used (user_pool s) = {}" using c(1) by (auto simp: used_def)
    then have "kused s' = kused s \<union> run a n"
      unfolding kused_diff[OF g(2)] kused_diff[OF assms(1)] c(2) u by blast
    moreover have "run a n \<inter> kused s = {}" using c(1) by (auto simp: used_def)
    ultimately show ?thesis using g c(3-5) False by (intro exI[of _ a] exI[of _ s'] conjI disjI2)
  qed
qed

lemma palloc_free_kernel:
  assumes "pmem_ok s" "run a n \<subseteq> kused s" "0 < n"
  shows "\<exists>s'. palloc_free_multiple a n s = Some s' \<and> pmem_ok s' \<and> pmem.more s' = pmem.more s \<and> kused s' = kused s - run a n"
proof -
  obtain s' where f: "palloc_free_multiple a n s = Some s'" "pmem_ok s'" "pmem.more s' = pmem.more s" "used s' = used s - run a n"
    using palloc_free_spec[OF assms(1) _ assms(2,3)] by blast
  have a: "a \<in> kused s" using assms(2,3) by (auto simp: run_def)
  have k: "pool_ok (kernel_pool s)" using assms(1) by (simp add: pmem_ok_def)
  have "a \<in> used s" using a by (simp add: used_def)
  then have "a < 2 ^ 32" "a mod PGSIZE = 0" using used_page(1,3)[OF assms(1), of a] by (auto simp: PGSIZE_def)
  moreover have "base (kernel_pool s) < 2 ^ 32" "base (kernel_pool s) mod PGSIZE = 0" using k by (simp_all add: pool_ok_def)
  moreover have "base (kernel_pool s) \<le> a" "a < pool_end (kernel_pool s)" using pool_used_bounds[OF a] by auto
  ultimately have "page_from_pool (kernel_pool s) a"
    by (auto simp: page_from_pool_def Let_def pg_no_div bitmap_size_def pool_end_def PGSIZE_def)
  then have u: "user_pool s' = user_pool s"
    using f(1) assms(3) by (auto simp: palloc_free_multiple_def fill_words_def bind_eq_Some_conv Let_def split: if_splits)
  have "kused s' = kused s - run a n" unfolding kused_diff[OF f(2)] kused_diff[OF assms(1)] f(4) u by blast
  then show ?thesis using f by blast
qed

lemma palloc_get_frame:
  "palloc_get_multiple {} n s = Some (a, s') \<Longrightarrow> words s' = words s"
  "palloc_get_multiple {} n s = Some (a, s') \<Longrightarrow> pmem.more s' = pmem.more s"
  by (auto simp: palloc_get_multiple_def bind_eq_Some_conv Let_def split: if_splits)

lemma palloc_free_frame:
  assumes "palloc_free_multiple a n s = Some s'"
  shows "\<not> (a \<le> x \<and> x < a + PGSIZE * n) \<Longrightarrow> words s' x = words s x" "pmem.more s' = pmem.more s"
proof -
  have "words s' = words s \<or> words s' = words (fill_words a (PGSIZE * n) 0xcccccccc s)" "pmem.more s' = pmem.more s"
    using assms by (auto simp: palloc_free_multiple_def fill_words_def bind_eq_Some_conv Let_def split: if_splits)
  then show "\<not> (a \<le> x \<and> x < a + PGSIZE * n) \<Longrightarrow> words s' x = words s x" "pmem.more s' = pmem.more s"
    by (auto simp: fill_words_def)
qed

text \<open>The pools stay where they are, and a user page comes from the user pool.\<close>

lemma palloc_get_geom:
  assumes "pmem_ok s" "0 < n" "palloc_get_multiple fl n s = Some (a, s')"
  shows "pool_end (user_pool s') = pool_end (user_pool s)"
    "PAL_USER \<in> fl \<Longrightarrow> a \<noteq> NULL \<Longrightarrow> a + PGSIZE * n \<le> pool_end (user_pool s)"
proof -
  define p where "p = (if PAL_USER \<in> fl then user_pool s else kernel_pool s)"
  have p: "pool_ok p" using assms(1) by (auto simp: p_def pmem_ok_def)
  obtain bm r where b: "bitmap_scan_and_flip (used_map p) 0 n False = Some (bm, r)"
    and c: "r = BITMAP_ERROR \<and> bm = used_map p \<or> r \<noteq> BITMAP_ERROR \<and> bit_cnt bm = bit_cnt (used_map p) \<and> r + n \<le> bit_cnt bm"
    using pool_get[OF p assms(2)] by blast
  show "pool_end (user_pool s') = pool_end (user_pool s)"
    using assms(2,3) b c by (auto simp: palloc_get_multiple_def p_def pool_end_def fill_words_def bind_eq_Some_conv Let_def split: if_splits)
  assume "PAL_USER \<in> fl" "a \<noteq> NULL"
  then have "a = base p + PGSIZE * r" "r \<noteq> BITMAP_ERROR" "p = user_pool s"
    using assms(2,3) b by (auto simp: palloc_get_multiple_def p_def bind_eq_Some_conv Let_def split: if_splits)
  then show "a + PGSIZE * n \<le> pool_end (user_pool s)" using pool_run(3)[OF p, of r n] c by simp
qed

section \<open>Initialisation\<close>

lemma div_round_up_4096: "x \<le> DIV_ROUND_UP x 4096 * 4096" "0 < n \<Longrightarrow> x \<le> 4096 * n \<Longrightarrow> DIV_ROUND_UP x 4096 \<le> n"
  by (simp_all add: DIV_ROUND_UP_def)

lemma init_pool_ok:
  assumes "0 < n" "b mod PGSIZE = 0" "PHYS_BASE < b" "b + PGSIZE * n < 2 ^ 32"
  shows "\<exists>p. init_pool b n m = Some p \<and> pool_ok p \<and> pool_used p = {} \<and> b \<le> base p \<and> pool_end p = b + PGSIZE * n"
proof -
  define k where "k = DIV_ROUND_UP (bitmap_buf_size n) PGSIZE"
  have bs: "bitmap_buf_size n = 8 + 4 * ((n + 31) div 32)"
    by (simp add: bitmap_buf_size_def byte_cnt_def elem_cnt_def ELEM_BITS_def DIV_ROUND_UP_def)
  have "bitmap_buf_size n \<le> PGSIZE * n" using assms(1) unfolding bs PGSIZE_def by simp
  then have k: "k \<le> n" "8 + 4 * ((n + 31) div 32) \<le> k * PGSIZE"
    using div_round_up_4096(1)[of "bitmap_buf_size n"] div_round_up_4096(2)[of n "bitmap_buf_size n"] assms(1)
    by (auto simp: k_def bs PGSIZE_def)
  define st where "st = map (\<lambda>i. m (b + 8 + 4 * i)) [0..<(k * PGSIZE - 8) div 4]"
  have mono: "(n - k + 31) div 32 \<le> (n + 31) div 32" by (rule div_le_mono) simp
  have "elem_cnt (n - k) \<le> length st"
  proof -
    have "(n + 31) div 32 \<le> (k * PGSIZE - 8) div 4" using k(2) by linarith
    then show ?thesis using mono by (simp add: st_def elem_cnt_def ELEM_BITS_def DIV_ROUND_UP_def add.commute)
  qed
  moreover have "n - k < BITMAP_ERROR" using assms(4) by (simp add: BITMAP_ERROR_def PGSIZE_def)
  ultimately obtain bm where bm: "bitmap_set_all \<lparr>bit_cnt = n - k, bits = st\<rparr> False = Some bm" "bm_ok bm"
    "bm_bits bm = replicate (n - k) False" using bitmap_set_all_bm by blast
  have cnt: "bit_cnt bm = n - k" using arg_cong[OF bm(3), of length] by simp
  have clear: "\<not> bm_bit bm i" if "i < n - k" for i
    using nth_bm_bits[of i bm] bm(3) cnt that by simp
  have sz: "k * PGSIZE \<ge> bitmap_buf_size (n - k)"
  proof -
    have "8 + 4 * ((n - k + 31) div 32) \<le> k * PGSIZE" using k(2) mono by linarith
    then show ?thesis by (simp add: bitmap_buf_size_def byte_cnt_def elem_cnt_def ELEM_BITS_def DIV_ROUND_UP_def add.commute)
  qed
  let ?p = "\<lparr>used_map = bm, base = b + k * PGSIZE\<rparr>"
  have "init_pool b n m = Some ?p"
    using k(1) sz bm(1) unfolding init_pool_def Let_def k_def[symmetric] st_def[symmetric]
    by (simp add: bitmap_create_in_buf_def)
  moreover have e: "pool_end ?p = b + PGSIZE * n"
  proof -
    have "PGSIZE * k + PGSIZE * (n - k) = PGSIZE * n" using k(1) by (metis add_mult_distrib2 le_add_diff_inverse)
    then show ?thesis by (simp add: pool_end_def cnt mult.commute)
  qed
  moreover have "b + k * PGSIZE < 2 ^ 32"
  proof -
    have "k * PGSIZE \<le> PGSIZE * n" using k(1) by (simp add: mult.commute)
    then show ?thesis using assms(4) by linarith
  qed
  then have "pool_ok ?p" using assms(2-4) bm(2) e by (simp add: pool_ok_def pool_end_def mod_add_eq)
  moreover have "pool_used ?p = {}" using clear by (auto simp: pool_used_def cnt)
  ultimately show ?thesis by (intro exI[of _ ?p]) simp
qed

lemma palloc_init_ok:
  assumes "258 \<le> init_ram_pages" "init_ram_pages < 2 ^ 18" "0 < limit"
  shows "\<exists>s'. palloc_init init_ram_pages limit s = Some s' \<and> pmem_ok s' \<and> used s' = {} \<and> words s' = words s"
proof -
  let ?fs = "1024 * 1024 + PHYS_BASE" and ?fe = "init_ram_pages * PGSIZE + PHYS_BASE"
  have f: "ptov (1024 * 1024) = Some ?fs" "ptov (init_ram_pages * PGSIZE) = Some ?fe"
    using assms(2) by (simp_all add: ptov_def PHYS_BASE_def PGSIZE_def)
  define n where "n = (?fe - ?fs) div PGSIZE"
  have n: "n = init_ram_pages - 256" using assms(1) by (simp add: n_def PHYS_BASE_def PGSIZE_def)
  define u where "u = (if n div 2 > limit then limit else n div 2)"
  have u: "0 < u" "u < n" "2 \<le> n" using assms(1,3) n by (auto simp: u_def)
  have top: "?fs + PGSIZE * n < 2 ^ 32" using assms(1,2) n by (simp add: PHYS_BASE_def PGSIZE_def)
  have a: "?fs mod PGSIZE = 0" "PHYS_BASE < ?fs" by (simp_all add: PHYS_BASE_def PGSIZE_def)
  have "?fs + PGSIZE * (n - u) < 2 ^ 32" using top u(2) by (simp add: PGSIZE_def)
  then obtain k where k: "init_pool ?fs (n - u) (words s) = Some k" "pool_ok k" "pool_used k = {}"
    "pool_end k = ?fs + PGSIZE * (n - u)" using init_pool_ok[OF _ a, of "n - u" "words s"] u(2) by auto
  let ?us = "?fs + (n - u) * PGSIZE"
  have "?us + PGSIZE * u < 2 ^ 32" using top u(2) by (simp add: PGSIZE_def)
  moreover have "?us mod PGSIZE = 0" "PHYS_BASE < ?us" by (simp_all add: PHYS_BASE_def PGSIZE_def mod_add_eq)
  ultimately obtain q where q: "init_pool ?us u (words s) = Some q" "pool_ok q" "pool_used q = {}" "?us \<le> base q"
    using init_pool_ok[OF u(1), of ?us "words s"] by auto
  have "palloc_init init_ram_pages limit s = Some (s\<lparr>kernel_pool := k, user_pool := q\<rparr>)"
    using f k(1) q(1) unfolding palloc_init_def Let_def
    by (simp only: f n_def[symmetric] u_def[symmetric] Option.bind.bind_lunit)
  moreover have "pmem_ok (s\<lparr>kernel_pool := k, user_pool := q\<rparr>)"
    using k(2,4) q(2,4) by (simp add: pmem_ok_def mult.commute)
  ultimately show ?thesis using k(3) q(3) by (simp add: used_def)
qed

end
