(* ===== verification/Pagedir.thy ===== *)
theory Pagedir
  imports Palloc
begin

unbundle bit_operations_syntax

text \<open>
  userprog/pagedir.c: two-level page tables in the memory of the page allocator.  A page directory and
  a page table are pages of 1024 entries; the register CR3 holds the physical address of the active
  directory.  The lemmas show that a directory is a finite map from user pages to frames and access
  rights, which setting and clearing a page update, and that distinct pages never share a table entry.
\<close>

section \<open>Operations\<close>

record mmu = pmem +
  init_page_dir :: nat
  init_ram_pages :: nat
  cr3 :: nat

definition set_word :: "nat \<Rightarrow> 32 word \<Rightarrow> mmu \<Rightarrow> mmu" where
  "set_word a v s = s\<lparr>words := (words s)(a := v)\<rparr>"

definition pagedir_activate :: "addr \<Rightarrow> mmu \<Rightarrow> mmu option" where
  "pagedir_activate pd s = do {
     let pd = (if pd = NULL then init_page_dir s else pd);
     p \<leftarrow> vtop pd;
     Some (s\<lparr>cr3 := p\<rparr>) }"

definition active_pd :: "mmu \<Rightarrow> nat option" where
  "active_pd s = ptov (cr3 s)"

definition invalidate_pagedir :: "addr \<Rightarrow> mmu \<Rightarrow> mmu option" where
  "invalidate_pagedir pd s = do {
     a \<leftarrow> active_pd s;
     if a = pd then pagedir_activate pd s else Some s }"

definition pagedir_create :: "mmu \<Rightarrow> (addr \<times> mmu) option" where
  "pagedir_create s = do {
     (pd, s) \<leftarrow> palloc_get_page {} s;
     Some (pd, if pd \<noteq> NULL
       then s\<lparr>words := (\<lambda>x. if pd \<le> x \<and> x < pd + PGSIZE then words s (init_page_dir s + (x - pd)) else words s x)\<rparr>
       else s) }"

definition lookup_page :: "addr \<Rightarrow> nat \<Rightarrow> bool \<Rightarrow> mmu \<Rightarrow> (addr \<times> mmu) option" where
  "lookup_page pd vaddr create s = do {
     ASSERT (pd \<noteq> NULL);
     ASSERT (\<not> create \<or> is_user_vaddr vaddr);
     let pde = pd + 4 * pd_no vaddr;
     (found, s) \<leftarrow>
       (if words s pde = 0 then
          (if create then do {
             (pt, s) \<leftarrow> palloc_get_page {PAL_ZERO} s;
             if pt = NULL then Some (False, s)
             else do { e \<leftarrow> pde_create pt; Some (True, set_word pde e s) } }
           else Some (False, s))
        else Some (True, s));
     if \<not> found then Some (NULL, s)
     else do {
       pt \<leftarrow> pde_get_pt (words s pde);
       Some (pt + 4 * pt_no vaddr, s) } }"

definition pagedir_set_page :: "addr \<Rightarrow> nat \<Rightarrow> nat \<Rightarrow> bool \<Rightarrow> mmu \<Rightarrow> (bool \<times> mmu) option" where
  "pagedir_set_page pd upage kpage writable s = do {
     ASSERT (pg_ofs upage = 0);
     ASSERT (pg_ofs kpage = 0);
     ASSERT (is_user_vaddr upage);
     p \<leftarrow> vtop kpage;
     ASSERT (p div 2 ^ PTSHIFT < init_ram_pages s);
     ASSERT (pd \<noteq> init_page_dir s);
     (pte, s) \<leftarrow> lookup_page pd upage True s;
     if pte \<noteq> NULL then do {
       ASSERT (words s pte AND PTE_P = 0);
       e \<leftarrow> pte_create_user kpage writable;
       Some (True, set_word pte e s) }
     else Some (False, s) }"

definition pagedir_get_page :: "addr \<Rightarrow> nat \<Rightarrow> mmu \<Rightarrow> addr option" where
  "pagedir_get_page pd uaddr s = do {
     ASSERT (is_user_vaddr uaddr);
     (pte, s) \<leftarrow> lookup_page pd uaddr False s;
     if pte \<noteq> NULL \<and> words s pte AND PTE_P \<noteq> 0 then do {
       page \<leftarrow> pte_get_page (words s pte);
       Some (page + pg_ofs uaddr) }
     else Some NULL }"

definition pagedir_clear_page :: "addr \<Rightarrow> nat \<Rightarrow> mmu \<Rightarrow> mmu option" where
  "pagedir_clear_page pd upage s = do {
     ASSERT (pg_ofs upage = 0);
     ASSERT (is_user_vaddr upage);
     (pte, s) \<leftarrow> lookup_page pd upage False s;
     if pte \<noteq> NULL \<and> words s pte AND PTE_P \<noteq> 0
     then invalidate_pagedir pd (set_word pte (words s pte AND NOT PTE_P) s)
     else Some s }"

definition pagedir_is_dirty :: "addr \<Rightarrow> nat \<Rightarrow> mmu \<Rightarrow> bool option" where
  "pagedir_is_dirty pd vpage s = do {
     (pte, s) \<leftarrow> lookup_page pd vpage False s;
     Some (pte \<noteq> NULL \<and> words s pte AND PTE_D \<noteq> 0) }"

definition pagedir_set_dirty :: "addr \<Rightarrow> nat \<Rightarrow> bool \<Rightarrow> mmu \<Rightarrow> mmu option" where
  "pagedir_set_dirty pd vpage dirty s = do {
     (pte, s) \<leftarrow> lookup_page pd vpage False s;
     if pte \<noteq> NULL then
       (if dirty then Some (set_word pte (words s pte OR PTE_D) s)
        else invalidate_pagedir pd (set_word pte (words s pte AND NOT PTE_D) s))
     else Some s }"

definition pagedir_is_accessed :: "addr \<Rightarrow> nat \<Rightarrow> mmu \<Rightarrow> bool option" where
  "pagedir_is_accessed pd vpage s = do {
     (pte, s) \<leftarrow> lookup_page pd vpage False s;
     Some (pte \<noteq> NULL \<and> words s pte AND PTE_A \<noteq> 0) }"

definition pagedir_set_accessed :: "addr \<Rightarrow> nat \<Rightarrow> bool \<Rightarrow> mmu \<Rightarrow> mmu option" where
  "pagedir_set_accessed pd vpage accessed s = do {
     (pte, s) \<leftarrow> lookup_page pd vpage False s;
     if pte \<noteq> NULL then
       (if accessed then Some (set_word pte (words s pte OR PTE_A) s)
        else invalidate_pagedir pd (set_word pte (words s pte AND NOT PTE_A) s))
     else Some s }"

definition destroy_table :: "32 word \<Rightarrow> mmu \<Rightarrow> mmu option" where
  "destroy_table pde s = do {
     pt \<leftarrow> pde_get_pt pde;
     s \<leftarrow> for_upto 0 (PGSIZE div 4) (\<lambda>j s.
       let pte = words s (pt + 4 * j) in
       if pte AND PTE_P \<noteq> 0 then do { page \<leftarrow> pte_get_page pte; palloc_free_page page s } else Some s) s;
     palloc_free_page pt s }"

definition pagedir_destroy :: "addr \<Rightarrow> mmu \<Rightarrow> mmu option" where
  "pagedir_destroy pd s =
     (if pd = NULL then Some s
      else do {
        ASSERT (pd \<noteq> init_page_dir s);
        s \<leftarrow> for_upto 0 (pd_no PHYS_BASE) (\<lambda>i s.
          let pde = words s (pd + 4 * i) in
          if pde AND PTE_P \<noteq> 0 then destroy_table pde s else Some s) s;
        palloc_free_page pd s })"

section \<open>A directory as a map\<close>

text \<open>The table of a directory entry, the entry of a page, and what the directory maps a page to.\<close>

definition table_of :: "mmu \<Rightarrow> addr \<Rightarrow> nat \<Rightarrow> addr option" where
  "table_of s pd i = (let e = words s (pd + 4 * i) in if e = 0 then None else pde_get_pt e)"

definition entry_of :: "mmu \<Rightarrow> addr \<Rightarrow> nat \<Rightarrow> addr option" where
  "entry_of s pd va = do { pt \<leftarrow> table_of s pd (pd_no va); Some (pt + 4 * pt_no va) }"

definition frame_of :: "32 word \<Rightarrow> (nat \<times> bool) option" where
  "frame_of e = (if e AND PTE_P = 0 then None
     else (case pte_get_page e of None \<Rightarrow> None | Some k \<Rightarrow> Some (k, e AND PTE_W \<noteq> 0)))"

definition user_page :: "nat \<Rightarrow> bool" where
  "user_page u \<longleftrightarrow> u < PHYS_BASE \<and> u mod PGSIZE = 0"

definition page_map :: "mmu \<Rightarrow> addr \<Rightarrow> nat \<Rightarrow> (nat \<times> bool) option" where
  "page_map s pd u = (if \<not> user_page u then None
     else do { a \<leftarrow> entry_of s pd u; frame_of (words s a) })"

text \<open>A well-formed directory: it and its tables are pages in use, all different.\<close>

definition pd_ok :: "mmu \<Rightarrow> addr \<Rightarrow> bool" where
  "pd_ok s pd \<longleftrightarrow> pmem_ok s \<and> pd \<in> used s \<and> pd \<noteq> init_page_dir s \<and> (\<exists>a. active_pd s = Some a)
     \<and> (\<forall>i < 768. words s (pd + 4 * i) \<noteq> 0 \<longrightarrow>
          (\<exists>pt. table_of s pd i = Some pt \<and> pt \<in> used s \<and> pt \<noteq> pd))
     \<and> (\<forall>i < 768. \<forall>j < 768. \<forall>pt. table_of s pd i = Some pt \<longrightarrow> table_of s pd j = Some pt \<longrightarrow> i = j)
     \<and> (\<forall>i < 768. \<forall>k < 1024. \<forall>pt. table_of s pd i = Some pt \<longrightarrow> words s (pt + 4 * k) AND PTE_P \<noteq> 0
          \<longrightarrow> pte_get_page (words s (pt + 4 * k)) \<noteq> None)"

lemma user_idx:
  assumes "va < PHYS_BASE"
  shows "pd_no va < 768" "pt_no va < 1024" "va < 2 ^ 32"
proof -
  show va: "va < 2 ^ 32" using assms by (simp add: PHYS_BASE_def)
  show "pd_no va < 768" "pt_no va < 1024"
    using assms by (simp_all add: pd_no_div[OF va] pt_no_div[OF va] PHYS_BASE_def)
qed

text \<open>Pages are determined by the two indices.\<close>

lemma page_idx_inj:
  assumes "user_page u" "user_page v" "pd_no u = pd_no v" "pt_no u = pt_no v"
  shows "u = v"
proof -
  have b: "u < 2 ^ 32" "v < 2 ^ 32" using assms(1,2) by (simp_all add: user_page_def PHYS_BASE_def)
  have "u div PGSIZE div 1024 = v div PGSIZE div 1024" "u div PGSIZE mod 1024 = v div PGSIZE mod 1024"
    using assms(3,4) by (simp_all add: pd_no_div[OF b(1)] pd_no_div[OF b(2)] pt_no_div[OF b(1)] pt_no_div[OF b(2)] PGSIZE_def flip: div_mult2_eq)
  then have "u div PGSIZE = v div PGSIZE" by (metis div_mod_decomp)
  then show ?thesis using assms(1,2) unfolding user_page_def by (metis div_mod_decomp)
qed

text \<open>Entries made for a page lead back to it.\<close>

lemma vtop_32: "p < 2 ^ 32 \<Longrightarrow> PHYS_BASE \<le> p \<Longrightarrow> vtop p = Some (p - PHYS_BASE) \<and> p - PHYS_BASE < 2 ^ 30"
  by (simp add: vtop_def is_kernel_vaddr_def PHYS_BASE_def)

lemma ptov_vtop: "p < 2 ^ 32 \<Longrightarrow> PHYS_BASE \<le> p \<Longrightarrow> ptov (p - PHYS_BASE) = Some p"
  by (simp add: ptov_def PHYS_BASE_def)

lemma aligned_phys: "p mod PGSIZE = 0 \<Longrightarrow> PHYS_BASE \<le> p \<Longrightarrow> (p - PHYS_BASE) mod PGSIZE = 0"
proof -
  assume p: "p mod PGSIZE = 0" "PHYS_BASE \<le> p"
  then obtain d where "p = PGSIZE * 786432 + d" by (auto simp: PHYS_BASE_def PGSIZE_def dest: le_Suc_ex)
  moreover have "(PGSIZE * 786432 + d) mod PGSIZE = d mod PGSIZE" by (simp only: mod_mult_self4)
  moreover have "p - PHYS_BASE = d" using calculation(1) by (simp add: PHYS_BASE_def PGSIZE_def)
  ultimately show ?thesis using p(1) by metis
qed

lemma pde_roundtrip:
  assumes "pt < 2 ^ 32" "PHYS_BASE \<le> pt" "pt mod PGSIZE = 0"
  shows "\<exists>e. pde_create pt = Some e \<and> e \<noteq> 0 \<and> e AND PTE_P \<noteq> 0 \<and> pde_get_pt e = Some pt"
proof -
  let ?p = "pt - PHYS_BASE"
  let ?e = "w32 ?p OR PTE_U OR PTE_P OR PTE_W"
  have p: "?p < 2 ^ 32" "?p mod PGSIZE = 0" using assms aligned_phys by auto
  have "PTE_U OR PTE_P OR PTE_W = w32 7" by (simp add: PTE_U_def PTE_P_def PTE_W_def)
  then have "?e AND PTE_ADDR = w32 ?p" using entry_addr[OF p, of 7] by (simp add: or.assoc)
  then have a: "unat (?e AND PTE_ADDR) = ?p" using p(1) by simp
  have b: "bit ?e 0" by (simp add: PTE_P_def bit_simps)
  then have n: "?e AND PTE_P \<noteq> 0" by (simp add: PTE_P_def and_one_eq mod_2_eq_odd bit_0)
  then have "?e \<noteq> 0" by auto
  moreover have "pde_create pt = Some ?e"
    using assms pg_ofs_mod[OF assms(1)] vtop_32[OF assms(1,2)] by (simp add: pde_create_def)
  ultimately show ?thesis using a n ptov_vtop[OF assms(1,2)] by (simp add: pde_get_pt_def)
qed

lemma pte_roundtrip:
  assumes "k < 2 ^ 32" "PHYS_BASE \<le> k" "k mod PGSIZE = 0"
  shows "\<exists>e. pte_create_user k w = Some e \<and> frame_of e = Some (k, w) \<and> frame_of (e AND NOT PTE_P) = None"
proof -
  let ?p = "k - PHYS_BASE"
  define e where "e = w32 ?p OR PTE_P OR (if w then PTE_W else 0) OR PTE_U"
  have p: "?p < 2 ^ 32" "?p mod PGSIZE = 0" using assms aligned_phys by auto
  have "PTE_P OR (if w then PTE_W else 0) OR PTE_U = w32 (if w then 7 else 5)"
    by (simp add: PTE_U_def PTE_P_def PTE_W_def)
  then have "e AND PTE_ADDR = w32 ?p" using entry_addr[OF p, of "if w then 7 else 5"] by (simp add: e_def or.assoc)
  then have a: "pte_get_page e = Some k" using p(1) ptov_vtop[OF assms(1,2)] by (simp add: pte_get_page_def)
  have "take_bit 12 (w32 ?p) = 0"
  proof -
    have "unat (take_bit 12 (w32 ?p)) = 0"
      using p by (simp add: unsigned_take_bit_eq take_bit_nat_def PGSIZE_def)
    then show ?thesis by (simp add: unsigned_eq_0_iff)
  qed
  then have lo: "\<not> bit (w32 ?p) n" if "n < 12" for n
    using that by (metis bit_take_bit_iff bit_0_eq bot_apply bot_bool_def)
  have one: "v AND PTE_P \<noteq> 0 \<longleftrightarrow> bit v 0" "v AND PTE_W \<noteq> 0 \<longleftrightarrow> bit v 1" for v :: "32 word"
    using and_exp_eq_0_iff_not_bit[of v 0] and_exp_eq_0_iff_not_bit[of v 1] by (simp_all add: PTE_P_def PTE_W_def)
  have b0: "bit e 0" by (simp add: e_def bit_or_iff PTE_P_def)
  have b1: "bit e 1 \<longleftrightarrow> w"
  proof -
    have "bit PTE_W 1" "\<not> bit PTE_P 1" "\<not> bit PTE_U 1" unfolding PTE_W_def PTE_P_def PTE_U_def by code_simp+
    then show ?thesis using lo[of 1] by (simp add: e_def bit_or_iff)
  qed
  have "\<not> bit (e AND NOT PTE_P) 0" by (simp add: bit_and_iff bit_not_iff PTE_P_def)
  then have "frame_of (e AND NOT PTE_P) = None" using one(1)[of "e AND NOT PTE_P"] by (simp only: frame_of_def if_True simp_thms)
  moreover have "frame_of e = Some (k, w)"
    using one[of e] b0 b1 a by (simp only: frame_of_def if_False simp_thms option.case)
  moreover have "pte_create_user k w = Some e"
    using assms pg_ofs_mod[OF assms(1)] vtop_32[OF assms(1,2)]
    by (simp add: pte_create_user_def pte_create_kernel_def or.assoc e_def)
  ultimately show ?thesis by blast
qed

section \<open>Tables do not overlap\<close>

lemma pd_okD:
  assumes "pd_ok s pd"
  shows "pmem_ok s" "pd \<in> used s" "pd \<noteq> init_page_dir s" "\<exists>a. active_pd s = Some a"
    "i < 768 \<Longrightarrow> words s (pd + 4 * i) \<noteq> 0 \<Longrightarrow> \<exists>pt. table_of s pd i = Some pt \<and> pt \<in> used s \<and> pt \<noteq> pd"
    "i < 768 \<Longrightarrow> table_of s pd i = Some pt \<Longrightarrow> pt \<in> used s \<and> pt \<noteq> pd"
    "i < 768 \<Longrightarrow> j < 768 \<Longrightarrow> table_of s pd i = Some pt \<Longrightarrow> table_of s pd j = Some pt \<Longrightarrow> i = j"
    "i < 768 \<Longrightarrow> k < 1024 \<Longrightarrow> table_of s pd i = Some pt \<Longrightarrow> words s (pt + 4 * k) AND PTE_P \<noteq> 0
      \<Longrightarrow> pte_get_page (words s (pt + 4 * k)) \<noteq> None"
proof -
  show i: "i < 768 \<Longrightarrow> words s (pd + 4 * i) \<noteq> 0 \<Longrightarrow> \<exists>pt. table_of s pd i = Some pt \<and> pt \<in> used s \<and> pt \<noteq> pd"
    using assms unfolding pd_ok_def by blast
  show "i < 768 \<Longrightarrow> table_of s pd i = Some pt \<Longrightarrow> pt \<in> used s \<and> pt \<noteq> pd"
    using i by (cases "words s (pd + 4 * i) = 0") (auto simp: table_of_def Let_def)
qed (use assms in \<open>unfold pd_ok_def, blast+\<close>)

text \<open>Two words of different pages have different addresses.\<close>

lemma page_words:
  assumes "p mod PGSIZE = 0" "q mod PGSIZE = 0" "j < 1024" "k < 1024" "p + 4 * j = q + 4 * k"
  shows "p = q \<and> j = k"
proof -
  have "(p + 4 * j) div PGSIZE = p div PGSIZE" "(q + 4 * k) div PGSIZE = q div PGSIZE"
    using assms(1-4) by (auto simp: PGSIZE_def elim!: dvdE)
  then have "p div PGSIZE = q div PGSIZE" using assms(5) by simp
  then have "p = q" using assms(1,2) by (metis div_mod_decomp)
  then show ?thesis using assms(5) by simp
qed

lemma entry_of_table:
  assumes "pd_ok s pd" "u < PHYS_BASE" "entry_of s pd u = Some a"
  obtains pt where "table_of s pd (pd_no u) = Some pt" "a = pt + 4 * pt_no u" "pt \<in> used s" "pt mod PGSIZE = 0" "pt \<noteq> pd"
proof -
  obtain pt where pt: "table_of s pd (pd_no u) = Some pt" "a = pt + 4 * pt_no u"
    using assms(3) by (auto simp: entry_of_def bind_eq_Some_conv)
  have u: "pt \<in> used s" "pt \<noteq> pd" using pd_okD(6)[OF assms(1) user_idx(1)[OF assms(2)] pt(1)] by simp_all
  show ?thesis by (rule that[OF pt u(1) used_page(1)[OF pd_okD(1)[OF assms(1)] u(1)] u(2)])
qed

lemma entry_inj:
  assumes "pd_ok s pd" "user_page u" "user_page v" "entry_of s pd u = Some a" "entry_of s pd v = Some a"
  shows "u = v"
proof -
  have b: "u < PHYS_BASE" "v < PHYS_BASE" using assms(2,3) by (simp_all add: user_page_def)
  obtain p where p: "table_of s pd (pd_no u) = Some p" "a = p + 4 * pt_no u" "p mod PGSIZE = 0"
    by (rule entry_of_table[OF assms(1) b(1) assms(4)])
  obtain q where q: "table_of s pd (pd_no v) = Some q" "a = q + 4 * pt_no v" "q mod PGSIZE = 0"
    by (rule entry_of_table[OF assms(1) b(2) assms(5)])
  have "p = q" "pt_no u = pt_no v" using page_words[OF p(3) q(3) user_idx(2)[OF b(1)] user_idx(2)[OF b(2)]] p(2) q(2) by auto
  then show ?thesis using pd_okD(7)[OF assms(1) user_idx(1)[OF b(1)] user_idx(1)[OF b(2)] p(1)] q(1) page_idx_inj[OF assms(2,3)] by simp
qed

section \<open>What stays as it is\<close>

text \<open>The pages of a directory, and a step that changes these and new pages only.\<close>

definition pd_pages :: "mmu \<Rightarrow> addr \<Rightarrow> nat set" where
  "pd_pages s pd = insert pd {pt. \<exists>i < 768. table_of s pd i = Some pt}"

definition grows :: "addr \<Rightarrow> mmu \<Rightarrow> mmu \<Rightarrow> bool" where
  "grows pd s s' \<longleftrightarrow> used s \<subseteq> used s' \<and> pd_pages s' pd \<inter> used s \<subseteq> pd_pages s pd
     \<and> (\<forall>q \<in> used s - pd_pages s pd. \<forall>k < 1024. words s' (q + 4 * k) = words s (q + 4 * k))
     \<and> init_ram_pages s' = init_ram_pages s \<and> pool_end (user_pool s') = pool_end (user_pool s) \<and> active_pd s' = active_pd s"

lemma grows_refl: "grows pd s s"
  by (simp add: grows_def)

lemma grows_trans:
  assumes "grows pd s t" "grows pd t u"
  shows "grows pd s u"
  unfolding grows_def
proof (intro conjI ballI allI impI)
  fix q k :: nat assume q: "q \<in> used s - pd_pages s pd" "k < 1024"
  then have "q \<in> used t - pd_pages t pd" using assms(1) by (auto simp: grows_def)
  then show "words u (q + 4 * k) = words s (q + 4 * k)" using assms q by (simp add: grows_def)
next
  show "pd_pages u pd \<inter> used s \<subseteq> pd_pages s pd" "used s \<subseteq> used u" using assms unfolding grows_def by blast+
qed (use assms in \<open>simp_all add: grows_def\<close>)

lemma pd_pages_used: "pd_ok s pd \<Longrightarrow> pd_pages s pd \<subseteq> used s"
  using pd_okD(2,6) by (fastforce simp: pd_pages_def)

section \<open>Changing one entry\<close>

lemma set_word_simps [simp]:
  "used (set_word a e s) = used s" "pmem_ok (set_word a e s) = pmem_ok s"
  "init_page_dir (set_word a e s) = init_page_dir s" "active_pd (set_word a e s) = active_pd s"
  "init_ram_pages (set_word a e s) = init_ram_pages s" "cr3 (set_word a e s) = cr3 s"
  by (simp_all add: set_word_def used_def pmem_ok_def active_pd_def)

lemma set_entry:
  assumes "pd_ok s pd" "user_page u" "entry_of s pd u = Some a" "e AND PTE_P \<noteq> 0 \<Longrightarrow> pte_get_page e \<noteq> None"
  shows "pd_ok (set_word a e s) pd" "page_map (set_word a e s) pd = (page_map s pd)(u := frame_of e)"
    "grows pd s (set_word a e s)"
proof -
  have u: "u < PHYS_BASE" using assms(2) by (simp add: user_page_def)
  obtain pt where pt: "table_of s pd (pd_no u) = Some pt" "a = pt + 4 * pt_no u" "pt mod PGSIZE = 0" "pt \<noteq> pd"
    by (rule entry_of_table[OF assms(1) u assms(3)])
  have pd: "pd mod PGSIZE = 0" using used_page(1)[OF pd_okD(1,2)[OF assms(1)]] .
  have ne: "pd + 4 * i \<noteq> a" if "i < 1024" for i
  proof
    assume "pd + 4 * i = a"
    then have "pd + 4 * i = pt + 4 * pt_no u" unfolding pt(2) .
    from page_words[OF pd pt(3) that user_idx(2)[OF u] this] show False using pt(4) by simp
  qed
  have t: "table_of (set_word a e s) pd i = table_of s pd i" if "i < 768" for i
    using ne[of i] that by (simp add: table_of_def set_word_def)
  have w: "words (set_word a e s) (pd + 4 * i) = words s (pd + 4 * i)" if "i < 768" for i
    using ne[of i] that by (simp add: set_word_def)
  have en: "entry_of (set_word a e s) pd v = entry_of s pd v" if "v < PHYS_BASE" for v
    using t user_idx(1)[OF that] by (simp add: entry_of_def)
  have wx: "words (set_word a e s) x = (if x = a then e else words s x)" for x by (simp add: set_word_def)
  have "a \<noteq> q + 4 * k" if "q \<in> used s - pd_pages s pd" "k < 1024" for q k
  proof
    assume e: "a = q + 4 * k"
    have "q mod PGSIZE = 0" using used_page(1)[OF pd_okD(1)[OF assms(1)]] that(1) by blast
    from page_words[OF pt(3) this user_idx(2)[OF u] that(2) trans[OF pt(2)[symmetric] e]] have "pt = q" by (rule conjunct1)
    then show False using that(1) pt(1) user_idx(1)[OF u] by (auto simp: pd_pages_def)
  qed
  moreover have "pd_pages (set_word a e s) pd = pd_pages s pd" using t by (auto simp: pd_pages_def)
  ultimately show "grows pd s (set_word a e s)" by (auto simp: grows_def wx) (auto simp: set_word_def)
  show "pd_ok (set_word a e s) pd"
    unfolding pd_ok_def set_word_simps
  proof (intro conjI allI impI)
    fix i k p assume i: "i < 768" "k < 1024" "table_of (set_word a e s) pd i = Some p"
      "words (set_word a e s) (p + 4 * k) AND PTE_P \<noteq> 0"
    then show "pte_get_page (words (set_word a e s) (p + 4 * k)) \<noteq> None"
      using assms(4) pd_okD(8)[OF assms(1) i(1,2)] t[OF i(1)] unfolding wx by (auto split: if_splits)
  next
    fix i assume "i < 768" "words (set_word a e s) (pd + 4 * i) \<noteq> 0"
    then show "\<exists>pt. table_of (set_word a e s) pd i = Some pt \<and> pt \<in> used s \<and> pt \<noteq> pd"
      using pd_okD(5)[OF assms(1)] t w by simp
  next
    fix i j p assume "i < 768" "j < 768" "table_of (set_word a e s) pd i = Some p" "table_of (set_word a e s) pd j = Some p"
    then show "i = j" using pd_okD(7)[OF assms(1)] t by simp
  qed (use pd_okD(1-4)[OF assms(1)] in auto)
  show "page_map (set_word a e s) pd = (page_map s pd)(u := frame_of e)"
  proof
    fix v show "page_map (set_word a e s) pd v = ((page_map s pd)(u := frame_of e)) v"
    proof (cases "user_page v")
      case True
      then have v: "v < PHYS_BASE" by (simp add: user_page_def)
      show ?thesis
      proof (cases "entry_of s pd v")
        case (Some b)
        then have "b = a \<longleftrightarrow> v = u" using entry_inj[OF assms(1) True assms(2)] assms(3) by auto
        then show ?thesis using Some True en[OF v] by (simp add: page_map_def wx)
      qed (use True en[OF v] assms(3) in \<open>auto simp: page_map_def\<close>)
    qed (use assms(2) in \<open>auto simp: page_map_def\<close>)
  qed
qed

section \<open>Looking up\<close>

lemma lookup_found:
  assumes "pd_ok s pd" "va < PHYS_BASE" "entry_of s pd va = Some a"
  shows "lookup_page pd va c s = Some (a, s)" "a \<noteq> NULL"
proof -
  obtain pt where pt: "table_of s pd (pd_no va) = Some pt" "a = pt + 4 * pt_no va" "pt \<in> used s"
    by (rule entry_of_table[OF assms])
  have pd: "pd \<noteq> NULL" using used_page(4)[OF pd_okD(1,2)[OF assms(1)]] by blast
  show "lookup_page pd va c s = Some (a, s)"
    using pt(1,2) pd assms(2) by (auto simp: lookup_page_def table_of_def Let_def is_user_vaddr_def split: if_splits)
  show "a \<noteq> NULL" using pt(2) used_page(4)[OF pd_okD(1)[OF assms(1)] pt(3)] by simp
qed

lemma entry_None:
  assumes "pd_ok s pd" "va < PHYS_BASE" "entry_of s pd va = None"
  shows "words s (pd + 4 * pd_no va) = 0"
proof (rule ccontr)
  assume "words s (pd + 4 * pd_no va) \<noteq> 0"
  then obtain pt where "table_of s pd (pd_no va) = Some pt"
    using pd_okD(5)[OF assms(1) user_idx(1)[OF assms(2)]] by blast
  then show False using assms(3) by (simp add: entry_of_def)
qed

lemma lookup_none:
  assumes "pd_ok s pd" "va < PHYS_BASE" "entry_of s pd va = None"
  shows "lookup_page pd va False s = Some (NULL, s)"
  using entry_None[OF assms] used_page(4)[OF pd_okD(1,2)[OF assms(1)]]
  by (simp add: lookup_page_def)

lemma lookup_create:
  assumes "pd_ok s pd" "va < PHYS_BASE" "entry_of s pd va = None"
  shows "\<exists>a s'. lookup_page pd va True s = Some (a, s') \<and> pd_ok s' pd \<and> page_map s' pd = page_map s pd
    \<and> (a \<noteq> NULL \<longrightarrow> entry_of s' pd va = Some a \<and> words s' a = 0) \<and> grows pd s s'"
proof -
  let ?pde = "pd + 4 * pd_no va"
  note ok = pd_okD(1)[OF assms(1)] and idx = user_idx[OF assms(2)]
  have z: "words s ?pde = 0" by (rule entry_None[OF assms])
  have pd: "pd \<noteq> NULL" "pd mod PGSIZE = 0" using used_page[OF ok pd_okD(2)[OF assms(1)]] by blast+
  obtain pt t where g: "palloc_get_page {PAL_ZERO} s = Some (pt, t)" "pmem_ok t" "pmem.more t = pmem.more s"
    and c: "if pt = NULL then t = s
       else run pt 1 \<inter> used s = {} \<and> used t = used s \<union> run pt 1 \<and> pt mod PGSIZE = 0 \<and> PHYS_BASE < pt
         \<and> pt + PGSIZE * 1 \<le> 2 ^ 32
         \<and> words t = (\<lambda>x. if PAL_ZERO \<in> {PAL_ZERO} \<and> pt \<le> x \<and> x < pt + PGSIZE * 1 then 0 else words s x)"
    using palloc_get_spec[OF ok, of 1 "{PAL_ZERO}"] by (auto simp: palloc_get_page_def)
  show ?thesis
  proof (cases "pt = NULL")
    case True
    then have "lookup_page pd va True s = Some (NULL, s)"
      using g(1) c z pd assms(2) by (simp add: lookup_page_def is_user_vaddr_def)
    then show ?thesis using assms(1) grows_refl by blast
  next
    case False
    then have pt: "pt \<notin> used s" "used t = insert pt (used s)" "pt mod PGSIZE = 0" "PHYS_BASE < pt" "pt < 2 ^ 32"
      "words t = (\<lambda>x. if pt \<le> x \<and> x < pt + PGSIZE then 0 else words s x)" using c by (auto simp: PGSIZE_def)
    have "PHYS_BASE \<le> pt" using pt(4) by simp
    then obtain e where e: "pde_create pt = Some e" "e \<noteq> 0" "e AND PTE_P \<noteq> 0" "pde_get_pt e = Some pt"
      using pde_roundtrip[OF pt(5) _ pt(3)] by blast
    let ?t = "set_word ?pde e t"
    have ptpd: "pt \<noteq> pd" using pt(1) pd_okD(2)[OF assms(1)] by blast
    have lk: "lookup_page pd va True s = Some (pt + 4 * pt_no va, ?t)"
      using g(1) z pd e False assms(2) by (simp add: lookup_page_def is_user_vaddr_def Let_def set_word_def)
    have out: "words t (q + 4 * k) = words s (q + 4 * k)" if "q mod PGSIZE = 0" "q \<noteq> pt" "k < 1024" for q k
    proof -
      have "\<not> (pt \<le> q + 4 * k \<and> q + 4 * k < pt + PGSIZE)"
      proof
        assume b: "pt \<le> q + 4 * k \<and> q + 4 * k < pt + PGSIZE"
        have "(q + 4 * k) div PGSIZE = q div PGSIZE" using that(1,3) by (auto simp: PGSIZE_def elim!: dvdE)
        moreover have "(q + 4 * k) div PGSIZE = pt div PGSIZE" using b pt(3) by (auto simp: PGSIZE_def elim!: dvdE)
        ultimately have "q div PGSIZE = pt div PGSIZE" by simp
        then show False using that(1,2) pt(3) by (metis div_mod_decomp)
      qed
      then show ?thesis unfolding pt(6) by (rule if_not_P)
    qed
    have wpd: "words ?t (pd + 4 * i) = (if i = pd_no va then e else words s (pd + 4 * i))" if "i < 768" for i
      using out[OF pd(2), of i] ptpd that by (auto simp: set_word_def)
    have tb: "table_of ?t pd i = (if i = pd_no va then Some pt else table_of s pd i)" if "i < 768" for i
      using wpd[OF that] e(2,4) by (simp add: table_of_def)
    have wq: "words ?t (q + 4 * k) = words s (q + 4 * k)" if "q \<in> used s" "q \<noteq> pd" "k < 1024" for q k
    proof -
      have q: "q mod PGSIZE = 0" "q \<noteq> pt" using used_page(1)[OF ok that(1)] that(1) pt(1) by auto
      have "q + 4 * k \<noteq> ?pde" using page_words[OF q(1) pd(2) that(3)] idx(1) that(2) by auto
      then show ?thesis using out[OF q that(3)] by (simp add: set_word_def)
    qed
    have wz: "words ?t (pt + 4 * k) = 0" if "k < 1024" for k
    proof -
      have "pt + 4 * k \<noteq> ?pde" using page_words[OF pt(3) pd(2) that] idx(1) ptpd by auto
      then show ?thesis using that by (simp add: set_word_def pt(6) PGSIZE_def)
    qed
    have more: "init_page_dir t = init_page_dir s" "active_pd t = active_pd s"
      using g(3) by (simp_all add: active_pd_def) (metis mmu.select_convs mmu.surjective pmem.select_convs(4))+
    have old: "pt' \<in> used s" "pt' \<noteq> pd" "pt' \<noteq> pt" if "i < 768" "table_of s pd i = Some pt'" for i pt'
      using pd_okD(6)[OF assms(1) that] pt(1) by auto
    have ok': "pd_ok ?t pd"
      unfolding pd_ok_def set_word_simps more
    proof (intro conjI allI impI)
      show "pmem_ok t" "pd \<in> used t" "pd \<noteq> init_page_dir s" "\<exists>a. active_pd s = Some a"
        using g(2) pt(2) pd_okD(2-4)[OF assms(1)] by auto
    next
      fix i assume i: "i < 768" "words ?t (pd + 4 * i) \<noteq> 0"
      then show "\<exists>p. table_of ?t pd i = Some p \<and> p \<in> used t \<and> p \<noteq> pd"
        using tb[OF i(1)] wpd[OF i(1)] pd_okD(5)[OF assms(1) i(1)] pt(2) ptpd by (auto split: if_splits)
    next
      fix i j p assume i: "i < 768" "j < 768" "table_of ?t pd i = Some p" "table_of ?t pd j = Some p"
      have "table_of s pd i \<noteq> Some pt" "table_of s pd j \<noteq> Some pt" using old(3)[OF i(1)] old(3)[OF i(2)] by blast+
      then show "i = j" using i(3,4) tb[OF i(1)] tb[OF i(2)] pd_okD(7)[OF assms(1) i(1,2)] by (metis option.inject)
    next
      fix i k p assume i: "i < 768" "k < 1024" "table_of ?t pd i = Some p" "words ?t (p + 4 * k) AND PTE_P \<noteq> 0"
      show "pte_get_page (words ?t (p + 4 * k)) \<noteq> None"
      proof (cases "i = pd_no va")
        case True
        then show ?thesis using i wz tb by simp
      next
        case False
        then have "table_of s pd i = Some p" using i tb by simp
        then show ?thesis using i wq[of p k] old[OF i(1)] pd_okD(8)[OF assms(1) i(1,2)] by simp
      qed
    qed
    have en: "entry_of ?t pd va = Some (pt + 4 * pt_no va)" using tb[OF idx(1)] by (simp add: entry_of_def)
    have "page_map ?t pd v = page_map s pd v" for v
    proof (cases "user_page v")
      case True
      then have v: "v < PHYS_BASE" by (simp add: user_page_def)
      show ?thesis
      proof (cases "pd_no v = pd_no va")
        case True
        have "entry_of s pd v = None" using entry_None[OF assms] True assms(3) by (simp add: entry_of_def table_of_def)
        moreover have "entry_of ?t pd v = Some (pt + 4 * pt_no v)" using tb[OF user_idx(1)[OF v]] True by (simp add: entry_of_def)
        ultimately show ?thesis using wz[OF user_idx(2)[OF v]] by (simp add: page_map_def frame_of_def)
      next
        case False
        then have t: "table_of ?t pd (pd_no v) = table_of s pd (pd_no v)" using tb[OF user_idx(1)[OF v]] by simp
        then show ?thesis
          using old[OF user_idx(1)[OF v]] wq[OF _ _ user_idx(2)[OF v]]
          by (cases "table_of s pd (pd_no v)") (auto simp: page_map_def entry_of_def)
      qed
    qed (simp add: page_map_def)
    then have m: "page_map ?t pd = page_map s pd" by (rule ext)
    have "pd_pages ?t pd \<inter> used s \<subseteq> pd_pages s pd"
    proof
      fix q assume q: "q \<in> pd_pages ?t pd \<inter> used s"
      then consider "q = pd" | i where "i < 768" "table_of ?t pd i = Some q" by (auto simp: pd_pages_def)
      then show "q \<in> pd_pages s pd"
        using tb q pt(1) by cases (auto simp: pd_pages_def split: if_splits)
    qed
    moreover have "init_ram_pages ?t = init_ram_pages s" using g(3) by simp (metis mmu.select_convs mmu.surjective pmem.select_convs(4))
    moreover have "user_pool ?t = user_pool t" by (simp add: set_word_def)
    then have "pool_end (user_pool ?t) = pool_end (user_pool s)"
      using palloc_get_geom(1)[OF ok _ g(1)[unfolded palloc_get_page_def]] by simp
    moreover have "used s \<subseteq> used ?t" using pt(2) by auto
    moreover have "words ?t (q + 4 * k) = words s (q + 4 * k)" if "q \<in> used s - pd_pages s pd" "k < 1024" for q k
      using wq[of q k] that by (simp add: pd_pages_def)
    ultimately have "grows pd s ?t" unfolding grows_def using more(2) by simp
    then show ?thesis using lk ok' en wz[OF idx(2)] m by blast
  qed
qed

section \<open>The operations on the map\<close>

lemma user_page_ofs: "user_page u \<Longrightarrow> pg_ofs u = 0 \<and> is_user_vaddr u"
  using pg_ofs_mod[of u] by (simp add: user_page_def is_user_vaddr_def PHYS_BASE_def)

lemma page_map_entry:
  assumes "pd_ok s pd" "user_page u" "entry_of s pd u = Some a"
  shows "page_map s pd u = None \<longleftrightarrow> words s a AND PTE_P = 0"
proof -
  have u: "u < PHYS_BASE" using assms(2) by (simp add: user_page_def)
  obtain pt where "table_of s pd (pd_no u) = Some pt" "a = pt + 4 * pt_no u"
    by (rule entry_of_table[OF assms(1) u assms(3)])
  then have "words s a AND PTE_P = 0 \<or> (\<exists>k. pte_get_page (words s a) = Some k)"
    using pd_okD(8)[OF assms(1) user_idx(1,2)[OF u]] by blast
  then show ?thesis using assms(2,3) by (auto simp: page_map_def frame_of_def)
qed

lemma pagedir_set_page_map:
  assumes "pd_ok s pd" "user_page u" "page_map s pd u = None" "k mod PGSIZE = 0" "PHYS_BASE \<le> k" "k < 2 ^ 32"
    "(k - PHYS_BASE) div PGSIZE < init_ram_pages s"
  shows "\<exists>r s'. pagedir_set_page pd u k w s = Some (r, s') \<and> pd_ok s' pd
    \<and> page_map s' pd = (if r then (page_map s pd)(u \<mapsto> (k, w)) else page_map s pd) \<and> grows pd s s'"
proof -
  have u: "u < PHYS_BASE" using assms(2) by (simp add: user_page_def)
  obtain a t where a: "lookup_page pd u True s = Some (a, t)" "pd_ok t pd" "page_map t pd = page_map s pd"
    "a \<noteq> NULL \<longrightarrow> entry_of t pd u = Some a" "grows pd s t"
  proof (cases "entry_of s pd u")
    case (Some b)
    show ?thesis by (rule that[OF lookup_found(1)[OF assms(1) u Some] assms(1) refl]) (simp_all add: Some grows_refl)
  next
    case None
    from lookup_create[OF assms(1) u None] show ?thesis using that by blast
  qed
  obtain e where e: "pte_create_user k w = Some e" "frame_of e = Some (k, w)" using pte_roundtrip[OF assms(6,5,4)] by blast
  have pre: "pg_ofs u = 0" "pg_ofs k = 0" "is_user_vaddr u" "vtop k = Some (k - PHYS_BASE)"
    "(k - PHYS_BASE) div 2 ^ PTSHIFT < init_ram_pages s" "pd \<noteq> init_page_dir s"
    using user_page_ofs[OF assms(2)] pg_ofs_mod[OF assms(6)] assms(4,7) vtop_32[OF assms(6,5)] pd_okD(3)[OF assms(1)]
    by (simp_all add: PTSHIFT_def PGBITS_def PGSIZE_def)
  show ?thesis
  proof (cases "a = NULL")
    case True
    then have "pagedir_set_page pd u k w s = Some (False, t)"
      using pre a(1) by (simp add: pagedir_set_page_def)
    then show ?thesis using a(2,3,5) by auto
  next
    case False
    then have en: "entry_of t pd u = Some a" using a(4) by blast
    have "words t a AND PTE_P = 0" using page_map_entry[OF a(2) assms(2) en] a(3) assms(3) by simp
    then have "pagedir_set_page pd u k w s = Some (True, set_word a e t)"
      using pre a(1) False e(1) by (simp add: pagedir_set_page_def)
    moreover have "pte_get_page e \<noteq> None" using e(2) by (auto simp: frame_of_def split: if_splits option.splits)
    then have "pd_ok (set_word a e t) pd" "page_map (set_word a e t) pd = (page_map t pd)(u := frame_of e)"
      "grows pd t (set_word a e t)" using set_entry[OF a(2) assms(2) en] by blast+
    ultimately show ?thesis using a(3) e(2) grows_trans[OF a(5)] by auto
  qed
qed

lemma round_down_user:
  assumes "va < PHYS_BASE"
  shows "user_page (pg_round_down va)" "pd_no (pg_round_down va) = pd_no va" "pt_no (pg_round_down va) = pt_no va"
proof -
  have b: "va < 2 ^ 32" using user_idx(3)[OF assms] .
  have r: "pg_round_down va = va div PGSIZE * PGSIZE"
    using pg_round_down_sub[OF b] by (simp add: minus_mod_eq_div_mult)
  then have rb: "pg_round_down va < 2 ^ 32" using b by (metis div_times_less_eq_dividend le_less_trans)
  show "user_page (pg_round_down va)" using r assms by (metis user_page_def div_times_less_eq_dividend le_less_trans mod_mult_self2_is_0)
  have "pg_round_down va div PGSIZE = va div PGSIZE" unfolding r by (simp add: PGSIZE_def)
  then show "pd_no (pg_round_down va) = pd_no va" "pt_no (pg_round_down va) = pt_no va"
    using pd_no_div[OF b] pd_no_div[OF rb] pt_no_div[OF b] pt_no_div[OF rb]
      div_mult2_eq[of va PGSIZE 1024] div_mult2_eq[of "pg_round_down va" PGSIZE 1024] by (simp_all add: PGSIZE_def)
qed

lemma pagedir_get_page_map:
  assumes "pd_ok s pd" "va < PHYS_BASE"
  shows "pagedir_get_page pd va s =
    Some (case page_map s pd (pg_round_down va) of Some (k, w) \<Rightarrow> k + pg_ofs va | None \<Rightarrow> NULL)"
proof -
  note rd = round_down_user[OF assms(2)]
  have e: "entry_of s pd (pg_round_down va) = entry_of s pd va" using rd by (simp add: entry_of_def)
  show ?thesis
  proof (cases "entry_of s pd va")
    case None
    then have "page_map s pd (pg_round_down va) = None" using e rd(1) by (simp add: page_map_def)
    then show ?thesis using lookup_none[OF assms None] assms(2) by (simp add: pagedir_get_page_def is_user_vaddr_def)
  next
    case (Some a)
    note l = lookup_found[OF assms Some]
    have m: "page_map s pd (pg_round_down va) = frame_of (words s a)" using e rd(1) Some by (simp add: page_map_def)
    have n: "page_map s pd (pg_round_down va) = None \<longleftrightarrow> words s a AND PTE_P = 0"
      using page_map_entry[OF assms(1) rd(1)] e Some by simp
    show ?thesis
      using l assms(2) m n by (auto simp: pagedir_get_page_def is_user_vaddr_def frame_of_def split: option.splits if_splits)
  qed
qed

lemma invalidate_ok:
  assumes "pd_ok s pd"
  shows "\<exists>s'. invalidate_pagedir pd s = Some s' \<and> pd_ok s' pd \<and> page_map s' pd = page_map s pd"
proof -
  obtain a where a: "active_pd s = Some a" using pd_okD(4)[OF assms] by blast
  show ?thesis
  proof (cases "a = pd")
    case True
    have pd: "PHYS_BASE \<le> pd" "pd < 2 ^ 32" "pd \<noteq> NULL" using used_page(2-4)[OF pd_okD(1,2)[OF assms]] by (auto simp: PGSIZE_def)
    have i: "invalidate_pagedir pd s = Some (s\<lparr>cr3 := pd - PHYS_BASE\<rparr>)"
      using a True pd vtop_32[OF pd(2,1)] by (simp add: invalidate_pagedir_def pagedir_activate_def)
    have t: "table_of (s\<lparr>cr3 := pd - PHYS_BASE\<rparr>) = table_of s" by (simp add: table_of_def fun_eq_iff)
    have "active_pd (s\<lparr>cr3 := pd - PHYS_BASE\<rparr>) = Some pd" using ptov_vtop[OF pd(2,1)] by (simp add: active_pd_def)
    then have "pd_ok (s\<lparr>cr3 := pd - PHYS_BASE\<rparr>) pd"
      using assms unfolding pd_ok_def t by (simp add: used_def pmem_ok_def)
    moreover have "page_map (s\<lparr>cr3 := pd - PHYS_BASE\<rparr>) pd = page_map s pd"
      unfolding page_map_def entry_of_def t by (simp add: fun_eq_iff)
    ultimately show ?thesis using i by blast
  qed (use a assms in \<open>simp add: invalidate_pagedir_def\<close>)
qed

lemma pagedir_clear_page_map:
  assumes "pd_ok s pd" "user_page u"
  shows "\<exists>s'. pagedir_clear_page pd u s = Some s' \<and> pd_ok s' pd \<and> page_map s' pd = (page_map s pd)(u := None)"
proof -
  have u: "u < PHYS_BASE" using assms(2) by (simp add: user_page_def)
  note pre = user_page_ofs[OF assms(2)]
  show ?thesis
  proof (cases "page_map s pd u")
    case None
    then have m: "(page_map s pd)(u := None) = page_map s pd" by auto
    have "pagedir_clear_page pd u s = Some s"
    proof (cases "entry_of s pd u")
      case None
      then show ?thesis using lookup_none[OF assms(1) u] pre by (simp add: pagedir_clear_page_def)
    next
      case (Some a)
      then have "words s a AND PTE_P = 0" using page_map_entry[OF assms Some] \<open>page_map s pd u = None\<close> by simp
      then show ?thesis using lookup_found[OF assms(1) u Some] pre by (simp add: pagedir_clear_page_def)
    qed
    then show ?thesis using assms(1) m by auto
  next
    case (Some kw)
    then obtain a where a: "entry_of s pd u = Some a" using assms(2) by (auto simp: page_map_def bind_eq_Some_conv)
    let ?e = "words s a AND NOT PTE_P"
    have p: "words s a AND PTE_P \<noteq> 0" using page_map_entry[OF assms a] Some by simp
    have "bit (?e AND PTE_P) n = bit (0 :: 32 word) n" for n by (simp add: bit_and_iff bit_not_iff)
    then have e: "?e AND PTE_P = 0" by (intro bit_word_eqI) simp
    then have f: "frame_of ?e = None" by (simp add: frame_of_def)
    have ok: "pd_ok (set_word a ?e s) pd" "page_map (set_word a ?e s) pd = (page_map s pd)(u := None)"
      using set_entry[OF assms a, of ?e] e f by auto
    have "pagedir_clear_page pd u s = invalidate_pagedir pd (set_word a ?e s)"
      using lookup_found[OF assms(1) u a] pre p by (simp add: pagedir_clear_page_def)
    then show ?thesis using invalidate_ok[OF ok(1)] ok(2) by auto
  qed
qed

section \<open>An example\<close>

text \<open>Two pools of four pages; the first kernel page is an empty directory, and it is the active one.\<close>

definition small_mmu :: mmu where
  "small_mmu = \<lparr>kernel_pool = \<lparr>used_map = \<lparr>bit_cnt = 4, bits = [1]\<rparr>, base = 0xc0101000\<rparr>,
     user_pool = \<lparr>used_map = \<lparr>bit_cnt = 4, bits = [0]\<rparr>, base = 0xc0106000\<rparr>,
     words = (\<lambda>_. 0), init_page_dir = 0xc0100000, init_ram_pages = 1024, cr3 = 0x101000\<rparr>"

lemma small_mmu_ok: "pmem_ok small_mmu" "used small_mmu = {0xc0101000}" "pd_ok small_mmu 0xc0101000"
proof -
  show ok: "pmem_ok small_mmu"
    by (simp add: pmem_ok_def pool_ok_def pool_end_def small_mmu_def bm_ok_def elem_cnt_def ELEM_BITS_def
        DIV_ROUND_UP_def BITMAP_ERROR_def PGSIZE_def PHYS_BASE_def)
  have "bm_bit \<lparr>bit_cnt = 4, bits = [1]\<rparr> i \<longleftrightarrow> i = 0" "\<not> bm_bit \<lparr>bit_cnt = 4, bits = [0]\<rparr> i" if "i < 4" for i
    using that by (auto simp: bm_bit_def bit_1_iff)
  then show us: "used small_mmu = {0xc0101000}"
    by (auto simp: used_def pool_used_def small_mmu_def PGSIZE_def)
  show "pd_ok small_mmu 0xc0101000"
    unfolding pd_ok_def us using ok by (auto simp: small_mmu_def active_pd_def ptov_def PHYS_BASE_def table_of_def)
qed

end
