(* ===== verification/Loader.thy ===== *)
theory Loader
  imports Pagedir Filesys
begin

unbundle bit_operations_syntax

text \<open>
  Loading a program: proj-pregame/src/userprog/process.c from \<open>load\<close> on, on top of the models of the page
  allocator, the page directory and the file system.  The headers of an ELF file are read byte by byte
  from the buffer \<open>file_read\<close> fills.  A page of memory is written through the words of the memory, lowest
  byte first.  The task state segment and the messages are left out.
\<close>

section \<open>Bytes in memory\<close>

definition mem_byte :: "mmu \<Rightarrow> nat \<Rightarrow> byte" where
  "mem_byte m a = ucast (drop_bit (8 * (a mod 4)) (words m (a - a mod 4)))"

definition store_bytes :: "nat \<Rightarrow> byte list \<Rightarrow> mmu \<Rightarrow> mmu" where
  "store_bytes a bs m = m\<lparr>words := (\<lambda>x.
     if x mod 4 = 0 \<and> a < x + 4 \<and> x < a + length bs
     then w32 (of_le32 (map (\<lambda>y. if a \<le> y \<and> y < a + length bs then bs ! (y - a) else mem_byte m y) [x, x + 1, x + 2, x + 3]))
     else words m x)\<rparr>"

definition frame_bytes :: "mmu \<Rightarrow> nat \<Rightarrow> byte list" where
  "frame_bytes m k = map (\<lambda>i. mem_byte m (k + i)) [0..<PGSIZE]"

section \<open>ELF headers\<close>

record elf_ehdr =
  e_ident :: "byte list"
  e_type :: nat
  e_machine :: nat
  e_version :: nat
  e_entry :: nat
  e_phoff :: nat
  e_shoff :: nat
  e_flags :: nat
  e_ehsize :: nat
  e_phentsize :: nat
  e_phnum :: nat
  e_shentsize :: nat
  e_shnum :: nat
  e_shstrndx :: nat

record elf_phdr =
  p_type :: nat
  p_offset :: nat
  p_vaddr :: nat
  p_paddr :: nat
  p_filesz :: nat
  p_memsz :: nat
  p_flags :: nat
  p_align :: nat

definition EHDR_SIZE :: nat where "EHDR_SIZE = 52"
definition PHDR_SIZE :: nat where "PHDR_SIZE = 32"

definition get16 :: "byte list \<Rightarrow> nat \<Rightarrow> nat" where "get16 bs i = unat (bs ! i) + 256 * unat (bs ! (i + 1))"
definition get32 :: "byte list \<Rightarrow> nat \<Rightarrow> nat" where "get32 bs i = of_le32 (drop i bs)"

definition ehdr_of :: "byte list \<Rightarrow> elf_ehdr" where
  "ehdr_of bs = \<lparr>e_ident = take 16 bs, e_type = get16 bs 16, e_machine = get16 bs 18, e_version = get32 bs 20,
     e_entry = get32 bs 24, e_phoff = get32 bs 28, e_shoff = get32 bs 32, e_flags = get32 bs 36,
     e_ehsize = get16 bs 40, e_phentsize = get16 bs 42, e_phnum = get16 bs 44, e_shentsize = get16 bs 46,
     e_shnum = get16 bs 48, e_shstrndx = get16 bs 50\<rparr>"

definition phdr_of :: "byte list \<Rightarrow> elf_phdr" where
  "phdr_of bs = \<lparr>p_type = get32 bs 0, p_offset = get32 bs 4, p_vaddr = get32 bs 8, p_paddr = get32 bs 12,
     p_filesz = get32 bs 16, p_memsz = get32 bs 20, p_flags = get32 bs 24, p_align = get32 bs 28\<rparr>"

definition PT_LOAD :: nat where "PT_LOAD = 1"
definition PT_DYNAMIC :: nat where "PT_DYNAMIC = 2"
definition PT_INTERP :: nat where "PT_INTERP = 3"
definition PT_SHLIB :: nat where "PT_SHLIB = 5"
definition PF_W :: "32 word" where "PF_W = 2"

text \<open>The seven bytes an executable begins with.\<close>

definition ELF_MAGIC :: "byte list" where "ELF_MAGIC = [127, 69, 76, 70, 1, 1, 1]"

definition ehdr_accepted :: "elf_ehdr \<Rightarrow> bool" where
  "ehdr_accepted e \<longleftrightarrow> \<not> (take 7 (e_ident e) \<noteq> ELF_MAGIC \<or> e_type e \<noteq> 2 \<or> e_machine e \<noteq> 3
     \<or> e_version e \<noteq> 1 \<or> e_phentsize e \<noteq> PHDR_SIZE \<or> e_phnum e > 1024)"

section \<open>Segments\<close>

definition ROUND_UP_PAGE :: "nat \<Rightarrow> nat" where
  "ROUND_UP_PAGE x = (x + PGSIZE - 1) mod 2 ^ 32 div PGSIZE * PGSIZE"

definition validate_segment :: "elf_phdr \<Rightarrow> addr \<Rightarrow> fs \<Rightarrow> bool option" where
  "validate_segment ph file s = do {
     len \<leftarrow> file_length file s;
     let seg_end = (p_vaddr ph + p_memsz ph) mod 2 ^ 32;
     Some (if pg_ofs (p_offset ph) \<noteq> pg_ofs (p_vaddr ph) then False
       else if p_offset ph > of_off len then False
       else if p_memsz ph < p_filesz ph then False
       else if p_memsz ph = 0 then False
       else if \<not> is_user_vaddr (p_vaddr ph) then False
       else if \<not> is_user_vaddr seg_end then False
       else if seg_end < p_vaddr ph then False
       else if p_vaddr ph < PGSIZE then False
       else True) }"

definition install_page :: "addr \<Rightarrow> nat \<Rightarrow> nat \<Rightarrow> bool \<Rightarrow> mmu \<Rightarrow> (bool \<times> mmu) option" where
  "install_page pd upage kpage writable m = do {
     old \<leftarrow> pagedir_get_page pd upage m;
     if old = NULL then pagedir_set_page pd upage kpage writable m else Some (False, m) }"

record machine =
  mem :: mmu
  fsys :: fs
  pagedir :: addr

partial_function (option) load_pages ::
  "addr \<Rightarrow> nat \<Rightarrow> nat \<Rightarrow> nat \<Rightarrow> bool \<Rightarrow> machine \<Rightarrow> (bool \<times> machine) option" where
  "load_pages file upage read_bytes zero_bytes writable s =
     (if read_bytes > 0 \<or> zero_bytes > 0 then do {
        let page_read_bytes = (if read_bytes < PGSIZE then read_bytes else PGSIZE);
        let page_zero_bytes = PGSIZE - page_read_bytes;
        (kpage, m) \<leftarrow> palloc_get_page {PAL_USER} (mem s);
        if kpage = NULL then Some (False, s\<lparr>mem := m\<rparr>)
        else do {
          (bs, d) \<leftarrow> file_read file (int page_read_bytes) (fsys s);
          let m = store_bytes kpage bs m;
          if length bs \<noteq> page_read_bytes then do {
            m \<leftarrow> palloc_free_page kpage m;
            Some (False, s\<lparr>mem := m, fsys := d\<rparr>) }
          else do {
            let m = store_bytes (kpage + page_read_bytes) (replicate page_zero_bytes 0) m;
            (ok, m) \<leftarrow> install_page (pagedir s) upage kpage writable m;
            if \<not> ok then do {
              m \<leftarrow> palloc_free_page kpage m;
              Some (False, s\<lparr>mem := m, fsys := d\<rparr>) }
            else load_pages file ((upage + PGSIZE) mod 2 ^ 32) (read_bytes - page_read_bytes)
              ((zero_bytes + 2 ^ 32 - page_zero_bytes) mod 2 ^ 32) writable (s\<lparr>mem := m, fsys := d\<rparr>) } } }
      else Some (True, s))"

definition load_segment :: "addr \<Rightarrow> int \<Rightarrow> nat \<Rightarrow> nat \<Rightarrow> nat \<Rightarrow> bool \<Rightarrow> machine \<Rightarrow> (bool \<times> machine) option" where
  "load_segment file ofs upage read_bytes zero_bytes writable s = do {
     ASSERT ((read_bytes + zero_bytes) mod 2 ^ 32 mod PGSIZE = 0);
     ASSERT (pg_ofs upage = 0);
     ASSERT (ofs mod int PGSIZE = 0);
     d \<leftarrow> file_seek file ofs (fsys s);
     load_pages file upage read_bytes zero_bytes writable (s\<lparr>fsys := d\<rparr>) }"

definition setup_stack :: "machine \<Rightarrow> (nat option \<times> machine) option" where
  "setup_stack s = do {
     (kpage, m) \<leftarrow> palloc_get_page {PAL_USER, PAL_ZERO} (mem s);
     if kpage \<noteq> NULL then do {
       (ok, m) \<leftarrow> install_page (pagedir s) (PHYS_BASE - PGSIZE) kpage True m;
       if ok then Some (Some PHYS_BASE, s\<lparr>mem := m\<rparr>)
       else do { m \<leftarrow> palloc_free_page kpage m; Some (None, s\<lparr>mem := m\<rparr>) } }
     else Some (None, s\<lparr>mem := m\<rparr>) }"

section \<open>Loading\<close>

definition load_seg_of :: "elf_phdr \<Rightarrow> addr \<Rightarrow> machine \<Rightarrow> (bool \<times> machine) option" where
  "load_seg_of ph file s = do {
     ok \<leftarrow> validate_segment ph file (fsys s);
     if ok then
       let writable = w32 (p_flags ph) AND PF_W \<noteq> 0;
           file_page = pg_round_down (p_offset ph);
           mem_page = pg_round_down (p_vaddr ph);
           page_offset = pg_ofs (p_vaddr ph);
           read_bytes = (if p_filesz ph > 0 then (page_offset + p_filesz ph) mod 2 ^ 32 else 0);
           zero_bytes = (if p_filesz ph > 0
             then (ROUND_UP_PAGE ((page_offset + p_memsz ph) mod 2 ^ 32) + 2 ^ 32 - read_bytes) mod 2 ^ 32
             else ROUND_UP_PAGE ((page_offset + p_memsz ph) mod 2 ^ 32))
       in load_segment file (to_off file_page) mem_page read_bytes zero_bytes writable s
     else Some (False, s) }"

text \<open>One round of the loop over the program headers; \<open>Inr\<close> is a jump to \<open>done\<close>.\<close>

definition load_phdr :: "addr \<Rightarrow> int \<times> machine \<Rightarrow> ((int \<times> machine) + machine) option" where
  "load_phdr file = (\<lambda>(file_ofs, s). do {
     len \<leftarrow> file_length file (fsys s);
     if file_ofs < 0 \<or> file_ofs > len then Some (Inr s)
     else do {
       d \<leftarrow> file_seek file file_ofs (fsys s);
       (bs, d) \<leftarrow> file_read file (int PHDR_SIZE) d;
       let s = s\<lparr>fsys := d\<rparr>;
       if length bs \<noteq> PHDR_SIZE then Some (Inr s)
       else do {
         let ph = phdr_of bs;
         let file_ofs = to_off ((of_off file_ofs + PHDR_SIZE) mod 2 ^ 32);
         if p_type ph \<in> {PT_DYNAMIC, PT_INTERP, PT_SHLIB} then Some (Inr s)
         else if p_type ph = PT_LOAD then do {
           (ok, s) \<leftarrow> load_seg_of ph file s;
           Some (if ok then Inl (file_ofs, s) else Inr s) }
         else Some (Inl (file_ofs, s)) } } })"

definition load_file :: "addr \<Rightarrow> machine \<Rightarrow> ((nat \<times> nat) option \<times> machine) option" where
  "load_file file s = do {
     (bs, d) \<leftarrow> file_read file (int EHDR_SIZE) (fsys s);
     let s = s\<lparr>fsys := d\<rparr>;
     let ehdr = ehdr_of bs;
     if length bs \<noteq> EHDR_SIZE \<or> \<not> ehdr_accepted ehdr then Some (None, s)
     else do {
       r \<leftarrow> for_ret 0 (e_phnum ehdr) (\<lambda>_. load_phdr file) (to_off (e_phoff ehdr), s);
       case r of
         Inr s \<Rightarrow> Some (None, s)
       | Inl (_, s) \<Rightarrow> do {
           (esp, s) \<leftarrow> setup_stack s;
           Some (map_option (Pair (e_entry ehdr)) esp, s) } } }"

text \<open>The result is the entry point and the stack pointer; \<open>None\<close> is a failed load.\<close>

definition load :: "byte list \<Rightarrow> machine \<Rightarrow> ((nat \<times> nat) option \<times> machine) option" where
  "load file_name s = do {
     (pd, m) \<leftarrow> pagedir_create (mem s);
     let s = s\<lparr>mem := m, pagedir := pd\<rparr>;
     if pd = NULL then Some (None, s)
     else do {
       m \<leftarrow> pagedir_activate pd (mem s);
       let s = s\<lparr>mem := m\<rparr>;
       (file, d) \<leftarrow> filesys_open file_name (fsys s);
       let s = s\<lparr>fsys := d\<rparr>;
       if file = NULL then Some (None, s)
       else do {
         (r, s) \<leftarrow> load_file file s;
         d \<leftarrow> file_close file (fsys s);
         Some (r, s\<lparr>fsys := d\<rparr>) } } }"

end
