(* ===== verification/LoaderInv.thy ===== *)
theory LoaderInv
  imports Loader InodeData
begin

text \<open>
  What loading does: a page of a segment is a new frame with the bytes of the file and zeros behind them,
  mapped at its address; all other pages of memory and of the address space stay as they are.
\<close>

section \<open>Bytes\<close>

lemma le32_parts:
  assumes "b < 256" "c < 256" "d < 256" "e < (256 :: nat)"
  shows "(b + 256 * c + 65536 * d + 16777216 * e) mod 256 = b"
    "(b + 256 * c + 65536 * d + 16777216 * e) div 256 mod 256 = c"
    "(b + 256 * c + 65536 * d + 16777216 * e) div 65536 mod 256 = d"
    "(b + 256 * c + 65536 * d + 16777216 * e) div 16777216 mod 256 = e"
    "b + 256 * c + 65536 * d + 16777216 * e < 2 ^ 32"
proof -
  let ?n = "b + 256 * c + 65536 * d + 16777216 * e"
  have step: "(x + 256 * y) mod 256 = x" "(x + 256 * y) div 256 = y" if "x < 256" for x y :: nat using that by simp_all
  have n: "?n = b + 256 * (c + 256 * (d + 256 * e))" by simp
  have n2: "?n div 65536 = ?n div 256 div 256" "?n div 16777216 = ?n div 256 div 256 div 256" by (simp_all flip: div_mult2_eq)
  show "?n mod 256 = b" unfolding n by (rule step(1)[OF assms(1)])
  show "?n div 256 mod 256 = c" unfolding n step(2)[OF assms(1)] by (rule step(1)[OF assms(2)])
  show "?n div 65536 mod 256 = d" unfolding n2 unfolding n step(2)[OF assms(1)] step(2)[OF assms(2)] by (rule step(1)[OF assms(3)])
  show "?n div 16777216 mod 256 = e"
    unfolding n2 unfolding n step(2)[OF assms(1)] step(2)[OF assms(2)] step(2)[OF assms(3)] using assms by simp
qed (use assms in simp)

lemma unat_byte: "unat (ucast (drop_bit k (w32 n)) :: byte) = n mod 2 ^ 32 div 2 ^ k mod 256"
proof -
  have "unat (ucast (drop_bit k (w32 n)) :: byte) = unat (drop_bit k (w32 n)) mod 256"
    by (simp add: unsigned_ucast_eq take_bit_eq_mod)
  also have "unat (drop_bit k (w32 n)) = unat (w32 n) div 2 ^ k" unfolding unat_drop_bit_eq by (simp add: drop_bit_eq_div)
  finally show ?thesis by (simp add: unsigned_of_nat take_bit_eq_mod)
qed

lemma byte_of_le32:
  assumes "length bs = 4" "j < 4"
  shows "ucast (drop_bit (8 * j) (w32 (of_le32 bs))) = (bs ! j :: byte)"
proof -
  obtain b c d e where bs: "bs = [b, c, d, e]"
    using assms(1) by (auto simp: eval_nat_numeral length_Suc_conv)
  let ?n = "unat b + 256 * unat c + 65536 * unat d + 16777216 * unat e"
  have n: "of_le32 bs = ?n" by (simp add: of_le32_def bs)
  have u: "unat x < 256" for x :: byte using unsigned_less[of x] by simp
  note p = le32_parts[OF u[of b] u[of c] u[of d] u[of e]]
  have "unat (ucast (drop_bit (8 * j) (w32 ?n)) :: byte) = ?n mod 2 ^ 32 div 2 ^ (8 * j) mod 256" by (rule unat_byte)
  also have "?n mod 2 ^ 32 = ?n" using p(5) by simp
  also have "?n div 2 ^ (8 * j) mod 256 = unat (bs ! j)"
  proof -
    consider "j = 0" | "j = 1" | "j = 2" | "j = 3" using assms(2) by linarith
    then show ?thesis using p(1-4) by cases (simp_all add: bs)
  qed
  finally show ?thesis unfolding n by (rule word_unat_eq_iff[THEN iffD2])
qed

lemma word_start: "(y - y mod 4) mod 4 = 0" "y = (y - y mod 4) + y mod 4" for y :: nat
  by presburger+

lemma words_store:
  assumes "\<not> (a < x + 4 \<and> x < a + length bs)"
  shows "words (store_bytes a bs m) x = words m x"
proof -
  have "words (store_bytes a bs m) = (\<lambda>x. if x mod 4 = 0 \<and> a < x + 4 \<and> x < a + length bs
     then w32 (of_le32 (map (\<lambda>y. if a \<le> y \<and> y < a + length bs then bs ! (y - a) else mem_byte m y) [x, x + 1, x + 2, x + 3]))
     else words m x)" by (simp add: store_bytes_def)
  then show ?thesis using assms by (simp only: if_False simp_thms)
qed

lemma mem_byte_store:
  "mem_byte (store_bytes a bs m) y = (if a \<le> y \<and> y < a + length bs then bs ! (y - a) else mem_byte m y)"
proof -
  define x j where "x = y - y mod 4" and "j = y mod 4"
  have x: "x mod 4 = 0" "y = x + j" "j < 4" unfolding x_def j_def using word_start[of y] by simp_all
  let ?f = "\<lambda>y. if a \<le> y \<and> y < a + length bs then bs ! (y - a) else mem_byte m y"
  have mb: "mem_byte m' y = ucast (drop_bit (8 * j) (words m' x))" for m' by (simp add: mem_byte_def x_def j_def)
  show ?thesis
  proof (cases "a < x + 4 \<and> x < a + length bs")
    case True
    have "ucast (drop_bit (8 * j) (w32 (of_le32 (map ?f [x, x + 1, x + 2, x + 3])))) = map ?f [x, x + 1, x + 2, x + 3] ! j"
      by (rule byte_of_le32) (simp_all add: x(3))
    also have "\<dots> = ?f y"
    proof -
      consider "j = 0" | "j = 1" | "j = 2" | "j = 3" using x(3) by linarith
      then show ?thesis unfolding x(2) by cases simp_all
    qed
    finally show ?thesis using True x(1) unfolding mb by (simp add: store_bytes_def)
  next
    case False
    have "\<not> (a \<le> y \<and> y < a + length bs)" using False x(2,3) by auto
    then show ?thesis unfolding mb words_store[OF False] by (simp only: if_False)
  qed
qed

lemma store_bytes_simps [simp]:
  "used (store_bytes a bs m) = used m" "pmem_ok (store_bytes a bs m) = pmem_ok m"
  "init_page_dir (store_bytes a bs m) = init_page_dir m" "active_pd (store_bytes a bs m) = active_pd m"
  "init_ram_pages (store_bytes a bs m) = init_ram_pages m" "user_pool (store_bytes a bs m) = user_pool m"
  "kernel_pool (store_bytes a bs m) = kernel_pool m"
  by (simp_all add: store_bytes_def used_def pmem_ok_def active_pd_def)

lemma store_bytes_other:
  assumes "k mod PGSIZE = 0" "q mod PGSIZE = 0" "q \<noteq> k" "k \<le> a" "a + length bs \<le> k + PGSIZE" "j < 1024"
  shows "words (store_bytes a bs m) (q + 4 * j) = words m (q + 4 * j)"
proof -
  have "\<not> (a < q + 4 * j + 4 \<and> q + 4 * j < a + length bs)"
  proof
    assume b: "a < q + 4 * j + 4 \<and> q + 4 * j < a + length bs"
    then have "k < q + 4 * j + 4" "q + 4 * j < k + PGSIZE" using assms(4,5) by linarith+
    then have "q = k" using assms(1,2,6) by (auto simp: PGSIZE_def elim!: dvdE)
    then show False using assms(3) by blast
  qed
  then show ?thesis by (rule words_store)
qed

lemma frame_bytes_words:
  assumes "q mod PGSIZE = 0" "\<And>k. k < 1024 \<Longrightarrow> words m' (q + 4 * k) = words m (q + 4 * k)"
  shows "frame_bytes m' q = frame_bytes m q"
proof -
  have "mem_byte m' (q + i) = mem_byte m (q + i)" if "i < PGSIZE" for i
  proof -
    have "q mod 4 = 0" using assms(1) by (auto simp: PGSIZE_def elim!: dvdE)
    then have "(q + i) mod 4 = i mod 4" by presburger
    then have "q + i - (q + i) mod 4 = q + 4 * (i div 4)" 
      by (metis Nat.add_diff_assoc mod_less_eq_dividend minus_mod_eq_mult_div)
    moreover have "i div 4 < 1024" using that by (simp add: PGSIZE_def)
    ultimately show ?thesis using assms(2) by (simp add: mem_byte_def)
  qed
  then show ?thesis by (simp add: frame_bytes_def)
qed

lemma frame_bytes_store:
  assumes "length bs + length cs = PGSIZE"
  shows "frame_bytes (store_bytes (k + length bs) cs (store_bytes k bs m)) k = bs @ cs"
proof (rule nth_equalityI)
  fix i assume "i < length (frame_bytes (store_bytes (k + length bs) cs (store_bytes k bs m)) k)"
  then have "i < PGSIZE" by (simp add: frame_bytes_def)
  then show "frame_bytes (store_bytes (k + length bs) cs (store_bytes k bs m)) k ! i = (bs @ cs) ! i"
    using assms by (simp add: frame_bytes_def mem_byte_store nth_append)
qed (simp add: frame_bytes_def assms)

section \<open>The directory and other pages\<close>

lemma pd_ok_other:
  assumes "pd_ok m pd" "pmem_ok m'" "pd_pages m pd \<subseteq> used m'" "init_page_dir m' = init_page_dir m" "active_pd m' = active_pd m"
    "\<And>q k. q \<in> pd_pages m pd \<Longrightarrow> k < 1024 \<Longrightarrow> words m' (q + 4 * k) = words m (q + 4 * k)"
  shows "pd_ok m' pd" "page_map m' pd = page_map m pd" "pd_pages m' pd = pd_pages m pd"
proof -
  have pd: "pd \<in> pd_pages m pd" by (simp add: pd_pages_def)
  have tp: "pt \<in> pd_pages m pd" if "i < 768" "table_of m pd i = Some pt" for i pt using that by (auto simp: pd_pages_def)
  have w: "words m' (pd + 4 * i) = words m (pd + 4 * i)" if "i < 768" for i using assms(6)[OF pd] that by simp
  have t: "table_of m' pd i = table_of m pd i" if "i < 768" for i using w[OF that] by (simp add: table_of_def)
  show "pd_pages m' pd = pd_pages m pd" using t by (auto simp: pd_pages_def)
  show "pd_ok m' pd" unfolding pd_ok_def
  proof (intro conjI allI impI)
    fix i assume i: "i < 768" "words m' (pd + 4 * i) \<noteq> 0"
    then obtain pt where pt: "table_of m pd i = Some pt" "pt \<noteq> pd" using pd_okD(5)[OF assms(1) i(1)] w by auto
    then show "\<exists>pt. table_of m' pd i = Some pt \<and> pt \<in> used m' \<and> pt \<noteq> pd" using t[OF i(1)] tp[OF i(1) pt(1)] assms(3) by auto
  next
    fix i j p assume "i < 768" "j < 768" "table_of m' pd i = Some p" "table_of m' pd j = Some p"
    then show "i = j" using pd_okD(7)[OF assms(1)] t by simp
  next
    fix i k p assume i: "i < 768" "k < 1024" "table_of m' pd i = Some p" "words m' (p + 4 * k) AND PTE_P \<noteq> 0"
    then have "table_of m pd i = Some p" using t by simp
    then show "pte_get_page (words m' (p + 4 * k)) \<noteq> None"
      using i pd_okD(8)[OF assms(1) i(1,2)] assms(6)[OF tp[OF i(1)] i(2)] by simp
  qed (use assms(2-5) pd_okD(3,4)[OF assms(1)] pd in auto)
  show "page_map m' pd = page_map m pd"
  proof
    fix u show "page_map m' pd u = page_map m pd u"
    proof (cases "user_page u")
      case True
      then have u: "u < PHYS_BASE" by (simp add: user_page_def)
      note ix = user_idx(1,2)[OF u]
      show ?thesis
        using t[OF ix(1)] tp[OF ix(1)] assms(6)[OF _ ix(2)]
        by (cases "table_of m pd (pd_no u)") (auto simp: page_map_def entry_of_def)
    qed (simp add: page_map_def)
  qed
qed

text \<open>A page allocated for a process: the directory does not change.\<close>

definition ram_ok :: "mmu \<Rightarrow> bool" where
  "ram_ok m \<longleftrightarrow> pool_end (user_pool m) \<le> PHYS_BASE + PGSIZE * init_ram_pages m"

lemma alloc_page:
  assumes "pd_ok m pd" "ram_ok m" "PAL_USER \<in> fl" "PAL_ASSERT \<notin> fl"
  shows "\<exists>k m'. palloc_get_page fl m = Some (k, m') \<and> pd_ok m' pd \<and> page_map m' pd = page_map m pd \<and> grows pd m m' \<and> ram_ok m'
    \<and> (if k = NULL then m' = m else k \<notin> used m \<and> used m' = insert k (used m) \<and> k \<in> used m' \<and> k mod PGSIZE = 0 \<and> PHYS_BASE < k
       \<and> k + PGSIZE \<le> 2 ^ 32 \<and> (k - PHYS_BASE) div PGSIZE < init_ram_pages m' \<and> pd_pages m' pd = pd_pages m pd
       \<and> (PAL_ZERO \<in> fl \<longrightarrow> frame_bytes m' k = replicate PGSIZE 0))"
proof -
  note ok = pd_okD(1)[OF assms(1)]
  obtain k m' where g: "palloc_get_multiple fl 1 m = Some (k, m')" "pmem_ok m'" "pmem.more m' = pmem.more m"
    and c: "if k = NULL then m' = m
       else run k 1 \<inter> used m = {} \<and> used m' = used m \<union> run k 1 \<and> k mod PGSIZE = 0 \<and> PHYS_BASE < k
         \<and> k + PGSIZE * 1 \<le> 2 ^ 32
         \<and> words m' = (\<lambda>x. if PAL_ZERO \<in> fl \<and> k \<le> x \<and> x < k + PGSIZE * 1 then 0 else words m x)"
    using palloc_get_spec[OF ok _ assms(4), of 1] by auto
  note geom = palloc_get_geom[OF ok _ g(1)]
  show ?thesis
  proof (cases "k = NULL")
    case True
    then show ?thesis using g c assms(1,2) grows_refl by (intro exI[of _ k] exI[of _ m]) (simp add: palloc_get_page_def)
  next
    case False
    then have k: "k \<notin> used m" "used m' = insert k (used m)" "k mod PGSIZE = 0" "PHYS_BASE < k" "k + PGSIZE \<le> 2 ^ 32"
      "words m' = (\<lambda>x. if PAL_ZERO \<in> fl \<and> k \<le> x \<and> x < k + PGSIZE then 0 else words m x)" using c by auto
    have more: "init_page_dir m' = init_page_dir m" "active_pd m' = active_pd m" "init_ram_pages m' = init_ram_pages m"
      using g(3) by (simp_all add: active_pd_def) (metis mmu.select_convs mmu.surjective pmem.select_convs(4))+
    have w: "words m' (q + 4 * j) = words m (q + 4 * j)" if "q \<in> used m" "j < 1024" for q j
    proof -
      have q: "q mod PGSIZE = 0" "q \<noteq> k" using used_page(1)[OF ok that(1)] that(1) k(1) by auto
      have "\<not> (k \<le> q + 4 * j \<and> q + 4 * j < k + PGSIZE)"
        using q k(3) that(2) by (auto simp: PGSIZE_def elim!: dvdE)
      then show ?thesis unfolding k(6) by (simp only: if_False simp_thms)
    qed
    note pu = pd_pages_used[OF assms(1)]
    have pw: "words m' (q + 4 * j) = words m (q + 4 * j)" if "q \<in> pd_pages m pd" "j < 1024" for q j
      using w that pu by blast
    have sub: "pd_pages m pd \<subseteq> used m'" using pu k(2) by blast
    note o = pd_ok_other[OF assms(1) g(2) sub more(1,2) pw]
    have gr: "grows pd m m'" unfolding grows_def using k(2) o(3) w more geom(1) by auto
    have end': "k + PGSIZE \<le> pool_end (user_pool m)" using geom(2)[OF _ assms(3) False] by simp
    have ram: "(k - PHYS_BASE) div PGSIZE < init_ram_pages m'"
      using end' assms(2) k(4) unfolding more(3) ram_ok_def by (simp add: PGSIZE_def div_less_iff_less_mult)
    have z: "frame_bytes m' k = replicate PGSIZE 0" if "PAL_ZERO \<in> fl"
    proof (rule nth_equalityI)
      fix i assume "i < length (frame_bytes m' k)"
      then have i: "i < PGSIZE" by (simp add: frame_bytes_def)
      have "k mod 4 = 0" using k(3) by (auto simp: PGSIZE_def elim!: dvdE)
      then have "k \<le> k + i - (k + i) mod 4" by presburger
      moreover have "k + i - (k + i) mod 4 < k + PGSIZE" using i by simp
      ultimately have "words m' (k + i - (k + i) mod 4) = 0" using that unfolding k(6) by simp
      then show "frame_bytes m' k ! i = replicate PGSIZE 0 ! i" using i by (simp add: frame_bytes_def mem_byte_def)
    qed (simp add: frame_bytes_def)
    have "ram_ok m'" using assms(2) geom(1) more(3) by (simp add: ram_ok_def)
    then show ?thesis
      using g(1) o gr False k(1-5) ram z by (intro exI[of _ k] exI[of _ m']) (simp add: palloc_get_page_def)
  qed
qed

text \<open>The frames of an address space are pages in use other than those of the directory.\<close>

definition frames_ok :: "mmu \<Rightarrow> addr \<Rightarrow> bool" where
  "frames_ok m pd \<longleftrightarrow> (\<forall>u k w. page_map m pd u = Some (k, w) \<longrightarrow> k \<in> used m \<and> k \<notin> pd_pages m pd)"

lemma frames_ok_grows:
  assumes "grows pd m m'" "frames_ok m pd" "\<And>u k w. page_map m' pd u = Some (k, w) \<Longrightarrow> page_map m pd u = Some (k, w) \<or> k \<in> used m - pd_pages m pd"
  shows "frames_ok m' pd"
  unfolding frames_ok_def
proof (intro allI impI)
  fix u k w assume "page_map m' pd u = Some (k, w)"
  from assms(3)[OF this] have "k \<in> used m - pd_pages m pd" using assms(2) unfolding frames_ok_def by blast
  then show "k \<in> used m' \<and> k \<notin> pd_pages m' pd" using assms(1) by (auto simp: grows_def)
qed

lemma frames_nonnull: "pd_ok m pd \<Longrightarrow> frames_ok m pd \<Longrightarrow> page_map m pd u = Some (k, w) \<Longrightarrow> k \<noteq> NULL \<and> k mod PGSIZE = 0"
  using used_page(1,4)[OF pd_okD(1)] unfolding frames_ok_def by blast

text \<open>\<open>install_page\<close> succeeds only at an unmapped page.\<close>

lemma install_page_map:
  assumes "pd_ok m pd" "user_page u" "k mod PGSIZE = 0" "PHYS_BASE \<le> k" "k < 2 ^ 32" "(k - PHYS_BASE) div PGSIZE < init_ram_pages m"
    "frames_ok m pd" "k \<in> used m" "k \<notin> pd_pages m pd"
  shows "\<exists>r m'. install_page pd u k w m = Some (r, m') \<and> pd_ok m' pd \<and> grows pd m m'
    \<and> page_map m' pd = (if r then (page_map m pd)(u \<mapsto> (k, w)) else page_map m pd) \<and> (r \<longrightarrow> page_map m pd u = None) \<and> frames_ok m' pd"
proof -
  have u: "u < PHYS_BASE" "u < 2 ^ 32" "u mod PGSIZE = 0" using assms(2) by (simp_all add: user_page_def PHYS_BASE_def)
  have get: "pagedir_get_page pd u m = Some (case page_map m pd u of Some (k, w) \<Rightarrow> k | None \<Rightarrow> NULL)"
    using pagedir_get_page_map[OF assms(1) u(1)] pg_round_down_sub[OF u(2)] pg_ofs_mod[OF u(2)] u(3)
    by (cases "page_map m pd u") auto
  show ?thesis
  proof (cases "page_map m pd u")
    case None
    then have "install_page pd u k w m = pagedir_set_page pd u k w m" using get by (simp add: install_page_def)
    moreover obtain r m' where s: "pagedir_set_page pd u k w m = Some (r, m')" "pd_ok m' pd"
      "page_map m' pd = (if r then (page_map m pd)(u \<mapsto> (k, w)) else page_map m pd)" "grows pd m m'"
      using pagedir_set_page_map[OF assms(1,2) None assms(3-6), of w] by blast
    moreover have "frames_ok m' pd"
      by (rule frames_ok_grows[OF s(4) assms(7)]) (use s(3) assms(8,9) in \<open>auto split: if_splits\<close>)
    ultimately show ?thesis using None by auto
  next
    case (Some kw)
    obtain k' w' where kw: "kw = (k', w')" by (cases kw)
    have "k' \<noteq> NULL" using frames_nonnull[OF assms(1,7) Some[unfolded kw]] by blast
    then have "install_page pd u k w m = Some (False, m)" using get Some kw by (simp add: install_page_def)
    then show ?thesis using assms(1,7) grows_refl by auto
  qed
qed

lemma free_page:
  assumes "pd_ok m pd" "k \<in> used m" "k \<notin> pd_pages m pd"
  shows "\<exists>m'. palloc_free_page k m = Some m' \<and> pd_ok m' pd \<and> page_map m' pd = page_map m pd
    \<and> (frames_ok m pd \<longrightarrow> (\<forall>u w. page_map m pd u \<noteq> Some (k, w)) \<longrightarrow> frames_ok m' pd)"
proof -
  note ok = pd_okD(1)[OF assms(1)]
  have "run k 1 \<subseteq> pool_used (kernel_pool m) \<or> run k 1 \<subseteq> pool_used (user_pool m)" using assms(2) by (simp add: used_def)
  then obtain m' where f: "palloc_free_multiple k 1 m = Some m'" "pmem_ok m'" "pmem.more m' = pmem.more m" "used m' = used m - run k 1"
    using palloc_free_spec[OF ok _ _ zero_less_one] by blast
  have sub: "pd_pages m pd \<subseteq> used m'" using pd_pages_used[OF assms(1)] f(4) assms(3) by auto
  have more: "init_page_dir m' = init_page_dir m" "active_pd m' = active_pd m"
    using f(3) by (simp_all add: active_pd_def) (metis mmu.select_convs mmu.surjective pmem.select_convs(4))+
  have km: "k mod PGSIZE = 0" by (rule used_page(1)[OF ok assms(2)])
  have w: "words m' (q + 4 * j) = words m (q + 4 * j)" if q: "q \<in> pd_pages m pd" "j < 1024" for q j
  proof -
    have "q mod PGSIZE = 0" "q \<noteq> k" using used_page(1)[OF ok] pd_pages_used[OF assms(1)] q(1) assms(3) by auto
    then have "\<not> (k \<le> q + 4 * j \<and> q + 4 * j < k + PGSIZE * 1)" using km q(2) by (auto simp: PGSIZE_def elim!: dvdE)
    then show ?thesis by (rule palloc_free_frame(1)[OF f(1)])
  qed
  note o = pd_ok_other[OF assms(1) f(2) sub more w]
  have "frames_ok m' pd" if "frames_ok m pd" "\<forall>u w. page_map m pd u \<noteq> Some (k, w)"
    unfolding frames_ok_def
  proof (intro allI impI)
    fix u c w assume "page_map m' pd u = Some (c, w)"
    then have c: "page_map m pd u = Some (c, w)" using o(2) by simp
    then have "c \<noteq> k" "c \<in> used m \<and> c \<notin> pd_pages m pd" using that unfolding frames_ok_def by blast+
    then show "c \<in> used m' \<and> c \<notin> pd_pages m' pd" using f(4) o(3) by simp
  qed
  then show ?thesis using f(1) o(1,2) by (auto simp: palloc_free_page_def)
qed

lemma store_page:
  assumes "pd_ok m pd" "k \<in> used m" "k \<notin> pd_pages m pd" "k \<le> a" "a + length bs \<le> k + PGSIZE"
  shows "pd_ok (store_bytes a bs m) pd" "page_map (store_bytes a bs m) pd = page_map m pd" "pd_pages (store_bytes a bs m) pd = pd_pages m pd"
    "q \<in> used m \<Longrightarrow> q \<noteq> k \<Longrightarrow> j < 1024 \<Longrightarrow> words (store_bytes a bs m) (q + 4 * j) = words m (q + 4 * j)"
proof -
  note pg = used_page(1)[OF pd_okD(1)[OF assms(1)]] and sub = pd_pages_used[OF assms(1)]
  show w: "q \<in> used m \<Longrightarrow> q \<noteq> k \<Longrightarrow> j < 1024 \<Longrightarrow> words (store_bytes a bs m) (q + 4 * j) = words m (q + 4 * j)" for q j
    by (rule store_bytes_other[OF pg[OF assms(2)] pg _ assms(4,5)])
  have w': "words (store_bytes a bs m) (q + 4 * j) = words m (q + 4 * j)" if "q \<in> pd_pages m pd" "j < 1024" for q j
    using w[OF subsetD[OF sub that(1)] _ that(2)] that(1) assms(3) by metis
  have "pmem_ok (store_bytes a bs m)" "pd_pages m pd \<subseteq> used (store_bytes a bs m)" using pd_okD(1)[OF assms(1)] sub by simp_all
  note o = pd_ok_other[OF assms(1) this _ _ w']
  show "pd_ok (store_bytes a bs m) pd" "page_map (store_bytes a bs m) pd = page_map m pd" "pd_pages (store_bytes a bs m) pd = pd_pages m pd"
    by (rule o; simp)+
qed

section \<open>One page\<close>

text \<open>A new frame is filled with \<open>bs\<close> and zeros and installed at \<open>u\<close>.\<close>

lemma page_step:
  assumes "pd_ok m pd" "ram_ok m" "user_page u" "palloc_get_page {PAL_USER} m = Some (k, m1)" "k \<noteq> NULL" "length bs + z = PGSIZE"
    "frames_ok m pd"
  shows "\<exists>r m3. install_page pd u k w (store_bytes (k + length bs) (replicate z 0) (store_bytes k bs m1)) = Some (r, m3)
    \<and> pd_ok m3 pd \<and> ram_ok m3 \<and> grows pd m m3 \<and> k \<notin> used m \<and> k \<in> used m3 \<and> k \<notin> pd_pages m3 pd
    \<and> frame_bytes m3 k = bs @ replicate z 0
    \<and> page_map m3 pd = (if r then (page_map m pd)(u \<mapsto> (k, w)) else page_map m pd) \<and> (r \<longrightarrow> page_map m pd u = None) \<and> frames_ok m3 pd"
proof -
  obtain k' m' where al: "palloc_get_page {PAL_USER} m = Some (k', m')" "pd_ok m' pd" "page_map m' pd = page_map m pd"
    "grows pd m m'" "ram_ok m'"
    "if k' = NULL then m' = m else k' \<notin> used m \<and> used m' = insert k' (used m) \<and> k' \<in> used m' \<and> k' mod PGSIZE = 0 \<and> PHYS_BASE < k'
       \<and> k' + PGSIZE \<le> 2 ^ 32 \<and> (k' - PHYS_BASE) div PGSIZE < init_ram_pages m' \<and> pd_pages m' pd = pd_pages m pd
       \<and> (PAL_ZERO \<in> {PAL_USER} \<longrightarrow> frame_bytes m' k' = replicate PGSIZE 0)"
    using alloc_page[OF assms(1,2), of "{PAL_USER}"] by blast
  have km: "k' = k" "m' = m1" using al(1) assms(4) by simp_all
  have a: "pd_ok m1 pd" "page_map m1 pd = page_map m pd" "grows pd m m1" "ram_ok m1" "k \<notin> used m" "k \<in> used m1" "k mod PGSIZE = 0"
    "PHYS_BASE < k" "k + PGSIZE \<le> 2 ^ 32" "(k - PHYS_BASE) div PGSIZE < init_ram_pages m1" "pd_pages m1 pd = pd_pages m pd"
    using al(2-5) al(6)[unfolded km if_not_P[OF assms(5)]] unfolding km by simp_all
  let ?m2 = "store_bytes (k + length bs) (replicate z 0) (store_bytes k bs m1)"
  have kp: "k \<notin> pd_pages m1 pd" using a(5,11) pd_pages_used[OF assms(1)] by auto
  let ?m1 = "store_bytes k bs m1"
  have len: "k + length bs \<le> k + PGSIZE" "k + length bs + length (replicate z (0 :: byte)) \<le> k + PGSIZE" using assms(6) by simp_all
  note s1 = store_page[OF a(1,6) kp order_refl len(1)]
  have "k \<in> used ?m1" "k \<notin> pd_pages ?m1 pd" using a(6) kp s1(3) by simp_all
  note s2 = store_page[OF s1(1) this le_add1 len(2)]
  have o: "pd_ok ?m2 pd" "page_map ?m2 pd = page_map m1 pd" "pd_pages ?m2 pd = pd_pages m1 pd"
    using s2(1) trans[OF s2(2) s1(2)] trans[OF s2(3) s1(3)] by blast+
  have wo: "words ?m2 (q + 4 * j) = words m1 (q + 4 * j)" if "q \<in> used m" "j < 1024" for q j
  proof -
    have q: "q \<in> used m1" "q \<noteq> k" using that(1) a(3,5) by (auto simp: grows_def)
    then have "q \<in> used ?m1" by simp
    from s2(4)[OF this q(2) that(2)] s1(4)[OF q that(2)] show ?thesis by (rule trans)
  qed
  have "frames_ok m1 pd" by (rule frames_ok_grows[OF a(3) assms(7)]) (simp add: a(2))
  then have fo: "frames_ok ?m2 pd" unfolding frames_ok_def o(2,3) by simp
  have ram: "(k - PHYS_BASE) div PGSIZE < init_ram_pages ?m2" "PHYS_BASE \<le> k" "k < 2 ^ 32" using a(8-10) by (simp_all add: PGSIZE_def)
  obtain r m3 where i: "install_page pd u k w ?m2 = Some (r, m3)" "pd_ok m3 pd" "grows pd ?m2 m3"
    "page_map m3 pd = (if r then (page_map m pd)(u \<mapsto> (k, w)) else page_map m pd)" "r \<longrightarrow> page_map m pd u = None" "frames_ok m3 pd"
    using install_page_map[OF o(1) assms(3) a(7) ram(2,3,1) fo, of w] a(6) kp unfolding o(2,3) a(2) by auto
  have k2: "k \<in> used ?m2 - pd_pages ?m2 pd" using a(6) kp o(3) by simp
  then have k3: "k \<in> used m3" "k \<notin> pd_pages m3 pd" using i(3) by (auto simp: grows_def)
  have "frame_bytes m3 k = frame_bytes ?m2 k"
    using i(3) k2 by (intro frame_bytes_words[OF a(7)]) (simp add: grows_def)
  then have fb: "frame_bytes m3 k = bs @ replicate z 0" using frame_bytes_store[of bs "replicate z 0"] assms(6) by simp
  have "grows pd m ?m2"
    unfolding grows_def
  proof (intro conjI ballI allI impI)
    fix q j :: nat assume q: "q \<in> used m - pd_pages m pd" "j < 1024"
    have "words ?m2 (q + 4 * j) = words m1 (q + 4 * j)" by (rule wo[OF DiffD1[OF q(1)] q(2)])
    then show "words ?m2 (q + 4 * j) = words m (q + 4 * j)" using a(3) q by (simp add: grows_def)
  qed (use a(3,11) o(3) in \<open>auto simp: grows_def\<close>)
  then have gr: "grows pd m m3" using i(3) by (rule grows_trans)
  have "ram_ok m3" using gr assms(2) by (simp add: grows_def ram_ok_def)
  then show ?thesis using i k3 fb gr a(5) by blast
qed

section \<open>A segment\<close>

text \<open>The file \<open>f\<close> is open at \<open>pos\<close> and holds \<open>c\<close>.\<close>

definition file_at :: "fs \<Rightarrow> addr \<Rightarrow> nat \<Rightarrow> byte list \<Rightarrow> bool" where
  "file_at s f pos c \<longleftrightarrow> (\<exists>fl ino. files s f = Some fl \<and> inodes s (f_inode fl) = Some ino \<and> inode_ok s ino \<and> disk_ok s
     \<and> 0 < mem_left s \<and> f_pos fl = int pos \<and> c = contents (disk s) ino)"

lemma file_at_read:
  assumes "file_at s f pos c"
  shows "\<exists>s'. file_read f (int n) s = Some (take n (drop pos c), s') \<and> file_at s' f (pos + length (take n (drop pos c))) c"
proof -
  obtain fl ino where f: "files s f = Some fl" "inodes s (f_inode fl) = Some ino" "inode_ok s ino" "disk_ok s" "0 < mem_left s"
    "f_pos fl = int pos" "c = contents (disk s) ino" using assms by (auto simp: file_at_def)
  show ?thesis
    using inode_read_at_data[OF f(2-5), of n pos] f
    by (auto simp: file_read_def file_at_def inode_ok_def disk_ok_def)
qed

lemma file_at_seek:
  assumes "file_at s f pos c"
  shows "\<exists>s'. file_seek f (int n) s = Some s' \<and> file_at s' f n c"
  using assms by (auto simp: file_at_def file_seek_def inode_ok_def disk_ok_def)

lemma file_at_length:
  assumes "file_at s f pos c"
  shows "file_length f s = Some (int (length c))"
  using assms by (auto simp: file_at_def file_length_def inode_ok_def)

text \<open>Page \<open>i\<close> of a segment of \<open>r\<close> bytes of the file and \<open>z\<close> zeros.\<close>

definition seg_page :: "byte list \<Rightarrow> nat \<Rightarrow> nat \<Rightarrow> nat \<Rightarrow> nat \<Rightarrow> byte list" where
  "seg_page c pos r z i = take PGSIZE (drop (PGSIZE * i) (take r (drop pos c) @ replicate z 0))"

definition mapped_to :: "mmu \<Rightarrow> mmu \<Rightarrow> addr \<Rightarrow> nat \<Rightarrow> bool \<Rightarrow> byte list \<Rightarrow> bool" where
  "mapped_to m m' pd u w bs \<longleftrightarrow> page_map m pd u = None \<and> (\<exists>k. page_map m' pd u = Some (k, w) \<and> k \<notin> used m \<and> k \<in> used m'
     \<and> k \<notin> pd_pages m' pd \<and> k mod PGSIZE = 0 \<and> frame_bytes m' k = bs)"

definition mem_inv :: "mmu \<Rightarrow> addr \<Rightarrow> bool" where
  "mem_inv m pd \<longleftrightarrow> pd_ok m pd \<and> frames_ok m pd"

lemma mapped_grows:
  assumes "mapped_to m m1 pd u w bs" "grows pd m1 m2" "page_map m2 pd u = page_map m1 pd u"
  shows "mapped_to m m2 pd u w bs"
proof -
  obtain k where k: "page_map m pd u = None" "page_map m1 pd u = Some (k, w)" "k \<notin> used m" "k \<in> used m1" "k \<notin> pd_pages m1 pd"
    "k mod PGSIZE = 0" "frame_bytes m1 k = bs" using assms(1) by (auto simp: mapped_to_def)
  have "frame_bytes m2 k = frame_bytes m1 k"
    using assms(2) k(4,5) by (intro frame_bytes_words[OF k(6)]) (simp add: grows_def)
  moreover have "k \<in> used m2" "k \<notin> pd_pages m2 pd" using assms(2) k(4,5) by (auto simp: grows_def)
  ultimately show ?thesis using k assms(3) by (simp add: mapped_to_def)
qed

lemma mapped_later:
  assumes "mapped_to m1 m2 pd u w bs" "used m \<subseteq> used m1" "page_map m pd u = None"
  shows "mapped_to m m2 pd u w bs"
  using assms by (auto simp: mapped_to_def)

lemma seg_page_Suc:
  assumes "length (take (min r PGSIZE) (drop pos c)) = min r PGSIZE" "r + z = PGSIZE * Suc n"
  shows "seg_page c (pos + min r PGSIZE) (r - min r PGSIZE) (z - (PGSIZE - min r PGSIZE)) i = seg_page c pos r z (Suc i)"
    "seg_page c pos r z 0 = take (min r PGSIZE) (drop pos c) @ replicate (PGSIZE - min r PGSIZE) 0"
proof -
  have e: "(take (r - min r PGSIZE) (drop (pos + min r PGSIZE) c) @ replicate (z - (PGSIZE - min r PGSIZE)) 0)
    = drop PGSIZE (take r (drop pos c) @ replicate z 0)"
  proof (cases "r < PGSIZE")
    case True
    then have "length (take r (drop pos c)) = r" using assms(1) by simp
    then show ?thesis using True by simp
  next
    case False
    then have mr: "min r PGSIZE = PGSIZE" by simp
    have "PGSIZE \<le> length (drop pos c)" using assms(1) unfolding mr by (metis length_take min.cobounded1)
    then show ?thesis using False by (simp add: drop_take add.commute)
  qed
  show "seg_page c (pos + min r PGSIZE) (r - min r PGSIZE) (z - (PGSIZE - min r PGSIZE)) i = seg_page c pos r z (Suc i)"
    unfolding seg_page_def e by (simp only: drop_drop mult_Suc_right add.commute)
  show "seg_page c pos r z 0 = take (min r PGSIZE) (drop pos c) @ replicate (PGSIZE - min r PGSIZE) 0"
  proof (cases "r < PGSIZE")
    case True
    then have "length (take r (drop pos c)) = r" "PGSIZE - r \<le> z" using assms by simp_all
    then show ?thesis using True by (simp add: seg_page_def min_def)
  next
    case False
    then have mr: "min r PGSIZE = PGSIZE" by simp
    have "PGSIZE \<le> length (drop pos c)" using assms(1) unfolding mr by (metis length_take min.cobounded1)
    then show ?thesis unfolding seg_page_def mr using False by simp
  qed
qed

lemma user_page_offset:
  assumes "u mod PGSIZE = 0" "u + PGSIZE * n \<le> PHYS_BASE" "i < n"
  shows "user_page (u + PGSIZE * i)"
proof -
  have "PGSIZE * i < PGSIZE * n" using assms(3) by (simp add: PGSIZE_def)
  then have "u + PGSIZE * i < PHYS_BASE" using assms(2) by linarith
  then show ?thesis using assms(1) by (simp add: user_page_def)
qed

lemma load_pages_ok:
  assumes "mem_inv (mem s) (pagedir s)" "ram_ok (mem s)" "file_at (fsys s) f pos c" "r + z = PGSIZE * n" "r + z < 2 ^ 32"
    "u mod PGSIZE = 0" "u + PGSIZE * n \<le> PHYS_BASE"
  shows "\<exists>ok s'. load_pages f u r z w s = Some (ok, s') \<and> pagedir s' = pagedir s \<and> mem_inv (mem s') (pagedir s)
    \<and> (\<exists>pos'. file_at (fsys s') f pos' c)
    \<and> (\<forall>v. (\<forall>i < n. v \<noteq> u + PGSIZE * i) \<longrightarrow> page_map (mem s') (pagedir s) v = page_map (mem s) (pagedir s) v)
    \<and> (ok \<longrightarrow> grows (pagedir s) (mem s) (mem s') \<and> ram_ok (mem s') \<and> r \<le> length c - pos
         \<and> (\<forall>i < n. mapped_to (mem s) (mem s') (pagedir s) (u + PGSIZE * i) w (seg_page c pos r z i)))"
  using assms
proof (induction n arbitrary: s pos r z u)
  case 0
  then have "load_pages f u r z w s = Some (True, s)" by (subst load_pages.simps) simp
  then show ?case using 0 grows_refl by auto
next
  case (Suc n)
  let ?pd = "pagedir s"
  let ?r0 = "min r PGSIZE"
  have ok: "pd_ok (mem s) ?pd" "frames_ok (mem s) ?pd" using Suc.prems(1) by (simp_all add: mem_inv_def)
  have u: "user_page u" using user_page_offset[OF Suc.prems(6,7), of 0] by simp
  obtain k m1 where al: "palloc_get_page {PAL_USER} (mem s) = Some (k, m1)" "k = NULL \<longrightarrow> m1 = mem s"
    "pd_ok m1 ?pd" "page_map m1 ?pd = page_map (mem s) ?pd" "k \<noteq> NULL \<longrightarrow> k \<in> used m1 \<and> k \<notin> used (mem s) \<and> pd_pages m1 ?pd = pd_pages (mem s) ?pd"
    "grows ?pd (mem s) m1"
    using alloc_page[OF ok(1) Suc.prems(2), of "{PAL_USER}"] by (force split: if_splits)
  obtain d where rd: "file_read f (int ?r0) (fsys s) = Some (take ?r0 (drop pos c), d)"
    "file_at d f (pos + length (take ?r0 (drop pos c))) c" using file_at_read[OF Suc.prems(3)] by blast
  let ?bs = "take ?r0 (drop pos c)"
  have pos': "0 < r \<or> 0 < z" using Suc.prems(4) by (auto simp: PGSIZE_def)
  have r0: "(if r < PGSIZE then r else PGSIZE) = ?r0" by simp
  note unf = load_pages.simps[of f u r z w s, unfolded if_P[OF pos'] r0 Let_def]
  show ?case
  proof (cases "k = NULL")
    case True
    then have "load_pages f u r z w s = Some (False, s)" unfolding unf using al(1,2) by simp
    then show ?thesis using Suc.prems(1,3) by auto
  next
    case False
    note al5 = al(5)[THEN mp, OF False]
    show ?thesis
    proof (cases "length ?bs = ?r0")
      case short: False
      have k: "k \<in> used m1" "k \<notin> pd_pages m1 ?pd" using al5 pd_pages_used[OF ok(1)] by auto
      have "k + length ?bs \<le> k + PGSIZE" by (simp add: min_def)
      note st = store_page[OF al(3) k order_refl this]
      have ku: "k \<in> used (store_bytes k ?bs m1)" "k \<notin> pd_pages (store_bytes k ?bs m1) ?pd" using k st(3) by simp_all
      have "frames_ok m1 ?pd" by (rule frames_ok_grows[OF al(6) ok(2)]) (simp add: al(4))
      then have "frames_ok (store_bytes k ?bs m1) ?pd" unfolding frames_ok_def st(2,3) by simp
      moreover have unm: "page_map (mem s) ?pd v \<noteq> Some (k, w)" for v w using ok(2) al5 by (auto simp: frames_ok_def)
      ultimately obtain m2 where m2: "palloc_free_page k (store_bytes k ?bs m1) = Some m2" "pd_ok m2 ?pd"
        "page_map m2 ?pd = page_map (mem s) ?pd" "frames_ok m2 ?pd"
        using free_page[OF st(1) ku] unfolding st(2) al(4) by blast
      have "load_pages f u r z w s = Some (False, s\<lparr>mem := m2, fsys := d\<rparr>)"
        unfolding unf using al(1) False rd(1) short m2(1) by simp
      moreover have "mem_inv m2 ?pd" using m2(2,4) by (simp add: mem_inv_def)
      ultimately show ?thesis using rd(2) m2(3) by auto
    next
      case True
      let ?z0 = "PGSIZE - ?r0"
      have z0: "?z0 \<le> z" "(z + 2 ^ 32 - ?z0) mod 2 ^ 32 = z - ?z0"
      proof -
        show "?z0 \<le> z" using Suc.prems(4) by (cases "r < PGSIZE") simp_all
        then have eq: "z + 2 ^ 32 - ?z0 = (z - ?z0) + 2 ^ 32" by simp
        have "z - ?z0 < 2 ^ 32" using Suc.prems(5) by simp
        then show "(z + 2 ^ 32 - ?z0) mod 2 ^ 32 = z - ?z0" unfolding eq mod_add_self2 by (rule mod_less)
      qed
      have len: "length ?bs + ?z0 = PGSIZE" unfolding True by simp
      let ?m2 = "store_bytes (k + length ?bs) (replicate ?z0 0) (store_bytes k ?bs m1)"
      obtain b m3 where st: "install_page ?pd u k w ?m2 = Some (b, m3)" "pd_ok m3 ?pd" "ram_ok m3" "grows ?pd (mem s) m3"
        "k \<notin> used (mem s)" "k \<in> used m3" "k \<notin> pd_pages m3 ?pd" "frame_bytes m3 k = ?bs @ replicate ?z0 0"
        "page_map m3 ?pd = (if b then (page_map (mem s) ?pd)(u \<mapsto> (k, w)) else page_map (mem s) ?pd)"
        "b \<longrightarrow> page_map (mem s) ?pd u = None" "frames_ok m3 ?pd"
        using page_step[OF ok(1) Suc.prems(2) u al(1) False len ok(2), of w] by blast
      show ?thesis
      proof (cases b)
        case fails: False
        have "page_map m3 ?pd v \<noteq> Some (k, w)" for v w using st(5,9) fails ok(2) by (auto simp: frames_ok_def)
        then obtain m4 where m4: "palloc_free_page k m3 = Some m4" "pd_ok m4 ?pd" "page_map m4 ?pd = page_map m3 ?pd" "frames_ok m4 ?pd"
          using free_page[OF st(2,6,7)] st(11) by blast
        have "load_pages f u r z w s = Some (False, s\<lparr>mem := m4, fsys := d\<rparr>)"
          unfolding unf using al(1) False rd(1) True st(1) fails m4(1) by simp
        moreover have "page_map m4 ?pd = page_map (mem s) ?pd" using m4(3) st(9) fails by simp
        moreover have "mem_inv m4 ?pd" using m4(2,4) by (simp add: mem_inv_def)
        ultimately show ?thesis using rd(2) by auto
      next
        case ok': True
        let ?t = "s\<lparr>mem := m3, fsys := d\<rparr>"
        have pm: "page_map m3 ?pd = (page_map (mem s) ?pd)(u \<mapsto> (k, w))" "page_map (mem s) ?pd u = None" using st(9,10) ok' by simp_all
        have next_u: "(u + PGSIZE) mod 2 ^ 32 = u + PGSIZE" "(u + PGSIZE) mod PGSIZE = 0" "u + PGSIZE + PGSIZE * n \<le> PHYS_BASE"
          using Suc.prems(6,7) by (simp_all add: PHYS_BASE_def)
        have "load_pages f u r z w s = load_pages f ((u + PGSIZE) mod 2 ^ 32) (r - ?r0) ((z + 2 ^ 32 - ?z0) mod 2 ^ 32) w ?t"
          unfolding unf using al(1) False rd(1) True st(1) ok' by simp
        then have step: "load_pages f u r z w s = load_pages f (u + PGSIZE) (r - ?r0) (z - ?z0) w ?t" unfolding z0(2) next_u(1) .
        have sum: "r - ?r0 + (z - ?z0) = PGSIZE * n" using Suc.prems(4) z0(1) by (cases "r < PGSIZE") simp_all
        have lt: "r - ?r0 + (z - ?z0) < 2 ^ 32" using Suc.prems(5) by simp
        have inv: "mem_inv (mem ?t) (pagedir ?t)" "ram_ok (mem ?t)" using st(2,3,11) by (simp_all add: mem_inv_def)
        have fa: "file_at (fsys ?t) f (pos + ?r0) c" using rd(2) unfolding True by simp
        obtain ok s' where ih: "load_pages f (u + PGSIZE) (r - ?r0) (z - ?z0) w ?t = Some (ok, s')" "pagedir s' = ?pd"
          "mem_inv (mem s') ?pd" "\<exists>pos'. file_at (fsys s') f pos' c"
          "\<forall>v. (\<forall>i < n. v \<noteq> u + PGSIZE + PGSIZE * i) \<longrightarrow> page_map (mem s') ?pd v = page_map m3 ?pd v"
          "ok \<longrightarrow> grows ?pd m3 (mem s') \<and> ram_ok (mem s') \<and> r - ?r0 \<le> length c - (pos + ?r0)
             \<and> (\<forall>i < n. mapped_to m3 (mem s') ?pd (u + PGSIZE + PGSIZE * i) w (seg_page c (pos + ?r0) (r - ?r0) (z - ?z0) i))"
          using Suc.IH[OF inv fa sum lt next_u(2,3)] by auto
        have "page_map (mem s') ?pd v = page_map (mem s) ?pd v" if "\<forall>i < Suc n. v \<noteq> u + PGSIZE * i" for v
        proof -
          have "v \<noteq> u" using that by force
          moreover have "\<forall>i < n. v \<noteq> u + PGSIZE + PGSIZE * i" using that by (metis Suc_less_eq mult_Suc_right add.assoc)
          ultimately show ?thesis using ih(5) pm(1) by simp
        qed
        moreover have "grows ?pd (mem s) (mem s') \<and> ram_ok (mem s') \<and> r \<le> length c - pos
          \<and> (\<forall>i < Suc n. mapped_to (mem s) (mem s') ?pd (u + PGSIZE * i) w (seg_page c pos r z i))" if ok
        proof (intro conjI allI impI)
          note ih6 = ih(6)[THEN mp, OF that]
          show "grows ?pd (mem s) (mem s')" using grows_trans[OF st(4)] ih6 by blast
          show "ram_ok (mem s')" using ih6 by blast
          have "?r0 \<le> length c - pos" using True by (metis length_take length_drop min.cobounded1)
          then show "r \<le> length c - pos" using ih6 by linarith
          fix i assume i: "i < Suc n"
          note sp = seg_page_Suc[OF True Suc.prems(4)]
          show "mapped_to (mem s) (mem s') ?pd (u + PGSIZE * i) w (seg_page c pos r z i)"
          proof (cases i)
            case 0
            have "mapped_to (mem s) m3 ?pd u w (seg_page c pos r z 0)"
              unfolding mapped_to_def sp(2) using pm st(5-8) used_page(1)[OF pd_okD(1)[OF st(2)] st(6)] by auto
            moreover have "page_map (mem s') ?pd u = page_map m3 ?pd u" using ih(5) by (simp add: PGSIZE_def)
            ultimately show ?thesis using mapped_grows ih6 0 by auto
          next
            case (Suc j)
            have j: "j < n" using i Suc by simp
            have v: "u + PGSIZE * i = u + PGSIZE + PGSIZE * j" using Suc by simp
            have "mapped_to m3 (mem s') ?pd (u + PGSIZE + PGSIZE * j) w (seg_page c (pos + ?r0) (r - ?r0) (z - ?z0) j)"
              using ih6 j by blast
            then have m: "mapped_to m3 (mem s') ?pd (u + PGSIZE + PGSIZE * j) w (seg_page c pos r z i)" unfolding sp(1) Suc .
            moreover have "used (mem s) \<subseteq> used m3" using st(4) by (simp add: grows_def)
            moreover have "page_map (mem s) ?pd (u + PGSIZE + PGSIZE * j) = None"
              using m pm(1) by (auto simp: mapped_to_def PGSIZE_def split: if_splits)
            ultimately show ?thesis unfolding v by (rule mapped_later)
          qed
        qed
        ultimately show ?thesis using step ih(1-4) by (intro exI[of _ ok] exI[of _ s'] conjI) auto
      qed
    qed
  qed
qed

section \<open>The bytes a process sees\<close>

definition user_byte :: "mmu \<Rightarrow> addr \<Rightarrow> nat \<Rightarrow> (byte \<times> bool) option" where
  "user_byte m pd va = (case page_map m pd (va - va mod PGSIZE) of None \<Rightarrow> None
     | Some (k, w) \<Rightarrow> Some (mem_byte m (k + va mod PGSIZE), w))"

lemma page_split:
  assumes "u mod PGSIZE = 0" "j < PGSIZE"
  shows "(u + j) mod PGSIZE = j" "u + j - (u + j) mod PGSIZE = u"
proof -
  show "(u + j) mod PGSIZE = j" using assms by (metis mod_add_left_eq mod_less add_0)
  then show "u + j - (u + j) mod PGSIZE = u" by simp
qed

lemma mapped_byte:
  assumes "mapped_to m m' pd u w bs" "u mod PGSIZE = 0" "j < PGSIZE"
  shows "user_byte m' pd (u + j) = Some (bs ! j, w)"
proof -
  obtain k where k: "page_map m' pd u = Some (k, w)" "frame_bytes m' k = bs" using assms(1) by (auto simp: mapped_to_def)
  have "mem_byte m' (k + j) = bs ! j" using k(2) assms(3) by (auto simp: frame_bytes_def)
  then show ?thesis using k(1) page_split[OF assms(2,3)] by (simp add: user_byte_def)
qed

lemma user_byte_grows:
  assumes "pd_ok m pd" "frames_ok m pd" "grows pd m m'" "user_byte m pd va = Some b"
    "page_map m' pd (va - va mod PGSIZE) = page_map m pd (va - va mod PGSIZE)"
  shows "user_byte m' pd va = Some b"
proof -
  obtain k w where k: "page_map m pd (va - va mod PGSIZE) = Some (k, w)" using assms(4) by (auto simp: user_byte_def split: option.splits)
  then have ku: "k \<in> used m - pd_pages m pd" using assms(2) unfolding frames_ok_def by blast
  have "k mod PGSIZE = 0" using used_page(1)[OF pd_okD(1)[OF assms(1)]] ku by blast
  then have "frame_bytes m' k = frame_bytes m k" using assms(3) ku by (intro frame_bytes_words) (simp_all add: grows_def)
  moreover have "mem_byte x (k + va mod PGSIZE) = frame_bytes x k ! (va mod PGSIZE)" for x
    by (simp add: frame_bytes_def PGSIZE_def)
  ultimately show ?thesis using assms(4,5) k by (simp add: user_byte_def)
qed

section \<open>Loadable segments\<close>

definition phdr_range :: "elf_phdr \<Rightarrow> bool" where
  "phdr_range ph \<longleftrightarrow> p_offset ph < 2 ^ 32 \<and> p_vaddr ph < 2 ^ 32 \<and> p_filesz ph < 2 ^ 32 \<and> p_memsz ph < 2 ^ 32"

lemma validate_segment_iff:
  assumes "file_length f s = Some len" "0 \<le> len" "len < 2 ^ 31" "phdr_range ph"
  shows "validate_segment ph f s = Some (p_offset ph mod PGSIZE = p_vaddr ph mod PGSIZE \<and> int (p_offset ph) \<le> len
    \<and> p_filesz ph \<le> p_memsz ph \<and> 0 < p_memsz ph \<and> PGSIZE \<le> p_vaddr ph \<and> p_vaddr ph + p_memsz ph < PHYS_BASE)"
proof -
  have b: "p_offset ph < 2 ^ 32" "p_vaddr ph < 2 ^ 32" "p_memsz ph < 2 ^ 32" using assms(4) by (simp_all add: phdr_range_def)
  have len: "of_off len = nat len" using assms(2,3) by (simp add: of_off_def)
  let ?e = "p_vaddr ph + p_memsz ph"
  have wrap: "is_user_vaddr (p_vaddr ph) \<and> is_user_vaddr (?e mod 2 ^ 32) \<and> \<not> ?e mod 2 ^ 32 < p_vaddr ph \<longleftrightarrow> ?e < PHYS_BASE"
  proof (cases "?e < 2 ^ 32")
    case True
    then show ?thesis by (auto simp: is_user_vaddr_def)
  next
    case False
    then have "?e mod 2 ^ 32 = ?e - 2 ^ 32" using b(2,3) by (simp add: mod_if)
    then show ?thesis using False b by (auto simp: PHYS_BASE_def)
  qed
  have le: "p_offset ph > nat len \<longleftrightarrow> \<not> int (p_offset ph) \<le> len" using assms(2) by linarith
  have vs: "validate_segment ph f s = Some (p_offset ph mod PGSIZE = p_vaddr ph mod PGSIZE \<and> \<not> p_offset ph > nat len
    \<and> p_filesz ph \<le> p_memsz ph \<and> 0 < p_memsz ph \<and> PGSIZE \<le> p_vaddr ph
    \<and> (is_user_vaddr (p_vaddr ph) \<and> is_user_vaddr (?e mod 2 ^ 32) \<and> \<not> ?e mod 2 ^ 32 < p_vaddr ph))"
    unfolding validate_segment_def assms(1) Let_def Option.bind.bind_lunit pg_ofs_mod[OF b(1)] pg_ofs_mod[OF b(2)] len
    by auto
  show ?thesis unfolding vs wrap le by simp
qed

text \<open>The numbers \<open>load\<close> computes for a valid segment: \<open>n\<close> pages from the page of \<open>p_vaddr\<close> on.\<close>

definition seg_ok :: "elf_phdr \<Rightarrow> byte list \<Rightarrow> bool" where
  "seg_ok ph c \<longleftrightarrow> p_offset ph mod PGSIZE = p_vaddr ph mod PGSIZE \<and> p_offset ph \<le> length c
    \<and> p_filesz ph \<le> p_memsz ph \<and> 0 < p_memsz ph \<and> PGSIZE \<le> p_vaddr ph \<and> p_vaddr ph + p_memsz ph < PHYS_BASE"

definition seg_pages :: "elf_phdr \<Rightarrow> nat" where
  "seg_pages ph = (p_vaddr ph mod PGSIZE + p_memsz ph + PGSIZE - 1) div PGSIZE"

lemma seg_sizes:
  assumes "seg_ok ph c" "o' = p_vaddr ph mod PGSIZE" "n = seg_pages ph"
  shows "o' + p_memsz ph \<le> PGSIZE * n" "p_vaddr ph - o' + PGSIZE * n \<le> PHYS_BASE" "PGSIZE * n < 2 ^ 32" "0 < n"
    "ROUND_UP_PAGE ((o' + p_memsz ph) mod 2 ^ 32) = PGSIZE * n" "o' \<le> p_vaddr ph" "(p_vaddr ph - o') mod PGSIZE = 0"
    "PGSIZE \<le> p_vaddr ph - o'"
proof -
  have s: "0 < p_memsz ph" "p_vaddr ph + p_memsz ph < PHYS_BASE" "PGSIZE \<le> p_vaddr ph" using assms(1) by (simp_all add: seg_ok_def)
  define x where "x = o' + p_memsz ph"
  have o: "o' < PGSIZE" "o' \<le> p_vaddr ph" by (simp_all add: assms(2) PGSIZE_def)
  show "o' \<le> p_vaddr ph" "(p_vaddr ph - o') mod PGSIZE = 0" using o(2) by (simp_all add: assms(2))
  have n: "n = (x + PGSIZE - 1) div PGSIZE" by (simp add: assms(2,3) seg_pages_def x_def)
  have pg: "0 < PGSIZE" by (simp add: PGSIZE_def)
  have "PGSIZE * n + (x + PGSIZE - 1) mod PGSIZE = x + PGSIZE - 1" unfolding n by (rule mult_div_mod_eq)
  moreover have "(x + PGSIZE - 1) mod PGSIZE < PGSIZE" using pg by (rule mod_less_divisor)
  ultimately have xn: "x \<le> PGSIZE * n" "PGSIZE * n < x + PGSIZE" using pg by linarith+
  show "o' + p_memsz ph \<le> PGSIZE * n" using xn(1) by (simp add: x_def)
  show "0 < n" using xn(1) s(1) by (cases n) (simp_all add: x_def)
  let ?u = "p_vaddr ph - o'"
  have "?u mod PGSIZE = 0" using o(2) by (simp add: assms(2))
  then obtain k where k: "?u = PGSIZE * k" by (auto elim: dvdE)
  have pb: "PHYS_BASE = PGSIZE * 786432" by (simp add: PHYS_BASE_def PGSIZE_def)
  have "?u + PGSIZE * n < PHYS_BASE + PGSIZE" using xn(2) s(2) o(2) by (simp add: x_def)
  then have "PGSIZE * (k + n) < PGSIZE * 786433" unfolding k pb by (simp add: PGSIZE_def)
  then have "k + n \<le> 786432" by simp
  then have "PGSIZE * (k + n) \<le> PGSIZE * 786432" by (rule mult_le_mono2)
  then show le: "?u + PGSIZE * n \<le> PHYS_BASE" unfolding k pb by (simp add: algebra_simps)
  then show lt: "PGSIZE * n < 2 ^ 32" by (simp add: PHYS_BASE_def)
  have xb: "x + PGSIZE - 1 < 2 ^ 32" using s(2) o by (simp add: x_def PHYS_BASE_def PGSIZE_def)
  then have "x mod 2 ^ 32 = x" "(x + PGSIZE - 1) mod 2 ^ 32 = x + PGSIZE - 1" by (simp_all add: PGSIZE_def)
  then have "ROUND_UP_PAGE (x mod 2 ^ 32) = PGSIZE * n" unfolding ROUND_UP_PAGE_def n by (simp add: mult.commute)
  then show "ROUND_UP_PAGE ((o' + p_memsz ph) mod 2 ^ 32) = PGSIZE * n" by (simp add: x_def)
  show "PGSIZE \<le> ?u" using k s(3) o by (cases k) simp_all
qed

definition writable_of :: "elf_phdr \<Rightarrow> bool" where "writable_of ph \<longleftrightarrow> w32 (p_flags ph) AND PF_W \<noteq> 0"

lemma load_seg_of_calls:
  assumes "mem_inv (mem s) (pagedir s)" "file_at (fsys s) f pos c" "length c < 2 ^ 31" "phdr_range ph" "seg_ok ph c"
  defines "o' \<equiv> p_vaddr ph mod PGSIZE"
  defines "r \<equiv> if p_filesz ph > 0 then o' + p_filesz ph else 0"
  obtains d where "file_at d f (p_offset ph - o') c"
    "load_seg_of ph f s = load_pages f (p_vaddr ph - o') r (PGSIZE * seg_pages ph - r) (writable_of ph) (s\<lparr>fsys := d\<rparr>)"
    "r \<le> PGSIZE * seg_pages ph" "p_offset ph - o' + r \<le> p_offset ph + p_filesz ph"
proof -
  note z = seg_sizes[OF assms(5) refl refl, folded o'_def]
  have so: "p_offset ph mod PGSIZE = o'" "p_offset ph \<le> length c" "p_filesz ph \<le> p_memsz ph" "p_vaddr ph + p_memsz ph < PHYS_BASE"
    using assms(5) by (simp_all add: seg_ok_def o'_def)
  have b: "p_offset ph < 2 ^ 32" "p_vaddr ph < 2 ^ 32" using assms(4) by (simp_all add: phdr_range_def)
  have oo: "o' \<le> p_offset ph" using so(1) by (metis mod_less_eq_dividend)
  have pg: "pg_round_down (p_offset ph) = p_offset ph - o'" "pg_round_down (p_vaddr ph) = p_vaddr ph - o'" "pg_ofs (p_vaddr ph) = o'"
    using pg_round_down_sub[OF b(1)] pg_round_down_sub[OF b(2)] pg_ofs_mod[OF b(2)] so(1) by (simp_all add: o'_def)
  have "validate_segment ph f (fsys s) = Some True"
    using validate_segment_iff[OF file_at_length[OF assms(2)] _ _ assms(4)] assms(3,5) by (simp add: seg_ok_def)
  moreover have rn: "r \<le> PGSIZE * seg_pages ph" using z(1) so(3) by (simp add: r_def)
  have "o' < PGSIZE" by (simp add: o'_def PGSIZE_def)
  then have rb: "(o' + p_filesz ph) mod 2 ^ 32 = o' + p_filesz ph" using so(3,4) by (simp add: PHYS_BASE_def PGSIZE_def)
  have "(PGSIZE * seg_pages ph + 2 ^ 32 - r) mod 2 ^ 32 = PGSIZE * seg_pages ph - r"
  proof -
    have "PGSIZE * seg_pages ph + 2 ^ 32 - r = (PGSIZE * seg_pages ph - r) + 2 ^ 32" using rn by simp
    moreover have "PGSIZE * seg_pages ph - r < 2 ^ 32" using z(3) by simp
    ultimately show ?thesis unfolding \<open>PGSIZE * seg_pages ph + 2 ^ 32 - r = _\<close> mod_add_self2 by (intro mod_less)
  qed
  moreover have "to_off (p_offset ph - o') = int (p_offset ph - o')" using so(2) assms(3) by (simp add: to_off_def)
  ultimately have call: "load_seg_of ph f s = load_segment f (int (p_offset ph - o')) (p_vaddr ph - o') r (PGSIZE * seg_pages ph - r) (writable_of ph) s"
    unfolding load_seg_of_def Let_def pg z(5) rb by (auto simp: writable_of_def r_def)
  obtain d where d: "file_seek f (int (p_offset ph - o')) (fsys s) = Some d" "file_at d f (p_offset ph - o') c"
    using file_at_seek[OF assms(2)] by blast
  have a1: "(r + (PGSIZE * seg_pages ph - r)) mod 2 ^ 32 mod PGSIZE = 0" using rn z(3) by simp
  have ub: "p_vaddr ph - o' < 2 ^ 32" using b(2) by simp
  have a2: "pg_ofs (p_vaddr ph - o') = 0" using pg_ofs_mod[OF ub] z(7) by simp
  have "(p_offset ph - o') mod PGSIZE = 0" using so(1) by auto
  then have a3: "int (p_offset ph - o') mod int PGSIZE = 0" by (simp only: zmod_int[symmetric] of_nat_0)
  have "load_seg_of ph f s = load_pages f (p_vaddr ph - o') r (PGSIZE * seg_pages ph - r) (writable_of ph) (s\<lparr>fsys := d\<rparr>)"
    unfolding call load_segment_def using a1 a2 a3 d(1) by simp
  moreover have "p_offset ph - o' + r \<le> p_offset ph + p_filesz ph" using oo by (simp add: r_def)
  ultimately show ?thesis by (rule_tac that[OF d(2) _ rn])
qed

lemma page_nth:
  assumes "x < length l"
  shows "take PGSIZE (drop (PGSIZE * (x div PGSIZE)) l) ! (x mod PGSIZE) = l ! x"
proof -
  have "x mod PGSIZE < PGSIZE" by (simp add: PGSIZE_def)
  moreover have "PGSIZE * (x div PGSIZE) \<le> length l" using assms times_div_less_eq_dividend[of PGSIZE x] by linarith
  ultimately show ?thesis by simp
qed

lemma seg_page_byte:
  assumes "seg_ok ph c" "i < p_memsz ph" "p_offset ph + p_filesz ph \<le> length c \<or> p_filesz ph = 0"
  defines "o' \<equiv> p_vaddr ph mod PGSIZE"
  defines "r \<equiv> if p_filesz ph > 0 then o' + p_filesz ph else 0"
  defines "x \<equiv> o' + i"
  shows "x div PGSIZE < seg_pages ph" "p_vaddr ph - o' + PGSIZE * (x div PGSIZE) + x mod PGSIZE = p_vaddr ph + i"
    "seg_page c (p_offset ph - o') r (PGSIZE * seg_pages ph - r) (x div PGSIZE) ! (x mod PGSIZE)
      = (if i < p_filesz ph then c ! (p_offset ph + i) else 0)"
proof -
  note z = seg_sizes[OF assms(1) refl refl, folded o'_def]
  have so: "p_offset ph mod PGSIZE = o'" "p_offset ph \<le> length c" "p_filesz ph \<le> p_memsz ph" using assms(1) by (simp_all add: seg_ok_def o'_def)
  have oo: "o' \<le> p_offset ph" using so(1) by (metis mod_less_eq_dividend)
  have xn: "x < PGSIZE * seg_pages ph" using z(1) assms(2) by (simp add: x_def)
  then show "x div PGSIZE < seg_pages ph" by (simp add: less_mult_imp_div_less mult.commute)
  have xx: "PGSIZE * (x div PGSIZE) + x mod PGSIZE = x" by simp
  then show "p_vaddr ph - o' + PGSIZE * (x div PGSIZE) + x mod PGSIZE = p_vaddr ph + i" using z(6) by (simp add: x_def)
  have rn: "r \<le> PGSIZE * seg_pages ph" using z(1) so(3) by (simp add: r_def)
  let ?l = "take r (drop (p_offset ph - o') c) @ replicate (PGSIZE * seg_pages ph - r) 0"
  have lr: "length (take r (drop (p_offset ph - o') c)) = r" using assms(3) oo so(2) by (auto simp: r_def)
  then have len: "length ?l = PGSIZE * seg_pages ph" using rn by simp
  have "seg_page c (p_offset ph - o') r (PGSIZE * seg_pages ph - r) (x div PGSIZE) ! (x mod PGSIZE) = ?l ! x"
    unfolding seg_page_def by (rule page_nth) (simp only: len xn)
  also have "?l ! x = (if i < p_filesz ph then c ! (p_offset ph + i) else 0)"
  proof (cases "x < r")
    case True
    then have f: "i < p_filesz ph" by (auto simp: r_def x_def split: if_splits)
    then have b: "p_offset ph + p_filesz ph \<le> length c" using assms(3) by auto
    have "?l ! x = take r (drop (p_offset ph - o') c) ! x" using True lr by (simp only: nth_append if_True)
    also have "\<dots> = c ! (p_offset ph - o' + x)" using True so(2) oo by simp
    also have "p_offset ph - o' + x = p_offset ph + i" using oo by (simp add: x_def)
    finally show ?thesis using f by simp
  next
    case False
    then have f: "\<not> i < p_filesz ph" by (auto simp: r_def x_def split: if_splits)
    have "?l ! x = replicate (PGSIZE * seg_pages ph - r) 0 ! (x - r)" using False lr by (simp only: nth_append if_False)
    then show ?thesis using f False xn by simp
  qed
  finally show "seg_page c (p_offset ph - o') r (PGSIZE * seg_pages ph - r) (x div PGSIZE) ! (x mod PGSIZE)
      = (if i < p_filesz ph then c ! (p_offset ph + i) else 0)" .
qed

lemma load_seg_ok:
  assumes "mem_inv (mem s) (pagedir s)" "ram_ok (mem s)" "file_at (fsys s) f pos c" "length c < 2 ^ 31" "phdr_range ph" "seg_ok ph c"
  shows "\<exists>ok s'. load_seg_of ph f s = Some (ok, s') \<and> pagedir s' = pagedir s \<and> mem_inv (mem s') (pagedir s)
    \<and> (\<exists>pos'. file_at (fsys s') f pos' c) \<and> page_map (mem s') (pagedir s) 0 = page_map (mem s) (pagedir s) 0
    \<and> (ok \<longrightarrow> ram_ok (mem s')
      \<and> (\<forall>i < p_memsz ph. user_byte (mem s') (pagedir s) (p_vaddr ph + i)
           = Some (if i < p_filesz ph then c ! (p_offset ph + i) else 0, writable_of ph))
      \<and> (\<forall>va b. user_byte (mem s) (pagedir s) va = Some b \<longrightarrow> user_byte (mem s') (pagedir s) va = Some b))"
proof -
  let ?pd = "pagedir s"
  define o' where "o' = p_vaddr ph mod PGSIZE"
  define r where "r = (if p_filesz ph > 0 then o' + p_filesz ph else 0)"
  define n where "n = seg_pages ph"
  define u where "u = p_vaddr ph - o'"
  define p0 where "p0 = p_offset ph - o'"
  note z = seg_sizes[OF assms(6) refl refl, folded o'_def, folded u_def n_def]
  obtain d where d: "file_at d f p0 c" "load_seg_of ph f s = load_pages f u r (PGSIZE * n - r) (writable_of ph) (s\<lparr>fsys := d\<rparr>)"
    "r \<le> PGSIZE * n" "p0 + r \<le> p_offset ph + p_filesz ph"
    using load_seg_of_calls[OF assms(1,3-6)] unfolding o'_def r_def n_def u_def p0_def by blast
  have sum: "r + (PGSIZE * n - r) = PGSIZE * n" "r + (PGSIZE * n - r) < 2 ^ 32" using d(3) z(3) by simp_all
  obtain ok s' where l: "load_pages f u r (PGSIZE * n - r) (writable_of ph) (s\<lparr>fsys := d\<rparr>) = Some (ok, s')" "pagedir s' = ?pd"
    "mem_inv (mem s') ?pd" "\<exists>pos'. file_at (fsys s') f pos' c"
    "\<And>v. (\<forall>i < n. v \<noteq> u + PGSIZE * i) \<Longrightarrow> page_map (mem s') ?pd v = page_map (mem s) ?pd v"
    "ok \<longrightarrow> grows ?pd (mem s) (mem s') \<and> ram_ok (mem s') \<and> r \<le> length c - p0
         \<and> (\<forall>i < n. mapped_to (mem s) (mem s') ?pd (u + PGSIZE * i) (writable_of ph) (seg_page c p0 r (PGSIZE * n - r) i))"
    using load_pages_ok[of "s\<lparr>fsys := d\<rparr>" f p0 c r "PGSIZE * n - r" n u "writable_of ph"] assms(1,2) d(1) sum z(2,7) by auto
  have zero: "page_map (mem s') ?pd 0 = page_map (mem s) ?pd 0"
    by (rule l(5)) (use z(8) in \<open>simp add: PGSIZE_def\<close>)
  have bytes: "user_byte (mem s') ?pd (p_vaddr ph + i) = Some (if i < p_filesz ph then c ! (p_offset ph + i) else 0, writable_of ph)"
    if ok "i < p_memsz ph" for i
  proof -
    note ok = l(6)[THEN mp, OF that(1)]
    have "p_offset ph mod PGSIZE = o'" "p_offset ph \<le> length c" using assms(6) by (simp_all add: seg_ok_def o'_def)
    then have oo: "o' \<le> p_offset ph" by (metis mod_less_eq_dividend)
    have "p_offset ph + p_filesz ph \<le> length c \<or> p_filesz ph = 0" using ok oo \<open>p_offset ph \<le> length c\<close>
      by (auto simp: r_def p0_def split: if_splits)
    note b = seg_page_byte[OF assms(6) that(2) this, folded o'_def, folded r_def u_def p0_def n_def]
    let ?x = "o' + i"
    have "mapped_to (mem s) (mem s') ?pd (u + PGSIZE * (?x div PGSIZE)) (writable_of ph) (seg_page c p0 r (PGSIZE * n - r) (?x div PGSIZE))"
      using ok b(1) by blast
    moreover have "(u + PGSIZE * (?x div PGSIZE)) mod PGSIZE = 0" using z(7) by simp
    moreover have "?x mod PGSIZE < PGSIZE" by (simp add: PGSIZE_def)
    ultimately have "user_byte (mem s') ?pd (u + PGSIZE * (?x div PGSIZE) + ?x mod PGSIZE)
        = Some (seg_page c p0 r (PGSIZE * n - r) (?x div PGSIZE) ! (?x mod PGSIZE), writable_of ph)" by (rule mapped_byte)
    then show ?thesis unfolding b(2,3) .
  qed
  have old: "user_byte (mem s') ?pd va = Some b" if ok "user_byte (mem s) ?pd va = Some b" for va b
  proof -
    have inv: "pd_ok (mem s) ?pd" "frames_ok (mem s) ?pd" using assms(1) by (simp_all add: mem_inv_def)
    have "page_map (mem s) ?pd (va - va mod PGSIZE) \<noteq> None" using that(2) by (auto simp: user_byte_def split: option.splits)
    then have "\<forall>i < n. va - va mod PGSIZE \<noteq> u + PGSIZE * i" using l(6) that(1) by (auto simp: mapped_to_def)
    then show ?thesis using user_byte_grows[OF inv _ that(2) l(5)] l(6) that(1) by blast
  qed
  show ?thesis using d(2) l(1-4,6) zero bytes old by (intro exI[of _ ok] exI[of _ s'] conjI) auto
qed

end
