(* ===== verification/LoaderFile.thy ===== *)
theory LoaderFile
  imports LoaderInv
begin

text \<open>
  Loading a whole file: the program headers one after the other, then the stack.  After a successful
  load the process sees the bytes of every loadable segment, and an empty stack page.
\<close>

lemma of_le32_less: "of_le32 bs < 2 ^ 32"
proof -
  have u: "unat x < 256" for x :: byte using unsigned_less[of x] by simp
  show ?thesis
    using le32_parts(5)[OF u[of "bs ! 0"] u[of "bs ! 1"] u[of "bs ! 2"] u[of "bs ! 3"]] by (simp add: of_le32_def)
qed

lemma phdr_of_range: "phdr_range (phdr_of bs)"
  using of_le32_less by (simp add: phdr_range_def phdr_of_def get32_def)

definition phdr_at :: "byte list \<Rightarrow> elf_ehdr \<Rightarrow> nat \<Rightarrow> elf_phdr" where
  "phdr_at c e i = phdr_of (take PHDR_SIZE (drop (e_phoff e + PHDR_SIZE * i) c))"

text \<open>What the process sees of segment \<open>ph\<close> of the file \<open>c\<close>.\<close>

definition seg_loaded :: "machine \<Rightarrow> byte list \<Rightarrow> elf_phdr \<Rightarrow> bool" where
  "seg_loaded s c ph \<longleftrightarrow> p_type ph \<notin> {PT_DYNAMIC, PT_INTERP, PT_SHLIB} \<and> (p_type ph = PT_LOAD \<longrightarrow> seg_ok ph c
     \<and> (\<forall>i < p_memsz ph. user_byte (mem s) (pagedir s) (p_vaddr ph + i)
          = Some (if i < p_filesz ph then c ! (p_offset ph + i) else 0, writable_of ph)))"

definition loader_inv :: "addr \<Rightarrow> byte list \<Rightarrow> addr \<Rightarrow> machine \<Rightarrow> bool" where
  "loader_inv f c pd s \<longleftrightarrow> pagedir s = pd \<and> mem_inv (mem s) pd \<and> page_map (mem s) pd 0 = None \<and> (\<exists>pos. file_at (fsys s) f pos c)"

definition keeps_bytes :: "machine \<Rightarrow> machine \<Rightarrow> bool" where
  "keeps_bytes s s' \<longleftrightarrow> pagedir s' = pagedir s
     \<and> (\<forall>va b. user_byte (mem s) (pagedir s) va = Some b \<longrightarrow> user_byte (mem s') (pagedir s) va = Some b)"

lemma seg_loaded_keeps: "seg_loaded s c ph \<Longrightarrow> keeps_bytes s s' \<Longrightarrow> seg_loaded s' c ph"
  by (simp add: seg_loaded_def keeps_bytes_def)

lemma loader_inv_fsys: "loader_inv f c pd s \<Longrightarrow> file_at d f pos c \<Longrightarrow> loader_inv f c pd (s\<lparr>fsys := d\<rparr>)"
  by (auto simp: loader_inv_def)

lemma validate_seg_ok:
  assumes "file_at (fsys s) f pos c" "length c < 2 ^ 31" "phdr_range ph"
  shows "validate_segment ph f (fsys s) = Some (seg_ok ph c)"
  using validate_segment_iff[OF file_at_length[OF assms(1)] _ _ assms(3)] assms(2) by (simp add: seg_ok_def)

lemma load_seg_step:
  assumes "loader_inv f c pd s" "ram_ok (mem s)" "length c < 2 ^ 31" "phdr_range ph" "p_type ph = PT_LOAD"
  shows "\<exists>ok s'. load_seg_of ph f s = Some (ok, s') \<and> loader_inv f c pd s'
    \<and> (ok \<longrightarrow> ram_ok (mem s') \<and> keeps_bytes s s' \<and> seg_loaded s' c ph)"
proof -
  obtain pos where inv: "pagedir s = pd" "mem_inv (mem s) (pagedir s)" "page_map (mem s) pd 0 = None" "file_at (fsys s) f pos c"
    using assms(1) by (auto simp: loader_inv_def)
  note val = validate_seg_ok[OF inv(4) assms(3,4)]
  show ?thesis
  proof (cases "seg_ok ph c")
    case True
    obtain ok s' where s': "load_seg_of ph f s = Some (ok, s')" "pagedir s' = pagedir s" "mem_inv (mem s') (pagedir s)"
      "\<exists>pos'. file_at (fsys s') f pos' c" "page_map (mem s') (pagedir s) 0 = page_map (mem s) (pagedir s) 0"
      "ok \<longrightarrow> ram_ok (mem s')
        \<and> (\<forall>i < p_memsz ph. user_byte (mem s') (pagedir s) (p_vaddr ph + i)
             = Some (if i < p_filesz ph then c ! (p_offset ph + i) else 0, writable_of ph))
        \<and> (\<forall>va b. user_byte (mem s) (pagedir s) va = Some b \<longrightarrow> user_byte (mem s') (pagedir s) va = Some b)"
      using load_seg_ok[OF inv(2) assms(2) inv(4) assms(3,4) True] by blast
    have "loader_inv f c pd s'" unfolding loader_inv_def using s'(2-5) inv(1,3) by simp
    moreover have "keeps_bytes s s'" if ok using that s'(2,6) by (simp add: keeps_bytes_def)
    moreover have "seg_loaded s' c ph" if ok
      using that s'(2,6) True assms(5) by (simp add: seg_loaded_def PT_LOAD_def PT_DYNAMIC_def PT_INTERP_def PT_SHLIB_def)
    ultimately show ?thesis using s'(1,6) by (intro exI[of _ ok] exI[of _ s']) blast
  next
    case False
    then have "load_seg_of ph f s = Some (False, s)" using val by (simp add: load_seg_of_def)
    then show ?thesis using assms(1) by auto
  qed
qed

text \<open>One program header, at offset \<open>o\<close> of the file.\<close>

lemma load_phdr_step:
  assumes "loader_inv f c pd s" "ram_ok (mem s)" "length c + 32 < 2 ^ 31" "ofs < 2 ^ 31" "- (2 ^ 31) \<le> ofs"
  shows "(\<exists>s'. load_phdr f (ofs, s) = Some (Inr s') \<and> loader_inv f c pd s')
    \<or> (\<exists>s'. load_phdr f (ofs, s) = Some (Inl (ofs + 32, s')) \<and> loader_inv f c pd s' \<and> ram_ok (mem s') \<and> keeps_bytes s s'
        \<and> 0 \<le> ofs \<and> nat ofs \<le> length c \<and> seg_loaded s' c (phdr_of (take PHDR_SIZE (drop (nat ofs) c))))"
proof -
  obtain pos where inv: "pagedir s = pd" "file_at (fsys s) f pos c" using assms(1) by (auto simp: loader_inv_def)
  note len = file_at_length[OF inv(2)]
  show ?thesis
  proof (cases "ofs < 0 \<or> ofs > int (length c)")
    case True
    then have "load_phdr f (ofs, s) = Some (Inr s)" by (simp add: load_phdr_def len)
    then show ?thesis using assms(1) by blast
  next
    case False
    define o' where "o' = nat ofs"
    have o: "ofs = int o'" "o' \<le> length c" using False by (auto simp: o'_def nat_le_iff)
    obtain d where d: "file_seek f ofs (fsys s) = Some d" "file_at d f o' c" using file_at_seek[OF inv(2)] o(1) by blast
    let ?bs = "take PHDR_SIZE (drop o' c)"
    obtain d' where d': "file_read f (int PHDR_SIZE) d = Some (?bs, d')" "file_at d' f (o' + length ?bs) c" using file_at_read[OF d(2)] by blast
    let ?s = "s\<lparr>fsys := d'\<rparr>" and ?ph = "phdr_of ?bs"
    have inv': "loader_inv f c pd ?s" by (rule loader_inv_fsys[OF assms(1) d'(2)])
    have nofs: "to_off ((of_off ofs + PHDR_SIZE) mod 2 ^ 32) = ofs + 32"
      using o assms(3) by (simp add: of_off_def to_off_def PHDR_SIZE_def)
    have keep: "keeps_bytes s ?s" by (simp add: keeps_bytes_def)
    have run: "load_phdr f (ofs, s) = (if length ?bs \<noteq> PHDR_SIZE \<or> p_type ?ph \<in> {PT_DYNAMIC, PT_INTERP, PT_SHLIB} then Some (Inr ?s)
        else if p_type ?ph = PT_LOAD then do { (ok, s) \<leftarrow> load_seg_of ?ph f ?s; Some (if ok then Inl (ofs + 32, s) else Inr s) }
        else Some (Inl (ofs + 32, ?s)))"
      using False unfolding load_phdr_def prod.case len Option.bind.bind_lunit d(1) d'(1) Let_def nofs by simp
    show ?thesis
    proof (cases "length ?bs \<noteq> PHDR_SIZE \<or> p_type ?ph \<in> {PT_DYNAMIC, PT_INTERP, PT_SHLIB}")
      case True
      then show ?thesis using run inv' by auto
    next
      case notbad: False
      show ?thesis
      proof (cases "p_type ?ph = PT_LOAD")
        case True
        have l: "length c < 2 ^ 31" using assms(3) by simp
        obtain ok s' where s': "load_seg_of ?ph f ?s = Some (ok, s')" "loader_inv f c pd s'"
          "ok \<longrightarrow> ram_ok (mem s') \<and> keeps_bytes ?s s' \<and> seg_loaded s' c ?ph"
          using load_seg_step[OF inv' _ l phdr_of_range True] assms(2) by auto
        have r: "load_phdr f (ofs, s) = Some (if ok then Inl (ofs + 32, s') else Inr s')"
          using run notbad True s'(1) by simp
        show ?thesis
        proof (cases ok)
          case True
          then have "keeps_bytes s s'" using s'(3) by (simp add: keeps_bytes_def)
          then show ?thesis using True r s' o by auto
        qed (use r s'(2) in auto)
      next
        case False
        then have "seg_loaded ?s c ?ph" using notbad by (simp add: seg_loaded_def)
        then show ?thesis using run notbad False inv' keep assms(2) o by auto
      qed
    qed
  qed
qed

section \<open>The stack\<close>

lemma setup_stack_ok:
  assumes "loader_inv f c pd s" "ram_ok (mem s)"
  shows "\<exists>r s'. setup_stack s = Some (r, s') \<and> loader_inv f c pd s' \<and> (r = None \<or> r = Some PHYS_BASE \<and> keeps_bytes s s'
    \<and> (\<forall>i < PGSIZE. user_byte (mem s') pd (PHYS_BASE - PGSIZE + i) = Some (0, True)))"
proof -
  obtain pos where inv: "pagedir s = pd" "pd_ok (mem s) pd" "frames_ok (mem s) pd" "page_map (mem s) pd 0 = None" "file_at (fsys s) f pos c"
    using assms(1) by (auto simp: loader_inv_def mem_inv_def)
  let ?u = "PHYS_BASE - PGSIZE"
  have u: "user_page ?u" "?u mod PGSIZE = 0" "?u \<noteq> 0" by (simp_all add: user_page_def PHYS_BASE_def PGSIZE_def)
  obtain k m1 where al: "palloc_get_page {PAL_USER, PAL_ZERO} (mem s) = Some (k, m1)" "pd_ok m1 pd" "page_map m1 pd = page_map (mem s) pd"
    "grows pd (mem s) m1" "ram_ok m1"
    "if k = NULL then m1 = mem s else k \<notin> used (mem s) \<and> used m1 = insert k (used (mem s)) \<and> k \<in> used m1 \<and> k mod PGSIZE = 0 \<and> PHYS_BASE < k
       \<and> k + PGSIZE \<le> 2 ^ 32 \<and> (k - PHYS_BASE) div PGSIZE < init_ram_pages m1 \<and> pd_pages m1 pd = pd_pages (mem s) pd
       \<and> (PAL_ZERO \<in> {PAL_USER, PAL_ZERO} \<longrightarrow> frame_bytes m1 k = replicate PGSIZE 0)"
    using alloc_page[OF inv(2) assms(2), of "{PAL_USER, PAL_ZERO}"] by auto
  have f1: "frames_ok m1 pd" by (rule frames_ok_grows[OF al(4) inv(3)]) (simp add: al(3))
  show ?thesis
  proof (cases "k = NULL")
    case True
    then have "setup_stack s = Some (None, s)" using al(1,6) by (simp add: setup_stack_def)
    then show ?thesis using assms(1) by blast
  next
    case False
    then have k: "k \<notin> used (mem s)" "k \<in> used m1" "k mod PGSIZE = 0" "PHYS_BASE \<le> k" "k < 2 ^ 32"
      "(k - PHYS_BASE) div PGSIZE < init_ram_pages m1" "k \<notin> pd_pages m1 pd" "frame_bytes m1 k = replicate PGSIZE 0"
      using al(6) pd_pages_used[OF inv(2)] by (auto simp: PGSIZE_def)
    obtain ok m2 where i: "install_page pd ?u k True m1 = Some (ok, m2)" "pd_ok m2 pd" "grows pd m1 m2"
      "page_map m2 pd = (if ok then (page_map (mem s) pd)(?u \<mapsto> (k, True)) else page_map (mem s) pd)" "frames_ok m2 pd"
      "ok \<longrightarrow> page_map (mem s) pd ?u = None"
      using install_page_map[OF al(2) u(1) k(3-6) f1 k(2,7), of True] unfolding al(3) by blast
    have gr: "grows pd (mem s) m2" by (rule grows_trans[OF al(4) i(3)])
    show ?thesis
    proof (cases ok)
      case True
      have "frame_bytes m2 k = frame_bytes m1 k"
        using i(3) k(2,7) by (intro frame_bytes_words[OF k(3)]) (simp add: grows_def)
      then have fb2: "frame_bytes m2 k = replicate PGSIZE 0" using k(8) by (rule trans)
      have fb: "mem_byte m2 (k + j) = 0" if j: "j < PGSIZE" for j
      proof -
        have "frame_bytes m2 k ! j = mem_byte m2 (k + j)" using j by (simp add: frame_bytes_def)
        then show ?thesis unfolding fb2 using j by simp
      qed
      have st: "user_byte m2 pd (?u + j) = Some (0, True)" if "j < PGSIZE" for j
        using page_split[OF u(2) that] fb[OF that] i(4) True by (simp add: user_byte_def)
      have kb: "user_byte m2 pd va = Some b" if b: "user_byte (mem s) pd va = Some b" for va b
      proof (rule user_byte_grows[OF inv(2,3) gr b])
        have "va - va mod PGSIZE \<noteq> ?u" using b i(6) True by (auto simp: user_byte_def split: option.splits)
        then show "page_map m2 pd (va - va mod PGSIZE) = page_map (mem s) pd (va - va mod PGSIZE)" using i(4) True by simp
      qed
      have "setup_stack s = Some (Some PHYS_BASE, s\<lparr>mem := m2\<rparr>)" using al(1) False i(1) True inv(1) by (simp add: setup_stack_def)
      moreover have "loader_inv f c pd (s\<lparr>mem := m2\<rparr>)" using inv i(2,4,5) True u(3) by (auto simp: loader_inv_def mem_inv_def)
      ultimately show ?thesis using st kb inv(1) by (auto simp: keeps_bytes_def)
    next
      case False
      have k2: "k \<in> used m2" "k \<notin> pd_pages m2 pd" using i(3) k(2,7) by (auto simp: grows_def)
      have "page_map m2 pd v \<noteq> Some (k, w)" for v w using inv(3) k(1) i(4) False by (auto simp: frames_ok_def)
      then obtain m3 where m3: "palloc_free_page k m2 = Some m3" "pd_ok m3 pd" "page_map m3 pd = page_map m2 pd" "frames_ok m3 pd"
        using free_page[OF i(2) k2] i(5) by blast
      have "setup_stack s = Some (None, s\<lparr>mem := m3\<rparr>)" using al(1) \<open>k \<noteq> NULL\<close> i(1) False m3(1) inv(1) by (simp add: setup_stack_def)
      moreover have "loader_inv f c pd (s\<lparr>mem := m3\<rparr>)" using inv m3(2-4) i(4) False by (auto simp: loader_inv_def mem_inv_def)
      ultimately show ?thesis by blast
    qed
  qed
qed

section \<open>The file\<close>

lemma to_off_range: "n < 2 ^ 32 \<Longrightarrow> to_off n < 2 ^ 31 \<and> - (2 ^ 31) \<le> to_off n \<and> (0 \<le> to_off n \<longrightarrow> to_off n = int n)"
  by (simp add: to_off_def)

text \<open>After \<open>i\<close> program headers.\<close>

definition headers_loaded :: "addr \<Rightarrow> byte list \<Rightarrow> addr \<Rightarrow> elf_ehdr \<Rightarrow> nat \<Rightarrow> int \<times> machine \<Rightarrow> bool" where
  "headers_loaded f c pd e i = (\<lambda>(ofs, s). loader_inv f c pd s \<and> ram_ok (mem s) \<and> - (2 ^ 31) \<le> ofs \<and> ofs < 2 ^ 31
     \<and> ofs = to_off (e_phoff e) + 32 * int i \<and> (0 < i \<longrightarrow> 0 \<le> to_off (e_phoff e)) \<and> (\<forall>j < i. seg_loaded s c (phdr_at c e j)))"

lemma headers_loaded_step:
  assumes "headers_loaded f c pd e i x" "length c + 32 < 2 ^ 31" "e_phoff e < 2 ^ 32"
  shows "(\<exists>x'. load_phdr f x = Some (Inl x') \<and> headers_loaded f c pd e (Suc i) x')
    \<or> (\<exists>s'. load_phdr f x = Some (Inr s') \<and> loader_inv f c pd s')"
proof -
  obtain ofs s where x: "x = (ofs, s)" by (cases x)
  have h: "loader_inv f c pd s" "ram_ok (mem s)" "- (2 ^ 31) \<le> ofs" "ofs < 2 ^ 31"
    "ofs = to_off (e_phoff e) + 32 * int i" "0 < i \<longrightarrow> 0 \<le> to_off (e_phoff e)" "\<forall>j < i. seg_loaded s c (phdr_at c e j)"
    using assms(1) by (auto simp: x headers_loaded_def)
  show ?thesis using load_phdr_step[OF h(1,2) assms(2) h(4,3)]
  proof (elim disjE exE conjE)
    fix s' assume "load_phdr f (ofs, s) = Some (Inr s')" "loader_inv f c pd s'"
    then show ?thesis by (auto simp: x)
  next
    fix s' assume s': "load_phdr f (ofs, s) = Some (Inl (ofs + 32, s'))" "loader_inv f c pd s'" "ram_ok (mem s')" "keeps_bytes s s'"
      "0 \<le> ofs" "nat ofs \<le> length c" "seg_loaded s' c (phdr_of (take PHDR_SIZE (drop (nat ofs) c)))"
    have z: "0 \<le> to_off (e_phoff e)" using h(5,6) s'(5) by (cases "i = 0") simp_all
    then have "nat ofs = e_phoff e + PHDR_SIZE * i" using to_off_range[OF assms(3)] h(5) by (simp add: PHDR_SIZE_def)
    then have here: "seg_loaded s' c (phdr_at c e i)" using s'(7) by (simp add: phdr_at_def)
    have "seg_loaded s' c (phdr_at c e j)" if "j < Suc i" for j
      using that here seg_loaded_keeps[OF _ s'(4)] h(7) by (auto simp: less_Suc_eq)
    then have "headers_loaded f c pd e (Suc i) (ofs + 32, s')"
      using s'(2,3,5,6) h(5) z assms(2) unfolding headers_loaded_def by (auto simp: nat_le_iff)
    then show ?thesis using s'(1) by (auto simp: x)
  qed
qed

text \<open>What a process sees after \<open>load\<close> has returned \<open>r\<close>.\<close>

definition image_loaded :: "machine \<Rightarrow> byte list \<Rightarrow> nat \<times> nat \<Rightarrow> bool" where
  "image_loaded s c r \<longleftrightarrow> EHDR_SIZE \<le> length c \<and> (let e = ehdr_of (take EHDR_SIZE c) in
     ehdr_accepted e \<and> r = (e_entry e, PHYS_BASE) \<and> (\<forall>i < e_phnum e. seg_loaded s c (phdr_at c e i)))
     \<and> (\<forall>i < PGSIZE. user_byte (mem s) (pagedir s) (PHYS_BASE - PGSIZE + i) = Some (0, True))"

lemma load_file_ok:
  assumes "loader_inv f c pd s" "ram_ok (mem s)" "file_at (fsys s) f 0 c" "length c + 32 < 2 ^ 31"
  shows "\<exists>r s'. load_file f s = Some (r, s') \<and> loader_inv f c pd s' \<and> (\<forall>x. r = Some x \<longrightarrow> image_loaded s' c x)"
proof -
  let ?bs = "take EHDR_SIZE c" and ?e = "ehdr_of (take EHDR_SIZE c)"
  obtain d where d: "file_read f (int EHDR_SIZE) (fsys s) = Some (?bs, d)" "file_at d f (length ?bs) c"
    using file_at_read[OF assms(3), of EHDR_SIZE] by auto
  let ?s = "s\<lparr>fsys := d\<rparr>"
  have inv: "loader_inv f c pd ?s" by (rule loader_inv_fsys[OF assms(1) d(2)])
  show ?thesis
  proof (cases "length ?bs \<noteq> EHDR_SIZE \<or> \<not> ehdr_accepted ?e")
    case True
    then have "load_file f s = Some (None, ?s)" unfolding load_file_def d(1) Let_def by simp
    then show ?thesis using inv by blast
  next
    case False
    have ph: "e_phoff ?e < 2 ^ 32" using of_le32_less by (simp add: ehdr_of_def get32_def)
    have run: "load_file f s = do {
        r \<leftarrow> for_ret 0 (e_phnum ?e) (\<lambda>_. load_phdr f) (to_off (e_phoff ?e), ?s);
        case r of Inr s \<Rightarrow> Some (None, s)
        | Inl (_, s) \<Rightarrow> do { (esp, s) \<leftarrow> setup_stack s; Some (map_option (Pair (e_entry ?e)) esp, s) } }"
      unfolding load_file_def d(1) Let_def using False by simp
    have "headers_loaded f c pd ?e 0 (to_off (e_phoff ?e), ?s)"
      using inv assms(2) to_off_range[OF ph] by (simp add: headers_loaded_def)
    then have "(\<exists>x. for_ret 0 (e_phnum ?e) (\<lambda>_. load_phdr f) (to_off (e_phoff ?e), ?s) = Some (Inl x) \<and> headers_loaded f c pd ?e (e_phnum ?e) x)
      \<or> (\<exists>s'. for_ret 0 (e_phnum ?e) (\<lambda>_. load_phdr f) (to_off (e_phoff ?e), ?s) = Some (Inr s') \<and> loader_inv f c pd s')"
      by (rule for_ret_inv) (use headers_loaded_step[OF _ assms(4) ph] in simp_all)
    then show ?thesis
    proof (elim disjE exE conjE)
      fix s' assume "for_ret 0 (e_phnum ?e) (\<lambda>_. load_phdr f) (to_off (e_phoff ?e), ?s) = Some (Inr s')" "loader_inv f c pd s'"
      then show ?thesis unfolding run by auto
    next
      fix x assume l: "for_ret 0 (e_phnum ?e) (\<lambda>_. load_phdr f) (to_off (e_phoff ?e), ?s) = Some (Inl x)"
        "headers_loaded f c pd ?e (e_phnum ?e) x"
      obtain ofs s1 where x: "x = (ofs, s1)" by (cases x)
      have h: "loader_inv f c pd s1" "ram_ok (mem s1)" "\<forall>j < e_phnum ?e. seg_loaded s1 c (phdr_at c ?e j)"
        using l(2) by (auto simp: x headers_loaded_def)
      obtain r s2 where st: "setup_stack s1 = Some (r, s2)" "loader_inv f c pd s2"
        "r = None \<or> r = Some PHYS_BASE \<and> keeps_bytes s1 s2
           \<and> (\<forall>i < PGSIZE. user_byte (mem s2) pd (PHYS_BASE - PGSIZE + i) = Some (0, True))"
        using setup_stack_ok[OF h(1,2)] by blast
      have "image_loaded s2 c (e_entry ?e, PHYS_BASE)" if "r \<noteq> None"
        using that st(2,3) h(3) False seg_loaded_keeps unfolding image_loaded_def Let_def by (auto simp: loader_inv_def)
      moreover have "load_file f s = Some (map_option (Pair (e_entry ?e)) r, s2)" unfolding run l(1) x using st(1) by simp
      ultimately show ?thesis using st(2,3) by auto
    qed
  qed
qed

end
