(* ===== verification/Malloc.thy ===== *)
theory Malloc
  imports Palloc
begin

unbundle bit_operations_syntax

text \<open>
  threads/malloc.c: the block allocator on top of the page allocator.  The header of an arena is an entry
  of the map \<open>arenas\<close> at the arena's address (a page); a descriptor's free list is the sequence of the
  addresses of its free blocks.  \<open>size_t\<close> arithmetic wraps at \<open>2 ^ 32\<close>.  The contents of blocks are the
  words of the memory; a \<open>memset\<close> or \<open>memcpy\<close> whose length is no multiple of four keeps the upper bytes
  of the last word.  The locks of the descriptors are left out.
\<close>

section \<open>Operations\<close>

record desc =
  block_size :: nat
  blocks_per_arena :: nat
  free_list :: "nat list"

definition ARENA_MAGIC :: "32 word" where "ARENA_MAGIC = 0x9a548eed"
definition ARENA_SIZE :: nat where "ARENA_SIZE = 12"

record arena =
  magic :: "32 word"
  arena_desc :: "nat option"
  free_cnt :: nat

record heap = pmem +
  descs :: "desc list"
  arenas :: "nat \<Rightarrow> arena option"

function malloc_init_loop :: "nat \<Rightarrow> desc list \<Rightarrow> desc list option" where
  "malloc_init_loop bsize ds =
     (if bsize < PGSIZE div 2 then do {
        ASSERT (length ds + 1 \<le> 10);
        malloc_init_loop (bsize * 2)
          (ds @ [\<lparr>block_size = bsize, blocks_per_arena = (PGSIZE - ARENA_SIZE) div bsize, free_list = []\<rparr>]) }
      else Some ds)"
  by pat_completeness auto
termination by (relation "measure (\<lambda>(b, ds). 10 - length ds)") auto

definition malloc_init :: "heap \<Rightarrow> heap option" where
  "malloc_init s = do { ds \<leftarrow> malloc_init_loop 16 []; Some (s\<lparr>descs := ds\<rparr>) }"

fun find_desc :: "nat \<Rightarrow> nat \<Rightarrow> desc list \<Rightarrow> nat option" where
  "find_desc sz i [] = None"
| "find_desc sz i (d # ds) = (if block_size d \<ge> sz then Some i else find_desc sz (i + 1) ds)"

definition arena_to_block :: "nat \<Rightarrow> nat \<Rightarrow> heap \<Rightarrow> nat option" where
  "arena_to_block a idx s = do {
     ASSERT (a \<noteq> NULL);
     ar \<leftarrow> arenas s a;
     ASSERT (magic ar = ARENA_MAGIC);
     i \<leftarrow> arena_desc ar;
     ASSERT (i < length (descs s));
     ASSERT (idx < blocks_per_arena (descs s ! i));
     Some (a + ARENA_SIZE + idx * block_size (descs s ! i)) }"

definition block_to_arena :: "nat \<Rightarrow> heap \<Rightarrow> nat option" where
  "block_to_arena b s = do {
     let a = pg_round_down b;
     ASSERT (a \<noteq> NULL);
     ar \<leftarrow> arenas s a;
     ASSERT (magic ar = ARENA_MAGIC);
     case arena_desc ar of
       Some i \<Rightarrow> do {
         ASSERT (i < length (descs s));
         ASSERT (unat (w32 (pg_ofs b) - w32 ARENA_SIZE) mod block_size (descs s ! i) = 0);
         Some a }
     | None \<Rightarrow> do { ASSERT (pg_ofs b = ARENA_SIZE); Some a } }"

definition set_free_list :: "nat \<Rightarrow> nat list \<Rightarrow> heap \<Rightarrow> heap" where
  "set_free_list i bs s = s\<lparr>descs := (descs s)[i := (descs s ! i)\<lparr>free_list := bs\<rparr>]\<rparr>"

definition set_arena :: "nat \<Rightarrow> arena option \<Rightarrow> heap \<Rightarrow> heap" where
  "set_arena a ar s = s\<lparr>arenas := (arenas s)(a := ar)\<rparr>"

text \<open>A new arena in page \<open>a\<close>, all of its blocks at the end of the free list.\<close>

definition new_arena :: "nat \<Rightarrow> nat \<Rightarrow> heap \<Rightarrow> heap option" where
  "new_arena i a s = do {
     let s = set_arena a (Some \<lparr>magic = ARENA_MAGIC, arena_desc = Some i, free_cnt = blocks_per_arena (descs s ! i)\<rparr>) s;
     for_upto 0 (blocks_per_arena (descs s ! i)) (\<lambda>k s. do {
       b \<leftarrow> arena_to_block a k s;
       Some (set_free_list i (free_list (descs s ! i) @ [b]) s) }) s }"

definition take_block :: "nat \<Rightarrow> heap \<Rightarrow> (addr \<times> heap) option" where
  "take_block i s = (case free_list (descs s ! i) of
     [] \<Rightarrow> None
   | b # bs \<Rightarrow> do {
       let s = set_free_list i bs s;
       a \<leftarrow> block_to_arena b s;
       ar \<leftarrow> arenas s a;
       Some (b, set_arena a (Some (ar\<lparr>free_cnt := free_cnt ar - 1\<rparr>)) s) })"

definition malloc_big :: "nat \<Rightarrow> heap \<Rightarrow> (addr \<times> heap) option" where
  "malloc_big sz s = do {
     let page_cnt = unat (w32 sz + w32 ARENA_SIZE + w32 PGSIZE - 1) div PGSIZE;
     (a, s) \<leftarrow> palloc_get_multiple {} page_cnt s;
     if a = NULL then Some (NULL, s)
     else Some (a + ARENA_SIZE, set_arena a (Some \<lparr>magic = ARENA_MAGIC, arena_desc = None, free_cnt = page_cnt\<rparr>) s) }"

definition malloc :: "nat \<Rightarrow> heap \<Rightarrow> (addr \<times> heap) option" where
  "malloc sz s =
     (if sz = 0 then Some (NULL, s)
      else (case find_desc sz 0 (descs s) of
          None \<Rightarrow> malloc_big sz s
        | Some i \<Rightarrow>
            if free_list (descs s ! i) = [] then do {
              (a, s) \<leftarrow> palloc_get_page {} s;
              if a = NULL then Some (NULL, s)
              else do { s \<leftarrow> new_arena i a s; take_block i s } }
            else take_block i s))"

text \<open>\<open>put_bytes p n v s\<close> writes the first \<open>n\<close> bytes of the words \<open>v\<close> from the aligned address \<open>p\<close> on.\<close>

definition put_bytes :: "nat \<Rightarrow> nat \<Rightarrow> (nat \<Rightarrow> 32 word) \<Rightarrow> heap \<Rightarrow> heap" where
  "put_bytes p n v s = s\<lparr>words := (\<lambda>x.
     if p \<le> x \<and> x + 4 \<le> p + n then v x
     else if p \<le> x \<and> x < p + n then
       (words s x AND NOT (mask (8 * (p + n - x)))) OR (v x AND mask (8 * (p + n - x)))
     else words s x)\<rparr>"

definition calloc :: "nat \<Rightarrow> nat \<Rightarrow> heap \<Rightarrow> (addr \<times> heap) option" where
  "calloc a b s = do {
     let sz = a * b mod 2 ^ 32;
     if sz < a \<or> sz < b then Some (NULL, s)
     else do {
       (p, s) \<leftarrow> malloc sz s;
       Some (p, if p \<noteq> NULL then put_bytes p sz (\<lambda>_. 0) s else s) } }"

definition block_bytes :: "nat \<Rightarrow> heap \<Rightarrow> nat option" where
  "block_bytes block s = do {
     a \<leftarrow> block_to_arena block s;
     ar \<leftarrow> arenas s a;
     Some (case arena_desc ar of
        Some i \<Rightarrow> block_size (descs s ! i)
      | None \<Rightarrow> PGSIZE * free_cnt ar - pg_ofs block) }"

text \<open>The blocks of arena \<open>a\<close> leave the free list, and the page goes back.\<close>

definition drop_arena :: "nat \<Rightarrow> nat \<Rightarrow> heap \<Rightarrow> heap option" where
  "drop_arena i a s = do {
     s \<leftarrow> for_upto 0 (blocks_per_arena (descs s ! i)) (\<lambda>k s. do {
       b \<leftarrow> arena_to_block a k s;
       ASSERT (b \<in> set (free_list (descs s ! i)));
       Some (set_free_list i (remove1 b (free_list (descs s ! i))) s) }) s;
     s \<leftarrow> palloc_free_page a s;
     Some (set_arena a None s) }"

definition mfree :: "addr \<Rightarrow> heap \<Rightarrow> heap option" where
  "mfree p s =
     (if p = NULL then Some s
      else do {
        a \<leftarrow> block_to_arena p s;
        ar \<leftarrow> arenas s a;
        case arena_desc ar of
          Some i \<Rightarrow> do {
            let s = put_bytes p (block_size (descs s ! i)) (\<lambda>_. 0xcccccccc) s;
            let s = set_free_list i (p # free_list (descs s ! i)) s;
            let ar = ar\<lparr>free_cnt := free_cnt ar + 1\<rparr>;
            let s = set_arena a (Some ar) s;
            if free_cnt ar \<ge> blocks_per_arena (descs s ! i) then do {
              ASSERT (free_cnt ar = blocks_per_arena (descs s ! i));
              drop_arena i a s }
            else Some s }
        | None \<Rightarrow> do {
            s \<leftarrow> palloc_free_multiple a (free_cnt ar) s;
            Some (set_arena a None s) } })"

definition realloc :: "addr \<Rightarrow> nat \<Rightarrow> heap \<Rightarrow> (addr \<times> heap) option" where
  "realloc old_block new_size s =
     (if new_size = 0 then do { s \<leftarrow> mfree old_block s; Some (NULL, s) }
      else do {
        (new_block, s) \<leftarrow> malloc new_size s;
        if old_block \<noteq> NULL \<and> new_block \<noteq> NULL then do {
          old_size \<leftarrow> block_bytes old_block s;
          let min_size = (if new_size < old_size then new_size else old_size);
          let s = put_bytes new_block min_size (\<lambda>x. words s (old_block + (x - new_block))) s;
          s \<leftarrow> mfree old_block s;
          Some (new_block, s) }
        else Some (new_block, s) })"

section \<open>The heap\<close>

text \<open>Block \<open>k\<close> of arena \<open>a\<close> of descriptor \<open>i\<close>.\<close>

definition blk :: "heap \<Rightarrow> nat \<Rightarrow> nat \<Rightarrow> nat \<Rightarrow> nat" where
  "blk s i a k = a + ARENA_SIZE + k * block_size (descs s ! i)"

definition desc_ok :: "desc \<Rightarrow> bool" where
  "desc_ok d \<longleftrightarrow> 0 < block_size d \<and> 0 < blocks_per_arena d
     \<and> blocks_per_arena d * block_size d \<le> PGSIZE - ARENA_SIZE"

text \<open>The blocks of the arena that are free, and the pages of an arena.\<close>

definition free_in :: "heap \<Rightarrow> nat \<Rightarrow> nat \<Rightarrow> nat set" where
  "free_in s i a = {k. k < blocks_per_arena (descs s ! i) \<and> blk s i a k \<in> set (free_list (descs s ! i))}"

definition arena_pages :: "nat \<Rightarrow> arena \<Rightarrow> nat set" where
  "arena_pages a ar = (case arena_desc ar of None \<Rightarrow> run a (free_cnt ar) | Some _ \<Rightarrow> {a})"

definition arena_ok :: "heap \<Rightarrow> nat \<Rightarrow> arena \<Rightarrow> bool" where
  "arena_ok s a ar \<longleftrightarrow> magic ar = ARENA_MAGIC \<and> arena_pages a ar \<subseteq> kused s \<and> a \<in> arena_pages a ar
     \<and> (case arena_desc ar of None \<Rightarrow> True
        | Some i \<Rightarrow> i < length (descs s) \<and> free_cnt ar = card (free_in s i a))"

definition heap_inv :: "heap \<Rightarrow> bool" where
  "heap_inv s \<longleftrightarrow> pmem_ok s \<and> (\<forall>d \<in> set (descs s). desc_ok d)
     \<and> (\<forall>a ar. arenas s a = Some ar \<longrightarrow> arena_ok s a ar)
     \<and> (\<forall>a b x y. arenas s a = Some x \<longrightarrow> arenas s b = Some y \<longrightarrow> a \<noteq> b \<longrightarrow> arena_pages a x \<inter> arena_pages b y = {})
     \<and> (\<forall>i < length (descs s). distinct (free_list (descs s ! i))
          \<and> (\<forall>b \<in> set (free_list (descs s ! i)). \<exists>a ar k. arenas s a = Some ar \<and> arena_desc ar = Some i
               \<and> k < blocks_per_arena (descs s ! i) \<and> b = blk s i a k))"

definition no_empty_arena :: "heap \<Rightarrow> bool" where
  "no_empty_arena s \<longleftrightarrow> (\<forall>a ar i. arenas s a = Some ar \<longrightarrow> arena_desc ar = Some i \<longrightarrow>
     free_cnt ar < blocks_per_arena (descs s ! i))"

definition heap_ok :: "heap \<Rightarrow> bool" where
  "heap_ok s \<longleftrightarrow> heap_inv s \<and> no_empty_arena s"

text \<open>The blocks handed out.\<close>

definition live :: "heap \<Rightarrow> nat set" where
  "live s = {b. \<exists>a ar. arenas s a = Some ar \<and> (case arena_desc ar of
     None \<Rightarrow> b = a + ARENA_SIZE
   | Some i \<Rightarrow> \<exists>k < blocks_per_arena (descs s ! i). b = blk s i a k \<and> b \<notin> set (free_list (descs s ! i)))}"

end
