(* ===== verification/MallocInv.thy ===== *)
theory MallocInv
  imports Malloc
begin

text \<open>
  The block allocator keeps its heap: the blocks in use are those handed out and not yet given back,
  and two of them never overlap (\<open>heap_ok\<close>, \<open>live\<close>).  Taking a block off a free list, opening an arena
  and dropping one are treated one by one; \<open>malloc\<close> and \<open>free\<close> are put together from them.
\<close>

section \<open>Updates\<close>

lemma heap_more: "pmem.more s' = pmem.more (s :: heap) \<Longrightarrow> descs s' = descs s \<and> arenas s' = arenas s"
  by (cases s; cases s') simp

lemma set_free_list_simps [simp]:
  "length (descs (set_free_list i bs s)) = length (descs s)"
  "i < length (descs s) \<Longrightarrow> free_list (descs (set_free_list i bs s) ! j) = (if j = i then bs else free_list (descs s ! j))"
  "block_size (descs (set_free_list i bs s) ! j) = block_size (descs s ! j)"
  "blocks_per_arena (descs (set_free_list i bs s) ! j) = blocks_per_arena (descs s ! j)"
  "arenas (set_free_list i bs s) = arenas s" "kused (set_free_list i bs s) = kused s"
  "pmem_ok (set_free_list i bs s) = pmem_ok s" "blk (set_free_list i bs s) = blk s"
  by (auto simp: set_free_list_def nth_list_update pmem_ok_def blk_def fun_eq_iff not_less list_update_beyond
      intro: nth_list_update_neq)
    (cases "j = i"; cases "i < length (descs s)"; simp add: nth_list_update list_update_beyond)+

lemma set_arena_simps [simp]:
  "descs (set_arena a ar s) = descs s" "arenas (set_arena a ar s) = (arenas s)(a := ar)"
  "kused (set_arena a ar s) = kused s" "pmem_ok (set_arena a ar s) = pmem_ok s" "blk (set_arena a ar s) = blk s"
  "free_in (set_arena a ar s) = free_in s"
  by (simp_all add: set_arena_def pmem_ok_def blk_def free_in_def fun_eq_iff)

lemma put_bytes_simps [simp]:
  "descs (put_bytes p n v s) = descs s" "arenas (put_bytes p n v s) = arenas s"
  "kused (put_bytes p n v s) = kused s" "pmem_ok (put_bytes p n v s) = pmem_ok s" "blk (put_bytes p n v s) = blk s"
  "free_in (put_bytes p n v s) = free_in s"
  by (simp_all add: put_bytes_def pmem_ok_def blk_def free_in_def fun_eq_iff)

lemma put_bytes_same [simp]:
  "heap_inv (put_bytes p n v s) = heap_inv s" "live (put_bytes p n v s) = live s"
  "no_empty_arena (put_bytes p n v s) = no_empty_arena s"
  by (simp_all add: heap_inv_def arena_ok_def live_def no_empty_arena_def cong: option.case_cong)

lemma block_to_arena_cong:
  assumes "arenas s' = arenas s" "length (descs s') = length (descs s)" "\<And>j. block_size (descs s' ! j) = block_size (descs s ! j)"
  shows "block_to_arena b s' = block_to_arena b s"
  unfolding block_to_arena_def assms ..

lemma arena_to_block_cong:
  assumes "arenas s' = arenas s" "length (descs s') = length (descs s)" "\<And>j. block_size (descs s' ! j) = block_size (descs s ! j)"
    "\<And>j. blocks_per_arena (descs s' ! j) = blocks_per_arena (descs s ! j)"
  shows "arena_to_block a k s' = arena_to_block a k s"
  unfolding arena_to_block_def assms ..

section \<open>Blocks\<close>

lemma heap_invD:
  assumes "heap_inv s"
  shows "pmem_ok s" "d \<in> set (descs s) \<Longrightarrow> desc_ok d" "arenas s a = Some x \<Longrightarrow> arena_ok s a x"
    "arenas s a = Some x \<Longrightarrow> arenas s b = Some y \<Longrightarrow> a \<noteq> b \<Longrightarrow> arena_pages a x \<inter> arena_pages b y = {}"
    "i < length (descs s) \<Longrightarrow> distinct (free_list (descs s ! i))"
    "i < length (descs s) \<Longrightarrow> p \<in> set (free_list (descs s ! i)) \<Longrightarrow>
       \<exists>a ar k. arenas s a = Some ar \<and> arena_desc ar = Some i \<and> k < blocks_per_arena (descs s ! i) \<and> p = blk s i a k"
  using assms unfolding heap_inv_def by (blast, blast, blast, blast, blast, blast)

lemma arena_page:
  assumes "heap_inv s" "arenas s a = Some ar"
  shows "a mod PGSIZE = 0" "PHYS_BASE < a" "a + PGSIZE \<le> 2 ^ 32" "a \<noteq> NULL"
proof -
  have "a \<in> used s" using heap_invD(3)[OF assms] by (auto simp: arena_ok_def used_def)
  from used_page[OF heap_invD(1)[OF assms(1)] this]
  show "a mod PGSIZE = 0" "PHYS_BASE < a" "a + PGSIZE \<le> 2 ^ 32" "a \<noteq> NULL" by blast+
qed

text \<open>The address of a block gives the arena back.\<close>

lemma in_page:
  assumes "a mod PGSIZE = 0" "a + PGSIZE \<le> 2 ^ 32" "r < PGSIZE"
  shows "pg_round_down (a + r) = a" "pg_ofs (a + r) = r" "a + r < 2 ^ 32"
proof -
  show b: "a + r < 2 ^ 32" using assms(2,3) by simp
  have m: "(a + r) mod PGSIZE = r" using assms(1,3) by (auto simp: PGSIZE_def elim!: dvdE)
  show "pg_ofs (a + r) = r" using pg_ofs_mod[OF b] m by simp
  show "pg_round_down (a + r) = a" using pg_round_down_sub[OF b] m by simp
qed

lemma blk_bound:
  assumes "desc_ok d" "k < blocks_per_arena d"
  shows "ARENA_SIZE + k * block_size d + block_size d \<le> PGSIZE" "ARENA_SIZE + k * block_size d < PGSIZE"
proof -
  have "(k + 1) * block_size d \<le> blocks_per_arena d * block_size d" using assms(2) by (intro mult_le_mono1) simp
  then have "k * block_size d + block_size d \<le> PGSIZE - ARENA_SIZE" using assms(1) by (simp add: desc_ok_def)
  then show "ARENA_SIZE + k * block_size d + block_size d \<le> PGSIZE" by (simp add: PGSIZE_def ARENA_SIZE_def)
  then show "ARENA_SIZE + k * block_size d < PGSIZE" using assms(1) by (simp add: desc_ok_def)
qed

lemma small_arena:
  assumes "heap_inv s" "arenas s a = Some ar" "arena_desc ar = Some i"
  shows "i < length (descs s)" "desc_ok (descs s ! i)" "magic ar = ARENA_MAGIC" "free_cnt ar = card (free_in s i a)"
    "arena_pages a ar = {a}" "a \<in> kused s"
proof -
  have ok: "arena_ok s a ar" by (rule heap_invD(3)[OF assms(1,2)])
  then show i: "i < length (descs s)" and "magic ar = ARENA_MAGIC" "free_cnt ar = card (free_in s i a)"
    "arena_pages a ar = {a}" "a \<in> kused s" using assms(3) by (auto simp: arena_ok_def arena_pages_def)
  show "desc_ok (descs s ! i)" using heap_invD(2)[OF assms(1)] i by simp
qed

lemma blk_arena:
  assumes "heap_inv s" "arenas s a = Some ar" "arena_desc ar = Some i" "k < blocks_per_arena (descs s ! i)"
  shows "pg_round_down (blk s i a k) = a" "block_to_arena (blk s i a k) s = Some a" "arena_to_block a k s = Some (blk s i a k)"
proof -
  note sm = small_arena[OF assms(1-3)] and pg = arena_page[OF assms(1,2)]
  note b = blk_bound[OF sm(2) assms(4)]
  note ip = in_page[OF pg(1,3) b(2)]
  have bk: "blk s i a k = a + (ARENA_SIZE + k * block_size (descs s ! i))" by (simp add: blk_def)
  show r: "pg_round_down (blk s i a k) = a" unfolding bk by (rule ip(1))
  have o: "pg_ofs (blk s i a k) = ARENA_SIZE + k * block_size (descs s ! i)" unfolding bk by (rule ip(2))
  have "unat (w32 (ARENA_SIZE + k * block_size (descs s ! i)) - w32 ARENA_SIZE) = k * block_size (descs s ! i)"
  proof -
    have lt: "k * block_size (descs s ! i) < 2 ^ 32" using b(2) by (simp add: PGSIZE_def)
    have "w32 (ARENA_SIZE + k * block_size (descs s ! i)) - w32 ARENA_SIZE = w32 (k * block_size (descs s ! i))" by simp
    then show ?thesis using unat_w32[OF lt] by simp
  qed
  then show "block_to_arena (blk s i a k) s = Some a"
    using sm(1,3) pg(4) assms(2,3) r o by (simp add: block_to_arena_def)
  show "arena_to_block a k s = Some (blk s i a k)"
    using sm(1,3) pg(4) assms(2-4) by (simp add: arena_to_block_def blk_def)
qed

lemma blk_inj:
  assumes "heap_inv s" "arenas s a = Some x" "arena_desc x = Some i" "k < blocks_per_arena (descs s ! i)"
    "arenas s b = Some y" "arena_desc y = Some j" "l < blocks_per_arena (descs s ! j)" "blk s i a k = blk s j b l"
  shows "a = b \<and> i = j \<and> k = l"
proof -
  have "a = b" using blk_arena(1)[OF assms(1-4)] blk_arena(1)[OF assms(1,5-7)] assms(8) by simp
  moreover from this have "i = j" using assms(2,3,5,6) by simp
  moreover have "0 < block_size (descs s ! i)" using small_arena(2)[OF assms(1-3)] by (simp add: desc_ok_def)
  ultimately show ?thesis using assms(8) by (simp add: blk_def)
qed

lemma big_arena:
  assumes "heap_inv s" "arenas s a = Some ar" "arena_desc ar = None"
  shows "block_to_arena (a + ARENA_SIZE) s = Some a" "pg_round_down (a + ARENA_SIZE) = a" "pg_ofs (a + ARENA_SIZE) = ARENA_SIZE"
proof -
  note pg = arena_page[OF assms(1,2)]
  have "ARENA_SIZE < PGSIZE" by (simp add: ARENA_SIZE_def PGSIZE_def)
  note ip = in_page[OF pg(1,3) this]
  show "pg_round_down (a + ARENA_SIZE) = a" "pg_ofs (a + ARENA_SIZE) = ARENA_SIZE" using ip by blast+
  then show "block_to_arena (a + ARENA_SIZE) s = Some a"
    using heap_invD(3)[OF assms(1,2)] pg(4) assms(2,3) by (simp add: block_to_arena_def arena_ok_def)
qed

lemma liveE:
  assumes "p \<in> live s"
  obtains (big) a ar where "arenas s a = Some ar" "arena_desc ar = None" "p = a + ARENA_SIZE"
  | (small) a ar i k where "arenas s a = Some ar" "arena_desc ar = Some i" "k < blocks_per_arena (descs s ! i)"
      "p = blk s i a k" "p \<notin> set (free_list (descs s ! i))"
proof -
  obtain a ar where a: "arenas s a = Some ar" "case arena_desc ar of None \<Rightarrow> p = a + ARENA_SIZE
     | Some i \<Rightarrow> \<exists>k < blocks_per_arena (descs s ! i). p = blk s i a k \<and> p \<notin> set (free_list (descs s ! i))"
    using assms unfolding live_def by blast
  show ?thesis
  proof (cases "arena_desc ar")
    case None then show ?thesis using a that(1) by simp
  next
    case (Some i) then show ?thesis using a that(2) by (simp, blast)
  qed
qed

lemma live_big: "arenas s a = Some ar \<Longrightarrow> arena_desc ar = None \<Longrightarrow> a + ARENA_SIZE \<in> live s"
  unfolding live_def by (intro CollectI exI[of _ a] exI[of _ ar]) simp

lemma live_small:
  assumes "arenas s a = Some ar" "arena_desc ar = Some i" "k < blocks_per_arena (descs s ! i)"
    "blk s i a k \<notin> set (free_list (descs s ! i))"
  shows "blk s i a k \<in> live s"
  unfolding live_def using assms by (intro CollectI exI[of _ a] exI[of _ ar]) auto

section \<open>Taking a block\<close>

definition no_empty_but :: "nat \<Rightarrow> heap \<Rightarrow> bool" where
  "no_empty_but c s \<longleftrightarrow> (\<forall>a ar i. arenas s a = Some ar \<longrightarrow> arena_desc ar = Some i \<longrightarrow> a \<noteq> c \<longrightarrow>
     free_cnt ar < blocks_per_arena (descs s ! i))"

lemma free_in_finite [simp]: "finite (free_in s i a)" "card (free_in s i a) \<le> blocks_per_arena (descs s ! i)"
proof -
  have sub: "free_in s i a \<subseteq> {..<blocks_per_arena (descs s ! i)}" by (auto simp: free_in_def)
  then show "finite (free_in s i a)" by (rule finite_subset) simp
  show "card (free_in s i a) \<le> blocks_per_arena (descs s ! i)" using card_mono[OF _ sub] by simp
qed

text \<open>A new free list of a descriptor that differs from the old one in blocks of one arena only.\<close>

definition blocks_of :: "heap \<Rightarrow> nat \<Rightarrow> nat set" where
  "blocks_of s i = {b. \<exists>a ar k. arenas s a = Some ar \<and> arena_desc ar = Some i \<and> k < blocks_per_arena (descs s ! i) \<and> b = blk s i a k}"

lemma blocks_ofI:
  "arenas s a = Some ar \<Longrightarrow> arena_desc ar = Some i \<Longrightarrow> k < blocks_per_arena (descs s ! i) \<Longrightarrow> blk s i a k \<in> blocks_of s i"
  unfolding blocks_of_def by blast

lemma blocks_ofE:
  assumes "b \<in> blocks_of s i"
  obtains a ar k where "arenas s a = Some ar" "arena_desc ar = Some i" "k < blocks_per_arena (descs s ! i)" "b = blk s i a k"
  using assms unfolding blocks_of_def by blast

lemma free_blocks:
  assumes "heap_inv s" "i < length (descs s)"
  shows "set (free_list (descs s ! i)) \<subseteq> blocks_of s i"
  using heap_invD(6)[OF assms] by (auto simp: blocks_of_def)

lemma blocks_of_disj:
  assumes "heap_inv s" "b \<in> blocks_of s i" "b \<in> blocks_of s j"
  shows "i = j"
  using assms(2,3) by (elim blocks_ofE) (use blk_inj[OF assms(1)] in metis)

lemma live_cases:
  assumes "p \<in> live s"
  obtains (big) a ar where "arenas s a = Some ar" "arena_desc ar = None" "p = a + ARENA_SIZE"
  | (small) i where "p \<in> blocks_of s i" "p \<notin> set (free_list (descs s ! i))"
  using assms by (cases rule: liveE) (auto intro: blocks_ofI)

lemma live_block: "p \<in> blocks_of s i \<Longrightarrow> p \<notin> set (free_list (descs s ! i)) \<Longrightarrow> p \<in> live s"
  by (elim blocks_ofE) (use live_small in blast)

lemma big_not_block:
  assumes "heap_inv s" "arenas s a = Some ar" "arena_desc ar = None"
  shows "a + ARENA_SIZE \<notin> blocks_of s i"
proof
  assume "a + ARENA_SIZE \<in> blocks_of s i"
  then obtain c x k where c: "arenas s c = Some x" "arena_desc x = Some i" "k < blocks_per_arena (descs s ! i)"
    "a + ARENA_SIZE = blk s i c k" by (rule blocks_ofE)
  have "c = a" using blk_arena(1)[OF assms(1) c(1-3), folded c(4)] big_arena(2)[OF assms] by (rule trans[OF sym])
  then show False using c(1,2) assms(2,3) by simp
qed

lemma live_not_free:
  assumes "heap_inv s" "i < length (descs s)" "p \<in> set (free_list (descs s ! i))"
  shows "p \<notin> live s"
proof
  have b: "p \<in> blocks_of s i" using free_blocks[OF assms(1,2)] assms(3) by blast
  assume "p \<in> live s"
  then show False
  proof (cases rule: live_cases)
    case (big a ar)
    then show False using big_not_block[OF assms(1) big(1,2)] b by simp
  next
    case (small j)
    then show False using blocks_of_disj[OF assms(1) b small(1)] assms(3) by simp
  qed
qed

text \<open>\<open>upd s a ar i bs\<close> gives descriptor \<open>i\<close> the free list \<open>bs\<close> and counts the free blocks of \<open>a\<close> anew.\<close>

definition upd_ok :: "heap \<Rightarrow> nat \<Rightarrow> arena \<Rightarrow> nat \<Rightarrow> nat list \<Rightarrow> bool" where
  "upd_ok s a ar i bs \<longleftrightarrow> heap_inv s \<and> arenas s a = Some ar \<and> arena_desc ar = Some i \<and> distinct bs \<and> set bs \<subseteq> blocks_of s i
     \<and> (\<forall>c x. arenas s c = Some x \<longrightarrow> arena_desc x = Some i \<longrightarrow> c \<noteq> a \<longrightarrow> free_in (set_free_list i bs s) i c = free_in s i c)"

definition upd_cnt :: "heap \<Rightarrow> nat \<Rightarrow> nat \<Rightarrow> nat list \<Rightarrow> nat" where
  "upd_cnt s a i bs = card (free_in (set_free_list i bs s) i a)"

definition upd :: "heap \<Rightarrow> nat \<Rightarrow> arena \<Rightarrow> nat \<Rightarrow> nat list \<Rightarrow> heap" where
  "upd s a ar i bs = set_arena a (Some (ar\<lparr>free_cnt := upd_cnt s a i bs\<rparr>)) (set_free_list i bs s)"

lemma upd_okD:
  assumes "upd_ok s a ar i bs"
  shows "heap_inv s" "arenas s a = Some ar" "arena_desc ar = Some i" "distinct bs" "set bs \<subseteq> blocks_of s i" "i < length (descs s)"
    "arenas s c = Some x \<Longrightarrow> arena_desc x = Some i \<Longrightarrow> c \<noteq> a \<Longrightarrow> free_in (set_free_list i bs s) i c = free_in s i c"
proof -
  show u: "heap_inv s" "arenas s a = Some ar" "arena_desc ar = Some i" "distinct bs" "set bs \<subseteq> blocks_of s i"
    "arenas s c = Some x \<Longrightarrow> arena_desc x = Some i \<Longrightarrow> c \<noteq> a \<Longrightarrow> free_in (set_free_list i bs s) i c = free_in s i c"
    using assms unfolding upd_ok_def by blast+
  show "i < length (descs s)" by (rule small_arena(1)[OF u(1-3)])
qed


lemma upd_simps:
  assumes "i < length (descs s)"
  shows "length (descs (upd s a ar i bs)) = length (descs s)" "free_list (descs (upd s a ar i bs) ! j) = (if j = i then bs else free_list (descs s ! j))"
    "block_size (descs (upd s a ar i bs) ! j) = block_size (descs s ! j)" "blocks_per_arena (descs (upd s a ar i bs) ! j) = blocks_per_arena (descs s ! j)"
    "arenas (upd s a ar i bs) = (arenas s)(a \<mapsto> ar\<lparr>free_cnt := upd_cnt s a i bs\<rparr>)" "kused (upd s a ar i bs) = kused s"
    "pmem_ok (upd s a ar i bs) = pmem_ok s" "blk (upd s a ar i bs) = blk s"
  using assms by (simp_all add: upd_def)

lemma upd_up:
  assumes "upd_ok s a ar i bs" "arenas s c = Some x"
  shows "\<exists>y. arenas (upd s a ar i bs) c = Some y \<and> arena_desc y = arena_desc x"
proof (cases "c = a")
  case True
  then have "x = ar" using assms(2) upd_okD(2)[OF assms(1)] by simp
  then show ?thesis using True upd_okD(6)[OF assms(1)] by (simp add: upd_simps)
qed (use assms(2) upd_okD(6)[OF assms(1)] in \<open>simp add: upd_simps\<close>)

lemma upd_down:
  assumes "upd_ok s a ar i bs" "arenas (upd s a ar i bs) c = Some y"
  obtains x where "arenas s c = Some x" "arena_desc y = arena_desc x" "arena_pages c y = arena_pages c x"
proof (cases "c = a")
  case True
  then have "y = ar\<lparr>free_cnt := upd_cnt s a i bs\<rparr>" using assms(2) upd_okD(6)[OF assms(1)] by (simp add: upd_simps)
  then show ?thesis using that[of ar] True upd_okD(2,3)[OF assms(1)] by (simp add: arena_pages_def)
next
  case False
  then show ?thesis using that[of y] assms(2) upd_okD(6)[OF assms(1)] by (simp add: upd_simps)
qed

lemma upd_blocks:
  assumes "upd_ok s a ar i bs"
  shows "blocks_of (upd s a ar i bs) j = blocks_of s j" (is "blocks_of ?S j = _")
proof (intro set_eqI iffI)
  note us = upd_simps[OF upd_okD(6)[OF assms]]
  fix p assume "p \<in> blocks_of ?S j"
  then obtain c y k where c: "arenas ?S c = Some y" "arena_desc y = Some j" "k < blocks_per_arena (descs ?S ! j)" "p = blk ?S j c k"
    by (rule blocks_ofE)
  obtain x where "arenas s c = Some x" "arena_desc y = arena_desc x" by (rule upd_down[OF assms c(1)])
  then show "p \<in> blocks_of s j" using c(2-4) blocks_ofI[of s c x j k] by (simp add: us)
next
  note us = upd_simps[OF upd_okD(6)[OF assms]]
  fix p assume "p \<in> blocks_of s j"
  then obtain c x k where c: "arenas s c = Some x" "arena_desc x = Some j" "k < blocks_per_arena (descs s ! j)" "p = blk s j c k"
    by (rule blocks_ofE)
  obtain y where "arenas ?S c = Some y" "arena_desc y = arena_desc x" using upd_up[OF assms c(1)] by blast
  then show "p \<in> blocks_of ?S j" using c(2-4) blocks_ofI[of ?S c y j k] by (simp add: us)
qed

lemma free_in_upd: "free_in (upd s a ar i bs) = free_in (set_free_list i bs s)" by (simp add: upd_def)

lemma free_in_other: "i < length (descs s) \<Longrightarrow> j \<noteq> i \<Longrightarrow> free_in (set_free_list i bs s) j = free_in s j"
  by (simp add: free_in_def fun_eq_iff)

lemma upd_arena:
  assumes "upd_ok s a ar i bs" "arenas (upd s a ar i bs) c = Some y"
  shows "arena_ok (upd s a ar i bs) c y"
proof (cases "c = a")
  note us = upd_simps[OF upd_okD(6)[OF assms(1)]] and u = upd_okD[OF assms(1)]
  case True
  then have "y = ar\<lparr>free_cnt := upd_cnt s a i bs\<rparr>" using assms by (simp add: us)
  then show ?thesis using True heap_invD(3)[OF u(1,2)] u(3) by (simp add: arena_ok_def arena_pages_def us free_in_upd upd_cnt_def)
next
  note us = upd_simps[OF upd_okD(6)[OF assms(1)]] and u = upd_okD[OF assms(1)]
  case False
  then have x: "arenas s c = Some y" using assms by (simp add: us)
  have "free_in (upd s a ar i bs) j c = free_in s j c" if "arena_desc y = Some j" for j
    using u(7)[OF x _ False] free_in_other[OF u(6), of j] that by (cases "j = i") (simp_all add: free_in_upd)
  then show ?thesis using heap_invD(3)[OF u(1) x] by (auto simp: arena_ok_def us split: option.splits)
qed

lemma upd_desc:
  assumes "upd_ok s a ar i bs" "d \<in> set (descs (upd s a ar i bs))"
  shows "desc_ok d"
proof -
  note us = upd_simps[OF upd_okD(6)[OF assms(1)]] and u = upd_okD[OF assms(1)]
  obtain j where j: "j < length (descs s)" "d = descs (upd s a ar i bs) ! j" using assms(2) by (auto simp: in_set_conv_nth us)
  have "desc_ok (descs s ! j)" using heap_invD(2)[OF u(1)] j(1) by simp
  then show ?thesis using j(2) by (simp add: desc_ok_def us)
qed

lemma upd_inv:
  assumes "upd_ok s a ar i bs"
  shows "heap_inv (upd s a ar i bs)" (is "heap_inv ?S")
  unfolding heap_inv_def
proof (intro conjI allI impI ballI)
  fix c x assume "arenas ?S c = Some x" then show "arena_ok ?S c x" by (rule upd_arena[OF assms])
next
  fix c d x y assume c: "arenas ?S c = Some x" "arenas ?S d = Some y" "c \<noteq> d"
  obtain x' where x: "arenas s c = Some x'" "arena_pages c x = arena_pages c x'" by (rule upd_down[OF assms c(1)])
  obtain y' where y: "arenas s d = Some y'" "arena_pages d y = arena_pages d y'" by (rule upd_down[OF assms c(2)])
  show "arena_pages c x \<inter> arena_pages d y = {}" unfolding x(2) y(2) by (rule heap_invD(4)[OF upd_okD(1)[OF assms] x(1) y(1) c(3)])
next
  note us = upd_simps[OF upd_okD(6)[OF assms]] and u = upd_okD[OF assms]
  fix j p assume j: "j < length (descs ?S)" "p \<in> set (free_list (descs ?S ! j))"
  then have "p \<in> blocks_of ?S j" using u(5) free_blocks[OF u(1), of j] by (auto simp: upd_blocks[OF assms] us split: if_splits)
  then show "\<exists>c x l. arenas ?S c = Some x \<and> arena_desc x = Some j \<and> l < blocks_per_arena (descs ?S ! j) \<and> p = blk ?S j c l"
    unfolding blocks_of_def by blast
qed (use heap_invD(1,5)[OF upd_okD(1)[OF assms]] upd_okD(4)[OF assms] upd_desc[OF assms] in
    \<open>auto simp: upd_simps[OF upd_okD(6)[OF assms]]\<close>)

lemma upd_live:
  assumes "upd_ok s a ar i bs"
  shows "live (upd s a ar i bs) = (live s \<union> set (free_list (descs s ! i))) - set bs" (is "live ?S = _")
proof -
  note us = upd_simps[OF upd_okD(6)[OF assms]] and u = upd_okD[OF assms] and ub = upd_blocks[OF assms]
  have "p \<in> (live s \<union> set (free_list (descs s ! i))) - set bs" if "p \<in> live ?S" for p
    using that
  proof (cases rule: live_cases)
    case (big c y)
    obtain x where x: "arenas s c = Some x" "arena_desc y = arena_desc x" by (rule upd_down[OF assms big(1)])
    have "arena_desc x = None" using x(2) big(2) by simp
    then show ?thesis using live_big[OF x(1)] big_not_block[OF u(1) x(1)] u(5) big(3) by blast
  next
    case (small j)
    have j: "p \<in> blocks_of s j" using small(1) by (simp add: ub)
    have "p \<notin> set bs" using small(2) u(5) blocks_of_disj[OF u(1) j] by (cases "j = i") (auto simp: us)
    moreover have "p \<in> live s \<union> set (free_list (descs s ! i))"
      using live_block[OF j] small(2) by (cases "j = i") (auto simp: us)
    ultimately show ?thesis by blast
  qed
  moreover have "p \<in> live ?S" if p: "p \<in> live s" "p \<notin> set bs" for p
    using p(1)
  proof (cases rule: live_cases)
    case (big c x)
    then show ?thesis using upd_up[OF assms big(1)] live_big[of ?S c] by auto
  next
    case (small j)
    then show ?thesis using live_block[of p ?S j] p by (simp add: ub us)
  qed
  moreover have "p \<in> live ?S" if "p \<in> set (free_list (descs s ! i))" "p \<notin> set bs" for p
    using live_block[of p ?S i] free_blocks[OF u(1,6)] that by (auto simp: ub us)
  ultimately show ?thesis by blast
qed

text \<open>What later states keep of the arenas: every arena is still there, with its descriptor and, if it is
  a big block, its size.\<close>

definition keeps :: "heap \<Rightarrow> heap \<Rightarrow> bool" where
  "keeps s s' \<longleftrightarrow> map block_size (descs s') = map block_size (descs s)
     \<and> (\<forall>c y. arenas s c = Some y \<longrightarrow> (\<exists>y'. arenas s' c = Some y' \<and> arena_desc y' = arena_desc y \<and> (arena_desc y = None \<longrightarrow> y' = y)))"

lemma keeps_trans: "keeps r s \<Longrightarrow> keeps s t \<Longrightarrow> keeps r t"
  unfolding keeps_def by metis

lemma keeps_same: "descs s' = descs s \<Longrightarrow> arenas s' = arenas s \<Longrightarrow> keeps s s'"
  by (simp add: keeps_def)

lemma keeps_add: "arenas s a = None \<Longrightarrow> keeps s (set_arena a x s)"
  by (simp add: keeps_def)

lemma keeps_sizes: "keeps s s' \<Longrightarrow> length (descs s') = length (descs s)"
  "keeps s s' \<Longrightarrow> i < length (descs s) \<Longrightarrow> block_size (descs s' ! i) = block_size (descs s ! i)"
proof -
  assume k: "keeps s s'"
  then have m: "map block_size (descs s') = map block_size (descs s)" by (simp add: keeps_def)
  then show l: "length (descs s') = length (descs s)" by (rule map_eq_imp_length_eq)
  show "i < length (descs s) \<Longrightarrow> block_size (descs s' ! i) = block_size (descs s ! i)"
    using arg_cong[OF m, of "\<lambda>xs. xs ! i"] l by simp
qed

lemma upd_keeps:
  assumes "upd_ok s a ar i bs"
  shows "keeps s (upd s a ar i bs)"
proof -
  note us = upd_simps[OF upd_okD(6)[OF assms]] and u = upd_okD[OF assms]
  have "map block_size (descs (upd s a ar i bs)) = map block_size (descs s)" by (intro nth_equalityI) (simp_all add: us)
  then show ?thesis using u(2,3) by (auto simp: keeps_def us)
qed

lemma upd_no_empty:
  assumes "upd_ok s a ar i bs" "no_empty_but a s"
  shows "no_empty_but a (upd s a ar i bs)" "upd_cnt s a i bs < blocks_per_arena (descs s ! i) \<Longrightarrow> no_empty_arena (upd s a ar i bs)"
  using assms(2) upd_okD(3)[OF assms(1)] upd_simps[OF upd_okD(6)[OF assms(1)]]
  by (auto simp: no_empty_arena_def no_empty_but_def split: if_splits)

section \<open>Taking and giving back a block\<close>

lemma upd_okI:
  assumes "heap_inv s" "arenas s a = Some ar" "arena_desc ar = Some i" "k < blocks_per_arena (descs s ! i)" "distinct bs"
    "set bs - {blk s i a k} = set (free_list (descs s ! i)) - {blk s i a k}"
  shows "upd_ok s a ar i bs"
    "free_in (set_free_list i bs s) i a - {k} = free_in s i a - {k}"
    "k \<in> free_in (set_free_list i bs s) i a \<longleftrightarrow> blk s i a k \<in> set bs"
proof -
  note i = small_arena(1)[OF assms(1-3)]
  have eq: "q \<in> set bs \<longleftrightarrow> q \<in> set (free_list (descs s ! i))" if "q \<noteq> blk s i a k" for q using assms(6) that by blast
  have "set bs \<subseteq> insert (blk s i a k) (set (free_list (descs s ! i)))" using assms(6) by blast
  also have "\<dots> \<subseteq> blocks_of s i" using free_blocks[OF assms(1) i] blocks_ofI[OF assms(2-4)] by simp
  finally have sub: "set bs \<subseteq> blocks_of s i" .
  have free: "l \<in> free_in (set_free_list i bs s) i c \<longleftrightarrow> l \<in> free_in s i c"
    if "arenas s c = Some x" "arena_desc x = Some i" "(c, l) \<noteq> (a, k)" for c x l
  proof (cases "l < blocks_per_arena (descs s ! i)")
    case True
    have "blk s i c l \<noteq> blk s i a k" using blk_inj[OF assms(1) that(1,2) True assms(2-4)] that(3) by blast
    then show ?thesis using eq True i by (simp add: free_in_def)
  qed (simp add: free_in_def)
  then show "upd_ok s a ar i bs" using assms(1-3,5) sub unfolding upd_ok_def by blast
  show "free_in (set_free_list i bs s) i a - {k} = free_in s i a - {k}" using free[OF assms(2,3)] by blast
  show "k \<in> free_in (set_free_list i bs s) i a \<longleftrightarrow> blk s i a k \<in> set bs" using assms(4) i by (simp add: free_in_def)
qed

lemma take_block_ok:
  assumes "heap_inv s" "i < length (descs s)" "free_list (descs s ! i) = b # bs"
  shows "\<exists>s'. take_block i s = Some (b, s') \<and> heap_inv s' \<and> live s' = insert b (live s) \<and> b \<notin> live s \<and> b \<in> blocks_of s' i
    \<and> (no_empty_but (pg_round_down b) s \<longrightarrow> no_empty_arena s') \<and> keeps s s'"
proof -
  have bf: "b \<in> set (free_list (descs s ! i))" using assms(3) by simp
  then obtain a ar k where a: "arenas s a = Some ar" "arena_desc ar = Some i" "k < blocks_per_arena (descs s ! i)"
    "b = blk s i a k" using free_blocks[OF assms(1,2)] by (blast elim: blocks_ofE)
  note ba = blk_arena[OF assms(1) a(1-3), folded a(4)]
  have dist: "b \<notin> set bs" "distinct bs" using heap_invD(5)[OF assms(1,2)] assms(3) by simp_all
  have "set bs - {blk s i a k} = set (free_list (descs s ! i)) - {blk s i a k}" using assms(3) a(4) by simp
  note u = upd_okI[OF assms(1) a(1-3) dist(2) this, folded a(4)]
  have kin: "k \<in> free_in s i a" using a(3,4) bf by (simp add: free_in_def)
  have fc: "free_cnt ar = card (free_in s i a)" by (rule small_arena(4)[OF assms(1) a(1,2)])
  have "free_in (set_free_list i bs s) i a = free_in s i a - {k}" using u(2,3) dist(1) by blast
  then have cnt: "upd_cnt s a i bs = free_cnt ar - 1" using kin fc by (simp add: upd_cnt_def)
  have "block_to_arena b (set_free_list i bs s) = Some a"
    using ba(2) block_to_arena_cong[of "set_free_list i bs s" s b] by simp
  then have tk: "take_block i s = Some (b, upd s a ar i bs)"
    using assms(3) a(1) by (simp add: take_block_def upd_def cnt)
  have "0 < card (free_in s i a)" using kin by (auto simp: card_gt_0_iff)
  then have "upd_cnt s a i bs < blocks_per_arena (descs s ! i)" using cnt fc free_in_finite(2)[of s i a] by linarith
  then have ne: "no_empty_but (pg_round_down b) s \<longrightarrow> no_empty_arena (upd s a ar i bs)"
    using upd_no_empty[OF u(1)] ba(1) by simp
  have "live (upd s a ar i bs) = insert b (live s)"
    unfolding upd_live[OF u(1)] using assms(3) dist(1) live_not_free[OF assms(1,2)] by auto
  then show ?thesis using tk upd_inv[OF u(1)] live_not_free[OF assms(1,2) bf] ne upd_keeps[OF u(1)]
      blocks_ofI[OF a(1-3), folded a(4)] upd_blocks[OF u(1)] by blast
qed

definition give_back :: "heap \<Rightarrow> nat \<Rightarrow> arena \<Rightarrow> nat \<Rightarrow> nat \<Rightarrow> heap" where
  "give_back s a ar i p = set_arena a (Some (ar\<lparr>free_cnt := free_cnt ar + 1\<rparr>)) (set_free_list i (p # free_list (descs s ! i)) s)"

lemma give_back_ok:
  assumes "heap_inv s" "arenas s a = Some ar" "arena_desc ar = Some i" "p \<in> live s" "k < blocks_per_arena (descs s ! i)"
    "p = blk s i a k" "no_empty_but a s"
  shows "heap_inv (give_back s a ar i p)" "live (give_back s a ar i p) = live s - {p}"
    "no_empty_but a (give_back s a ar i p)"
    "free_cnt ar + 1 < blocks_per_arena (descs s ! i) \<Longrightarrow> no_empty_arena (give_back s a ar i p)"
proof -
  note i = small_arena(1)[OF assms(1-3)]
  have nf: "p \<notin> set (free_list (descs s ! i))" using live_not_free[OF assms(1) i] assms(4) by blast
  let ?bs = "p # free_list (descs s ! i)"
  have "distinct ?bs" using nf heap_invD(5)[OF assms(1) i] by simp
  moreover have "set ?bs - {blk s i a k} = set (free_list (descs s ! i)) - {blk s i a k}" using assms(6) by simp
  ultimately have u: "upd_ok s a ar i ?bs" "free_in (set_free_list i ?bs s) i a - {k} = free_in s i a - {k}"
    "k \<in> free_in (set_free_list i ?bs s) i a \<longleftrightarrow> p \<in> set ?bs"
    using upd_okI[OF assms(1-3,5), of ?bs] unfolding assms(6)[symmetric] by blast+
  have "k \<notin> free_in s i a" using nf assms(6) by (simp add: free_in_def)
  then have "free_in (set_free_list i ?bs s) i a = insert k (free_in s i a)" using u(2,3) by auto
  then have "upd_cnt s a i ?bs = free_cnt ar + 1"
    using \<open>k \<notin> free_in s i a\<close> small_arena(4)[OF assms(1-3)] by (simp add: upd_cnt_def)
  then have g: "give_back s a ar i p = upd s a ar i ?bs" "upd_cnt s a i ?bs = free_cnt ar + 1" by (simp_all add: give_back_def upd_def)
  show "heap_inv (give_back s a ar i p)" unfolding g(1) by (rule upd_inv[OF u(1)])
  show "live (give_back s a ar i p) = live s - {p}" unfolding g(1) upd_live[OF u(1)] using live_not_free[OF assms(1) i] by auto
  show "no_empty_but a (give_back s a ar i p)" unfolding g(1) by (rule upd_no_empty(1)[OF u(1) assms(7)])
  show "free_cnt ar + 1 < blocks_per_arena (descs s ! i) \<Longrightarrow> no_empty_arena (give_back s a ar i p)"
    unfolding g(1) by (rule upd_no_empty(2)[OF u(1) assms(7)]) (simp add: g(2))
qed

section \<open>Arenas come and go\<close>

lemma heap_inv_pages:
  assumes "heap_inv s" "pmem_ok s'" "descs s' = descs s" "arenas s' = arenas s"
    "\<And>a ar. arenas s a = Some ar \<Longrightarrow> arena_pages a ar \<subseteq> kused s'"
  shows "heap_inv s'" "live s' = live s" "no_empty_arena s' = no_empty_arena s" "blk s' = blk s"
proof -
  show b: "blk s' = blk s" using assms(3) by (simp add: blk_def fun_eq_iff)
  then have f: "free_in s' = free_in s" using assms(3) by (simp add: free_in_def fun_eq_iff)
  have "arena_ok s' a ar" if "arenas s' a = Some ar" for a ar
  proof -
    have a: "arenas s a = Some ar" using that assms(4) by simp
    show ?thesis using heap_invD(3)[OF assms(1) a] assms(5)[OF a] f assms(3)
      unfolding arena_ok_def by (cases "arena_desc ar") simp_all
  qed
  then show "heap_inv s'" using assms(1,2) unfolding heap_inv_def assms(3,4) b by blast
  show "live s' = live s" unfolding live_def assms(3,4) b ..
  show "no_empty_arena s' = no_empty_arena s" using assms(3,4) by (simp add: no_empty_arena_def)
qed

lemma arena_ok_set_arena [simp]: "arena_ok (set_arena b x s) = arena_ok s"
  by (simp add: arena_ok_def fun_eq_iff cong: option.case_cong)

definition arena_blocks :: "heap \<Rightarrow> nat \<Rightarrow> arena \<Rightarrow> nat set" where
  "arena_blocks s a ar = (case arena_desc ar of None \<Rightarrow> {a + ARENA_SIZE}
     | Some i \<Rightarrow> blk s i a ` {..<blocks_per_arena (descs s ! i)})"

lemma free_blockE:
  assumes "heap_inv s" "i < length (descs s)" "p \<in> set (free_list (descs s ! i))"
  obtains a ar k where "arenas s a = Some ar" "arena_desc ar = Some i" "k < blocks_per_arena (descs s ! i)" "p = blk s i a k"
proof -
  have "p \<in> blocks_of s i" using free_blocks[OF assms(1,2)] assms(3) by (rule subsetD)
  then show ?thesis by (rule blocks_ofE) (rule that)
qed

lemma free_block_arena:
  assumes "heap_inv s" "i < length (descs s)" "p \<in> set (free_list (descs s ! i))"
  shows "\<exists>ar. arenas s (pg_round_down p) = Some ar \<and> arena_desc ar = Some i"
proof -
  obtain a ar k where a: "arenas s a = Some ar" "arena_desc ar = Some i" "k < blocks_per_arena (descs s ! i)" "p = blk s i a k"
    by (rule free_blockE[OF assms])
  have "pg_round_down p = a" unfolding a(4) by (rule blk_arena(1)[OF assms(1) a(1-3)])
  then show ?thesis using a(1,2) by blast
qed

definition live_in :: "heap \<Rightarrow> nat \<Rightarrow> arena \<Rightarrow> nat \<Rightarrow> bool" where
  "live_in s a ar p \<longleftrightarrow> p \<in> arena_blocks s a ar \<and> (\<forall>i. arena_desc ar = Some i \<longrightarrow> p \<notin> set (free_list (descs s ! i)))"

lemma live_iff: "p \<in> live s \<longleftrightarrow> (\<exists>a ar. arenas s a = Some ar \<and> live_in s a ar p)"
proof
  assume "p \<in> live s"
  then show "\<exists>a ar. arenas s a = Some ar \<and> live_in s a ar p"
  proof (cases rule: liveE)
    case (big a ar) then show ?thesis by (intro exI[of _ a] exI[of _ ar]) (simp add: live_in_def arena_blocks_def)
  next
    case (small a ar i k) then show ?thesis by (intro exI[of _ a] exI[of _ ar]) (simp add: live_in_def arena_blocks_def)
  qed
next
  assume "\<exists>a ar. arenas s a = Some ar \<and> live_in s a ar p"
  then obtain a ar where a: "arenas s a = Some ar" "live_in s a ar p" by blast
  then show "p \<in> live s"
    using live_big[OF a(1)] live_small[OF a(1)] by (cases "arena_desc ar") (auto simp: arena_blocks_def live_in_def)
qed

lemma arena_blocks_page:
  assumes "heap_inv s" "arenas s a = Some ar" "p \<in> arena_blocks s a ar"
  shows "pg_round_down p = a"
  using assms(3) blk_arena(1)[OF assms(1,2)] big_arena(2)[OF assms(1,2)]
  by (auto simp: arena_blocks_def split: option.splits)

lemma arena_blocks_cong: "descs s' = descs s \<Longrightarrow> arena_blocks s' = arena_blocks s"
  by (simp add: arena_blocks_def blk_def fun_eq_iff cong: option.case_cong)

lemma live_in_cong: "descs s' = descs s \<Longrightarrow> live_in s' = live_in s"
  using arena_blocks_cong[of s' s] by (simp add: live_in_def fun_eq_iff)

lemma remove_arena:
  assumes "heap_inv s" "\<And>i p. i < length (descs s) \<Longrightarrow> p \<in> set (free_list (descs s ! i)) \<Longrightarrow> pg_round_down p \<noteq> a"
  shows "heap_inv (set_arena a None s)" "live (set_arena a None s) = {p \<in> live s. pg_round_down p \<noteq> a}"
proof -
  let ?s = "set_arena a None s"
  have sub: "arenas s c = Some x \<and> c \<noteq> a" if "arenas ?s c = Some x" for c x using that by (auto split: if_splits)
  show "heap_inv ?s" unfolding heap_inv_def
  proof (intro conjI allI impI ballI)
    fix c x assume "arenas ?s c = Some x"
    then have "arenas s c = Some x" using sub by blast
    then have "arena_ok s c x" by (rule heap_invD(3)[OF assms(1)])
    then show "arena_ok ?s c x" unfolding arena_ok_set_arena .
  next
    fix c d x y assume "arenas ?s c = Some x" "arenas ?s d = Some y" "c \<noteq> d"
    then show "arena_pages c x \<inter> arena_pages d y = {}" using heap_invD(4)[OF assms(1)] sub by blast
  next
    fix i p assume p: "i < length (descs ?s)" "p \<in> set (free_list (descs ?s ! i))"
    then have ne: "pg_round_down p \<noteq> a" using assms(2) by simp
    obtain c x k where c: "arenas s c = Some x" "arena_desc x = Some i" "k < blocks_per_arena (descs s ! i)" "p = blk s i c k"
      using free_blockE[OF assms(1)] p by (metis set_arena_simps(1))
    have "c \<noteq> a" using blk_arena(1)[OF assms(1) c(1-3), folded c(4)] ne by blast
    then have "arenas ?s c = Some x" using c(1) by simp
    then show "\<exists>c x k. arenas ?s c = Some x \<and> arena_desc x = Some i \<and> k < blocks_per_arena (descs ?s ! i) \<and> p = blk ?s i c k"
      using c(2-4) by (intro exI[of _ c] exI[of _ x] exI[of _ k] conjI) simp_all
  qed (use heap_invD(1,2,5)[OF assms(1)] in simp_all)
  have li: "live_in ?s = live_in s" by (rule live_in_cong) simp
  have pg: "live_in s c x p \<Longrightarrow> arenas s c = Some x \<Longrightarrow> pg_round_down p = c" for c x p
    using arena_blocks_page[OF assms(1)] by (simp add: live_in_def)
  show "live ?s = {p \<in> live s. pg_round_down p \<noteq> a}"
  proof (intro set_eqI iffI)
    fix p assume "p \<in> live ?s"
    then obtain c x where c: "arenas ?s c = Some x" "live_in s c x p" unfolding live_iff li by blast
    then show "p \<in> {p \<in> live s. pg_round_down p \<noteq> a}" using sub[OF c(1)] pg[OF c(2)] live_iff by blast
  next
    fix p assume "p \<in> {p \<in> live s. pg_round_down p \<noteq> a}"
    then obtain c x where c: "arenas s c = Some x" "live_in s c x p" "pg_round_down p \<noteq> a" unfolding live_iff by blast
    have "arenas ?s c = Some x" using c(1,3) pg[OF c(2,1)] by auto
    then show "p \<in> live ?s" using c(2) unfolding live_iff li by blast
  qed
qed

lemma fresh_arena:
  assumes "heap_inv s" "\<And>c x. arenas s c = Some x \<Longrightarrow> a \<notin> arena_pages c x"
  shows "arenas s a = None"
  using assms(2) heap_invD(3)[OF assms(1)] by (cases "arenas s a") (auto simp: arena_ok_def)

lemma add_arena:
  assumes "heap_inv s" "magic ar = ARENA_MAGIC" "arena_pages a ar \<subseteq> kused s" "a \<in> arena_pages a ar"
    "\<And>c x. arenas s c = Some x \<Longrightarrow> arena_pages a ar \<inter> arena_pages c x = {}"
    "\<And>i. arena_desc ar = Some i \<Longrightarrow> i < length (descs s) \<and> free_cnt ar = 0"
  shows "heap_inv (set_arena a (Some ar) s)" "live (set_arena a (Some ar) s) = live s \<union> arena_blocks s a ar"
proof -
  let ?s = "set_arena a (Some ar) s"
  have none: "arenas s a = None" using fresh_arena[OF assms(1)] assms(4,5) by blast
  have "a \<in> used s" using assms(3,4) by (auto simp: used_def)
  note pg = used_page(1,3)[OF heap_invD(1)[OF assms(1)] this]
  have nofree: "p \<notin> set (free_list (descs s ! i))" if "i < length (descs s)" "pg_round_down p = a" for i p
    using free_block_arena[OF assms(1) that(1), of p] that(2) none by auto
  have page: "pg_round_down (blk s i a k) = a" if "arena_desc ar = Some i" "k < blocks_per_arena (descs s ! i)" for i k
  proof -
    have "desc_ok (descs s ! i)" using assms(6)[OF that(1)] heap_invD(2)[OF assms(1)] by simp
    then show ?thesis using in_page(1)[OF _ _ blk_bound(2)[OF _ that(2)]] pg by (simp add: blk_def add.assoc)
  qed
  show "heap_inv ?s" unfolding heap_inv_def
  proof (intro conjI allI impI ballI)
    fix c x assume c: "arenas ?s c = Some x"
    show "arena_ok ?s c x"
    proof (cases "c = a")
      case True
      have "free_in s i a = {}" if "arena_desc ar = Some i" for i
        using nofree page[OF that] assms(6)[OF that] by (auto simp: free_in_def)
      then show ?thesis using True c assms(2-4,6) by (cases "arena_desc ar") (simp_all add: arena_ok_def)
    next
      case False
      then show ?thesis using c heap_invD(3)[OF assms(1), of c x] by simp
    qed
  next
    fix c d x y assume "arenas ?s c = Some x" "arenas ?s d = Some y" "c \<noteq> d"
    then show "arena_pages c x \<inter> arena_pages d y = {}"
      using heap_invD(4)[OF assms(1), of c x d y] assms(5) by (auto split: if_splits)
  next
    fix i p assume p: "i < length (descs ?s)" "p \<in> set (free_list (descs ?s ! i))"
    obtain c x k where c: "arenas s c = Some x" "arena_desc x = Some i" "k < blocks_per_arena (descs s ! i)" "p = blk s i c k"
      using free_blockE[OF assms(1)] p by (metis set_arena_simps(1))
    then have "arenas ?s c = Some x" using none by auto
    then show "\<exists>c x k. arenas ?s c = Some x \<and> arena_desc x = Some i \<and> k < blocks_per_arena (descs ?s ! i) \<and> p = blk ?s i c k"
      using c(2-4) by (intro exI[of _ c] exI[of _ x] exI[of _ k] conjI) simp_all
  qed (use heap_invD(1,2,5)[OF assms(1)] in simp_all)
  have li: "live_in ?s = live_in s" by (rule live_in_cong) simp
  have "live_in s a ar p \<longleftrightarrow> p \<in> arena_blocks s a ar" for p
    using page nofree assms(6) by (auto simp: live_in_def arena_blocks_def)
  then have "p \<in> live ?s \<longleftrightarrow> p \<in> live s \<or> p \<in> arena_blocks s a ar" for p
    unfolding live_iff li using none
    by (metis fun_upd_apply option.distinct(1) option.inject set_arena_simps(2))
  then show "live ?s = live s \<union> arena_blocks s a ar" by blast
qed

lemma set_free_list_twice [simp]: "set_free_list i y (set_free_list i x s) = set_free_list i y s"
  by (cases "i < length (descs s)") (simp_all add: set_free_list_def list_update_beyond)

lemma set_free_list_id: "free_list (descs s ! i) = xs \<Longrightarrow> set_free_list i xs s = s"
  by (auto simp: set_free_list_def)

lemma upd_as_set:
  "upd (set_arena a x s) a ar i bs = set_free_list i bs (set_arena a (Some (ar\<lparr>free_cnt := upd_cnt (set_arena a x s) a i bs\<rparr>)) s)"
  by (simp add: upd_def set_arena_def set_free_list_def)

lemma arena_to_block_upd:
  assumes "a \<noteq> NULL" "i < length (descs s)" "k < blocks_per_arena (descs s ! i)" "arenas s a = Some ar" "magic ar = ARENA_MAGIC"
    "arena_desc ar = Some i"
  shows "arena_to_block a k (set_free_list i bs s) = Some (blk s i a k)"
  using assms by (simp add: arena_to_block_def blk_def)

lemma blk_distinct:
  assumes "heap_inv s" "arenas s a = Some ar" "arena_desc ar = Some i"
  shows "inj_on (blk s i a) {..<blocks_per_arena (descs s ! i)}"
  by (rule inj_onI) (use blk_inj[OF assms _ assms(2,3)] in blast)

lemma free_in_set:
  "i < length (descs s) \<Longrightarrow> free_in (set_free_list i bs s) i c = {k. k < blocks_per_arena (descs s ! i) \<and> blk s i c k \<in> set bs}"
  by (simp add: free_in_def)

lemma new_arena_ok:
  assumes "heap_inv s" "i < length (descs s)" "free_list (descs s ! i) = []" "a \<in> kused s"
    "\<And>c x. arenas s c = Some x \<Longrightarrow> a \<notin> arena_pages c x"
  shows "\<exists>s'. new_arena i a s = Some s' \<and> heap_inv s' \<and> live s' = live s \<and> (no_empty_arena s \<longrightarrow> no_empty_but a s')
    \<and> free_list (descs s' ! i) = map (blk s i a) [0..<blocks_per_arena (descs s ! i)] \<and> keeps s s'"
proof -
  let ?ar = "\<lparr>magic = ARENA_MAGIC, arena_desc = Some i, free_cnt = 0\<rparr>"
  let ?n = "blocks_per_arena (descs s ! i)"
  define t where "t = set_arena a (Some ?ar) s"
  let ?bs = "map (blk s i a) [0..<?n]"
  have add: "heap_inv t" "live t = live s \<union> arena_blocks s a ?ar" unfolding t_def
    by (rule add_arena[OF assms(1)]; use assms(2,4,5) in \<open>simp add: arena_pages_def\<close>)+
  have ta: "arenas t a = Some ?ar" and td: "descs t = descs s" and tb: "blk t = blk s" by (simp_all add: t_def)
  have i: "i < length (descs t)" "?n = blocks_per_arena (descs t ! i)" using assms(2) td by simp_all
  have ad: "arena_desc ?ar = Some i" by simp
  have set: "set ?bs = blk t i a ` {..<?n}" by (auto simp: tb)
  have dist: "distinct ?bs"
    using blk_distinct[OF add(1) ta ad] by (simp add: distinct_map tb td inj_on_def)
  have sub: "set ?bs \<subseteq> blocks_of t i" unfolding set using blocks_ofI[OF ta ad] i(2) by auto
  have other: "free_in (set_free_list i ?bs t) i c = free_in t i c" if c: "arenas t c = Some x" "arena_desc x = Some i" "c \<noteq> a" for c x
  proof -
    have "blk t i c l \<notin> set ?bs" if l: "l < ?n" for l
    proof
      assume "blk t i c l \<in> set ?bs"
      then obtain k where k: "k < ?n" "blk t i c l = blk t i a k" unfolding set by blast
      have lt: "l < blocks_per_arena (descs t ! i)" "k < blocks_per_arena (descs t ! i)" using l k(1) i(2) by simp_all
      show False using blk_inj[OF add(1) c(1,2) lt(1) ta ad lt(2) k(2)] c(3) by blast
    qed
    then have "free_in (set_free_list i ?bs t) i c = {}" unfolding free_in_set[OF i(1)] i(2)[symmetric] by blast
    moreover have "free_in t i c = {}" by (simp add: free_in_def td assms(3))
    ultimately show ?thesis by (rule trans[OF _ sym])
  qed
  have u: "upd_ok t a ?ar i ?bs" unfolding upd_ok_def using add(1) ta dist sub other by simp
  have "free_in (set_free_list i ?bs t) i a = {..<?n}" unfolding free_in_set[OF i(1)] i(2)[symmetric] set by blast
  then have cnt: "upd_cnt t a i ?bs = ?n" by (simp add: upd_cnt_def)
  let ?ar' = "\<lparr>magic = ARENA_MAGIC, arena_desc = Some i, free_cnt = ?n\<rparr>"
  let ?t = "set_arena a (Some ?ar') s"
  have eq: "upd t a ?ar i ?bs = set_free_list i ?bs ?t" using upd_as_set[of a "Some ?ar" s ?ar i ?bs] cnt by (simp add: t_def)
  have nn: "a \<noteq> NULL" using arena_page(4)[OF add(1) ta] .
  have tt: "descs ?t = descs s" "arenas ?t a = Some ?ar'" "blk ?t = blk s" by simp_all
  define body where "body = (\<lambda>k s. do { b \<leftarrow> arena_to_block a k s; Some (set_free_list i (free_list (descs s ! i) @ [b]) s) })"
  have "\<exists>s'. for_upto 0 ?n body ?t = Some s' \<and> s' = set_free_list i (map (blk s i a) [0..<?n]) ?t"
  proof (rule for_upto_inv[where P = "\<lambda>k st. st = set_free_list i (map (blk s i a) [0..<k]) ?t"])
    show "?t = set_free_list i (map (blk s i a) [0..<0]) ?t" using set_free_list_id[of ?t i "[]"] assms(3) by simp
  next
    fix k st assume "k < ?n" "st = set_free_list i (map (blk s i a) [0..<k]) ?t"
    then show "\<exists>st'. body k st = Some st' \<and> st' = set_free_list i (map (blk s i a) [0..<Suc k]) ?t"
      using arena_to_block_upd[OF nn, of i ?t k ?ar'] assms(2) by (simp add: body_def)
  qed simp
  then have run: "new_arena i a s = Some (upd t a ?ar i ?bs)"
    unfolding new_arena_def Let_def body_def eq by simp
  note us = upd_simps[OF i(1), of a ?ar ?bs]
  have "set (free_list (descs t ! i)) = {}" using assms(3) td by simp
  moreover have "live s \<inter> set ?bs = {}"
  proof -
    have "pg_round_down p \<noteq> a" if pl: "p \<in> live s" for p
    proof -
      obtain c x where c: "arenas s c = Some x" "live_in s c x p" using pl unfolding live_iff by blast
      have "arenas s a = None" using fresh_arena[OF assms(1,5)] .
      then show ?thesis using arena_blocks_page[OF assms(1) c(1)] c unfolding live_in_def by auto
    qed
    moreover have "pg_round_down p = a" if pb: "p \<in> set ?bs" for p
    proof -
      obtain k where k: "p = blk t i a k" "k < ?n" using pb unfolding set by blast
      show ?thesis unfolding k(1) by (rule blk_arena(1)[OF add(1) ta ad]) (use k(2) i(2) in simp)
    qed
    ultimately show ?thesis by blast
  qed
  moreover have "arena_blocks s a ?ar = set ?bs" by (simp add: arena_blocks_def lessThan_atLeast0)
  ultimately have lv: "live (upd t a ?ar i ?bs) = live s" unfolding upd_live[OF u] add(2) by (metis Diff_triv Un_Diff_cancel2 Un_Diff Un_empty_right Diff_cancel)
  have "no_empty_but a t" if "no_empty_arena s" 
    unfolding no_empty_but_def td
  proof (intro allI impI)
    fix c x j assume c: "arenas t c = Some x" "arena_desc x = Some j" "c \<noteq> a"
    have "arenas s c = Some x" using c(1,3) by (simp add: t_def)
    then show "free_cnt x < blocks_per_arena (descs s ! j)" using that c(2) unfolding no_empty_arena_def by blast
  qed
  then have ne: "no_empty_arena s \<longrightarrow> no_empty_but a (upd t a ?ar i ?bs)" using upd_no_empty(1)[OF u] by blast
  have fl: "free_list (descs (upd t a ?ar i ?bs) ! i) = ?bs" unfolding us by simp
  have "keeps s t" unfolding t_def by (rule keeps_add[OF fresh_arena[OF assms(1,5)]])
  then have "keeps s (upd t a ?ar i ?bs)" by (rule keeps_trans[OF _ upd_keeps[OF u]])
  then show ?thesis using run upd_inv[OF u] lv ne fl by blast
qed

lemma remove1_filter:
  assumes "distinct xs" "b \<in> set xs" "b \<notin> A"
  shows "remove1 b (filter (\<lambda>p. p \<notin> A) xs) = filter (\<lambda>p. p \<notin> insert b A) xs"
proof -
  have "remove1 b (filter (\<lambda>p. p \<notin> A) xs) = filter (\<lambda>p. b \<noteq> p) (filter (\<lambda>p. p \<notin> A) xs)"
    using assms(1) by (simp add: distinct_remove1_removeAll removeAll_filter_not_eq)
  also have "\<dots> = filter (\<lambda>p. p \<notin> insert b A) xs" by (simp add: conj_commute eq_commute[of b])
  finally show ?thesis .
qed

lemma drop_loop:
  assumes "heap_inv s" "arenas s a = Some ar" "arena_desc ar = Some i" "n \<le> blocks_per_arena (descs s ! i)"
    "\<And>k. k < n \<Longrightarrow> blk s i a k \<in> set (free_list (descs s ! i))"
  shows "for_upto 0 n (\<lambda>k s. do {
       b \<leftarrow> arena_to_block a k s;
       ASSERT (b \<in> set (free_list (descs s ! i)));
       Some (set_free_list i (remove1 b (free_list (descs s ! i))) s) }) s
    = Some (set_free_list i (filter (\<lambda>p. p \<notin> blk s i a ` {..<n}) (free_list (descs s ! i))) s)"
proof -
  let ?fl = "free_list (descs s ! i)"
  define st where "st = (\<lambda>k. set_free_list i (filter (\<lambda>p. p \<notin> blk s i a ` {..<k}) ?fl) s)"
  define body where "body = (\<lambda>k s. do { b \<leftarrow> arena_to_block a k s; ASSERT (b \<in> set (free_list (descs s ! i)));
       Some (set_free_list i (remove1 b (free_list (descs s ! i))) s) })"
  note sm = small_arena[OF assms(1-3)]
  have "\<exists>s'. for_upto 0 n body s = Some s' \<and> s' = st n"
  proof (rule for_upto_inv[where P = "\<lambda>k x. x = st k"])
    show "s = st 0" using set_free_list_id[of s i ?fl] by (simp add: st_def)
  next
    fix k x assume k: "k < n" "x = st k"
    have kb: "k < blocks_per_arena (descs s ! i)" using k(1) assms(4) by simp
    have bin: "blk s i a k \<in> set ?fl" by (rule assms(5)[OF k(1)])
    have new: "blk s i a k \<notin> blk s i a ` {..<k}"
    proof
      assume "blk s i a k \<in> blk s i a ` {..<k}"
      then obtain l where l: "l < k" "blk s i a k = blk s i a l" by blast
      then show False using inj_onD[OF blk_distinct[OF assms(1-3)] l(2)] kb by simp
    qed
    have "arena_to_block a k (st k) = Some (blk s i a k)"
      unfolding st_def by (rule arena_to_block_upd[OF arena_page(4)[OF assms(1,2)] sm(1) kb assms(2) sm(3) assms(3)])
    then have "body k (st k) = Some (set_free_list i (remove1 (blk s i a k) (filter (\<lambda>p. p \<notin> blk s i a ` {..<k}) ?fl)) s)"
      using bin new sm(1) by (simp add: body_def st_def)
    also have "\<dots> = Some (st (Suc k))"
      unfolding remove1_filter[OF heap_invD(5)[OF assms(1) sm(1)] bin new] by (simp add: st_def lessThan_Suc)
    finally show "\<exists>x'. body k x = Some x' \<and> x' = st (Suc k)" using k(2) by blast
  qed simp
  then show ?thesis by (simp add: st_def body_def)
qed

lemma free_in_arena:
  assumes "heap_inv s" "j < length (descs s)" "p \<in> set (free_list (descs s ! j))" "arenas s a = Some ar" "arena_desc ar = Some i"
  shows "pg_round_down p \<noteq> a \<or> j = i \<and> p \<in> blk s i a ` {..<blocks_per_arena (descs s ! i)}"
proof (rule free_blockE[OF assms(1-3)])
  fix c x k assume c: "arenas s c = Some x" "arena_desc x = Some j" "k < blocks_per_arena (descs s ! j)" "p = blk s j c k"
  have pg: "pg_round_down p = c" unfolding c(4) by (rule blk_arena(1)[OF assms(1) c(1-3)])
  show ?thesis
  proof (cases "c = a")
    case True
    then have "j = i" using c(1,2) assms(4,5) by simp
    then show ?thesis using c(3,4) True by blast
  qed (simp add: pg)
qed

lemma drop_arena_ok:
  assumes "heap_inv s" "arenas s a = Some ar" "arena_desc ar = Some i" "free_cnt ar = blocks_per_arena (descs s ! i)"
    "no_empty_but a s"
  shows "\<exists>s'. drop_arena i a s = Some s' \<and> heap_ok s' \<and> live s' = live s"
proof -
  let ?fl = "free_list (descs s ! i)" and ?n = "blocks_per_arena (descs s ! i)"
  let ?B = "blk s i a ` {..<?n}"
  define bs where "bs = filter (\<lambda>p. p \<notin> ?B) ?fl"
  note sm = small_arena[OF assms(1-3)]
  have "free_in s i a \<subseteq> {..<?n}" by (auto simp: free_in_def)
  moreover have "card (free_in s i a) = card {..<?n}" using sm(4) assms(4) by simp
  ultimately have "free_in s i a = {..<?n}" by (intro card_subset_eq) simp_all
  then have all: "blk s i a k \<in> set ?fl" if "k < ?n" for k using that unfolding free_in_def by blast
  have loop: "drop_arena i a s = do { s \<leftarrow> palloc_free_page a (set_free_list i bs s); Some (set_arena a None s) }"
    using drop_loop[OF assms(1-3) order_refl all] unfolding drop_arena_def bs_def by simp
  have "set bs \<subseteq> blocks_of s i" using free_blocks[OF assms(1) sm(1)] by (auto simp: bs_def)
  moreover have "free_in (set_free_list i bs s) i c = free_in s i c" if c: "arenas s c = Some x" "arena_desc x = Some i" "c \<noteq> a" for c x
  proof -
    have "blk s i c l \<notin> ?B" if l: "l < ?n" for l
      using blk_inj[OF assms(1) c(1,2) l assms(2,3)] c(3) by blast
    then show ?thesis unfolding free_in_set[OF sm(1)] by (auto simp: free_in_def bs_def)
  qed
  ultimately have u: "upd_ok s a ar i bs" using assms(1-3) heap_invD(5)[OF assms(1) sm(1)] by (simp add: upd_ok_def bs_def)
  let ?v = "upd s a ar i bs" and ?t = "set_free_list i bs s"
  have v: "set_arena a None ?v = set_arena a None ?t" by (simp add: upd_def set_arena_def)
  have pgB: "pg_round_down p = a" if "p \<in> ?B" for p using that blk_arena(1)[OF assms(1-3)] by blast
  have nofree: "pg_round_down p \<noteq> a" if p: "j < length (descs ?v)" "p \<in> set (free_list (descs ?v ! j))" for j p
  proof -
    have p': "p \<in> set (free_list (descs s ! j))" "j < length (descs s)" "j = i \<longrightarrow> p \<notin> ?B"
      using p unfolding upd_simps[OF sm(1)] by (auto simp: bs_def split: if_splits)
    then show ?thesis using free_in_arena[OF assms(1) p'(2,1) assms(2,3)] by blast
  qed
  note rm = remove_arena[OF upd_inv[OF u] nofree]
  have "pg_round_down p \<noteq> a" if pl: "p \<in> live s" for p
  proof
    assume pa: "pg_round_down p = a"
    obtain c x where c: "arenas s c = Some x" "live_in s c x p" using pl unfolding live_iff by blast
    then have "c = a" using arena_blocks_page[OF assms(1) c(1)] pa unfolding live_in_def by blast
    then have "p \<in> arena_blocks s a ar" "p \<notin> set ?fl" using c assms(2,3) by (simp_all add: live_in_def)
    then show False using all assms(3) by (auto simp: arena_blocks_def)
  qed
  moreover have "p \<notin> set ?fl" if "p \<in> live s" for p using live_not_free[OF assms(1) sm(1)] that by blast
  ultimately have lv: "{p \<in> live ?v. pg_round_down p \<noteq> a} = live s"
    unfolding upd_live[OF u] using pgB by (auto simp: bs_def)
  have "run a 1 \<subseteq> kused ?t" using sm(6) by simp
  then obtain s2 where f: "palloc_free_page a ?t = Some s2" "pmem_ok s2" "pmem.more s2 = pmem.more ?t" "kused s2 = kused ?t - {a}"
    using palloc_free_kernel[of ?t a 1] heap_invD(1)[OF assms(1)] unfolding palloc_free_page_def by auto
  have m: "descs s2 = descs ?t" "arenas s2 = arenas ?t" using heap_more[OF f(3)] by simp_all
  note hp = heap_inv_pages[OF rm(1)[unfolded v], where s' = "set_arena a None s2"]
  have sub: "arena_pages c x \<subseteq> kused s2" if "arenas (set_arena a None ?t) c = Some x" for c x
  proof -
    have c: "arenas s c = Some x" "c \<noteq> a" using that by (auto split: if_splits)
    have "arena_pages c x \<inter> {a} = {}" using heap_invD(4)[OF assms(1) c(1) assms(2) c(2)] sm(5) by simp
    moreover have "arena_pages c x \<subseteq> kused s" using heap_invD(3)[OF assms(1) c(1)] by (simp add: arena_ok_def)
    ultimately show ?thesis using f(4) by auto
  qed
  have fin: "heap_inv (set_arena a None s2)" "live (set_arena a None s2) = live (set_arena a None ?t)"
    "no_empty_arena (set_arena a None s2) = no_empty_arena (set_arena a None ?t)"
    using hp f(2) m sub by simp_all
  have "no_empty_arena (set_arena a None ?t)"
    unfolding no_empty_arena_def
  proof (intro allI impI)
    fix c x j assume c: "arenas (set_arena a None ?t) c = Some x" "arena_desc x = Some j"
    have "arenas s c = Some x" "c \<noteq> a" using c(1) by (auto split: if_splits)
    then show "free_cnt x < blocks_per_arena (descs (set_arena a None ?t) ! j)"
      using assms(5) c(2) unfolding no_empty_but_def by simp
  qed
  then have "heap_ok (set_arena a None s2)" unfolding heap_ok_def using fin by blast
  moreover have "live (set_arena a None s2) = live s" using fin(2) rm(2)[unfolded v] lv by simp
  moreover have "drop_arena i a s = Some (set_arena a None s2)" unfolding loop f(1) by simp
  ultimately show ?thesis by blast
qed

section \<open>malloc and free\<close>

lemma find_desc_Some:
  "find_desc n j ds = Some i \<Longrightarrow> j \<le> i \<and> i - j < length ds \<and> n \<le> block_size (ds ! (i - j))"
proof (induction n j ds rule: find_desc.induct)
  case (2 sz j d ds)
  show ?case
  proof (cases "sz \<le> block_size d")
    case False
    then have "find_desc sz (j + 1) ds = Some i" using "2.prems" by simp
    then have "j + 1 \<le> i \<and> i - (j + 1) < length ds \<and> sz \<le> block_size (ds ! (i - (j + 1)))" by (rule "2.IH"[OF False])
    then show ?thesis by (auto simp: nth_Cons')
  qed (use "2.prems" in auto)
qed simp

lemma block_bytes_blk:
  assumes "heap_inv s" "p \<in> blocks_of s i"
  shows "block_bytes p s = Some (block_size (descs s ! i))"
proof -
  obtain a ar k where a: "arenas s a = Some ar" "arena_desc ar = Some i" "k < blocks_per_arena (descs s ! i)" "p = blk s i a k"
    using assms(2) by (rule blocks_ofE)
  show ?thesis using blk_arena(2)[OF assms(1) a(1-3)] a(1,2) unfolding a(4) block_bytes_def by simp
qed

lemma block_bytes_big:
  assumes "heap_inv s" "arenas s a = Some ar" "arena_desc ar = None"
  shows "block_bytes (a + ARENA_SIZE) s = Some (PGSIZE * free_cnt ar - ARENA_SIZE)"
  using big_arena[OF assms] assms(2,3) by (simp add: block_bytes_def)

text \<open>Memory for a request was found: the new block is none of those in use and is large enough.\<close>

definition got :: "nat \<Rightarrow> heap \<Rightarrow> addr \<Rightarrow> heap \<Rightarrow> bool" where
  "got n s p s' \<longleftrightarrow> p \<notin> live s \<and> live s' = insert p (live s) \<and> (\<exists>m. block_bytes p s' = Some m \<and> n \<le> m) \<and> keeps s s'"

lemma take_got:
  assumes "heap_inv s" "i < length (descs s)" "free_list (descs s ! i) = b # bs" "no_empty_but (pg_round_down b) s"
    "n \<le> block_size (descs s ! i)"
  shows "\<exists>s'. take_block i s = Some (b, s') \<and> heap_ok s' \<and> got n s b s'"
proof -
  obtain s' where t: "take_block i s = Some (b, s')" "heap_inv s'" "live s' = insert b (live s)" "b \<notin> live s" "b \<in> blocks_of s' i"
    "no_empty_arena s'" "keeps s s'"
    using take_block_ok[OF assms(1-3)] assms(4) by blast
  have "got n s b s'" using block_bytes_blk[OF t(2,5)] t(3,4,7) keeps_sizes(2)[OF t(7) assms(2)] assms(5) by (simp add: got_def)
  then show ?thesis using t(1,2,6) by (auto simp: heap_ok_def)
qed

lemma page_arena:
  assumes "heap_inv s" "pmem_ok s1" "pmem.more s1 = pmem.more s" "kused s1 = kused s \<union> R" "R \<inter> kused s = {}"
  shows "heap_inv s1" "live s1 = live s" "no_empty_arena s1 = no_empty_arena s" "descs s1 = descs s"
    "arenas s1 c = Some x \<Longrightarrow> R \<inter> arena_pages c x = {}"
proof -
  note m = heap_more[OF assms(3)]
  have sub: "arena_pages c x \<subseteq> kused s" if "arenas s c = Some x" for c x
    using heap_invD(3)[OF assms(1) that] by (simp add: arena_ok_def)
  have "arena_pages c x \<subseteq> kused s1" if "arenas s c = Some x" for c x using sub[OF that] assms(4) by blast
  note hp = heap_inv_pages[OF assms(1,2) conjunct1[OF m] conjunct2[OF m] this]
  show "heap_inv s1" "live s1 = live s" "no_empty_arena s1 = no_empty_arena s" using hp by blast+
  show "descs s1 = descs s" using m by blast
  show "arenas s1 c = Some x \<Longrightarrow> R \<inter> arena_pages c x = {}" using sub[of c x] m assms(5) by auto
qed

lemma malloc_small:
  assumes "heap_ok s" "i < length (descs s)" "n \<le> block_size (descs s ! i)" "free_list (descs s ! i) = []"
    "palloc_get_page {} s = Some (a, s1)" "a \<noteq> NULL"
  shows "\<exists>s2 p s'. new_arena i a s1 = Some s2 \<and> take_block i s2 = Some (p, s') \<and> heap_ok s' \<and> got n s p s'"
proof -
  have s: "heap_inv s" "no_empty_arena s" using assms(1) by (simp_all add: heap_ok_def)
  have g: "pmem_ok s1" "pmem.more s1 = pmem.more s" "{a} \<inter> kused s = {}" "kused s1 = kused s \<union> {a}" "a mod PGSIZE = 0"
    "a + PGSIZE \<le> 2 ^ 32"
    using palloc_get_kernel[OF heap_invD(1)[OF s(1)], of 1 "{}"] assms(5,6) unfolding palloc_get_page_def by auto
  note pa = page_arena[OF s(1) g(1,2,4,3)]
  have i: "i < length (descs s1)" "free_list (descs s1 ! i) = []" using assms(2,4) pa(4) by simp_all
  have "desc_ok (descs s1 ! i)" using heap_invD(2)[OF pa(1)] i(1) by simp
  then have n: "0 < blocks_per_arena (descs s1 ! i)" by (simp add: desc_ok_def)
  have pg: "pg_round_down (blk s1 i a 0) = a"
    using in_page(1)[OF g(5,6), of ARENA_SIZE] by (simp add: blk_def ARENA_SIZE_def PGSIZE_def)
  have fr: "a \<notin> arena_pages c x" if "arenas s1 c = Some x" for c x using pa(5)[OF that] by blast
  have "a \<in> kused s1" using g(4) by blast
  then obtain s2 where s2: "new_arena i a s1 = Some s2" "heap_inv s2" "live s2 = live s1" "no_empty_but a s2"
    "free_list (descs s2 ! i) = map (blk s1 i a) [0..<blocks_per_arena (descs s1 ! i)]"
    "keeps s1 s2"
    using new_arena_ok[OF pa(1) i _ fr] pa(3) s(2) by blast
  have fl: "free_list (descs s2 ! i) = blk s1 i a 0 # map (blk s1 i a) [1..<blocks_per_arena (descs s1 ! i)]"
    unfolding s2(5) using n by (simp add: upt_conv_Cons)
  have i2: "i < length (descs s2)" using keeps_sizes(1)[OF s2(6)] i(1) by simp
  have n2: "n \<le> block_size (descs s2 ! i)" unfolding keeps_sizes(2)[OF s2(6) i(1)] using assms(3) pa(4) by simp
  obtain s' where s': "take_block i s2 = Some (blk s1 i a 0, s')" "heap_ok s'" "got n s2 (blk s1 i a 0) s'"
    using take_got[OF s2(2) i2 fl _ n2] s2(4) unfolding pg by blast
  have "keeps s s1" using heap_more[OF g(2)] by (intro keeps_same) simp_all
  then have "keeps s s2" by (rule keeps_trans[OF _ s2(6)])
  then have "got n s (blk s1 i a 0) s'"
    using s'(3) keeps_trans[of s s2 s'] unfolding got_def s2(3) pa(2) by (elim conjE, intro conjI) assumption+
  then show ?thesis using s2(1) s'(1,2) by blast
qed

lemma malloc_big_ok:
  assumes "heap_ok s" "0 < n" "n + ARENA_SIZE + PGSIZE - 1 < 2 ^ 32"
  shows "\<exists>p s'. malloc_big n s = Some (p, s') \<and> heap_ok s' \<and> (p = NULL \<and> s' = s \<or> got n s p s')"
proof -
  have s: "heap_inv s" "no_empty_arena s" using assms(1) by (simp_all add: heap_ok_def)
  define c where "c = (n + ARENA_SIZE + PGSIZE - 1) div PGSIZE"
  have "w32 n + w32 ARENA_SIZE + w32 PGSIZE - 1 = w32 (n + ARENA_SIZE + PGSIZE - 1)"
    by (simp add: ARENA_SIZE_def PGSIZE_def)
  then have "unat (w32 n + w32 ARENA_SIZE + w32 PGSIZE - 1) = n + ARENA_SIZE + PGSIZE - 1" using unat_w32[OF assms(3)] by simp
  then have c: "unat (w32 n + w32 ARENA_SIZE + w32 PGSIZE - 1) div PGSIZE = c" by (simp add: c_def)
  have cb: "n + ARENA_SIZE \<le> PGSIZE * c" "0 < c" using assms(2) by (simp_all add: c_def PGSIZE_def ARENA_SIZE_def div_greater_zero_iff)
  obtain a s1 where g: "palloc_get_multiple {} c s = Some (a, s1)" "pmem_ok s1" "pmem.more s1 = pmem.more s"
    "a = NULL \<and> s1 = s \<or> a \<noteq> NULL \<and> run a c \<inter> kused s = {} \<and> kused s1 = kused s \<union> run a c"
    using palloc_get_kernel[OF heap_invD(1)[OF s(1)] cb(2), of "{}"] by blast
  show ?thesis
  proof (cases "a = NULL")
    case True
    then show ?thesis using g(1,4) assms(1) by (simp add: malloc_big_def c)
  next
    case False
    let ?ar = "\<lparr>magic = ARENA_MAGIC, arena_desc = None, free_cnt = c\<rparr>"
    let ?s = "set_arena a (Some ?ar) s1"
    have r: "run a c \<inter> kused s = {}" "kused s1 = kused s \<union> run a c" using g(4) False by blast+
    note pa = page_arena[OF s(1) g(2,3) r(2,1)]
    have "a \<in> run a c" using cb(2) run_mem[of 0 c a] by simp
    then have add: "heap_inv ?s" "live ?s = live s1 \<union> arena_blocks s1 a ?ar"
      by (rule_tac [!] add_arena[OF pa(1)]; use pa(5) r(2) in \<open>simp add: arena_pages_def\<close>)+
    have none: "arenas s1 a = None" using fresh_arena[OF pa(1)] pa(5) \<open>a \<in> run a c\<close> by blast
    have "a + ARENA_SIZE \<notin> live s1"
    proof
      assume "a + ARENA_SIZE \<in> live s1"
      then obtain d x where d: "arenas s1 d = Some x" "live_in s1 d x (a + ARENA_SIZE)" unfolding live_iff by blast
      then have "pg_round_down (a + ARENA_SIZE) = d" using arena_blocks_page[OF pa(1) d(1)] by (simp add: live_in_def)
      moreover have "pg_round_down (a + ARENA_SIZE) = a" by (rule big_arena(2)[OF add(1), of a ?ar]) simp_all
      ultimately show False using none d(1) by simp
    qed
    moreover have "block_bytes (a + ARENA_SIZE) ?s = Some (PGSIZE * c - ARENA_SIZE)"
      using block_bytes_big[OF add(1), of a ?ar] by simp
    moreover have "keeps s ?s"
      by (rule keeps_trans[OF keeps_same keeps_add[OF none]]) (use heap_more[OF g(3)] in simp_all)
    ultimately have "got n s (a + ARENA_SIZE) ?s"
      using add(2) pa(2) cb(1) by (simp add: got_def arena_blocks_def)
    moreover have "no_empty_arena ?s"
      unfolding no_empty_arena_def
    proof (intro allI impI)
      fix d x j assume d: "arenas ?s d = Some x" "arena_desc x = Some j"
      then have "arenas s1 d = Some x" by (auto split: if_splits)
      then show "free_cnt x < blocks_per_arena (descs ?s ! j)" using pa(3) s(2) d(2) by (simp add: no_empty_arena_def)
    qed
    moreover have "malloc_big n s = Some (a + ARENA_SIZE, ?s)" using g(1) False by (simp add: malloc_big_def c)
    ultimately show ?thesis using add(1) by (auto simp: heap_ok_def)
  qed
qed

lemma malloc_ok:
  assumes "heap_ok s" "0 < n" "n + ARENA_SIZE + PGSIZE - 1 < 2 ^ 32"
  shows "\<exists>p s'. malloc n s = Some (p, s') \<and> heap_ok s' \<and> (p = NULL \<and> live s' = live s \<or> p \<noteq> NULL \<and> got n s p s')"
proof -
  have s: "heap_inv s" "no_empty_arena s" using assms(1) by (simp_all add: heap_ok_def)
  have nn: "p \<noteq> NULL" if "heap_inv s'" "got n t p s'" for p t s'
  proof -
    have "p \<in> live s'" using that(2) by (simp add: got_def)
    then obtain a x where a: "arenas s' a = Some x" "live_in s' a x p" unfolding live_iff by blast
    then have "a \<le> p" by (auto simp: live_in_def arena_blocks_def blk_def split: option.splits)
    then show ?thesis using arena_page(2)[OF that(1) a(1)] by (simp add: PHYS_BASE_def)
  qed
  show ?thesis
  proof (cases "find_desc n 0 (descs s)")
    case None
    then show ?thesis using malloc_big_ok[OF assms] nn assms(2) by (fastforce simp: malloc_def heap_ok_def)
  next
    case (Some i)
    then have i: "i < length (descs s)" "n \<le> block_size (descs s ! i)" using find_desc_Some[OF Some] by simp_all
    have m: "malloc n s = (if free_list (descs s ! i) = [] then do {
              (a, s) \<leftarrow> palloc_get_page {} s;
              if a = NULL then Some (NULL, s)
              else do { s \<leftarrow> new_arena i a s; take_block i s } }
            else take_block i s)" using Some assms(2) by (simp add: malloc_def)
    show ?thesis
    proof (cases "free_list (descs s ! i)")
      case (Cons b bs)
      have "no_empty_but (pg_round_down b) s" using s(2) by (simp add: no_empty_but_def no_empty_arena_def)
      then obtain s' where "take_block i s = Some (b, s')" "heap_ok s'" "got n s b s'"
        using take_got[OF s(1) i(1) Cons] i(2) by blast
      then show ?thesis using m Cons nn by (auto simp: heap_ok_def)
    next
      case Nil
      obtain a s1 where g: "palloc_get_page {} s = Some (a, s1)" "a = NULL \<longrightarrow> s1 = s"
        using palloc_get_kernel[OF heap_invD(1)[OF s(1)], of 1 "{}"] unfolding palloc_get_page_def by auto
      show ?thesis
      proof (cases "a = NULL")
        case True
        then show ?thesis using m Nil g assms(1) by simp
      next
        case False
        obtain s2 p s' where "new_arena i a s1 = Some s2" "take_block i s2 = Some (p, s')" "heap_ok s'" "got n s p s'"
          using malloc_small[OF assms(1) i Nil g(1) False] by blast
        then show ?thesis using m Nil g(1) False nn by (auto simp: heap_ok_def)
      qed
    qed
  qed
qed

lemma live_block_bytes:
  assumes "heap_inv s" "p \<in> live s"
  obtains a ar m where "arenas s a = Some ar" "block_to_arena p s = Some a" "block_bytes p s = Some m"
    "a \<le> p" "arena_desc ar = None \<Longrightarrow> p = a + ARENA_SIZE \<and> m = PGSIZE * free_cnt ar - ARENA_SIZE"
    "\<And>i. arena_desc ar = Some i \<Longrightarrow> m = block_size (descs s ! i) \<and> (\<exists>k < blocks_per_arena (descs s ! i). p = blk s i a k)"
  using assms(2)
proof (cases rule: liveE)
  case (big a ar)
  show ?thesis
    by (rule that[of a ar]) (use big big_arena(1)[OF assms(1) big(1,2)] block_bytes_big[OF assms(1) big(1,2)] in auto)
next
  case (small a ar i k)
  show ?thesis
  proof (rule that[of a ar])
    show "block_to_arena p s = Some a" unfolding small(4) by (rule blk_arena(2)[OF assms(1) small(1-3)])
    show "block_bytes p s = Some (block_size (descs s ! i))"
      by (rule block_bytes_blk[OF assms(1)]) (use blocks_ofI[OF small(1-3)] small(4) in simp)
    show "a \<le> p" using small(4) by (simp add: blk_def)
  qed (use small in auto)
qed

lemma free_big_ok:
  assumes "heap_ok s" and big: "arenas s a = Some ar" "arena_desc ar = None" "p = a + ARENA_SIZE"
  shows "\<exists>s'. mfree p s = Some s' \<and> heap_ok s' \<and> live s' = live s - {p}"
proof -
  have s: "heap_inv s" "no_empty_arena s" using assms(1) by (simp_all add: heap_ok_def)
  have ok: "arena_ok s a ar" by (rule heap_invD(3)[OF s(1) big(1)])
  then have r: "run a (free_cnt ar) \<subseteq> kused s" "a \<in> run a (free_cnt ar)" using big(2) by (simp_all add: arena_ok_def arena_pages_def)
  then have "0 < free_cnt ar" by (auto simp: run_def)
  then obtain s1 where f: "palloc_free_multiple a (free_cnt ar) s = Some s1" "pmem_ok s1" "pmem.more s1 = pmem.more s"
    "kused s1 = kused s - run a (free_cnt ar)" using palloc_free_kernel[OF heap_invD(1)[OF s(1)] r(1)] by blast
  have m: "descs s1 = descs s" "arenas s1 = arenas s" using heap_more[OF f(3)] by simp_all
  have free: "pg_round_down q \<noteq> a" if q: "i < length (descs s)" "q \<in> set (free_list (descs s ! i))" for i q
    using free_block_arena[OF s(1) q] big(1,2) by auto
  note rm = remove_arena[OF s(1) free]
  have sub: "arena_pages c x \<subseteq> kused (set_arena a None s1)" if "arenas (set_arena a None s) c = Some x" for c x
  proof -
    have c: "arenas s c = Some x" "c \<noteq> a" using that by (auto split: if_splits)
    have "arena_pages c x \<inter> run a (free_cnt ar) = {}"
      using heap_invD(4)[OF s(1) c(1) big(1) c(2)] big(2) by (simp add: arena_pages_def)
    moreover have "arena_pages c x \<subseteq> kused s" using heap_invD(3)[OF s(1) c(1)] by (simp add: arena_ok_def)
    ultimately show ?thesis using f(4) by auto
  qed
  have fin: "heap_inv (set_arena a None s1)" "live (set_arena a None s1) = live (set_arena a None s)"
    "no_empty_arena (set_arena a None s1) = no_empty_arena (set_arena a None s)"
    using heap_inv_pages[OF rm(1), where s' = "set_arena a None s1"] f(2) m sub by simp_all
  have "no_empty_arena (set_arena a None s)" using s(2) by (auto simp: no_empty_arena_def split: if_splits)
  moreover have "{q \<in> live s. pg_round_down q \<noteq> a} = live s - {p}"
  proof -
    have "pg_round_down q = a \<longleftrightarrow> q = p" if q: "q \<in> live s" for q
    proof -
      obtain c x where c: "arenas s c = Some x" "live_in s c x q" using q unfolding live_iff by blast
      have pg: "pg_round_down q = c" using arena_blocks_page[OF s(1) c(1)] c(2) by (simp add: live_in_def)
      have "q = p" if "c = a" using that c big by (simp add: live_in_def arena_blocks_def)
      moreover have "pg_round_down p = a" unfolding big(3) by (rule big_arena(2)[OF s(1) big(1,2)])
      ultimately show ?thesis using pg by blast
    qed
    then show ?thesis by blast
  qed
  moreover have pn: "p \<noteq> NULL" using big(3) by (simp add: ARENA_SIZE_def)
  have "mfree p s = Some (set_arena a None s1)"
    unfolding mfree_def if_not_P[OF pn] using big_arena(1)[OF s(1) big(1,2)] f(1) by (simp add: big)
  ultimately show ?thesis using fin rm(2) by (auto simp: heap_ok_def)
qed

lemma free_small_ok:
  assumes "heap_ok s" "p \<in> live s" and small: "arenas s a = Some ar" "arena_desc ar = Some i"
    "k < blocks_per_arena (descs s ! i)" "p = blk s i a k"
  shows "\<exists>s'. mfree p s = Some s' \<and> heap_ok s' \<and> live s' = live s - {p}"
proof -
  have s: "heap_inv s" "no_empty_arena s" using assms(1) by (simp_all add: heap_ok_def)
  let ?ar = "ar\<lparr>free_cnt := free_cnt ar + 1\<rparr>"
  let ?q = "put_bytes p (block_size (descs s ! i)) (\<lambda>_. 0xcccccccc) s"
  have q: "heap_inv ?q" "p \<in> live ?q" "arenas ?q a = Some ar" "k < blocks_per_arena (descs ?q ! i)" "p = blk ?q i a k"
    "no_empty_but a ?q" using s small assms(2) by (simp_all add: no_empty_but_def no_empty_arena_def)
  define t where "t = give_back ?q a ar i p"
  note g = give_back_ok[OF q(1,3) small(2) q(2,4,5,6), folded t_def]
  have bt: "block_to_arena p s = Some a" unfolding small(4) by (rule blk_arena(2)[OF s(1) small(1-3)])
  have pn: "p \<noteq> NULL" using small(4) by (simp add: blk_def ARENA_SIZE_def)
  have tb: "blocks_per_arena (descs t ! i) = blocks_per_arena (descs s ! i)" "arenas t a = Some ?ar"
    by (simp_all add: t_def give_back_def)
  have run: "mfree p s = (if free_cnt ar + 1 \<ge> blocks_per_arena (descs s ! i) then do {
      ASSERT (free_cnt ar + 1 = blocks_per_arena (descs s ! i)); drop_arena i a t } else Some t)"
    using pn bt small(1,2) tb unfolding mfree_def t_def give_back_def Let_def by simp
  have lt: "free_cnt ar < blocks_per_arena (descs s ! i)" using s(2) small(1,2) unfolding no_empty_arena_def by blast
  show ?thesis
  proof (cases "free_cnt ar + 1 = blocks_per_arena (descs s ! i)")
    case True
    obtain s' where "drop_arena i a t = Some s'" "heap_ok s'" "live s' = live t"
      using drop_arena_ok[OF g(1) tb(2) _ _ g(3), of i] small(2) True tb(1) by auto
    then show ?thesis using run True g(2) by simp
  next
    case False
    then have "heap_ok t" using g(1,4) lt by (simp add: heap_ok_def)
    then show ?thesis using run False lt g(2) by simp
  qed
qed

lemma free_ok:
  assumes "heap_ok s" "p \<in> live s"
  shows "\<exists>s'. mfree p s = Some s' \<and> heap_ok s' \<and> live s' = live s - {p}"
  using assms(2)
proof (cases rule: liveE)
  case (big a ar)
  then show ?thesis by (rule free_big_ok[OF assms(1)])
next
  case (small a ar i k)
  show ?thesis by (rule free_small_ok[OF assms small(1-4)])
qed

text \<open>Different blocks in use share no byte.\<close>

definition arena_bytes :: "nat \<Rightarrow> arena \<Rightarrow> nat set" where
  "arena_bytes a ar = {a..<a + PGSIZE * (case arena_desc ar of None \<Rightarrow> free_cnt ar | Some _ \<Rightarrow> 1)}"

lemma arena_bytes_pages:
  assumes "heap_inv s" "arenas s a = Some ar" "x \<in> arena_bytes a ar"
  shows "pg_round_down x \<in> arena_pages a ar"
proof -
  define n where "n = (case arena_desc ar of None \<Rightarrow> free_cnt ar | Some _ \<Rightarrow> 1)"
  have pages: "arena_pages a ar = run a n" by (auto simp: arena_pages_def n_def split: option.splits)
  define r where "r = x - a"
  have x: "x = a + r" "r < PGSIZE * n" using assms(3) by (auto simp: arena_bytes_def n_def[symmetric] r_def)
  let ?b = "a + PGSIZE * (r div PGSIZE)"
  have run: "?b \<in> run a n" using x(2) by (intro run_mem) (simp add: less_mult_imp_div_less mult.commute)
  moreover have "run a n \<subseteq> used s" using heap_invD(3)[OF assms(1,2)] by (auto simp: arena_ok_def pages[symmetric] used_def)
  ultimately have b: "?b \<in> used s" by blast
  have "x = ?b + r mod PGSIZE" using x(1) by simp
  moreover have "pg_round_down (?b + r mod PGSIZE) = ?b"
    using in_page(1)[OF used_page(1,3)[OF heap_invD(1)[OF assms(1)] b], of "r mod PGSIZE"] by (simp add: PGSIZE_def)
  ultimately show ?thesis using run pages by simp
qed

lemma block_in_arena:
  assumes "heap_inv s" "arenas s a = Some ar" "live_in s a ar p" "block_bytes p s = Some m"
  shows "{p..<p + m} \<subseteq> arena_bytes a ar"
proof (cases "arena_desc ar")
  case None
  then have "p = a + ARENA_SIZE" using assms(3) by (simp add: live_in_def arena_blocks_def)
  then show ?thesis using assms(4) block_bytes_big[OF assms(1,2) None] None by (auto simp: arena_bytes_def)
next
  case (Some i)
  obtain k where k: "k < blocks_per_arena (descs s ! i)" "p = blk s i a k" using assms(3) Some by (auto simp: live_in_def arena_blocks_def)
  have "block_bytes p s = Some (block_size (descs s ! i))"
    by (rule block_bytes_blk[OF assms(1)]) (use blocks_ofI[OF assms(2) Some k(1)] k(2) in simp)
  then have m: "m = block_size (descs s ! i)" using assms(4) by simp
  show ?thesis
    using blk_bound(1)[OF small_arena(2)[OF assms(1,2) Some] k(1)] Some unfolding k(2) m blk_def arena_bytes_def by auto
qed

lemma block_in_pages:
  assumes "heap_inv s" "arenas s a = Some ar" "live_in s a ar p" "block_bytes p s = Some m" "x \<in> {p..<p + m}"
  shows "pg_round_down x \<in> arena_pages a ar"
  using arena_bytes_pages[OF assms(1,2)] block_in_arena[OF assms(1-4)] assms(5) by blast

lemma live_disjoint:
  assumes "heap_inv s" "p \<in> live s" "q \<in> live s" "p \<noteq> q" "block_bytes p s = Some m" "block_bytes q s = Some n"
  shows "{p..<p + m} \<inter> {q..<q + n} = {}"
proof -
  obtain a x where a: "arenas s a = Some x" "live_in s a x p" using assms(2) unfolding live_iff by blast
  obtain b y where b: "arenas s b = Some y" "live_in s b y q" using assms(3) unfolding live_iff by blast
  show ?thesis
  proof (cases "a = b")
    case False
    then have "arena_pages a x \<inter> arena_pages b y = {}" by (rule heap_invD(4)[OF assms(1) a(1) b(1)])
    then show ?thesis using block_in_pages[OF assms(1) a assms(5)] block_in_pages[OF assms(1) b assms(6)] by blast
  next
    case True
    then have y: "y = x" using a(1) b(1) by simp
    then obtain i where i: "arena_desc x = Some i"
      using a(2) b(2) True assms(4) by (cases "arena_desc x") (auto simp: live_in_def arena_blocks_def)
    have "p \<in> arena_blocks s a x" "q \<in> arena_blocks s a x" using a(2) b(2) True y by (simp_all add: live_in_def)
    then obtain k l where k: "k < blocks_per_arena (descs s ! i)" "p = blk s i a k" "l < blocks_per_arena (descs s ! i)" "q = blk s i a l"
      using i by (auto simp: arena_blocks_def)
    let ?z = "block_size (descs s ! i)"
    have "m = ?z" using block_bytes_blk[OF assms(1) blocks_ofI[OF a(1) i k(1)], folded k(2)] assms(5) by simp
    moreover have "n = ?z" using block_bytes_blk[OF assms(1) blocks_ofI[OF a(1) i k(3)], folded k(4)] assms(6) by simp
    moreover have "k < l \<or> l < k" using assms(4) k(2,4) by (cases k l rule: linorder_cases) auto
    then have "(k + 1) * ?z \<le> l * ?z \<or> (l + 1) * ?z \<le> k * ?z"
      using mult_le_mono1[of "k + 1" l ?z] mult_le_mono1[of "l + 1" k ?z] by linarith
    ultimately show ?thesis unfolding k(2,4) blk_def by auto
  qed
qed

lemma block_to_arena_page: "block_to_arena p s = Some a \<Longrightarrow> pg_round_down p = a"
  by (auto simp: block_to_arena_def bind_eq_Some_conv Let_def split: option.splits)

lemma live_arena:
  assumes "heap_inv s" "q \<in> live s"
  obtains y where "arenas s (pg_round_down q) = Some y" "live_in s (pg_round_down q) y q"
proof -
  obtain b y where b: "arenas s b = Some y" "live_in s b y q" using assms(2) unfolding live_iff by blast
  have "pg_round_down q = b" using arena_blocks_page[OF assms(1) b(1)] b(2) by (simp add: live_in_def)
  then show ?thesis using b that by simp
qed

lemma block_bytes_live:
  assumes "heap_inv s" "arenas s a = Some y" "live_in s a y q"
  shows "block_bytes q s = Some (case arena_desc y of None \<Rightarrow> PGSIZE * free_cnt y - ARENA_SIZE | Some i \<Rightarrow> block_size (descs s ! i))"
proof (cases "arena_desc y")
  case None
  then show ?thesis using block_bytes_big[OF assms(1,2) None] assms(3) by (simp add: live_in_def arena_blocks_def)
next
  case (Some i)
  obtain k where "k < blocks_per_arena (descs s ! i)" "q = blk s i a k" using assms(3) Some by (auto simp: live_in_def arena_blocks_def)
  then have "q \<in> blocks_of s i" using blocks_ofI[OF assms(2) Some] by simp
  then show ?thesis using block_bytes_blk[OF assms(1)] Some by simp
qed

section \<open>The empty heap\<close>

lemma malloc_init_descs:
  "malloc_init_loop 16 [] = Some (map (\<lambda>b. \<lparr>block_size = b, blocks_per_arena = (4096 - 12) div b, free_list = []\<rparr>)
     [16, 32, 64, 128, 256, 512, 1024])"
  by (simp del: malloc_init_loop.simps add: PGSIZE_def ARENA_SIZE_def malloc_init_loop.simps[of 16] malloc_init_loop.simps[of 32]
      malloc_init_loop.simps[of 64] malloc_init_loop.simps[of 128] malloc_init_loop.simps[of 256] malloc_init_loop.simps[of 512]
      malloc_init_loop.simps[of 1024] malloc_init_loop.simps[of 2048])

lemma malloc_init_ok:
  assumes "pmem_ok s" "arenas s = (\<lambda>_. None)"
  shows "\<exists>s'. malloc_init s = Some s' \<and> heap_ok s' \<and> live s' = {}"
proof -
  let ?ds = "map (\<lambda>b. \<lparr>block_size = b, blocks_per_arena = (4096 - 12) div b, free_list = []\<rparr>) [16, 32, 64, 128, 256, 512, 1024]"
  let ?s = "s\<lparr>descs := ?ds\<rparr>"
  have all: "\<forall>d \<in> set (descs ?s). desc_ok d \<and> free_list d = []" by (simp add: desc_ok_def PGSIZE_def ARENA_SIZE_def)
  then have d: "\<forall>d \<in> set (descs ?s). desc_ok d" by blast
  have fl: "free_list (descs ?s ! i) = []" if "i < length (descs ?s)" for i using all nth_mem[OF that] by blast
  have p: "pmem_ok ?s" using assms(1) by (simp add: pmem_ok_def)
  have "heap_inv ?s" unfolding heap_inv_def
  proof (intro conjI allI impI ballI)
    fix i b assume i: "i < length (descs ?s)" "b \<in> set (free_list (descs ?s ! i))"
    have "b \<in> set []" using i(2) unfolding fl[OF i(1)] .
    then show "\<exists>a ar k. arenas ?s a = Some ar \<and> arena_desc ar = Some i \<and> k < blocks_per_arena (descs ?s ! i) \<and> b = blk ?s i a k"
      unfolding list.set(1) by (rule emptyE)
  next
    fix i assume i: "i < length (descs ?s)"
    show "distinct (free_list (descs ?s ! i))" unfolding fl[OF i] by simp
  qed (use d p assms(2) in auto)
  moreover have "no_empty_arena ?s" using assms(2) by (simp add: no_empty_arena_def)
  moreover have "live ?s = {}" using assms(2) by (simp add: live_def)
  moreover have "malloc_init s = Some ?s" unfolding malloc_init_def malloc_init_descs by simp
  ultimately show ?thesis unfolding heap_ok_def by blast
qed

end
