(* ===== verification/MallocFrame.thy ===== *)
theory MallocFrame
  imports MallocInv
begin

text \<open>
  What the block allocator does to the contents of memory: \<open>malloc\<close> writes to no block, \<open>free\<close> only to the
  block it is given (and to the pages that go back), so that \<open>realloc\<close> keeps the contents of a block.
\<close>

lemma for_upto_keeps:
  assumes "for_upto a b f s = Some s'" "\<And>i s s'. f i s = Some s' \<Longrightarrow> g s' = g s"
  shows "g s' = g s"
  using assms
proof (induction a b f s rule: for_upto.induct)
  case (1 a b f s)
  show ?case
  proof (cases "a < b")
    case True
    obtain s1 where s1: "f a s = Some s1" "for_upto (Suc a) b f s1 = Some s'"
      using "1.prems"(1) True by (auto simp: for_upto.simps[of a b f s] bind_eq_Some_conv)
    have "g s' = g s1" by (rule "1.IH"[OF True s1 "1.prems"(2)])
    also have "\<dots> = g s" by (rule "1.prems"(2)[OF s1(1)])
    finally show ?thesis .
  qed (use "1.prems" in simp)
qed

text \<open>What the model's operations leave alone: the words and the block sizes.\<close>

abbreviation sizes :: "heap \<Rightarrow> nat list" where "sizes s \<equiv> map block_size (descs s)"

lemma map_block_size_update: "block_size d = block_size (ds ! i) \<Longrightarrow> map block_size (ds[i := d]) = map block_size ds"
  by (cases "i < length ds") (simp_all add: map_update list_update_same_conv list_update_beyond)

lemma frame_simps [simp]:
  "words (set_free_list i bs s) = words s" "words (set_arena a x s) = words s"
  "sizes (set_free_list i bs s) = sizes s" "sizes (set_arena a x s) = sizes s" "sizes (put_bytes p n v s) = sizes s"
  by (simp_all add: set_free_list_def set_arena_def put_bytes_def map_block_size_update)

lemma new_arena_words: "new_arena i a s = Some s' \<Longrightarrow> words s' = words s"
  unfolding new_arena_def Let_def by (drule for_upto_keeps[where g = words]) (auto simp: bind_eq_Some_conv)

lemma take_block_words: "take_block i s = Some (b, s') \<Longrightarrow> words s' = words s"
  by (auto simp: take_block_def bind_eq_Some_conv Let_def split: list.splits)

lemma malloc_words: "malloc n s = Some (p, s') \<Longrightarrow> words s' = words s"
  by (auto simp: malloc_def malloc_big_def palloc_get_page_def bind_eq_Some_conv Let_def
      dest!: new_arena_words take_block_words palloc_get_frame(1) split: if_splits option.splits)

lemma drop_loop_frame:
  assumes "for_upto 0 n (\<lambda>k s. do {
       b \<leftarrow> arena_to_block a k s;
       ASSERT (b \<in> set (free_list (descs s ! i)));
       Some (set_free_list i (remove1 b (free_list (descs s ! i))) s) }) s = Some s'"
  shows "words s' = words s" "sizes s' = sizes s" "arenas s' = arenas s"
  using assms by - (drule for_upto_keeps[where g = words] for_upto_keeps[where g = sizes] for_upto_keeps[where g = arenas],
    auto simp: bind_eq_Some_conv)+

lemma drop_arena_frame:
  assumes "drop_arena i a s = Some s'"
  shows "\<not> (a \<le> x \<and> x < a + PGSIZE) \<Longrightarrow> words s' x = words s x" "sizes s' = sizes s" "arenas s' = (arenas s)(a := None)"
proof -
  obtain s1 s2 where s: "for_upto 0 (blocks_per_arena (descs s ! i)) (\<lambda>k s. do {
       b \<leftarrow> arena_to_block a k s;
       ASSERT (b \<in> set (free_list (descs s ! i)));
       Some (set_free_list i (remove1 b (free_list (descs s ! i))) s) }) s = Some s1"
    "palloc_free_multiple a 1 s1 = Some s2" "s' = set_arena a None s2"
    using assms by (auto simp: drop_arena_def palloc_free_page_def bind_eq_Some_conv)
  note f = drop_loop_frame[OF s(1)] and g = palloc_free_frame[OF s(2)]
  show "\<not> (a \<le> x \<and> x < a + PGSIZE) \<Longrightarrow> words s' x = words s x" using f(1) g(1)[of x] s(3) by simp
  show "sizes s' = sizes s" "arenas s' = (arenas s)(a := None)" using f(2,3) heap_more[OF g(2)] s(3) by simp_all
qed

text \<open>\<open>free\<close> writes inside the block, and in the pages of its arena when they go back.\<close>

lemma mfree_frame:
  assumes "mfree p s = Some s'" "p \<noteq> NULL" "block_to_arena p s = Some a" "arenas s a = Some ar" "block_bytes p s = Some m"
  shows "sizes s' = sizes s" "c \<noteq> a \<Longrightarrow> arenas s' c = arenas s c"
    "arenas s' a = None \<or> (\<exists>y. arenas s' a = Some y \<and> arena_desc y = arena_desc ar \<and> arena_desc ar \<noteq> None)"
    "x \<notin> {p..<p + m} \<Longrightarrow> arenas s' a = None \<Longrightarrow>
       x \<notin> arena_bytes a ar \<Longrightarrow> words s' x = words s x"
    "x \<notin> {p..<p + m} \<Longrightarrow> arenas s' a \<noteq> None \<Longrightarrow> words s' x = words s x"
proof -
  have "sizes s' = sizes s \<and> (c \<noteq> a \<longrightarrow> arenas s' c = arenas s c)
    \<and> (arenas s' a = None \<or> (\<exists>y. arenas s' a = Some y \<and> arena_desc y = arena_desc ar \<and> arena_desc ar \<noteq> None))
    \<and> (x \<notin> {p..<p + m} \<longrightarrow> arenas s' a = None \<longrightarrow>
       x \<notin> arena_bytes a ar \<longrightarrow> words s' x = words s x)
    \<and> (x \<notin> {p..<p + m} \<longrightarrow> arenas s' a \<noteq> None \<longrightarrow> words s' x = words s x)"
  proof (cases "arena_desc ar")
    case None
    obtain s1 where s1: "palloc_free_multiple a (free_cnt ar) s = Some s1" "s' = set_arena a None s1"
      using assms(1) unfolding mfree_def if_not_P[OF assms(2)] by (auto simp: assms(3,4) None bind_eq_Some_conv)
    show ?thesis using palloc_free_frame(1)[OF s1(1), of x] heap_more[OF palloc_free_frame(2)[OF s1(1)]] None s1(2) by (simp add: arena_bytes_def)
  next
    case (Some i)
    define q where "q = put_bytes p (block_size (descs s ! i)) (\<lambda>_. 0xcccccccc) s"
    define t where "t = give_back q a ar i p"
    have t: "sizes t = sizes s" "arenas t = (arenas s)(a \<mapsto> ar\<lparr>free_cnt := free_cnt ar + 1\<rparr>)" "words t = words q"
      by (simp_all add: t_def give_back_def q_def)
    have m: "m = block_size (descs s ! i)" using assms(3-5) Some by (simp add: block_bytes_def)
    have w: "x \<notin> {p..<p + m} \<Longrightarrow> words q x = words s x" by (auto simp: q_def put_bytes_def m)
    have "s' = t \<or> drop_arena i a t = Some s'"
      using assms(1) unfolding mfree_def if_not_P[OF assms(2)]
      by (auto simp: assms(3,4) Some t_def give_back_def q_def bind_eq_Some_conv Let_def split: if_splits)
    then show ?thesis
    proof
      assume "s' = t"
      then show ?thesis using t w Some by auto
    next
      assume d: "drop_arena i a t = Some s'"
      show ?thesis using drop_arena_frame(1)[OF d, of x] drop_arena_frame(2,3)[OF d] t w Some by (auto simp: arena_bytes_def)
    qed
  qed
  then show "sizes s' = sizes s" "c \<noteq> a \<Longrightarrow> arenas s' c = arenas s c"
    "arenas s' a = None \<or> (\<exists>y. arenas s' a = Some y \<and> arena_desc y = arena_desc ar \<and> arena_desc ar \<noteq> None)"
    "x \<notin> {p..<p + m} \<Longrightarrow> arenas s' a = None \<Longrightarrow>
       x \<notin> arena_bytes a ar \<Longrightarrow> words s' x = words s x"
    "x \<notin> {p..<p + m} \<Longrightarrow> arenas s' a \<noteq> None \<Longrightarrow> words s' x = words s x" by blast+
qed

lemma free_keeps_block:
  assumes "heap_ok s" "p \<in> live s" "mfree p s = Some s'" "q \<in> live s" "q \<noteq> p" "block_bytes q s = Some n"
  shows "block_bytes q s' = Some n" "x \<in> {q..<q + n} \<Longrightarrow> words s' x = words s x"
proof -
  have s: "heap_inv s" using assms(1) by (simp add: heap_ok_def)
  have s': "heap_inv s'" "q \<in> live s'" using free_ok[OF assms(1,2)] assms(3-5) by (auto simp: heap_ok_def)
  obtain a ar m where a: "arenas s a = Some ar" "block_to_arena p s = Some a" "block_bytes p s = Some m" "a \<le> p"
    by (rule live_block_bytes[OF s assms(2)])
  have pn: "p \<noteq> NULL" using arena_page(4)[OF s a(1)] a(4) by auto
  let ?b = "pg_round_down q"
  obtain y where y: "arenas s ?b = Some y" "live_in s ?b y q" using live_arena[OF s assms(4)] .
  obtain y' where y': "arenas s' ?b = Some y'" "live_in s' ?b y' q" using live_arena[OF s'] .
  note fr = mfree_frame[OF assms(3) pn a(2,1,3)]
  have yy: "arena_desc y' = arena_desc y \<and> (arena_desc y = None \<longrightarrow> y' = y)"
  proof (cases "?b = a")
    case True
    then show ?thesis using fr(3) y'(1) y(1) a(1) by auto
  next
    case False
    then show ?thesis using fr(2)[OF False] y'(1) y(1) by simp
  qed
  have len: "length (descs s') = length (descs s)" by (rule map_eq_imp_length_eq[OF fr(1)])
  have sz: "block_size (descs s' ! i) = block_size (descs s ! i)" if "i < length (descs s)" for i
    using arg_cong[OF fr(1), of "\<lambda>xs. xs ! i"] that len by simp
  show "block_bytes q s' = Some n"
    using block_bytes_live[OF s'(1) y'] block_bytes_live[OF s y] assms(6) yy sz small_arena(1)[OF s y(1)]
    by (cases "arena_desc y") auto
  assume x: "x \<in> {q..<q + n}"
  have xp: "x \<notin> {p..<p + m}" using live_disjoint[OF s assms(2,4) assms(5)[symmetric] a(3) assms(6)] x by blast
  show "words s' x = words s x"
  proof (cases "arenas s' a = None")
    case True
    then have ne: "?b \<noteq> a" using y'(1) by auto
    have "pg_round_down x \<in> arena_pages ?b y" by (rule block_in_pages[OF s y assms(6) x])
    then have "pg_round_down x \<notin> arena_pages a ar" using heap_invD(4)[OF s y(1) a(1) ne] by blast
    then have "x \<notin> arena_bytes a ar" using arena_bytes_pages[OF s a(1)] by blast
    then show ?thesis by (rule fr(4)[OF xp True])
  next
    case False
    then show ?thesis by (rule fr(5)[OF xp])
  qed
qed

lemma keeps_block_bytes:
  assumes "heap_inv s" "heap_inv s'" "keeps s s'" "q \<in> live s" "q \<in> live s'"
  shows "block_bytes q s' = block_bytes q s"
proof -
  obtain y where y: "arenas s (pg_round_down q) = Some y" "live_in s (pg_round_down q) y q" using live_arena[OF assms(1,4)] .
  obtain y' where y': "arenas s' (pg_round_down q) = Some y'" "live_in s' (pg_round_down q) y' q" using live_arena[OF assms(2,5)] .
  have "arena_desc y' = arena_desc y \<and> (arena_desc y = None \<longrightarrow> y' = y)" using assms(3) y(1) y'(1) by (fastforce simp: keeps_def)
  then show ?thesis
    using block_bytes_live[OF assms(1) y] block_bytes_live[OF assms(2) y'] keeps_sizes(2)[OF assms(3)] small_arena(1)[OF assms(1) y(1)]
    by (cases "arena_desc y") auto
qed

lemma put_bytes_words:
  "x + 4 \<le> n \<Longrightarrow> words (put_bytes p n v s) (p + x) = v (p + x)"
  "x \<notin> {p..<p + n} \<Longrightarrow> words (put_bytes p n v s) x = words s x"
  by (auto simp: put_bytes_def)

lemma put_bytes_heap_ok [simp]:
  "heap_ok (put_bytes p n v s) = heap_ok s" "block_bytes q (put_bytes p n v s) = block_bytes q s"
  using block_to_arena_cong[of "put_bytes p n v s" s q]
  by (simp_all add: heap_ok_def block_bytes_def cong: option.case_cong)

lemma realloc_ok:
  assumes "heap_ok s" "old \<in> live s" "block_bytes old s = Some m" "0 < n" "n + ARENA_SIZE + PGSIZE - 1 < 2 ^ 32"
  shows "\<exists>p s'. realloc old n s = Some (p, s') \<and> heap_ok s' \<and> (p = NULL \<and> live s' = live s \<and> words s' = words s
    \<or> p \<noteq> NULL \<and> p \<notin> live s \<and> live s' = insert p (live s - {old}) \<and> (\<exists>k. block_bytes p s' = Some k \<and> n \<le> k)
      \<and> (\<forall>x. x + 4 \<le> min n m \<longrightarrow> words s' (p + x) = words s (old + x)))"
proof -
  obtain p s1 where a: "malloc n s = Some (p, s1)" "heap_ok s1" "p = NULL \<and> live s1 = live s \<or> p \<noteq> NULL \<and> got n s p s1"
    using malloc_ok[OF assms(1,4,5)] by blast
  note w = malloc_words[OF a(1)]
  show ?thesis
  proof (cases "p = NULL")
    case True
    then have "realloc old n s = Some (NULL, s1)" using a(1) assms(4) by (simp add: realloc_def)
    then show ?thesis using True a(2,3) w by (auto simp: got_def)
  next
    case False
    have g: "p \<notin> live s" "live s1 = insert p (live s)" "keeps s s1" using a(3) False by (auto simp: got_def)
    obtain k where k: "block_bytes p s1 = Some k" "n \<le> k" using a(3) False by (auto simp: got_def)
    have h: "heap_inv s" "heap_inv s1" using assms(1) a(2) by (simp_all add: heap_ok_def)
    have o1: "old \<in> live s1" "old \<noteq> p" "p \<in> live s1" using g(1,2) assms(2) by auto
    obtain oa oar where oa: "arenas s oa = Some oar" "oa \<le> old" by (rule live_block_bytes[OF h(1) assms(2)])
    have "old \<noteq> NULL" using arena_page(4)[OF h(1) oa(1)] oa(2) by auto
    have om: "block_bytes old s1 = Some m" using keeps_block_bytes[OF h g(3) assms(2) o1(1)] assms(3) by simp
    define c where "c = put_bytes p (min n m) (\<lambda>x. words s1 (old + (x - p))) s1"
    have "heap_ok c" "old \<in> live c" using a(2) o1(1) by (simp_all add: c_def)
    then obtain s' where f: "mfree old c = Some s'" "heap_ok s'" "live s' = live c - {old}" using free_ok by blast
    have cb: "block_bytes p c = Some k" "p \<in> live c" using k(1) o1(3) by (simp_all add: c_def)
    note fk = free_keeps_block[OF \<open>heap_ok c\<close> \<open>old \<in> live c\<close> f(1) cb(2) o1(2)[symmetric] cb(1)]
    have "words s' (p + x) = words s (old + x)" if x: "x + 4 \<le> min n m" for x
    proof -
      have "p + x \<in> {p..<p + k}" using x k(2) by simp
      then have "words s' (p + x) = words c (p + x)" by (rule fk(2))
      then show ?thesis using put_bytes_words(1)[OF x] w by (simp add: c_def)
    qed
    moreover have "live s' = insert p (live s - {old})" using f(3) g(2) o1(2) by (auto simp: c_def)
    moreover have "realloc old n s = Some (p, s')"
    proof -
      have mn: "(if n < m then n else m) = min n m" by simp
      have "realloc old n s = do { s \<leftarrow> mfree old c; Some (p, s) }"
        using a(1) assms(4) False \<open>old \<noteq> NULL\<close> om by (simp only: realloc_def Let_def mn c_def Option.bind.bind_lunit prod.case) simp
      then show ?thesis using f(1) by simp
    qed
    ultimately show ?thesis using f(2) fk(1) k(2) False g(1) by blast
  qed
qed

lemma calloc_ok:
  assumes "heap_ok s" "0 < a" "0 < b" "a * b + ARENA_SIZE + PGSIZE - 1 < 2 ^ 32"
  shows "\<exists>p s'. calloc a b s = Some (p, s') \<and> heap_ok s' \<and> (p = NULL \<and> live s' = live s \<and> words s' = words s
    \<or> p \<noteq> NULL \<and> p \<notin> live s \<and> live s' = insert p (live s) \<and> (\<exists>k. block_bytes p s' = Some k \<and> a * b \<le> k)
      \<and> (\<forall>x. x + 4 \<le> a * b \<longrightarrow> words s' (p + x) = 0))"
proof -
  have m: "a * b mod 2 ^ 32 = a * b" using assms(4) by (intro mod_less) (simp add: PGSIZE_def)
  have le: "\<not> (a * b < a \<or> a * b < b)" using assms(2,3) by simp
  obtain p s1 where g: "malloc (a * b) s = Some (p, s1)" "heap_ok s1" "p = NULL \<and> live s1 = live s \<or> p \<noteq> NULL \<and> got (a * b) s p s1"
    using malloc_ok[OF assms(1) _ assms(4)] assms(2,3) by auto
  have c: "calloc a b s = Some (p, if p \<noteq> NULL then put_bytes p (a * b) (\<lambda>_. 0) s1 else s1)"
    unfolding calloc_def Let_def m if_not_P[OF le] g(1) by simp
  show ?thesis
  proof (cases "p = NULL")
    case True
    then show ?thesis using c g(2,3) malloc_words[OF g(1)] by (auto simp: got_def)
  next
    case False
    then have "got (a * b) s p s1" using g(3) by blast
    then show ?thesis using c False g(2) by (auto simp: got_def put_bytes_words(1))
  qed
qed

section \<open>A small heap\<close>

text \<open>Four pages of kernel memory, initialized and with one block in use.\<close>

definition raw_heap :: heap where
  "raw_heap = \<lparr>kernel_pool = \<lparr>used_map = \<lparr>bit_cnt = 4, bits = [0]\<rparr>, base = 0xc0101000\<rparr>,
     user_pool = \<lparr>used_map = \<lparr>bit_cnt = 4, bits = [0]\<rparr>, base = 0xc0106000\<rparr>,
     words = (\<lambda>_. 0), descs = [], arenas = (\<lambda>_. None)\<rparr>"

definition small_heap :: heap where "small_heap = the (malloc_init raw_heap)"
definition one_block :: "addr \<times> heap" where "one_block = the (malloc 100 small_heap)"

lemma small_heap_ok: "heap_ok small_heap" "live small_heap = {}"
proof -
  have "pmem_ok raw_heap"
    by (simp add: pmem_ok_def pool_ok_def pool_end_def raw_heap_def bm_ok_def elem_cnt_def ELEM_BITS_def
        DIV_ROUND_UP_def BITMAP_ERROR_def PGSIZE_def PHYS_BASE_def)
  moreover have "arenas raw_heap = (\<lambda>_. None)" by (simp add: raw_heap_def)
  ultimately show "heap_ok small_heap" "live small_heap = {}" using malloc_init_ok unfolding small_heap_def by (metis option.sel)+
qed

end
