(* ===== verification/MmAlloc.thy ===== *)
theory MmAlloc
  imports Bytes
begin

text \<open>
  hw-memory/mm_alloc/mm_alloc.c, the allocator of the memory homework, on a byte memory with 64-bit
  pointers: a block's header is its size, the links and the flag \<open>free\<close>, and the data begin at offset 28,
  before the end of the 32-byte structure.  The break moves within fixed limits, and new memory is zero.

  The list of blocks lies in the order of the addresses; allocation that does not split a block and
  \<open>mm_free\<close> with its merging keep that, and leave the data of the other blocks alone.  Splitting puts the
  header of the rest inside the block it returns.
\<close>

section \<open>The code\<close>

definition add64 :: "nat \<Rightarrow> nat \<Rightarrow> nat" where "add64 a b = (a + b) mod 2 ^ 64"
definition sub64 :: "nat \<Rightarrow> nat \<Rightarrow> nat" where "sub64 a b = nat ((int a - int b) mod 2 ^ 64)"

text \<open>The members of \<open>struct block\<close> by their offsets.\<close>

definition SIZEOF_BLOCK :: nat where "SIZEOF_BLOCK = 32"
definition off_next :: nat where "off_next = 8"
definition off_free :: nat where "off_free = 24"
definition off_data :: nat where "off_data = 28"

record mmheap =
  hmem :: mem
  brk_min :: addr
  brk :: addr
  brk_max :: addr
  mm_head :: addr

definition sbrk :: "int \<Rightarrow> mmheap \<Rightarrow> addr option \<times> mmheap" where
  "sbrk n h = (
     let new = int (brk h) + n in
     if int (brk_min h) \<le> new \<and> new \<le> int (brk_max h)
     then (Some (brk h), h\<lparr>brk := nat new, hmem := \<lambda>x. if brk h \<le> x \<and> x < nat new then Some 0
             else if nat new \<le> x \<and> x < brk h then None else hmem h x\<rparr>)
     else (None, h))"

text \<open>The walk over the list: the block that is taken, or the last block of the list.\<close>

partial_function (option) mm_fit :: "nat \<Rightarrow> addr \<Rightarrow> addr \<Rightarrow> mem \<Rightarrow> (addr + addr) option" where
  "mm_fit sz cur prev m = (
     if cur = NULL then Some (Inr prev)
     else do {
       f \<leftarrow> ld32 (cur + off_free) m;
       fit \<leftarrow> (if f \<noteq> 0 then do { s \<leftarrow> ld64 cur m; Some (sz \<le> s) } else Some False);
       if fit then Some (Inl cur)
       else do { next \<leftarrow> ld64 (cur + off_next) m; mm_fit sz next cur m } })"

definition mm_split :: "nat \<Rightarrow> addr \<Rightarrow> mem \<Rightarrow> mem option" where
  "mm_split sz cur m = do {
     let split = cur + sz;
     s \<leftarrow> ld64 cur m;
     m \<leftarrow> st64 split (sub64 (sub64 s sz) SIZEOF_BLOCK) m;
     m \<leftarrow> st32 (split + off_free) 1 m;
     next \<leftarrow> ld64 (cur + off_next) m;
     m \<leftarrow> st64 (split + off_next) next m;
     m \<leftarrow> st64 cur sz m;
     m \<leftarrow> st64 (cur + off_next) split m;
     st32 (cur + off_free) 0 m }"

definition mm_malloc :: "nat \<Rightarrow> mmheap \<Rightarrow> (addr \<times> mmheap) option" where
  "mm_malloc sz h = (
     if sz = 0 then Some (NULL, h)
     else case sbrk (sint (word_of_nat (add64 sz SIZEOF_BLOCK) :: 64 word)) h of
       (None, h) \<Rightarrow> Some (NULL, h)
     | (Some new_block, h) \<Rightarrow> do {
         m \<leftarrow> memset_loop (add64 sz SIZEOF_BLOCK) new_block 0 (hmem h);
         m \<leftarrow> st64 new_block sz m;
         m \<leftarrow> st32 (new_block + off_free) 1 m;
         if mm_head h = NULL then do {
           m \<leftarrow> st32 (new_block + off_free) 0 m;
           Some (new_block + off_data, h\<lparr>hmem := m, mm_head := new_block\<rparr>) }
         else do {
           r \<leftarrow> mm_fit sz (mm_head h) NULL m;
           case r of
             Inl cur \<Rightarrow> do {
               s \<leftarrow> ld64 cur m;
               m \<leftarrow> (if s \<le> add64 sz SIZEOF_BLOCK then st32 (cur + off_free) 0 m else mm_split sz cur m);
               Some (cur + off_data, h\<lparr>hmem := m\<rparr>) }
           | Inr prev \<Rightarrow> do {
               m \<leftarrow> st64 (prev + off_next) new_block m;
               m \<leftarrow> st64 (new_block + off_next) NULL m;
               m \<leftarrow> st32 (new_block + off_free) 0 m;
               Some (new_block + off_data, h\<lparr>hmem := m\<rparr>) } } })"

text \<open>A block takes over its successor.\<close>

definition mm_merge :: "addr \<Rightarrow> addr \<Rightarrow> mem \<Rightarrow> mem option" where
  "mm_merge cur next m = do {
     s \<leftarrow> ld64 cur m;
     t \<leftarrow> ld64 next m;
     m \<leftarrow> st64 cur (add64 s t) m;
     n \<leftarrow> ld64 (next + off_next) m;
     st64 (cur + off_next) n m }"

text \<open>The three loops of \<open>mm_free\<close>.\<close>

partial_function (option) mm_absorb :: "addr \<Rightarrow> mem \<Rightarrow> mem option" where
  "mm_absorb cur m = do {
     next \<leftarrow> ld64 (cur + off_next) m;
     if next = NULL then Some m
     else do {
       f \<leftarrow> ld32 (next + off_free) m;
       if f = 0 then Some m else do { m \<leftarrow> mm_merge cur next m; mm_absorb cur m } } }"

partial_function (option) mm_sweep :: "addr \<Rightarrow> mem \<Rightarrow> mem option" where
  "mm_sweep cur m = (
     if cur = NULL then Some m
     else do {
       f \<leftarrow> ld32 (cur + off_free) m;
       next \<leftarrow> ld64 (cur + off_next) m;
       m \<leftarrow> (if f \<noteq> 0 \<and> next \<noteq> NULL then do {
               g \<leftarrow> ld32 (next + off_free) m;
               if g \<noteq> 0 then mm_merge cur next m else Some m }
             else Some m);
       next \<leftarrow> ld64 (cur + off_next) m;
       mm_sweep next m })"

partial_function (option) mm_clear :: "addr \<Rightarrow> mem \<Rightarrow> mem option" where
  "mm_clear cur m = (
     if cur = NULL then Some m
     else do {
       f \<leftarrow> ld32 (cur + off_free) m;
       m \<leftarrow> (if f \<noteq> 0 then do { s \<leftarrow> ld64 cur m; memset_loop s (cur + off_data) 0 m } else Some m);
       next \<leftarrow> ld64 (cur + off_next) m;
       mm_clear next m })"

definition mm_free :: "addr \<Rightarrow> mmheap \<Rightarrow> mmheap option" where
  "mm_free ptr h = (
     if ptr = NULL then Some h
     else do {
       let cur = ptr - off_data;
       m \<leftarrow> st32 (cur + off_free) 1 (hmem h);
       s \<leftarrow> ld64 cur m;
       m \<leftarrow> memset_loop s (cur + off_data) 0 m;
       m \<leftarrow> mm_absorb cur m;
       m \<leftarrow> mm_sweep (mm_head h) m;
       m \<leftarrow> mm_clear (mm_head h) m;
       Some (h\<lparr>hmem := m\<rparr>) })"

definition mm_realloc :: "addr \<Rightarrow> nat \<Rightarrow> mmheap \<Rightarrow> (addr \<times> mmheap) option" where
  "mm_realloc ptr sz h = (
     if ptr = NULL then mm_malloc sz h
     else if sz = 0 then do { h \<leftarrow> mm_free ptr h; Some (NULL, h) }
     else do {
       let cur = ptr - off_data;
       s \<leftarrow> ld64 cur (hmem h);
       if sz \<le> s then Some (ptr, h)
       else do {
         (new_ptr, h) \<leftarrow> mm_malloc sz h;
         if new_ptr = NULL then Some (NULL, h)
         else do {
           s \<leftarrow> ld64 cur (hmem h);
           m \<leftarrow> copy_up s new_ptr ptr (hmem h);
           h \<leftarrow> mm_free ptr (h\<lparr>hmem := m\<rparr>);
           Some (new_ptr, h) } } })"

declare mm_fit.simps [code] mm_absorb.simps [code] mm_sweep.simps [code] mm_clear.simps [code]

section \<open>Blocks and their list\<close>

type_synonym mm_block = "addr \<times> nat \<times> nat"

text \<open>The list from \<open>p\<close> to \<open>q\<close>: address, size and flag of each block.\<close>

fun seg :: "mem \<Rightarrow> addr \<Rightarrow> mm_block list \<Rightarrow> addr \<Rightarrow> bool" where
  "seg m p [] q \<longleftrightarrow> p = q"
| "seg m p ((a, s, f) # bs) q \<longleftrightarrow> p = a \<and> a \<noteq> NULL \<and> ld64 a m = Some s \<and> ld32 (a + off_free) m = Some f
     \<and> (\<exists>n. ld64 (a + off_next) m = Some n \<and> seg m n bs q)"

text \<open>The blocks lie one behind the other between \<open>lo\<close> and \<open>hi\<close>.\<close>

fun laid :: "addr \<Rightarrow> addr \<Rightarrow> mm_block list \<Rightarrow> bool" where
  "laid lo hi [] \<longleftrightarrow> lo \<le> hi"
| "laid lo hi ((a, s, f) # bs) \<longleftrightarrow> lo \<le> a \<and> laid (a + SIZEOF_BLOCK + s) hi bs"

lemmas off_defs = SIZEOF_BLOCK_def off_next_def off_free_def off_data_def

lemma laid_le: "laid lo hi bs \<Longrightarrow> lo \<le> hi"
  by (induction lo hi bs rule: laid.induct) auto

lemma laid_mono: "laid lo hi bs \<Longrightarrow> lo' \<le> lo \<Longrightarrow> hi \<le> hi' \<Longrightarrow> laid lo' hi' bs"
  by (induction lo hi bs arbitrary: lo' rule: laid.induct) auto

lemma laid_append: "laid lo hi (xs @ ys) \<longleftrightarrow> (\<exists>mid. laid lo mid xs \<and> laid mid hi ys)"
proof (induction lo hi xs rule: laid.induct)
  case (1 lo hi)
  then show ?case using laid_mono[of _ hi ys lo hi] by auto
qed auto

lemma laid_mem: "laid lo hi bs \<Longrightarrow> (a, s, f) \<in> set bs \<Longrightarrow> lo \<le> a \<and> a + SIZEOF_BLOCK + s \<le> hi"
  by (induction lo hi bs rule: laid.induct) (auto dest: laid_le)

lemma laid_apart:
  "laid lo hi bs \<Longrightarrow> (a, s, f) \<in> set bs \<Longrightarrow> (b, t, g) \<in> set bs
    \<Longrightarrow> (a, s, f) = (b, t, g) \<or> a + SIZEOF_BLOCK + s \<le> b \<or> b + SIZEOF_BLOCK + t \<le> a"
  by (induction lo hi bs rule: laid.induct) (auto dest: laid_mem)

lemma seg_append: "seg m p (xs @ ys) q \<longleftrightarrow> (\<exists>r. seg m p xs r \<and> seg m r ys q)"
  by (induction m p xs q rule: seg.induct) auto

lemma seg_cong:
  assumes "seg m p bs q" "\<forall>(a, s, f) \<in> set bs. \<forall>x. a \<le> x \<and> x < a + off_data \<longrightarrow> m' x = m x"
  shows "seg m' p bs q"
  using assms
proof (induction m p bs q rule: seg.induct)
  case (2 m p a s f bs q)
  have "ld64 a m' = ld64 a m" "ld64 (a + off_next) m' = ld64 (a + off_next) m" "ld32 (a + off_free) m' = ld32 (a + off_free) m"
    using 2(3) by (auto intro!: ld64_cong ld32_cong simp: off_defs)
  then show ?case using 2 by auto
qed simp

section \<open>The loops\<close>

lemma mm_fit_seg:
  assumes "seg m p bs NULL"
  shows "mm_fit sz p prev m = Some (case filter (\<lambda>(a, s, f). f \<noteq> 0 \<and> sz \<le> s) bs of
    [] \<Rightarrow> Inr (if bs = [] then prev else fst (last bs)) | b # _ \<Rightarrow> Inl (fst b))"
  using assms
proof (induction bs arbitrary: p prev)
  case (Cons b bs)
  then show ?case by (cases b) (subst mm_fit.simps, auto split: list.splits)
qed (subst mm_fit.simps, simp)

lemma seg_other: "seg m p bs q \<Longrightarrow> laid lo hi bs \<Longrightarrow> a + length ds \<le> lo \<or> hi \<le> a \<Longrightarrow> seg (wr a ds m) p bs q"
  by (erule seg_cong) (auto dest!: laid_mem simp: wr_def off_defs)

lemma seg_below: "seg m p bs q \<Longrightarrow> laid lo hi bs \<Longrightarrow> \<forall>x < hi. m' x = m x \<Longrightarrow> seg m' p bs q"
  by (erule seg_cong) (auto dest!: laid_mem simp: off_defs)

text \<open>Where the header of a block is in mapped memory, and its words are not too big.\<close>

definition room_for :: "mem \<Rightarrow> addr \<Rightarrow> addr \<Rightarrow> bool" where
  "room_for m lo hi \<longleftrightarrow> mapped lo (hi - lo) m \<and> hi < 2 ^ 63"

lemma room_for_wr [simp]: "room_for m lo hi \<Longrightarrow> room_for (wr a ds m) lo hi"
  by (simp add: room_for_def)

lemma room_for_zeroed [simp]: "room_for m lo hi \<Longrightarrow> room_for (zeroed a n m) lo hi"
  by (auto simp: room_for_def mapped_def zeroed_def)

lemma room_for_sub: "room_for m lo hi \<Longrightarrow> lo \<le> lo' \<Longrightarrow> room_for m lo' hi"
  by (auto simp: room_for_def mapped_def)

lemma room_for_dom: "room_for m lo hi \<Longrightarrow> dom m' = dom m \<Longrightarrow> room_for m' lo hi"
  by (auto simp: room_for_def intro: mapped_dom)

lemma mm_merge_step:
  assumes "seg m p ((a, s, f) # (b, t, g) # bs) q" "laid lo hi ((a, s, f) # (b, t, g) # bs)" "room_for m lo hi"
  shows "\<exists>m'. mm_merge a b m = Some m' \<and> seg m' p ((a, s + t, f) # bs) q \<and> room_for m' lo hi \<and> dom m' = dom m
    \<and> (\<forall>x. x < a \<or> a + 16 \<le> x \<longrightarrow> m' x = m x)"
proof -
  from assms(1) obtain n where n: "p = a" "a \<noteq> NULL" "ld64 a m = Some s" "ld32 (a + off_free) m = Some f"
    "ld64 (a + off_next) m = Some b" "b \<noteq> NULL" "ld64 b m = Some t" "ld64 (b + off_next) m = Some n" "seg m n bs q" by auto
  have l: "lo \<le> a" "a + SIZEOF_BLOCK + s \<le> b" "laid (b + SIZEOF_BLOCK + t) hi bs" "b + SIZEOF_BLOCK + t \<le> hi"
    using assms(2) laid_le by auto
  have big: "hi < 2 ^ 63" and mp: "mapped lo (hi - lo) m" using assms(3) by (simp_all add: room_for_def)
  have map_a: "mapped a 8 m" "mapped (a + off_next) 8 m" using mp l by (auto elim!: mapped_part simp: off_defs)
  let ?m1 = "wr a (le_bytes 8 (s + t)) m" and ?m2 = "wr (a + off_next) (le_bytes 8 n) (wr a (le_bytes 8 (s + t)) m)"
  have st: "s + t < 2 ^ 64" "add64 s t = s + t" using l big by (simp_all add: add64_def off_defs)
  have "ld64 (b + off_next) ?m1 = Some n" using n(8) l(2) by (simp add: ld64_other off_defs)
  then have "mm_merge a b m = Some ?m2"
    using n map_a st by (simp add: mm_merge_def st64_wr)
  moreover have "ld64 a ?m2 = Some (s + t)" using st(1) by (simp add: ld64_other ld64_same off_defs)
  moreover have "ld64 (a + off_next) ?m2 = Some n" using ld64_less[OF n(8)] by (simp add: ld64_same)
  moreover have "ld32 (a + off_free) ?m2 = Some f" using n(4) by (simp add: ld32_other off_defs)
  moreover have "seg ?m2 n bs q" using n(9) l by (auto intro!: seg_other[of _ _ _ _ "b + SIZEOF_BLOCK + t" hi] simp: off_defs)
  moreover have "dom ?m2 = dom m" using map_a by (simp add: dom_wr)
  moreover have "\<forall>x. x < a \<or> a + 16 \<le> x \<longrightarrow> ?m2 x = m x" by (simp add: wr_def off_defs)
  ultimately show ?thesis using n(1,2) assms(3) by (intro exI[of _ ?m2]) simp
qed

text \<open>What the loops make of the list of blocks.\<close>

fun absorb :: "nat \<Rightarrow> mm_block list \<Rightarrow> nat \<times> mm_block list" where
  "absorb s [] = (s, [])"
| "absorb s ((b, t, g) # bs) = (if g \<noteq> 0 then absorb (s + t) bs else (s, (b, t, g) # bs))"

fun sweep :: "mm_block list \<Rightarrow> mm_block list" where
  "sweep ((a, s, f) # (b, t, g) # bs) =
     (if f \<noteq> 0 \<and> g \<noteq> 0 then (a, s + t, f) # sweep bs else (a, s, f) # sweep ((b, t, g) # bs))"
| "sweep [] = []"
| "sweep [b] = [b]"

definition cleared :: "mm_block list \<Rightarrow> mem \<Rightarrow> mem" where
  "cleared bs m = (\<lambda>x. if \<exists>(a, s, f) \<in> set bs. f \<noteq> 0 \<and> a + off_data \<le> x \<and> x < a + off_data + s then Some 0 else m x)"

lemma laid_absorb:
  "laid lo hi ((a, s, f) # bs) \<Longrightarrow> laid lo hi ((a, fst (absorb s bs), f) # snd (absorb s bs))"
proof (induction s bs rule: absorb.induct)
  case (2 s b t g bs)
  show ?case
  proof (cases "g = 0")
    case False
    have "laid lo hi ((a, s + t, f) # bs)" using "2.prems" by (auto elim: laid_mono)
    from "2.IH"[OF False this] show ?thesis using False by simp
  qed (use "2.prems" in simp)
qed simp

lemma laid_sweep: "laid lo hi bs \<Longrightarrow> laid lo hi (sweep bs)"
proof (induction bs arbitrary: lo rule: sweep.induct)
  case (1 a s f b t g bs)
  show ?case
  proof (cases "f \<noteq> 0 \<and> g \<noteq> 0")
    case True
    have "laid (a + SIZEOF_BLOCK + (s + t)) hi bs" using "1.prems" by (auto elim: laid_mono)
    from "1.IH"(1)[OF True this] show ?thesis using True "1.prems" by simp
  next
    case False
    show ?thesis using "1.IH"(2)[OF False, of "a + SIZEOF_BLOCK + s"] False "1.prems" by auto
  qed
qed auto

lemma mm_absorb_seg:
  assumes "seg m p ((a, s, f) # bs) NULL" "laid lo hi ((a, s, f) # bs)" "room_for m lo hi"
  shows "\<exists>m'. mm_absorb a m = Some m' \<and> seg m' p ((a, fst (absorb s bs), f) # snd (absorb s bs)) NULL
    \<and> room_for m' lo hi \<and> dom m' = dom m \<and> (\<forall>x. x < a \<or> a + 16 \<le> x \<longrightarrow> m' x = m x)"
  using assms
proof (induction s bs arbitrary: m rule: absorb.induct)
  case (1 s)
  then show ?case by (subst mm_absorb.simps) simp
next
  case (2 s b t g bs)
  show ?case
  proof (cases "g = 0")
    case True
    then show ?thesis using "2.prems" by (subst mm_absorb.simps) auto
  next
    case False
    from mm_merge_step[OF "2.prems"] obtain m1 where m1: "mm_merge a b m = Some m1" "seg m1 p ((a, s + t, f) # bs) NULL"
      "room_for m1 lo hi" "dom m1 = dom m" "\<forall>x. x < a \<or> a + 16 \<le> x \<longrightarrow> m1 x = m x" by blast
    have "laid lo hi ((a, s + t, f) # bs)" using "2.prems"(2) by (auto elim: laid_mono)
    from "2.IH"[OF False m1(2) this m1(3)] obtain m' where
      m': "mm_absorb a m1 = Some m'" "seg m' p ((a, fst (absorb (s + t) bs), f) # snd (absorb (s + t) bs)) NULL"
      "room_for m' lo hi" "dom m' = dom m1" "\<forall>x. x < a \<or> a + 16 \<le> x \<longrightarrow> m' x = m1 x" by blast
    have "mm_absorb a m = mm_absorb a m1" using "2.prems"(1) False m1(1) by (subst mm_absorb.simps) auto
    then show ?thesis using m' m1(4,5) False by auto
  qed
qed

lemma mm_sweep_seg:
  assumes "seg m p bs NULL" "laid lo hi bs" "room_for m lo hi"
  shows "\<exists>m'. mm_sweep p m = Some m' \<and> seg m' p (sweep bs) NULL \<and> room_for m' lo hi \<and> dom m' = dom m
    \<and> (\<forall>x. m' x \<noteq> m x \<longrightarrow> (\<exists>(a, s, f) \<in> set bs. f \<noteq> 0 \<and> a \<le> x \<and> x < a + 16))"
  using assms
proof (induction bs arbitrary: m p lo rule: sweep.induct)
  case (1 a s f b t g bs)
  from "1.prems"(1) have b: "p = a" "a \<noteq> NULL" "ld32 (a + off_free) m = Some f" "ld64 (a + off_next) m = Some b"
    "b \<noteq> NULL" "ld32 (b + off_free) m = Some g" by auto
  show ?case
  proof (cases "f \<noteq> 0 \<and> g \<noteq> 0")
    case True
    from mm_merge_step[OF "1.prems"] obtain m1 where m1: "mm_merge a b m = Some m1" "seg m1 p ((a, s + t, f) # bs) NULL"
      "room_for m1 lo hi" "dom m1 = dom m" "\<forall>x. x < a \<or> a + 16 \<le> x \<longrightarrow> m1 x = m x" by blast
    from m1(2) obtain n where n: "seg m1 p [(a, s + t, f)] n" "seg m1 n bs NULL" "ld64 (a + off_next) m1 = Some n" by auto
    have l: "laid (a + SIZEOF_BLOCK + (s + t)) hi bs" "lo \<le> a" using "1.prems"(2) by (auto elim: laid_mono)
    have r: "room_for m1 (a + SIZEOF_BLOCK + (s + t)) hi" using m1(3) by (rule room_for_sub) (use l(2) in simp)
    from "1.IH"(1)[OF True n(2) l(1) r] obtain m' where
      m': "mm_sweep n m1 = Some m'" "seg m' n (sweep bs) NULL" "dom m' = dom m1"
      "\<forall>x. m' x \<noteq> m1 x \<longrightarrow> (\<exists>(a, s, f) \<in> set bs. f \<noteq> 0 \<and> a \<le> x \<and> x < a + 16)" by blast
    have "mm_sweep p m = mm_sweep n m1" using b True m1(1) n(3) by (subst mm_sweep.simps) simp
    moreover have "seg m' p [(a, s + t, f)] n"
      using n(1) by (rule seg_cong) (use m'(4) l(1) in \<open>fastforce simp: off_defs dest: laid_mem\<close>)
    then have "seg m' p (sweep ((a, s, f) # (b, t, g) # bs)) NULL" using m'(2) True by auto
    moreover have "room_for m' lo hi" using "1.prems"(3) by (rule room_for_dom) (use m1(4) m'(3) in simp)
    ultimately show ?thesis using m'(1,3,4) m1(4,5) True by (intro exI[of _ m']) (auto; fastforce)
  next
    case False
    from "1.prems"(1) have sg: "seg m p [(a, s, f)] b" "seg m b ((b, t, g) # bs) NULL" by auto
    have l: "laid (a + SIZEOF_BLOCK + s) hi ((b, t, g) # bs)" "lo \<le> a" using "1.prems"(2) by auto
    have r: "room_for m (a + SIZEOF_BLOCK + s) hi" using "1.prems"(3) by (rule room_for_sub) (use l(2) in simp)
    from "1.IH"(2)[OF False sg(2) l(1) r] obtain m' where
      m': "mm_sweep b m = Some m'" "seg m' b (sweep ((b, t, g) # bs)) NULL" "dom m' = dom m"
      "\<forall>x. m' x \<noteq> m x \<longrightarrow> (\<exists>(a, s, f) \<in> set ((b, t, g) # bs). f \<noteq> 0 \<and> a \<le> x \<and> x < a + 16)" by blast
    have "mm_sweep p m = mm_sweep b m" using b False by (subst mm_sweep.simps) auto
    moreover have "seg m' p [(a, s, f)] b"
      using sg(1) by (rule seg_cong) (use m'(4) l(1) in \<open>fastforce simp: off_defs dest: laid_mem\<close>)
    then have "seg m' p (sweep ((a, s, f) # (b, t, g) # bs)) NULL" using m'(2) False by auto
    moreover have "room_for m' lo hi" using "1.prems"(3) m'(3) by (rule room_for_dom)
    ultimately show ?thesis using m'(1,3,4) by (intro exI[of _ m']) auto
  qed
next
  case 2
  then show ?case by (subst mm_sweep.simps) simp
next
  case (3 b)
  then show ?case by (cases b) (subst mm_sweep.simps, subst mm_sweep.simps, auto)
qed

lemma mm_clear_seg:
  assumes "seg m p bs NULL" "laid lo hi bs" "room_for m lo hi"
  shows "mm_clear p m = Some (cleared bs m)"
  using assms
proof (induction bs arbitrary: m p lo)
  case Nil
  then show ?case by (subst mm_clear.simps) (simp add: cleared_def)
next
  case (Cons b bs)
  obtain a s f where b: "b = (a, s, f)" by (cases b)
  from Cons.prems(1) obtain n where n: "p = a" "a \<noteq> NULL" "ld64 a m = Some s" "ld32 (a + off_free) m = Some f"
    "ld64 (a + off_next) m = Some n" "seg m n bs NULL" by (auto simp: b)
  have l: "laid (a + SIZEOF_BLOCK + s) hi bs" "lo \<le> a" "a + SIZEOF_BLOCK + s \<le> hi"
    using Cons.prems(2) laid_le by (auto simp: b)
  define m1 where "m1 = (if f \<noteq> 0 then zeroed (a + off_data) s m else m)"
  have mp: "mapped (a + off_data) s m" using Cons.prems(3) l(2,3) unfolding room_for_def by (auto elim!: mapped_part simp: off_defs)
  have "seg m1 n bs NULL" using n(6) by (rule seg_cong) (use l(1) in \<open>auto dest!: laid_mem simp: m1_def zeroed_def off_defs\<close>)
  moreover have "room_for m1 (a + SIZEOF_BLOCK + s) hi"
    using Cons.prems(3) l(2) unfolding room_for_def m1_def by (auto simp: mapped_def zeroed_def)
  ultimately have "mm_clear n m1 = Some (cleared bs m1)" using Cons.IH l(1) by blast
  moreover have "ld64 (a + off_next) m1 = Some n" using n(5)
    ld64_cong[of "a + off_next" m1 m] by (simp add: m1_def zeroed_def off_defs)
  ultimately have "mm_clear p m = Some (cleared bs m1)"
    using n memset_zeroed[OF mp] by (subst mm_clear.simps) (simp add: m1_def split: if_splits)
  moreover have "cleared bs m1 = cleared (b # bs) m" by (auto simp: cleared_def m1_def zeroed_def b fun_eq_iff)
  ultimately show ?case by simp
qed

section \<open>The heap\<close>

text \<open>The heap has the blocks \<open>bs\<close>; the data of a free block are zero.\<close>

definition mm_ok :: "mmheap \<Rightarrow> mm_block list \<Rightarrow> bool" where
  "mm_ok h bs \<longleftrightarrow> seg (hmem h) (mm_head h) bs NULL \<and> laid (brk_min h) (brk h) bs
     \<and> room_for (hmem h) (brk_min h) (brk h) \<and> 0 < brk_min h \<and> brk h \<le> brk_max h \<and> brk_max h < 2 ^ 63
     \<and> (\<forall>(a, s, f) \<in> set bs. f \<noteq> 0 \<longrightarrow> (\<forall>x. a + off_data \<le> x \<and> x < a + off_data + s \<longrightarrow> hmem h x = Some 0))"

definition mm_live :: "mm_block list \<Rightarrow> mm_block list" where
  "mm_live bs = filter (\<lambda>(a, s, f). f = 0) bs"

lemma mm_live_simps [simp]:
  "mm_live [] = []" "mm_live ((a, s, f) # bs) = (if f = 0 then (a, s, f) # mm_live bs else mm_live bs)"
  "mm_live (xs @ ys) = mm_live xs @ mm_live ys"
  by (simp_all add: mm_live_def)

lemma mm_live_mem: "(a, s, f) \<in> set (mm_live bs) \<longleftrightarrow> f = 0 \<and> (a, s, f) \<in> set bs"
  by (auto simp: mm_live_def)

lemma mm_live_absorb: "mm_live (snd (absorb s bs)) = mm_live bs"
  by (induction s bs rule: absorb.induct) auto

lemma mm_live_sweep: "mm_live (sweep bs) = mm_live bs"
  by (induction bs rule: sweep.induct) auto

text \<open>The data of the live blocks are those of another memory.\<close>

definition data_kept :: "mm_block list \<Rightarrow> mem \<Rightarrow> mem \<Rightarrow> bool" where
  "data_kept bs m m' \<longleftrightarrow> (\<forall>(a, s, f) \<in> set bs. \<forall>x. a + off_data \<le> x \<and> x < a + off_data + s \<longrightarrow> m' x = m x)"

lemma data_keptD:
  "data_kept bs m m' \<Longrightarrow> (a, s, f) \<in> set bs \<Longrightarrow> a + off_data \<le> x \<Longrightarrow> x < a + off_data + s \<Longrightarrow> m' x = m x"
  unfolding data_kept_def by fastforce

lemma data_kept_trans: "data_kept bs m m' \<Longrightarrow> data_kept bs' m' m'' \<Longrightarrow> set bs \<subseteq> set bs' \<Longrightarrow> data_kept bs m m''"
  unfolding data_kept_def by (auto; fastforce)

lemma set_flag:
  assumes "seg m p (xs @ (a, s, f) # ys) q" "laid lo hi (xs @ (a, s, f) # ys)" "g < 2 ^ 32"
  shows "seg (wr (a + off_free) (le_bytes 4 g) m) p (xs @ (a, s, g) # ys) q"
proof -
  let ?m = "wr (a + off_free) (le_bytes 4 g) m"
  from assms(1) obtain n where n: "seg m p xs a" "a \<noteq> NULL" "ld64 a m = Some s" "ld64 (a + off_next) m = Some n" "seg m n ys q"
    by (auto simp: seg_append)
  from assms(2) obtain mid where l: "laid lo mid xs" "mid \<le> a" "laid (a + SIZEOF_BLOCK + s) hi ys" by (auto simp: laid_append)
  have "seg ?m p xs a" using n(1) l(1) by (rule seg_other) (use l(2) in \<open>simp add: off_defs\<close>)
  moreover have "seg ?m n ys q" using n(5) l(3) by (rule seg_other) (simp add: off_defs)
  moreover have "ld64 a ?m = Some s" "ld64 (a + off_next) ?m = Some n" "ld32 (a + off_free) ?m = Some g"
    using n(3,4) assms(3) by (simp_all add: ld64_other ld32_same off_defs)
  ultimately show ?thesis using n(2) by (auto simp: seg_append)
qed

lemma set_next:
  assumes "seg m p (xs @ [(a, s, f)]) q" "laid lo hi (xs @ [(a, s, f)])" "n < 2 ^ 64"
  shows "seg (wr (a + off_next) (le_bytes 8 n) m) p (xs @ [(a, s, f)]) n"
proof -
  let ?m = "wr (a + off_next) (le_bytes 8 n) m"
  from assms(1) have n: "seg m p xs a" "a \<noteq> NULL" "ld64 a m = Some s" "ld32 (a + off_free) m = Some f"
    by (auto simp: seg_append)
  from assms(2) obtain mid where l: "laid lo mid xs" "mid \<le> a" by (auto simp: laid_append)
  have "seg ?m p xs a" using n(1) l(1) by (rule seg_other) (use l(2) in \<open>simp add: off_defs\<close>)
  moreover have "ld64 a ?m = Some s" "ld32 (a + off_free) ?m = Some f" "ld64 (a + off_next) ?m = Some n"
    using n(3,4) assms(3) by (simp_all add: ld64_other ld32_other ld64_same off_defs)
  ultimately show ?thesis using n(2) by (auto simp: seg_append)
qed

lemma laid_flag: "laid lo hi (xs @ (a, s, f) # ys) \<longleftrightarrow> laid lo hi (xs @ (a, s, g) # ys)"
  by (simp add: laid_append)

section \<open>Freeing\<close>

lemma laid_off_live:
  assumes "laid lo hi bs" "(b, t, 0) \<in> set bs" "(a, s, f) \<in> set bs" "f \<noteq> 0" "b + off_data \<le> x" "x < b + off_data + t"
  shows "x < a \<or> a + SIZEOF_BLOCK + s \<le> x"
  using laid_apart[OF assms(1,2,3)] assms(4-6) by (auto simp: off_defs)

lemma cleared_live:
  assumes "laid lo hi bs" "(b, t, 0) \<in> set bs" "b + off_data \<le> x" "x < b + off_data + t"
  shows "cleared bs m x = m x"
proof (rule ccontr)
  assume "\<not> ?thesis"
  then obtain a s f where "(a, s, f) \<in> set bs" "f \<noteq> 0" "a + off_data \<le> x" "x < a + off_data + s"
    by (auto simp: cleared_def split: if_splits)
  then show False using laid_off_live[OF assms(1,2) _ _ assms(3,4), of a s f] by (simp add: off_defs)
qed

lemma mm_free_loops:
  assumes s2: "seg m2 p (xs @ (a, s, 1) # ys) NULL" and l: "laid lo hi (xs @ (a, s, 1) # ys)" and r2: "room_for m2 lo hi"
  shows "\<exists>m3 m4 m5 bs. mm_absorb a m2 = Some m3 \<and> mm_sweep p m3 = Some m4 \<and> mm_clear p m4 = Some m5
    \<and> seg m5 p bs NULL \<and> laid lo hi bs \<and> room_for m5 lo hi \<and> mm_live bs = mm_live xs @ mm_live ys \<and> data_kept (mm_live bs) m2 m5
    \<and> (\<forall>(a, s, f) \<in> set bs. f \<noteq> 0 \<longrightarrow> (\<forall>x. a + off_data \<le> x \<and> x < a + off_data + s \<longrightarrow> m5 x = Some 0))"
proof -
  from s2 have pre: "seg m2 p xs a" "seg m2 a ((a, s, 1) # ys) NULL" by (auto simp: seg_append)
  from l obtain mid where mid: "laid lo mid xs" "mid \<le> a" "laid mid hi ((a, s, 1) # ys)" by (auto simp: laid_append)
  have r2': "room_for m2 mid hi" using r2 by (rule room_for_sub) (use laid_le[OF mid(1)] in simp)
  let ?s' = "fst (absorb s ys)" and ?ys' = "snd (absorb s ys)"
  let ?bs = "xs @ (a, ?s', 1) # ?ys'"
  from mm_absorb_seg[OF pre(2) mid(3) r2'] obtain m3 where m3: "mm_absorb a m2 = Some m3"
    "seg m3 a ((a, ?s', 1) # ?ys') NULL" "dom m3 = dom m2" "\<forall>x. x < a \<or> a + 16 \<le> x \<longrightarrow> m3 x = m2 x" by blast
  have l3: "laid lo hi ?bs" using mid(1,2) laid_absorb[OF mid(3)] by (auto simp: laid_append)
  have "seg m3 p xs a" using pre(1) by (rule seg_cong) (use m3(4) mid(1,2) in \<open>fastforce simp: off_defs dest: laid_mem\<close>)
  then have s3: "seg m3 p ?bs NULL" using m3(2) by (auto simp: seg_append)
  have r3: "room_for m3 lo hi" using r2 m3(3) by (rule room_for_dom)
  from mm_sweep_seg[OF s3 l3 r3] obtain m4 where m4: "mm_sweep p m3 = Some m4" "seg m4 p (sweep ?bs) NULL"
    "room_for m4 lo hi" "\<forall>x. m4 x \<noteq> m3 x \<longrightarrow> (\<exists>(a, s, f) \<in> set ?bs. f \<noteq> 0 \<and> a \<le> x \<and> x < a + 16)" by blast
  have l4: "laid lo hi (sweep ?bs)" using l3 by (rule laid_sweep)
  let ?m5 = "cleared (sweep ?bs) m4"
  have m5: "mm_clear p m4 = Some ?m5" using m4(2) l4 m4(3) by (rule mm_clear_seg)
  have s5: "seg ?m5 p (sweep ?bs) NULL"
    using m4(2) by (rule seg_cong) (use laid_apart[OF l4] in \<open>fastforce simp: cleared_def off_defs\<close>)
  have r5: "room_for ?m5 lo hi" using m4(3) by (auto simp: room_for_def mapped_def cleared_def)
  have z: "\<forall>(a, s, f) \<in> set (sweep ?bs). f \<noteq> 0 \<longrightarrow> (\<forall>x. a + off_data \<le> x \<and> x < a + off_data + s \<longrightarrow> ?m5 x = Some 0)"
    by (fastforce simp: cleared_def)
  have lv: "mm_live (sweep ?bs) = mm_live xs @ mm_live ys" "mm_live (sweep ?bs) = mm_live ?bs" by (simp_all add: mm_live_sweep mm_live_absorb)
  have "?m5 x = m2 x" if b: "(b, t, g) \<in> set (mm_live (sweep ?bs))" and x: "b + off_data \<le> x" "x < b + off_data + t" for b t g x
  proof -
    have g: "(b, t, 0) \<in> set (sweep ?bs)" using b by (auto simp only: mm_live_mem)
    have g3: "(b, t, 0) \<in> set ?bs" using b unfolding lv(2) by (auto simp only: mm_live_mem)
    have "?m5 x = m4 x" using l4 g x by (rule cleared_live)
    moreover have "m4 x = m3 x"
    proof (rule ccontr)
      assume "m4 x \<noteq> m3 x"
      with m4(4) obtain c u f where c: "(c, u, f) \<in> set ?bs" "f \<noteq> 0" "c \<le> x" "x < c + 16" by blast
      from laid_off_live[OF l3 g3 c(1,2) x] c(3,4) show False by (simp add: off_defs)
    qed
    moreover have "m3 x = m2 x" using laid_off_live[OF l3 g3 _ _ x, of a ?s' 1] m3(4) by (auto simp: off_defs)
    ultimately show ?thesis by simp
  qed
  then have "data_kept (mm_live (sweep ?bs)) m2 ?m5" by (auto simp: data_kept_def)
  then show ?thesis using m3(1) m4(1) m5 s5 l4 r5 lv(1) z by blast
qed

lemma mm_free_ok:
  assumes ok: "mm_ok h (xs @ (a, s, 0) # ys)"
  shows "\<exists>h' bs'. mm_free (a + off_data) h = Some h' \<and> mm_ok h' bs' \<and> mm_live bs' = mm_live xs @ mm_live ys
    \<and> data_kept (mm_live bs') (hmem h) (hmem h') \<and> h\<lparr>hmem := hmem h'\<rparr> = h'"
proof -
  let ?lo = "brk_min h" and ?hi = "brk h" and ?m = "hmem h"
  note inv = ok[unfolded mm_ok_def]
  have l0: "laid ?lo ?hi (xs @ (a, s, 0) # ys)" and rm: "room_for ?m ?lo ?hi" using inv by blast+
  have l1: "laid ?lo ?hi (xs @ (a, s, 1) # ys)" using l0 laid_flag by blast
  have a: "?lo \<le> a" "a + SIZEOF_BLOCK + s \<le> ?hi" using laid_mem[OF l0, of a s 0] by auto
  have mp: "mapped (a + off_free) 4 ?m" "mapped (a + off_data) s ?m"
    using rm a unfolding room_for_def by (auto simp: off_defs elim!: mapped_part)
  define m1 where "m1 = wr (a + off_free) (le_bytes 4 1) ?m"
  define m2 where "m2 = zeroed (a + off_data) s m1"
  have s1: "seg m1 (mm_head h) (xs @ (a, s, 1) # ys) NULL" unfolding m1_def
    by (rule set_flag[of _ _ _ _ _ 0]) (use inv in auto)
  have s2: "seg m2 (mm_head h) (xs @ (a, s, 1) # ys) NULL"
    using s1 by (rule seg_cong) (use laid_apart[OF l1, of a s 1] in \<open>fastforce simp: m2_def zeroed_def off_defs\<close>)
  have "room_for m2 ?lo ?hi" using rm by (simp add: m2_def m1_def)
  from mm_free_loops[OF s2 l1 this] obtain m3 m4 m5 bs where
    m5: "mm_absorb a m2 = Some m3" "mm_sweep (mm_head h) m3 = Some m4" "mm_clear (mm_head h) m4 = Some m5"
      "seg m5 (mm_head h) bs NULL" "laid ?lo ?hi bs" "room_for m5 ?lo ?hi" "mm_live bs = mm_live xs @ mm_live ys"
      "data_kept (mm_live bs) m2 m5"
      "\<forall>(a, s, f) \<in> set bs. f \<noteq> 0 \<longrightarrow> (\<forall>x. a + off_data \<le> x \<and> x < a + off_data + s \<longrightarrow> m5 x = Some 0)" by blast
  have "st32 (a + off_free) 1 ?m = Some m1" using st32_wr[OF mp(1)] by (simp add: m1_def)
  moreover have "ld64 a m1 = Some s" using s1 by (auto simp: seg_append)
  moreover have "memset_loop s (a + off_data) 0 m1 = Some m2" using mp(2) by (simp add: memset_zeroed m2_def m1_def)
  ultimately have run: "mm_free (a + off_data) h = Some (h\<lparr>hmem := m5\<rparr>)" using m5(1-3)
    by (simp add: mm_free_def off_data_def)
  have "m2 x = ?m x" if "(b, t, g) \<in> set (mm_live bs)" "b + off_data \<le> x" "x < b + off_data + t" for b t g x
  proof -
    have "(b, t, 0) \<in> set (xs @ (a, s, 1) # ys)" using that(1) unfolding m5(7) by (auto simp: mm_live_mem)
    from laid_off_live[OF l1 this _ _ that(2,3), of a s 1] show ?thesis by (auto simp: m2_def m1_def zeroed_def wr_def off_defs)
  qed
  then have "data_kept (mm_live bs) ?m m2" by (auto simp: data_kept_def)
  then have "data_kept (mm_live bs) ?m m5" using m5(8) by (rule data_kept_trans) simp
  moreover have "mm_ok (h\<lparr>hmem := m5\<rparr>) bs" using inv m5(4-6,9) by (simp add: mm_ok_def)
  ultimately show ?thesis using run m5(7) by (intro exI[of _ "h\<lparr>hmem := m5\<rparr>"] exI[of _ bs]) simp
qed

section \<open>Allocating\<close>

definition fits :: "nat \<Rightarrow> mm_block list \<Rightarrow> mm_block list" where
  "fits sz bs = filter (\<lambda>(a, s, f). f \<noteq> 0 \<and> sz \<le> s) bs"

lemma data_kept_header:
  "laid lo hi bs \<Longrightarrow> (a, s, f) \<in> set bs \<Longrightarrow> a \<le> c \<Longrightarrow> c + length ds \<le> a + off_data \<Longrightarrow> data_kept bs m (wr c ds m)"
  unfolding data_kept_def using laid_apart[of lo hi bs a s f] by (fastforce simp: wr_def off_defs)

lemma data_kept_outside: "laid lo hi bs \<Longrightarrow> hi \<le> c \<Longrightarrow> data_kept bs m (wr c ds m)"
  unfolding data_kept_def by (auto simp: wr_def off_defs dest: laid_mem)

lemma zero_kept:
  "\<forall>(a, s, f) \<in> set bs. f \<noteq> 0 \<longrightarrow> (\<forall>x. a + off_data \<le> x \<and> x < a + off_data + s \<longrightarrow> m x = Some 0) \<Longrightarrow> data_kept bs m m'
    \<Longrightarrow> \<forall>(a, s, f) \<in> set bs. f \<noteq> 0 \<longrightarrow> (\<forall>x. a + off_data \<le> x \<and> x < a + off_data + s \<longrightarrow> m' x = Some 0)"
  unfolding data_kept_def by fastforce

text \<open>A new block at the break, before it is in the list.\<close>

lemma sint_small: "n < 2 ^ 63 \<Longrightarrow> sint (word_of_nat n :: 64 word) = int n"
  by (simp add: signed_of_nat signed_take_bit_int_eq_self)

lemma mm_grow:
  assumes ok: "mm_ok h bs" and sz: "brk h + sz + SIZEOF_BLOCK \<le> brk_max h"
  shows "\<exists>h1 m. sbrk (sint (word_of_nat (add64 sz SIZEOF_BLOCK) :: 64 word)) h = (Some (brk h), h1)
    \<and> do { m \<leftarrow> memset_loop (add64 sz SIZEOF_BLOCK) (brk h) 0 (hmem h1);
           m \<leftarrow> st64 (brk h) sz m; st32 (brk h + off_free) 1 m } = Some m
    \<and> mm_head h1 = mm_head h \<and> mm_ok (h1\<lparr>hmem := m\<rparr>) bs \<and> brk h1 = brk h + sz + SIZEOF_BLOCK \<and> brk_min h1 = brk_min h
    \<and> ld64 (brk h) m = Some sz \<and> ld64 (brk h + off_next) m = Some NULL \<and> ld32 (brk h + off_free) m = Some 1
    \<and> (\<forall>x < brk h. m x = hmem h x) \<and> (\<forall>x. brk h + off_data \<le> x \<and> x < brk h + off_data + sz \<longrightarrow> m x = Some 0)"
proof -
  let ?b = "brk h" and ?n = "sz + SIZEOF_BLOCK"
  note inv = ok[unfolded mm_ok_def]
  have n: "add64 sz SIZEOF_BLOCK = ?n" "?n < 2 ^ 63" using inv sz by (simp_all add: add64_def)
  then have sg: "sint (word_of_nat (add64 sz SIZEOF_BLOCK) :: 64 word) = int ?n"
    using sint_small[of ?n] by (simp only:)
  define m0 where "m0 = (\<lambda>x. if ?b \<le> x \<and> x < ?b + ?n then Some 0 else hmem h x)"
  let ?h1 = "h\<lparr>brk := ?b + ?n, hmem := m0\<rparr>"
  have "nat (int ?b + int ?n) = ?b + ?n" by simp
  then have sb: "sbrk (sint (word_of_nat (add64 sz SIZEOF_BLOCK) :: 64 word)) h = (Some ?b, ?h1)"
    unfolding sg sbrk_def m0_def using inv sz laid_le[of "brk_min h" ?b bs] by (auto simp: Let_def fun_eq_iff)
  have mp: "mapped ?b ?n m0" by (simp add: mapped_def m0_def)
  have z: "zeroed ?b ?n m0 = m0" by (auto simp: zeroed_def m0_def)
  let ?m1 = "wr ?b (le_bytes 8 sz) m0"
  let ?m = "wr (?b + off_free) (le_bytes 4 1) ?m1"
  have mps: "mapped ?b 8 m0" "mapped (?b + off_free) 4 ?m1" using mp by (auto elim!: mapped_part intro!: mapped_wr simp: off_defs)
  have st: "memset_loop (add64 sz SIZEOF_BLOCK) ?b 0 m0 = Some m0" "st64 ?b sz m0 = Some ?m1"
    "st32 (?b + off_free) 1 ?m1 = Some ?m"
    using memset_zeroed[OF mp] mps z n(1) by (simp_all add: st64_wr st32_wr)
  have at: "?m x = Some 0" if "?b + 8 \<le> x" "x < ?b + ?n" "x < ?b + off_free \<or> ?b + off_data \<le> x" for x
    using that by (auto simp: wr_def m0_def off_defs)
  have old: "?m x = hmem h x" if "x < ?b" for x using that by (simp add: wr_def m0_def off_defs)
  have lds: "ld64 ?b ?m = Some sz" "ld32 (?b + off_free) ?m = Some 1" using n(2) by (simp_all add: ld64_other ld64_same ld32_same off_defs)
  have "?m (?b + off_next + i) = Some 0" if "i < 8" for i using that by (intro at) (simp_all add: off_defs)
  then have "bytes_at ?m (?b + off_next) (replicate 8 0)" by (simp add: bytes_at_def)
  from load_bytes_at[OF this, unfolded length_replicate] have nx: "ld64 (?b + off_next) ?m = Some NULL"
    by (simp only: ld64_def option.map of_le_zeros)
  have l: "laid (brk_min h) ?b bs" using inv by blast
  have "seg ?m (mm_head h) bs NULL"
    by (rule seg_below[OF _ l, of "hmem h"]) (use inv old in blast)+
  moreover have "laid (brk_min h) (?b + ?n) bs" using l by (rule laid_mono) simp_all
  moreover have "room_for ?m (brk_min h) (?b + ?n)"
    using inv sz unfolding room_for_def by (auto simp: mapped_def wr_def m0_def)
  moreover have "?m x = Some 0" if "(a, s, f) \<in> set bs" "f \<noteq> 0" "a + off_data \<le> x" "x < a + off_data + s" for a s f x
  proof -
    have "x < ?b" using laid_mem[OF l that(1)] that(4) by (simp add: off_defs)
    then show ?thesis using old that inv by fastforce
  qed
  ultimately have "mm_ok (?h1\<lparr>hmem := ?m\<rparr>) bs" using inv sz by (auto simp: mm_ok_def)
  then show ?thesis using sb st lds nx old at
    by (intro exI[of _ ?h1] exI[of _ ?m]) (auto simp: off_defs)
qed

lemma link_new:
  assumes sg: "seg m p bs NULL" "laid lo b bs" and new: "seg m b [(b, sz, 1)] NULL" "0 < b" "b < 2 ^ 64"
    and bs: "bs \<noteq> []"
  defines "a \<equiv> fst (last bs)"
  defines "m2 \<equiv> wr (a + off_next) (le_bytes 8 b) m"
  defines "m3 \<equiv> wr (b + off_next) (le_bytes 8 NULL) m2"
  defines "m4 \<equiv> wr (b + off_free) (le_bytes 4 0) m3"
  shows "seg m4 p (bs @ [(b, sz, 0)]) NULL" "data_kept bs m m4" "\<forall>x. b + off_data \<le> x \<longrightarrow> m4 x = m x"
proof -
  obtain xs s f where e: "bs = xs @ [(a, s, f)]" using bs by (metis a_def append_butlast_last_id prod.collapse)
  have ab: "a + SIZEOF_BLOCK + s \<le> b" using laid_mem[OF sg(2), of a s f] by (simp add: e)
  have "seg m2 p bs b" unfolding m2_def e by (rule set_next[of _ _ _ _ _ _ NULL]) (use sg new(3) in \<open>simp_all add: e\<close>)
  then have "seg m3 p bs b" unfolding m3_def using sg(2) by (rule seg_other) (simp add: off_defs)
  then have 1: "seg m4 p bs b" unfolding m4_def using sg(2) by (rule seg_other) (simp add: off_defs)
  have lb: "laid b (b + SIZEOF_BLOCK + sz) [(b, sz, g)]" for g by simp
  have "seg m2 b [(b, sz, 1)] NULL" unfolding m2_def using new(1) lb by (rule seg_other) (use ab in \<open>simp add: off_defs\<close>)
  then have "seg m3 b ([] @ [(b, sz, 1)]) NULL" unfolding m3_def
    by (intro set_next[of _ _ _ _ _ _ NULL b "b + SIZEOF_BLOCK + sz"]) simp_all
  then have "seg m4 b ([] @ (b, sz, 0) # []) NULL" unfolding m4_def
    by (intro set_flag[of _ _ _ _ _ 1 _ _ b "b + SIZEOF_BLOCK + sz"]) simp_all
  then show "seg m4 p (bs @ [(b, sz, 0)]) NULL" using 1 by (auto simp: seg_append)
  have "data_kept bs m m2" unfolding m2_def by (rule data_kept_header[OF sg(2), of a s f]) (simp_all add: e off_defs)
  moreover have "data_kept bs m2 m3" "data_kept bs m3 m4" unfolding m3_def m4_def by (rule data_kept_outside[OF sg(2)], simp)+
  ultimately show "data_kept bs m m4" by (blast intro: data_kept_trans)
  show "\<forall>x. b + off_data \<le> x \<longrightarrow> m4 x = m x" using ab by (auto simp: m4_def m3_def m2_def wr_def off_defs)
qed

lemma mm_malloc_new:
  assumes ok: "mm_ok h bs" and sz: "0 < sz" "brk h + sz + SIZEOF_BLOCK \<le> brk_max h" and none: "fits sz bs = []"
  shows "\<exists>h'. mm_malloc sz h = Some (brk h + off_data, h') \<and> mm_ok h' (bs @ [(brk h, sz, 0)])
    \<and> brk h' = brk h + sz + SIZEOF_BLOCK \<and> (\<forall>x. brk h + off_data \<le> x \<and> x < brk h + off_data + sz \<longrightarrow> hmem h' x = Some 0)
    \<and> data_kept bs (hmem h) (hmem h')"
proof -
  let ?b = "brk h"
  from mm_grow[OF ok sz(2)] obtain h1 m m0 m1 where g: "sbrk (sint (word_of_nat (add64 sz SIZEOF_BLOCK) :: 64 word)) h = (Some ?b, h1)"
    "memset_loop (add64 sz SIZEOF_BLOCK) ?b 0 (hmem h1) = Some m0" "st64 ?b sz m0 = Some m1" "st32 (?b + off_free) 1 m1 = Some m"
    "mm_head h1 = mm_head h" "mm_ok (h1\<lparr>hmem := m\<rparr>) bs" "brk h1 = ?b + sz + SIZEOF_BLOCK" "brk_min h1 = brk_min h"
    "ld64 ?b m = Some sz" "ld64 (?b + off_next) m = Some NULL" "ld32 (?b + off_free) m = Some 1"
    "\<forall>x < ?b. m x = hmem h x" "\<forall>x. ?b + off_data \<le> x \<and> x < ?b + off_data + sz \<longrightarrow> m x = Some 0"
    by (auto simp: bind_eq_Some_conv)
  note inv = g(6)[unfolded mm_ok_def, simplified]
  have b0: "0 < ?b" and l0: "laid (brk_min h) ?b bs" using ok laid_le[of "brk_min h" ?b bs] by (auto simp: mm_ok_def)
  have rm: "room_for m (brk_min h) (?b + sz + SIZEOF_BLOCK)" using inv g(7,8) by simp
  have mb: "mapped (?b + off_free) 4 m" "mapped (?b + off_next) 8 m"
    using rm laid_le[OF l0] unfolding room_for_def by (auto elim!: mapped_part simp: off_defs)
  have sg: "seg m (mm_head h) bs NULL" using inv g(5) by simp
  have new: "seg m ?b [(?b, sz, 1)] NULL" using g(9-11) b0 by simp
  have old: "data_kept bs (hmem h) m" using g(12) laid_mem[OF l0] by (fastforce simp: data_kept_def off_defs)
  have "\<exists>p m'. mm_malloc sz h = Some (?b + off_data, h1\<lparr>hmem := m', mm_head := p\<rparr>) \<and> seg m' p (bs @ [(?b, sz, 0)]) NULL
    \<and> data_kept bs m m' \<and> dom m' = dom m \<and> (\<forall>x. ?b + off_data \<le> x \<longrightarrow> m' x = m x)"
  proof (cases bs)
    case Nil
    let ?m = "wr (?b + off_free) (le_bytes 4 0) m"
    have "mm_head h1 = NULL" using sg g(5) Nil by simp
    then have "mm_malloc sz h = Some (?b + off_data, h1\<lparr>hmem := ?m, mm_head := ?b\<rparr>)"
      using g(1-4) sz(1) mb(1) by (simp add: mm_malloc_def st32_wr)
    moreover have "seg ?m ?b ([] @ (?b, sz, 0) # []) NULL"
      by (rule set_flag[of _ _ _ _ _ 1 _ _ ?b "?b + SIZEOF_BLOCK + sz"]) (use new in simp_all)
    moreover have "\<forall>x. ?b + off_data \<le> x \<longrightarrow> ?m x = m x" by (simp add: wr_def off_defs)
    ultimately show ?thesis using Nil mb(1) by (intro exI[of _ ?b] exI[of _ ?m]) (simp add: dom_wr data_kept_def)
  next
    case (Cons c cs)
    then have bs: "bs \<noteq> []" by simp
    have hd: "mm_head h1 = mm_head h" "mm_head h \<noteq> NULL" using sg g(5) Cons by (cases c; simp)+
    let ?a = "fst (last bs)"
    let ?m2 = "wr (?a + off_next) (le_bytes 8 ?b) m"
    let ?m3 = "wr (?b + off_next) (le_bytes 8 NULL) ?m2"
    let ?m4 = "wr (?b + off_free) (le_bytes 4 0) ?m3"
    have "mm_fit sz (mm_head h) NULL m = Some (Inr ?a)"
      using mm_fit_seg[OF sg, of sz NULL] none bs by (simp add: fits_def)
    moreover obtain s f where "last bs = (?a, s, f)" by (metis prod.collapse)
    then have "(?a, s, f) \<in> set bs" using bs by (metis last_in_set)
    from laid_mem[OF l0 this] have ma: "mapped (?a + off_next) 8 m"
      using rm unfolding room_for_def by (auto elim!: mapped_part simp: off_defs)
    ultimately have "mm_malloc sz h = Some (?b + off_data, h1\<lparr>hmem := ?m4\<rparr>)"
      using g(1-4) sz(1) mb hd by (simp add: mm_malloc_def st32_wr st64_wr)
    moreover have "h1\<lparr>hmem := ?m4\<rparr> = h1\<lparr>hmem := ?m4, mm_head := mm_head h\<rparr>" using hd by simp
    moreover have "?b < 2 ^ 64" using ok by (simp add: mm_ok_def)
    note link_new[OF sg l0 new b0 this bs]
    moreover have "dom ?m4 = dom m" using ma mb by (simp add: dom_wr)
    ultimately show ?thesis by (intro exI[of _ "mm_head h"] exI[of _ ?m4]) simp
  qed
  then obtain p m' where m': "mm_malloc sz h = Some (?b + off_data, h1\<lparr>hmem := m', mm_head := p\<rparr>)"
    "seg m' p (bs @ [(?b, sz, 0)]) NULL" "data_kept bs m m'" "dom m' = dom m" "\<forall>x. ?b + off_data \<le> x \<longrightarrow> m' x = m x" by blast
  have "laid (brk_min h) (?b + sz + SIZEOF_BLOCK) (bs @ [(?b, sz, 0)])"
    unfolding laid_append by (rule exI[of _ ?b]) (simp add: l0)
  moreover have "room_for m' (brk_min h) (?b + sz + SIZEOF_BLOCK)" using rm m'(4) by (rule room_for_dom)
  moreover have "\<forall>(a, s, f) \<in> set bs. f \<noteq> 0 \<longrightarrow> (\<forall>x. a + off_data \<le> x \<and> x < a + off_data + s \<longrightarrow> m' x = Some 0)"
    by (rule zero_kept[OF _ m'(3)]) (use g(6) in \<open>simp add: mm_ok_def\<close>)
  ultimately have "mm_ok (h1\<lparr>hmem := m', mm_head := p\<rparr>) (bs @ [(?b, sz, 0)])"
    using inv g(7,8) m'(2) by (auto simp: mm_ok_def)
  moreover have "data_kept bs (hmem h) m'" using old m'(3) by (rule data_kept_trans) simp
  ultimately show ?thesis using m'(1,5) g(7,13) by (intro exI[of _ "h1\<lparr>hmem := m', mm_head := p\<rparr>"]) simp
qed

lemma mm_malloc_fit:
  assumes ok: "mm_ok h bs" and sz: "0 < sz" "brk h + sz + SIZEOF_BLOCK \<le> brk_max h" and fit: "fits sz bs = (a, s, f) # r"
  shows "\<exists>h1 m. mm_ok (h1\<lparr>hmem := m\<rparr>) bs \<and> data_kept bs (hmem h) m \<and> (a, s, f) \<in> set bs \<and> f \<noteq> 0 \<and> sz \<le> s
    \<and> mm_malloc sz h = do { m' \<leftarrow> (if s \<le> sz + SIZEOF_BLOCK then st32 (a + off_free) 0 m else mm_split sz a m);
                             Some (a + off_data, h1\<lparr>hmem := m'\<rparr>) }"
proof -
  let ?b = "brk h"
  from mm_grow[OF ok sz(2)] obtain h1 m m0 m1 where g: "sbrk (sint (word_of_nat (add64 sz SIZEOF_BLOCK) :: 64 word)) h = (Some ?b, h1)"
    "memset_loop (add64 sz SIZEOF_BLOCK) ?b 0 (hmem h1) = Some m0" "st64 ?b sz m0 = Some m1" "st32 (?b + off_free) 1 m1 = Some m"
    "mm_head h1 = mm_head h" "mm_ok (h1\<lparr>hmem := m\<rparr>) bs" "\<forall>x < ?b. m x = hmem h x"
    by (auto simp: bind_eq_Some_conv)
  have l0: "laid (brk_min h) ?b bs" using ok by (simp add: mm_ok_def)
  have "(a, s, f) \<in> set (fits sz bs)" using fit by simp
  then have b: "(a, s, f) \<in> set bs" "f \<noteq> 0" "sz \<le> s" by (auto simp: fits_def)
  have sg: "seg m (mm_head h1) bs NULL" using g(6) by (simp add: mm_ok_def)
  have "mm_head h1 \<noteq> NULL" using sg b(1) by (cases bs) auto
  moreover have "mm_fit sz (mm_head h1) NULL m = Some (Inl a)" using mm_fit_seg[OF sg, of sz NULL] fit by (simp add: fits_def)
  moreover obtain xs ys where "bs = xs @ (a, s, f) # ys" using b(1) split_list by fast
  then have "ld64 a m = Some s" using sg by (auto simp: seg_append)
  moreover have "add64 sz SIZEOF_BLOCK = sz + SIZEOF_BLOCK" using ok sz(2) by (simp add: add64_def mm_ok_def)
  ultimately have "mm_malloc sz h = do { m' \<leftarrow> (if s \<le> sz + SIZEOF_BLOCK then st32 (a + off_free) 0 m else mm_split sz a m);
                             Some (a + off_data, h1\<lparr>hmem := m'\<rparr>) }"
    using g(1-4) sz(1) by (simp add: mm_malloc_def)
  moreover have "data_kept bs (hmem h) m" using g(7) laid_mem[OF l0] by (fastforce simp: data_kept_def off_defs)
  ultimately show ?thesis using g(6) b by blast
qed

lemma mm_malloc_reuse:
  assumes ok: "mm_ok h bs" and sz: "0 < sz" "brk h + sz + SIZEOF_BLOCK \<le> brk_max h"
    and fit: "fits sz bs = (a, s, f) # r" "s \<le> sz + SIZEOF_BLOCK"
  shows "\<exists>h' xs ys. bs = xs @ (a, s, f) # ys \<and> f \<noteq> 0 \<and> sz \<le> s \<and> mm_malloc sz h = Some (a + off_data, h')
    \<and> mm_ok h' (xs @ (a, s, 0) # ys) \<and> (\<forall>x. a + off_data \<le> x \<and> x < a + off_data + sz \<longrightarrow> hmem h' x = Some 0)
    \<and> data_kept bs (hmem h) (hmem h')"
proof -
  from mm_malloc_fit[OF ok sz fit(1)] fit(2) obtain h1 m where g: "mm_ok (h1\<lparr>hmem := m\<rparr>) bs" "data_kept bs (hmem h) m"
    "(a, s, f) \<in> set bs" "f \<noteq> 0" "sz \<le> s"
    "mm_malloc sz h = do { m' \<leftarrow> st32 (a + off_free) 0 m; Some (a + off_data, h1\<lparr>hmem := m'\<rparr>) }" by auto
  obtain xs ys where bs: "bs = xs @ (a, s, f) # ys" using g(3) split_list by fast
  let ?m = "wr (a + off_free) (le_bytes 4 0) m"
  let ?lo = "brk_min h1" and ?hi = "brk h1"
  note inv = g(1)[unfolded mm_ok_def]
  have l: "laid ?lo ?hi bs" and rm: "room_for m ?lo ?hi" using inv by auto
  have "mapped (a + off_free) 4 m" using rm laid_mem[OF l g(3)] unfolding room_for_def by (auto elim!: mapped_part simp: off_defs)
  then have run: "mm_malloc sz h = Some (a + off_data, h1\<lparr>hmem := ?m\<rparr>)" using g(6) by (simp add: st32_wr)
  have "seg ?m (mm_head h1) (xs @ (a, s, 0) # ys) NULL" by (rule set_flag[of _ _ _ _ _ f _ _ ?lo ?hi]) (use inv l in \<open>simp_all add: bs\<close>)
  moreover have "laid ?lo ?hi (xs @ (a, s, 0) # ys)" using l laid_flag unfolding bs by blast
  moreover have k: "data_kept bs m ?m" using l g(3) by (rule data_kept_header) (simp_all add: off_defs)
  have z: "\<forall>(a, s, f) \<in> set bs. f \<noteq> 0 \<longrightarrow> (\<forall>x. a + off_data \<le> x \<and> x < a + off_data + s \<longrightarrow> ?m x = Some 0)"
    by (rule zero_kept[OF _ k]) (use g(1) in \<open>simp add: mm_ok_def\<close>)
  ultimately have "mm_ok (h1\<lparr>hmem := ?m\<rparr>) (xs @ (a, s, 0) # ys)" using inv rm by (auto simp: mm_ok_def bs)
  moreover have "data_kept bs (hmem h) ?m" using g(2) k by (rule data_kept_trans) simp
  moreover have "\<forall>x. a + off_data \<le> x \<and> x < a + off_data + sz \<longrightarrow> ?m x = Some 0" using z g(3-5) by fastforce
  ultimately show ?thesis using run bs g(4,5) by (intro exI[of _ "h1\<lparr>hmem := ?m\<rparr>"] exI[of _ xs] exI[of _ ys]) simp
qed

lemma ld64_mapped: "mapped a 8 m \<Longrightarrow> \<exists>n. ld64 a m = Some n"
  using load_bytes_mapped[of a 8 m] by (auto simp: ld64_def)

lemma mm_malloc_split:
  assumes ok: "mm_ok h bs" and sz: "0 < sz" "brk h + sz + SIZEOF_BLOCK \<le> brk_max h"
    and fit: "fits sz bs = (a, s, f) # r" "sz + SIZEOF_BLOCK < s"
  shows "\<exists>h'. mm_malloc sz h = Some (a + off_data, h') \<and> ld64 (a + off_next) (hmem h') = Some (a + sz)"
proof -
  from mm_malloc_fit[OF ok sz fit(1)] fit(2) obtain h1 m where g: "mm_ok (h1\<lparr>hmem := m\<rparr>) bs" "(a, s, f) \<in> set bs"
    "mm_malloc sz h = do { m' \<leftarrow> mm_split sz a m; Some (a + off_data, h1\<lparr>hmem := m'\<rparr>) }" by auto
  note inv = g(1)[unfolded mm_ok_def]
  have l: "laid (brk_min h1) (brk h1) bs" and rm: "room_for m (brk_min h1) (brk h1)" using inv by auto
  have mp: "mapped a (SIZEOF_BLOCK + s) m" and big: "a + sz < 2 ^ 64"
    using rm laid_mem[OF l g(2)] fit(2) unfolding room_for_def by (auto elim!: mapped_part simp: off_defs)
  have at: "mapped a 8 m" "mapped (a + off_next) 8 m" "mapped (a + off_free) 4 m"
    "mapped (a + sz) 8 m" "mapped (a + sz + off_next) 8 m" "mapped (a + sz + off_free) 4 m"
    using mp fit(2) by (auto elim!: mapped_part simp: off_defs)
  obtain xs ys where "bs = xs @ (a, s, f) # ys" using g(2) split_list by fast
  then have ld: "ld64 a m = Some s" using inv by (auto simp: seg_append)
  let ?m2 = "wr (a + sz + off_free) (le_bytes 4 1) (wr (a + sz) (le_bytes 8 (sub64 (sub64 s sz) SIZEOF_BLOCK)) m)"
  obtain n where n: "ld64 (a + off_next) ?m2 = Some n" using ld64_mapped[of "a + off_next" ?m2] at(2) by auto
  let ?m3 = "wr (a + off_next) (le_bytes 8 (a + sz)) (wr a (le_bytes 8 sz) (wr (a + sz + off_next) (le_bytes 8 n) ?m2))"
  let ?m4 = "wr (a + off_free) (le_bytes 4 0) ?m3"
  have "mm_split sz a m = Some ?m4" using at ld n by (simp add: mm_split_def Let_def st64_wr st32_wr)
  moreover have "ld64 (a + off_next) ?m4 = Some (a + sz)" using big by (simp add: ld64_other ld64_same off_defs)
  ultimately show ?thesis using g(3) by (intro exI[of _ "h1\<lparr>hmem := ?m4\<rparr>"]) simp
qed

text \<open>The first free block that is big enough is so big that the rest becomes a block.\<close>

definition mm_splits :: "nat \<Rightarrow> mm_block list \<Rightarrow> bool" where
  "mm_splits sz bs \<longleftrightarrow> (case fits sz bs of [] \<Rightarrow> False | (a, s, f) # _ \<Rightarrow> sz + SIZEOF_BLOCK < s)"

lemma mm_malloc_ok:
  assumes ok: "mm_ok h bs" and sz: "0 < sz" "brk h + sz + SIZEOF_BLOCK \<le> brk_max h" and ns: "\<not> mm_splits sz bs"
  shows "\<exists>p n h' bs'. mm_malloc sz h = Some (p + off_data, h') \<and> mm_ok h' bs' \<and> sz \<le> n
    \<and> (p, n, 0) \<notin> set (mm_live bs) \<and> set (mm_live bs') = insert (p, n, 0) (set (mm_live bs))
    \<and> (\<forall>x. p + off_data \<le> x \<and> x < p + off_data + sz \<longrightarrow> hmem h' x = Some 0) \<and> data_kept (mm_live bs) (hmem h) (hmem h')"
proof (cases "fits sz bs")
  case Nil
  have "(brk h, sz, 0) \<notin> set bs" using ok laid_mem[of "brk_min h" "brk h" bs "brk h" sz 0] by (auto simp: mm_ok_def off_defs)
  then have n: "(brk h, sz, 0) \<notin> set (mm_live bs)" by (simp add: mm_live_mem)
  from mm_malloc_new[OF ok sz Nil] obtain h' where h': "mm_malloc sz h = Some (brk h + off_data, h')" "mm_ok h' (bs @ [(brk h, sz, 0)])"
    "\<forall>x. brk h + off_data \<le> x \<and> x < brk h + off_data + sz \<longrightarrow> hmem h' x = Some 0" "data_kept bs (hmem h) (hmem h')" by blast
  have "data_kept (mm_live bs) (hmem h) (hmem h')" using h'(4) by (auto simp: data_kept_def mm_live_def)
  then show ?thesis using n h' by (intro exI[of _ "brk h"] exI[of _ sz] exI[of _ h'] exI[of _ "bs @ [(brk h, sz, 0)]"]) simp
next
  case (Cons c r)
  obtain a s f where c: "c = (a, s, f)" by (cases c)
  have f: "fits sz bs = (a, s, f) # r" "s \<le> sz + SIZEOF_BLOCK" using Cons ns by (simp_all add: c mm_splits_def)
  from mm_malloc_reuse[OF ok sz f] obtain h' xs ys where h': "bs = xs @ (a, s, f) # ys" "f \<noteq> 0" "sz \<le> s"
    "mm_malloc sz h = Some (a + off_data, h')" "mm_ok h' (xs @ (a, s, 0) # ys)"
    "\<forall>x. a + off_data \<le> x \<and> x < a + off_data + sz \<longrightarrow> hmem h' x = Some 0" "data_kept bs (hmem h) (hmem h')" by blast
  have "laid (brk_min h) (brk h) bs" using ok by (simp add: mm_ok_def)
  from laid_apart[OF this, of a s f a s 0] have "(a, s, 0) \<notin> set bs" using h'(1,2) by (auto simp: off_defs)
  then have n: "(a, s, 0) \<notin> set (mm_live bs)" by (simp add: mm_live_mem)
  have "data_kept (mm_live bs) (hmem h) (hmem h')" using h'(7) by (auto simp: data_kept_def mm_live_def)
  moreover have "set (mm_live (xs @ (a, s, 0) # ys)) = insert (a, s, 0) (set (mm_live bs))" using h'(1,2) by auto
  ultimately show ?thesis using n h'(3-6) by blast
qed

lemma mm_live_apart:
  assumes "mm_ok h bs'" "set (mm_live bs') = insert (p, n, 0) (set (mm_live bs))" "(p, n, 0) \<notin> set (mm_live bs)"
  shows "\<forall>(b, t, g) \<in> set (mm_live bs). p + SIZEOF_BLOCK + n \<le> b \<or> b + SIZEOF_BLOCK + t \<le> p"
proof clarify
  fix b t g assume b: "(b, t, g) \<in> set (mm_live bs)" "\<not> b + SIZEOF_BLOCK + t \<le> p"
  have l: "laid (brk_min h) (brk h) bs'" using assms(1) by (simp add: mm_ok_def)
  have "(b, t, g) \<in> set (mm_live bs')" "(p, n, 0) \<in> set (mm_live bs')" unfolding assms(2) using b(1) by blast+
  then have "(b, t, g) \<in> set bs'" "(p, n, 0) \<in> set bs'" by (auto simp: mm_live_mem)
  from laid_apart[OF l this] show "p + SIZEOF_BLOCK + n \<le> b" using b assms(3) by auto
qed

lemma mm_ok_write:
  assumes ok: "mm_ok h bs" and b: "(p, n, 0) \<in> set bs" and m: "dom m = dom (hmem h)"
    "\<forall>x. x < p + off_data \<or> p + off_data + n \<le> x \<longrightarrow> m x = hmem h x"
  shows "mm_ok (h\<lparr>hmem := m\<rparr>) bs"
proof -
  have l: "laid (brk_min h) (brk h) bs" using ok by (simp add: mm_ok_def)
  have "seg m (mm_head h) bs NULL"
  proof (rule seg_cong[of "hmem h"])
    show "\<forall>(a, s, f) \<in> set bs. \<forall>x. a \<le> x \<and> x < a + off_data \<longrightarrow> m x = hmem h x"
    proof clarify
      fix a s f x assume "(a, s, f) \<in> set bs" "a \<le> x" "x < a + off_data"
      then show "m x = hmem h x" using laid_apart[OF l b, of a s f] m(2) by (auto simp: off_defs)
    qed
  qed (use ok in \<open>simp add: mm_ok_def\<close>)
  moreover have "room_for m (brk_min h) (brk h)" by (rule room_for_dom[OF _ m(1)]) (use ok in \<open>simp add: mm_ok_def\<close>)
  moreover have "m x = Some 0" if "(a, s, f) \<in> set bs" "f \<noteq> 0" "a + off_data \<le> x" "x < a + off_data + s" for a s f x
  proof -
    have "x < p + off_data \<or> p + off_data + n \<le> x" using laid_apart[OF l b that(1)] that(2-4) by (auto simp: off_defs)
    then show ?thesis using m(2) ok that by (fastforce simp: mm_ok_def)
  qed
  ultimately show ?thesis using ok by (auto simp: mm_ok_def)
qed

section \<open>Growing a block\<close>

lemma mm_realloc_ok:
  assumes ok: "mm_ok h bs" and b: "(a, s, 0) \<in> set bs" and sz: "s < sz" "brk h + sz + SIZEOF_BLOCK \<le> brk_max h"
    and ns: "\<not> mm_splits sz bs"
  shows "\<exists>p n h' bs'. mm_realloc (a + off_data) sz h = Some (p + off_data, h') \<and> mm_ok h' bs' \<and> sz \<le> n
    \<and> (p, n, 0) \<notin> set (mm_live bs) \<and> set (mm_live bs') = insert (p, n, 0) (set (mm_live bs) - {(a, s, 0)})
    \<and> (\<forall>i < s. hmem h' (p + off_data + i) = hmem h (a + off_data + i))
    \<and> data_kept (filter (\<lambda>b. b \<noteq> (a, s, 0)) (mm_live bs)) (hmem h) (hmem h')"
proof -
  have "0 < sz" using sz(1) by simp
  from mm_malloc_ok[OF ok this sz(2) ns] obtain p n h1 bs1 where h1: "mm_malloc sz h = Some (p + off_data, h1)"
    "mm_ok h1 bs1" "sz \<le> n" "(p, n, 0) \<notin> set (mm_live bs)" "set (mm_live bs1) = insert (p, n, 0) (set (mm_live bs))"
    "data_kept (mm_live bs) (hmem h) (hmem h1)" by blast
  let ?m = "hmem h1" and ?d = "p + off_data" and ?q = "a + off_data"
  have l: "laid (brk_min h1) (brk h1) bs1" and rm: "room_for ?m (brk_min h1) (brk h1)" using h1(2) by (simp_all add: mm_ok_def)
  have "(a, s, 0) \<in> set (mm_live bs)" using b by (simp add: mm_live_mem)
  then have mem: "(a, s, 0) \<in> set (mm_live bs1)" "(p, n, 0) \<in> set (mm_live bs1)" "(a, s, 0) \<noteq> (p, n, 0)" using h1(4,5) by auto
  then have bs1: "(a, s, 0) \<in> set bs1" "(p, n, 0) \<in> set bs1" by (simp_all add: mm_live_mem)
  have apart: "a + SIZEOF_BLOCK + s \<le> p \<or> p + SIZEOF_BLOCK + n \<le> a" using laid_apart[OF l bs1] mem(3) by auto
  have mps: "mapped ?q s ?m" "mapped ?d s ?m" using rm laid_mem[OF l bs1(1)] laid_mem[OF l bs1(2)] h1(3) sz(1)
    unfolding room_for_def by (auto elim!: mapped_part simp: off_defs)
  define m2 where "m2 = copied ?d ?q s ?m"
  have cp: "copy_up s ?d ?q ?m = Some m2" unfolding m2_def
    by (rule copy_up_copied) (use mps apart h1(3) sz(1) in \<open>auto simp: off_defs\<close>)
  have "dom m2 = dom ?m" unfolding m2_def using mps by (rule dom_copied)
  moreover have "\<forall>x. x < ?d \<or> ?d + n \<le> x \<longrightarrow> m2 x = ?m x" using h1(3) sz(1) by (auto simp: m2_def copied_def)
  ultimately have ok2: "mm_ok (h1\<lparr>hmem := m2\<rparr>) bs1" using mm_ok_write[OF h1(2) bs1(2)] by blast
  obtain xs ys where e: "bs1 = xs @ (a, s, 0) # ys" using bs1(1) split_list by fast
  from mm_free_ok[OF ok2[unfolded e]] obtain h' bs' where h': "mm_free ?q (h1\<lparr>hmem := m2\<rparr>) = Some h'" "mm_ok h' bs'"
    "mm_live bs' = mm_live xs @ mm_live ys" "data_kept (mm_live bs') m2 (hmem h')" by auto
  obtain us vs where "bs = us @ (a, s, 0) # vs" using b split_list by fast
  then have "ld64 a (hmem h) = Some s" using ok by (auto simp: mm_ok_def seg_append)
  moreover have "ld64 a ?m = Some s" using h1(2) by (auto simp: mm_ok_def seg_append e)
  ultimately have run: "mm_realloc ?q sz h = Some (?d, h')" using h1(1) h'(1) cp sz(1) \<open>0 < sz\<close>
    by (simp add: mm_realloc_def off_data_def)
  have "(a, s, 0) \<notin> set xs \<union> set ys" using l by (auto simp: e laid_append off_defs dest: laid_mem)
  then have "set (mm_live xs @ mm_live ys) = set (mm_live bs1) - {(a, s, 0)}" by (auto simp: e mm_live_def)
  then have lv: "set (mm_live bs') = insert (p, n, 0) (set (mm_live bs) - {(a, s, 0)})"
    unfolding h'(3) h1(5) using mem(3) by blast
  have pin: "(p, n, 0) \<in> set (mm_live bs')" unfolding lv by (rule insertI1)
  have "hmem h' (?d + i) = hmem h (?q + i)" if "i < s" for i
  proof -
    have "hmem h' (?d + i) = m2 (?d + i)"
      by (rule data_keptD[OF h'(4) pin]) (use that h1(3) sz(1) in auto)
    also have "\<dots> = ?m (?q + i)" using that by (simp add: m2_def copied_def)
    also have "\<dots> = hmem h (?q + i)" 
      by (rule data_keptD[OF h1(6), of a s 0]) (use \<open>(a, s, 0) \<in> set (mm_live bs)\<close> that in auto)
    finally show ?thesis .
  qed
  moreover have "hmem h' x = hmem h x"
    if c: "(c, t, g) \<in> set (mm_live bs)" "(c, t, g) \<noteq> (a, s, 0)" and x: "c + off_data \<le> x" "x < c + off_data + t" for c t g x
  proof -
    have "(c, t, g) \<in> set (mm_live bs')" unfolding lv using c by blast
    then have "hmem h' x = m2 x" using x by (rule data_keptD[OF h'(4)])
    have "(c, t, g) \<in> set (mm_live bs1)" "(c, t, g) \<noteq> (p, n, 0)" using c(1) h1(4) unfolding h1(5) by blast+
    then have "(c, t, g) \<in> set bs1" "(c, t, g) \<noteq> (p, n, 0)" by (auto simp: mm_live_mem)
    from laid_apart[OF l this(1) bs1(2)] this(2) have "x < ?d \<or> ?d + s \<le> x" using x h1(3) sz(1) by (auto simp: off_defs)
    then have "m2 x = ?m x" by (auto simp: m2_def copied_def)
    moreover have "?m x = hmem h x" using c(1) x by (rule data_keptD[OF h1(6)])
    ultimately show ?thesis using \<open>hmem h' x = m2 x\<close> by simp
  qed
  then have "data_kept (filter (\<lambda>b. b \<noteq> (a, s, 0)) (mm_live bs)) (hmem h) (hmem h')" by (auto simp: data_kept_def)
  ultimately show ?thesis using run h'(2) h1(3,4) lv by blast
qed

end
