(* ===== verification/Partition.thy ===== *)
theory Partition
  imports Inode
begin

text \<open>
  devices/partition.c: scanning a block device for partitions.  The device is its sectors and their
  number; what is registered is a list, in the order of the calls of \<open>block_register\<close>.  The messages and
  the names of the types are left out, and memory for the table and the descriptors is taken to be there.
  \<open>None\<close> is a panic or a recursion without an end.
\<close>

section \<open>The code\<close>

record partition_table_entry =
  pte_type :: nat
  pte_offset :: nat
  pte_size :: nat

record part =
  pa_type :: block_type
  pa_start :: nat
  pa_size :: nat
  pa_nr :: nat

definition table_entry :: "byte list \<Rightarrow> nat \<Rightarrow> partition_table_entry" where
  "table_entry b i = (let e = drop (446 + 16 * i) b in
     \<lparr>pte_type = unat (e ! 4), pte_offset = of_le32 (drop 8 e), pte_size = of_le32 (drop 12 e)\<rparr>)"

definition signature :: "byte list \<Rightarrow> nat" where
  "signature b = unat (b ! 510) + 256 * unat (b ! 511)"

text \<open>The entries of the table: the sector that is read is always the first one of the device, whatever
  sector the table was asked for.\<close>

definition table_entries :: "(nat \<Rightarrow> byte list) \<Rightarrow> nat \<Rightarrow> nat \<Rightarrow> partition_table_entry list" where
  "table_entries dev bsize sctr = (if sctr \<ge> bsize then []
     else let pt = dev 0 in
       if signature pt \<noteq> 0xaa55 then []
       else map (table_entry pt) [0..<4])"

definition extended_type :: "nat \<Rightarrow> bool" where
  "extended_type t \<longleftrightarrow> t = 0x05 \<or> t = 0x0f \<or> t = 0x85 \<or> t = 0xc5"

definition block_type_of :: "nat \<Rightarrow> block_type" where
  "block_type_of t = (if t = 0x20 then BLOCK_KERNEL else if t = 0x21 then BLOCK_FILESYS
     else if t = 0x22 then BLOCK_SCRATCH else if t = 0x23 then BLOCK_SWAP else BLOCK_FOREIGN)"

definition found_partition :: "nat \<Rightarrow> nat \<Rightarrow> nat \<Rightarrow> nat \<Rightarrow> nat \<Rightarrow> part list \<Rightarrow> part list" where
  "found_partition dev_size part_type start part_size part_nr ps = (let stop = (start + part_size) mod 2 ^ 32 in
     if start \<ge> dev_size then ps
     else if stop < start \<or> stop > dev_size then ps
     else ps @ [\<lparr>pa_type = block_type_of part_type, pa_start = start, pa_size = part_size, pa_nr = part_nr\<rparr>])"

text \<open>The loop over the entries of a table; the state is \<open>part_nr\<close> and the partitions registered.\<close>

partial_function (option) parse_partitions ::
  "(nat \<Rightarrow> byte list) \<Rightarrow> nat \<Rightarrow> nat \<Rightarrow> nat \<Rightarrow> partition_table_entry list \<Rightarrow> nat \<times> part list \<Rightarrow> (nat \<times> part list) option" where
  "parse_partitions dev bsize sctr primary es st = (case es of
     [] \<Rightarrow> Some st
   | e # es \<Rightarrow> do {
       st \<leftarrow> (if pte_size e = 0 \<or> pte_type e = 0 then Some st
             else if extended_type (pte_type e) then
               (let primary' = (if sctr = 0 then pte_offset e else primary);
                    sctr' = (if sctr = 0 then pte_offset e else (pte_offset e + primary) mod 2 ^ 32)
                in parse_partitions dev bsize sctr' primary' (table_entries dev bsize sctr') st)
             else Some (fst st + 1, found_partition bsize (pte_type e) ((pte_offset e + sctr) mod 2 ^ 32) (pte_size e) (fst st + 1) (snd st)));
       parse_partitions dev bsize sctr primary es st })"

definition read_partition_table ::
  "(nat \<Rightarrow> byte list) \<Rightarrow> nat \<Rightarrow> nat \<Rightarrow> nat \<Rightarrow> nat \<times> part list \<Rightarrow> (nat \<times> part list) option" where
  "read_partition_table dev bsize sctr primary st = parse_partitions dev bsize sctr primary (table_entries dev bsize sctr) st"

definition partition_scan :: "(nat \<Rightarrow> byte list) \<Rightarrow> nat \<Rightarrow> (nat \<times> part list) option" where
  "partition_scan dev bsize = read_partition_table dev bsize 0 0 (0, [])"

text \<open>The sector of the device a partition's operations access.\<close>

definition partition_sector :: "part \<Rightarrow> nat \<Rightarrow> nat" where
  "partition_sector p sctr = (pa_start p + sctr) mod 2 ^ 32"

definition partition_read :: "part \<Rightarrow> nat \<Rightarrow> fs \<Rightarrow> byte list option" where
  "partition_read p sctr s = block_read (partition_sector p sctr) s"

definition partition_write :: "part \<Rightarrow> nat \<Rightarrow> byte list \<Rightarrow> fs \<Rightarrow> fs option" where
  "partition_write p sctr b s = block_write (partition_sector p sctr) b s"

section \<open>Every partition lies inside the device\<close>

definition in_device :: "nat \<Rightarrow> part \<Rightarrow> bool" where
  "in_device bsize p \<longleftrightarrow> pa_start p < bsize \<and> pa_start p + pa_size p \<le> bsize"

lemma found_in_device:
  assumes "start < 2 ^ 32" "bsize < 2 ^ 32" "part_size < 2 ^ 32" "\<forall>p \<in> set ps. in_device bsize p"
  shows "\<forall>p \<in> set (found_partition bsize t start part_size nr ps). in_device bsize p"
proof (cases "start + part_size < 2 ^ 32")
  case True
  then show ?thesis using assms(4) by (auto simp: found_partition_def in_device_def Let_def)
next
  case False
  then have "(start + part_size) mod 2 ^ 32 = start + part_size - 2 ^ 32" using assms(1,3) by (simp add: mod_if)
  then have "(start + part_size) mod 2 ^ 32 < start" using assms(3) False by linarith
  then show ?thesis using assms(4) by (auto simp: found_partition_def Let_def)
qed

lemma le32_less: "of_le32 bs < 2 ^ 32"
proof -
  have u: "unat x < 256" for x :: byte using unsigned_less[of x] by simp
  have "of_le32 bs \<le> 255 + 256 * 255 + 65536 * 255 + 16777216 * 255"
    using u[of "bs ! 0"] u[of "bs ! 1"] u[of "bs ! 2"] u[of "bs ! 3"] by (simp add: of_le32_def)
  then show ?thesis by simp
qed

lemma table_entry_size: "pte_size (table_entry b i) < 2 ^ 32" "pte_offset (table_entry b i) < 2 ^ 32"
  unfolding table_entry_def Let_def using le32_less by simp_all

lemma table_entries_size: "\<forall>e \<in> set (table_entries dev bsize sctr). pte_size e < 2 ^ 32"
  using table_entry_size(1) by (auto simp: table_entries_def Let_def)

definition keeps_in_device :: "nat \<Rightarrow> partition_table_entry list \<Rightarrow> nat \<times> part list \<Rightarrow> nat \<times> part list \<Rightarrow> bool" where
  "keeps_in_device bsize es st st' \<longleftrightarrow> (bsize < 2 ^ 32 \<longrightarrow> (\<forall>e \<in> set es. pte_size e < 2 ^ 32)
     \<longrightarrow> (\<forall>p \<in> set (snd st). in_device bsize p) \<longrightarrow> (\<forall>p \<in> set (snd st'). in_device bsize p))"

lemma parse_keeps:
  assumes ret: "parse_partitions dev bsize sctr primary es st = Some st'"
  shows "keeps_in_device bsize es st st'"
proof (rule parse_partitions.raw_induct [where P = "\<lambda>dev bsize sctr primary es st st'. keeps_in_device bsize es st st'", OF _ ret])
  fix parse dev bsize sctr primary es st st'
  assume IH: "\<And>dev bsize sctr primary es st st'. parse dev bsize sctr primary es st = Some st' \<Longrightarrow> keeps_in_device bsize es st st'"
    and eq: "(case es of
     [] \<Rightarrow> Some st
   | e # es \<Rightarrow> do {
       st \<leftarrow> (if pte_size e = 0 \<or> pte_type e = 0 then Some st
             else if extended_type (pte_type e) then
               (let primary' = (if sctr = 0 then pte_offset e else primary);
                    sctr' = (if sctr = 0 then pte_offset e else (pte_offset e + primary) mod 2 ^ 32)
                in parse dev bsize sctr' primary' (table_entries dev bsize sctr') st)
             else Some (fst st + 1, found_partition bsize (pte_type e) ((pte_offset e + sctr) mod 2 ^ 32) (pte_size e) (fst st + 1) (snd st)));
       parse dev bsize sctr primary es st }) = Some st'"
  show "keeps_in_device bsize es st st'"
  proof (cases es)
    case Nil
    then show ?thesis using eq by (simp add: keeps_in_device_def)
  next
    case (Cons e es')
    let ?s' = "if sctr = 0 then pte_offset e else (pte_offset e + primary) mod 2 ^ 32"
    let ?p' = "if sctr = 0 then pte_offset e else primary"
    obtain u where u: "(if pte_size e = 0 \<or> pte_type e = 0 then Some st
             else if extended_type (pte_type e) then parse dev bsize ?s' ?p' (table_entries dev bsize ?s') st
             else Some (fst st + 1, found_partition bsize (pte_type e) ((pte_offset e + sctr) mod 2 ^ 32) (pte_size e) (fst st + 1) (snd st))) = Some u"
      "parse dev bsize sctr primary es' u = Some st'"
      using eq unfolding Cons list.case Let_def bind_eq_Some_conv by blast
    have rest: "keeps_in_device bsize es' u st'" by (rule IH[OF u(2)])
    consider "st = u" | "parse dev bsize ?s' ?p' (table_entries dev bsize ?s') st = Some u"
      | "u = (fst st + 1, found_partition bsize (pte_type e) ((pte_offset e + sctr) mod 2 ^ 32) (pte_size e) (fst st + 1) (snd st))"
      using u(1) by (auto split: if_split_asm)
    then have "keeps_in_device bsize es st u"
    proof cases
      case 1
      then show ?thesis by (simp add: keeps_in_device_def)
    next
      case 2
      from IH[OF this] show ?thesis using table_entries_size by (auto simp: keeps_in_device_def)
    next
      case 3
      have "\<forall>p \<in> set (found_partition bsize (pte_type e) ((pte_offset e + sctr) mod 2 ^ 32) (pte_size e) (fst st + 1) (snd st)). in_device bsize p"
        if "bsize < 2 ^ 32" "pte_size e < 2 ^ 32" "\<forall>p \<in> set (snd st). in_device bsize p"
        by (rule found_in_device[OF _ that]) simp
      then show ?thesis by (simp add: keeps_in_device_def Cons 3)
    qed
    then show ?thesis using rest by (simp add: keeps_in_device_def Cons)
  qed
qed

section \<open>Extended partitions\<close>

text \<open>Without one the scan ends.\<close>

lemma parse_returns:
  assumes "\<forall>e \<in> set es. \<not> extended_type (pte_type e) \<or> pte_size e = 0"
  shows "\<exists>st'. parse_partitions dev bsize sctr primary es st = Some st'"
  using assms
proof (induction es arbitrary: st)
  case Nil
  then show ?case by (simp add: parse_partitions.simps)
next
  case (Cons e es)
  then show ?case by (subst parse_partitions.simps) auto
qed

text \<open>With one it does not end: below the first table the same table is read again for the same sector.\<close>

definition bad_entry :: "(nat \<Rightarrow> byte list) \<Rightarrow> nat \<Rightarrow> partition_table_entry \<Rightarrow> bool" where
  "bad_entry dev bsize e \<longleftrightarrow> e \<in> set (table_entries dev bsize 0) \<and> extended_type (pte_type e) \<and> pte_size e \<noteq> 0
     \<and> 0 < pte_offset e \<and> pte_offset e < bsize \<and> 2 * pte_offset e < bsize"

lemma table_entries_sector: "sctr < bsize \<Longrightarrow> table_entries dev bsize sctr = table_entries dev bsize 0"
  by (simp add: table_entries_def)

definition avoids_bad :: "(nat \<Rightarrow> byte list) \<Rightarrow> nat \<Rightarrow> nat \<Rightarrow> nat \<Rightarrow> partition_table_entry list \<Rightarrow> bool" where
  "avoids_bad dev bsize sctr primary es \<longleftrightarrow> (\<forall>e. bad_entry dev bsize e \<longrightarrow> bsize < 2 ^ 32
     \<longrightarrow> (sctr = 0 \<or> primary = pte_offset e) \<longrightarrow> e \<notin> set es)"

lemma parse_stuck:
  assumes ret: "parse_partitions dev bsize sctr primary es st = Some st'"
  shows "avoids_bad dev bsize sctr primary es"
proof (rule parse_partitions.raw_induct [where P = "\<lambda>dev bsize sctr primary es st st'. avoids_bad dev bsize sctr primary es", OF _ ret])
  fix parse dev bsize sctr primary es st st'
  assume IH: "\<And>dev bsize sctr primary es st st'. parse dev bsize sctr primary es st = Some st' \<Longrightarrow> avoids_bad dev bsize sctr primary es"
    and eq: "(case es of
     [] \<Rightarrow> Some st
   | e # es \<Rightarrow> do {
       st \<leftarrow> (if pte_size e = 0 \<or> pte_type e = 0 then Some st
             else if extended_type (pte_type e) then
               (let primary' = (if sctr = 0 then pte_offset e else primary);
                    sctr' = (if sctr = 0 then pte_offset e else (pte_offset e + primary) mod 2 ^ 32)
                in parse dev bsize sctr' primary' (table_entries dev bsize sctr') st)
             else Some (fst st + 1, found_partition bsize (pte_type e) ((pte_offset e + sctr) mod 2 ^ 32) (pte_size e) (fst st + 1) (snd st)));
       parse dev bsize sctr primary es st }) = Some st'"
  show "avoids_bad dev bsize sctr primary es"
  proof (cases es)
    case Nil
    then show ?thesis by (simp add: avoids_bad_def)
  next
    case (Cons e es')
    let ?s' = "if sctr = 0 then pte_offset e else (pte_offset e + primary) mod 2 ^ 32"
    let ?p' = "if sctr = 0 then pte_offset e else primary"
    obtain u where u: "(if pte_size e = 0 \<or> pte_type e = 0 then Some st
             else if extended_type (pte_type e) then parse dev bsize ?s' ?p' (table_entries dev bsize ?s') st
             else Some (fst st + 1, found_partition bsize (pte_type e) ((pte_offset e + sctr) mod 2 ^ 32) (pte_size e) (fst st + 1) (snd st))) = Some u"
      "parse dev bsize sctr primary es' u = Some st'"
      using eq unfolding Cons list.case Let_def bind_eq_Some_conv by blast
    have False if b: "bad_entry dev bsize e" "bsize < 2 ^ 32" "sctr = 0 \<or> primary = pte_offset e"
    proof -
      have e: "extended_type (pte_type e)" "pte_size e \<noteq> 0" "pte_type e \<noteq> 0" "0 < pte_offset e" "pte_offset e < bsize"
        "2 * pte_offset e < bsize" "e \<in> set (table_entries dev bsize 0)"
        using b(1) by (auto simp: bad_entry_def extended_type_def)
      have p: "parse dev bsize ?s' ?p' (table_entries dev bsize ?s') st = Some u" using u(1) e(1-3) by simp
      have "?s' < bsize" using b(2,3) e(4-6) by auto
      have "e \<in> set (table_entries dev bsize ?s')" unfolding table_entries_sector[OF \<open>?s' < bsize\<close>] by (rule e(7))
      have "?p' = pte_offset e" using b(3) by auto
      from IH[OF p, unfolded avoids_bad_def, rule_format, OF b(1,2) disjI2[OF this]] show False
        using \<open>e \<in> set (table_entries dev bsize ?s')\<close> by (rule notE)
    qed
    then show ?thesis using IH[OF u(2)] by (auto simp: avoids_bad_def Cons)
  qed
qed

lemma scan_stuck:
  assumes "bad_entry dev bsize e" "bsize < 2 ^ 32"
  shows "partition_scan dev bsize = None"
proof (cases "partition_scan dev bsize")
  case (Some st)
  then show ?thesis using parse_stuck[OF Some[unfolded partition_scan_def read_partition_table_def]] assms
    by (auto simp: avoids_bad_def bad_entry_def)
qed

end
