(* ===== verification/Rc4.thy ===== *)
theory Rc4
  imports Prelude
begin

text \<open>
  lib/random.c: the pseudo-random generator.  Bytes are machine words, so every sum wraps as it does in
  the code; the bytes of the seed are those of a little-endian \<open>unsigned\<close>.
\<close>

section \<open>The code\<close>

record rc4 =
  rc_s :: "8 word list"
  rc_i :: "8 word"
  rc_j :: "8 word"
  inited :: bool

definition swap_byte :: "8 word list \<Rightarrow> nat \<Rightarrow> nat \<Rightarrow> 8 word list" where
  "swap_byte s a b = (let t = s ! a in (s[a := s ! b])[b := t])"

definition seedp :: "32 word \<Rightarrow> nat \<Rightarrow> 8 word" where
  "seedp seed k = ucast (drop_bit (8 * (k mod 4)) seed)"

definition random_init :: "32 word \<Rightarrow> rc4" where
  "random_init seed = (let
     (s, j) = fold (\<lambda>i (s, j). let j = j + s ! i + seedp seed i in (swap_byte s i (unat j), j))
       [0..<256] (map word_of_nat [0..<256], 0)
     in \<lparr>rc_s = s, rc_i = 0, rc_j = 0, inited = True\<rparr>)"

text \<open>One round: the byte and the new state.\<close>

definition random_byte :: "rc4 \<Rightarrow> 8 word \<times> rc4" where
  "random_byte r = (let
     i = rc_i r + 1;
     j = rc_j r + rc_s r ! unat i;
     s = swap_byte (rc_s r) (unat i) (unat j);
     k = s ! unat i + s ! unat j
     in (s ! unat k, r\<lparr>rc_s := s, rc_i := i, rc_j := j\<rparr>))"

primrec random_loop :: "nat \<Rightarrow> rc4 \<Rightarrow> 8 word list \<times> rc4" where
  "random_loop 0 r = ([], r)"
| "random_loop (Suc n) r = (let (b, r) = random_byte r; (bs, r) = random_loop n r in (b # bs, r))"

definition random_bytes :: "nat \<Rightarrow> rc4 \<Rightarrow> 8 word list \<times> rc4" where
  "random_bytes n r = random_loop n (if \<not> inited r then random_init 0 else r)"

text \<open>The four bytes of an \<open>unsigned long\<close>, lowest first.\<close>

definition random_ulong :: "rc4 \<Rightarrow> 32 word \<times> rc4" where
  "random_ulong r = (let (bs, r) = random_bytes 4 r in
     (\<Sum>k \<leftarrow> [0..<4]. push_bit (8 * k) (ucast (bs ! k)), r))"

section \<open>The state is a permutation\<close>

definition rc4_ok :: "rc4 \<Rightarrow> bool" where
  "rc4_ok r \<longleftrightarrow> inited r \<and> mset (rc_s r) = mset (map word_of_nat [0..<256])"

lemma length_swap_byte [simp]: "length (swap_byte s a b) = length s"
  by (simp add: swap_byte_def)

lemma mset_swap_byte: "a < length s \<Longrightarrow> b < length s \<Longrightarrow> mset (swap_byte s a b) = mset s"
  unfolding swap_byte_def Let_def by (rule mset_swap)

lemma unat_byte_less: "unat (b :: 8 word) < 256"
  using unsigned_less[of b] by simp

lemma rc4_ok_length: "rc4_ok r \<Longrightarrow> length (rc_s r) = 256"
  using mset_eq_length[of "rc_s r" "map word_of_nat [0..<256]"] by (simp add: rc4_ok_def)

lemma init_fold_ok:
  assumes "mset (fst p) = mset (map word_of_nat [0..<256] :: 8 word list)" "\<forall>i \<in> set is. i < 256"
  shows "mset (fst (fold (\<lambda>i (s, j). let j = j + s ! i + seedp seed i in (swap_byte s i (unat j), j)) is p)) = mset (map word_of_nat [0..<256])"
  using assms
proof (induction "is" arbitrary: p)
  case (Cons i "is")
  obtain s j where p: "p = (s, j)" by (cases p)
  have "length s = 256" using mset_eq_length[OF Cons.prems(1)] by (simp add: p)
  then have "mset (swap_byte s i (unat (j + s ! i + seedp seed i))) = mset s"
    using Cons.prems(2) unat_byte_less by (intro mset_swap_byte) simp_all
  then show ?case using Cons.IH[of "(swap_byte s i (unat (j + s ! i + seedp seed i)), j + s ! i + seedp seed i)"] Cons.prems p
    by (simp add: Let_def)
qed simp

lemma random_init_ok: "rc4_ok (random_init seed)"
  using init_fold_ok[of "(map word_of_nat [0..<256], 0)" "[0..<256]" seed]
  by (simp add: random_init_def rc4_ok_def split: prod.splits) force

lemma random_byte_ok:
  assumes "rc4_ok r"
  shows "rc4_ok (snd (random_byte r))"
  using assms mset_swap_byte[of _ "rc_s r"] rc4_ok_length[OF assms] unat_byte_less
  by (simp add: random_byte_def rc4_ok_def Let_def)

lemma random_loop_ok: "rc4_ok r \<Longrightarrow> rc4_ok (snd (random_loop n r)) \<and> length (fst (random_loop n r)) = n"
proof (induction n arbitrary: r)
  case (Suc n)
  then show ?case using random_byte_ok[of r] by (fastforce split: prod.splits simp: Let_def)
qed simp

lemma random_loop_add:
  "random_loop (n + m) r = (fst (random_loop n r) @ fst (random_loop m (snd (random_loop n r))), snd (random_loop m (snd (random_loop n r))))"
  by (induction n arbitrary: r) (simp_all add: Let_def split_beta)

lemma distinct_bytes: "distinct (map word_of_nat [0..<256] :: 8 word list)"
  by (auto simp: distinct_map inj_on_def word_of_nat_eq_iff take_bit_nat_eq_self)

text \<open>Every byte value occurs in the state exactly once.\<close>

lemma rc4_ok_perm: "rc4_ok r \<Longrightarrow> distinct (rc_s r) \<and> set (rc_s r) = UNIV"
proof -
  assume ok: "rc4_ok r"
  then have "mset (rc_s r) = mset (map word_of_nat [0..<256])" by (simp add: rc4_ok_def)
  then have d: "distinct (rc_s r)" using distinct_bytes mset_eq_imp_distinct_iff by blast
  have "card (set (rc_s r)) = 256" using distinct_card[OF d] rc4_ok_length[OF ok] by simp
  then have "set (rc_s r) = UNIV" by (intro card_subset_eq) (simp_all add: card_word)
  then show ?thesis using d by simp
qed

lemma random_bytes_stream:
  assumes "inited r \<Longrightarrow> rc4_ok r" "random_bytes n r = (bs, r')"
  shows "rc4_ok r'" "length bs = n" "random_bytes (n + m) r = (bs @ fst (random_bytes m r'), snd (random_bytes m r'))"
proof -
  let ?r = "if \<not> inited r then random_init 0 else r"
  have ok: "rc4_ok ?r" using assms(1) random_init_ok by simp
  have l: "random_loop n ?r = (bs, r')" using assms(2) by (simp add: random_bytes_def)
  show ok': "rc4_ok r'" "length bs = n" using random_loop_ok[OF ok, of n] l by simp_all
  have "random_bytes m r' = random_loop m r'" using ok'(1) by (simp add: random_bytes_def rc4_ok_def)
  then show "random_bytes (n + m) r = (bs @ fst (random_bytes m r'), snd (random_bytes m r'))"
    using random_loop_add[of n m ?r] l by (simp add: random_bytes_def)
qed

section \<open>The reference: RC4 over natural numbers\<close>

text \<open>
  The cipher as textbooks give it, with the table a function on the numbers below 256 and every sum
  taken modulo 256: key schedule for a key of four bytes, state after \<open>t\<close> rounds, byte of round \<open>t\<close>.
\<close>

definition key_byte :: "nat \<Rightarrow> nat \<Rightarrow> nat" where
  "key_byte seed i = seed div 256 ^ (i mod 4) mod 256"

definition exchange :: "(nat \<Rightarrow> nat) \<Rightarrow> nat \<Rightarrow> nat \<Rightarrow> nat \<Rightarrow> nat" where
  "exchange S a b = S(a := S b, b := S a)"

primrec schedule_key :: "nat \<Rightarrow> nat \<Rightarrow> (nat \<Rightarrow> nat) \<times> nat" where
  "schedule_key seed 0 = (\<lambda>k. k, 0)"
| "schedule_key seed (Suc i) = (let (S, j) = schedule_key seed i; j' = (j + S i + key_byte seed i) mod 256
     in (exchange S i j', j'))"

primrec rounds :: "nat \<Rightarrow> nat \<Rightarrow> (nat \<Rightarrow> nat) \<times> nat" where
  "rounds seed 0 = (fst (schedule_key seed 256), 0)"
| "rounds seed (Suc t) = (let (S, j) = rounds seed t; i = Suc t mod 256; j' = (j + S i) mod 256
     in (exchange S i j', j'))"

definition key_stream :: "nat \<Rightarrow> nat \<Rightarrow> nat" where
  "key_stream seed t = (let (S, j) = rounds seed (Suc t) in S ((S (Suc t mod 256) + S j) mod 256))"

definition table_agrees :: "8 word list \<Rightarrow> 8 word \<Rightarrow> (nat \<Rightarrow> nat) \<times> nat \<Rightarrow> bool" where
  "table_agrees s j p \<longleftrightarrow> length s = 256 \<and> (\<forall>k < 256. unat (s ! k) = fst p k) \<and> unat j = snd p"

lemma unat_byte_add: "unat (a + b :: 8 word) = (unat a + unat b) mod 256"
  by (simp add: unat_word_ariths)

lemma unat_byte_of_nat: "unat (word_of_nat n :: 8 word) = n mod 256"
  by (simp add: unat_of_nat)

lemma table_agrees_swap:
  assumes "table_agrees s j (S, J)" "a < 256"
  shows "table_agrees (swap_byte s a (unat j')) j' (exchange S a (unat j'), unat j')"
  using assms unat_byte_less[of j'] by (auto simp: table_agrees_def swap_byte_def exchange_def Let_def nth_list_update)

lemma unat_seedp: "unat (seedp seed i) = key_byte (unat seed) i"
proof -
  have "(256 :: nat) ^ (i mod 4) = 2 ^ (8 * (i mod 4))" by (simp add: power_mult)
  then show ?thesis
    unfolding seedp_def key_byte_def unsigned_ucast_eq unat_drop_bit_eq
    by (simp add: drop_bit_eq_div take_bit_eq_mod)
qed

lemma schedule_same:
  "n \<le> 256 \<Longrightarrow> case fold (\<lambda>i (s, j). let j = j + s ! i + seedp seed i in (swap_byte s i (unat j), j))
     [0..<n] (map word_of_nat [0..<256], 0) of (s, j) \<Rightarrow> table_agrees s j (schedule_key (unat seed) n)"
proof (induction n)
  case 0
  show ?case by (simp add: table_agrees_def unat_byte_of_nat)
next
  case (Suc n)
  obtain s j where f: "fold (\<lambda>i (s, j). let j = j + s ! i + seedp seed i in (swap_byte s i (unat j), j))
      [0..<n] (map word_of_nat [0..<256], 0) = (s, j)" by fastforce
  obtain S J where S: "schedule_key (unat seed) n = (S, J)" by fastforce
  have r: "table_agrees s j (S, J)" using Suc f S by simp
  then have "unat (j + s ! n + seedp seed n) = (J + S n + key_byte (unat seed) n) mod 256"
    using Suc.prems by (simp add: table_agrees_def unat_byte_add unat_seedp mod_simps)
  then show ?case using table_agrees_swap[OF r, of n "j + s ! n + seedp seed n"] f S Suc.prems by (simp add: Let_def)
qed

definition after_rounds :: "rc4 \<Rightarrow> nat \<Rightarrow> nat \<Rightarrow> bool" where
  "after_rounds r seed t \<longleftrightarrow> inited r \<and> unat (rc_i r) = t mod 256 \<and> table_agrees (rc_s r) (rc_j r) (rounds seed t)"

lemma init_after: "after_rounds (random_init seed) (unat seed) 0"
  using schedule_same[of 256 seed] by (auto simp: after_rounds_def random_init_def table_agrees_def split: prod.splits)

lemma byte_after:
  assumes "after_rounds r seed t"
  shows "unat (fst (random_byte r)) = key_stream seed t" "after_rounds (snd (random_byte r)) seed (Suc t)"
proof -
  define i where "i = rc_i r + 1"
  define j where "j = rc_j r + rc_s r ! unat i"
  define s where "s = swap_byte (rc_s r) (unat i) (unat j)"
  obtain S J where S: "rounds seed t = (S, J)" by fastforce
  have tab: "table_agrees (rc_s r) (rc_j r) (S, J)" using assms S by (simp add: after_rounds_def)
  have i: "unat i = Suc t mod 256" using assms by (simp add: i_def unat_byte_add after_rounds_def mod_simps)
  have j: "unat j = (J + S (Suc t mod 256)) mod 256"
    using tab i by (simp add: j_def unat_byte_add table_agrees_def)
  have next_tab: "table_agrees s j (rounds seed (Suc t))"
    using table_agrees_swap[OF tab unat_byte_less, of i j] i j by (simp add: s_def S Let_def)
  have r: "random_byte r = (s ! unat (s ! unat i + s ! unat j), r\<lparr>rc_s := s, rc_i := i, rc_j := j\<rparr>)"
    by (simp add: random_byte_def Let_def i_def j_def s_def)
  show "after_rounds (snd (random_byte r)) seed (Suc t)"
    using assms i next_tab r by (simp add: after_rounds_def)
  have nth: "unat (s ! k) = fst (rounds seed (Suc t)) k" if "k < 256" for k
    using next_tab that by (simp add: table_agrees_def del: rounds.simps)
  have sj: "unat j = snd (rounds seed (Suc t))" using next_tab by (simp add: table_agrees_def del: rounds.simps)
  have "snd (rounds seed (Suc t)) < 256" using unat_byte_less[of j] sj by (simp del: rounds.simps)
  then show "unat (fst (random_byte r)) = key_stream seed t"
    using r i unfolding sj by (simp add: key_stream_def unat_byte_add split_beta nth del: rounds.simps)
qed

lemma loop_after: "after_rounds r seed t \<Longrightarrow>
    map unat (fst (random_loop n r)) = map (key_stream seed) [t..<t + n] \<and> after_rounds (snd (random_loop n r)) seed (t + n)"
proof (induction n arbitrary: r t)
  case (Suc n)
  have "[t..<t + Suc n] = t # [Suc t..<Suc t + n]" by (simp add: upt_conv_Cons del: upt_Suc)
  then show ?case
    using byte_after[OF Suc.prems] Suc.IH[OF byte_after(2)[OF Suc.prems]] by (simp add: split_beta Let_def del: upt_Suc)
qed simp

lemma random_bytes_key_stream:
  assumes "after_rounds r seed t"
  shows "map unat (fst (random_bytes n r)) = map (key_stream seed) [t..<t + n]"
    "after_rounds (snd (random_bytes n r)) seed (t + n)"
  using loop_after[OF assms, of n] assms by (simp_all add: random_bytes_def after_rounds_def)

lemma random_bytes_fresh: "\<not> inited r \<Longrightarrow> random_bytes n r = random_bytes n (random_init 0)"
  by (simp add: random_bytes_def random_init_def split: prod.splits)

end
