(* ===== verification/Stdlib.thy ===== *)
theory Stdlib
  imports Prelude
begin

text \<open>
  lib/stdlib.c: the heap sort behind \<open>qsort\<close>, the binary search and \<open>atoi\<close>.  An array of \<open>cnt\<close>
  elements of \<open>size\<close> bytes is a list of elements; the byte-wise exchange of two elements is the
  exchange of two list entries.  Heap indices are the 1-based ones of the source; the arrays have
  fewer than \<open>2^31\<close> elements, so that \<open>2 * i + 1\<close> does not wrap.  The lemmas show that the sort
  returns a sorted permutation and that the search is correct on sorted arrays.
\<close>

section \<open>Sorting\<close>

definition do_swap :: "'a list \<Rightarrow> nat \<Rightarrow> nat \<Rightarrow> 'a list" where
  "do_swap array a_idx b_idx =
     array[a_idx - 1 := array ! (b_idx - 1), b_idx - 1 := array ! (a_idx - 1)]"

definition do_compare :: "'a list \<Rightarrow> nat \<Rightarrow> nat \<Rightarrow> ('a \<Rightarrow> 'a \<Rightarrow> int) \<Rightarrow> int" where
  "do_compare array a_idx b_idx compare = compare (array ! (a_idx - 1)) (array ! (b_idx - 1))"

text \<open>The index of the largest element among \<open>i\<close> and its children.\<close>

definition heap_max :: "'a list \<Rightarrow> nat \<Rightarrow> nat \<Rightarrow> ('a \<Rightarrow> 'a \<Rightarrow> int) \<Rightarrow> nat" where
  "heap_max array i cnt compare = (let
     left = 2 * i; right = 2 * i + 1; mx = i;
     mx = (if left \<le> cnt \<and> do_compare array left mx compare > 0 then left else mx);
     mx = (if right \<le> cnt \<and> do_compare array right mx compare > 0 then right else mx)
     in mx)"

lemma heap_max_cases: "heap_max array i cnt compare = i \<or>
   (heap_max array i cnt compare \<in> {2 * i, 2 * i + 1} \<and> i < heap_max array i cnt compare
     \<and> heap_max array i cnt compare \<le> cnt)"
  by (auto simp: heap_max_def Let_def)

function heapify :: "'a list \<Rightarrow> nat \<Rightarrow> nat \<Rightarrow> ('a \<Rightarrow> 'a \<Rightarrow> int) \<Rightarrow> 'a list" where
  "heapify array i cnt compare =
     (let mx = heap_max array i cnt compare in
      if mx = i then array else heapify (do_swap array i mx) mx cnt compare)"
  by pat_completeness auto
termination
proof (relation "measure (\<lambda>(array, i, cnt, compare). cnt - i)")
  fix array :: "'a list" and i cnt compare mx
  assume "mx = heap_max array i cnt compare" "mx \<noteq> i"
  then show "((do_swap array i mx, mx, cnt, compare), (array, i, cnt, compare))
    \<in> measure (\<lambda>(array, i, cnt, compare). cnt - i)"
    using heap_max_cases[of array i cnt compare] by auto
qed simp

declare heapify.simps [simp del]

primrec build_heap :: "nat \<Rightarrow> 'a list \<Rightarrow> nat \<Rightarrow> ('a \<Rightarrow> 'a \<Rightarrow> int) \<Rightarrow> 'a list" where
  "build_heap 0 array cnt compare = array"
| "build_heap (Suc i) array cnt compare = build_heap i (heapify array (Suc i) cnt compare) cnt compare"

fun sort_heap :: "nat \<Rightarrow> 'a list \<Rightarrow> ('a \<Rightarrow> 'a \<Rightarrow> int) \<Rightarrow> 'a list" where
  "sort_heap i array compare =
     (if i > 1 then sort_heap (i - 1) (heapify (do_swap array 1 i) 1 (i - 1) compare) compare
      else array)"

declare sort_heap.simps [simp del]

definition heap_sort :: "'a list \<Rightarrow> ('a \<Rightarrow> 'a \<Rightarrow> int) \<Rightarrow> 'a list" where
  "heap_sort array compare =
     (let cnt = length array in sort_heap cnt (build_heap (cnt div 2) array cnt compare) compare)"

definition qsort :: "'a list \<Rightarrow> ('a \<Rightarrow> 'a \<Rightarrow> int) \<Rightarrow> 'a list" where
  "qsort array compare = heap_sort array compare"

section \<open>Searching\<close>

function binary_search_loop :: "'k \<Rightarrow> 'a list \<Rightarrow> nat \<Rightarrow> nat \<Rightarrow> ('k \<Rightarrow> 'a \<Rightarrow> int) \<Rightarrow> nat option" where
  "binary_search_loop key array frst lst compare =
     (if frst < lst then
        (let range = lst - frst; middle = frst + range div 2; cmp = compare key (array ! middle) in
         if cmp < 0 then binary_search_loop key array frst middle compare
         else if cmp > 0 then binary_search_loop key array (middle + 1) lst compare
         else Some middle)
      else None)"
  by pat_completeness auto
termination by (relation "measure (\<lambda>(key, array, frst, lst, compare). lst - frst)") auto

declare binary_search_loop.simps [simp del]

definition binary_search :: "'k \<Rightarrow> 'a list \<Rightarrow> ('k \<Rightarrow> 'a \<Rightarrow> int) \<Rightarrow> nat option" where
  "binary_search key array compare = binary_search_loop key array 0 (length array) compare"

definition bsearch :: "'k \<Rightarrow> 'a list \<Rightarrow> ('k \<Rightarrow> 'a \<Rightarrow> int) \<Rightarrow> nat option" where
  "bsearch key array compare = binary_search key array compare"

section \<open>Heaps\<close>

definition strcmp_like :: "('a \<Rightarrow> 'a \<Rightarrow> int) \<Rightarrow> ('a \<Rightarrow> 'k::linorder) \<Rightarrow> bool" where
  "strcmp_like compare key \<longleftrightarrow> (\<forall>a b. compare a b > 0 \<longleftrightarrow> key b < key a)"

definition hkey :: "('a \<Rightarrow> 'k) \<Rightarrow> 'a list \<Rightarrow> nat \<Rightarrow> 'k" where
  "hkey key xs j = key (xs ! (j - 1))"

definition is_heap :: "('a \<Rightarrow> 'k::linorder) \<Rightarrow> 'a list \<Rightarrow> nat \<Rightarrow> nat \<Rightarrow> bool" where
  "is_heap key xs cnt lo \<longleftrightarrow>
     (\<forall>j. 2 \<le> j \<and> j \<le> cnt \<and> lo \<le> j div 2 \<longrightarrow> hkey key xs j \<le> hkey key xs (j div 2))"

text \<open>A heap except below \<open>i\<close>, whose children are still below the parent of \<open>i\<close>.\<close>

definition heap_but :: "('a \<Rightarrow> 'k::linorder) \<Rightarrow> 'a list \<Rightarrow> nat \<Rightarrow> nat \<Rightarrow> nat \<Rightarrow> bool" where
  "heap_but key xs cnt lo i \<longleftrightarrow>
     (\<forall>j. 2 \<le> j \<and> j \<le> cnt \<and> lo \<le> j div 2 \<and> j div 2 \<noteq> i \<longrightarrow> hkey key xs j \<le> hkey key xs (j div 2))
   \<and> (\<forall>j. 2 \<le> j \<and> j \<le> cnt \<and> j div 2 = i \<and> 2 \<le> i \<and> lo \<le> i div 2 \<longrightarrow>
        hkey key xs j \<le> hkey key xs (i div 2))"

lemma hkey_swap:
  assumes "1 \<le> a" "a \<le> length xs" "1 \<le> b" "b \<le> length xs" "1 \<le> j" "j \<le> length xs"
  shows "hkey key (do_swap xs a b) j
     = (if j = a then hkey key xs b else if j = b then hkey key xs a else hkey key xs j)"
  using assms by (auto simp: hkey_def do_swap_def nth_list_update)

lemma length_do_swap [simp]: "length (do_swap xs a b) = length xs"
  by (simp add: do_swap_def)

lemma do_swap_take_drop:
  assumes "1 \<le> a" "a \<le> cnt" "1 \<le> b" "b \<le> cnt" "cnt \<le> length xs"
  shows "mset (take cnt (do_swap xs a b)) = mset (take cnt xs)"
    and "drop cnt (do_swap xs a b) = drop cnt xs"
proof -
  have "take cnt (do_swap xs a b) = (take cnt xs)[a - 1 := take cnt xs ! (b - 1), b - 1 := take cnt xs ! (a - 1)]"
    using assms by (simp add: do_swap_def take_update_swap)
  moreover have "a - 1 < length (take cnt xs)" "b - 1 < length (take cnt xs)" using assms by auto
  ultimately show "mset (take cnt (do_swap xs a b)) = mset (take cnt xs)"
    using mset_swap[of "b - 1" "take cnt xs" "a - 1"] by simp
  show "drop cnt (do_swap xs a b) = drop cnt xs"
    using assms by (simp add: do_swap_def drop_update_cancel)
qed

lemma heap_max_key:
  assumes c: "strcmp_like compare key" and i: "1 \<le> i"
    and j: "j = i \<or> (2 \<le> j \<and> j \<le> cnt \<and> j div 2 = i)"
  shows "hkey key xs j \<le> hkey key xs (heap_max xs i cnt compare)"
proof -
  have ch: "j = i \<or> j = 2 * i \<or> j = 2 * i + 1" using j by linarith
  have gt: "do_compare xs a b compare > 0 \<longleftrightarrow> hkey key xs b < hkey key xs a" for a b
    using c by (simp add: do_compare_def hkey_def strcmp_like_def)
  show ?thesis using ch j unfolding heap_max_def Let_def gt
    by (auto simp: not_less dest: less_imp_le intro: order_trans)
qed

lemma heapify_heap:
  assumes "strcmp_like compare key" "heap_but key xs cnt lo i" "lo \<le> i" "1 \<le> i" "cnt \<le> length xs"
  shows "is_heap key (heapify xs i cnt compare) cnt lo
    \<and> mset (take cnt (heapify xs i cnt compare)) = mset (take cnt xs)
    \<and> drop cnt (heapify xs i cnt compare) = drop cnt xs
    \<and> length (heapify xs i cnt compare) = length xs"
  using assms
proof (induction xs i cnt compare rule: heapify.induct)
  case (1 xs i cnt compare)
  define mx where "mx = heap_max xs i cnt compare"
  note mk = heap_max_key[OF "1.prems"(1,4), where xs = xs and cnt = cnt, folded mx_def]
  show ?case
  proof (cases "mx = i")
    case True
    then have "is_heap key xs cnt lo"
      using "1.prems"(2) mk unfolding is_heap_def heap_but_def by metis
    then show ?thesis using True by (simp add: heapify.simps[of xs i] flip: mx_def)
  next
    case False
    then have mx: "mx div 2 = i" "i < mx" "mx \<le> cnt"
      using heap_max_cases[of xs i cnt compare] by (auto simp: mx_def)
    let ?ys = "do_swap xs i mx"
    have sw: "hkey key ?ys j = (if j = i then hkey key xs mx else if j = mx then hkey key xs i else hkey key xs j)"
      if "1 \<le> j" "j \<le> cnt" for j
      using hkey_swap[of i xs mx j key] mx "1.prems"(4,5) that by simp
    have hb: "heap_but key ?ys cnt lo mx"
      unfolding heap_but_def
    proof (intro conjI allI impI)
      fix j assume j: "2 \<le> j \<and> j \<le> cnt \<and> lo \<le> j div 2 \<and> j div 2 \<noteq> mx"
      then have jd: "1 \<le> j div 2" "j div 2 \<le> cnt" "j div 2 < j" by auto
      have old: "j div 2 \<noteq> i \<Longrightarrow> hkey key xs j \<le> hkey key xs (j div 2)"
        using "1.prems"(2) j unfolding heap_but_def by blast
      have up: "j = i \<Longrightarrow> hkey key xs mx \<le> hkey key xs (i div 2)"
        using "1.prems"(2) j mx unfolding heap_but_def by auto
      have "j div 2 = i \<Longrightarrow> hkey key xs j \<le> hkey key xs mx" using mk[of j] j by simp
      moreover have "hkey key xs i \<le> hkey key xs mx" using mk[of i] by simp
      ultimately show "hkey key ?ys j \<le> hkey key ?ys (j div 2)"
        using sw[of j] sw[of "j div 2"] j jd old up mx by (auto split: if_splits)
    next
      fix j assume j: "2 \<le> j \<and> j \<le> cnt \<and> j div 2 = mx \<and> 2 \<le> mx \<and> lo \<le> mx div 2"
      then have "mx < j" by auto
      have "hkey key xs j \<le> hkey key xs mx"
        using "1.prems"(2,3) j mx unfolding heap_but_def by auto
      moreover have "hkey key ?ys j = hkey key xs j" "hkey key ?ys (mx div 2) = hkey key xs mx"
        using sw[of j] sw[of "mx div 2"] j \<open>mx < j\<close> mx "1.prems"(4) by auto
      ultimately show "hkey key ?ys j \<le> hkey key ?ys (mx div 2)" by simp
    qed
    have IH: "is_heap key (heapify ?ys mx cnt compare) cnt lo
      \<and> mset (take cnt (heapify ?ys mx cnt compare)) = mset (take cnt ?ys)
      \<and> drop cnt (heapify ?ys mx cnt compare) = drop cnt ?ys
      \<and> length (heapify ?ys mx cnt compare) = length ?ys"
      by (rule "1.IH"[OF mx_def False "1.prems"(1) hb]) (use mx "1.prems" in auto)
    have "heapify xs i cnt compare = heapify ?ys mx cnt compare"
      using False by (simp add: heapify.simps[of xs i] flip: mx_def)
    then show ?thesis using IH do_swap_take_drop[of i cnt mx xs] mx "1.prems"(4,5) by simp
  qed
qed

lemma build_heap_heap:
  assumes "strcmp_like compare key"
  shows "is_heap key xs (length xs) (Suc i) \<Longrightarrow>
    is_heap key (build_heap i xs (length xs) compare) (length xs) 1
    \<and> mset (build_heap i xs (length xs) compare) = mset xs"
proof (induction i arbitrary: xs)
  case (Suc i)
  have "heap_but key xs (length xs) (Suc i) (Suc i)"
    using Suc.prems unfolding heap_but_def is_heap_def by auto
  from heapify_heap[OF assms this] have h:
    "is_heap key (heapify xs (Suc i) (length xs) compare) (length xs) (Suc i)"
    "mset (heapify xs (Suc i) (length xs) compare) = mset xs"
    "length (heapify xs (Suc i) (length xs) compare) = length xs" by auto
  then show ?case using Suc.IH[of "heapify xs (Suc i) (length xs) compare"] by simp
qed simp

lemma heap_root_max:
  assumes "is_heap key xs cnt 1" "1 \<le> j" "j \<le> cnt"
  shows "hkey key xs j \<le> hkey key xs 1"
  using assms(2,3)
proof (induction j rule: less_induct)
  case (less j)
  show ?case
  proof (cases "j = 1")
    case False
    then have "hkey key xs j \<le> hkey key xs (j div 2)"
      using assms(1) less.prems unfolding is_heap_def by auto
    then show ?thesis using less.IH[of "j div 2"] less.prems False by fastforce
  qed simp
qed

text \<open>State of the second loop: the first \<open>i\<close> elements are a heap, the others are sorted and no smaller.\<close>

definition sorting_inv :: "('a \<Rightarrow> 'k::linorder) \<Rightarrow> 'a list \<Rightarrow> nat \<Rightarrow> bool" where
  "sorting_inv key xs i \<longleftrightarrow> is_heap key xs i 1 \<and> sorted (map key (drop i xs))
     \<and> (\<forall>a \<in> set (take i xs). \<forall>b \<in> set (drop i xs). key a \<le> key b)"

lemma sorting_inv_step:
  assumes c: "strcmp_like compare key" and inv: "sorting_inv key xs i" and i: "1 < i" "i \<le> length xs"
  defines "zs \<equiv> heapify (do_swap xs 1 i) 1 (i - 1) compare"
  shows "sorting_inv key zs (i - 1)" "mset zs = mset xs" "length zs = length xs"
proof -
  let ?ys = "do_swap xs 1 i"
  have heap: "is_heap key xs i 1" and srt: "sorted (map key (drop i xs))"
    and le: "\<And>a b. a \<in> set (take i xs) \<Longrightarrow> b \<in> set (drop i xs) \<Longrightarrow> key a \<le> key b"
    using inv unfolding sorting_inv_def by auto
  have sw: "hkey key ?ys j = hkey key xs j" if "2 \<le> j" "j \<le> i - 1" for j
    using hkey_swap[of 1 xs i j key] i that by auto
  have "heap_but key ?ys (i - 1) 1 1"
    unfolding heap_but_def
  proof (intro conjI allI impI)
    fix j assume j: "2 \<le> j \<and> j \<le> i - 1 \<and> 1 \<le> j div 2 \<and> j div 2 \<noteq> 1"
    then have "hkey key xs j \<le> hkey key xs (j div 2)" using heap unfolding is_heap_def by auto
    then show "hkey key ?ys j \<le> hkey key ?ys (j div 2)" using sw[of j] sw[of "j div 2"] j by auto
  qed auto
  from heapify_heap[OF c this] i have z: "is_heap key zs (i - 1) 1"
    "mset (take (i - 1) zs) = mset (take (i - 1) ?ys)" "drop (i - 1) zs = drop (i - 1) ?ys"
    "length zs = length xs" by (auto simp: zs_def)
  have y: "mset (take i ?ys) = mset (take i xs)" "drop i ?ys = drop i xs"
    using do_swap_take_drop[of 1 i i xs] i by auto
  have yn: "?ys ! (i - 1) = xs ! 0" using i by (simp add: do_swap_def nth_list_update)
  have dr: "drop (i - 1) ?ys = xs ! 0 # drop i xs"
    using Cons_nth_drop_Suc[of "i - 1" ?ys] i yn y(2) by simp
  have tk: "set (take (i - 1) zs) \<subseteq> set (take i xs)"
    using mset_eq_setD[OF z(2)] mset_eq_setD[OF y(1)] set_take_subset_set_take[of "i - 1" i ?ys] by auto
  have rt: "key a \<le> key (xs ! 0)" if at: "a \<in> set (take i xs)" for a
  proof -
    obtain n where "n < length (take i xs)" "take i xs ! n = a"
      using at by (metis in_set_conv_nth)
    then have n: "Suc n \<le> i" "a = xs ! n" by auto
    then show ?thesis using heap_root_max[OF heap _ n(1)] by (simp add: hkey_def)
  qed
  have x0: "xs ! 0 \<in> set (take i xs)" using i by (auto simp: in_set_conv_nth intro!: exI[of _ 0])
  show "sorting_inv key zs (i - 1)"
    unfolding sorting_inv_def z(3) dr using z(1) srt le[OF x0] tk rt le by auto
  have "mset zs = mset (take (i - 1) zs) + mset (drop (i - 1) zs)"
    by (metis append_take_drop_id mset_append)
  also have "\<dots> = mset ?ys" unfolding z(2,3) by (metis append_take_drop_id mset_append)
  also have "\<dots> = mset xs" using do_swap_take_drop(1)[of 1 "length xs" i xs] i by simp
  finally show "mset zs = mset xs" .
  show "length zs = length xs" by (rule z(4))
qed

lemma sort_heap_sorted:
  assumes c: "strcmp_like compare key"
  shows "sorting_inv key xs i \<Longrightarrow> i \<le> length xs \<Longrightarrow>
    sorted (map key (sort_heap i xs compare)) \<and> mset (sort_heap i xs compare) = mset xs"
  using c
proof (induction i xs compare rule: sort_heap.induct)
  case (1 i xs compare)
  show ?case
  proof (cases "1 < i")
    case True
    note st = sorting_inv_step[OF "1.prems"(3,1) True "1.prems"(2)]
    show ?thesis using "1.IH"[OF True st(1) _ "1.prems"(3)] st(2,3) "1.prems"(2) True
      by (simp add: sort_heap.simps[of i])
  next
    case False
    have srt: "sorted (map key (drop i xs))"
      and le: "\<forall>a \<in> set (take i xs). \<forall>b \<in> set (drop i xs). key a \<le> key b"
      using "1.prems"(1) unfolding sorting_inv_def by auto
    have "i = 0 \<or> i = 1" using False by auto
    then have "sorted (map key xs)"
      using srt le "1.prems"(2) by (cases xs) (auto simp: take_Suc_conv_app_nth)
    then show ?thesis using False by (simp add: sort_heap.simps[of i])
  qed
qed

lemma heap_sort_sorted:
  assumes "strcmp_like compare key"
  shows "sorted (map key (heap_sort xs compare)) \<and> mset (heap_sort xs compare) = mset xs"
proof -
  let ?b = "build_heap (length xs div 2) xs (length xs) compare"
  have "is_heap key xs (length xs) (Suc (length xs div 2))"
    unfolding is_heap_def by (auto dest: div_le_mono[of _ _ 2])
  from build_heap_heap[OF assms this] have b: "is_heap key ?b (length xs) 1" "mset ?b = mset xs" by auto
  then have len: "length ?b = length xs" by (metis size_mset)
  have "sorting_inv key ?b (length xs)" using b len unfolding sorting_inv_def by auto
  from sort_heap_sorted[OF assms this] b len show ?thesis by (simp add: heap_sort_def Let_def)
qed

section \<open>The search\<close>

text \<open>\<open>compare\<close> agrees with the order of the array: below an element it rejects as too large the key
  is not found, and the same above.\<close>

definition search_sorted :: "'k \<Rightarrow> 'a list \<Rightarrow> ('k \<Rightarrow> 'a \<Rightarrow> int) \<Rightarrow> bool" where
  "search_sorted key xs compare \<longleftrightarrow>
     (\<forall>i j. i < j \<longrightarrow> j < length xs \<longrightarrow>
        (compare key (xs ! i) < 0 \<longrightarrow> compare key (xs ! j) < 0)
      \<and> (compare key (xs ! j) > 0 \<longrightarrow> compare key (xs ! i) > 0))"

lemma binary_search_loop_correct:
  assumes "search_sorted key xs compare" "lst \<le> length xs"
    and "\<forall>i < length xs. compare key (xs ! i) = 0 \<longrightarrow> frst \<le> i \<and> i < lst"
  shows "case binary_search_loop key xs frst lst compare of
      Some i \<Rightarrow> i < length xs \<and> compare key (xs ! i) = 0
    | None \<Rightarrow> \<forall>i < length xs. compare key (xs ! i) \<noteq> 0"
  using assms
proof (induction key xs frst lst compare rule: binary_search_loop.induct)
  case (1 key xs frst lst compare)
  show ?case
  proof (cases "frst < lst")
    case True
    define m where "m = frst + (lst - frst) div 2"
    have m: "frst \<le> m" "m < lst" using True by (auto simp: m_def)
    have eq: "binary_search_loop key xs frst lst compare =
      (if compare key (xs ! m) < 0 then binary_search_loop key xs frst m compare
       else if compare key (xs ! m) > 0 then binary_search_loop key xs (m + 1) lst compare
       else Some m)"
      unfolding m_def by (subst binary_search_loop.simps) (simp only: True if_True Let_def)
    have ord: "compare key (xs ! i) < 0 \<Longrightarrow> compare key (xs ! j) < 0"
        "compare key (xs ! j) > 0 \<Longrightarrow> compare key (xs ! i) > 0"
      if "i \<le> j" "j < length xs" for i j
    proof -
      have "i = j \<or> i < j" using that by auto
      then show "compare key (xs ! i) < 0 \<Longrightarrow> compare key (xs ! j) < 0"
        "compare key (xs ! j) > 0 \<Longrightarrow> compare key (xs ! i) > 0"
        using "1.prems"(1) that unfolding search_sorted_def by blast+
    qed
    consider "compare key (xs ! m) < 0" | "compare key (xs ! m) > 0" | "compare key (xs ! m) = 0"
      by linarith
    then show ?thesis
    proof cases
      case 1
      have *: "\<forall>i < length xs. compare key (xs ! i) = 0 \<longrightarrow> frst \<le> i \<and> i < m"
        using "1.prems"(3) ord(1)[of m] 1 by (metis linorder_not_less order_less_irrefl)
      then show ?thesis using "1.IH"(1)[OF True refl m_def refl 1 "1.prems"(1) _ *] 1 m "1.prems"(2)
        unfolding eq by simp
    next
      case 2
      then have n: "\<not> compare key (xs ! m) < 0" by simp
      have "\<forall>i < length xs. compare key (xs ! i) = 0 \<longrightarrow> m < i \<and> i < lst"
        using "1.prems"(2,3) ord(2)[of _ m] 2 m by (metis linorder_not_less order_less_irrefl order.strict_trans2)
      then have *: "\<forall>i < length xs. compare key (xs ! i) = 0 \<longrightarrow> m + 1 \<le> i \<and> i < lst" by auto
      then show ?thesis using "1.IH"(2)[OF True refl m_def refl n 2 "1.prems"(1) "1.prems"(2) *] 2 n m "1.prems"(2)
        unfolding eq by simp
    next
      case 3
      then show ?thesis using m "1.prems"(2)
        unfolding eq by simp
    qed
  next
    case False
    then show ?thesis using "1.prems"(3) by (auto simp: binary_search_loop.simps[of key xs frst lst compare])
  qed
qed

lemma binary_search_correct:
  assumes "search_sorted key xs compare"
  shows "case binary_search key xs compare of
      Some i \<Rightarrow> i < length xs \<and> compare key (xs ! i) = 0
    | None \<Rightarrow> \<forall>i < length xs. compare key (xs ! i) \<noteq> 0"
  unfolding binary_search_def by (rule binary_search_loop_correct[OF assms]) auto

section \<open>\<open>atoi\<close>\<close>

text \<open>A string is the list of its bytes as numbers, without the terminating null byte.  Reading past
  the end reads that null byte, which is no space, sign or digit.  The value is the machine's: it
  stays exact as long as it fits an \<open>int\<close>; signed overflow is undefined in C, so the model stops.\<close>

definition isspace :: "nat \<Rightarrow> bool" where
  "isspace c \<longleftrightarrow> c = 32 \<or> c = 12 \<or> c = 10 \<or> c = 13 \<or> c = 9 \<or> c = 11"

definition isdigit :: "nat \<Rightarrow> bool" where
  "isdigit c \<longleftrightarrow> 48 \<le> c \<and> c \<le> 57"

definition int_range :: "int \<Rightarrow> bool" where
  "int_range v \<longleftrightarrow> - (2 ^ 31) \<le> v \<and> v < 2 ^ 31"

primrec atoi_digits :: "nat list \<Rightarrow> int \<Rightarrow> int option" where
  "atoi_digits [] v = Some v"
| "atoi_digits (c # s) v =
     (if isdigit c then do {
        ASSERT (int_range (v * 10) \<and> int_range (v * 10 - (int c - 48)));
        atoi_digits s (v * 10 - (int c - 48)) }
      else Some v)"

definition atoi :: "nat list \<Rightarrow> int option" where
  "atoi s = (let
     s = dropWhile isspace s;
     negative = (s \<noteq> [] \<and> hd s = 45);
     s = (if s \<noteq> [] \<and> (hd s = 43 \<or> hd s = 45) then tl s else s)
     in do {
       v \<leftarrow> atoi_digits s 0;
       if negative then Some v else do { ASSERT (int_range (- v)); Some (- v) } })"

text \<open>The decimal digits of a number, most significant first.\<close>

fun decimal :: "nat \<Rightarrow> nat list" where
  "decimal n = (if n < 10 then [48 + n] else decimal (n div 10) @ [48 + n mod 10])"

declare decimal.simps [simp del]

definition print_int :: "int \<Rightarrow> nat list" where
  "print_int v = (if v < 0 then 45 # decimal (nat (- v)) else decimal (nat v))"

lemma atoi_digits_append:
  "list_all isdigit s \<Longrightarrow> atoi_digits (s @ t) v = atoi_digits s v \<bind> atoi_digits t"
  by (induction s arbitrary: v) (auto simp: ASSERT_def)

lemma decimal_digits: "list_all isdigit (decimal n)"
  by (induction n rule: decimal.induct) (subst decimal.simps, auto simp: isdigit_def[of "48 + _"])

lemma atoi_digits_decimal:
  "int n \<le> 2 ^ 31 \<Longrightarrow> atoi_digits (decimal n) 0 = Some (- int n)"
proof (induction n rule: decimal.induct)
  case (1 n)
  show ?case
  proof (cases "n < 10")
    case True
    then show ?thesis by (simp add: decimal.simps[of n] isdigit_def int_range_def)
  next
    case False
    have IH: "atoi_digits (decimal (n div 10)) 0 = Some (- int (n div 10))"
      using "1.IH"[OF False] "1.prems" by linarith
    have d: "isdigit (48 + n mod 10)" by (simp add: isdigit_def)
    have e: "int n = int (n div 10) * 10 + int (n mod 10)" by presburger
    have "int_range (- int (n div 10) * 10)" "int_range (- int (n div 10) * 10 - int (n mod 10))"
      using "1.prems" e unfolding int_range_def by auto
    moreover have "- int (n div 10) * 10 - int (n mod 10) = - int n" using e by simp
    ultimately show ?thesis using False IH d
      by (subst decimal.simps) (simp add: atoi_digits_append decimal_digits)
  qed
qed

lemma decimal_hd: "decimal n \<noteq> [] \<and> isdigit (hd (decimal n))"
  using decimal_digits[of n] by (subst (asm) decimal.simps, subst (1 2) decimal.simps)
    (auto simp: list_all_iff hd_append)

lemma atoi_print_int:
  assumes "int_range v" "list_all isspace ws"
  shows "atoi (ws @ print_int v) = Some v"
proof -
  have ws: "dropWhile isspace (ws @ t) = dropWhile isspace t" for t
    using assms(2) by (induction ws) auto
  obtain c s where cs: "decimal (nat \<bar>v\<bar>) = c # s" "isdigit c"
    using decimal_hd[of "nat \<bar>v\<bar>"] by (cases "decimal (nat \<bar>v\<bar>)") auto
  then have c: "\<not> isspace c" "c \<noteq> 43" "c \<noteq> 45" by (auto simp: isdigit_def isspace_def)
  have ad: "atoi_digits (c # s) 0 = Some (- \<bar>v\<bar>)"
    using atoi_digits_decimal[of "nat \<bar>v\<bar>"] assms(1) cs unfolding int_range_def by auto
  have m: "\<not> isspace 45" by (simp add: isspace_def)
  show ?thesis
  proof (cases "v < 0")
    case True
    then have "print_int v = 45 # c # s" using cs by (simp add: print_int_def)
    then show ?thesis using ad True m unfolding atoi_def ws Let_def
      by (simp del: atoi_digits.simps)
  next
    case False
    then have "print_int v = c # s" using cs by (simp add: print_int_def)
    then show ?thesis using ad False c assms(1) unfolding atoi_def ws Let_def
      by (simp del: atoi_digits.simps)
  qed
qed

end
