(* ===== verification/Stdio.thy ===== *)
theory Stdio
  imports Stdlib
begin

text \<open>
  lib/stdio.c: formatted output.  The sequence of calls of the \<open>output\<close> function is the string it is
  called with; \<open>vsnprintf\<close> runs its helper over that string.  A format is the list of its bytes without
  the terminating null byte, an argument list the values \<open>va_arg\<close> takes in turn; taking a value of
  another kind, or one too many, has no result, and so has an \<open>int\<close> that overflows while a width or a
  precision is read, and a format that ends inside a conversion, where the code reads past its end.
  The conversion of doubles is left out.
\<close>

section \<open>Conversions\<close>

abbreviation chr :: "char \<Rightarrow> nat" where "chr \<equiv> of_char"
abbreviation lit :: "string \<Rightarrow> nat list" where "lit \<equiv> map of_char"

datatype flag = MINUS | PLUS | SPACE | POUND | ZERO | GROUP

datatype arg_type = T_CHAR | T_SHORT | T_INT | T_INTMAX | T_LONG | T_LONGLONG | T_PTRDIFFT | T_SIZET

record printf_conversion =
  flags :: "flag set"
  width :: int
  precision :: int
  arg_type :: arg_type

record integer_base =
  base :: nat
  digits :: "nat list"
  x_char :: nat
  group :: nat

definition base_d :: integer_base where
  "base_d = \<lparr>base = 10, digits = lit ''0123456789'', x_char = 0, group = 3\<rparr>"
definition base_o :: integer_base where
  "base_o = \<lparr>base = 8, digits = lit ''01234567'', x_char = 0, group = 3\<rparr>"
definition base_x :: integer_base where
  "base_x = \<lparr>base = 16, digits = lit ''0123456789abcdef'', x_char = chr (CHR ''x''), group = 4\<rparr>"
definition base_X :: integer_base where
  "base_X = \<lparr>base = 16, digits = lit ''0123456789ABCDEF'', x_char = chr (CHR ''X''), group = 4\<rparr>"

text \<open>Arguments: 32-bit ones (int, unsigned, long, size_t, pointers), 64-bit ones, and pointers to strings.\<close>

datatype va = V32 "32 word" | V64 "64 word" | VStr "nat list option"

fun va_arg32 :: "va list \<Rightarrow> (32 word \<times> va list) option" where
  "va_arg32 (V32 w # as) = Some (w, as)"
| "va_arg32 _ = None"

fun va_arg64 :: "va list \<Rightarrow> (64 word \<times> va list) option" where
  "va_arg64 (V64 w # as) = Some (w, as)"
| "va_arg64 _ = None"

fun va_arg_str :: "va list \<Rightarrow> (nat list option \<times> va list) option" where
  "va_arg_str (VStr s # as) = Some (s, as)"
| "va_arg_str _ = None"

section \<open>Parsing a conversion\<close>

definition peek :: "nat list \<Rightarrow> nat" where
  "peek s = (case s of [] \<Rightarrow> 0 | c # _ \<Rightarrow> c)"

fun flag_of :: "nat \<Rightarrow> flag option" where
  "flag_of c = (if c = chr (CHR ''-'') then Some MINUS else if c = chr (CHR ''+'') then Some PLUS
     else if c = chr (CHR '' '') then Some SPACE else if c = chr (CHR ''#'') then Some POUND
     else if c = chr (CHR ''0'') then Some ZERO else if c = 39 then Some GROUP else None)"

fun parse_flags :: "nat list \<Rightarrow> flag set \<Rightarrow> nat list \<times> flag set" where
  "parse_flags [] fl = ([], fl)"
| "parse_flags (c # s) fl = (case flag_of c of Some f \<Rightarrow> parse_flags s (insert f fl) | None \<Rightarrow> (c # s, fl))"

fun parse_number :: "nat list \<Rightarrow> int \<Rightarrow> (nat list \<times> int) option" where
  "parse_number [] v = Some ([], v)"
| "parse_number (c # s) v =
     (if isdigit c then do {
        ASSERT (int_range (v * 10) \<and> int_range (v * 10 + int c));
        parse_number s (v * 10 + int c - 48) }
      else Some (c # s, v))"

definition parse_width :: "nat list \<Rightarrow> va list \<Rightarrow> (nat list \<times> int \<times> va list) option" where
  "parse_width s as =
     (if peek s = chr (CHR ''*'') then do { (w, as) \<leftarrow> va_arg32 as; Some (tl s, sint w, as) }
      else do { (s, w) \<leftarrow> parse_number s 0; Some (s, w, as) })"

definition parse_precision :: "nat list \<Rightarrow> va list \<Rightarrow> (nat list \<times> int \<times> va list) option" where
  "parse_precision s as =
     (if peek s = chr (CHR ''.'') then do {
        (s, p, as) \<leftarrow> parse_width (tl s) as;
        Some (s, if p < 0 then -1 else p, as) }
      else Some (s, -1, as))"

definition parse_type :: "nat list \<Rightarrow> nat list \<times> arg_type" where
  "parse_type s =
     (if peek s = chr (CHR ''h'') then
        (if peek (tl s) = chr (CHR ''h'') then (tl (tl s), T_CHAR) else (tl s, T_SHORT))
      else if peek s = chr (CHR ''j'') then (tl s, T_INTMAX)
      else if peek s = chr (CHR ''l'') then
        (if peek (tl s) = chr (CHR ''l'') then (tl (tl s), T_LONGLONG) else (tl s, T_LONG))
      else if peek s = chr (CHR ''t'') then (tl s, T_PTRDIFFT)
      else if peek s = chr (CHR ''z'') then (tl s, T_SIZET)
      else (s, T_INT))"

definition parse_conversion :: "nat list \<Rightarrow> va list \<Rightarrow> (nat list \<times> printf_conversion \<times> va list) option" where
  "parse_conversion s as = do {
     let (s, fl) = parse_flags s {};
     let fl = (if MINUS \<in> fl then fl - {ZERO} else fl);
     let fl = (if PLUS \<in> fl then fl - {SPACE} else fl);
     (s, w, as) \<leftarrow> parse_width s as;
     ASSERT (int_range (- w));
     let fl = (if w < 0 then insert MINUS fl else fl);
     let w = (if w < 0 then - w else w);
     (s, p, as) \<leftarrow> parse_precision s as;
     let fl = (if p \<ge> 0 then fl - {ZERO} else fl);
     let (s, t) = parse_type s;
     Some (s, \<lparr>flags = fl, width = w, precision = p, arg_type = t\<rparr>, as) }"

section \<open>Integers and strings\<close>

definition output_dup :: "nat \<Rightarrow> int \<Rightarrow> nat list" where
  "output_dup ch cnt = replicate (nat cnt) ch"

definition sign_char :: "bool \<Rightarrow> bool \<Rightarrow> printf_conversion \<Rightarrow> nat" where
  "sign_char is_signed negative c =
     (if \<not> is_signed then 0
      else if PLUS \<in> flags c then (if negative then chr (CHR ''-'') else chr (CHR ''+''))
      else if SPACE \<in> flags c then (if negative then chr (CHR ''-'') else chr (CHR '' ''))
      else if negative then chr (CHR ''-'') else 0)"

text \<open>The buffer is filled from the front with the digits from the last to the first.  Its 64 bytes are
  a bound that is checked at every store.\<close>

definition put :: "nat list \<Rightarrow> nat \<Rightarrow> nat list option" where
  "put buf ch = (if length buf < 64 then Some (buf @ [ch]) else None)"

partial_function (option) digits_loop ::
  "integer_base \<Rightarrow> printf_conversion \<Rightarrow> nat \<Rightarrow> nat \<Rightarrow> nat list \<Rightarrow> nat list option" where
  [code]: "digits_loop b c v digit_cnt buf =
     (if v > 0 then do {
        ASSERT (base b \<noteq> 0 \<and> group b \<noteq> 0 \<and> v mod base b < length (digits b));
        buf \<leftarrow> (if GROUP \<in> flags c \<and> digit_cnt > 0 \<and> digit_cnt mod group b = 0 then put buf (chr (CHR '','')) else Some buf);
        buf \<leftarrow> put buf (digits b ! (v mod base b));
        digits_loop b c (v div base b) (digit_cnt + 1) buf }
      else Some buf)"

definition zero_fill :: "nat list \<Rightarrow> int \<Rightarrow> nat list" where
  "zero_fill buf prec = buf @ replicate (min (nat prec) 63 - length buf) (chr (CHR ''0''))"

definition format_integer :: "nat \<Rightarrow> bool \<Rightarrow> bool \<Rightarrow> integer_base \<Rightarrow> printf_conversion \<Rightarrow> nat list option" where
  "format_integer v is_signed negative b c = do {
     let sign = sign_char is_signed negative c;
     let x = (if POUND \<in> flags c \<and> v \<noteq> 0 then x_char b else 0);
     buf \<leftarrow> digits_loop b c v 0 [];
     let buf = zero_fill buf (if precision c < 0 then 1 else precision c);
     buf \<leftarrow> (if POUND \<in> flags c \<and> base b = 8 \<and> (buf = [] \<or> List.last buf \<noteq> chr (CHR ''0''))
            then put buf (chr (CHR ''0'')) else Some buf);
     let pad_cnt = width c - int (length buf) - (if x \<noteq> 0 then 2 else 0) - (if sign \<noteq> 0 then 1 else 0);
     let pad_cnt = (if pad_cnt < 0 then 0 else pad_cnt);
     Some ((if flags c \<inter> {MINUS, ZERO} = {} then output_dup (chr (CHR '' '')) pad_cnt else [])
       @ (if sign \<noteq> 0 then [sign] else [])
       @ (if x \<noteq> 0 then [chr (CHR ''0''), x] else [])
       @ (if ZERO \<in> flags c then output_dup (chr (CHR ''0'')) pad_cnt else [])
       @ rev buf
       @ (if MINUS \<in> flags c then output_dup (chr (CHR '' '')) pad_cnt else [])) }"

definition format_string :: "nat list \<Rightarrow> printf_conversion \<Rightarrow> nat list" where
  "format_string s c =
     (if width c > int (length s) \<and> MINUS \<notin> flags c then output_dup (chr (CHR '' '')) (width c - int (length s)) else [])
     @ s
     @ (if width c > int (length s) \<and> MINUS \<in> flags c then output_dup (chr (CHR '' '')) (width c - int (length s)) else [])"

section \<open>The arguments of integer conversions\<close>

definition signed_arg :: "arg_type \<Rightarrow> va list \<Rightarrow> (int \<times> va list) option" where
  "signed_arg t as = (case t of
     T_CHAR \<Rightarrow> do { (w, as) \<leftarrow> va_arg32 as; Some (sint (ucast w :: 8 word), as) }
   | T_SHORT \<Rightarrow> do { (w, as) \<leftarrow> va_arg32 as; Some (sint (ucast w :: 16 word), as) }
   | T_INT \<Rightarrow> do { (w, as) \<leftarrow> va_arg32 as; Some (sint w, as) }
   | T_INTMAX \<Rightarrow> do { (w, as) \<leftarrow> va_arg64 as; Some (sint w, as) }
   | T_LONG \<Rightarrow> do { (w, as) \<leftarrow> va_arg32 as; Some (sint w, as) }
   | T_LONGLONG \<Rightarrow> do { (w, as) \<leftarrow> va_arg64 as; Some (sint w, as) }
   | T_PTRDIFFT \<Rightarrow> do { (w, as) \<leftarrow> va_arg32 as; Some (sint w, as) }
   | T_SIZET \<Rightarrow> do {
       (w, as) \<leftarrow> va_arg32 as;
       let v = uint w;
       Some (if v > (2 ^ 32 - 1) div 2 then v - (2 ^ 32 - 1) - 1 else v, as) })"

definition unsigned_arg :: "arg_type \<Rightarrow> va list \<Rightarrow> (nat \<times> va list) option" where
  "unsigned_arg t as = (case t of
     T_CHAR \<Rightarrow> do { (w, as) \<leftarrow> va_arg32 as; Some (unat (ucast w :: 8 word), as) }
   | T_SHORT \<Rightarrow> do { (w, as) \<leftarrow> va_arg32 as; Some (unat (ucast w :: 16 word), as) }
   | T_INT \<Rightarrow> do { (w, as) \<leftarrow> va_arg32 as; Some (unat w, as) }
   | T_INTMAX \<Rightarrow> do { (w, as) \<leftarrow> va_arg64 as; Some (unat w, as) }
   | T_LONG \<Rightarrow> do { (w, as) \<leftarrow> va_arg32 as; Some (unat w, as) }
   | T_LONGLONG \<Rightarrow> do { (w, as) \<leftarrow> va_arg64 as; Some (unat w, as) }
   | T_PTRDIFFT \<Rightarrow> do { (w, as) \<leftarrow> va_arg32 as; Some (unat (and (scast w :: 64 word) 0xffffffff), as) }
   | T_SIZET \<Rightarrow> do { (w, as) \<leftarrow> va_arg32 as; Some (unat w, as) })"

definition conv_signed :: "printf_conversion \<Rightarrow> va list \<Rightarrow> (nat list \<times> va list) option" where
  "conv_signed c as = do {
     (v, as) \<leftarrow> signed_arg (arg_type c) as;
     ASSERT (- (2 ^ 63) < v);
     out \<leftarrow> format_integer (nat (if v < 0 then - v else v)) True (v < 0) base_d c;
     Some (out, as) }"

definition conv_unsigned :: "integer_base \<Rightarrow> printf_conversion \<Rightarrow> va list \<Rightarrow> (nat list \<times> va list) option" where
  "conv_unsigned b c as = do {
     (v, as) \<leftarrow> unsigned_arg (arg_type c) as;
     out \<leftarrow> format_integer v False False b c;
     Some (out, as) }"

text \<open>One conversion: the character that names it, then what it takes and prints.\<close>

definition convert :: "nat \<Rightarrow> printf_conversion \<Rightarrow> va list \<Rightarrow> (nat list \<times> va list) option" where
  "convert f c as =
     (if f = chr (CHR ''d'') \<or> f = chr (CHR ''i'') then conv_signed c as
      else if f = chr (CHR ''o'') then conv_unsigned base_o c as
      else if f = chr (CHR ''u'') then conv_unsigned base_d c as
      else if f = chr (CHR ''x'') then conv_unsigned base_x c as
      else if f = chr (CHR ''X'') then conv_unsigned base_X c as
      else if f = chr (CHR ''c'') then do {
        (w, as) \<leftarrow> va_arg32 as;
        Some (format_string [unat (ucast w :: 8 word)] c, as) }
      else if f = chr (CHR ''s'') then do {
        (s, as) \<leftarrow> va_arg_str as;
        let s = (case s of None \<Rightarrow> lit ''(null)'' | Some s \<Rightarrow> s);
        let n = (if precision c < 0 then length s else min (nat (precision c)) (length s));
        Some (format_string (take n s) c, as) }
      else if f = chr (CHR ''p'') then do {
        (w, as) \<leftarrow> va_arg32 as;
        out \<leftarrow> format_integer (unat w) False False base_x (c\<lparr>flags := {POUND}\<rparr>);
        Some (out, as) }
      else if f = chr (CHR ''f'') then None
      else if f \<in> {chr (CHR ''e''), chr (CHR ''E''), chr (CHR ''g''), chr (CHR ''G''), chr (CHR ''n'')}
      then Some (lit ''<<no %'' @ [f] @ lit '' in kernel>>'', as)
      else Some (lit ''<<no %'' @ [f] @ lit '' conversion>>'', as))"

lemma parse_flags_length: "length (fst (parse_flags s fl)) \<le> length s"
  by (induction s fl rule: parse_flags.induct) (auto split: option.splits simp del: flag_of.simps)

lemma parse_number_length: "parse_number s v = Some (s', w) \<Longrightarrow> length s' \<le> length s"
  by (induction s arbitrary: v) (fastforce split: if_splits)+

lemma parse_width_length: "parse_width s as = Some (s', w, as') \<Longrightarrow> length s' \<le> length s"
  by (auto simp: parse_width_def bind_eq_Some_conv split: if_splits dest: parse_number_length)

lemma parse_precision_length: "parse_precision s as = Some (s', w, as') \<Longrightarrow> length s' \<le> length s"
  using parse_width_length[of "tl s" as]
  by (fastforce simp: parse_precision_def bind_eq_Some_conv split: if_splits)

lemma parse_type_length: "length (fst (parse_type s)) \<le> length s"
  by (auto simp: parse_type_def)

lemma parse_conversion_length:
  assumes "parse_conversion s as = Some (s', c, as')" shows "length s' \<le> length s"
proof -
  obtain s1 fl where p1: "parse_flags s {} = (s1, fl)" by fastforce
  obtain s2 w as2 where p2: "parse_width s1 as = Some (s2, w, as2)"
    using assms p1 by (auto simp: parse_conversion_def Let_def bind_eq_Some_conv)
  obtain s3 p as3 where p3: "parse_precision s2 as2 = Some (s3, p, as3)"
    using assms p1 p2 by (auto simp: parse_conversion_def Let_def bind_eq_Some_conv)
  have "s' = fst (parse_type s3)"
    using assms p1 p2 p3 by (auto simp: parse_conversion_def Let_def bind_eq_Some_conv split: prod.splits)
  then show ?thesis
    using parse_type_length[of s3] parse_precision_length[OF p3] parse_width_length[OF p2]
      parse_flags_length[of s "{}"] p1 by simp
qed

section \<open>The format\<close>

function vprintf_str :: "nat list \<Rightarrow> va list \<Rightarrow> nat list option" where
  "vprintf_str [] as = Some []"
| "vprintf_str (c # s) as =
     (if c \<noteq> chr (CHR ''%'') then do { out \<leftarrow> vprintf_str s as; Some (c # out) }
      else if peek s = chr (CHR ''%'') then do { out \<leftarrow> vprintf_str (tl s) as; Some (chr (CHR ''%'') # out) }
      else (case parse_conversion s as of
          None \<Rightarrow> None
        | Some (s', conv, as) \<Rightarrow> do {
            ASSERT (s' \<noteq> []);
            (out, as) \<leftarrow> convert (hd s') conv as;
            rest \<leftarrow> vprintf_str (tl s') as;
            Some (out @ rest) }))"
  by pat_completeness auto
termination
  by (relation "measure (\<lambda>(s, as). length s)") (auto dest!: parse_conversion_length simp: le_less_trans)

section \<open>Printing into a buffer\<close>

record vsnprintf_aux =
  aux_p :: nat
  aux_length :: nat
  max_length :: int

definition vsnprintf_helper :: "nat \<Rightarrow> vsnprintf_aux \<times> nat list \<Rightarrow> (vsnprintf_aux \<times> nat list) option" where
  "vsnprintf_helper ch st = (case st of (aux, buffer) \<Rightarrow>
     if int (aux_length aux) < max_length aux then do {
       ASSERT (aux_p aux < length buffer);
       Some (aux\<lparr>aux_length := aux_length aux + 1, aux_p := aux_p aux + 1\<rparr>, buffer[aux_p aux := ch]) }
     else Some (aux\<lparr>aux_length := aux_length aux + 1\<rparr>, buffer))"

fun helper_loop :: "nat list \<Rightarrow> vsnprintf_aux \<times> nat list \<Rightarrow> (vsnprintf_aux \<times> nat list) option" where
  "helper_loop [] st = Some st"
| "helper_loop (ch # out) st = do { st \<leftarrow> vsnprintf_helper ch st; helper_loop out st }"

definition vsnprintf :: "nat list \<Rightarrow> nat \<Rightarrow> nat list \<Rightarrow> va list \<Rightarrow> (nat list \<times> nat) option" where
  "vsnprintf buffer buf_size fmt as = do {
     let aux = \<lparr>aux_p = 0, aux_length = 0, max_length = (if buf_size > 0 then int buf_size - 1 else 0)\<rparr>;
     out \<leftarrow> vprintf_str fmt as;
     (aux, buffer) \<leftarrow> helper_loop out (aux, buffer);
     ASSERT (buf_size > 0 \<longrightarrow> aux_p aux < length buffer);
     Some (if buf_size > 0 then buffer[aux_p aux := 0] else buffer, aux_length aux) }"

section \<open>Dumps and sizes\<close>

definition isprint :: "nat \<Rightarrow> bool" where
  "isprint c \<longleftrightarrow> c \<ge> 32 \<and> c < 127"

fun sequence :: "nat list option list \<Rightarrow> nat list option" where
  "sequence [] = Some []"
| "sequence (x # xs) = do { out \<leftarrow> x; rest \<leftarrow> sequence xs; Some (out @ rest) }"

definition hex_line :: "nat \<Rightarrow> nat \<Rightarrow> nat \<Rightarrow> nat list \<Rightarrow> bool \<Rightarrow> nat list option" where
  "hex_line ofs start end buf ascii = sequence (
     [vprintf_str (lit ''%08jx  '') [V64 (word_of_nat (ROUND_DOWN ofs 16))]]
     @ map (\<lambda>_. vprintf_str (lit ''   '') []) [0..<start]
     @ map (\<lambda>i. vprintf_str (lit ''%02hhx%c'')
         [V32 (word_of_nat (buf ! (i - start))), V32 (if i = 16 div 2 - 1 then 45 else 32)]) [start..<end]
     @ (if ascii then
          map (\<lambda>_. vprintf_str (lit ''   '') []) [end..<16]
          @ [vprintf_str (lit ''|'') []]
          @ map (\<lambda>_. vprintf_str (lit '' '') []) [0..<start]
          @ map (\<lambda>i. vprintf_str (lit ''%c'')
              [V32 (if isprint (buf ! (i - start)) then word_of_nat (buf ! (i - start)) else 46)]) [start..<end]
          @ map (\<lambda>_. vprintf_str (lit '' '') []) [end..<16]
          @ [vprintf_str (lit ''|'') []]
        else [])
     @ [vprintf_str [10] []])"

function hex_dump :: "nat \<Rightarrow> nat list \<Rightarrow> bool \<Rightarrow> nat list option" where
  "hex_dump ofs buf ascii =
     (if length buf > 0 then
        let start = ofs mod 16; end = (if 16 - start > length buf then start + length buf else 16); n = end - start in do {
          line \<leftarrow> hex_line ofs start end buf ascii;
          rest \<leftarrow> hex_dump ((ofs + n) mod 2 ^ 32) (drop n buf) ascii;
          Some (line @ rest) }
      else Some [])"
  by pat_completeness auto
termination by (relation "measure (\<lambda>(ofs, buf, ascii). length buf)") auto

fun human_loop :: "nat \<Rightarrow> string list \<Rightarrow> nat \<times> string list" where
  "human_loop sz (f # g # fs) = (if sz \<ge> 1024 then human_loop (sz div 1024) (g # fs) else (sz, f # g # fs))"
| "human_loop sz fs = (sz, fs)"

definition print_human_readable_size :: "64 word \<Rightarrow> nat list option" where
  "print_human_readable_size sz =
     (if sz = 1 then vprintf_str (lit ''1 byte'') []
      else (case human_loop (unat sz) [''bytes'', ''kB'', ''MB'', ''GB'', ''TB''] of
          (n, f # _) \<Rightarrow> vprintf_str (lit ''%llu %s'') [V64 (word_of_nat n), VStr (Some (lit f))]
        | (n, []) \<Rightarrow> None))"

end
