(* ===== verification/Tokenizer.thy ===== *)
theory Tokenizer
  imports Stdio
begin

text \<open>
  hw-shell/tokenizer.c: splitting a command line into words.  A line is the list of its bytes without
  the terminating null byte; the static buffer \<open>token\<close> is the list of the bytes written so far, so its
  length is the variable \<open>n\<close>.  \<open>None\<close> is the call of \<open>abort\<close> for a word that fills the buffer, or the
  access through a null pointer when the heap is exhausted: \<open>room\<close> is the number of blocks the heap
  still has.  A reallocated vector takes the place of the old one.  The loop's counter is an \<open>unsigned
  int\<close>, which a line of less than 4 GiB does not exhaust; the program's lines have at most 4095 bytes.
\<close>

section \<open>The code\<close>

datatype mode = MODE_NORMAL | MODE_SQUOTE | MODE_DQUOTE

definition N_MAX :: nat where "N_MAX = 4096"

abbreviation SQUOTE :: nat where "SQUOTE \<equiv> 39"
abbreviation DQUOTE :: nat where "DQUOTE \<equiv> 34"
abbreviation BACKSLASH :: nat where "BACKSLASH \<equiv> 92"

text \<open>The words so far and the blocks left.  The vector of the words is a block once it is not empty.\<close>

record tokens =
  words_of :: "nat list list"
  room :: nat

definition alloc_block :: "tokens \<Rightarrow> tokens option" where
  "alloc_block t = (if room t = 0 then None else Some (t\<lparr>room := room t - 1\<rparr>))"

definition vector_push :: "nat list \<Rightarrow> tokens \<Rightarrow> tokens option" where
  "vector_push elem t = do {
     t \<leftarrow> (if words_of t = [] then alloc_block t else Some t);
     Some (t\<lparr>words_of := words_of t @ [elem]\<rparr>) }"

text \<open>The copy is the C string at \<open>source\<close>: it ends at the first null byte.\<close>

definition copy_word :: "nat list \<Rightarrow> tokens \<Rightarrow> (nat list \<times> tokens) option" where
  "copy_word source t = do { t \<leftarrow> alloc_block t; Some (takeWhile (\<lambda>c. c \<noteq> 0) source, t) }"

definition push_word :: "nat list \<Rightarrow> tokens \<Rightarrow> tokens option" where
  "push_word token t = do { (word, t) \<leftarrow> copy_word token t; vector_push word t }"

text \<open>A backslash takes the next byte as it is; at the end of the line it is dropped.\<close>

definition escaped :: "mode \<Rightarrow> nat list \<Rightarrow> tokens \<Rightarrow> nat list \<Rightarrow> mode \<times> nat list \<times> tokens \<times> nat list" where
  "escaped mode token t rest = (case rest of [] \<Rightarrow> (mode, token, t, []) | c # cs \<Rightarrow> (mode, token @ [c], t, cs))"

text \<open>One round of the loop at byte \<open>c\<close>, with \<open>rest\<close> behind it.\<close>

definition token_char :: "mode \<Rightarrow> nat list \<Rightarrow> tokens \<Rightarrow> nat \<Rightarrow> nat list \<Rightarrow> (mode \<times> nat list \<times> tokens \<times> nat list) option" where
  "token_char mode token t c rest = (case mode of
     MODE_NORMAL \<Rightarrow>
       if c = SQUOTE then Some (MODE_SQUOTE, token, t, rest)
       else if c = DQUOTE then Some (MODE_DQUOTE, token, t, rest)
       else if c = BACKSLASH then Some (escaped mode token t rest)
       else if isspace c then
         (if token \<noteq> [] then do { t \<leftarrow> push_word token t; Some (mode, [], t, rest) } else Some (mode, token, t, rest))
       else Some (mode, token @ [c], t, rest)
   | MODE_SQUOTE \<Rightarrow>
       if c = SQUOTE then Some (MODE_NORMAL, token, t, rest)
       else if c = BACKSLASH then Some (escaped mode token t rest)
       else Some (mode, token @ [c], t, rest)
   | MODE_DQUOTE \<Rightarrow>
       if c = DQUOTE then Some (MODE_NORMAL, token, t, rest)
       else if c = BACKSLASH then Some (escaped mode token t rest)
       else Some (mode, token @ [c], t, rest))"

lemma token_char_rest: "token_char mode token t c rest = Some (mode', token', t', rest') \<Longrightarrow> length rest' \<le> length rest"
  by (auto simp: token_char_def escaped_def bind_eq_Some_conv split: mode.splits if_splits list.splits)

function token_loop :: "mode \<Rightarrow> nat list \<Rightarrow> tokens \<Rightarrow> nat list \<Rightarrow> (nat list \<times> tokens) option" where
  "token_loop mode token t [] = Some (token, t)"
| "token_loop mode token t (c # cs) = (case token_char mode token t c cs of
     None \<Rightarrow> None
   | Some (mode', token', t', rest) \<Rightarrow>
       if length token' + 1 \<ge> N_MAX then None else token_loop mode' token' t' rest)"
  by pat_completeness auto
termination
  by (relation "measure (\<lambda>(mode, token, t, line). length line)") (auto dest: token_char_rest)

definition push_last :: "nat list \<times> tokens \<Rightarrow> tokens option" where
  "push_last = (\<lambda>(token, t). if token \<noteq> [] then push_word token t else Some t)"

text \<open>A null pointer for the line yields a null pointer.\<close>

definition tokenize :: "nat list option \<Rightarrow> nat \<Rightarrow> tokens option option" where
  "tokenize line heap = (case line of
     None \<Rightarrow> Some None
   | Some line \<Rightarrow> do {
       t \<leftarrow> alloc_block \<lparr>words_of = [], room = heap\<rparr>;
       (token, t) \<leftarrow> token_loop MODE_NORMAL [] t line;
       t \<leftarrow> push_last (token, t);
       Some (Some t) })"

definition tokens_get_length :: "tokens option \<Rightarrow> nat" where
  "tokens_get_length tokens = (case tokens of None \<Rightarrow> 0 | Some t \<Rightarrow> length (words_of t))"

definition tokens_get_token :: "tokens option \<Rightarrow> nat \<Rightarrow> nat list option" where
  "tokens_get_token tokens n = (case tokens of None \<Rightarrow> None
     | Some t \<Rightarrow> if n \<ge> length (words_of t) then None else Some (words_of t ! n))"

text \<open>Every word, the vector and the structure itself go back to the heap.\<close>

definition tokens_destroy :: "tokens option \<Rightarrow> nat \<Rightarrow> nat" where
  "tokens_destroy tokens heap = (case tokens of None \<Rightarrow> heap
     | Some t \<Rightarrow> heap + length (words_of t) + (if words_of t \<noteq> [] then 1 else 0) + 1)"

section \<open>Words\<close>

text \<open>Every word is a non-empty string of at most 4094 bytes.\<close>

definition word_ok :: "nat list \<Rightarrow> bool" where
  "word_ok w \<longleftrightarrow> w \<noteq> [] \<and> 0 \<notin> set w \<and> length w + 1 < N_MAX"

definition tokens_ok :: "nat \<Rightarrow> tokens \<Rightarrow> bool" where
  "tokens_ok heap t \<longleftrightarrow> (\<forall>w \<in> set (words_of t). word_ok w)
     \<and> room t + length (words_of t) + (if words_of t \<noteq> [] then 1 else 0) + 1 = heap"

lemma takeWhile_nonzero: "0 \<notin> set w \<Longrightarrow> takeWhile (\<lambda>c. c \<noteq> 0) w = (w :: nat list)"
  by (simp add: takeWhile_eq_all_conv) (metis gr0I)

lemma push_word_words:
  assumes "0 \<notin> set w" "push_word w t = Some t'"
  shows "words_of t' = words_of t @ [w]" "room t' + 1 + (if words_of t = [] then 1 else 0) = room t"
  using assms takeWhile_nonzero[OF assms(1)] by (auto simp: push_word_def copy_word_def vector_push_def alloc_block_def split: if_splits)

lemma push_word_ok:
  assumes "tokens_ok heap t" "word_ok w" "push_word w t = Some t'"
  shows "tokens_ok heap t'"
  using push_word_words[OF _ assms(3)] assms(1,2) by (auto simp: tokens_ok_def word_ok_def split: if_splits)

lemma token_char_ok:
  assumes "token_char mode token t c rest = Some (mode', token', t', rest')" "tokens_ok heap t" "0 \<notin> set (c # rest)"
    and "0 \<notin> set token" "length token + 1 < N_MAX"
  shows "tokens_ok heap t'" "0 \<notin> set token'" "set rest' \<subseteq> set rest"
  using assms push_word_ok[OF assms(2), of token]
  by (auto simp: token_char_def escaped_def bind_eq_Some_conv word_ok_def split: mode.splits if_splits list.splits)

lemma token_loop_ok:
  assumes "token_loop mode token t line = Some (token', t')" "tokens_ok heap t" "0 \<notin> set line" "0 \<notin> set token" "length token + 1 < N_MAX"
  shows "tokens_ok heap t' \<and> 0 \<notin> set token' \<and> length token' + 1 < N_MAX"
  using assms
proof (induction mode token t line rule: token_loop.induct)
  case (2 mode token t c cs)
  obtain m k u rest where s: "token_char mode token t c cs = Some (m, k, u, rest)" "\<not> length k + 1 \<ge> N_MAX"
    "token_loop m k u rest = Some (token', t')"
    using "2.prems"(1) by (auto split: option.splits if_splits)
  note ok = token_char_ok[OF s(1) "2.prems"(2-5)]
  have "0 \<notin> set rest" using ok(3) "2.prems"(3) by auto
  then show ?case using "2.IH"[OF s(1) refl refl refl s(2,3) ok(1) _ ok(2)] s(2) by simp
qed simp

lemma tokenize_ok:
  assumes "tokenize (Some line) heap = Some (Some t)" "0 \<notin> set line"
  shows "tokens_ok heap t"
proof -
  obtain token t1 where l: "0 < heap" "token_loop MODE_NORMAL [] \<lparr>words_of = [], room = heap - 1\<rparr> line = Some (token, t1)"
    "push_last (token, t1) = Some t"
    using assms(1) by (auto simp: tokenize_def alloc_block_def bind_eq_Some_conv split: if_splits)
  have "tokens_ok heap \<lparr>words_of = [], room = heap - 1\<rparr>" using l(1) by (simp add: tokens_ok_def)
  from token_loop_ok[OF l(2) this assms(2)] have t1: "tokens_ok heap t1" "0 \<notin> set token" "length token + 1 < N_MAX"
    by (simp_all add: N_MAX_def)
  show ?thesis
  proof (cases "token = []")
    case False
    then show ?thesis using push_word_ok[OF t1(1), of token] t1(2,3) l(3) by (simp add: word_ok_def push_last_def)
  qed (use l(3) t1(1) in \<open>simp add: push_last_def\<close>)
qed

section \<open>Quoting\<close>

text \<open>A word in single quotes, with a backslash in front of quotes and backslashes.\<close>

definition quote_char :: "nat \<Rightarrow> nat list" where
  "quote_char c = (if c = SQUOTE \<or> c = BACKSLASH then [BACKSLASH, c] else [c])"

definition quote :: "nat list \<Rightarrow> nat list" where
  "quote w = SQUOTE # concat (map quote_char w) @ [SQUOTE]"

fun command_line :: "nat list list \<Rightarrow> nat list" where
  "command_line [] = []"
| "command_line [w] = quote w"
| "command_line (w # ws) = quote w @ 32 # command_line ws"

lemma token_loop_quoted:
  assumes "length token + length w + 1 < N_MAX"
  shows "token_loop MODE_SQUOTE token t (concat (map quote_char w) @ SQUOTE # rest) = token_loop MODE_NORMAL (token @ w) t rest"
  using assms
proof (induction w arbitrary: token)
  case Nil
  then show ?case by (simp add: token_char_def)
next
  case (Cons c w)
  have IH: "token_loop MODE_SQUOTE (token @ [c]) t (concat (map quote_char w) @ SQUOTE # rest) = token_loop MODE_NORMAL ((token @ [c]) @ w) t rest"
    by (rule Cons.IH) (use Cons.prems in simp)
  have c: "token_loop MODE_SQUOTE token t (quote_char c @ xs) = token_loop MODE_SQUOTE (token @ [c]) t xs" for xs
    using Cons.prems by (simp add: quote_char_def token_char_def escaped_def)
  show ?case using IH c[of "concat (map quote_char w) @ SQUOTE # rest"] by simp
qed

lemma token_loop_quote:
  assumes "length w + 1 < N_MAX"
  shows "token_loop MODE_NORMAL [] t (quote w @ rest) = token_loop MODE_NORMAL w t rest"
proof -
  have "token_loop MODE_NORMAL [] t (quote w @ rest) = token_loop MODE_SQUOTE [] t (concat (map quote_char w) @ SQUOTE # rest)"
    by (simp add: quote_def token_char_def N_MAX_def)
  also have "\<dots> = token_loop MODE_NORMAL ([] @ w) t rest" by (rule token_loop_quoted) (use assms in simp)
  finally show ?thesis by simp
qed

lemma push_word_room:
  assumes "0 \<notin> set w" "1 + (if words_of t = [] then 1 else 0) \<le> room t"
  shows "\<exists>t'. push_word w t = Some t' \<and> words_of t' = words_of t @ [w] \<and> room t' = room t - (if words_of t = [] then 2 else 1)"
  using assms(2) takeWhile_nonzero[OF assms(1)] by (auto simp: push_word_def copy_word_def vector_push_def alloc_block_def split: if_splits)

text \<open>The line may end in a newline.\<close>

lemma command_line_loop:
  assumes "nl = [] \<or> nl = [10]" "\<forall>w \<in> set ws. word_ok w" "length ws + (if words_of t = [] then 1 else 0) \<le> room t"
  shows "\<exists>t'. token_loop MODE_NORMAL [] t (command_line ws @ nl) \<bind> push_last = Some t' \<and> words_of t' = words_of t @ ws"
  using assms(2,3)
proof (induction ws arbitrary: t rule: command_line.induct)
  case 1
  then show ?case using assms(1) by (auto simp: push_last_def token_char_def isspace_def N_MAX_def)
next
  case (2 w)
  then have w: "word_ok w" by simp
  then have l: "token_loop MODE_NORMAL [] t (quote w @ nl) = token_loop MODE_NORMAL w t nl"
    using token_loop_quote[of w t nl] by (simp add: word_ok_def)
  obtain t' where t': "push_word w t = Some t'" "words_of t' = words_of t @ [w]"
    using push_word_room[of w t] w "2.prems"(2) by (auto simp: word_ok_def split: if_splits)
  have "token_loop MODE_NORMAL w t [10] = Some ([], t')"
    using w t'(1) by (simp add: token_char_def word_ok_def isspace_def N_MAX_def)
  then show ?case using assms(1) l t' w by (auto simp: push_last_def word_ok_def)
next
  case (3 w v ws)
  then have w: "word_ok w" by simp
  obtain t' where t': "push_word w t = Some t'" "words_of t' = words_of t @ [w]" "room t' = room t - (if words_of t = [] then 2 else 1)"
    using push_word_room[of w t] w "3.prems"(2) by (auto simp: word_ok_def split: if_splits)
  have "token_loop MODE_NORMAL [] t (command_line (w # v # ws) @ nl) = token_loop MODE_NORMAL w t (32 # command_line (v # ws) @ nl)"
    using token_loop_quote[of w t "32 # command_line (v # ws) @ nl"] w by (simp add: word_ok_def)
  also have "\<dots> = token_loop MODE_NORMAL [] t' (command_line (v # ws) @ nl)"
    using w t'(1) by (simp add: token_char_def word_ok_def isspace_def N_MAX_def)
  finally have step: "token_loop MODE_NORMAL [] t (command_line (w # v # ws) @ nl) = token_loop MODE_NORMAL [] t' (command_line (v # ws) @ nl)" .
  have "length (v # ws) + (if words_of t' = [] then 1 else 0) \<le> room t'" using t'(2,3) "3.prems"(2) by (simp split: if_splits)
  then show ?case using "3.IH"[of t'] "3.prems"(1) step t'(2) by simp
qed

lemma tokenize_command_line:
  assumes "\<forall>w \<in> set ws. word_ok w" "length ws + 2 \<le> heap"
  shows "\<exists>t. tokenize (Some (command_line ws)) heap = Some (Some t) \<and> words_of t = ws"
    "\<exists>t. tokenize (Some (command_line ws @ [10])) heap = Some (Some t) \<and> words_of t = ws"
  using command_line_loop[OF _ assms(1), of "[]" "\<lparr>words_of = [], room = heap - 1\<rparr>"]
    command_line_loop[OF _ assms(1), of "[10]" "\<lparr>words_of = [], room = heap - 1\<rparr>"] assms(2)
  by (auto simp: tokenize_def alloc_block_def bind_eq_Some_conv)

lemma command_line_nonzero: "\<forall>w \<in> set ws. word_ok w \<Longrightarrow> 0 \<notin> set (command_line ws)"
  by (induction ws rule: command_line.induct) (auto simp: quote_def quote_char_def word_ok_def split: if_splits)

end
