(* ===== verification/Shell.thy ===== *)
theory Shell
  imports Tokenizer
begin

text \<open>
  hw-shell/shell.c: from the shell's input to the processes it starts.  The processes of a command are
  part of the value of \<open>run_command_with_pipes\<close>, when every \<open>fork\<close> and \<open>pipe\<close> succeeds: for each one the
  arguments of its \<open>execv\<close> and what its standard input and output are.  In the foreground the shell waits
  for a stage before it forks the next one; \<open>ends i\<close> says whether that \<open>waitpid\<close> returns, because stage \<open>i\<close>
  exits or is stopped, and if it does not the shell starts nothing more.  The table of the started
  processes is kept by \<open>note_process\<close>, from what \<open>fork\<close> and \<open>waitpid\<close> return.  Terminal control and signals
  are left out, and the commands that are not in the table of the built-in ones.
\<close>

section \<open>The code\<close>

type_synonym word_str = "nat list"

abbreviation PIPE :: word_str where "PIPE \<equiv> [124]"
abbreviation LESS :: word_str where "LESS \<equiv> [60]"
abbreviation GREATER :: word_str where "GREATER \<equiv> [62]"
abbreviation AMPERSAND :: word_str where "AMPERSAND \<equiv> [38]"

definition cmd_table :: "word_str list" where
  "cmd_table = [lit ''?'', lit ''exit'', lit ''pwd'', lit ''cd'']"

definition lookup_cmd :: "word_str \<Rightarrow> nat option" where
  "lookup_cmd cmd = List.find (\<lambda>i. cmd_table ! i = cmd) [0..<length cmd_table]"

text \<open>Where the redirections of a stage are: the index of the last sign, \<open>-2\<close> for none, and its file.\<close>

record redirections =
  rd_in :: int
  rd_out :: int
  rd_in_file :: "word_str option"
  rd_out_file :: "word_str option"

definition token_at :: "word_str list \<Rightarrow> nat \<Rightarrow> word_str option" where
  "token_at ts k = (if k < length ts then Some (ts ! k) else None)"

definition note_redirect :: "word_str list \<Rightarrow> nat \<Rightarrow> redirections \<Rightarrow> redirections" where
  "note_redirect ts k r = (if ts ! k = LESS then r\<lparr>rd_in := int k, rd_in_file := token_at ts (k + 1)\<rparr>
     else if ts ! k = GREATER then r\<lparr>rd_out := int k, rd_out_file := token_at ts (k + 1)\<rparr>
     else r)"

function scan_stage :: "word_str list \<Rightarrow> nat \<Rightarrow> redirections \<Rightarrow> nat \<times> redirections" where
  "scan_stage ts k r = (if k < length ts \<and> ts ! k \<noteq> PIPE then scan_stage ts (k + 1) (note_redirect ts k r) else (k, r))"
  by pat_completeness auto
termination by (relation "measure (\<lambda>(ts, k, r). length ts - k)") auto

declare scan_stage.simps [simp del]

definition stage_args :: "word_str list \<Rightarrow> nat \<Rightarrow> nat \<Rightarrow> redirections \<Rightarrow> word_str list" where
  "stage_args ts start stop r = map (\<lambda>j. ts ! j)
     (filter (\<lambda>j. int j \<noteq> rd_in r \<and> int j \<noteq> rd_in r + 1 \<and> int j \<noteq> rd_out r \<and> int j \<noteq> rd_out r + 1) [start..<stop])"

datatype stream = Inherited | Pipe_nr nat | Opened word_str

record child =
  child_args :: "word_str list"
  child_in :: stream
  child_out :: stream

text \<open>Pipe \<open>i\<close> leads from stage \<open>i\<close> to stage \<open>i + 1\<close>; files count only at the two ends.\<close>

definition mk_child :: "nat \<Rightarrow> nat \<Rightarrow> word_str list \<Rightarrow> redirections \<Rightarrow> child" where
  "mk_child num_commands i args r = \<lparr>child_args = args,
     child_in = (if i > 0 then Pipe_nr (i - 1) else case rd_in_file r of Some f \<Rightarrow> Opened f | None \<Rightarrow> Inherited),
     child_out = (if i < num_commands - 1 then Pipe_nr i
       else case rd_out_file r of Some f \<Rightarrow> Opened f | None \<Rightarrow> Inherited)\<rparr>"

text \<open>The second part of the result says whether the function returns.\<close>

function stages_loop :: "(nat \<Rightarrow> bool) \<Rightarrow> bool \<Rightarrow> word_str list \<Rightarrow> nat \<Rightarrow> nat \<Rightarrow> nat \<Rightarrow> child list \<times> bool" where
  "stages_loop ends background ts num_commands i start = (if i < num_commands then
     (let
        (stop, r) = scan_stage ts start \<lparr>rd_in = -2, rd_out = -2, rd_in_file = None, rd_out_file = None\<rparr>;
        c = mk_child num_commands i (stage_args ts start stop r) r
      in if background \<or> ends i then
           (let (cs, returns) = stages_loop ends background ts num_commands (i + 1) (stop + 1) in (c # cs, returns))
         else ([c], False))
     else ([], True))"
  by pat_completeness auto
termination by (relation "measure (\<lambda>(e, b, ts, n, i, k). n - i)") auto

declare stages_loop.simps [simp del]

definition run_command_with_pipes :: "(nat \<Rightarrow> bool) \<Rightarrow> bool \<Rightarrow> word_str list \<Rightarrow> child list \<times> bool" where
  "run_command_with_pipes ends background ts =
     stages_loop ends background ts (length (filter (\<lambda>w. w = PIPE) ts) + 1) 0 0"

text \<open>The parent's table of processes has room for 1024; a negative \<open>pid\<close> is a failed \<open>fork\<close>.\<close>

record process_entry =
  pr_pid :: int
  is_background :: bool
  is_stopped :: bool

definition note_process :: "bool \<Rightarrow> int \<Rightarrow> bool \<Rightarrow> process_entry list \<Rightarrow> process_entry list option" where
  "note_process background pid stopped ps =
     (if pid < 0 \<or> (\<not> background \<and> \<not> stopped) then Some ps
      else do {
        ASSERT (length ps < 1024);
        Some (ps @ [\<lparr>pr_pid = pid, is_background = background, is_stopped = \<not> background\<rparr>]) })"

text \<open>What the main loop does with a line.  \<open>Kept\<close> is the command that is stored in \<open>bg_tokens\<close>; a command in
  the foreground may never return.\<close>

datatype action = Nothing | Builtin nat "word_str list" | Run bool "child list \<times> bool" | Kept "word_str list"

definition shell_line :: "(nat \<Rightarrow> bool) \<Rightarrow> nat list \<Rightarrow> nat \<Rightarrow> action option" where
  "shell_line ends line heap = do {
     r \<leftarrow> tokenize (Some line) heap;
     t \<leftarrow> r;
     let ts = words_of t;
     if ts = [] then Some Nothing
     else case lookup_cmd (hd ts) of
       Some i \<Rightarrow> Some (Builtin i ts)
     | None \<Rightarrow>
         if length ts > 1 \<and> last ts = AMPERSAND then
           (if hd ts = lit ''/usr/bin/tee'' then do {
              r \<leftarrow> tokenize (Some (takeWhile (\<lambda>c. c \<noteq> 38) line)) (room t);
              t \<leftarrow> r;
              Some (Kept (words_of t)) }
            else Some (Run True (run_command_with_pipes ends True (butlast ts))))
         else Some (Run False (run_command_with_pipes ends False ts)) }"

text \<open>\<open>fgets\<close> with a buffer of \<open>n\<close> bytes: at most \<open>n - 1\<close> bytes, up to and including the first newline; no
  line at the end of the input.  The second part of the result is the input that is left.\<close>

definition fgets :: "nat \<Rightarrow> nat list \<Rightarrow> (nat list \<times> nat list) option" where
  "fgets n input = (if input = [] then None
     else let k = min (n - 1) (length (takeWhile (\<lambda>c. c \<noteq> 10) input) + 1) in Some (take k input, drop k input))"

text \<open>One round of the main loop, on the C string that \<open>fgets\<close> leaves in the buffer of 4096 bytes.  The
  outer option is that of the model, the inner one is the end of the loop.\<close>

definition shell_round :: "(nat \<Rightarrow> bool) \<Rightarrow> nat list \<Rightarrow> nat \<Rightarrow> (action \<times> nat list) option option" where
  "shell_round ends input heap = (case fgets 4096 input of
     None \<Rightarrow> Some None
   | Some (line, rest) \<Rightarrow> do {
       act \<leftarrow> shell_line ends (takeWhile (\<lambda>c. c \<noteq> 0) line) heap;
       Some (Some (act, rest)) })"

section \<open>Commands\<close>

record command =
  cm_argv :: "word_str list"
  cm_in :: "word_str option"
  cm_out :: "word_str option"

definition ordinary :: "word_str \<Rightarrow> bool" where
  "ordinary w \<longleftrightarrow> w \<noteq> PIPE \<and> w \<noteq> LESS \<and> w \<noteq> GREATER"

definition command_ok :: "command \<Rightarrow> bool" where
  "command_ok c \<longleftrightarrow> (\<forall>w \<in> set (cm_argv c) \<union> set_option (cm_in c) \<union> set_option (cm_out c). ordinary w)"

definition redirect :: "word_str \<Rightarrow> word_str option \<Rightarrow> word_str list" where
  "redirect sign f = (case f of None \<Rightarrow> [] | Some f \<Rightarrow> [sign, f])"

definition render :: "command \<Rightarrow> word_str list" where
  "render c = cm_argv c @ redirect LESS (cm_in c) @ redirect GREATER (cm_out c)"

fun pipeline :: "command list \<Rightarrow> word_str list" where
  "pipeline [] = []"
| "pipeline [c] = render c"
| "pipeline (c # cs) = render c @ PIPE # pipeline cs"

definition file_or :: "word_str option \<Rightarrow> stream" where
  "file_or f = (case f of Some f \<Rightarrow> Opened f | None \<Rightarrow> Inherited)"

text \<open>What the stages of a pipeline should be.\<close>

definition child_of :: "nat \<Rightarrow> nat \<Rightarrow> command \<Rightarrow> child" where
  "child_of n i c = \<lparr>child_args = cm_argv c, child_in = (if i > 0 then Pipe_nr (i - 1) else file_or (cm_in c)),
     child_out = (if i < n - 1 then Pipe_nr i else file_or (cm_out c))\<rparr>"

section \<open>One stage\<close>

lemma scan_ordinary:
  assumes "\<forall>w \<in> set ws. ordinary w" "ts = pre @ ws @ post"
  shows "scan_stage ts (length pre) r = scan_stage ts (length pre + length ws) r"
  using assms
proof (induction ws arbitrary: pre)
  case (Cons w ws)
  have w: "ts ! length pre = w" "length pre < length ts" using Cons.prems(2) by simp_all
  have "scan_stage ts (length pre) r = scan_stage ts (length (pre @ [w])) r"
    using w Cons.prems(1) by (subst scan_stage.simps) (simp add: ordinary_def note_redirect_def)
  also have "\<dots> = scan_stage ts (length (pre @ [w]) + length ws) r" by (rule Cons.IH) (use Cons.prems in simp_all)
  finally show ?case by simp
qed simp

lemma scan_sign:
  assumes "ordinary f" "ts = pre @ [sign, f] @ post" "sign = LESS \<or> sign = GREATER"
  shows "scan_stage ts (length pre) r = scan_stage ts (length pre + 2)
    (if sign = LESS then r\<lparr>rd_in := int (length pre), rd_in_file := Some f\<rparr>
     else r\<lparr>rd_out := int (length pre), rd_out_file := Some f\<rparr>)"
proof -
  have t: "ts ! length pre = sign" "ts ! (length pre + 1) = f" "length pre + 1 < length ts"
    using assms(2) by (simp_all add: nth_append)
  have p: "sign \<noteq> PIPE" using assms(3) by auto
  let ?r = "note_redirect ts (length pre) r"
  have "scan_stage ts (length pre) r = scan_stage ts (length pre + 1) ?r" using t p by (subst scan_stage.simps) simp
  also have "\<dots> = scan_stage ts (length pre + 2) ?r"
    using t assms(1) by (subst scan_stage.simps) (simp add: ordinary_def note_redirect_def)
  also have "?r = (if sign = LESS then r\<lparr>rd_in := int (length pre), rd_in_file := Some f\<rparr>
     else r\<lparr>rd_out := int (length pre), rd_out_file := Some f\<rparr>)"
    using t assms(3) by (auto simp: note_redirect_def token_at_def)
  finally show ?thesis .
qed

lemma scan_less:
  assumes "\<forall>f. fo = Some f \<longrightarrow> ordinary f" "ts = pre @ redirect LESS fo @ post"
  shows "scan_stage ts (length pre) r = scan_stage ts (length (pre @ redirect LESS fo))
    (case fo of None \<Rightarrow> r | Some f \<Rightarrow> r\<lparr>rd_in := int (length pre), rd_in_file := Some f\<rparr>)"
  using scan_sign[of _ ts pre LESS post r] assms by (cases fo) (simp_all add: redirect_def)

lemma scan_greater:
  assumes "\<forall>f. fo = Some f \<longrightarrow> ordinary f" "ts = pre @ redirect GREATER fo @ post"
  shows "scan_stage ts (length pre) r = scan_stage ts (length (pre @ redirect GREATER fo))
    (case fo of None \<Rightarrow> r | Some f \<Rightarrow> r\<lparr>rd_out := int (length pre), rd_out_file := Some f\<rparr>)"
  using scan_sign[of _ ts pre GREATER post r] assms by (cases fo) (simp_all add: redirect_def)

definition redirs_of :: "nat \<Rightarrow> command \<Rightarrow> redirections" where
  "redirs_of start c = (let i = start + length (cm_argv c); o' = i + length (redirect LESS (cm_in c)) in
     \<lparr>rd_in = (if cm_in c = None then -2 else int i), rd_out = (if cm_out c = None then -2 else int o'),
      rd_in_file = cm_in c, rd_out_file = cm_out c\<rparr>)"

lemma scan_render:
  assumes "command_ok c" "ts = pre @ render c @ post" "post = [] \<or> hd post = PIPE"
  shows "scan_stage ts (length pre) \<lparr>rd_in = -2, rd_out = -2, rd_in_file = None, rd_out_file = None\<rparr>
    = (length pre + length (render c), redirs_of (length pre) c)"
proof -
  let ?r = "\<lparr>rd_in = -2, rd_out = -2, rd_in_file = None, rd_out_file = None\<rparr>"
  let ?a = "pre @ cm_argv c" and ?i = "redirect LESS (cm_in c)" and ?o = "redirect GREATER (cm_out c)"
  have "scan_stage ts (length pre) ?r = scan_stage ts (length ?a) ?r"
    using scan_ordinary[of "cm_argv c" ts pre "?i @ ?o @ post" ?r] assms by (simp add: command_ok_def render_def)
  also have "\<dots> = scan_stage ts (length (?a @ ?i))
      (case cm_in c of None \<Rightarrow> ?r | Some f \<Rightarrow> ?r\<lparr>rd_in := int (length ?a), rd_in_file := Some f\<rparr>)"
    by (rule scan_less[where post = "?o @ post"]) (use assms in \<open>simp_all add: command_ok_def render_def\<close>)
  also have "\<dots> = scan_stage ts (length ((?a @ ?i) @ ?o)) (case cm_out c of
      None \<Rightarrow> (case cm_in c of None \<Rightarrow> ?r | Some f \<Rightarrow> ?r\<lparr>rd_in := int (length ?a), rd_in_file := Some f\<rparr>)
    | Some g \<Rightarrow> (case cm_in c of None \<Rightarrow> ?r | Some f \<Rightarrow> ?r\<lparr>rd_in := int (length ?a), rd_in_file := Some f\<rparr>)
        \<lparr>rd_out := int (length (?a @ ?i)), rd_out_file := Some g\<rparr>)"
    by (rule scan_greater[where post = post]) (use assms in \<open>simp_all add: command_ok_def render_def\<close>)
  also have "\<dots> = scan_stage ts (length (?a @ ?i @ ?o)) (redirs_of (length pre) c)"
    by (simp add: redirs_of_def Let_def add.assoc split: option.split)
  also have "\<dots> = (length pre + length (render c), redirs_of (length pre) c)"
  proof -
    have "\<not> (length (?a @ ?i @ ?o) < length ts \<and> ts ! length (?a @ ?i @ ?o) \<noteq> PIPE)"
      using assms(2,3) by (cases post) (simp_all add: render_def nth_append)
    then have "scan_stage ts (length (?a @ ?i @ ?o)) r = (length (?a @ ?i @ ?o), r)" for r
      by (subst scan_stage.simps) (simp only: if_False)
    then show ?thesis by (simp add: render_def add.assoc)
  qed
  finally show ?thesis .
qed

text \<open>The arguments are the words before the redirections.\<close>

lemma args_render:
  assumes "ts = pre @ render c @ post"
  shows "stage_args ts (length pre) (length pre + length (render c)) (redirs_of (length pre) c) = cm_argv c"
proof -
  let ?p = "length pre" and ?n = "length (cm_argv c)" and ?r = "redirs_of (length pre) c"
  let ?keep = "\<lambda>j. int j \<noteq> rd_in ?r \<and> int j \<noteq> rd_in ?r + 1 \<and> int j \<noteq> rd_out ?r \<and> int j \<noteq> rd_out ?r + 1"
  have "[?p..<?p + length (render c)] = [?p..<?p + ?n] @ [?p + ?n..<?p + length (render c)]"
    using upt_add_eq_append[of ?p "?p + ?n" "length (render c) - ?n"] by (simp add: render_def add.assoc)
  moreover have "filter ?keep [?p..<?p + ?n] = [?p..<?p + ?n]"
    by (rule filter_True) (auto simp: redirs_of_def Let_def)
  moreover have "filter ?keep [?p + ?n..<?p + length (render c)] = []"
    by (rule filter_False) (auto simp: redirs_of_def Let_def render_def redirect_def split: option.splits)
  ultimately have "filter ?keep [?p..<?p + length (render c)] = [?p..<?p + ?n]" by simp
  then have "stage_args ts ?p (?p + length (render c)) ?r = map (\<lambda>j. ts ! j) [?p..<?p + ?n]" by (simp add: stage_args_def)
  also have "\<dots> = cm_argv c" by (rule nth_equalityI) (simp_all add: assms render_def nth_append)
  finally show ?thesis .
qed

section \<open>Pipelines\<close>

lemma mk_child_redirs: "mk_child n i (cm_argv c) (redirs_of k c) = child_of n i c"
  by (simp add: mk_child_def child_of_def file_or_def redirs_of_def Let_def)

lemma stages_step:
  assumes "command_ok c" "ts = pre @ render c @ post" "post = [] \<or> hd post = PIPE" "i < n"
  shows "stages_loop ends bg ts n i (length pre) = (if bg \<or> ends i
    then (child_of n i c # fst (stages_loop ends bg ts n (i + 1) (length pre + length (render c) + 1)),
          snd (stages_loop ends bg ts n (i + 1) (length pre + length (render c) + 1)))
    else ([child_of n i c], False))"
  by (subst stages_loop.simps)
    (simp only: assms(4) if_True scan_render[OF assms(1-3)] Let_def prod.case split_beta fst_conv snd_conv args_render[OF assms(2)] mk_child_redirs)

text \<open>The stages that are started: up to the first one that is waited for and does not end.\<close>

primrec stages_started :: "(nat \<Rightarrow> bool) \<Rightarrow> bool \<Rightarrow> nat \<Rightarrow> nat \<Rightarrow> nat" where
  "stages_started ends bg i 0 = 0"
| "stages_started ends bg i (Suc n) = (if bg \<or> ends i then Suc (stages_started ends bg (i + 1) n) else 1)"

lemma stages_started_iff: "k < stages_started ends bg i n \<longleftrightarrow> k < n \<and> (bg \<or> (\<forall>j. i \<le> j \<and> j < i + k \<longrightarrow> ends j))"
proof (induction n arbitrary: i k)
  case (Suc n)
  have "(\<forall>j. i \<le> j \<and> j < i + Suc m \<longrightarrow> ends j) \<longleftrightarrow> ends i \<and> (\<forall>j. i + 1 \<le> j \<and> j < i + 1 + m \<longrightarrow> ends j)" for m
    by (auto simp: Suc_le_eq) (metis le_neq_implies_less)
  then show ?case using Suc.IH[of "k - 1" "i + 1"] by (cases k) auto
qed simp

lemma upt_0_Suc: "[0..<Suc m] = 0 # map Suc [0..<m]"
  by (simp add: map_Suc_upt upt_conv_Cons del: upt_Suc)

lemma stages_pipeline:
  assumes "\<forall>c \<in> set cs. command_ok c" "cs \<noteq> []" "ts = pre @ pipeline cs" "n = i + length cs"
  shows "stages_loop ends bg ts n i (length pre)
    = (map (\<lambda>k. child_of n (i + k) (cs ! k)) [0..<stages_started ends bg i (length cs)], bg \<or> (\<forall>j. i \<le> j \<and> j < n \<longrightarrow> ends j))"
  using assms
proof (induction cs arbitrary: pre i rule: pipeline.induct)
  case (2 c)
  have n: "n = i + 1" using 2(4) by simp
  then have "stages_loop ends bg ts n (i + 1) k = ([], True)" for k by (subst stages_loop.simps) simp
  moreover have "(\<forall>j. i \<le> j \<and> j < n \<longrightarrow> ends j) \<longleftrightarrow> ends i" by (auto simp: n Suc_le_eq le_less_Suc_eq)
  ultimately show ?case using stages_step[of c ts pre "[]" i n ends bg] 2 by simp
next
  case (3 c d cs)
  let ?m = "stages_started ends bg (i + 1) (length (d # cs))"
  have t: "ts = pre @ render c @ PIPE # pipeline (d # cs)" using 3(4) by simp
  have "stages_loop ends bg ts n (i + 1) (length (pre @ render c @ [PIPE]))
      = (map (\<lambda>k. child_of n (i + 1 + k) ((d # cs) ! k)) [0..<?m], bg \<or> (\<forall>j. i + 1 \<le> j \<and> j < n \<longrightarrow> ends j))"
    by (rule "3.IH") (use 3(2,5) t in simp_all)
  then have rest: "stages_loop ends bg ts n (i + 1) (length pre + length (render c) + 1)
      = (map (\<lambda>k. child_of n (i + Suc k) ((c # d # cs) ! Suc k)) [0..<?m], bg \<or> (\<forall>j. i + 1 \<le> j \<and> j < n \<longrightarrow> ends j))" by simp
  have s: "stages_started ends bg i (length (c # d # cs)) = (if bg \<or> ends i then Suc ?m else 1)" by simp
  have m: "map (\<lambda>k. child_of n (i + k) ((c # d # cs) ! k)) [0..<Suc ?m]
      = child_of n i c # map (\<lambda>k. child_of n (i + Suc k) ((c # d # cs) ! Suc k)) [0..<?m]"
    by (simp only: upt_0_Suc list.map map_map comp_def nth_Cons_0 add_0_right)
  have e: "(\<forall>j. i \<le> j \<and> j < n \<longrightarrow> ends j) \<longleftrightarrow> ends i \<and> (\<forall>j. i + 1 \<le> j \<and> j < n \<longrightarrow> ends j)"
    using 3(5) by (auto simp: Suc_le_eq) (metis le_neq_implies_less)
  have step: "stages_loop ends bg ts n i (length pre) = (if bg \<or> ends i
    then (child_of n i c # fst (stages_loop ends bg ts n (i + 1) (length pre + length (render c) + 1)),
          snd (stages_loop ends bg ts n (i + 1) (length pre + length (render c) + 1)))
    else ([child_of n i c], False))"
    by (rule stages_step[OF _ t]) (use 3(2,5) in simp_all)
  show ?case
  proof (cases "bg \<or> ends i")
    case True
    then show ?thesis unfolding step rest s e by (simp only: if_True m fst_conv snd_conv) auto
  next
    case False
    then show ?thesis unfolding step rest s e by simp
  qed
qed simp

lemma count_pipes:
  assumes "\<forall>c \<in> set cs. command_ok c" "cs \<noteq> []"
  shows "length (filter (\<lambda>w. w = PIPE) (pipeline cs)) + 1 = length cs"
proof -
  have "PIPE \<notin> set (render c)" if "command_ok c" for c
    using that by (cases "cm_in c"; cases "cm_out c") (auto simp: command_ok_def ordinary_def render_def redirect_def)
  then have r: "filter (\<lambda>w. w = PIPE) (render c) = []" if "command_ok c" for c
    using that by (metis (mono_tags, lifting) filter_False)
  show ?thesis using assms by (induction cs rule: pipeline.induct) (simp_all add: r)
qed

lemma run_pipeline:
  assumes "\<forall>c \<in> set cs. command_ok c" "cs \<noteq> []"
  shows "run_command_with_pipes ends bg (pipeline cs)
    = (map (\<lambda>i. child_of (length cs) i (cs ! i)) [0..<stages_started ends bg 0 (length cs)], bg \<or> (\<forall>j < length cs. ends j))"
  using stages_pipeline[OF assms, of "pipeline cs" "[]" "length cs" 0] count_pipes[OF assms]
  by (simp add: run_command_with_pipes_def)

text \<open>From the line to the processes.\<close>

lemma shell_line_pipeline:
  assumes "\<forall>c \<in> set cs. command_ok c" "cs \<noteq> []" "\<forall>w \<in> set (pipeline cs). word_ok w" "length (pipeline cs) + 2 \<le> heap"
    and "pipeline cs \<noteq> []" "lookup_cmd (hd (pipeline cs)) = None" "last (pipeline cs) \<noteq> AMPERSAND"
  shows "shell_line ends (command_line (pipeline cs) @ [10]) heap
    = Some (Run False (map (\<lambda>i. child_of (length cs) i (cs ! i)) [0..<stages_started ends False 0 (length cs)], \<forall>j < length cs. ends j))"
proof -
  obtain t where t: "tokenize (Some (command_line (pipeline cs) @ [10])) heap = Some (Some t)" "words_of t = pipeline cs"
    using tokenize_command_line(2)[OF assms(3,4)] by blast
  then show ?thesis using assms(5-7) run_pipeline[OF assms(1,2)] by (simp add: shell_line_def)
qed

text \<open>A line that fits into the buffer is read whole.\<close>

lemma command_line_newline: "\<forall>w \<in> set ws. 10 \<notin> set w \<Longrightarrow> 10 \<notin> set (command_line ws)"
  by (induction ws rule: command_line.induct) (auto simp: quote_def quote_char_def split: if_splits)

lemma fgets_line:
  assumes "10 \<notin> set l" "length l + 1 < n"
  shows "fgets n (l @ 10 # rest) = Some (l @ [10], rest)"
proof -
  have "takeWhile (\<lambda>c. c \<noteq> 10) (l @ 10 # rest) = l" using assms(1) by (subst takeWhile_append2) auto
  then have "length (takeWhile (\<lambda>c. c \<noteq> 10) (l @ 10 # rest)) = length l" by simp
  moreover have "min (n - 1) (length l + 1) = length l + 1" using assms(2) by simp
  ultimately show ?thesis by (simp add: fgets_def Let_def)
qed

lemma shell_round_pipeline:
  assumes "\<forall>c \<in> set cs. command_ok c" "cs \<noteq> []" "\<forall>w \<in> set (pipeline cs). word_ok w \<and> 10 \<notin> set w"
    "length (pipeline cs) + 2 \<le> heap" "length (command_line (pipeline cs)) + 1 < 4096"
    and "pipeline cs \<noteq> []" "lookup_cmd (hd (pipeline cs)) = None" "last (pipeline cs) \<noteq> AMPERSAND"
  shows "shell_round ends (command_line (pipeline cs) @ 10 # rest) heap
    = Some (Some (Run False (map (\<lambda>i. child_of (length cs) i (cs ! i)) [0..<stages_started ends False 0 (length cs)],
        \<forall>j < length cs. ends j), rest))"
proof -
  let ?l = "command_line (pipeline cs)"
  have w: "\<forall>w \<in> set (pipeline cs). word_ok w" and "10 \<notin> set ?l" using assms(3) command_line_newline by blast+
  then have f: "fgets 4096 (?l @ 10 # rest) = Some (?l @ [10], rest)" using fgets_line assms(5) by blast
  have "0 \<notin> set (?l @ [10])" using command_line_nonzero[OF w] by simp
  then have "takeWhile (\<lambda>c. c \<noteq> 0) (?l @ [10]) = ?l @ [10]" by (rule takeWhile_nonzero)
  then show ?thesis using shell_line_pipeline[OF assms(1,2) w assms(4,6-8)] f by (simp add: shell_round_def)
qed

end
