(* ===== verification/Sleep.thy ===== *)
theory Sleep
  imports Boot
begin

text \<open>
  The sleeping list (\<open>timer_sleep\<close> and \<open>timer_interrupt\<close> of devices/timer.c): in every reachable state it is
  in the order of the wake-up times.  So a tick makes exactly the threads ready whose time has come.  A
  wake-up time need not lie ahead: \<open>timer_sleep\<close> computes it with interrupts on, and a tick may come before
  the thread is on the list; such a thread is woken by the next tick after it got there.
\<close>

section \<open>Operations that leave the sleepers alone\<close>

definition alarms :: "kernel \<Rightarrow> addr \<Rightarrow> int option" where
  "alarms k = (\<lambda>t. map_option wake_time (threads k t))"

definition naps :: "kernel \<Rightarrow> kernel \<Rightarrow> bool" where
  "naps k k' \<longleftrightarrow> sleeping_list k' = sleeping_list k \<and> ticks k' = ticks k \<and> alarms k' \<subseteq>\<^sub>m alarms k"

lemma naps_refl [simp]: "naps k k"
  by (simp add: naps_def)

lemma naps_trans: "naps a b \<Longrightarrow> naps b c \<Longrightarrow> naps a c"
  unfolding naps_def using map_le_trans by fastforce

text \<open>Fields the sleepers do not depend on.\<close>

lemma naps_update [simp]:
  "naps k (k'\<lparr>fifo_ready_list := l\<rparr>) = naps k k'" "naps (k\<lparr>fifo_ready_list := l\<rparr>) k' = naps k k'"
  "naps k (k'\<lparr>priority_queue := l\<rparr>) = naps k k'" "naps (k\<lparr>priority_queue := l\<rparr>) k' = naps k k'"
  "naps k (k'\<lparr>current := t\<rparr>) = naps k k'" "naps (k\<lparr>current := t\<rparr>) k' = naps k k'"
  "naps k (k'\<lparr>thread_ticks := n\<rparr>) = naps k k'" "naps (k\<lparr>thread_ticks := n\<rparr>) k' = naps k k'"
  "naps k (k'\<lparr>all_list := l\<rparr>) = naps k k'" "naps (k\<lparr>all_list := l\<rparr>) k' = naps k k'"
  "naps k (k'\<lparr>semas := s\<rparr>) = naps k k'" "naps (k\<lparr>semas := s\<rparr>) k' = naps k k'"
  "naps k (k'\<lparr>holders := h\<rparr>) = naps k k'" "naps (k\<lparr>holders := h\<rparr>) k' = naps k k'"
  "naps k (k'\<lparr>conds := c\<rparr>) = naps k k'" "naps (k\<lparr>conds := c\<rparr>) k' = naps k k'"
  "naps k (k'\<lparr>rw_locks := r\<rparr>) = naps k k'" "naps (k\<lparr>rw_locks := r\<rparr>) k' = naps k k'"
  "naps k (k'\<lparr>next_tid := i\<rparr>) = naps k k'" "naps (k\<lparr>next_tid := i\<rparr>) k' = naps k k'"
  "naps k (k'\<lparr>idle_thread := t\<rparr>) = naps k k'" "naps (k\<lparr>idle_thread := t\<rparr>) k' = naps k k'"
  "naps k (k'\<lparr>in_external_intr := b\<rparr>) = naps k k'" "naps (k\<lparr>in_external_intr := b\<rparr>) k' = naps k k'"
  "naps k (k'\<lparr>yield_on_return := b\<rparr>) = naps k k'" "naps (k\<lparr>yield_on_return := b\<rparr>) k' = naps k k'"
  "naps k (k'\<lparr>idle_ticks := j\<rparr>) = naps k k'" "naps k (k'\<lparr>kernel_ticks := j\<rparr>) = naps k k'"
  "naps k (k'\<lparr>user_ticks := j\<rparr>) = naps k k'" "naps k (set_sema a x k') = naps k k'" "naps (set_sema a x k) k' = naps k k'"
  "naps k (set_rw a y k') = naps k k'" "naps (set_rw a y k) k' = naps k k'"
  by (simp_all add: naps_def alarms_def set_sema_def set_rw_def)

lemma naps_upd:
  assumes "upd_thread t f k = Some k'" "\<And>th. wake_time (f th) = wake_time th"
  shows "naps k k'"
  using assms by (auto simp: upd_thread_def bind_eq_Some_conv naps_def alarms_def map_le_def split: if_splits)

lemma naps_removed: "naps k (k\<lparr>threads := (threads k)(t := None)\<rparr>)"
  by (auto simp: naps_def alarms_def map_le_def)

lemma naps_ready:
  "thread_enqueue t k = Some k' \<Longrightarrow> naps k k'"
  "requeue t k = Some k' \<Longrightarrow> naps k k'"
  "next_thread_to_run k = Some (t, k') \<Longrightarrow> naps k k'"
  by (auto simp: thread_enqueue_def requeue_def unlink_ready_def next_thread_to_run_def thread_schedule_fifo_def
      thread_schedule_prio_def bind_eq_Some_conv split: sched_policy.splits if_splits list.splits)

lemma naps_tail:
  assumes "thread_switch_tail prev k = Some k'"
  shows "naps k k'"
proof -
  obtain k1 where "upd_thread (running_thread k) (\<lambda>th. th\<lparr>status := THREAD_RUNNING\<rparr>) k = Some k1"
    "k' = k1\<lparr>thread_ticks := 0\<rparr> \<or> k' = (k1\<lparr>thread_ticks := 0\<rparr>)\<lparr>threads := (threads (k1\<lparr>thread_ticks := 0\<rparr>))(prev := None)\<rparr>"
    using assms by (auto simp: thread_switch_tail_def bind_eq_Some_conv Let_def split: if_splits)
  moreover from this(1) have "naps k (k1\<lparr>thread_ticks := 0\<rparr>)" by (simp add: naps_upd)
  ultimately show ?thesis using naps_trans[OF _ naps_removed] by blast
qed

lemma naps_schedule: "schedule k = Some k' \<Longrightarrow> naps k k'"
  using naps_ready(3) naps_tail naps_trans
  by (fastforce simp: schedule_def bind_eq_Some_conv Let_def split: if_splits)

lemma naps_switch:
  "thread_block k = Some k' \<Longrightarrow> naps k k'" "thread_unblock t k = Some k' \<Longrightarrow> naps k k'"
  using naps_trans[OF naps_upd naps_schedule] naps_trans[OF naps_ready(1) naps_upd]
  by (fastforce simp: thread_block_def thread_unblock_def bind_eq_Some_conv)+

lemma naps_exit:
  assumes "thread_exit k = Some k'"
  shows "naps k k'"
proof -
  obtain t k1 where s: "upd_thread t (\<lambda>th. th\<lparr>status := THREAD_DYING\<rparr>) (k\<lparr>all_list := remove1 t (all_list k)\<rparr>) = Some k1"
    "schedule k1 = Some k'" using assms by (auto simp: thread_exit_def bind_eq_Some_conv Let_def)
  have "naps (k\<lparr>all_list := remove1 t (all_list k)\<rparr>) k1" by (rule naps_upd[OF s(1)]) simp
  then show ?thesis using naps_trans naps_schedule[OF s(2)] by simp
qed

lemma naps_yield:
  assumes "thread_yield k = Some k'"
  shows "naps k k'"
proof -
  obtain t k1 k2 where s: "k1 = k \<or> thread_enqueue t k = Some k1"
    "upd_thread t (\<lambda>th. th\<lparr>status := THREAD_READY\<rparr>) k1 = Some k2" "schedule k2 = Some k'"
    using assms unfolding thread_yield_def bind_eq_Some_conv by (metis option.inject)
  have "naps k k1" using s(1) naps_ready(1) by auto
  moreover have "naps k1 k2" by (rule naps_upd[OF s(2)]) simp
  ultimately show ?thesis using naps_schedule[OF s(3)] naps_trans by blast
qed

section \<open>Priorities\<close>

lemma naps_donate:
  assumes "recurse_donate_loop t k = Some k'"
  shows "naps k k'"
proof (rule recurse_donate_loop.raw_induct[where P = "\<lambda>t k k'. naps k k'", OF _ assms])
  fix donate cur k k'
  assume IH: "\<And>t k k'. donate t k = Some k' \<Longrightarrow> naps k k'"
    and eq: "do {
     c \<leftarrow> threads k cur;
     if donated_to c \<noteq> NULL then do {
       h \<leftarrow> holders k (donated_to c);
       if h \<noteq> NULL then do {
         n \<leftarrow> threads k h;
         if effective_priority n < effective_priority c then do {
           k \<leftarrow> upd_thread h (\<lambda>th. th\<lparr>effective_priority := effective_priority c\<rparr>) k;
           k \<leftarrow> (if status n = THREAD_READY then requeue h k else Some k);
           donate h k }
         else Some k }
       else Some k }
     else Some k } = Some k'"
  show "naps k k'"
  proof (cases "k' = k")
    case False
    then obtain h p k1 k2 where s: "upd_thread h (\<lambda>th. th\<lparr>effective_priority := p\<rparr>) k = Some k1"
      "k2 = k1 \<or> requeue h k1 = Some k2" "donate h k2 = Some k'"
      using eq by (auto simp: bind_eq_Some_conv split: if_splits)
    have "naps k k1" by (rule naps_upd[OF s(1)]) simp
    moreover have "naps k1 k2" using s(2) naps_ready(2) by auto
    ultimately show ?thesis using IH[OF s(3)] naps_trans by blast
  qed simp
qed

lemma naps_update_priority:
  assumes "update_priority t k = Some k'"
  shows "naps k k'"
proof -
  obtain p k1 where s: "upd_thread t (\<lambda>th. th\<lparr>effective_priority := p\<rparr>) k = Some k1" "k' = k1 \<or> requeue t k1 = Some k'"
    using assms by (auto simp: update_priority_def bind_eq_Some_conv split: if_splits)
  have "naps k k1" by (rule naps_upd[OF s(1)]) simp
  moreover have "naps k1 k'" using s(2) naps_ready(2) by auto
  ultimately show ?thesis by (rule naps_trans)
qed

lemma naps_set_priority:
  assumes "thread_set_priority p k = Some k'"
  shows "naps k k'"
proof -
  obtain t k1 where s: "upd_thread t (\<lambda>th. th\<lparr>priority := p, effective_priority := p\<rparr>) k = Some k1" "update_priority t k1 = Some k'"
    using assms by (auto simp: thread_set_priority_def bind_eq_Some_conv)
  have "naps k k1" by (rule naps_upd[OF s(1)]) simp
  then show ?thesis using naps_update_priority[OF s(2)] naps_trans by blast
qed

section \<open>Synchronisation\<close>

lemma naps_sema_init: "sema_init s v k = Some k' \<Longrightarrow> naps k k'"
  by (auto simp: sema_init_def)

lemma naps_down: "sema_down_round s k = Some (ok, k') \<Longrightarrow> naps k k'" "sema_try_down s k = Some (ok, k') \<Longrightarrow> naps k k'"
  using naps_switch(1) by (fastforce simp: sema_down_round_def sema_try_down_def bind_eq_Some_conv split: if_splits)+

lemma naps_up:
  assumes "sema_up s k = Some k'"
  shows "naps k k'"
proof -
  obtain u k1 x where s: "wake_one s k = Some (u, k1)" "k' = set_sema s x k1 \<or> thread_yield (set_sema s x k1) = Some k'"
    using assms by (fastforce simp: sema_up_def bind_eq_Some_conv Let_def split: if_splits)
  obtain ws sem where w: "(case ws of [] \<Rightarrow> Some (NULL, k) | v # rest \<Rightarrow> do {
      k \<leftarrow> thread_unblock v (set_sema s (sem\<lparr>waiters := rest\<rparr>) k); Some (v, k) }) = Some (u, k1)"
    using s(1) by (auto simp: wake_one_def bind_eq_Some_conv Let_def)
  have "naps k k1" using w naps_switch(2) by (cases ws) (fastforce simp: bind_eq_Some_conv)+
  moreover have "naps k1 k'" using s(2) naps_yield by fastforce
  ultimately show ?thesis by (rule naps_trans)
qed

lemma naps_round:
  assumes "lock_acquire_round l k = Some (ok, k')"
  shows "naps k k'"
proof -
  obtain b k1 where d: "sema_down_round (lock_sema l) k = Some (b, k1)"
    "k' = k1 \<or> (\<exists>t k2. upd_thread t (\<lambda>th. th\<lparr>donated_to := NULL, donated_locks := donated_locks th @ [l]\<rparr>) k1 = Some k2
       \<and> k' = k2\<lparr>holders := (holders k2)(l \<mapsto> t)\<rparr>)"
    using assms by (auto simp: lock_acquire_round_def bind_eq_Some_conv split: if_splits)
  have "naps k1 k'" using d(2) naps_upd[of _ "\<lambda>th. th\<lparr>donated_to := NULL, donated_locks := donated_locks th @ [l]\<rparr>" k1] by auto
  then show ?thesis using naps_down(1)[OF d(1)] naps_trans by blast
qed

lemma naps_acquire:
  assumes "lock_acquire l k = Some (ok, k')"
  shows "naps k k'"
proof -
  obtain t k1 k2 where s: "upd_thread t (\<lambda>th. th\<lparr>donated_to := l\<rparr>) k = Some k1" "k2 = k1 \<or> recurse_donate_loop t k1 = Some k2"
    "lock_acquire_round l k2 = Some (ok, k')"
    using assms by (auto simp: lock_acquire_def recurse_donate_def bind_eq_Some_conv split: if_splits)
  have "naps k k1" by (rule naps_upd[OF s(1)]) simp
  moreover have "naps k1 k2" using s(2) naps_donate by auto
  ultimately show ?thesis using naps_round[OF s(3)] naps_trans by blast
qed

lemma naps_release:
  assumes "lock_release l k = Some k'"
  shows "naps k k'"
proof -
  obtain t k1 k2 where s: "upd_thread t (\<lambda>th. th\<lparr>donated_locks := remove1 l (donated_locks th)\<rparr>) k = Some k1"
    "update_priority t (k1\<lparr>holders := (holders k1)(l \<mapsto> NULL)\<rparr>) = Some k2" "sema_up (lock_sema l) k2 = Some k'"
    using assms by (auto simp: lock_release_def unlink_lock_def bind_eq_Some_conv)
  have "naps k k1" by (rule naps_upd[OF s(1)]) simp
  moreover have "naps k1 k2" using naps_update_priority[OF s(2)] by simp
  ultimately show ?thesis using naps_up[OF s(3)] naps_trans by blast
qed

lemma naps_cond_wait:
  assumes "cond_wait c l w junk k = Some (gs, k')"
  shows "naps k k'"
proof -
  obtain k1 ws where s: "sema_init w 0 k = Some k1" "lock_release l (k1\<lparr>conds := (conds k1)(c \<mapsto> ws)\<rparr>) = Some k'"
    using assms by (auto simp: cond_wait_def bind_eq_Some_conv)
  show ?thesis using naps_sema_init[OF s(1)] naps_release[OF s(2)] naps_trans by simp
qed

lemma naps_signal:
  assumes "cond_signal c l k = Some k'"
  shows "naps k k'"
proof -
  obtain ws where w: "(case ws of [] \<Rightarrow> None
      | waiter # rest \<Rightarrow> sema_up (e_sema waiter) (k\<lparr>conds := (conds k)(c \<mapsto> rest)\<rparr>)) = Some k'"
    using assms by (auto simp: cond_signal_def bind_eq_Some_conv Let_def)
  then show ?thesis using naps_up by (cases ws) fastforce+
qed

lemma naps_broadcast: "cond_broadcast c l k = Some (gs, k') \<Longrightarrow> naps k k'"
  using naps_signal by (auto simp: cond_broadcast_def bind_eq_Some_conv split: if_splits)

lemma naps_rw_loop: "rw_loop rw reader w junk k = Some (gs, k') \<Longrightarrow> naps k k'"
  using naps_cond_wait naps_release by (fastforce simp: rw_loop_def bind_eq_Some_conv split: if_splits)

lemma naps_rw:
  "rw_woken rw reader w junk k = Some (gs, k') \<Longrightarrow> naps k k'"
  "rw_release rw reader k = Some (gs, k') \<Longrightarrow> naps k k'"
  using naps_rw_loop naps_signal naps_broadcast
  by (fastforce simp: rw_woken_def rw_release_def bind_eq_Some_conv Let_def split: if_splits)+

lemma naps_tid: "allocate_tid t k = Some (gs, k') \<Longrightarrow> naps k k'"
  using naps_release by (fastforce simp: allocate_tid_def bind_eq_Some_conv Let_def)

lemma naps_created:
  assumes "thread_created t i k = Some k'"
  shows "naps k k'"
proof -
  obtain k1 k2 where s: "upd_thread t (\<lambda>th. th\<lparr>tid := i\<rparr>) k = Some k1" "thread_unblock t k1 = Some k2"
    "k' = k2 \<or> thread_yield k2 = Some k'"
    using assms by (auto simp: thread_created_def bind_eq_Some_conv split: if_splits)
  have "naps k k1" by (rule naps_upd[OF s(1)]) simp
  moreover have "naps k1 k2" by (rule naps_switch(2)[OF s(2)])
  moreover have "naps k2 k'" using s(3) naps_yield by auto
  ultimately show ?thesis using naps_trans by blast
qed

lemma naps_idle: "idle s k = Some (gs, k') \<Longrightarrow> naps k k'"
  using naps_up by (fastforce simp: idle_def bind_eq_Some_conv)

lemma naps_lock_init: "lock_init l k = Some k' \<Longrightarrow> naps k k'"
  by (auto simp: lock_init_def sema_init_def)

lemma naps_cond_init: "cond_init c k = Some k' \<Longrightarrow> naps k k'"
  by (auto simp: cond_init_def)

lemma naps_rw_init: "rw_lock_init rw k = Some k' \<Longrightarrow> naps k k'"
  using naps_lock_init by (fastforce simp: rw_lock_init_def cond_init_def bind_eq_Some_conv split: if_splits)

lemma naps_sleepers: "naps k k' \<Longrightarrow> sleeping_list k' = sleeping_list k"
  by (simp add: naps_def)

text \<open>No frame but \<open>FSleep\<close> changes the sleepers or the time.\<close>

lemma naps_frame: "run_frame f k = Some (gs, k') \<Longrightarrow> f \<noteq> FSleep \<Longrightarrow> naps k k'"
  using naps_down(1) naps_acquire naps_round naps_release naps_rw_loop naps_rw naps_broadcast naps_tid naps_created
    naps_idle naps_switch(1)
  by (cases f) (auto simp: again_def split: if_splits)

section \<open>The invariant\<close>

definition in_order :: "kernel \<Rightarrow> bool" where
  "in_order k \<longleftrightarrow> sorted (map (wake k) (sleeping_list k))"

lemma sleeper_alive: "good k \<Longrightarrow> t \<in> set (sleeping_list k) \<Longrightarrow> threads k t \<noteq> None \<and> st k t = Some THREAD_BLOCKED"
proof -
  assume "good k" "t \<in> set (sleeping_list k)"
  then have "waits_ok k" "waits k t None" by (simp_all add: goodD waits_def)
  then have "st k t = Some THREAD_BLOCKED" unfolding waits_ok_def by blast
  then show ?thesis by (auto simp: st_def)
qed

lemma naps_wake: "naps k k' \<Longrightarrow> threads k' t \<noteq> None \<Longrightarrow> wake k' t = wake k t"
  by (force simp: naps_def alarms_def wake_def map_le_def dom_def split: option.splits)

lemma in_order_cong:
  assumes "in_order k" "sleeping_list k' = sleeping_list k" "\<And>t. t \<in> set (sleeping_list k) \<Longrightarrow> wake k' t = wake k t"
  shows "in_order k'"
proof -
  have m: "map (wake k') (sleeping_list k) = map (wake k) (sleeping_list k)" using assms(3) by simp
  show ?thesis using assms(1) unfolding in_order_def assms(2) m .
qed

lemma naps_in_order:
  assumes "naps k k'" "in_order k" "good k'"
  shows "in_order k'"
proof (rule in_order_cong[OF assms(2)])
  show s: "sleeping_list k' = sleeping_list k" using assms(1) by (simp add: naps_def)
  fix t assume "t \<in> set (sleeping_list k)"
  then show "wake k' t = wake k t" using naps_wake[OF assms(1)] sleeper_alive[OF assms(3)] s by simp
qed

text \<open>Going to sleep.\<close>

lemma insert_ordered_split:
  "\<exists>us vs. xs = us @ vs \<and> insert_ordered r e xs = us @ e # vs \<and> (\<forall>x \<in> set us. \<not> r e x) \<and> (vs \<noteq> [] \<longrightarrow> r e (hd vs))"
  unfolding insert_ordered_def
  by (rule exI[of _ "takeWhile (\<lambda>x. \<not> r e x) xs"], rule exI[of _ "dropWhile (\<lambda>x. \<not> r e x) xs"])
    (use hd_dropWhile[of "\<lambda>x. \<not> r e x" xs] in \<open>auto dest: set_takeWhileD\<close>)

lemma insert_wake_sorted:
  assumes "sorted (map f xs)" "\<And>a b. r a b \<longleftrightarrow> f a < (f b :: int)"
  shows "sorted (map f (insert_ordered r e xs)) \<and> set (insert_ordered r e xs) = insert e (set xs)"
proof -
  obtain us vs where s: "xs = us @ vs" "insert_ordered r e xs = us @ e # vs" "\<forall>x \<in> set us. \<not> r e x" "vs \<noteq> [] \<longrightarrow> r e (hd vs)"
    using insert_ordered_split[of xs r e] by blast
  have "f e \<le> f x" if "x \<in> set vs" for x
    using that assms s by (cases vs) (auto simp: sorted_append)
  moreover have "f x \<le> f e" if "x \<in> set us" for x using s(3) that assms(2) by force
  ultimately show ?thesis using assms(1) s(1,2) by (auto simp: sorted_append)
qed

lemma current_awake: "good k \<Longrightarrow> current k \<notin> set (sleeping_list k)"
  using sleeper_alive base_inv_current(2)[OF goodD(2)] by force

lemma timer_sleep_in_order:
  assumes "good k" "in_order k" "timer_sleep n k = Some (gs, k')"
  shows "in_order k'" "sleeping_list k' = sleeping_list k" "ticks k' = ticks k"
    "0 < n \<Longrightarrow> gs = [FSleep] \<and> current k' = current k \<and> wake k' (current k) = int64 (ticks k + n)"
proof -
  have a: "(n \<le> 0 \<and> k' = k) \<or>
      (0 < n \<and> gs = [FSleep] \<and> upd_thread (current k) (\<lambda>th. th\<lparr>wake_time := int64 (ticks k + n)\<rparr>) k = Some k')"
    using assms(3)
    by (auto simp: timer_sleep_def set_alarm_def bind_eq_Some_conv base_inv_current[OF goodD(2)[OF assms(1)]] split: if_splits)
  then show s: "sleeping_list k' = sleeping_list k" "ticks k' = ticks k"
    by (auto simp: upd_thread_def bind_eq_Some_conv)
  show "0 < n \<Longrightarrow> gs = [FSleep] \<and> current k' = current k \<and> wake k' (current k) = int64 (ticks k + n)"
    using a by (auto simp: upd_thread_def bind_eq_Some_conv wake_def)
  have "wake k' t = wake k t" if "t \<in> set (sleeping_list k)" for t
    using that a current_awake[OF assms(1)] by (auto simp: upd_thread_def bind_eq_Some_conv wake_def)
  then show "in_order k'" using in_order_cong[OF assms(2) s(1)] by blast
qed

lemma fall_asleep_in_order:
  assumes "good k" "in_order k" "current k \<noteq> idle_thread k" "fall_asleep k = Some k'"
  shows "in_order k'" "ticks k' = ticks k" "set (sleeping_list k') = insert (current k) (set (sleeping_list k))"
    "wake k' (current k) = wake k (current k)"
proof -
  let ?c = "current k"
  let ?k2 = "k\<lparr>sleeping_list := insert_ordered (wake_time_comparator k) ?c (sleeping_list k)\<rparr>"
  have blk: "thread_block ?k2 = Some k'" using assms(4) by (simp add: fall_asleep_def running_thread_def)
  have w2: "wake ?k2 = wake k" "ticks ?k2 = ticks k" by (simp_all add: wake_def fun_eq_iff)
  from insert_wake_sorted[OF assms(2)[unfolded in_order_def], of "wake_time_comparator k" ?c]
  have i: "sorted (map (wake k) (sleeping_list ?k2))" "set (sleeping_list ?k2) = insert ?c (set (sleeping_list k))"
    by (simp_all add: wake_time_comparator_def)
  have o: "in_order ?k2" unfolding in_order_def w2 by (rule i(1))
  have g: "good k'" using fall_asleep_calm[OF assms(1,3,4)] by (simp add: calm_def)
  note n = naps_switch(1)[OF blk]
  show "in_order k'" by (rule naps_in_order[OF n o g])
  show s: "ticks k' = ticks k" "set (sleeping_list k') = insert ?c (set (sleeping_list k))"
    using n i(2) by (simp_all add: naps_def)
  have "threads k' ?c \<noteq> None" using sleeper_alive[OF g, of ?c] s(2) by simp
  then show "wake k' ?c = wake k ?c" using naps_wake[OF n] w2(1) by metis
qed

section \<open>The tick\<close>

text \<open>A thread that yields is ready, and so is everyone else who was, or runs.\<close>

definition awake :: "kernel \<Rightarrow> addr \<Rightarrow> bool" where
  "awake k t \<longleftrightarrow> st k t = Some THREAD_READY \<or> st k t = Some THREAD_RUNNING"

lemma yield_awake:
  assumes "sched_inv k" "\<not> intr_context k" "awake k t"
  shows "\<exists>k'. thread_yield k = Some k' \<and> naps k k' \<and> awake k' t"
proof -
  note d = stepped_down_inv[OF assms(1)] and y = thread_yield_inv(1)[OF assms(1,2)]
  have "st (switched (stepped_down k)) t = Some THREAD_READY \<or> st (switched (stepped_down k)) t = Some THREAD_RUNNING"
    using st_switched[OF chosen_alive(2)[OF d(1)]] assms(1,3) by (auto simp: d Let_def awake_def sched_inv_def)
  then show ?thesis using y naps_yield[OF y] by (simp add: awake_def)
qed

text \<open>The first of the sleepers is ready to be woken.\<close>

lemma next_sleeper:
  assumes "sched_inv k" "waits_ok k" "sleeping_list k = t # ts"
  defines "k1 \<equiv> k\<lparr>sleeping_list := ts\<rparr>"
  shows "sched_inv k1" "waits_ok k1" "\<not> waits k1 t p" "t \<noteq> idle_thread k1" "st k1 t = Some THREAD_BLOCKED"
proof -
  note wk = assms(2)[unfolded waits_ok_def]
  have s: "semas k1 = semas k" "st k1 = st k" "idle_thread k1 = idle_thread k" "sleeping_list k1 = ts"
    by (simp_all add: k1_def st_def fun_eq_iff)
  have sub: "waits k u q" if "waits k1 u q" for u q
    using that assms(3) by (cases q) (simp_all add: waits_def s)
  show "sched_inv k1" by (rule same_sched_inv[OF _ assms(1)]) (simp add: k1_def same_sched_def)
  have w: "waits k t None" using assms(3) by (simp add: waits_def)
  have nt: "t \<notin> set ts" "distinct ts" using wk assms(3) by simp_all
  have a: "st k u = Some THREAD_BLOCKED" "u \<noteq> idle_thread k" if "waits k1 u q" for u q
    using wk sub[OF that] by blast+
  have b: "q = q'" if "waits k1 u q" "waits k1 u q'" for u q q'
    using wk sub[OF that(1)] sub[OF that(2)] by blast
  show "waits_ok k1" unfolding waits_ok_def s using a b nt(2) wk by blast
  show "\<not> waits k1 t p"
  proof
    assume x: "waits k1 t p"
    then have "p = None" using wk sub[OF x] w by blast
    then show False using x nt by (simp add: waits_def s)
  qed
  show "t \<noteq> idle_thread k1" "st k1 t = Some THREAD_BLOCKED" using wk w unfolding s by blast+
qed

lemma wake_sleepers_returns:
  assumes "sched_inv k" "waits_ok k" "sleeping_list k = ts"
  shows "\<exists>k'. wake_sleepers ts k = Some k'"
  using assms
proof (induction ts arbitrary: k)
  case (Cons t ts)
  let ?k1 = "k\<lparr>sleeping_list := ts\<rparr>"
  note n = next_sleeper[OF Cons.prems]
  note u = thread_unblock_inv[OF n(1,5,4)]
  note w = thread_unblock_waits[OF n(1,2) u(1) n(3,4)]
  have "sleeping_list (make_ready t ?k1) = ts" using w(3) by (simp add: same_sync_def)
  from Cons.IH[OF w(1,2) this] obtain k' where k': "wake_sleepers ts (make_ready t ?k1) = Some k'" by blast
  obtain th where "threads k t = Some th" using n(5) by (auto simp: st_def)
  then show ?case using u(1) k' by simp
qed simp

lemma tick_parts:
  assumes "in_external_intr k"
  shows "\<exists>k'. tick_preempt t k = Some k' \<and> in_external_intr k' \<and> naps k k'" "\<exists>k'. tick_slice k = Some k' \<and> naps k k'"
  using assms by (auto simp: tick_preempt_def tick_slice_def intr_yield_on_return_def intr_context_def Let_def)

lemma thread_tick_returns:
  assumes "sched_inv k" "in_external_intr k"
  shows "\<exists>k'. thread_tick k = Some k' \<and> naps k k'"
proof -
  let ?t = "current k"
  have t: "thread_current k = Some ?t" by (rule thread_current_inv[OF assms(1)])
  obtain th where th: "threads k ?t = Some th" using sched_inv_current[OF assms(1)] by (auto simp: st_def)
  let ?k1 = "tick_stats ?t th k"
  have s: "in_external_intr ?k1" "naps k ?k1" using assms(2) by (simp_all add: tick_stats_def)
  obtain k2 where p: "tick_preempt ?t ?k1 = Some k2" "in_external_intr k2" "naps ?k1 k2"
    using tick_parts(1)[OF s(1)] by blast
  obtain k3 where "tick_slice k2 = Some k3" "naps k2 k3"
    using tick_parts(2)[OF p(2)] by blast
  then show ?thesis using t th p(1) naps_trans[OF s(2) naps_trans[OF p(3)]] by (simp add: thread_tick_def)
qed

lemma timer_tick:
  assumes "good k" "in_order k"
  shows "\<exists>k'. intr_handler_timer k = Some k' \<and> ticks k' = ticks k + 1 \<and> in_order k'
    \<and> sleeping_list k' = filter (\<lambda>t. ticks k + 1 < wake k t) (sleeping_list k)
    \<and> (\<forall>t \<in> set (sleeping_list k). wake k t \<le> ticks k + 1 \<longrightarrow> awake k' t)"
proof -
  define k0 where "k0 = k\<lparr>in_external_intr := True, yield_on_return := False, ticks := ticks k + 1\<rparr>"
  have f: "same_sched k k0" "semas k0 = semas k" "sleeping_list k0 = sleeping_list k" "ticks k0 = ticks k + 1"
    "threads k0 = threads k" "wake k0 = wake k" "in_external_intr k0"
    by (simp_all add: k0_def same_sched_def wake_def fun_eq_iff)
  have w0: "waits k0 = waits k" by (intro ext) (simp add: waits_def f split: option.split)
  have "waits_ok k0" using goodD(4)[OF assms(1)] f unfolding waits_ok_def w0 by (simp add: same_sched_def)
  moreover have "sched_inv k0" by (rule same_sched_inv[OF f(1) goodD(3)[OF assms(1)]])
  ultimately obtain k1 where k1: "wake_sleepers (sleeping_list k0) k0 = Some k1"
    and i1: "sched_inv k1" "in_external_intr k1"
    using wake_sleepers_returns[of k0] wake_sleepers_inv[of k0 "sleeping_list k0"] f(7) by blast
  have alive: "\<forall>t \<in> set (sleeping_list k0). threads k0 t \<noteq> None" using sleeper_alive[OF assms(1)] f by simp
  have "sorted (map (wake k0) (sleeping_list k0))" using assms(2) by (simp add: in_order_def f)
  note due = wake_sleepers_due[OF refl k1 this alive, unfolded f]
  obtain k2 where k2: "thread_tick k1 = Some k2" "naps k1 k2" using thread_tick_returns[OF i1] by blast
  note tt = thread_tick_same[OF k2(1), unfolded same_tick_def]
  let ?k3 = "k2\<lparr>in_external_intr := False\<rparr>"
  have s3: "sched_inv ?k3" by (rule same_sched_inv[OF _ i1(1)]) (use tt in \<open>simp add: same_sched_def\<close>)
  have c3: "\<not> intr_context ?k3" "intr_context k2" using tt i1(2) by (simp_all add: intr_context_def)
  have "timer_interrupt (k\<lparr>in_external_intr := True, yield_on_return := False\<rparr>) = Some k2"
    using k1 k2(1) by (simp add: timer_interrupt_def k0_def Let_def)
  then have h: "intr_handler_timer k = (if yield_on_return k2 then thread_yield ?k3 else Some ?k3)"
    using goodD(5)[OF assms(1)] c3 by (simp add: intr_handler_timer_def Let_def)
  have st3: "st k2 = st k1" using tt by (simp add: st_def fun_eq_iff)
  have "\<exists>k'. intr_handler_timer k = Some k' \<and> naps k1 k' \<and> (\<forall>t. awake k1 t \<longrightarrow> awake k' t)"
  proof (cases "yield_on_return k2")
    case True
    obtain k' where "thread_yield ?k3 = Some k'" using thread_yield_inv(1)[OF s3 c3(1)] by blast
    then show ?thesis
      using yield_awake[OF s3 c3(1)] True h k2(2) naps_yield[of ?k3 k'] naps_trans[of k1 k2 k'] by (auto simp: awake_def st3)
  next
    case False
    then show ?thesis using h k2(2) by (simp add: awake_def st3)
  qed
  then obtain k' where k': "intr_handler_timer k = Some k'" "naps k1 k'" "\<And>t. awake k1 t \<Longrightarrow> awake k' t" by blast
  have g: "good k'" using irq_calm[OF assms(1) k'(1)] by (simp add: calm_def)
  have l: "sleeping_list k1 = filter (\<lambda>t. ticks k + 1 < wake k t) (sleeping_list k)" "ticks k1 = ticks k + 1" "wake k1 = wake k"
    using due by simp_all
  have "in_order k1" using assms(2) unfolding in_order_def l by (auto intro: sorted_filter)
  then have "in_order k'" by (rule naps_in_order[OF k'(2) _ g])
  moreover have "sleeping_list k' = sleeping_list k1" "ticks k' = ticks k1" using k'(2) by (simp_all add: naps_def)
  moreover have "awake k' t" if "t \<in> set (sleeping_list k)" "wake k t \<le> ticks k + 1" for t
    using that due k'(3)[of t] by (simp add: awake_def)
  ultimately show ?thesis using k'(1) l by simp
qed

section \<open>All steps\<close>

text \<open>What a step does to the sleepers: only a tick wakes any, and it wakes those whose time has come.\<close>

lemma sys_step_sleepers:
  assumes "sys_step s s'" "sys_inv s" "in_order (fst s)"
  shows "in_order (fst s')"
    "t \<in> set (sleeping_list (fst s)) \<Longrightarrow> t \<notin> set (sleeping_list (fst s')) \<Longrightarrow>
       wake (fst s) t \<le> ticks (fst s') \<and> intr_handler_timer (fst s) = Some (fst s')"
proof -
  have inv: "sys_inv s'" by (rule sys_step_inv[OF assms(1,2)])
  have "in_order (fst s') \<and> (set (sleeping_list (fst s)) \<subseteq> set (sleeping_list (fst s'))
     \<or> intr_handler_timer (fst s) = Some (fst s'))"
    using assms(1)
  proof (cases rule: sys_step.cases)
    case (frame p k f fs gs k')
    have g: "good k" "good k'" "in_order k" using inv assms(2,3) frame(1,2) by (simp_all add: sys_inv_def)
    show ?thesis
    proof (cases "f = FSleep")
      case True
      have "current k \<noteq> idle_thread k" using assms(2) frame(1,3) True by (auto simp: sys_inv_def)
      moreover have "fall_asleep k = Some k'" using frame(5) True by auto
      ultimately show ?thesis using fall_asleep_in_order(1,3)[OF g(1,3)] frame(1,2) by auto
    next
      case False
      have "naps k k'" by (rule naps_frame[OF frame(5) False])
      then show ?thesis using naps_in_order[OF _ g(3,2)] frame(1,2) by (simp add: naps_def)
    qed
  next
    case (call p k c gs k')
    have g: "good k" "good k'" "in_order k" using inv assms(2,3) call(1,2) by (simp_all add: sys_inv_def)
    have "in_order k' \<and> sleeping_list k' = sleeping_list k"
    proof (cases c)
      case (KSleep n)
      then show ?thesis using timer_sleep_in_order(1,2)[OF g(1,3)] call by auto
    next
      case (KCreate page pri)
      have "page \<notin> set (sleeping_list k)" using sleeper_alive[OF g(1)] call KCreate by fastforce
      then have "wake k' t = wake k t" if "t \<in> set (sleeping_list k)" for t
        using that call KCreate by (auto simp: thread_create_def init_thread_def bind_eq_Some_conv wake_def split: if_splits)
      moreover have "sleeping_list k' = sleeping_list k"
        using call KCreate by (auto simp: thread_create_def init_thread_def bind_eq_Some_conv split: if_splits)
      ultimately show ?thesis using in_order_cong[OF g(3)] by blast
    next
      case (KLockInit l)
      then have "naps k k'" using call naps_lock_init by auto
      then show ?thesis using naps_in_order[OF _ g(3,2)] by (simp add: naps_def)
    next
      case (KRwInit rw)
      then have "naps k k'" using call naps_rw_init by auto
      then show ?thesis using naps_in_order[OF _ g(3,2)] by (simp add: naps_def)
    qed (use call g naps_in_order[OF _ g(3,2)] in \<open>auto simp: rw_lock_acquire_def rw_lock_release_def naps_def[symmetric]
      dest!: naps_down naps_up naps_release naps_cond_wait naps_signal naps_yield naps_set_priority naps_exit
        naps_sema_init naps_cond_init dest: naps_sleepers\<close>)
    then show ?thesis using call(1,2) by simp
  next
    case (irq k k' p)
    then show ?thesis using timer_tick[of k] assms(2,3) by (auto simp: sys_inv_def)
  qed
  note all = this
  show "in_order (fst s')" using all by blast
  assume t: "t \<in> set (sleeping_list (fst s))" "t \<notin> set (sleeping_list (fst s'))"
  then have i: "intr_handler_timer (fst s) = Some (fst s')" using all by blast
  moreover have "good (fst s)" using assms(2) by (simp add: sys_inv_def split: prod.splits)
  ultimately show "wake (fst s) t \<le> ticks (fst s') \<and> intr_handler_timer (fst s) = Some (fst s')"
    using timer_tick[OF _ assms(3)] t by auto
qed

lemma reachable_in_order:
  assumes "reachable s s'" "sys_inv s" "in_order (fst s)"
  shows "in_order (fst s') \<and> sys_inv s'"
  using assms(1) unfolding reachable_def
  by (induction rule: rtranclp_induct) (use assms(2,3) in \<open>auto intro: sys_step_sleepers(1) sys_step_inv\<close>)

section \<open>The booted kernel\<close>

lemma booted_in_order: "in_order booted"
  by (simp add: in_order_def booted_def boot_defs)

text \<open>The main thread goes to sleep for one tick, and the tick comes before it is on the list.\<close>

lemma booted_oversleeps:
  "\<exists>k p. reachable (booted, booted_pend) (k, p) \<and> sleeping_list k = [4096] \<and> wake k 4096 = 1 \<and> ticks k = 1"
proof -
  obtain k1 where k1: "timer_sleep 1 booted = Some ([FSleep], k1)" "k1 = booted\<lparr>threads := (threads booted)(4096 \<mapsto> main_thread\<lparr>wake_time := 1\<rparr>)\<rparr>"
    by (simp add: booted_def boot_defs main_thread_def idle_thr_def timer_sleep_def set_alarm_def int64_def)
  obtain k2 where k2: "intr_handler_timer k1 = Some k2" "current k2 = 4096"
      "fall_asleep k2 \<noteq> None" "sleeping_list (the (fall_asleep k2)) = [4096]" "wake (the (fall_asleep k2)) 4096 = 1"
      "ticks (the (fall_asleep k2)) = 1"
    by (simp add: k1(2) booted_def boot_defs main_thread_def idle_thr_def intr_handler_timer_def timer_interrupt_def
        thread_tick_def tick_stats_def tick_preempt_def tick_slice_def TIME_SLICE_def fall_asleep_def wake_def)
  then obtain k3 where k3: "fall_asleep k2 = Some k3" "sleeping_list k3 = [4096]" "wake k3 4096 = 1" "ticks k3 = 1" by auto
  let ?p = "\<lambda>t. if t = current booted then [FSleep] else if t \<in> called_thread (KSleep 1) then [] else booted_pend t"
  have "sys_step (booted, booted_pend) (k1, ?p)"
    by (rule sys_step.call) (use k1(1) in \<open>simp_all add: booted_pend_def booted_def\<close>)
  then have "reachable (booted, booted_pend) (k1, ?p)" unfolding reachable_def by (rule r_into_rtranclp)
  moreover have "sys_step (k1, ?p) (k2, ?p)" by (rule sys_step.irq[OF k2(1)])
  ultimately have "reachable (booted, booted_pend) (k2, ?p)" unfolding reachable_def by (rule rtranclp.rtrancl_into_rtrancl)
  moreover have "sys_step (k2, ?p) (k3, ?p(current k2 := [] @ []))"
    by (rule sys_step.frame[where f = FSleep]) (use k2(2) k3(1) in \<open>simp_all add: booted_def\<close>)
  ultimately have "reachable (booted, booted_pend) (k3, ?p(current k2 := [] @ []))"
    unfolding reachable_def by (rule rtranclp.rtrancl_into_rtrancl)
  then show ?thesis using k3(2-4) by blast
qed

end
