(* ===== verification/StdioSpec.thy ===== *)
theory StdioSpec
  imports Stdio
begin

text \<open>
  What the formatter promises.  The 64-byte buffer of an integer conversion suffices for every 64-bit
  value in every base, with every flag, width and precision (\<open>format_integer_total\<close>); what a signed
  conversion prints is read back by \<open>atoi\<close> (\<open>atoi_format\<close>); and \<open>vsnprintf\<close> leaves the front of the
  formatted text in the buffer, terminated (\<open>vsnprintf_out\<close>).
\<close>

section \<open>The buffer is large enough\<close>

definition base_ok :: "integer_base \<Rightarrow> bool" where
  "base_ok b \<longleftrightarrow> 8 \<le> base b \<and> 0 < group b \<and> length (digits b) = base b"

lemma bases_ok [simp]: "base_ok base_d" "base_ok base_o" "base_ok base_x" "base_ok base_X"
  by (simp_all add: base_ok_def base_d_def base_o_def base_x_def base_X_def)

lemma digits_loop_total:
  assumes "base_ok b" "v < base b ^ k" "length buf + 2 * k \<le> 64"
  shows "\<exists>ds. digits_loop b c v n buf = Some (buf @ ds) \<and> length ds \<le> 2 * k"
  using assms(2,3)
proof (induction k arbitrary: v n buf)
  case 0
  then show ?case by (simp add: digits_loop.simps)
next
  case (Suc k)
  show ?case
  proof (cases "v = 0")
    case False
    let ?comma = "GROUP \<in> flags c \<and> 0 < n \<and> n mod group b = 0"
    let ?pre = "(if ?comma then [chr (CHR '','')] else []) @ [digits b ! (v mod base b)]"
    have "v div base b < base b ^ k" using Suc.prems(1) assms(1)
      by (simp add: base_ok_def less_mult_imp_div_less mult.commute)
    moreover have "length (buf @ ?pre) + 2 * k \<le> 64" using Suc.prems(2) by simp
    ultimately obtain ds where "digits_loop b c (v div base b) (n + 1) (buf @ ?pre) = Some ((buf @ ?pre) @ ds)"
      "length ds \<le> 2 * k" using Suc.IH by blast
    moreover have "digits_loop b c v n buf = digits_loop b c (v div base b) (n + 1) (buf @ ?pre)"
      using False assms(1) Suc.prems(2) by (subst digits_loop.simps) (simp add: base_ok_def put_def)
    ultimately show ?thesis by (intro exI[of _ "?pre @ ds"]) simp
  qed (simp add: digits_loop.simps)
qed

lemma format_integer_total:
  assumes "base_ok b" "v < 2 ^ 64"
  shows "\<exists>out. format_integer v is_signed negative b c = Some out \<and> width c \<le> int (length out)"
proof -
  have "(2 :: nat) ^ 64 \<le> 8 ^ 22" by simp
  also have "\<dots> \<le> base b ^ 22" using assms(1) by (intro power_mono) (simp_all add: base_ok_def)
  finally have "v < base b ^ 22" using assms(2) by (rule less_le_trans[rotated])
  from digits_loop_total[OF assms(1) this, of "[]"] obtain ds where
    ds: "digits_loop b c v 0 [] = Some ds" "length ds \<le> 44" by auto
  define buf where "buf = zero_fill ds (if precision c < 0 then 1 else precision c)"
  have "length buf < 64" using ds(2) by (auto simp: buf_def zero_fill_def)
  then have "\<exists>buf'. (if POUND \<in> flags c \<and> base b = 8 \<and> (buf = [] \<or> List.last buf \<noteq> chr (CHR ''0''))
            then put buf (chr (CHR ''0'')) else Some buf) = Some buf'" by (simp add: put_def)
  then show ?thesis using ds(1) unfolding format_integer_def Let_def buf_def
    by (auto simp: output_dup_def)
qed

section \<open>Decimal text\<close>

function lsb_digits :: "integer_base \<Rightarrow> nat \<Rightarrow> nat list" where
  "lsb_digits b v = (if v = 0 \<or> base b < 2 then [] else digits b ! (v mod base b) # lsb_digits b (v div base b))"
  by pat_completeness auto
termination by (relation "measure snd") auto

declare lsb_digits.simps [simp del]

lemma digits_loop_lsb:
  assumes "base_ok b" "GROUP \<notin> flags c" "digits_loop b c v n buf = Some ds"
  shows "ds = buf @ lsb_digits b v"
  using assms(3)
proof (induction v arbitrary: n buf rule: less_induct)
  case (less v)
  show ?case
  proof (cases "v = 0")
    case False
    then have dl: "digits_loop b c (v div base b) (n + 1) (buf @ [digits b ! (v mod base b)]) = Some ds"
      using less.prems assms(1,2) by (subst (asm) digits_loop.simps) (auto simp: put_def bind_eq_Some_conv split: if_splits)
    have "v div base b < v" using False assms(1) by (simp add: base_ok_def)
    from less.IH[OF this dl] show ?thesis using False assms(1)
      by (simp add: lsb_digits.simps[of b v] base_ok_def)
  qed (use less.prems in \<open>simp add: digits_loop.simps lsb_digits.simps\<close>)
qed

lemma lsb_decimal: "v \<noteq> 0 \<Longrightarrow> rev (lsb_digits base_d v) = decimal v"
proof (induction v rule: less_induct)
  case (less v)
  have "digits base_d ! d = 48 + d" if "d < 10" for d
  proof -
    from that have "d = 0 \<or> d = 1 \<or> d = 2 \<or> d = 3 \<or> d = 4 \<or> d = 5 \<or> d = 6 \<or> d = 7 \<or> d = 8 \<or> d = 9" by arith
    then show ?thesis by (elim disjE) (simp_all add: base_d_def)
  qed
  then have d: "digits base_d ! (v mod 10) = 48 + v mod 10" by simp
  show ?case
  proof (cases "v < 10")
    case True
    then show ?thesis using less.prems d
      by (subst lsb_digits.simps) (simp add: base_d_def decimal.simps[of v] lsb_digits.simps[of _ 0])
  next
    case False
    then have "rev (lsb_digits base_d (v div 10)) = decimal (v div 10)" using less.IH[of "v div 10"] by simp
    then show ?thesis using less.prems d False
      by (subst lsb_digits.simps) (simp add: decimal.simps[of v] base_d_def)
  qed
qed

text \<open>\<open>atoi\<close> on white space, a sign, digits, and something else.\<close>

lemma atoi_digits_zeros: "atoi_digits (replicate k 48 @ s) 0 = atoi_digits s 0"
  by (induction k) (simp_all add: isdigit_def int_range_def)

lemma atoi_parts:
  assumes "list_all isspace ws" "sg = [] \<or> sg = [43] \<or> sg = [45]" "ds \<noteq> []" "list_all isdigit ds"
    "t = [] \<or> \<not> isdigit (hd t)" "atoi_digits ds 0 = Some (- n)" "int_range (if sg = [45] then - n else n)"
  shows "atoi (ws @ sg @ ds @ t) = Some (if sg = [45] then - n else n)"
proof -
  obtain d ds' where ds: "ds = d # ds'" "isdigit d" using assms(3,4) by (cases ds) auto
  then have d: "\<not> isspace d" "d \<noteq> 43" "d \<noteq> 45" by (auto simp: isdigit_def isspace_def)
  have s: "\<not> isspace 43" "\<not> isspace 45" by (simp_all add: isspace_def)
  have "dropWhile isspace (ws @ sg @ ds @ t) = sg @ ds @ t"
  proof -
    have "dropWhile isspace (ws @ u) = dropWhile isspace u" for u
      using assms(1) by (simp add: dropWhile_append2 list_all_iff)
    then show ?thesis using assms(2) d(1) s ds(1) by auto
  qed
  moreover have "atoi_digits t v = Some v" for v using assms(5) by (cases t) auto
  then have "atoi_digits (ds @ t) 0 = Some (- n)" using assms(4,6) by (simp add: atoi_digits_append)
  ultimately show ?thesis using assms(2,7) d ds(1)
    by (elim disjE) (simp_all add: atoi_def Let_def del: atoi_digits.simps)
qed

lemma atoi_format:
  assumes "int_range v" "GROUP \<notin> flags c" "v \<noteq> 0 \<or> precision c \<noteq> 0"
    "format_integer (nat \<bar>v\<bar>) True (v < 0) base_d c = Some out"
  shows "atoi out = Some v"
proof -
  define p where "p = (if precision c < 0 then 1 else precision c)"
  define sg where "sg = sign_char True (v < 0) c"
  obtain buf where dl: "digits_loop base_d c (nat \<bar>v\<bar>) 0 [] = Some buf"
    using assms(4) by (auto simp: format_integer_def Let_def bind_eq_Some_conv)
  have buf: "buf = lsb_digits base_d (nat \<bar>v\<bar>)" using digits_loop_lsb[OF bases_ok(1) assms(2) dl] by simp
  obtain k where zf: "zero_fill buf p = buf @ replicate k 48" "buf = [] \<Longrightarrow> p \<noteq> 0 \<Longrightarrow> 0 < p \<Longrightarrow> 0 < k"
    by (auto simp: zero_fill_def)
  define pad where "pad = width c - int (length (buf @ replicate k 48)) - (if sg \<noteq> 0 then 1 else 0)"
  define pc where "pc = (if pad < 0 then 0 else pad)"
  define pre where "pre = (if flags c \<inter> {MINUS, ZERO} = {} then output_dup 32 pc else [])"
  define zs where "zs = (if ZERO \<in> flags c then output_dup 48 pc else [])"
  define post where "post = (if MINUS \<in> flags c then output_dup 32 pc else [])"
  define ds where "ds = replicate k 48 @ rev buf"
  have base_d: "x_char base_d = 0" "base base_d = 10" by (simp_all add: base_d_def)
  have out: "out = pre @ (if sg \<noteq> 0 then [sg] else []) @ zs @ ds @ post"
    using assms(4) dl zf(1)[unfolded p_def] base_d(1,2) unfolding format_integer_def Let_def
    by (simp add: sg_def pad_def pc_def pre_def zs_def post_def ds_def cong del: if_weak_cong)
  have sg: "sg = (if v < 0 then 45 else if PLUS \<in> flags c then 43 else if SPACE \<in> flags c then 32 else 0)"
    by (simp add: sg_def sign_char_def)
  have dec: "rev buf = (if v = 0 then [] else decimal (nat \<bar>v\<bar>))"
    using lsb_decimal[of "nat \<bar>v\<bar>"] buf by (simp add: lsb_digits.simps[of _ 0])
  have dn: "atoi_digits ds 0 = Some (- \<bar>v\<bar>)"
    using atoi_digits_decimal[of "nat \<bar>v\<bar>"] assms(1) unfolding ds_def atoi_digits_zeros dec
    by (auto simp: int_range_def)
  have ne: "ds \<noteq> []"
  proof (cases "v = 0")
    case True
    then have "buf = []" "0 < p" using dec assms(3) by (auto simp: p_def)
    then show ?thesis using zf(2) by (simp add: ds_def)
  qed (use dec decimal_hd in \<open>simp add: ds_def\<close>)
  have zs: "zs = replicate (if ZERO \<in> flags c then nat pc else 0) 48" by (simp add: zs_def output_dup_def)
  have dig: "list_all isdigit (zs @ ds)"
    using decimal_digits by (auto simp: zs ds_def dec list_all_iff isdigit_def[of 48])
  define ws where "ws = pre @ (if sg = 32 then [32] else [])"
  define sn where "sn = (if v < 0 then [45] else if PLUS \<in> flags c then [43] else [] :: nat list)"
  have "out = ws @ sn @ (zs @ ds) @ post" by (simp add: out ws_def sn_def sg)
  moreover have "atoi (ws @ sn @ (zs @ ds) @ post) = Some (if sn = [45] then - \<bar>v\<bar> else \<bar>v\<bar>)"
  proof (rule atoi_parts)
    show "list_all isspace ws" by (auto simp: ws_def pre_def output_dup_def list_all_iff isspace_def)
    show "post = [] \<or> \<not> isdigit (hd post)"
      by (cases "nat pc") (auto simp: post_def output_dup_def isdigit_def)
    show "atoi_digits (zs @ ds) 0 = Some (- \<bar>v\<bar>)" using dn by (simp add: zs atoi_digits_zeros)
  qed (use ne dig assms(1) in \<open>auto simp: sn_def int_range_def\<close>)
  ultimately show ?thesis by (simp add: sn_def)
qed

section \<open>Printing into a buffer\<close>

lemma helper_loop_out:
  assumes "m \<le> length buffer"
  shows "helper_loop out (\<lparr>aux_p = min m l, aux_length = l, max_length = int m\<rparr>, buffer) =
    Some (\<lparr>aux_p = min m (l + length out), aux_length = l + length out, max_length = int m\<rparr>,
      take (min m l) buffer @ take (m - l) out @ drop (min m (l + length out)) buffer)"
  using assms
proof (induction out arbitrary: l buffer)
  case (Cons ch out)
  show ?case
  proof (cases "l < m")
    case True
    then have l: "min m l = l" "min m (Suc l) = Suc l" by simp_all
    have "take (Suc l) (buffer[l := ch]) = take l buffer @ [ch]"
      using True Cons.prems by (simp add: take_Suc_conv_app_nth)
    moreover have "drop (min m (Suc (l + length out))) (buffer[l := ch]) = drop (min m (Suc (l + length out))) buffer"
      using True by simp
    moreover obtain d where "m - l = Suc d" "m - Suc l = d" using True by (metis Suc_diff_Suc)
    ultimately show ?thesis
      using Cons.IH[of "buffer[l := ch]" "Suc l"] Cons.prems True
      by (simp add: vsnprintf_helper_def l)
  next
    case False
    then show ?thesis using Cons.IH[of buffer "Suc l"] Cons.prems by (simp add: vsnprintf_helper_def min_def)
  qed
qed simp

lemma vsnprintf_out:
  assumes "vprintf_str fmt as = Some out" "buf_size \<le> length buffer" "0 < buf_size"
  shows "vsnprintf buffer buf_size fmt as =
    Some (take (buf_size - 1) out @ 0 # drop (min buf_size (length out + 1)) buffer, length out)"
proof -
  let ?m = "buf_size - 1" and ?n = "min (buf_size - 1) (length out)"
  have m: "(if 0 < buf_size then int buf_size - 1 else 0) = int ?m" using assms(3) by simp
  have l: "helper_loop out (\<lparr>aux_p = 0, aux_length = 0, max_length = int ?m\<rparr>, buffer) =
    Some (\<lparr>aux_p = ?n, aux_length = length out, max_length = int ?m\<rparr>, take ?m out @ drop ?n buffer)"
    using helper_loop_out[of ?m buffer out 0] assms(2) by simp
  have u: "(take ?m out @ drop ?n buffer)[?n := 0] = take ?m out @ 0 # drop (Suc ?n) buffer"
  proof -
    have "?n < length buffer" using assms(2,3) by simp
    then have "drop ?n buffer = buffer ! ?n # drop (Suc ?n) buffer" by (simp add: Cons_nth_drop_Suc)
    moreover have "length (take ?m out) = ?n" by (simp add: min.commute)
    ultimately show ?thesis by (metis list_update_length)
  qed
  have n: "Suc ?n = min buf_size (length out + 1)" "?n < length (take ?m out @ drop ?n buffer)"
    using assms(2,3) by simp_all
  have "vsnprintf buffer buf_size fmt as = Some ((take ?m out @ drop ?n buffer)[?n := 0], length out)"
    unfolding vsnprintf_def Let_def m assms(1) Option.bind.bind_lunit l prod.case
    using n(2) assms(3) by (simp del: length_append add: ASSERT_def)
  then show ?thesis unfolding u n(1) .
qed

end
