(* ===== verification/Ustar.thy ===== *)
theory Ustar
  imports StdioSpec Inode
begin

text \<open>
  lib/ustar.c: headers of tar archives.  A header is the list of its 512 bytes, a string the list of its
  bytes without the terminating null byte; the fields are the offsets of \<open>struct ustar_header\<close>.  Octal
  fields are printed by the model of lib/stdio.c.  The messages about long names are left out.
\<close>

section \<open>The code\<close>

datatype ustar_type = USTAR_REGULAR | USTAR_DIRECTORY | USTAR_EOF

fun typeflag :: "ustar_type \<Rightarrow> nat" where
  "typeflag USTAR_REGULAR = 48" | "typeflag USTAR_DIRECTORY = 53" | "typeflag USTAR_EOF = 255"

definition USTAR_HEADER_SIZE :: nat where "USTAR_HEADER_SIZE = 512"

abbreviation (input) NAME :: nat where "NAME \<equiv> 0"
abbreviation (input) MODE :: nat where "MODE \<equiv> 100"
abbreviation (input) UID :: nat where "UID \<equiv> 108"
abbreviation (input) GID :: nat where "GID \<equiv> 116"
abbreviation (input) FSIZE :: nat where "FSIZE \<equiv> 124"
abbreviation (input) MTIME :: nat where "MTIME \<equiv> 136"
abbreviation (input) CHKSUM :: nat where "CHKSUM \<equiv> 148"
abbreviation (input) TYPEFLAG :: nat where "TYPEFLAG \<equiv> 156"
abbreviation (input) MAGIC :: nat where "MAGIC \<equiv> 257"
abbreviation (input) VERSION :: nat where "VERSION \<equiv> 263"
abbreviation (input) UNAME :: nat where "UNAME \<equiv> 265"
abbreviation (input) GNAME :: nat where "GNAME \<equiv> 297"
abbreviation (input) PREFIX :: nat where "PREFIX \<equiv> 345"

definition field :: "nat list \<Rightarrow> nat \<Rightarrow> nat \<Rightarrow> nat list" where
  "field h ofs n = take n (drop ofs h)"

definition strlcpy_field :: "nat \<Rightarrow> nat \<Rightarrow> nat list \<Rightarrow> nat list \<Rightarrow> nat list" where
  "strlcpy_field ofs n s h = memcpy_at h ofs (take (n - 1) s @ [0])"

definition snprintf_field :: "nat \<Rightarrow> nat \<Rightarrow> string \<Rightarrow> nat \<Rightarrow> nat list \<Rightarrow> nat list option" where
  "snprintf_field ofs n fmt v h = do {
     (buf, _) \<leftarrow> vsnprintf (field h ofs n) n (lit fmt) [V32 (word_of_nat v)];
     Some (memcpy_at h ofs buf) }"

definition calculate_chksum :: "nat list \<Rightarrow> nat" where
  "calculate_chksum h = (\<Sum>i \<leftarrow> [0..<USTAR_HEADER_SIZE]. if i \<ge> CHKSUM \<and> i < CHKSUM + 8 then 32 else h ! i) mod 2 ^ 32"

function strip_loop :: "nat list \<Rightarrow> nat list" where
  "strip_loop s = (if (s \<noteq> [] \<and> hd s = 47) \<or> take 2 s = lit ''./'' \<or> take 3 s = lit ''../''
     then strip_loop (tl (dropWhile (\<lambda>c. c \<noteq> 47) s)) else s)"
  by pat_completeness auto
termination
proof (relation "measure length", simp)
  fix s :: "nat list"
  assume "(s \<noteq> [] \<and> hd s = 47) \<or> take 2 s = lit ''./'' \<or> take 3 s = lit ''../''"
  then have "s \<noteq> []" by auto
  then have "length (tl (dropWhile (\<lambda>c. c \<noteq> 47) s)) < length s"
    using length_dropWhile_le[of "\<lambda>c. c \<noteq> 47" s] by (cases s) auto
  then show "(tl (dropWhile (\<lambda>c. c \<noteq> 47) s), s) \<in> measure length" by simp
qed

declare strip_loop.simps [simp del]

definition strip_antisocial_prefixes :: "nat list \<Rightarrow> nat list" where
  "strip_antisocial_prefixes s = (let s = strip_loop s in if s = [] \<or> s = lit ''..'' then lit ''.'' else s)"

text \<open>\<open>Some None\<close> is a file name that is too long.\<close>

definition ustar_make_header :: "nat list \<Rightarrow> ustar_type \<Rightarrow> int \<Rightarrow> nat list option option" where
  "ustar_make_header file_name type sz = do {
     ASSERT (type = USTAR_REGULAR \<or> type = USTAR_DIRECTORY);
     let file_name = strip_antisocial_prefixes file_name;
     if length file_name > 99 then Some None
     else do {
       let h = replicate USTAR_HEADER_SIZE 0;
       let h = strlcpy_field NAME 100 file_name h;
       h \<leftarrow> snprintf_field MODE 8 ''%07o'' (if type = USTAR_REGULAR then 420 else 493) h;
       let h = strlcpy_field UID 8 (lit ''0000000'') h;
       let h = strlcpy_field GID 8 (lit ''0000000'') h;
       h \<leftarrow> snprintf_field FSIZE 12 ''%011o'' (nat (sz mod 2 ^ 32)) h;
       h \<leftarrow> snprintf_field MTIME 12 ''%011o'' 1136102400 h;
       let h = h[TYPEFLAG := typeflag type];
       let h = strlcpy_field MAGIC 6 (lit ''ustar'') h;
       let h = (h[VERSION := 48])[VERSION + 1 := 48];
       let h = strlcpy_field GNAME 32 (lit ''root'') h;
       let h = strlcpy_field UNAME 32 (lit ''root'') h;
       h \<leftarrow> snprintf_field CHKSUM 8 ''%07o'' (calculate_chksum h) h;
       Some (Some h) } }"

primrec parse_octal_loop :: "nat list \<Rightarrow> nat \<Rightarrow> nat \<Rightarrow> nat option" where
  "parse_octal_loop [] ofs v = None"
| "parse_octal_loop (c # s) ofs v =
     (if c \<ge> 48 \<and> c \<le> 55 then (if v > (2 ^ 32 - 1) div 8 then None else parse_octal_loop s (ofs + 1) (c - 48 + v * 8))
      else if c = 32 \<or> c = 0 then (if ofs > 0 then Some v else None)
      else None)"

definition parse_octal_field :: "nat list \<Rightarrow> nat option" where
  "parse_octal_field s = parse_octal_loop s 0 0"

definition is_all_zeros :: "nat list \<Rightarrow> bool" where
  "is_all_zeros block \<longleftrightarrow> list_all (\<lambda>c. c = 0) block"

text \<open>An error message, or the name (none at the end of the archive), the type and the size.\<close>

definition ustar_parse_header :: "nat list \<Rightarrow> string + (nat list option \<times> ustar_type \<times> nat)" where
  "ustar_parse_header h =
     (if is_all_zeros h then Inr (None, USTAR_EOF, 0)
      else if field h MAGIC 6 \<noteq> lit ''ustar'' @ [0] then Inl ''not a ustar archive''
      else if h ! VERSION \<noteq> 48 \<or> h ! (VERSION + 1) \<noteq> 48 then Inl ''invalid ustar version''
      else case parse_octal_field (field h CHKSUM 8) of
        None \<Rightarrow> Inl ''corrupt chksum field''
      | Some chksum \<Rightarrow>
        if chksum \<noteq> calculate_chksum h then Inl ''checksum mismatch''
        else if h ! (NAME + 99) \<noteq> 0 \<or> h ! PREFIX \<noteq> 0 then Inl ''file name too long''
        else let name = strip_antisocial_prefixes (takeWhile (\<lambda>c. c \<noteq> 0) h) in
          if h ! TYPEFLAG = typeflag USTAR_REGULAR then
            (case parse_octal_field (field h FSIZE 12) of
               None \<Rightarrow> Inl ''corrupt file size field''
             | Some sz \<Rightarrow> if sz > 2 ^ 31 - 1 then Inl ''file too large'' else Inr (Some name, USTAR_REGULAR, sz))
          else if h ! TYPEFLAG = typeflag USTAR_DIRECTORY then Inr (Some name, USTAR_DIRECTORY, 0)
          else Inl ''unimplemented file type'')"

section \<open>Octal fields\<close>

primrec octal :: "nat \<Rightarrow> nat \<Rightarrow> nat list" where
  "octal 0 v = []"
| "octal (Suc n) v = octal n (v div 8) @ [48 + v mod 8]"

lemma length_octal [simp]: "length (octal n v) = n"
  by (induction n arbitrary: v) simp_all

lemma octal_range: "c \<in> set (octal n v) \<Longrightarrow> 48 \<le> c \<and> c \<le> 55"
  by (induction n arbitrary: v) auto

lemma octal_0: "octal n 0 = replicate n 48"
  by (induction n) (simp_all flip: replicate_append_same)

lemma octal_lsb:
  assumes "v < 8 ^ n"
  shows "length (lsb_digits base_o v) \<le> n \<and> octal n v = replicate (n - length (lsb_digits base_o v)) 48 @ rev (lsb_digits base_o v)"
  using assms
proof (induction n arbitrary: v)
  case (Suc n)
  show ?case
  proof (cases "v = 0")
    case True
    then show ?thesis by (simp add: octal_0 lsb_digits.simps[of _ 0] del: octal.simps)
  next
    case False
    have dig: "digits base_o ! d = 48 + d" if "d < 8" for d
    proof -
      from that have "d = 0 \<or> d = 1 \<or> d = 2 \<or> d = 3 \<or> d = 4 \<or> d = 5 \<or> d = 6 \<or> d = 7" by arith
      then show ?thesis by (elim disjE) (simp_all add: base_o_def)
    qed
    have "lsb_digits base_o v = (48 + v mod 8) # lsb_digits base_o (v div 8)"
      using False dig[of "v mod 8"] by (subst lsb_digits.simps) (simp add: base_o_def)
    moreover have "v div 8 < 8 ^ n" using Suc.prems by (simp add: less_mult_imp_div_less mult.commute)
    ultimately show ?thesis using Suc.IH[of "v div 8"] by simp
  qed
qed (simp add: lsb_digits.simps[of _ 0])

lemma format_octal:
  assumes "v < 8 ^ n" "v < 2 ^ 64" "0 < n"
  shows "format_integer v False False base_o \<lparr>flags = {ZERO}, width = int n, precision = -1, arg_type = T_INT\<rparr> = Some (octal n v)"
proof -
  let ?c = "\<lparr>flags = {ZERO}, width = int n, precision = -1, arg_type = T_INT\<rparr>"
  have "(2 :: nat) ^ 64 \<le> 8 ^ 22" by simp
  then have "v < base base_o ^ 22" using assms(2) by (simp add: base_o_def)
  from digits_loop_total[OF bases_ok(2) this, of "[]" ?c 0] obtain ds where d: "digits_loop base_o ?c v 0 [] = Some ds" "length ds \<le> 44" by auto
  have ds: "ds = lsb_digits base_o v" using digits_loop_lsb[OF bases_ok(2) _ d(1)] by simp
  note o = octal_lsb[OF assms(1), folded ds]
  show ?thesis
  proof (cases ds)
    case Nil
    have "nat (int n - 1) = n - 1" "replicate (n - 1) 48 @ [48] = replicate n (48 :: nat)"
      using assms(3) by (simp_all add: replicate_append_same flip: replicate_Suc)
    then show ?thesis using Nil o d(1) assms(3) unfolding format_integer_def Let_def
      by (simp add: sign_char_def output_dup_def zero_fill_def)
  next
    case (Cons x xs)
    have "nat (int n - int (length ds)) = n - length ds" "\<not> int n - int (length ds) < 0" using o by simp_all
    moreover have "zero_fill ds 1 = ds" using Cons by (simp add: zero_fill_def)
    ultimately show ?thesis using o d(1) unfolding format_integer_def Let_def
      by (simp add: sign_char_def output_dup_def)
  qed
qed

lemma vprintf_octal7: "v < 8 ^ 7 \<Longrightarrow> vprintf_str (lit ''%07o'') [V32 (word_of_nat v)] = Some (octal 7 v)"
  using format_octal[of v 7]
  by (simp add: parse_conversion_def parse_width_def parse_precision_def parse_type_def peek_def isdigit_def int_range_def
      convert_def conv_unsigned_def unsigned_arg_def unsigned_of_nat take_bit_eq_mod)

lemma vprintf_octal11: "v < 2 ^ 32 \<Longrightarrow> vprintf_str (lit ''%011o'') [V32 (word_of_nat v)] = Some (octal 11 v)"
  using format_octal[of v 11]
  by (simp add: parse_conversion_def parse_width_def parse_precision_def parse_type_def peek_def isdigit_def int_range_def
      convert_def conv_unsigned_def unsigned_arg_def unsigned_of_nat take_bit_eq_mod)

text \<open>An octal field is parsed back, whatever follows it.\<close>

lemma parse_octal_digits:
  assumes "v < 8 ^ n" "v < 2 ^ 32"
  shows "parse_octal_loop (octal n v @ s) ofs 0 = parse_octal_loop s (ofs + n) v"
  using assms
proof (induction n arbitrary: v s)
  case (Suc n)
  have "v div 8 < 8 ^ n" "v div 8 < 2 ^ 32" using Suc.prems by (simp_all add: less_mult_imp_div_less mult.commute)
  moreover have "v div 8 < 536870912" by (rule less_mult_imp_div_less) (use Suc.prems(2) in simp)
  moreover have "v mod 8 \<le> 7" by linarith
  ultimately show ?case using Suc.IH[of "v div 8" "(48 + v mod 8) # s"] Suc.prems(2) by simp
qed simp

lemma parse_octal_field: "v < 8 ^ n \<Longrightarrow> v < 2 ^ 32 \<Longrightarrow> 0 < n \<Longrightarrow> parse_octal_field (octal n v @ [0]) = Some v"
  using parse_octal_digits[of v n "[0]" 0] by (simp add: parse_octal_field_def)

section \<open>Fields\<close>

lemma length_memcpy_at [simp]: "ofs + length bs \<le> length h \<Longrightarrow> length (memcpy_at h ofs bs) = length h"
  by (simp add: memcpy_at_def)

lemma nth_memcpy_at:
  "ofs + length bs \<le> length h \<Longrightarrow> memcpy_at h ofs bs ! i = (if ofs \<le> i \<and> i < ofs + length bs then bs ! (i - ofs) else h ! i)"
  by (auto simp: memcpy_at_def nth_append)

lemma list_update_memcpy_at: "i < length h \<Longrightarrow> h[i := x] = memcpy_at h i [x]"
  by (simp add: memcpy_at_def upd_conv_take_nth_drop)

lemma field_other:
  assumes "ofs + length bs \<le> length h" "o' + n \<le> ofs \<or> ofs + length bs \<le> o'"
  shows "field (memcpy_at h ofs bs) o' n = field h o' n"
  by (rule nth_equalityI) (use assms in \<open>auto simp: field_def nth_memcpy_at\<close>)

lemma field_same:
  assumes "ofs + length bs \<le> length h" "n = length bs"
  shows "field (memcpy_at h ofs bs) ofs n = bs"
  by (rule nth_equalityI) (use assms in \<open>auto simp: field_def nth_memcpy_at\<close>)

lemma snprintf_octal:
  assumes "vprintf_str (lit fmt) [V32 (word_of_nat v)] = Some (octal m v)" "n = m + 1" "ofs + n \<le> length h"
  shows "snprintf_field ofs n fmt v h = Some (memcpy_at h ofs (octal m v @ [0]))"
  using vsnprintf_out[OF assms(1), of n "field h ofs n"] assms(2,3) by (simp add: snprintf_field_def field_def)

section \<open>The header\<close>

text \<open>The header without its checksum.\<close>

definition header_body :: "nat list \<Rightarrow> nat \<Rightarrow> nat \<Rightarrow> nat \<Rightarrow> nat list" where
  "header_body name mode sz ty = fold (\<lambda>(ofs, bs) h. memcpy_at h ofs bs)
     [(NAME, name @ [0]), (MODE, octal 7 mode @ [0]), (UID, lit ''0000000'' @ [0]), (GID, lit ''0000000'' @ [0]),
      (FSIZE, octal 11 sz @ [0]), (MTIME, octal 11 1136102400 @ [0]), (TYPEFLAG, [ty]), (MAGIC, lit ''ustar'' @ [0]),
      (VERSION, [48]), (VERSION + 1, [48]), (GNAME, lit ''root'' @ [0]), (UNAME, lit ''root'' @ [0])]
     (replicate USTAR_HEADER_SIZE 0)"

lemma header_body:
  assumes "length name \<le> 99"
  shows "length (header_body name mode sz ty) = 512"
    "field (header_body name mode sz ty) NAME (length name + 1) = name @ [0]"
    "field (header_body name mode sz ty) FSIZE 12 = octal 11 sz @ [0]"
    "field (header_body name mode sz ty) MAGIC 6 = lit ''ustar'' @ [0]"
    "header_body name mode sz ty ! VERSION = 48" "header_body name mode sz ty ! (VERSION + 1) = 48"
    "header_body name mode sz ty ! TYPEFLAG = ty" "header_body name mode sz ty ! PREFIX = 0"
    "header_body name mode sz ty ! 99 = 0"
  using assms by (simp_all add: header_body_def USTAR_HEADER_SIZE_def field_other field_same nth_memcpy_at nth_append
      del: octal.simps)

lemma set_memcpy_at: "set (memcpy_at h ofs bs) \<subseteq> set h \<union> set bs"
  by (auto simp: memcpy_at_def dest: in_set_takeD in_set_dropD)

lemma set_fold_memcpy: "set (fold (\<lambda>(ofs, bs) h. memcpy_at h ofs bs) us h) \<subseteq> set h \<union> (\<Union>(ofs, bs) \<in> set us. set bs)"
proof (induction us arbitrary: h)
  case (Cons u us)
  show ?case using Cons.IH[of "memcpy_at h (fst u) (snd u)"] set_memcpy_at[of h "fst u" "snd u"] by (cases u) auto
qed simp

lemma header_body_bytes:
  assumes "\<forall>c \<in> set name. c < 256" "ty < 256"
  shows "\<forall>c \<in> set (header_body name mode sz ty). c < 256"
proof -
  have o: "\<forall>c \<in> set (octal n v). c < 256" for n v using octal_range[of _ n v] by fastforce
  show ?thesis unfolding header_body_def
    using set_fold_memcpy o assms by (intro ballI) (drule subsetD[OF set_fold_memcpy], auto simp del: octal.simps)
qed

section \<open>The checksum\<close>

lemma sum_list_bound: "(\<And>x. x \<in> set xs \<Longrightarrow> f x \<le> (k :: nat)) \<Longrightarrow> (\<Sum>x \<leftarrow> xs. f x) \<le> length xs * k"
  by (induction xs) (auto intro: add_mono)

lemma chksum_bound:
  assumes "length h = 512" "\<forall>c \<in> set h. c < 256"
  shows "calculate_chksum h < 8 ^ 7"
proof -
  have "(\<Sum>i \<leftarrow> [0..<512]. if i \<ge> CHKSUM \<and> i < CHKSUM + 8 then 32 else h ! i) \<le> length [0..<512] * 255"
    by (rule sum_list_bound) (use assms in \<open>fastforce simp: set_conv_nth\<close>)
  then have "(\<Sum>i \<leftarrow> [0..<USTAR_HEADER_SIZE]. if i \<ge> CHKSUM \<and> i < CHKSUM + 8 then 32 else h ! i) \<le> 130560"
    unfolding USTAR_HEADER_SIZE_def length_upt by simp
  then show ?thesis unfolding calculate_chksum_def by (intro le_less_trans[OF mod_less_eq_dividend]) simp
qed

lemma chksum_field:
  assumes "length h = 512" "length bs = 8"
  shows "calculate_chksum (memcpy_at h CHKSUM bs) = calculate_chksum h"
proof -
  have "(\<Sum>i \<leftarrow> [0..<USTAR_HEADER_SIZE]. if i \<ge> CHKSUM \<and> i < CHKSUM + 8 then 32 else memcpy_at h CHKSUM bs ! i)
      = (\<Sum>i \<leftarrow> [0..<USTAR_HEADER_SIZE]. if i \<ge> CHKSUM \<and> i < CHKSUM + 8 then 32 else h ! i)"
    by (rule arg_cong[of _ _ sum_list], rule map_cong[OF refl]) (use assms in \<open>simp add: nth_memcpy_at\<close>)
  then show ?thesis by (simp add: calculate_chksum_def)
qed

section \<open>Names\<close>

lemma strip_loop_stops: "\<not> ((s \<noteq> [] \<and> hd s = 47) \<or> take 2 s = lit ''./'' \<or> take 3 s = lit ''../'') \<Longrightarrow> strip_loop s = s"
  by (subst strip_loop.simps) (simp only: if_False)

lemma strip_loop_idem: "strip_loop (strip_loop s) = strip_loop s"
proof (induction s rule: strip_loop.induct)
  case (1 s)
  show ?case
  proof (cases "(s \<noteq> [] \<and> hd s = 47) \<or> take 2 s = lit ''./'' \<or> take 3 s = lit ''../''")
    case True
    then have "strip_loop s = strip_loop (tl (dropWhile (\<lambda>c. c \<noteq> 47) s))" by (subst strip_loop.simps) simp
    then show ?thesis using "1.IH"[OF True] by simp
  qed (simp add: strip_loop_stops)
qed

lemma strip_idem: "strip_antisocial_prefixes (strip_antisocial_prefixes s) = strip_antisocial_prefixes s"
proof -
  have "strip_loop (lit ''.'') = lit ''.''" by (rule strip_loop_stops) simp
  then show ?thesis using strip_loop_idem[of s] by (simp add: strip_antisocial_prefixes_def Let_def)
qed

lemma strip_set: "set (strip_antisocial_prefixes s) \<subseteq> set s \<union> {46}"
proof -
  have "set (strip_loop s) \<subseteq> set s"
  proof (induction s rule: strip_loop.induct)
    case (1 s)
    have t: "set (tl (dropWhile (\<lambda>c. c \<noteq> 47) s)) \<subseteq> set s"
    proof
      fix x assume "x \<in> set (tl (dropWhile (\<lambda>c. c \<noteq> 47) s))"
      then have "x \<in> set (dropWhile (\<lambda>c. c \<noteq> 47) s)" by (cases "dropWhile (\<lambda>c. c \<noteq> 47) s") auto
      then show "x \<in> set s" by (auto dest: set_dropWhileD)
    qed
    show ?case
    proof (cases "(s \<noteq> [] \<and> hd s = 47) \<or> take 2 s = lit ''./'' \<or> take 3 s = lit ''../''")
      case True
      then have "strip_loop s = strip_loop (tl (dropWhile (\<lambda>c. c \<noteq> 47) s))" by (subst strip_loop.simps) simp
      then show ?thesis using "1.IH"[OF True] t by simp
    qed (simp add: strip_loop_stops)
  qed
  then show ?thesis by (auto simp: strip_antisocial_prefixes_def Let_def)
qed

section \<open>Making and parsing\<close>

lemma make_header:
  assumes "type = USTAR_REGULAR \<or> type = USTAR_DIRECTORY" "0 \<le> sz" "sz < 2 ^ 31"
    and "length (strip_antisocial_prefixes name) \<le> 99" "\<forall>c \<in> set name. c < 256"
  defines "b \<equiv> header_body (strip_antisocial_prefixes name) (if type = USTAR_REGULAR then 420 else 493) (nat sz) (typeflag type)"
  shows "ustar_make_header name type sz = Some (Some (memcpy_at b CHKSUM (octal 7 (calculate_chksum b) @ [0])))"
    "length b = 512" "calculate_chksum b < 8 ^ 7"
proof -
  let ?n = "strip_antisocial_prefixes name"
  show len: "length b = 512" unfolding b_def by (rule header_body(1)[OF assms(4)])
  have "\<forall>c \<in> set b. c < 256" unfolding b_def
    by (rule header_body_bytes) (use strip_set[of name] assms(1,5) in auto)
  then show chk: "calculate_chksum b < 8 ^ 7" by (rule chksum_bound[OF len])
  have sz: "nat (sz mod 2 ^ 32) = nat sz" "nat sz < 2 ^ 32" using assms(2,3) by simp_all
  have n: "take 99 ?n = ?n" using assms(4) by simp
  have s7: "snprintf_field ofs 8 ''%07o'' v h = Some (memcpy_at h ofs (octal 7 v @ [0]))" if "v < 8 ^ 7" "ofs + 8 \<le> length h" for ofs v h
    by (rule snprintf_octal[OF vprintf_octal7[OF that(1)]]) (use that(2) in simp_all)
  have s11: "snprintf_field ofs 12 ''%011o'' v h = Some (memcpy_at h ofs (octal 11 v @ [0]))" if "v < 2 ^ 32" "ofs + 12 \<le> length h" for ofs v h
    by (rule snprintf_octal[OF vprintf_octal11[OF that(1)]]) (use that(2) in simp_all)
  let ?m = "if type = USTAR_REGULAR then 420 else 493 :: nat"
  define h1 where "h1 = memcpy_at (replicate USTAR_HEADER_SIZE 0) NAME (?n @ [0])"
  have l1: "length h1 = 512" using assms(4) by (simp add: h1_def USTAR_HEADER_SIZE_def del: octal.simps)
  define h2 where "h2 = memcpy_at h1 MODE (octal 7 ?m @ [0])"
  have l2: "length h2 = 512" using assms(4) l1 by (simp add: h2_def del: octal.simps)
  define h3 where "h3 = memcpy_at h2 UID (lit ''0000000'' @ [0])"
  have l3: "length h3 = 512" using assms(4) l2 by (simp add: h3_def del: octal.simps)
  define h4 where "h4 = memcpy_at h3 GID (lit ''0000000'' @ [0])"
  have l4: "length h4 = 512" using assms(4) l3 by (simp add: h4_def del: octal.simps)
  define h5 where "h5 = memcpy_at h4 FSIZE (octal 11 (nat sz) @ [0])"
  have l5: "length h5 = 512" using assms(4) l4 by (simp add: h5_def del: octal.simps)
  define h6 where "h6 = memcpy_at h5 MTIME (octal 11 1136102400 @ [0])"
  have l6: "length h6 = 512" using assms(4) l5 by (simp add: h6_def del: octal.simps)
  define h7 where "h7 = memcpy_at h6 TYPEFLAG ([typeflag type])"
  have l7: "length h7 = 512" using assms(4) l6 by (simp add: h7_def del: octal.simps)
  define h8 where "h8 = memcpy_at h7 MAGIC (lit ''ustar'' @ [0])"
  have l8: "length h8 = 512" using assms(4) l7 by (simp add: h8_def del: octal.simps)
  define h9 where "h9 = memcpy_at h8 VERSION ([48])"
  have l9: "length h9 = 512" using assms(4) l8 by (simp add: h9_def del: octal.simps)
  define h10 where "h10 = memcpy_at h9 (VERSION + 1) ([48])"
  have l10: "length h10 = 512" using assms(4) l9 by (simp add: h10_def del: octal.simps)
  define h11 where "h11 = memcpy_at h10 GNAME (lit ''root'' @ [0])"
  have l11: "length h11 = 512" using assms(4) l10 by (simp add: h11_def del: octal.simps)
  define h12 where "h12 = memcpy_at h11 UNAME (lit ''root'' @ [0])"
  have l12: "length h12 = 512" using assms(4) l11 by (simp add: h12_def del: octal.simps)
  have b: "b = h12" by (simp add: b_def header_body_def h1_def h2_def h3_def h4_def h5_def h6_def h7_def h8_def h9_def h10_def h11_def h12_def del: octal.simps)
  have e: "strlcpy_field NAME 100 ?n (replicate USTAR_HEADER_SIZE 0) = h1" "strlcpy_field UID 8 (lit ''0000000'') h2 = h3"
    "strlcpy_field GID 8 (lit ''0000000'') h3 = h4" "strlcpy_field MAGIC 6 (lit ''ustar'') h7 = h8"
    "strlcpy_field GNAME 32 (lit ''root'') h10 = h11" "strlcpy_field UNAME 32 (lit ''root'') h11 = h12"
    using n by (simp_all add: strlcpy_field_def h1_def h3_def h4_def h8_def h11_def h12_def)
  have u: "h6[TYPEFLAG := typeflag type] = h7" "h8[VERSION := 48] = h9" "h9[VERSION + 1 := 48] = h10"
    using l6 l8 l9 by (simp_all add: list_update_memcpy_at h7_def h9_def h10_def)
  have p: "snprintf_field MODE 8 ''%07o'' ?m h1 = Some h2" unfolding h2_def by (rule s7) (simp_all add: l1)
  have q: "snprintf_field FSIZE 12 ''%011o'' (nat (sz mod 2 ^ 32)) h4 = Some h5"
    unfolding h5_def sz(1) by (rule s11[OF sz(2)]) (simp add: l4)
  have r: "snprintf_field MTIME 12 ''%011o'' 1136102400 h5 = Some h6" unfolding h6_def by (rule s11) (simp_all add: l5)
  have c: "snprintf_field CHKSUM 8 ''%07o'' (calculate_chksum h12) h12 = Some (memcpy_at h12 CHKSUM (octal 7 (calculate_chksum h12) @ [0]))"
    by (rule s7) (use chk in \<open>simp_all add: b l12\<close>)
  have a: "ASSERT (type = USTAR_REGULAR \<or> type = USTAR_DIRECTORY) = Some ()" "\<not> length ?n > 99" using assms(1,4) by simp_all
  show "ustar_make_header name type sz = Some (Some (memcpy_at b CHKSUM (octal 7 (calculate_chksum b) @ [0])))"
    unfolding ustar_make_header_def Let_def a(1) if_not_P[OF a(2)] Option.bind.bind_lunit e(1) p e(2,3) q r u e(4-6) c b ..
qed

lemma takeWhile_field:
  assumes "field h 0 (length name + 1) = name @ [0]" "0 \<notin> set name"
  shows "takeWhile (\<lambda>c. c \<noteq> 0) h = (name :: nat list)"
proof -
  have "h = (name @ [0]) @ drop (length name + 1) h" using assms(1) by (metis append_take_drop_id drop0 field_def)
  then have "takeWhile (\<lambda>c. c \<noteq> 0) h = takeWhile (\<lambda>c. c \<noteq> 0) (name @ 0 # drop (length name + 1) h)" by simp
  also have "\<dots> = name" using assms(2) by (subst takeWhile_append2) (auto intro: gr0I)
  finally show ?thesis .
qed

lemma make_parse:
  assumes "type = USTAR_REGULAR \<or> type = USTAR_DIRECTORY" "0 \<le> sz" "sz < 2 ^ 31"
    and "length (strip_antisocial_prefixes name) \<le> 99" "\<forall>c \<in> set name. c < 256 \<and> c \<noteq> 0"
  shows "\<exists>h. ustar_make_header name type sz = Some (Some h) \<and> length h = 512
    \<and> ustar_parse_header h = Inr (Some (strip_antisocial_prefixes name), type, if type = USTAR_REGULAR then nat sz else 0)"
proof -
  let ?n = "strip_antisocial_prefixes name"
  define b where "b = header_body ?n (if type = USTAR_REGULAR then 420 else 493) (nat sz) (typeflag type)"
  define h where "h = memcpy_at b CHKSUM (octal 7 (calculate_chksum b) @ [0])"
  have bytes: "\<forall>c \<in> set name. c < 256" using assms(5) by blast
  note m = make_header[OF assms(1-4) bytes, folded b_def, folded h_def]
  note f = header_body[OF assms(4), of "if type = USTAR_REGULAR then 420 else 493" "nat sz" "typeflag type", folded b_def]
  have len: "length h = 512" using m(2) by (simp add: h_def)
  have o: "field h o' n = field b o' n" if "o' + n \<le> CHKSUM \<or> CHKSUM + 8 \<le> o'" for o' n
    unfolding h_def by (rule field_other) (use that m(2) in simp_all)
  have i: "h ! i = b ! i" if "i < CHKSUM \<or> CHKSUM + 8 \<le> i" for i using that m(2) by (auto simp: h_def nth_memcpy_at)
  have nz: "0 \<notin> set ?n" using strip_set[of name] assms(5) by auto
  have magic: "field h MAGIC 6 = lit ''ustar'' @ [0]" using o[of MAGIC 6] f(4) by simp
  have "\<not> is_all_zeros h"
  proof
    assume "is_all_zeros h"
    then have "h ! VERSION = 0" using len by (simp add: is_all_zeros_def list_all_length)
    then show False using i[of VERSION] f(5) by simp
  qed
  moreover have "parse_octal_field (field h CHKSUM 8) = Some (calculate_chksum h)"
  proof -
    have "field h CHKSUM 8 = octal 7 (calculate_chksum b) @ [0]" unfolding h_def by (rule field_same) (use m(2) in simp_all)
    moreover have "calculate_chksum h = calculate_chksum b" unfolding h_def by (rule chksum_field[OF m(2)]) simp
    ultimately show ?thesis using parse_octal_field[of "calculate_chksum b" 7] m(3) by simp
  qed
  moreover have "takeWhile (\<lambda>c. c \<noteq> 0) h = ?n"
    by (rule takeWhile_field[OF _ nz]) (use o[of 0 "length ?n + 1"] f(2) assms(4) in simp)
  moreover have "parse_octal_field (field h FSIZE 12) = Some (nat sz)"
    using parse_octal_field[of "nat sz" 11] o[of FSIZE 12] f(3) assms(2,3) by simp
  moreover have "h ! VERSION = 48" "h ! (VERSION + 1) = 48" "h ! 99 = 0" "h ! PREFIX = 0" "h ! TYPEFLAG = typeflag type"
    using i f(5-9) by simp_all
  moreover have "\<not> nat sz > 2 ^ 31 - 1" using assms(3) by simp
  ultimately have "ustar_parse_header h = Inr (Some ?n, type, if type = USTAR_REGULAR then nat sz else 0)"
    using magic assms(1) strip_idem[of name] unfolding ustar_parse_header_def by auto
  then show ?thesis using m(1) len by blast
qed

section \<open>Safe names\<close>

definition safe_name :: "nat list \<Rightarrow> bool" where
  "safe_name s \<longleftrightarrow> s \<noteq> [] \<and> hd s \<noteq> 47 \<and> take 2 s \<noteq> lit ''./'' \<and> take 3 s \<noteq> lit ''../'' \<and> s \<noteq> lit ''..''"

lemma strip_safe: "safe_name (strip_antisocial_prefixes s)"
proof -
  have "\<not> ((strip_loop s \<noteq> [] \<and> hd (strip_loop s) = 47) \<or> take 2 (strip_loop s) = lit ''./'' \<or> take 3 (strip_loop s) = lit ''../'')"
  proof (induction s rule: strip_loop.induct)
    case (1 s)
    show ?case
    proof (cases "(s \<noteq> [] \<and> hd s = 47) \<or> take 2 s = lit ''./'' \<or> take 3 s = lit ''../''")
      case True
      then have "strip_loop s = strip_loop (tl (dropWhile (\<lambda>c. c \<noteq> 47) s))" by (subst strip_loop.simps) simp
      then show ?thesis using "1.IH"[OF True] by simp
    next
      case False
      then show ?thesis using strip_loop_stops[OF False] by simp
    qed
  qed
  then show ?thesis by (auto simp: safe_name_def strip_antisocial_prefixes_def Let_def)
qed

end
