(* ===== verification/Wakeup.thy ===== *)
theory Wakeup
  imports Sleep
begin

text \<open>
  Which thread \<open>sema_up\<close> of threads/synch.c wakes: \<open>list_sort\<close> is stable, so it is the first of the most
  urgent waiters, and the others stay, in the order of their priorities.
\<close>

lemma first_waiter:
  assumes "sort_key (\<lambda>t. - (f t :: int)) ws = t # rest"
  shows "t \<in> set ws" "\<forall>u \<in> set ws. f u \<le> f t" "mset ws = add_mset t (mset rest)"
    "hd (filter (\<lambda>u. f u = f t) ws) = t" "sorted_wrt (\<lambda>a b. f b \<le> f a) rest"
proof -
  have s: "set (t # rest) = set ws" unfolding assms[symmetric] by simp
  then show "t \<in> set ws" by auto
  have "mset (t # rest) = mset ws" unfolding assms[symmetric] by simp
  then show "mset ws = add_mset t (mset rest)" by simp
  have o: "sorted (map (\<lambda>t. - f t) (t # rest))" unfolding assms[symmetric] by simp
  then show "\<forall>u \<in> set ws. f u \<le> f t" using s by auto
  show "sorted_wrt (\<lambda>a b. f b \<le> f a) rest" using o by (simp add: sorted_map)
  have "filter (\<lambda>u. - f u = - f t) (t # rest) = filter (\<lambda>u. - f u = - f t) ws"
    unfolding assms[symmetric] by (rule sort_key_stable)
  then have "filter (\<lambda>u. f u = f t) ws = t # filter (\<lambda>u. f u = f t) rest" by simp
  then show "hd (filter (\<lambda>u. f u = f t) ws) = t" by simp
qed

lemma thread_yield_semas:
  assumes "thread_yield k = Some k'"
  shows "semas k' = semas k"
proof -
  obtain c k1 k2 where y: "k1 = k \<or> thread_enqueue c k = Some k1"
      "upd_thread c (\<lambda>th. th\<lparr>status := THREAD_READY\<rparr>) k1 = Some k2" "schedule k2 = Some k'"
    using assms unfolding thread_yield_def bind_eq_Some_conv by (metis option.inject)
  have "semas k1 = semas k"
    using y(1) by (auto simp: thread_enqueue_def bind_eq_Some_conv split: sched_policy.splits)
  then show ?thesis using upd_thread_semas[OF y(2)] schedule_semas[OF y(3)] by simp
qed

text \<open>The woken thread is ready, or runs at once when it is more urgent than the one that woke it.\<close>

definition woken :: "addr \<Rightarrow> addr \<Rightarrow> addr list \<Rightarrow> semaphore \<Rightarrow> kernel \<Rightarrow> kernel \<Rightarrow> bool" where
  "woken s t rest sem k k' \<longleftrightarrow>
     semas k' = (semas k)(s \<mapsto> \<lparr>svalue = size_add (svalue sem) 1, waiters = rest\<rparr>) \<and> awake k' t
     \<and> (if eff k (current k) < eff k t
        then \<forall>u. st k' u = Some THREAD_READY \<longrightarrow> u \<noteq> idle_thread k \<longrightarrow> eff k' u \<le> eff k' (current k')
        else current k' = current k \<and> st k' t = Some THREAD_READY)"

lemma sema_up_wakes:
  assumes "good k" "semas k s = Some sem" "waiters sem \<noteq> []" "s \<noteq> NULL"
  shows "\<exists>t rest k'. sort_key (\<lambda>t. - eff k t) (waiters sem) = t # rest \<and> sema_up s k = Some k' \<and> woken s t rest sem k k'"
proof -
  have b: "base_inv k" and w: "waits_ok k" and nx: "\<not> intr_context k" by (rule goodD[OF assms(1)])+
  obtain t rest where ws: "sort_key (\<lambda>t. - eff k t) (waiters sem) = t # rest"
    using assms(3) by (cases "sort_key (\<lambda>t. - eff k t) (waiters sem)") (simp_all flip: set_empty)
  note f = first_waiter[OF ws]
  let ?k1 = "set_sema s (sem\<lparr>waiters := rest\<rparr>) k"
  have tw: "waits k t (Some s)" using waits_sema[OF assms(2)] f(1) by simp
  then have t: "st k t = Some THREAD_BLOCKED" "t \<noteq> idle_thread k" using w unfolding waits_ok_def by blast+
  have s1: "sched_inv ?k1" using goodD(3)[OF assms(1)] by simp
  have u: "thread_unblock t ?k1 = Some (make_ready t ?k1)" "sched_inv (make_ready t ?k1)"
    using thread_unblock_inv[OF s1] t by simp_all
  let ?k2 = "make_ready t ?k1"
  have wo: "wake_one s k = Some (t, ?k2)" using assms(2) nx ws u(1) by (simp add: wake_one_def)
  have ss: "same_sync ?k1 ?k2" by simp
  have f2: "semas ?k2 s = Some (sem\<lparr>waiters := rest\<rparr>)" "current ?k2 = current k" "\<not> intr_context ?k2"
    "idle_thread ?k2 = idle_thread k" "semas ?k2 = (semas k)(s \<mapsto> sem\<lparr>waiters := rest\<rparr>)"
    using ss nx by (simp_all add: same_sync_def intr_context_def)
  let ?k3 = "set_sema s (sem\<lparr>waiters := rest, svalue := size_add (svalue sem) 1\<rparr>) ?k2"
  have e3: "eff ?k3 = eff k" by (simp add: make_ready_def)
  have st3: "st ?k3 = (st k)(t \<mapsto> THREAD_READY)" using t by (simp add: st_make_ready)
  have s3: "sched_inv ?k3" using u(2) by simp
  have nx3: "\<not> intr_context ?k3" using f2(3) by (simp add: intr_context_def)
  have c3: "thread_current ?k3 = Some (current k)" using thread_current_inv[OF s3] f2(2) by simp
  have tn: "t \<noteq> NULL" using st_nonnull[of k t] t(1) goodD(3)[OF assms(1)] by (simp add: sched_inv_def queue_inv_def)
  have up: "sema_up s k = (if eff k t > eff k (current k) then thread_yield ?k3 else Some ?k3)"
    using assms(4) wo f2(1) c3 nx3 tn e3 by (simp add: sema_up_def Let_def)
  have sm3: "semas ?k3 = (semas k)(s \<mapsto> \<lparr>svalue = size_add (svalue sem) 1, waiters = rest\<rparr>)" using f2(5) by (cases sem) simp
  show ?thesis
  proof (cases "eff k (current k) < eff k t")
    case True
    have "awake ?k3 t" unfolding awake_def st3 by simp
    then obtain k' where k': "thread_yield ?k3 = Some k'" "awake k' t"
      using yield_awake[OF s3 nx3] by blast
    have "semas k' = semas ?k3" by (rule thread_yield_semas[OF k'(1)])
    moreover have "\<forall>u. st k' u = Some THREAD_READY \<longrightarrow> u \<noteq> idle_thread k \<longrightarrow> eff k' u \<le> eff k' (current k')"
      using thread_yield_strict[OF s3 nx3 k'(1)] f2(4) by simp
    ultimately have "woken s t rest sem k k'" using True k'(2) sm3 by (simp add: woken_def)
    then show ?thesis using ws up True k'(1) by auto
  next
    case False
    then have "woken s t rest sem k ?k3" using sm3 f2(2) unfolding woken_def awake_def st3 by simp
    then show ?thesis using ws up False by auto
  qed
qed

section \<open>A state for the witness\<close>

text \<open>Two threads wait for the semaphore 200, the less urgent one first.\<close>

definition two_waiters :: kernel where
  "two_waiters = booted\<lparr>threads := (threads booted)(12288 \<mapsto> mk_thread 3 THREAD_BLOCKED 20 20 NULL [],
       16384 \<mapsto> mk_thread 4 THREAD_BLOCKED 40 40 NULL []),
     semas := (semas booted)(200 \<mapsto> \<lparr>svalue = 0, waiters = [12288, 16384]\<rparr>)\<rparr>"

lemma two_waiters_good: "good two_waiters"
proof -
  have t: "threads two_waiters = [4096 \<mapsto> main_thread, 8192 \<mapsto> idle_thr, 12288 \<mapsto> mk_thread 3 THREAD_BLOCKED 20 20 NULL [],
      16384 \<mapsto> mk_thread 4 THREAD_BLOCKED 40 40 NULL []]"
    by (simp add: two_waiters_def threads_booted)
  have f: "priority_queue two_waiters = []" "current two_waiters = 4096" "idle_thread two_waiters = 8192"
    "semas two_waiters = [104 \<mapsto> \<lparr>svalue = 1, waiters = []\<rparr>, 200 \<mapsto> \<lparr>svalue = 0, waiters = [12288, 16384]\<rparr>]"
    "holders two_waiters = [100 \<mapsto> NULL]" "conds two_waiters = (\<lambda>_. None)"
    "sleeping_list two_waiters = []" "in_external_intr two_waiters = False" "fifo_ready_list two_waiters = []"
    "active_sched_policy two_waiters = SCHED_PRIO"
    by (simp_all add: two_waiters_def)
  have st: "st two_waiters = [4096 \<mapsto> THREAD_RUNNING, 8192 \<mapsto> THREAD_READY, 12288 \<mapsto> THREAD_BLOCKED, 16384 \<mapsto> THREAD_BLOCKED]"
    by (auto simp: st_def t main_thread_def idle_thr_def mk_thread_def fun_eq_iff)
  have w: "waits two_waiters u p \<longleftrightarrow> p = Some 200 \<and> (u = 12288 \<or> u = 16384)" for u p
    by (auto simp: waits_def f(4,7) split: option.split)
  have "sched_inv two_waiters" unfolding sched_inv_def queue_inv_def st f by auto
  moreover have "waits_ok two_waiters" by (auto simp: waits_ok_def w st f split: if_splits)
  moreover have "locks_ok two_waiters"
    by (auto simp: locks_ok_def svals_def f lock_sema_def dlocks_def t main_thread_def idle_thr_def mk_thread_def
        split: if_splits)
  ultimately show ?thesis by (simp add: good_def sync_inv_def base_inv_def conds_ok_def f)
qed

lemma two_waiters_facts: "semas two_waiters 200 = Some \<lparr>svalue = 0, waiters = [12288, 16384]\<rparr>"
  "eff two_waiters 12288 = 20" "eff two_waiters 16384 = 40"
  by (simp_all add: two_waiters_def eff_def mk_thread_def)

end
