(* ===== verification/Words.thy ===== *)
theory Words
  imports Stdlib
begin

text \<open>
  hw-intro/words: counting the words of a text (main.c and word_count.c).  A string is the list of its
  bytes, a file the list of the bytes \<open>fgetc\<close> returns, and the linked list of counts the sequence of its
  entries.  \<open>room\<close> is the number of blocks the heap still has.  An entry whose string could not be copied
  has no word; comparing it with another word is an access through a null pointer, which has no result,
  and so has a count that overflows.
\<close>

section \<open>The code\<close>

record word_count =
  wc_word :: "nat list option"
  wc_count :: int

definition MAX_WORD_LEN :: nat where "MAX_WORD_LEN = 64"

definition isalpha :: "nat \<Rightarrow> bool" where
  "isalpha c \<longleftrightarrow> 65 \<le> c \<and> c \<le> 90 \<or> 97 \<le> c \<and> c \<le> 122"

definition tolower :: "nat \<Rightarrow> nat" where
  "tolower c = (if 65 \<le> c \<and> c \<le> 90 then c + 32 else c)"

text \<open>\<open>-1\<close> for an empty list, as the code has it.\<close>

definition len_words :: "word_count list \<Rightarrow> int" where
  "len_words ws = (if ws = [] then -1 else int (length ws))"

fun find_word :: "word_count list \<Rightarrow> nat list \<Rightarrow> word_count option" where
  "find_word [] word = None"
| "find_word (wc # ws) word = (if wc_word wc = Some word then Some wc else find_word ws word)"

fun add_loop :: "nat list \<Rightarrow> word_count list \<Rightarrow> nat \<Rightarrow> (int \<times> word_count list \<times> nat) option" where
  "add_loop word [] room = Some (0, [], room)"
| "add_loop word (wc # ws) room = (case wc_word wc of
     None \<Rightarrow> None
   | Some w \<Rightarrow>
       if w = word then do { ASSERT (int_range (wc_count wc + 1)); Some (0, wc\<lparr>wc_count := wc_count wc + 1\<rparr> # ws, room) }
       else if ws = [] then
         (if room = 0 then Some (1, [wc], 0)
          else if room = 1 then Some (0, [wc, \<lparr>wc_word = None, wc_count = 1\<rparr>], 0)
          else Some (0, [wc, \<lparr>wc_word = Some word, wc_count = 1\<rparr>], room - 2))
       else do { (r, ws, room) \<leftarrow> add_loop word ws room; Some (r, wc # ws, room) })"

definition add_word :: "nat list \<Rightarrow> word_count list \<Rightarrow> nat \<Rightarrow> (int \<times> word_count list \<times> nat) option" where
  "add_word word ws room =
     (if ws = [] then
        (if room = 0 then Some (1, [], 0)
         else if room = 1 then Some (1, [], 1)
         else Some (0, [\<lparr>wc_word = Some word, wc_count = 1\<rparr>], room - 2))
      else add_loop word ws room)"

fun num_words_loop :: "nat list \<Rightarrow> bool \<Rightarrow> int \<Rightarrow> int option" where
  "num_words_loop [] curr_word n = Some n"
| "num_words_loop (ch # s) curr_word n =
     (if isalpha ch then
        (if \<not> curr_word then do { ASSERT (int_range (n + 1)); num_words_loop s True (n + 1) } else num_words_loop s curr_word n)
      else num_words_loop s False n)"

definition num_words :: "nat list \<Rightarrow> int option" where
  "num_words infile = num_words_loop infile False 0"

text \<open>\<open>word\<close> is the part of the buffer before \<open>word_len\<close>.\<close>

fun count_loop :: "nat list \<Rightarrow> nat list \<Rightarrow> bool \<Rightarrow> word_count list \<Rightarrow> nat \<Rightarrow> (int \<times> word_count list \<times> nat) option" where
  "count_loop [] word in_word ws room =
     (if in_word \<and> length word > 0 then do {
        (r, ws, room) \<leftarrow> add_word word ws room;
        Some (if r \<noteq> 0 then 1 else 0, ws, room) }
      else Some (0, ws, room))"
| "count_loop (ch # s) word in_word ws room =
     (if isalpha ch then
        count_loop s (if length word < MAX_WORD_LEN then word @ [tolower ch] else word) True ws room
      else if in_word then do {
        (r, ws, room) \<leftarrow> add_word word ws room;
        if r \<noteq> 0 then Some (1, ws, room) else count_loop s [] False ws room }
      else count_loop s word in_word ws room)"

definition count_words :: "nat list \<Rightarrow> word_count list \<Rightarrow> nat \<Rightarrow> (int \<times> word_count list \<times> nat) option" where
  "count_words infile ws room = count_loop infile [] False ws room"

text \<open>The sign of the comparison of two strings; an entry without a word can not be compared.\<close>

fun compare_words :: "nat list \<Rightarrow> nat list \<Rightarrow> int" where
  "compare_words [] [] = 0"
| "compare_words [] (c # w) = -1"
| "compare_words (c # v) [] = 1"
| "compare_words (c # v) (d # w) = (if c < d then -1 else if c > d then 1 else compare_words v w)"

definition wordcount_less :: "word_count \<Rightarrow> word_count \<Rightarrow> bool option" where
  "wordcount_less a b = (if wc_count a \<noteq> wc_count b then Some (wc_count a < wc_count b)
     else do { v \<leftarrow> wc_word a; w \<leftarrow> wc_word b; Some (compare_words v w > 0) })"

section \<open>The words of a text\<close>

text \<open>The maximal runs of letters.\<close>

function runs :: "nat list \<Rightarrow> nat list list" where
  "runs s = (let t = dropWhile (\<lambda>c. \<not> isalpha c) s in
     if t = [] then [] else takeWhile isalpha t # runs (dropWhile isalpha t))"
  by pat_completeness auto
termination
proof (relation "measure length", simp)
  fix s t :: "nat list" assume t: "t = dropWhile (\<lambda>c. \<not> isalpha c) s" "t \<noteq> []"
  then obtain c u where "t = c # u" "isalpha c" by (metis hd_dropWhile list.exhaust_sel)
  then have "length (dropWhile isalpha t) < length t" using length_dropWhile_le[of isalpha u] by simp
  also have "length t \<le> length s" unfolding t(1) by (rule length_dropWhile_le)
  finally show "(dropWhile isalpha t, s) \<in> measure length" by simp
qed

declare runs.simps [simp del]

definition text_words :: "nat list \<Rightarrow> nat list list" where
  "text_words s = map (\<lambda>w. take MAX_WORD_LEN (map tolower w)) (runs s)"

text \<open>What is left to find behind a run that has begun.\<close>

definition runs_from :: "nat list \<Rightarrow> nat list \<Rightarrow> nat list list" where
  "runs_from cur s = (if cur = [] then runs s else (cur @ takeWhile isalpha s) # runs (dropWhile isalpha s))"

lemma runs_simps [simp]:
  "runs [] = []" "\<not> isalpha c \<Longrightarrow> runs (c # s) = runs s"
  "isalpha c \<Longrightarrow> runs (c # s) = (c # takeWhile isalpha s) # runs (dropWhile isalpha s)"
  by (simp_all add: runs.simps[of "[]"] runs.simps[of "c # s"] Let_def) (simp add: runs.simps[of s] Let_def)

lemma runs_from_simps:
  "runs_from [] [] = []" "cur \<noteq> [] \<Longrightarrow> runs_from cur [] = [cur]"
  "isalpha c \<Longrightarrow> runs_from cur (c # s) = runs_from (cur @ [c]) s"
  "\<not> isalpha c \<Longrightarrow> cur \<noteq> [] \<Longrightarrow> runs_from cur (c # s) = cur # runs_from [] s"
  "\<not> isalpha c \<Longrightarrow> runs_from [] (c # s) = runs_from [] s"
  by (simp_all add: runs_from_def)

lemma num_words_runs:
  assumes "int (length s) + n < 2 ^ 31" "0 \<le> n"
  shows "num_words_loop s (cur \<noteq> []) n = Some (n + int (length (runs_from cur s)) - (if cur \<noteq> [] then 1 else 0))"
  using assms
proof (induction s arbitrary: cur n)
  case Nil
  then show ?case by (simp add: runs_from_simps)
next
  case (Cons c s)
  show ?case
  proof (cases "isalpha c")
    case True
    show ?thesis using Cons.IH[of n "cur @ [c]"] Cons.IH[of "n + 1" "cur @ [c]"] Cons.prems True
      by (simp add: runs_from_simps int_range_def)
  next
    case False
    then show ?thesis using Cons.IH[of n "[]"] Cons.prems by (cases "cur = []") (simp_all add: runs_from_simps)
  qed
qed

section \<open>Counting\<close>

text \<open>The entries count the words \<open>seen\<close>, each once.\<close>

definition counts :: "word_count list \<Rightarrow> nat list list \<Rightarrow> bool" where
  "counts ws seen \<longleftrightarrow> distinct (map wc_word ws) \<and> None \<notin> set (map wc_word ws)
     \<and> (\<forall>w. Some w \<in> set (map wc_word ws) \<longleftrightarrow> w \<in> set seen)
     \<and> (\<forall>wc \<in> set ws. wc_count wc = int (count_list seen (the (wc_word wc))))"

lemma add_loop_found:
  assumes "Some w \<in> set (map wc_word ws)" "None \<notin> set (map wc_word ws)" "distinct (map wc_word ws)"
    "\<forall>wc \<in> set ws. int_range (wc_count wc + 1)"
  shows "add_loop w ws room = Some (0, map (\<lambda>wc. if wc_word wc = Some w then wc\<lparr>wc_count := wc_count wc + 1\<rparr> else wc) ws, room)"
  using assms
proof (induction ws)
  case (Cons wc ws)
  then obtain v where v: "wc_word wc = Some v" by (cases "wc_word wc") auto
  show ?case
  proof (cases "v = w")
    case True
    then have "map (\<lambda>wc. if wc_word wc = Some w then wc\<lparr>wc_count := wc_count wc + 1\<rparr> else wc) ws = ws"
      using Cons.prems(3) v True by (intro map_idI) (auto simp: image_iff)
    then show ?thesis using Cons.prems(4) v True by simp
  next
    case False
    then show ?thesis using Cons v by auto
  qed
qed simp

lemma add_loop_new:
  assumes "Some w \<notin> set (map wc_word ws)" "None \<notin> set (map wc_word ws)" "ws \<noteq> []" "2 \<le> room"
  shows "add_loop w ws room = Some (0, ws @ [\<lparr>wc_word = Some w, wc_count = 1\<rparr>], room - 2)"
  using assms
proof (induction ws)
  case (Cons wc ws)
  then obtain v where v: "wc_word wc = Some v" by (cases "wc_word wc") auto
  then show ?case using Cons by (cases "ws = []") auto
qed simp

lemma count_list_notin: "w \<notin> set seen \<Longrightarrow> count_list seen w = 0"
  by (simp add: count_list_0_iff)

lemma add_word_counts:
  assumes "counts ws seen" "int (length seen) + 1 < 2 ^ 31" "w \<in> set seen \<or> 2 \<le> room"
  shows "\<exists>ws' room'. add_word w ws room = Some (0, ws', room') \<and> counts ws' (seen @ [w])
    \<and> room' = (if w \<in> set seen then room else room - 2)"
proof (cases "w \<in> set seen")
  case True
  have c: "Some w \<in> set (map wc_word ws)" "None \<notin> set (map wc_word ws)" "distinct (map wc_word ws)"
    using assms(1) True by (auto simp: counts_def)
  have r: "\<forall>wc \<in> set ws. int_range (wc_count wc + 1)"
  proof
    fix wc assume "wc \<in> set ws"
    then have "wc_count wc = int (count_list seen (the (wc_word wc)))" using assms(1) by (simp add: counts_def)
    moreover have "count_list seen (the (wc_word wc)) \<le> length seen" by (rule count_le_length)
    ultimately show "int_range (wc_count wc + 1)" using assms(2) by (simp add: int_range_def)
  qed
  let ?ws = "map (\<lambda>wc. if wc_word wc = Some w then wc\<lparr>wc_count := wc_count wc + 1\<rparr> else wc) ws"
  have m: "map wc_word ?ws = map wc_word ws" by simp
  have "wc_count wc = int (count_list (seen @ [w]) (the (wc_word wc)))" if "wc \<in> set ?ws" for wc
    using that assms(1) by (auto simp: counts_def image_iff split: if_split_asm)
  moreover have "\<forall>v. Some v \<in> set (map wc_word ws) \<longleftrightarrow> v \<in> set (seen @ [w])" using assms(1) True by (auto simp: counts_def)
  ultimately have "counts ?ws (seen @ [w])" using c(2,3) unfolding counts_def m by blast
  moreover have "ws \<noteq> []" using c(1) by auto
  ultimately show ?thesis using add_loop_found[OF c r] True by (simp add: add_word_def)
next
  case False
  let ?e = "\<lparr>wc_word = Some w, wc_count = 1\<rparr>"
  have ws: "distinct (map wc_word ws)" "None \<notin> set (map wc_word ws)" "Some v \<in> set (map wc_word ws) \<longleftrightarrow> v \<in> set seen"
    "wc \<in> set ws \<Longrightarrow> wc_count wc = int (count_list seen (the (wc_word wc)))" for v wc
    using assms(1) by (simp_all add: counts_def)
  have f4: "wc_count wc = int (count_list (seen @ [w]) (the (wc_word wc)))" if "wc \<in> set (ws @ [?e])" for wc
  proof (cases "wc = ?e")
    case True
    then show ?thesis using False by (simp add: count_list_notin)
  next
    case old: False
    then have wc: "wc \<in> set ws" using that by simp
    then have m: "wc_word wc \<in> set (map wc_word ws)" by simp
    then have "wc_word wc \<noteq> None" using ws(2) by metis
    then obtain v where v: "wc_word wc = Some v" by blast
    have "v \<in> set seen" using m ws(3)[of v] unfolding v by blast
    then have "the (wc_word wc) \<noteq> w" using False unfolding v option.sel by blast
    then show ?thesis using ws(4)[OF wc] by simp
  qed
  have f1: "distinct (map wc_word (ws @ [?e]))" using ws(1,3) False by simp
  have f2: "None \<notin> set (map wc_word (ws @ [?e]))" using ws(2) by simp
  have f3: "Some v \<in> set (map wc_word (ws @ [?e])) \<longleftrightarrow> v \<in> set (seen @ [w])" for v using ws(3)[of v] by auto
  have "counts (ws @ [?e]) (seen @ [w])" unfolding counts_def by (intro conjI allI ballI f1 f2 f3 f4)
  moreover have "add_word w ws room = Some (0, ws @ [?e], room - 2)"
  proof (cases "ws = []")
    case False
    then show ?thesis using add_loop_new[of w ws room] assms(1,3) \<open>w \<notin> set seen\<close> by (auto simp: counts_def add_word_def)
  qed (use assms(3) False in \<open>auto simp: add_word_def\<close>)
  ultimately show ?thesis using False by simp
qed

lemma length_runs: "length (runs_from cur s) \<le> length s + (if cur = [] then 0 else 1)"
proof (induction s arbitrary: cur)
  case Nil
  then show ?case by (cases "cur = []") (simp_all add: runs_from_simps)
next
  case (Cons c s)
  show ?case using Cons.IH[of "cur @ [c]"] Cons.IH[of "[]"]
    by (cases "isalpha c"; cases "cur = []") (simp_all add: runs_from_simps)
qed

definition cut_word :: "nat list \<Rightarrow> nat list" where
  "cut_word w = take MAX_WORD_LEN (map tolower w)"

lemma cut_append: "(if length (cut_word w) < MAX_WORD_LEN then cut_word w @ [tolower c] else cut_word w) = cut_word (w @ [c])"
  by (simp add: cut_word_def)

lemma cut_Nil [simp]: "cut_word [] = []" "cut_word w = [] \<longleftrightarrow> w = []"
  by (auto simp: cut_word_def MAX_WORD_LEN_def)

lemma count_loop_counts:
  assumes "counts ws seen" "int (length seen + length (runs_from cur s)) < 2 ^ 31" "2 * length (runs_from cur s) \<le> room"
  shows "\<exists>ws' room'. count_loop s (cut_word cur) (cur \<noteq> []) ws room = Some (0, ws', room') \<and> counts ws' (seen @ map cut_word (runs_from cur s))"
  using assms
proof (induction s arbitrary: cur ws seen room)
  case Nil
  show ?case
  proof (cases "cur = []")
    case False
    then obtain ws' room' where "add_word (cut_word cur) ws room = Some (0, ws', room')" "counts ws' (seen @ [cut_word cur])"
      using add_word_counts[OF Nil(1), of "cut_word cur" room] Nil(2,3) by (auto simp: runs_from_simps)
    then show ?thesis using False by (simp add: runs_from_simps)
  qed (use Nil in \<open>simp add: runs_from_simps\<close>)
next
  case (Cons c s)
  show ?case
  proof (cases "isalpha c")
    case True
    then show ?thesis using Cons.IH[of ws seen "cur @ [c]" room] Cons.prems cut_append[of cur c]
      by (simp add: runs_from_simps del: if_split)
  next
    case na: False
    show ?thesis
    proof (cases "cur = []")
      case True
      then show ?thesis using Cons.IH[of ws seen "[]" room] Cons.prems na by (simp add: runs_from_simps)
    next
      case False
      then obtain ws1 room1 where a: "add_word (cut_word cur) ws room = Some (0, ws1, room1)" "counts ws1 (seen @ [cut_word cur])" "room \<le> room1 + 2"
        using add_word_counts[OF Cons.prems(1), of "cut_word cur" room] Cons.prems(2,3) na by (auto simp: runs_from_simps split: if_splits)
      have "\<exists>ws' room'. count_loop s (cut_word []) ([] \<noteq> ([] :: nat list)) ws1 room1 = Some (0, ws', room') \<and> counts ws' ((seen @ [cut_word cur]) @ map cut_word (runs_from [] s))"
        by (rule Cons.IH[OF a(2)]) (use Cons.prems(2,3) a(3) na False in \<open>simp_all add: runs_from_simps\<close>)
      then show ?thesis using a(1) na False by (simp add: runs_from_simps)
    qed
  qed
qed

lemma text_words_cut: "text_words s = map cut_word (runs s)"
  by (simp add: text_words_def cut_word_def)

lemma count_words_counts:
  assumes "int (length s) < 2 ^ 31" "2 * length (text_words s) \<le> room"
  shows "\<exists>ws room'. count_words s [] room = Some (0, ws, room') \<and> counts ws (text_words s)"
proof -
  have "counts [] []" by (simp add: counts_def)
  moreover have "length (runs_from [] s) \<le> length s" using length_runs[of "[]" s] by simp
  ultimately show ?thesis using count_loop_counts[of "[]" "[]" "[]" s room] assms
    by (simp add: count_words_def runs_from_def text_words_cut)
qed

lemma num_words_text: "int (length s) < 2 ^ 31 \<Longrightarrow> num_words s = Some (int (length (text_words s)))"
  using num_words_runs[of s 0 "[]"] by (simp add: num_words_def runs_from_def text_words_cut)

lemma counts_words:
  assumes "counts ws seen"
  shows "set (map wc_word ws) = Some ` set seen"
proof (intro set_eqI)
  fix w show "w \<in> set (map wc_word ws) \<longleftrightarrow> w \<in> Some ` set seen"
    using assms unfolding counts_def by (cases w) blast+
qed

end
