(* ===== verification/Spec2Isabelle.thy ===== *)
theory Spec2Isabelle
  imports ArgStack Arith64 Bitmap Boot Bytes Cache DirOps DirRemove DirSpec Donation Filesys FixedPoint FsCreate FsExample FsInv Hash Inode InodeData Intq Kernel Klist Loader LoaderFile LoaderInv Malloc MallocFrame MallocInv MmAlloc Pagedir Palloc Partition Prelude Queues Rc4 Sched SchedInv Shell Sleep Stdio StdioSpec Stdlib StringSpec Strings Synch SynchInv Tokenizer Ustar Vaddr Wakeup Words
begin

text \<open>
  Verification library of a repository of operating-systems programs: the Pintos kernel as the course
  hands it out (src/proj-pregame/src), the student's kernel of projects 1-3 (src/projects1-3/src), and the
  homework programs hw-shell, hw-intro and hw-memory.  Identical files occur in several of these trees; a theory
  models one copy, the one the manifest's map names.

  \<^bold>\<open>Conventions.\<close>  Code that may stop - a failed \<open>ASSERT\<close>, a \<open>PANIC\<close>, a bad dereference, a loop without an
  end - has an option type, and \<open>None\<close> means that it does not return; a claim that an operation returns
  is stated as \<open>= Some\<close>.  A loop that may run forever is a \<open>partial_function (option)\<close>.  Only
  the loops over the entries of a directory count (\<open>entries_fuel\<close> in Filesys): each round reads 20 more bytes of
  a file whose length is a natural number, so that the bound, its length plus one, is never
  reached before the read that ends the loop.
  State is a record that is passed along; an address is a natural number; machine integers are words, or
  naturals and integers with every truncation written out.  Memory allocation that can fail is a budget
  that is part of the state (\<open>mem_left\<close> in the file system, \<open>room\<close> in the tokenizer and the word count).

  \<^bold>\<open>The kernel's libraries.\<close>  Klist models lib/kernel/list.c at the level of the links in memory and shows
  that every operation computes the operation on the sequence of the elements; the other theories use
  sequences for kernel lists on the strength of that (property \<open>enqueue_refines_list_c\<close> makes the step
  explicit for the ready queue).  Bitmap (lib/kernel/bitmap.c), Hash (lib/kernel/hash.c, with the contract of
  the hash and order functions as the locale \<open>hashing\<close>), Arith64 (lib/arithmetic.c), Stdlib (lib/stdlib.c),
  Strings and StringSpec (lib/string.c on a byte-addressed memory), Stdio and StdioSpec (lib/stdio.c, with
  the 64-byte buffer of an integer conversion and a proof that it suffices), Rc4 (lib/random.c, against
  a textbook definition of RC4),
  FixedPoint (threads/fixed-point.h) and Ustar (lib/ustar.c, on top of Stdio).

  \<^bold>\<open>Threads.\<close>  Sched models threads/thread.c and devices/timer.c: the record \<open>kernel\<close> holds the threads by the
  address of their page, both ready queues, the sleeping list, the tick counters and the synchronisation
  objects.  Synch models threads/synch.c.  A call that may sleep is cut at the context switch: a \<open>frame\<close>
  is what a thread still has to run.  Kernel puts them together: \<open>sys_step\<close> interleaves frames, new calls of
  the running thread, the initialisation of new locks, semaphores, condition variables and reader-writer
  locks included, and timer interrupts.  Its guards say that the caller's objects do not overlap in memory
  (\<open>frame_ok\<close>, \<open>call_ok\<close>) and that what is initialised is not in use (\<open>init_ok\<close>).  \<open>lock_try_acquire\<close> is modelled
  in Synch but is no call of the system: between its \<open>sema_try_down\<close> and its assignment of the holder the lock is
  neither free nor held, and since it leaves the lock out of the list that \<open>lock_release\<close> takes it from, what
  follows depends on links left from earlier uses of the lock, which sequences do not show.  SchedInv, Donation and SynchInv hold the invariants of the ready
  queue, of priority donation and of the wait lists and locks; Boot executes the start of the kernel in
  the model and shows that it reaches a state where all of them hold, so that they hold in every reachable
  state (\<open>kernel_invariant\<close>).  Sleep adds the invariant of the sleeping list, its order: \<open>timer_sleep\<close> computes
  the wake-up time before it disables interrupts, the frame \<open>FSleep\<close> is what a tick may precede, and a thread
  whose time has passed by then is woken by the next tick.  Wakeup shows whom \<open>sema_up\<close> wakes.  Queues states the contract of a
  queue as locales and interprets them on the two ready queues; Intq is the interrupt queue of
  devices/intq.c, another instance of the FIFO contract: for any sequence of operations its ring does what a
  bounded queue of 64 bytes does.

  \<^bold>\<open>Memory.\<close>  Vaddr (threads/vaddr.h, pte.h), Palloc (threads/palloc.c) and Pagedir (userprog/pagedir.c) work on
  one memory of 32-bit words, so that page tables are pages of the allocator; a page directory is shown
  to be a finite map from user pages to frames.  Malloc, MallocInv and MallocFrame are threads/malloc.c on
  top of Palloc: blocks in use never overlap, and only the block that is freed changes.  The requests of
  the property stay below \<open>2^32 - 2 * PGSIZE\<close>, because the code's own rounding wraps above.

  \<^bold>\<open>The file system.\<close>  Inode and Filesys are filesys/inode.c, file.c, free-map.c, directory.c and filesys.c of
  proj-pregame, with the sector transfers of devices/block.c.  InodeData says what reading and writing
  mean (the data of an inode is a sequence of bytes), DirSpec, DirOps and DirRemove that a directory is a
  finite map from names to sectors, FsInv that the table of open inodes is consistent under every
  operation, FsCreate that creation takes free sectors only.  FsExample is the file system the witnesses
  use.  Loader, LoaderInv and LoaderFile are the ELF loader of userprog/process.c, which brings the file
  system, the page allocator and the page directory together (\<open>load_file_image\<close>).  Partition is
  devices/partition.c, Cache the buffer cache of projects1-3/src/filesys/inode.c: \<open>view\<close> is the device as
  the file system sees it, and \<open>cache_ok\<close> the consistency of the cache with the device.  ArgStack is the
  command line on the user's stack in projects1-3/src/userprog/process.c, in the memory of Strings with the
  words of Bytes.

  \<^bold>\<open>Homework programs.\<close>  Tokenizer and Shell are hw-shell/tokenizer.c and shell.c, from a line of input (read in
  pieces of 4095 characters, as \<open>fgets\<close> does) to the processes and their standard streams; the shell waits for a foreground
  process before it starts the next, and which processes end is an argument of the model.  Words is hw-intro/words, and
  MmAlloc is hw-memory/mm_alloc/mm_alloc.c on the byte memory of Bytes: \<open>mm_ok\<close> says that the list of blocks lies in
  the order of the addresses and that free memory is zero.

  \<^bold>\<open>Properties.\<close>  The sections below hold the claims C1, C2, ... with their witnesses; each rests on the
  lemmas of the component's theories.  Some claims state what goes wrong: FIFO donation starves a thread, the
  scan of an extended partition does not end, the arguments of a program are the wrong way round, a split
  block overlaps the header of its rest, a stage of a pipeline is not started before the one before it has
  ended, \<open>memmove\<close> to a lower
  address does not return the address of the copy.

  \<^bold>\<open>Not modelled.\<close>  Device drivers, interrupt entry, the start-up code and the assembly sources, because
  they are port input and output; system calls, the student's process.c except for the argument stack,
  and the inodes, directories and paths of the student's file system, because these files do not compile as
  they are (undeclared names, missing semicolons), or read index blocks through \<open>cache_read\<close>, which leaves
  an uninitialised buffer as it was, so that no behaviour can be read off them; the copies of the same
  sources under hw-memory/pintos and hw-list; terminal
  control and signals of the shell; test programs and examples; the Rust homeworks.  The heap and the
  locks inside the allocators are left out where the theory says so.
\<close>

section \<open>Threads and synchronisation\<close>

text \<open>C1. The booted priority-scheduled kernel keeps its invariant under every interleaving of threads, timer interrupts and calls, where the calls are: initialise, down, try-down and up a semaphore; initialise, acquire and release a lock; initialise, wait on, signal and broadcast a condition; initialise, acquire and release a readers-writers lock; thread_create, thread_yield, thread_set_priority, thread_exit and timer_sleep, on any number of objects that do not overlap in memory. lock_try_acquire is not among the calls, because between its sema_try_down and its assignment of the holder interrupts are on and the lock is neither free nor held. In every state reached exactly one thread runs, the ready queue holds every ready thread except the idle thread once, most urgent first, waiting threads are blocked, a lock's semaphore is 1 exactly while the lock is free, and no lock is held by two threads.\<close>

theorem kernel_invariant:
  assumes "boot SCHED_PRIO = Some s" "reachable s (k, p)"
  shows "(\<forall>t. st k t = Some THREAD_RUNNING \<longleftrightarrow> t = current k)
    \<and> distinct (priority_queue k) \<and> sorted_wrt (\<lambda>a b. eff k b \<le> eff k a) (priority_queue k)
    \<and> (\<forall>t \<in> set (priority_queue k). st k t = Some THREAD_READY)
    \<and> (\<forall>t. st k t = Some THREAD_READY \<longrightarrow> t \<in> set (priority_queue k) \<or> t = idle_thread k)
    \<and> (\<forall>t q. waits k t q \<longrightarrow> st k t = Some THREAD_BLOCKED)
    \<and> (\<forall>l h. holders k l = Some h \<longrightarrow> svals k (lock_sema l) = Some (if h = NULL then 1 else 0))
    \<and> (\<forall>l t u. (\<exists>ls. dlocks k t = Some ls \<and> l \<in> set ls) \<longrightarrow> (\<exists>ls. dlocks k u = Some ls \<and> l \<in> set ls) \<longrightarrow> t = u)"
proof -
  have "s = (booted, booted_pend)" using assms(1) boot_booted by simp
  then have "good k" using reachable_inv assms(2) booted_sys_inv by (fastforce simp: sys_inv_def)
  then have "sched_inv k" "waits_ok k" "locks_ok k" by (simp_all add: goodD good_def sync_inv_def)
  then have "queue_inv k" "prio_sorted (eff k) (priority_queue k)" by (simp_all add: sched_inv_def queue_inv_def)
  have held: "(\<exists>ls. dlocks k t = Some ls \<and> l \<in> set ls) \<Longrightarrow> holders k l = Some t" for l t
    using \<open>locks_ok k\<close> unfolding locks_ok_def by blast
  note q = \<open>queue_inv k\<close>[unfolded queue_inv_def] and i = \<open>sched_inv k\<close>[unfolded sched_inv_def]
  show ?thesis
  proof (intro conjI)
    show "\<forall>t. st k t = Some THREAD_RUNNING \<longleftrightarrow> t = current k" using i by blast
    show "distinct (priority_queue k)" using q by blast
    show "sorted_wrt (\<lambda>a b. eff k b \<le> eff k a) (priority_queue k)"
      using \<open>prio_sorted (eff k) (priority_queue k)\<close> by (simp add: prio_sorted_def)
    show "\<forall>t \<in> set (priority_queue k). st k t = Some THREAD_READY" using q by blast
    show "\<forall>t. st k t = Some THREAD_READY \<longrightarrow> t \<in> set (priority_queue k) \<or> t = idle_thread k"
      using i q by blast
    show "\<forall>t q. waits k t q \<longrightarrow> st k t = Some THREAD_BLOCKED"
      using \<open>waits_ok k\<close> unfolding waits_ok_def by blast
    show "\<forall>l h. holders k l = Some h \<longrightarrow> svals k (lock_sema l) = Some (if h = NULL then 1 else 0)"
      using \<open>locks_ok k\<close> unfolding locks_ok_def by blast
    show "\<forall>l t u. (\<exists>ls. dlocks k t = Some ls \<and> l \<in> set ls)
        \<longrightarrow> (\<exists>ls. dlocks k u = Some ls \<and> l \<in> set ls) \<longrightarrow> t = u"
      using held by (metis option.inject)
  qed
qed

theorem kernel_invariant_witness:
  "\<exists>k p. reachable (booted, booted_pend) (k, p) \<and> holders k 300 = Some 4096
     \<and> st k 4096 = Some THREAD_RUNNING \<and> svals k 304 = Some 0"
proof -
  obtain k p where k: "reachable (booted, booted_pend) (k, p)" "holders k 300 = Some 4096" "current k = 4096"
    using booted_locks by blast
  then have "svals k (lock_sema 300) = Some 0" "st k 4096 = Some THREAD_RUNNING"
    using kernel_invariant[OF boot_booted k(1)] by auto
  then show ?thesis using k(1,2) by (auto simp: lock_sema_def)
qed

text \<open>C2. Priority donation ends, even when the threads wait for each other in a cycle: if all other waiting threads had donated before, then recurse_donate returns and afterwards no lock holder is less urgent than a thread that waits for its lock, priorities only rise to the donor's, and the ready queue stays in order.\<close>

theorem donation_terminates:
  assumes "queue_inv k" "locks_wf k" "st k t \<noteq> None" "finite (dom (threads k))"
    "\<forall>u. u \<noteq> t \<longrightarrow> donated k u"
  shows "\<exists>k'. recurse_donate t k = Some k' \<and> queue_inv k' \<and> (\<forall>u. donated k' u) \<and> st k' = st k
     \<and> waits_for k' = waits_for k
     \<and> (\<forall>u. eff k' u = eff k u \<or> (eff k u < eff k t \<and> eff k' u = eff k t))"
  using recurse_donate_correct[OF assms] unfolding recurse_donate_def by blast

theorem donation_terminates_witness:
  "\<exists>k'. recurse_donate 4096 low_holder = Some k' \<and> eff k' 12288 = 31 \<and> queue_inv k'"
proof -
  obtain k' where k': "recurse_donate 4096 low_holder = Some k'" "queue_inv k'" "\<forall>u. donated k' u"
      "waits_for k' = waits_for low_holder"
      "\<forall>u. eff k' u = eff low_holder u \<or> (eff low_holder u < eff low_holder 4096 \<and> eff k' u = eff low_holder 4096)"
    using donation_terminates[OF low_holder_facts(1-5)] by blast
  have "eff k' 4096 \<le> eff k' 12288" using k'(3,4) low_holder_facts(6) by (simp add: donated_def)
  moreover have "eff k' 4096 = 31" using k'(5)[rule_format, of 4096] low_holder_facts(8) by simp
  moreover have "eff k' 12288 = 10 \<or> eff k' 12288 = 31"
    using k'(5)[rule_format, of 12288] low_holder_facts(7,8) by simp
  ultimately show ?thesis using k'(1,2) by auto
qed

text \<open>C3. Strict priority: thread_yield always returns under the scheduler's invariant, keeps it, and gives the processor to a thread that is at least as urgent as every ready thread.\<close>

theorem yield_strict_priority:
  assumes "sched_inv k" "\<not> intr_context k"
  shows "\<exists>k'. thread_yield k = Some k' \<and> sched_inv k'
    \<and> (\<forall>t. st k' t = Some THREAD_READY \<longrightarrow> t \<noteq> idle_thread k \<longrightarrow> eff k' t \<le> eff k' (current k'))"
  using thread_yield_inv[OF assms] thread_yield_strict[OF assms] by blast

theorem yield_strict_priority_witness:
  "\<exists>k'. thread_yield two_threads = Some k' \<and> sched_inv k'"
  using yield_strict_priority[OF goodD(3)[OF two_threads_good(1)] goodD(5)[OF two_threads_good(1)]] by blast

text \<open>C4. Mutual exclusion at the lock: lock_acquire takes a lock only when nobody holds it and then makes the caller its holder; otherwise somebody holds it, the holders stay as they are, the caller becomes the last waiter of the lock's semaphore, whose value is 0, no other semaphore changes, and the caller is blocked; the invariant of the synchronisation layer holds afterwards in both cases.\<close>

theorem lock_acquire_exclusive:
  assumes "sync_inv k" "current k \<noteq> idle_thread k" "lock_acquire l k = Some (ok, k')"
  shows "sync_inv k' \<and> (if ok then holders k l = Some NULL \<and> holders k' = (holders k)(l \<mapsto> current k)
    else holders k' = holders k \<and> (\<exists>h. holders k l = Some h \<and> h \<noteq> NULL)
      \<and> (\<exists>sem. semas k (lock_sema l) = Some sem \<and> svalue sem = 0
           \<and> semas k' = (semas k)(lock_sema l \<mapsto> sem\<lparr>waiters := waiters sem @ [current k]\<rparr>))
      \<and> st k' (current k) = Some THREAD_BLOCKED)"
  using lock_acquire_inv[OF assms] lock_acquire_queues[OF assms(1,2), of l k'] assms(3)
  by (cases ok) (auto simp: queued_on_def)

theorem lock_acquire_exclusive_witness:
  "\<exists>k'. lock_acquire 100 booted = Some (True, k') \<and> sync_inv k' \<and> holders k' 100 = Some 4096"
proof -
  obtain k' where k': "lock_acquire 100 booted = Some (True, k')"
    by (simp add: booted_def boot_defs main_thread_def idle_thr_def)
  show ?thesis using lock_acquire_exclusive[OF goodD(1)[OF booted_good] _ k'] k' by simp
qed

text \<open>C5. sema_up on a semaphore with waiters, in any state that satisfies the kernel's invariant, returns and wakes the first of the most urgent waiters: the value goes up by one, the other waiters stay, most urgent first, no other semaphore changes, and the woken thread is ready or runs. The caller gives up the processor exactly when the woken thread is more urgent than itself, and then a thread at least as urgent as every ready thread runs.\<close>

theorem sema_up_wakes_most_urgent:
  assumes "good k" "semas k s = Some sem" "waiters sem \<noteq> []" "s \<noteq> NULL"
  shows "\<exists>t rest k'. sema_up s k = Some k'
    \<and> t \<in> set (waiters sem) \<and> (\<forall>u \<in> set (waiters sem). eff k u \<le> eff k t)
    \<and> hd (filter (\<lambda>u. eff k u = eff k t) (waiters sem)) = t
    \<and> mset (waiters sem) = add_mset t (mset rest) \<and> sorted_wrt (\<lambda>a b. eff k b \<le> eff k a) rest
    \<and> semas k' = (semas k)(s \<mapsto> \<lparr>svalue = size_add (svalue sem) 1, waiters = rest\<rparr>)
    \<and> (st k' t = Some THREAD_READY \<or> st k' t = Some THREAD_RUNNING)
    \<and> (if eff k (current k) < eff k t
       then \<forall>u. st k' u = Some THREAD_READY \<longrightarrow> u \<noteq> idle_thread k \<longrightarrow> eff k' u \<le> eff k' (current k')
       else current k' = current k \<and> st k' t = Some THREAD_READY)"
proof -
  obtain t rest k' where u: "sort_key (\<lambda>t. - eff k t) (waiters sem) = t # rest" "sema_up s k = Some k'" "woken s t rest sem k k'"
    using sema_up_wakes[OF assms] by blast
  show ?thesis using u(2) first_waiter[OF u(1)] u(3)[unfolded woken_def awake_def] by (intro exI conjI) blast+
qed

theorem sema_up_wakes_most_urgent_witness:
  "\<exists>k'. sema_up 200 two_waiters = Some k' \<and> semas k' 200 = Some \<lparr>svalue = 1, waiters = [12288]\<rparr>"
proof -
  have ne: "waiters \<lparr>svalue = 0, waiters = [12288, 16384]\<rparr> \<noteq> []" "(200 :: nat) \<noteq> NULL" by simp_all
  obtain t rest k' where u: "sema_up 200 two_waiters = Some k'" "t \<in> {12288, 16384}"
    "\<forall>u \<in> {12288, 16384}. eff two_waiters u \<le> eff two_waiters t" "{#12288, 16384#} = add_mset t (mset rest)"
    "semas k' = (semas two_waiters)(200 \<mapsto> \<lparr>svalue = size_add 0 1, waiters = rest\<rparr>)"
    using sema_up_wakes_most_urgent[OF two_waiters_good two_waiters_facts(1) ne] by auto
  have "t = 16384" using u(2,3) two_waiters_facts(2,3) by auto
  then have "mset rest = {#12288#}" using u(4) by (simp add: add_mset_commute)
  then have "rest = [12288]" by simp
  then show ?thesis using u(1,5) by (simp add: size_add_def)
qed

text \<open>C6. Readers-writers exclusion: a thread passes the waiting loop of rw_lock_acquire only when its kind may enter, a writer then is alone and a reader is beside no writer, and the counters stay consistent while the guard lock is released.\<close>

theorem rw_lock_exclusion:
  assumes "good k" "rw_locks k rw = Some c" "rw_excl c" "rw_loop rw reader w junk k = Some ([], k')"
  shows "\<exists>c'. rw_locks k' rw = Some c' \<and> rw_excl c' \<and> \<not> rw_must_wait reader c
    \<and> (if reader then AW c' = 0 \<and> AR c' = AR c + 1 else AR c' = 0 \<and> AW c' = 1)"
  using rw_loop_enter[OF assms] .

theorem rw_lock_exclusion_witness:
  "\<exists>k k' c'. rw_loop 100 False 999 0 k = Some ([], k') \<and> rw_locks k' 100 = Some c' \<and> AW c' = 1"
proof -
  obtain k where k: "lock_acquire 100 booted = Some (True, k)" "conds k = conds booted"
    by (simp add: booted_def boot_defs main_thread_def idle_thr_def)
  have "good k" using lock_acquire_calm(1)[OF booted_good _ k(1)] by (simp add: calm_def)
  let ?c = "\<lparr>AR = 0, WR = 0, AW = 0, WW = 0\<rparr>"
  have g: "good (set_rw 100 ?c k)" using calm_rw[OF \<open>good k\<close>] by (simp add: calm_def)
  have "\<exists>k'. rw_loop 100 False 999 0 (set_rw 100 ?c k) = Some ([], k')"
    using k(1) by (auto simp: booted_def boot_defs main_thread_def idle_thr_def rw_loop_def set_rw_def
        rw_must_wait_def rw_enter_def rw_guard_def)
  then obtain k' where "rw_loop 100 False 999 0 (set_rw 100 ?c k) = Some ([], k')" by blast
  from rw_lock_exclusion[OF g _ _ this, of ?c] this show ?thesis
    by (auto simp: set_rw_def rw_excl_def)
qed

text \<open>C7. The ready queue of the model is implemented by list.c: if a linked list in memory holds the elements of the priority queue, then list_insert_ordered with the priority comparator leaves in memory exactly the queue that thread_enqueue of the model computes.\<close>

theorem enqueue_refines_list_c:
  assumes "dll h l (priority_queue k)" "active_sched_policy k = SCHED_PRIO" "is_thread t k" "h t \<noteq> None"
    "t \<notin> set (k_head l # priority_queue k @ [k_tail l])"
  shows "\<exists>h' k'. list_insert_ordered h l t (thread_priority_comparator k) = Some h'
    \<and> thread_enqueue t k = Some k' \<and> dll h' l (priority_queue k')"
proof -
  have "t \<noteq> NULL" using assms(3) by (simp add: is_thread_def)
  from insert_ordered_list_c[OF assms(1) this assms(4,5), of "thread_priority_comparator k"] assms(2,3)
  show ?thesis by (simp add: thread_enqueue_def)
qed

theorem enqueue_refines_list_c_witness:
  "\<exists>h' k k'. list_insert_ordered list_example list_example_l 20 (thread_priority_comparator k) = Some h'
    \<and> thread_enqueue 20 k = Some k' \<and> dll h' list_example_l (priority_queue k')"
proof -
  let ?k = "booted\<lparr>priority_queue := [10, 12, 11], threads := (threads booted)(20 \<mapsto> main_thread)\<rparr>"
  have d: "dll list_example list_example_l (priority_queue ?k)" using list_example_dll by simp
  have n: "list_example 20 \<noteq> None" by (simp add: list_example_def)
  have m: "20 \<notin> set (k_head list_example_l # priority_queue ?k @ [k_tail list_example_l])"
    by (simp add: list_example_l_def)
  show ?thesis using enqueue_refines_list_c[OF d _ _ n m] by (auto simp: is_thread_def)
qed

text \<open>C8. Sleeping and waking: in every state that the booted kernel reaches the sleeping list is in the order of the wake-up times; the timer interrupt returns and takes exactly the threads whose wake-up time is at most the new tick off the list and makes them ready or lets them run, while the others stay asleep in their order; so no thread leaves the list before its wake-up time, whatever step is taken, and a thread that a tick overtook between the computation of its wake-up time (with interrupts on, the sum taken in 64 bits) and its place on the list is woken by the next tick. timer_sleep sets the wake-up time and, in a later step, puts the caller on the list with that time.\<close>

theorem sleepers_wake_by_tick:
  assumes "boot SCHED_PRIO = Some s" "reachable s (k, p)"
  shows "sorted (map (wake k) (sleeping_list k))
    \<and> (\<exists>k'. intr_handler_timer k = Some k' \<and> ticks k' = ticks k + 1
        \<and> sleeping_list k' = filter (\<lambda>t. ticks k' < wake k t) (sleeping_list k)
        \<and> (\<forall>t \<in> set (sleeping_list k). wake k t \<le> ticks k' \<longrightarrow> st k' t = Some THREAD_READY \<or> st k' t = Some THREAD_RUNNING))
    \<and> (\<forall>k' p'. \<forall>t \<in> set (sleeping_list k) - set (sleeping_list k'). sys_step (k, p) (k', p') \<longrightarrow> wake k t \<le> ticks k')
    \<and> (\<forall>n gs k'. 0 < n \<longrightarrow> timer_sleep n k = Some (gs, k') \<longrightarrow> gs = [FSleep] \<and> sleeping_list k' = sleeping_list k
        \<and> wake k' (current k) = int64 (ticks k + n))
    \<and> (\<forall>k'. current k \<noteq> idle_thread k \<longrightarrow> fall_asleep k = Some k' \<longrightarrow>
        set (sleeping_list k') = insert (current k) (set (sleeping_list k)) \<and> wake k' (current k) = wake k (current k)
        \<and> sorted (map (wake k') (sleeping_list k')))"
proof -
  have s: "s = (booted, booted_pend)" using assms(1) boot_booted by simp
  have i: "in_order k" "sys_inv (k, p)"
    using reachable_in_order[OF assms(2)] booted_sys_inv booted_in_order by (auto simp: s)
  then have g: "good k" by (simp add: sys_inv_def)
  have early: "\<forall>k' p'. \<forall>t \<in> set (sleeping_list k) - set (sleeping_list k'). sys_step (k, p) (k', p') \<longrightarrow> wake k t \<le> ticks k'"
    using sys_step_sleepers(2)[OF _ i(2)] i(1) by fastforce
  show ?thesis
  proof (intro conjI early)
    show "sorted (map (wake k) (sleeping_list k))" using i(1) by (simp add: in_order_def)
    show "\<exists>k'. intr_handler_timer k = Some k' \<and> ticks k' = ticks k + 1
        \<and> sleeping_list k' = filter (\<lambda>t. ticks k' < wake k t) (sleeping_list k)
        \<and> (\<forall>t \<in> set (sleeping_list k). wake k t \<le> ticks k' \<longrightarrow> st k' t = Some THREAD_READY \<or> st k' t = Some THREAD_RUNNING)"
      using timer_tick[OF g i(1)] unfolding awake_def by (elim exE conjE, intro exI conjI) (assumption | simp only:)+
    show "\<forall>n gs k'. 0 < n \<longrightarrow> timer_sleep n k = Some (gs, k') \<longrightarrow> gs = [FSleep] \<and> sleeping_list k' = sleeping_list k
        \<and> wake k' (current k) = int64 (ticks k + n)"
      using timer_sleep_in_order[OF g i(1)] by blast
    show "\<forall>k'. current k \<noteq> idle_thread k \<longrightarrow> fall_asleep k = Some k' \<longrightarrow>
        set (sleeping_list k') = insert (current k) (set (sleeping_list k)) \<and> wake k' (current k) = wake k (current k)
        \<and> sorted (map (wake k') (sleeping_list k'))"
      using fall_asleep_in_order[OF g i(1)] unfolding in_order_def by blast
  qed
qed

theorem sleepers_wake_by_tick_witness:
  "\<exists>k p k'. reachable (booted, booted_pend) (k, p) \<and> sleeping_list k = [4096] \<and> wake k 4096 \<le> ticks k
     \<and> intr_handler_timer k = Some k' \<and> sleeping_list k' = []"
proof -
  obtain k p where k: "reachable (booted, booted_pend) (k, p)" "sleeping_list k = [4096]" "wake k 4096 = 1" "ticks k = 1"
    using booted_oversleeps by blast
  obtain k' where "intr_handler_timer k = Some k'" "ticks k' = ticks k + 1"
      "sleeping_list k' = filter (\<lambda>t. ticks k' < wake k t) (sleeping_list k)"
    using sleepers_wake_by_tick[OF boot_booted k(1)] by blast
  then show ?thesis using k by (intro exI[of _ k] exI[of _ p] exI[of _ k']) simp
qed

text \<open>C9. Under the FIFO policy, which is the default, donation moves a ready lock holder from the FIFO list to the priority queue, which the FIFO scheduler never looks at: in the state shown the waiting thread blocks, the holder is ready but on no list the scheduler serves, and the idle thread runs.\<close>

theorem fifo_donation_starves:
  "(\<forall>k t. active_sched_policy k = SCHED_FIFO \<longrightarrow> distinct (fifo_ready_list k) \<longrightarrow> t \<in> set (fifo_ready_list k)
      \<longrightarrow> t \<notin> set (priority_queue k) \<longrightarrow>
      (\<exists>k'. requeue t k = Some k' \<and> t \<notin> set (fifo_ready_list k') \<and> t \<in> set (priority_queue k')))
    \<and> (\<exists>k. lock_acquire 300 fifo_holder = Some (False, k) \<and> current k = idle_thread fifo_holder
         \<and> fifo_ready_list k = [] \<and> st k 12288 = Some THREAD_READY)"
  using requeue_fifo fifo_holder_lost by (auto simp: fifo_holder_def)

theorem fifo_donation_starves_witness:
  "\<exists>k'. requeue 12288 fifo_holder = Some k' \<and> 12288 \<notin> set (fifo_ready_list k')"
proof -
  have "active_sched_policy fifo_holder = SCHED_FIFO" "distinct (fifo_ready_list fifo_holder)"
    "12288 \<in> set (fifo_ready_list fifo_holder)" "12288 \<notin> set (priority_queue fifo_holder)"
    by (simp_all add: fifo_holder_def)
  then show ?thesis using fifo_donation_starves by blast
qed

text \<open>C10. From a fresh interrupt queue, every sequence of intq_putc and intq_getc calls, of any length and so also past the end of the ring, behaves as a first-in first-out list that holds at most 63 bytes: the calls return exactly the bytes the list would return, the sequence gets stuck (its caller goes to sleep) exactly when the list is asked for a byte it does not have or given a 64th, and afterwards intq_empty and intq_full say whether the list is empty or holds 63 bytes.\<close>

theorem intq_refines_fifo:
  assumes "length storage = INTQ_BUFSIZE"
  shows "case fifo_run 63 ops [] of
      None \<Rightarrow> intq_run ops (intq_init storage) k = None
    | Some (ys, zs) \<Rightarrow> \<exists>q. intq_run ops (intq_init storage) k = Some (ys, q, k) \<and> intq_bytes q = zs \<and>
        (intq_empty q \<longleftrightarrow> zs = []) \<and> (intq_full q \<longleftrightarrow> length zs = 63)"
proof -
  note un = unwatched_init[OF assms]
  have fe: "(intq_empty q \<longleftrightarrow> intq_bytes q = []) \<and> (intq_full q \<longleftrightarrow> length (intq_bytes q) = 63)" if "unwatched q" for q
    using that intq_empty_bytes[of q] intq_full_count[of q] by (simp add: unwatched_def INTQ_BUFSIZE_def)
  have "case fifo_run 63 ops [] of
      None \<Rightarrow> intq_run ops (intq_init storage) k = None
    | Some (ys, zs) \<Rightarrow> \<exists>q. intq_run ops (intq_init storage) k = Some (ys, q, k) \<and> unwatched q \<and> intq_bytes q = zs"
    using intq_run_fifo[OF un(1), of ops k] un(2) by (simp add: INTQ_BUFSIZE_def)
  then show ?thesis using fe by (fastforce split: option.splits)
qed

theorem intq_refines_fifo_witness:
  "\<forall>k. \<exists>q. intq_run (concat (replicate 70 [Putc 7, Putc 9, Getc, Getc]) @ [Putc 5]) (intq_init (replicate 64 0)) k
      = Some (concat (replicate 70 [7, 9]), q, k) \<and> intq_bytes q = [5]"
proof
  fix k
  have "fifo_run 63 (concat (replicate 70 [Putc 7, Putc 9, Getc, Getc]) @ [Putc 5]) []
      = Some (concat (replicate 70 [7, 9]), [5])" by (simp add: numeral_eq_Suc)
  then show "\<exists>q. intq_run (concat (replicate 70 [Putc 7, Putc 9, Getc, Getc]) @ [Putc 5]) (intq_init (replicate 64 0)) k
      = Some (concat (replicate 70 [7, 9]), q, k) \<and> intq_bytes q = [5]"
    using intq_refines_fifo[of "replicate 64 0" "concat (replicate 70 [Putc 7, Putc 9, Getc, Getc]) @ [Putc 5]" k]
    by (simp only: INTQ_BUFSIZE_def length_replicate option.case prod.case) blast
qed

section \<open>File system\<close>

text \<open>C11. The entries of a directory file are a finite map from names to inode sectors, and adding a name is the update of that map: it succeeds exactly when the name is new and an entry is free, changes no sector outside the directory's file and nothing but the disk, and otherwise leaves the map as it was.\<close>

theorem dir_add_refines:
  assumes "dir_at s d ino" "file_name name" "deny_write_cnt ino = 0" "uniq_names (entries_at s ino)"
    "length junk = DIR_ENTRY_SIZE" "sec < 2 ^ 32"
  shows "\<exists>r s'. dir_add d name sec junk s = Some (r, s')
    \<and> (r \<longleftrightarrow> dir_map (entries_at s ino) name = None \<and> (\<exists>e \<in> set (entries_at s ino). \<not> in_use e))
    \<and> dir_map (entries_at s' ino) = (if r then (dir_map (entries_at s ino))(name \<mapsto> sec) else dir_map (entries_at s ino))
    \<and> (r \<longrightarrow> dir_at s' d ino \<and> uniq_names (entries_at s' ino) \<and> s' = s\<lparr>disk := disk s'\<rparr>
        \<and> (\<forall>x. x \<notin> sectors_of ino \<longrightarrow> disk s' x = disk s x))"
proof (cases "dir_map (entries_at s ino) name = None \<and> (\<exists>e \<in> set (entries_at s ino). \<not> in_use e)")
  case True
  from dir_add_spec[OF assms, unfolded if_P[OF True]] obtain s' where
    "dir_add d name sec junk s = Some (True, s')" "dir_at s' d ino" "uniq_names (entries_at s' ino)"
    "dir_map (entries_at s' ino) = (dir_map (entries_at s ino))(name \<mapsto> sec)"
    "s' = s\<lparr>disk := disk s'\<rparr>" "\<forall>x. x \<notin> sectors_of ino \<longrightarrow> disk s' x = disk s x" by blast
  then show ?thesis using True by (intro exI[of _ True] exI[of _ s'] conjI) (simp_all only: if_True simp_thms)
next
  case False
  from dir_add_spec[OF assms, unfolded if_not_P[OF False]] obtain s' where
    "dir_add d name sec junk s = Some (False, s')" "dir_map (entries_at s' ino) = dir_map (entries_at s ino)" by blast
  then show ?thesis using False by (intro exI[of _ False] exI[of _ s'] conjI) (simp_all only: if_False simp_thms)
qed

theorem dir_add_refines_witness:
  "\<exists>s'. dir_add 40 [97, 98] 3 (replicate 20 0) small_fs = Some (True, s')
    \<and> dir_map (entries_at s' dir_ino) [97, 98] = Some 3"
proof -
  have "file_name [97, 98]" by (simp add: file_name_def NAME_MAX_def)
  from dir_add_refines[OF small_dir this _ small_map(1), of "replicate 20 0" 3] obtain r s' where
    r: "dir_add 40 [97, 98] 3 (replicate 20 0) small_fs = Some (r, s')"
    "r \<longleftrightarrow> dir_map (entries_at small_fs dir_ino) [97, 98] = None \<and> (\<exists>e \<in> set (entries_at small_fs dir_ino). \<not> in_use e)"
    "dir_map (entries_at s' dir_ino) = (if r then (dir_map (entries_at small_fs dir_ino))([97, 98] \<mapsto> 3) else dir_map (entries_at small_fs dir_ino))"
    by (auto simp: DIR_ENTRY_SIZE_def dir_ino_def)
  have r by (simp only: r(2) small_map(2,3) simp_thms)
  then show ?thesis using r(1,3) by (metis fun_upd_same)
qed

text \<open>C12. Removing a name is the deletion of that name from the directory's map: when the call returns, a name that was not there leaves the state unchanged and yields false, and a name that was there is gone and no other name is affected.\<close>

theorem dir_remove_refines:
  assumes "fs_inv s" "dir_at s d ino" "deny_write_cnt ino = 0" "uniq_names (entries_at s ino)"
    "map_file s fino" "sectors_of fino \<inter> sectors_of ino = {}" "1 < mem_left s"
    "dir_remove d name s = Some (r, s')"
  shows "(r \<longleftrightarrow> dir_map (entries_at s ino) name \<noteq> None) \<and> (\<not> r \<longrightarrow> s' = s)
    \<and> dir_map (entries_at s' ino) = (dir_map (entries_at s ino))(name := None) \<and> uniq_names (entries_at s' ino)"
proof (cases "dir_map (entries_at s ino) name")
  case None
  with dir_remove_spec[OF assms] have "\<not> r" "s' = s" by (simp_all only: if_True simp_thms)
  then show ?thesis using None assms(4) by (metis fun_upd_triv)
next
  case (Some x)
  then have "dir_map (entries_at s ino) name \<noteq> None" by blast
  with dir_remove_spec[OF assms] show ?thesis by (simp only: if_False simp_thms)
qed

theorem dir_remove_refines_witness:
  "\<exists>r s'. dir_remove 40 [97] small_fs = Some (r, s') \<and> \<not> r \<and> s' = small_fs
    \<and> dir_map (entries_at s' dir_ino) = (dir_map (entries_at small_fs dir_ino))([97] := None)"
proof -
  have "lookup_entry 40 [97] small_fs = Some None"
    using lookup_entry_cases[OF small_dir, of "[97]"] small_map(2)[of "[97]"] by auto
  then have rm: "dir_remove 40 [97] small_fs = Some (False, small_fs)" by (simp add: dir_remove_def inode_close_def small_fs_def)
  have dj: "sectors_of map_ino \<inter> sectors_of dir_ino = {}" by (simp add: small_disk)
  have "deny_write_cnt dir_ino = 0" "1 < mem_left small_fs" by (simp_all add: dir_ino_def small_fs_def)
  with dir_remove_refines[OF small_inv small_dir _ small_map(1) small_map_file dj _ rm] rm show ?thesis by blast
qed

text \<open>C13. Bytes written to a file at any offset are the bytes read back from there, whichever sectors and parts of sectors they cross; a write that reaches past the end of the file is cut at the end; and no file with other sectors changes.\<close>

theorem write_then_read:
  fixes ofs n :: nat
  assumes "inodes s p = Some ino" "inode_ok s ino" "disk_ok s" "0 < mem_left s" "deny_write_cnt ino = 0"
    "n \<le> length buffer"
  defines "m \<equiv> min n (nat (inode_length ino) - ofs)"
  shows "\<exists>s'. inode_write_at p buffer (int n) (int ofs) s = Some (int m, s')
    \<and> inode_read_at p (int n) (int ofs) s' = Some (take m buffer)
    \<and> (\<forall>q other k at. inodes s q = Some other \<longrightarrow> inode_ok s other \<longrightarrow> sectors_of other \<inter> sectors_of ino = {} \<longrightarrow>
        inode_read_at q (int k) (int at) s' = inode_read_at q (int k) (int at) s)"
proof -
  obtain d' where w: "inode_write_at p buffer (int n) (int ofs) s = Some (int m, s\<lparr>disk := d'\<rparr>)"
    "wrote ino ofs (take m buffer) (disk s) d'"
    using inode_write_at_data[OF assms(1-6)] by (auto simp: m_def)
  let ?s = "s\<lparr>disk := d'\<rparr>"
  have ok: "disk_ok ?s" "inode_ok ?s i = inode_ok s i" "0 < mem_left ?s" for i
    using w(2) assms(3,4) by (simp_all add: disk_ok_def inode_ok_def wrote_def)
  have len: "length (take m buffer) = m" using assms(6) by (simp add: m_def)
  have "take n (drop ofs (contents d' ino)) = take m buffer"
  proof (cases "ofs \<le> nat (inode_length ino)")
    case True
    then have "ofs + length (take m buffer) \<le> nat (inode_length ino)" unfolding len by (simp add: m_def)
    from wrote_contents[OF w(2) this]
    have "contents d' ino = memcpy_at (contents (disk s) ino) ofs (take m buffer)" .
    then show ?thesis using True len by (auto simp: memcpy_at_def m_def min_def)
  qed (simp add: m_def)
  then have r: "inode_read_at p (int n) (int ofs) ?s = Some (take m buffer)"
    using inode_read_at_data[of ?s p ino n ofs] assms(1,2) ok by simp
  have "inode_read_at q (int k) (int at) ?s = inode_read_at q (int k) (int at) s"
    if "inodes s q = Some other" "inode_ok s other" "sectors_of other \<inter> sectors_of ino = {}" for q other k at
  proof -
    have "contents d' other = contents (disk s) other"
      using w(2) that(3) by (intro contents_cong) (auto simp: wrote_def)
    then show ?thesis
      using inode_read_at_data[of ?s q other k at] inode_read_at_data[of s q other k at] that(1,2) ok assms(3,4) by simp
  qed
  then show ?thesis using w(1) r by blast
qed

theorem write_then_read_witness:
  "\<exists>s'. inode_write_at 10 [1, 2, 3] 3 38 small_fs = Some (2, s') \<and> inode_read_at 10 3 38 s' = Some [1, 2]"
proof -
  have "deny_write_cnt dir_ino = 0" "0 < mem_left small_fs" "nat (inode_length dir_ino) = 40"
    by (simp_all add: dir_ino_def small_fs_def inode_length_def)
  then show ?thesis
    using write_then_read[OF small_disk(6,2,1), of 3 "[1, 2, 3]" 38] by auto
qed

text \<open>C14. A file is read as a stream: file_read returns the next bytes of the file from the position on, fewer only at the end of the file, and moves the position past them, so two reads in a row return what one read of both lengths returns and leave the same state.\<close>

theorem file_reads_compose:
  assumes "files s f = Some fl" "inodes s (f_inode fl) = Some ino" "inode_ok s ino" "disk_ok s" "0 < mem_left s" "0 \<le> f_pos fl"
  shows "\<exists>xs ys t u. file_read f (int a) s = Some (xs, t) \<and> file_read f (int b) t = Some (ys, u)
    \<and> file_read f (int (a + b)) s = Some (xs @ ys, u)
    \<and> xs @ ys = take (a + b) (drop (nat (f_pos fl)) (contents (disk s) ino))
    \<and> u = s\<lparr>files := (files s)(f \<mapsto> fl\<lparr>f_pos := f_pos fl + int (length (xs @ ys))\<rparr>)\<rparr>"
proof -
  define pos where "pos = nat (f_pos fl)"
  let ?c = "contents (disk s) ino"
  define xs where "xs = take a (drop pos ?c)"
  define t where "t = s\<lparr>files := (files s)(f \<mapsto> fl\<lparr>f_pos := f_pos fl + int (length xs)\<rparr>)\<rparr>"
  have r1: "file_read f (int a) s = Some (xs, t)"
    using file_read_at_pos[OF assms, of a] by (simp add: Let_def xs_def t_def pos_def)
  define ys where "ys = take b (drop (pos + length xs) ?c)"
  have "nat (f_pos fl + int (length xs)) = pos + length xs" using assms(6) by (simp add: pos_def nat_add_distrib)
  then have r2: "file_read f (int b) t = Some (ys, t\<lparr>files := (files t)(f \<mapsto>
      fl\<lparr>f_pos := f_pos fl + int (length xs) + int (length ys)\<rparr>)\<rparr>)"
    using file_read_at_pos[of t f "fl\<lparr>f_pos := f_pos fl + int (length xs)\<rparr>" ino b] assms
    by (simp add: Let_def t_def ys_def inode_ok_def disk_ok_def)
  have "take b (drop (pos + length xs) ?c) = take b (drop a (drop pos ?c))"
    by (cases "a \<le> length ?c - pos") (simp_all add: xs_def add.commute)
  then have xy: "take (a + b) (drop pos ?c) = xs @ ys" by (simp add: xs_def ys_def take_add)
  have r3: "file_read f (int (a + b)) s = Some (xs @ ys, s\<lparr>files := (files s)(f \<mapsto> fl\<lparr>f_pos := f_pos fl + int (length (xs @ ys))\<rparr>)\<rparr>)"
    using file_read_at_pos[OF assms, of "a + b"] xy by (simp only: Let_def pos_def)
  show ?thesis
    by (rule exI[of _ xs], rule exI[of _ ys], rule exI[of _ t],
        rule exI[of _ "s\<lparr>files := (files s)(f \<mapsto> fl\<lparr>f_pos := f_pos fl + int (length (xs @ ys))\<rparr>)\<rparr>"])
      (use r1 r2 r3 xy in \<open>simp add: t_def pos_def add.assoc\<close>)
qed

theorem file_reads_compose_witness:
  "\<exists>xs t. file_read 30 3 small_fs = Some (xs, t) \<and> length xs = 3"
proof -
  obtain xs ys t u where r: "file_read 30 (int (1 + 2)) small_fs = Some (xs @ ys, u)"
      "xs @ ys = take (1 + 2) (drop 0 (contents (disk small_fs) map_ino))"
    using file_reads_compose[of small_fs 30 "\<lparr>f_inode = 20, f_pos = 0, f_deny_write = False\<rparr>" map_ino 1 2] small_disk
    by (auto simp: small_fs_def)
  have "length (contents (disk small_fs) map_ino) = 4" by (simp add: map_ino_def inode_length_def)
  then have "length (xs @ ys) = 3" by (simp add: r(2))
  then show ?thesis using r(1) by auto
qed

text \<open>C15. A file created with a length and then opened reads as that many zero bytes; its data, the run of sectors that begins at the start sector of the inode in memory, was free before, and exactly the sectors of this run become used.\<close>

theorem created_file_is_zero:
  assumes "inode_create sec len s = Some (True, s')" "map_ok s" "disk_ok s" "len < 2 ^ 31"
    "bm_bit (free_map s) sec" "sec < disk_size s" "fs_inv s'" "\<forall>p ino. inodes s' p = Some ino \<longrightarrow> sector ino \<noteq> sec"
    "inode_open sec s' = Some (p, t)" "p \<noteq> NULL" "0 < mem_left t"
  shows "inode_read_at p (int n) (int ofs) t = Some (replicate (min n (nat len - ofs)) 0)
    \<and> (\<exists>ino. inodes t p = Some ino \<and> sector ino = sec
        \<and> bm_group (free_map s) (d_start (data ino)) (bytes_to_sectors len) False
        \<and> (\<forall>j. bm_bit (free_map s') j \<longleftrightarrow>
              bm_bit (free_map s) j \<or> (d_start (data ino) \<le> j \<and> j < d_start (data ino) + bytes_to_sectors len)))"
proof
  have d: "disk_ok s'" using inode_create_spec[OF assms(1-6)] by blast
  obtain ino where i: "inodes t p = Some ino" "inode_ok t ino" "contents (disk t) ino = replicate (nat len) 0"
    and g: "sector ino = sec" "bm_group (free_map s) (d_start (data ino)) (bytes_to_sectors len) False"
      "\<forall>j. bm_bit (free_map s') j \<longleftrightarrow>
          bm_bit (free_map s) j \<or> (d_start (data ino) \<le> j \<and> j < d_start (data ino) + bytes_to_sectors len)"
    using created_contents[OF assms(1-10)] by blast
  have "find_open sec (open_inodes s') s' = Some None"
    using find_open_Some[of "open_inodes s'" s' sec] assms(7,8) fs_invD(3) by (fastforce split: option.splits)
  then have "disk t = disk s' \<and> disk_size t = disk_size s'"
    using assms(9) by (auto simp: inode_open_def Inode.malloc_def bind_eq_Some_conv split: if_splits)
  then have "disk_ok t" using d by (simp add: disk_ok_def)
  then show "inode_read_at p (int n) (int ofs) t = Some (replicate (min n (nat len - ofs)) 0)"
    using inode_read_at_data[OF i(1,2) _ assms(11), of n ofs] i(3) by (simp add: min.commute)
  show "\<exists>ino. inodes t p = Some ino \<and> sector ino = sec
        \<and> bm_group (free_map s) (d_start (data ino)) (bytes_to_sectors len) False
        \<and> (\<forall>j. bm_bit (free_map s') j \<longleftrightarrow>
              bm_bit (free_map s) j \<or> (d_start (data ino) \<le> j \<and> j < d_start (data ino) + bytes_to_sectors len))"
    by (rule exI[of _ ino]) (intro conjI i(1) g)
qed

theorem created_file_is_zero_witness:
  "\<exists>s' p t. inode_create 1 40 fresh_fs = Some (True, s') \<and> inode_open 1 s' = Some (p, t)
    \<and> inode_read_at p 4 38 t = Some [0, 0]"
proof -
  obtain s' where c: "inode_create 1 40 fresh_fs = Some (True, s')" and m: "mem_left s' = 5" using fresh_create by blast
  have t: "same_table fresh_fs s'" using inode_create_table[OF c] .
  have e: "inodes s' = Map.empty" "open_inodes s' = []" using t(1) by (simp_all add: same_table_def fresh_fs_def)
  have d: "disk_size s' = 8" using inode_create_spec[OF c fresh_ok(1,2) _ fresh_ok(3)] fresh_ok(4) by auto
  have n: "next_addr s' \<noteq> NULL" using t(1) by (auto simp: same_table_def fresh_fs_def small_fs_def)
  have inv: "fs_inv s'" using t(1) fresh_ok(5) same_table_inv by blast
  obtain t p where o: "inode_open 1 s' = Some (p, t)" "p \<noteq> NULL" "0 < mem_left t"
    using e d n m by (auto simp: inode_open_def Inode.malloc_def block_read_def check_sector_def)
  have "1 < disk_size fresh_fs" using fresh_ok(4) by simp
  from created_file_is_zero[OF c fresh_ok(1,2) _ fresh_ok(3) this inv _ o, of 4 38] e(1) c o(1) show ?thesis
    by (auto simp: numeral_2_eq_2)
qed

text \<open>C16. However calls of the file system follow one another (create, open, remove, read, write, seek, close, directories), the table of open inodes lists each inode in memory once, no two of them stand for the same sector, and each counts at least one opener.\<close>

theorem open_inodes_invariant:
  assumes "fs_call\<^sup>*\<^sup>* s s'" "inodes s = Map.empty" "open_inodes s = []" "0 < next_addr s"
  shows "distinct (open_inodes s') \<and> (\<forall>p. p \<in> set (open_inodes s') \<longleftrightarrow> inodes s' p \<noteq> None)
    \<and> (\<forall>p ino. inodes s' p = Some ino \<longrightarrow> p \<noteq> NULL \<and> 0 < open_cnt ino)
    \<and> (\<forall>p q i j. inodes s' p = Some i \<longrightarrow> inodes s' q = Some j \<longrightarrow> sector i = sector j \<longrightarrow> p = q)"
proof -
  have "fs_inv s" using assms(2-4) by (simp add: fs_inv_def)
  then have "fs_inv s'" using fs_calls_inv[OF assms(1)] by blast
  then show ?thesis by (auto simp: fs_inv_def)
qed

theorem open_inodes_invariant_witness:
  "\<exists>s'. fs_call\<^sup>*\<^sup>* fresh_fs s' \<and> open_inodes s' = [50] \<and> (\<exists>ino. inodes s' 50 = Some ino \<and> 0 < open_cnt ino)"
proof -
  let ?open = "dir_open_root fresh_fs"
  obtain d s' where o: "?open = Some (d, s')" "open_inodes s' = [50]" 
    by (auto simp: dir_open_root_def dir_open_def inode_open_def fresh_fs_def small_fs_def Inode.malloc_def block_read_def
        check_sector_def ROOT_DIR_SECTOR_def)
  then have c: "fs_call\<^sup>*\<^sup>* fresh_fs s'" by (intro r_into_rtranclp fs_call.open_dir)
  have "inodes fresh_fs = Map.empty" "open_inodes fresh_fs = []" "0 < next_addr fresh_fs"
    by (simp_all add: fresh_fs_def small_fs_def)
  from open_inodes_invariant[OF c this] o(2) have "inodes s' 50 \<noteq> None" "\<forall>ino. inodes s' 50 = Some ino \<longrightarrow> 0 < open_cnt ino"
    by (metis list.set_intros(1), blast)
  then show ?thesis using c o(2) by blast
qed

section \<open>Strings\<close>

text \<open>C17. One call of strtok_r, the first with the string or a later one with the saved position, returns the next maximal run of bytes that are not delimiters, cut off with a null byte in place, or NULL when only delimiters are left; what it saves is the rest of the string after one delimiter, and it writes nowhere outside the string.\<close>

theorem strtok_r_next_token:
  assumes "str_at m p s" "str_at m d ds" "d \<noteq> NULL" "p \<noteq> NULL" "q = p \<and> save = x \<or> q = NULL \<and> save = p"
    "d + length ds < p \<or> p + length s < d"
  shows "\<exists>t save' m'. strtok_r q d save m = Some (t, save', m')
    \<and> (if next_word ds s = [] then t = NULL else t \<noteq> NULL \<and> str_at m' t (next_word ds s))
    \<and> str_at m' save' (after_word ds s) \<and> str_at m' d ds
    \<and> (\<forall>a. a < p \<or> p + length s < a \<longrightarrow> m' a = m a)"
  using strtok_r_str[OF assms] assms(4) by (fastforce split: if_splits)

theorem strtok_r_next_token_witness:
  "\<exists>t save m'. strtok_r 10 20 0 [10 \<mapsto> 32, 11 \<mapsto> 97, 12 \<mapsto> 98, 13 \<mapsto> 32, 14 \<mapsto> 0, 20 \<mapsto> 32, 21 \<mapsto> 0] = Some (t, save, m')
    \<and> t \<noteq> NULL \<and> str_at m' t [97, 98]"
proof -
  let ?m = "[10 \<mapsto> 32, 11 \<mapsto> 97, 12 \<mapsto> 98, 13 \<mapsto> 32, 14 \<mapsto> 0, 20 \<mapsto> 32, 21 \<mapsto> 0]"
  have m: "str_at ?m 10 [32, 97, 98, 32]" "str_at ?m 20 [32]" by simp_all
  have w: "next_word [32] [32, 97, 98, 32] = [97, 98]" by (simp add: next_word_def)
  have "20 + length [32 :: 8 word] < (10 :: nat) \<or> 10 + length [32 :: 8 word, 97, 98, 32] < 20" by simp
  from strtok_r_next_token[OF m _ _ _ this, of 10 0 0, unfolded w] show ?thesis
    by (simp only: list.distinct if_False) (metis zero_neq_numeral)
qed

text \<open>C18. memmove is a simultaneous assignment: however source and destination overlap, the destination holds afterwards the bytes the source held before, and nothing outside the destination changes. The pointer it returns is the destination only when it copies downwards; when the destination is below the source it is the address behind the block.\<close>

theorem memmove_overlapping:
  assumes "bytes_at m src bs" "mapped dst (length bs) m" "dst \<noteq> NULL" "src \<noteq> NULL"
  shows "\<exists>m'. memmove dst src (length bs) m = Some (if dst < src then dst + length bs else dst, m') \<and> bytes_at m' dst bs
    \<and> (\<forall>a. a < dst \<or> dst + length bs \<le> a \<longrightarrow> m' a = m a)"
proof -
  have "mapped src (length bs) m" using bytes_at_mapped[OF assms(1)] by blast
  then have "memmove dst src (length bs) m = Some (if dst < src then dst + length bs else dst, copied dst src (length bs) m)"
    using memmove_copied[OF assms(2)] assms(3,4) by blast
  moreover have "bytes_at (copied dst src (length bs) m) dst bs" using bytes_at_copied[OF assms(1), of "length bs" dst] by simp
  ultimately show ?thesis by (auto simp: copied_def)
qed

theorem memmove_overlapping_witness:
  "\<exists>m'. memmove 10 11 3 [10 \<mapsto> 1, 11 \<mapsto> 2, 12 \<mapsto> 3, 13 \<mapsto> 4] = Some (13, m') \<and> bytes_at m' 10 [2, 3, 4]"
proof -
  have "bytes_at [10 \<mapsto> 1, 11 \<mapsto> 2, 12 \<mapsto> 3, 13 \<mapsto> 4] 11 [2, 3, 4]" by simp
  moreover have "mapped 10 (length [2 :: 8 word, 3, 4]) [10 \<mapsto> 1, 11 \<mapsto> 2, 12 \<mapsto> 3, 13 \<mapsto> 4]"
    by (auto simp: mapped_def less_Suc_eq numeral_3_eq_3)
  ultimately show ?thesis
    using memmove_overlapping[of "[10 \<mapsto> 1, 11 \<mapsto> 2, 12 \<mapsto> 3, 13 \<mapsto> 4]" 11 "[2, 3, 4]" 10]
    by (auto simp: numeral_3_eq_3)
qed

section \<open>Hash table\<close>

text \<open>C19. A hash table whose elements are told apart by a string, hashed with hash_string and compared as strcmp does, is a finite map from strings to elements: find looks the map up, insert adds an element unless its key is taken, replace overwrites and delete removes, and each returns what was there before and keeps the table well formed, whether or not a rehash gets its memory.\<close>

theorem hash_table_is_map:
  fixes name :: "addr \<Rightarrow> 8 word list"
  assumes "hash_ok h" "hash_fn h = (\<lambda>e. hash_string (name e))" "less_fn h = (\<lambda>a b. name a < name b)"
    "inj_on name (elems h)" "e \<noteq> NULL"
  defines "old \<equiv> (case table_map name h (name e) of Some x \<Rightarrow> x | None \<Rightarrow> NULL)"
  shows "hash_find e h = old
    \<and> (\<exists>h'. hash_insert ok e h = Some (old, h') \<and> hash_ok h'
        \<and> table_map name h' = (if old = NULL then (table_map name h)(name e \<mapsto> e) else table_map name h))
    \<and> (\<exists>h'. hash_replace ok e h = Some (old, h') \<and> hash_ok h' \<and> table_map name h' = (table_map name h)(name e \<mapsto> e))
    \<and> (\<exists>h'. hash_delete ok e h = Some (old, h') \<and> hash_ok h' \<and> table_map name h' = (table_map name h)(name e := None))"
proof (intro conjI)
  have k: "string_hash.keyed name h" using assms by (simp add: string_hash.keyed_def)
  show "hash_find e h = old" using string_hash.hash_find_map[OF k] by (simp add: old_def)
  show "\<exists>h'. hash_insert ok e h = Some (old, h') \<and> hash_ok h'
        \<and> table_map name h' = (if old = NULL then (table_map name h)(name e \<mapsto> e) else table_map name h)"
    using string_hash.hash_insert_map[OF k assms(5), where ok = ok] string_hash.map_nonnull[OF k]
    by (auto simp: old_def string_hash.keyed_def split: option.splits)
  show "\<exists>h'. hash_replace ok e h = Some (old, h') \<and> hash_ok h' \<and> table_map name h' = (table_map name h)(name e \<mapsto> e)"
    using string_hash.hash_replace_map[OF k assms(5), where ok = ok] by (auto simp: old_def string_hash.keyed_def)
  show "\<exists>h'. hash_delete ok e h = Some (old, h') \<and> hash_ok h' \<and> table_map name h' = (table_map name h)(name e := None)"
    using string_hash.hash_delete_map[OF k, where ok = ok and e = e] by (auto simp: old_def string_hash.keyed_def)
qed

theorem hash_table_is_map_witness:
  "\<exists>h'. hash_insert True 5 (snd (hash_init True (\<lambda>e. hash_string [word_of_nat e]) (\<lambda>a b. [word_of_nat a :: 8 word] < [word_of_nat b])))
      = Some (NULL, h') \<and> table_map (\<lambda>e. [word_of_nat e :: 8 word]) h' [5] = Some 5"
proof -
  let ?name = "\<lambda>e. [word_of_nat e :: 8 word]"
  let ?h = "snd (hash_init True (\<lambda>e. hash_string (?name e)) (\<lambda>a b. ?name a < ?name b))"
  have "inj_on ?name (elems ?h)" unfolding hash_init_ok(2) by (rule inj_on_empty)
  from hash_table_is_map[OF hash_init_ok(1,3,4) this, of 5 True] obtain h' where
    "hash_insert True 5 ?h = Some (NULL, h')" "table_map ?name h' = Map.empty(?name 5 \<mapsto> 5)"
    unfolding table_map_init by auto
  then show ?thesis by (intro exI[of _ h']) simp
qed

section \<open>Kernel lists\<close>

text \<open>C20. On a well-formed list in memory list_sort terminates without a failed assertion, leaves the list well formed with its elements in the order of the stable sort by the key the comparison function compares, and changes no memory outside the list.\<close>

theorem list_sort_stable:
  fixes key :: "addr \<Rightarrow> int"
  assumes "dll h l xs"
  shows "\<exists>h'. list_sort h l (\<lambda>a b. key a < key b) = Some h' \<and> dll h' l (sort_key key xs)
    \<and> (\<forall>x. x \<notin> set (k_head l # xs @ [k_tail l]) \<longrightarrow> h' x = h x)"
  using list_sort_dll[OF refl assms] .

theorem list_sort_stable_witness:
  "\<exists>h'. list_sort list_example list_example_l (\<lambda>a b. - int a < - int b) = Some h'
     \<and> dll h' list_example_l [12, 11, 10]"
  using list_sort_stable[OF list_example_dll, of "\<lambda>a. - int a"] by auto

section \<open>Bitmaps\<close>

text \<open>C21. On a well-formed bitmap bitmap_scan_and_flip never fails an assertion: if there is a group of cnt bits with the wanted value at or after start it returns the first such group and flips exactly these bits, otherwise it returns BITMAP_ERROR and changes nothing. A group of no bits is found at start itself, so for cnt = 0 the result is start, where the comment of the function says 0.\<close>

theorem bitmap_scan_and_flip_first:
  assumes "bm_ok b" "start \<le> bit_cnt b"
  shows "\<exists>b' r. bitmap_scan_and_flip b start cnt v = Some (b', r) \<and>
    (if \<exists>i\<ge>start. bm_group b i cnt v
     then r \<noteq> BITMAP_ERROR \<and> start \<le> r \<and> bm_group b r cnt v \<and>
       (\<forall>i. start \<le> i \<and> i < r \<longrightarrow> \<not> bm_group b i cnt v) \<and> bm_ok b' \<and> bit_cnt b' = bit_cnt b \<and>
       (\<forall>j. bm_bit b' j = (if r \<le> j \<and> j < r + cnt then \<not> v else bm_bit b j))
     else r = BITMAP_ERROR \<and> b' = b)"
  using bitmap_scan_and_flip_bm[OF assms] .

theorem bitmap_scan_and_flip_first_witness:
  "\<exists>b' r. bitmap_scan_and_flip \<lparr>bit_cnt = 40, bits = [7, 0]\<rparr> 1 2 False = Some (b', r)"
proof -
  have "bm_ok \<lparr>bit_cnt = 40, bits = [7, 0]\<rparr>"
    by (simp add: bm_ok_def elem_cnt_def ELEM_BITS_def DIV_ROUND_UP_def BITMAP_ERROR_def)
  from bitmap_scan_and_flip_first[OF this, of 1 2 False] show ?thesis by auto
qed

section \<open>64-bit arithmetic\<close>

text \<open>C22. udiv64 computes the exact quotient of any two unsigned 64-bit numbers with a non-zero divisor, with 64-by-32-bit divisions only, and none of these divisions traps.\<close>

theorem udiv64_quotient:
  assumes "n < 2 ^ 64" "0 < d" "d < 2 ^ 64"
  shows "udiv64 n d = Some (n div d)"
  using udiv64_exact[OF assms] .

theorem udiv64_quotient_witness:
  "udiv64 (2 ^ 64 - 1) (2 ^ 33 + 5) = Some ((2 ^ 64 - 1) div (2 ^ 33 + 5))"
  by (rule udiv64_quotient) simp_all

section \<open>Sorting, searching, numbers\<close>

text \<open>C23. qsort returns a permutation of its input that is sorted by the key the comparison function compares.\<close>

theorem qsort_sorted:
  fixes key :: "'a \<Rightarrow> 'k :: linorder"
  assumes "strcmp_like compare key"
  shows "sorted (map key (qsort xs compare)) \<and> mset (qsort xs compare) = mset xs"
  using heap_sort_sorted[OF assms] by (simp add: qsort_def)

theorem qsort_sorted_witness:
  "sorted (qsort [3, 1, 2 :: int] (\<lambda>a b. a - b)) \<and> mset (qsort [3, 1, 2 :: int] (\<lambda>a b. a - b)) = {#1, 2, 3#}"
  using qsort_sorted[of "\<lambda>a b :: int. a - b" id "[3, 1, 2]"] by (simp add: strcmp_like_def add_mset_commute)

section \<open>Formatted output\<close>

text \<open>C24. Whatever flags, width and precision a signed conversion of an int has (only digit grouping and a precision of zero for the value zero are excluded), it always prints, fills at least the width, and atoi reads the printed text back as the same value, the most negative int included.\<close>

theorem printf_atoi_roundtrip:
  assumes "arg_type c = T_INT \<or> arg_type c = T_LONG" "GROUP \<notin> flags c" "sint w \<noteq> 0 \<or> precision c \<noteq> 0"
  shows "\<exists>out. conv_signed c (V32 w # as) = Some (out, as) \<and> width c \<le> int (length out) \<and> atoi out = Some (sint w)"
proof -
  have r: "- (2 ^ 31) \<le> sint w" "sint w < 2 ^ 31" using sint_greater_eq[of w] sint_less[of w] by simp_all
  then have "nat \<bar>sint w\<bar> < 2 ^ 64" by (simp add: nat_less_iff)
  from format_integer_total[OF bases_ok(1) this] obtain out where
    o: "format_integer (nat \<bar>sint w\<bar>) True (sint w < 0) base_d c = Some out" "width c \<le> int (length out)" by blast
  have "nat (if sint w < 0 then - sint w else sint w) = nat \<bar>sint w\<bar>" by simp
  then have "conv_signed c (V32 w # as) = Some (out, as)"
    using assms(1) o(1) r by (auto simp: conv_signed_def signed_arg_def)
  then show ?thesis using o atoi_format[OF _ assms(2,3) o(1)] r by (auto simp: int_range_def)
qed

theorem printf_atoi_roundtrip_witness:
  "\<exists>out. conv_signed \<lparr>flags = {ZERO}, width = 20, precision = -1, arg_type = T_INT\<rparr> [V32 0x80000000] = Some (out, [])
    \<and> 20 \<le> length out \<and> atoi out = Some (- 2147483648)"
proof -
  have s: "sint (0x80000000 :: 32 word) = - 2147483648" by simp
  show ?thesis
    using printf_atoi_roundtrip[of "\<lparr>flags = {ZERO}, width = 20, precision = -1, arg_type = T_INT\<rparr>" "0x80000000" "[]"]
    unfolding s by auto
qed

section \<open>Memory\<close>

text \<open>C25. Pages are handed out exclusively: an allocation either returns NULL and changes nothing, or a page-aligned run above the kernel base none of whose pages was in use; exactly these become used, with PAL_ZERO the memory of the run is zeroed and no other word of memory changes; and releasing a run of used pages of one pool never fails and makes exactly these pages free again.\<close>

theorem palloc_exclusive:
  assumes "pmem_ok s" "0 < n" "PAL_ASSERT \<notin> fl"
  shows "(\<exists>a s'. palloc_get_multiple fl n s = Some (a, s') \<and> pmem_ok s'
      \<and> (if a = NULL then s' = s
         else run a n \<inter> used s = {} \<and> used s' = used s \<union> run a n \<and> a mod PGSIZE = 0 \<and> PHYS_BASE < a
           \<and> (\<forall>x. words s' x = (if PAL_ZERO \<in> fl \<and> a \<le> x \<and> x < a + PGSIZE * n then 0 else words s x))))
    \<and> (\<forall>a. run a n \<subseteq> pool_used (kernel_pool s) \<or> run a n \<subseteq> pool_used (user_pool s) \<longrightarrow>
        (\<exists>s'. palloc_free_multiple a n s = Some s' \<and> pmem_ok s' \<and> used s' = used s - run a n))"
proof (intro conjI allI impI)
  obtain a s' where g: "palloc_get_multiple fl n s = Some (a, s')" "pmem_ok s'"
    and c: "if a = NULL then s' = s
       else run a n \<inter> used s = {} \<and> used s' = used s \<union> run a n \<and> a mod PGSIZE = 0 \<and> PHYS_BASE < a
         \<and> a + PGSIZE * n \<le> 2 ^ 32
         \<and> words s' = (\<lambda>x. if PAL_ZERO \<in> fl \<and> a \<le> x \<and> x < a + PGSIZE * n then 0 else words s x)"
    using palloc_get_spec[OF assms] by blast
  then show "\<exists>a s'. palloc_get_multiple fl n s = Some (a, s') \<and> pmem_ok s'
      \<and> (if a = NULL then s' = s
         else run a n \<inter> used s = {} \<and> used s' = used s \<union> run a n \<and> a mod PGSIZE = 0 \<and> PHYS_BASE < a
           \<and> (\<forall>x. words s' x = (if PAL_ZERO \<in> fl \<and> a \<le> x \<and> x < a + PGSIZE * n then 0 else words s x)))"
    by (intro exI[of _ a] exI[of _ s'] conjI) (simp_all split: if_splits)
next
  fix a assume "run a n \<subseteq> pool_used (kernel_pool s) \<or> run a n \<subseteq> pool_used (user_pool s)"
  then show "\<exists>s'. palloc_free_multiple a n s = Some s' \<and> pmem_ok s' \<and> used s' = used s - run a n"
    using palloc_free_spec[OF assms(1) _ _ assms(2)] by blast
qed

theorem palloc_exclusive_witness:
  "\<exists>a s'. palloc_get_multiple {PAL_USER} 2 small_mmu = Some (a, s') \<and> (a = NULL \<or> a \<noteq> 0xc0101000)"
proof -
  have "0xc0101000 \<in> run 0xc0101000 2" by (auto simp: run_def intro!: exI[of _ 0])
  then show ?thesis
    using palloc_exclusive[OF small_mmu_ok(1), of 2 "{PAL_USER}"] unfolding small_mmu_ok(2) by (auto split: if_splits)
qed

text \<open>C26. A page directory is a finite map from user pages to frames with an access right: setting an unmapped page either fails for lack of memory and leaves the map alone or updates it at exactly that page, clearing deletes exactly that page, and looking up any user address gives the frame of its page plus the offset, or NULL.\<close>

theorem page_directory_is_map:
  assumes "pd_ok s pd" "user_page u"
  shows "(\<forall>k w. page_map s pd u = None \<and> k mod PGSIZE = 0 \<and> PHYS_BASE \<le> k \<and> k < 2 ^ 32
      \<and> (k - PHYS_BASE) div PGSIZE < init_ram_pages s \<longrightarrow>
      (\<exists>r s'. pagedir_set_page pd u k w s = Some (r, s') \<and> pd_ok s' pd
        \<and> page_map s' pd = (if r then (page_map s pd)(u \<mapsto> (k, w)) else page_map s pd)))
    \<and> (\<exists>s'. pagedir_clear_page pd u s = Some s' \<and> pd_ok s' pd \<and> page_map s' pd = (page_map s pd)(u := None))
    \<and> (\<forall>va < PHYS_BASE. pagedir_get_page pd va s =
        Some (case page_map s pd (va - va mod PGSIZE) of Some (k, w) \<Rightarrow> k + va mod PGSIZE | None \<Rightarrow> NULL))"
proof (intro conjI allI impI)
  show "\<exists>s'. pagedir_clear_page pd u s = Some s' \<and> pd_ok s' pd \<and> page_map s' pd = (page_map s pd)(u := None)"
    by (rule pagedir_clear_page_map[OF assms])
next
  fix va assume va: "va < PHYS_BASE"
  from pagedir_get_page_map[OF assms(1) va] show "pagedir_get_page pd va s =
      Some (case page_map s pd (va - va mod PGSIZE) of Some (k, w) \<Rightarrow> k + va mod PGSIZE | None \<Rightarrow> NULL)"
    unfolding pg_round_down_sub[OF user_idx(3)[OF va]] pg_ofs_mod[OF user_idx(3)[OF va]] .
next
  fix k w assume k: "page_map s pd u = None \<and> k mod PGSIZE = 0 \<and> PHYS_BASE \<le> k \<and> k < 2 ^ 32
      \<and> (k - PHYS_BASE) div PGSIZE < init_ram_pages s"
  show "\<exists>r s'. pagedir_set_page pd u k w s = Some (r, s') \<and> pd_ok s' pd
        \<and> page_map s' pd = (if r then (page_map s pd)(u \<mapsto> (k, w)) else page_map s pd)"
    using pagedir_set_page_map[OF assms, of k w] k by auto
qed

theorem page_directory_is_map_witness:
  "\<exists>r s'. pagedir_set_page 0xc0101000 0x8048000 0xc0106000 True small_mmu = Some (r, s')
    \<and> (r \<longrightarrow> page_map s' 0xc0101000 0x8048000 = Some (0xc0106000, True))"
proof -
  have u: "user_page 0x8048000" by (simp add: user_page_def PHYS_BASE_def PGSIZE_def)
  have "page_map small_mmu 0xc0101000 0x8048000 = None"
    by (simp add: page_map_def entry_of_def table_of_def small_mmu_def)
  moreover have "init_ram_pages small_mmu = 1024" by (simp add: small_mmu_def)
  ultimately show ?thesis
    using page_directory_is_map[OF small_mmu_ok(3) u, THEN conjunct1, rule_format, of "0xc0106000" True]
    by (fastforce simp: PGSIZE_def PHYS_BASE_def)
qed

text \<open>C27. The block allocator never hands out a byte twice: malloc returns NULL and leaves the blocks in use as they were, or returns a block that was not in use and is at least as large as the request; free of any block in use never fails and takes exactly this block out of use; and two different blocks in use share no byte. (Requests are bounded so that the rounding of a big request to pages does not wrap.)\<close>

theorem malloc_blocks_exclusive:
  assumes "heap_ok s"
  shows "(\<forall>n. 0 < n \<and> n + ARENA_SIZE + PGSIZE - 1 < 2 ^ 32 \<longrightarrow>
      (\<exists>p s'. Malloc.malloc n s = Some (p, s') \<and> heap_ok s' \<and> (if p = NULL then live s' = live s
         else p \<notin> live s \<and> live s' = insert p (live s) \<and> (\<exists>m. block_bytes p s' = Some m \<and> n \<le> m))))
    \<and> (\<forall>p \<in> live s. \<exists>s'. mfree p s = Some s' \<and> heap_ok s' \<and> live s' = live s - {p})
    \<and> (\<forall>p \<in> live s. \<forall>q \<in> live s. \<forall>m n. p \<noteq> q \<and> block_bytes p s = Some m \<and> block_bytes q s = Some n \<longrightarrow>
        {p..<p + m} \<inter> {q..<q + n} = {})"
proof (intro conjI ballI allI impI)
  fix n :: nat assume "0 < n \<and> n + ARENA_SIZE + PGSIZE - 1 < 2 ^ 32"
  then obtain p s' where "Malloc.malloc n s = Some (p, s')" "heap_ok s'" "p = NULL \<and> live s' = live s \<or> p \<noteq> NULL \<and> got n s p s'"
    using malloc_ok[OF assms, of n] by blast
  then show "\<exists>p s'. Malloc.malloc n s = Some (p, s') \<and> heap_ok s' \<and> (if p = NULL then live s' = live s
         else p \<notin> live s \<and> live s' = insert p (live s) \<and> (\<exists>m. block_bytes p s' = Some m \<and> n \<le> m))"
    by (intro exI[of _ p] exI[of _ s']) (auto simp: got_def)
next
  fix p assume "p \<in> live s"
  then show "\<exists>s'. mfree p s = Some s' \<and> heap_ok s' \<and> live s' = live s - {p}" by (rule free_ok[OF assms])
next
  fix p q m n assume "p \<in> live s" "q \<in> live s" "p \<noteq> q \<and> block_bytes p s = Some m \<and> block_bytes q s = Some n"
  then show "{p..<p + m} \<inter> {q..<q + n} = {}" using live_disjoint assms unfolding heap_ok_def by blast
qed

theorem malloc_blocks_exclusive_witness:
  "\<exists>p s'. Malloc.malloc 100 small_heap = Some (p, s') \<and> (p \<noteq> NULL \<longrightarrow> live s' = {p} \<and> (\<exists>t. mfree p s' = Some t \<and> live t = {}))"
proof -
  have n: "0 < (100 :: nat) \<and> 100 + ARENA_SIZE + PGSIZE - 1 < 2 ^ 32" by (simp add: ARENA_SIZE_def PGSIZE_def)
  obtain p s' where a: "Malloc.malloc 100 small_heap = Some (p, s')" "heap_ok s'" "p \<noteq> NULL \<longrightarrow> live s' = {p}"
    using malloc_blocks_exclusive[OF small_heap_ok(1), THEN conjunct1, rule_format, OF n] unfolding small_heap_ok(2) by (auto split: if_splits)
  then show ?thesis using malloc_blocks_exclusive[OF a(2), THEN conjunct2, THEN conjunct1] by fastforce
qed

text \<open>C28. The contents of blocks: realloc of a block in use either returns NULL and changes no word of memory and no block, or replaces the block by one of at least the new size whose words are those of the old block as far as both reach; calloc returns NULL or a fresh block whose words are zero; and free leaves every word of the other blocks in use as it was.\<close>

theorem block_contents_kept:
  assumes "heap_ok s" "q \<in> live s" "block_bytes q s = Some m"
  shows "(\<forall>n. 0 < n \<and> n + ARENA_SIZE + PGSIZE - 1 < 2 ^ 32 \<longrightarrow>
      (\<exists>p s'. realloc q n s = Some (p, s') \<and> heap_ok s' \<and> (if p = NULL then live s' = live s \<and> words s' = words s
         else p \<notin> live s \<and> live s' = insert p (live s - {q}) \<and> (\<exists>k. block_bytes p s' = Some k \<and> n \<le> k)
           \<and> (\<forall>x. x + 4 \<le> min n m \<longrightarrow> words s' (p + x) = words s (q + x)))))
    \<and> (\<forall>a b. 0 < a \<and> 0 < b \<and> a * b + ARENA_SIZE + PGSIZE - 1 < 2 ^ 32 \<longrightarrow>
      (\<exists>p s'. calloc a b s = Some (p, s') \<and> heap_ok s' \<and> (if p = NULL then live s' = live s \<and> words s' = words s
         else p \<notin> live s \<and> live s' = insert p (live s) \<and> (\<exists>k. block_bytes p s' = Some k \<and> a * b \<le> k)
           \<and> (\<forall>x. x + 4 \<le> a * b \<longrightarrow> words s' (p + x) = 0))))
    \<and> (\<forall>p s'. p \<in> live s \<and> p \<noteq> q \<and> mfree p s = Some s' \<longrightarrow> block_bytes q s' = Some m
        \<and> (\<forall>x \<in> {q..<q + m}. words s' x = words s x))"
proof (intro conjI allI impI)
  fix n :: nat assume n: "0 < n \<and> n + ARENA_SIZE + PGSIZE - 1 < 2 ^ 32"
  show "\<exists>p s'. realloc q n s = Some (p, s') \<and> heap_ok s' \<and> (if p = NULL then live s' = live s \<and> words s' = words s
         else p \<notin> live s \<and> live s' = insert p (live s - {q}) \<and> (\<exists>k. block_bytes p s' = Some k \<and> n \<le> k)
           \<and> (\<forall>x. x + 4 \<le> min n m \<longrightarrow> words s' (p + x) = words s (q + x)))"
    using realloc_ok[OF assms conjunct1[OF n] conjunct2[OF n]] by (elim exE conjE) (intro exI conjI, assumption+, simp split: if_splits, blast)
next
  fix a b :: nat assume n: "0 < a \<and> 0 < b \<and> a * b + ARENA_SIZE + PGSIZE - 1 < 2 ^ 32"
  show "\<exists>p s'. calloc a b s = Some (p, s') \<and> heap_ok s' \<and> (if p = NULL then live s' = live s \<and> words s' = words s
         else p \<notin> live s \<and> live s' = insert p (live s) \<and> (\<exists>k. block_bytes p s' = Some k \<and> a * b \<le> k)
           \<and> (\<forall>x. x + 4 \<le> a * b \<longrightarrow> words s' (p + x) = 0))"
    using calloc_ok[OF assms(1) conjunct1[OF n] conjunct1[OF conjunct2[OF n]] conjunct2[OF conjunct2[OF n]]]
    by (elim exE conjE) (intro exI conjI, assumption+, simp split: if_splits, blast)
next
  fix p s' assume p: "p \<in> live s \<and> p \<noteq> q \<and> mfree p s = Some s'"
  note k = free_keeps_block[OF assms(1) _ _ assms(2) _ assms(3)]
  show "block_bytes q s' = Some m" using k(1) p by blast
  show "\<forall>x \<in> {q..<q + m}. words s' x = words s x" using k(2) p by blast
qed

theorem block_contents_kept_witness:
  "\<exists>p s'. Malloc.malloc 100 small_heap = Some (p, s') \<and> (p \<noteq> NULL \<longrightarrow>
     (\<exists>q t. realloc p 3000 s' = Some (q, t) \<and> (q \<noteq> NULL \<longrightarrow> live t = {q} \<and> words t (q + 8) = words s' (p + 8))))"
proof -
  have n: "100 + ARENA_SIZE + PGSIZE - 1 < 2 ^ 32" "0 < (3000 :: nat) \<and> 3000 + ARENA_SIZE + PGSIZE - 1 < 2 ^ 32"
    by (simp_all add: ARENA_SIZE_def PGSIZE_def)
  obtain p s' where a: "Malloc.malloc 100 small_heap = Some (p, s')" "heap_ok s'" "p = NULL \<or> got 100 small_heap p s'"
    using malloc_ok[OF small_heap_ok(1) _ n(1)] by auto
  show ?thesis
  proof (cases "p = NULL")
    case False
    then obtain m where p: "live s' = {p}" "p \<in> live s'" "block_bytes p s' = Some m" "100 \<le> m" using a(3) small_heap_ok(2) by (auto simp: got_def)
    show ?thesis using block_contents_kept[OF a(2) p(2,3), THEN conjunct1, rule_format, OF n(2)] a(1) p(1,4)
      by (fastforce split: if_splits)
  qed (use a(1) in simp)
qed

section \<open>Loading programs\<close>

text \<open>C29. Loading an executable into an empty address space: whatever the file holds, the loader always returns, keeps the page directory consistent and never maps page 0; and when it reports success the file's header was accepted, the entry point and the stack pointer are the header's entry and the top of user memory, every program header has been obeyed - no segment of a forbidden kind, and each loadable segment valid and visible to the process byte by byte, the file's bytes followed by zeros, writable exactly when its flags say so - and one zeroed, writable page of stack lies below the top.\<close>

theorem load_file_image:
  assumes "mem_inv (mem s) (pagedir s)" "ram_ok (mem s)" "page_map (mem s) (pagedir s) 0 = None"
    and "file_at (fsys s) f 0 c" "length c + 32 < 2 ^ 31"
  shows "\<exists>r s'. load_file f s = Some (r, s') \<and> pagedir s' = pagedir s
    \<and> mem_inv (mem s') (pagedir s) \<and> page_map (mem s') (pagedir s) 0 = None
    \<and> (\<forall>eip esp. r = Some (eip, esp) \<longrightarrow> EHDR_SIZE \<le> length c \<and> (let e = ehdr_of (take EHDR_SIZE c) in
        ehdr_accepted e \<and> eip = e_entry e \<and> esp = PHYS_BASE
        \<and> (\<forall>i < e_phnum e. let ph = phdr_of (take PHDR_SIZE (drop (e_phoff e + PHDR_SIZE * i) c)) in
             p_type ph \<notin> {PT_DYNAMIC, PT_INTERP, PT_SHLIB}
             \<and> (p_type ph = PT_LOAD \<longrightarrow> seg_ok ph c
               \<and> (\<forall>j < p_memsz ph. user_byte (mem s') (pagedir s) (p_vaddr ph + j)
                    = Some (if j < p_filesz ph then c ! (p_offset ph + j) else 0, writable_of ph)))))
        \<and> (\<forall>i < PGSIZE. user_byte (mem s') (pagedir s) (PHYS_BASE - PGSIZE + i) = Some (0, True)))"
proof -
  have "loader_inv f c (pagedir s) s" using assms(1,3,4) by (auto simp: loader_inv_def)
  from load_file_ok[OF this assms(2,4,5)] obtain r s' where l: "load_file f s = Some (r, s')"
    "loader_inv f c (pagedir s) s'" "\<forall>x. r = Some x \<longrightarrow> image_loaded s' c x" by blast
  show ?thesis
    using l(1,2) l(3)[unfolded image_loaded_def seg_loaded_def phdr_at_def Let_def] unfolding loader_inv_def Let_def
    by (intro exI[of _ r] exI[of _ s']) auto
qed

theorem load_file_image_witness:
  "\<exists>r s'. load_file 30 \<lparr>mem = small_mmu, fsys = small_fs, pagedir = 0xc0101000\<rparr> = Some (r, s') \<and> r = None
     \<and> page_map (mem s') 0xc0101000 0 = None"
proof -
  let ?s = "\<lparr>mem = small_mmu, fsys = small_fs, pagedir = 0xc0101000\<rparr>" and ?c = "contents (disk small_fs) map_ino"
  have map0: "page_map small_mmu 0xc0101000 u = None" for u
    by (simp add: page_map_def entry_of_def table_of_def small_mmu_def)
  have c: "length ?c = 4" by (simp add: map_ino_def inode_length_def)
  have "file_at (fsys ?s) 30 0 ?c" using small_disk by (simp add: file_at_def) (simp add: small_fs_def map_ino_def)
  moreover have "mem_inv (mem ?s) (pagedir ?s)" using small_mmu_ok map0 by (simp add: mem_inv_def frames_ok_def)
  moreover have "ram_ok (mem ?s)"
    by (simp add: ram_ok_def small_mmu_def pool_end_def PHYS_BASE_def PGSIZE_def)
  moreover have "page_map (mem ?s) (pagedir ?s) 0 = None" by (simp add: map0)
  moreover have "length ?c + 32 < 2 ^ 31" unfolding c by simp
  ultimately obtain r s' where r: "load_file 30 ?s = Some (r, s')" "page_map (mem s') (pagedir ?s) 0 = None"
    "\<forall>eip esp. r = Some (eip, esp) \<longrightarrow> EHDR_SIZE \<le> length ?c"
    using load_file_image[of ?s 30 ?c] by auto
  have "r = None" using r(3) c by (cases r) (auto simp: EHDR_SIZE_def)
  then show ?thesis using r(1,2) by simp
qed

text \<open>C30. validate_segment accepts a program header exactly when the segment is not empty, its file part is not longer than its memory part, its offset is at most the length of the file and at the same place of a page as its address, and the memory region begins above page 0 and its end, the address behind its last byte, is below PHYS_BASE, in unbounded arithmetic although the code computes the end modulo 2^32. The comments differ at both borders: an offset equal to the length of the file is accepted although it points behind the file's last byte, and a region that ends exactly at PHYS_BASE, all of it user memory, is refused.\<close>

theorem validate_segment_exact:
  assumes "file_length f s = Some len" "0 \<le> len" "len < 2 ^ 31"
    and "p_offset ph < 2 ^ 32" "p_vaddr ph < 2 ^ 32" "p_filesz ph < 2 ^ 32" "p_memsz ph < 2 ^ 32"
  shows "validate_segment ph f s = Some (p_offset ph mod PGSIZE = p_vaddr ph mod PGSIZE \<and> int (p_offset ph) \<le> len
    \<and> p_filesz ph \<le> p_memsz ph \<and> 0 < p_memsz ph \<and> PGSIZE \<le> p_vaddr ph \<and> p_vaddr ph + p_memsz ph < PHYS_BASE)"
  by (rule validate_segment_iff) (use assms in \<open>simp_all add: phdr_range_def\<close>)

theorem validate_segment_exact_witness:
  "validate_segment (phdr_of (le32 1 @ le32 0 @ le32 0xfffff000 @ le32 0 @ le32 4 @ le32 0x2000 @ le32 5 @ le32 0)) 30 small_fs = Some False"
proof -
  have len: "file_length 30 small_fs = Some 4" by (simp add: file_length_def small_fs_def map_ino_def inode_length_def)
  obtain ph where ph: "ph = phdr_of (le32 1 @ le32 0 @ le32 0xfffff000 @ le32 0 @ le32 4 @ le32 0x2000 @ le32 5 @ le32 0)" by blast
  have f: "p_offset ph = 0" "p_vaddr ph = 0xfffff000" "p_filesz ph = 4" "p_memsz ph = 0x2000"
    by (simp_all add: ph phdr_of_def get32_def le32_def of_le32_def)
  show ?thesis using validate_segment_exact[OF len, of ph] unfolding f ph[symmetric] by (simp add: PGSIZE_def PHYS_BASE_def)
qed

text \<open>C31. What the student's kernel puts on the stack of a new process. A command line of up to 4 bytes arrives: the stack pointer is 36 bytes below the top, so that it is 16-byte aligned at the call, and from it up lie a null return address, argc, argv and the null-terminated argument vector, whose pointers are to the words of the line - in reverse order, because reverse is given a pointer for the count. For a longer line only 5 bytes are copied, without a terminator, and the parser runs off the end of the page.\<close>

theorem init_cmd_line_stack:
  assumes "bytes_at m cmd (s @ [0])" "0 \<notin> set s" "mapped cmd 5 m"
    and "mapped kpage PGSIZE m" "m (kpage + PGSIZE) = None" "kpage \<noteq> NULL"
    and "str_at m sp [32]" "sp \<noteq> NULL" "sp + 1 < kpage \<or> kpage + PGSIZE \<le> sp"
  defines "upage \<equiv> PHYS_BASE - PGSIZE" and "esp \<equiv> PHYS_BASE - 36"
  shows "if length s \<le> 4
    then \<exists>argv m'. init_cmd_line upage kpage cmd sp m = Some (Some esp, m')
      \<and> bytes_at m' (kpage + (esp - upage)) (concat (map le32 ([NULL, length argv, esp + 12] @ argv @ [NULL])))
      \<and> list_all2 (\<lambda>q w. upage \<le> q \<and> str_at m' (kpage + (q - upage)) w) (rev argv) (args_of s)
    else init_cmd_line upage kpage cmd sp m = None"
proof (cases "length s \<le> 4")
  case True
  then show ?thesis
    using init_cmd_line_short[of m cmd s kpage sp] assms by (simp add: str_at_def stack_words_def upage_def esp_def)
next
  case False
  then show ?thesis using init_cmd_line_long[of m cmd s kpage sp upage] assms by simp
qed

theorem init_cmd_line_stack_witness:
  "\<exists>argv :: nat list. \<exists>m'. init_cmd_line (PHYS_BASE - PGSIZE) 4096 100 90 (\<lambda>a. if 4096 \<le> a \<and> a < 8192 then Some 0 else if 100 \<le> a \<and> a < 105
     then Some ([97, 32, 98, 0, 0] ! (a - 100)) else if a = 90 then Some 32 else if a = 91 then Some 0 else None) = Some (Some (PHYS_BASE - 36), m') \<and> length argv = 2
    \<and> bytes_at m' 8156 (le32 NULL @ le32 (length argv))"
proof -
  let ?m = "\<lambda>a :: nat. if 4096 \<le> a \<and> a < 8192 then Some (0 :: 8 word) else if 100 \<le> a \<and> a < 105
     then Some ([97, 32, 98, 0, 0] ! (a - 100)) else if a = 90 then Some 32 else if a = 91 then Some 0 else None"
  let ?s = "[97, 32, 98] :: 8 word list"
  have words: "args_of ?s = [[97], [98]]" by (simp add: args_of.simps next_word_def after_word_def)
  have "bytes_at ?m 100 (?s @ [0])" "str_at ?m 90 [32]" by simp_all
  moreover have "mapped 100 5 ?m" "mapped 4096 PGSIZE ?m" "?m (4096 + PGSIZE) = None"
    by (auto simp: mapped_def PGSIZE_def)
  ultimately have "\<exists>argv m'. init_cmd_line (PHYS_BASE - PGSIZE) 4096 100 90 ?m = Some (Some (PHYS_BASE - 36), m')
    \<and> bytes_at m' (4096 + (PHYS_BASE - 36 - (PHYS_BASE - PGSIZE))) (concat (map le32 ([NULL, length argv, PHYS_BASE - 36 + 12] @ argv @ [NULL])))
    \<and> list_all2 (\<lambda>q w. PHYS_BASE - PGSIZE \<le> q \<and> str_at m' (4096 + (q - (PHYS_BASE - PGSIZE))) w) (rev argv) (args_of ?s)"
    using init_cmd_line_stack[of ?m 100 ?s 4096 90] by (simp del: bytes_at_append bytes_at_simps)
  then obtain argv m' where r: "init_cmd_line (PHYS_BASE - PGSIZE) 4096 100 90 ?m = Some (Some (PHYS_BASE - 36), m')"
    "bytes_at m' 8156 (concat (map le32 ([NULL, length argv, PHYS_BASE - 36 + 12] @ argv @ [NULL])))"
    "length argv = length (args_of ?s)"
    by (auto simp: PHYS_BASE_def PGSIZE_def dest!: list_all2_lengthD simp del: bytes_at_append bytes_at_simps)
  then show ?thesis by (intro exI[of _ argv] exI[of _ m']) (simp add: words)
qed

section \<open>Homework programs\<close>

text \<open>C32. Quoting and splitting a command line: whatever non-empty words of at most 4094 bytes are written in single quotes with a backslash in front of quotes and backslashes, tokenize gives back exactly these words, and tokens_destroy returns every block of memory it took.\<close>

theorem tokenize_quoted_words:
  assumes "\<forall>w \<in> set ws. word_ok w" "length ws + 2 \<le> heap"
  shows "\<exists>t. tokenize (Some (command_line ws)) heap = Some (Some t) \<and> words_of t = ws
    \<and> tokens_get_length (Some t) = length ws \<and> tokens_destroy (Some t) (room t) = heap"
proof -
  obtain t where t: "tokenize (Some (command_line ws)) heap = Some (Some t)" "words_of t = ws"
    using tokenize_command_line(1)[OF assms] by blast
  then show ?thesis using tokenize_ok[OF t(1) command_line_nonzero[OF assms(1)]]
    by (auto simp: tokens_ok_def tokens_get_length_def tokens_destroy_def)
qed

theorem tokenize_quoted_words_witness:
  "\<exists>t. tokenize (Some (command_line [[108, 115], [97, 32, 39, 92]])) 4 = Some (Some t) \<and> words_of t = [[108, 115], [97, 32, 39, 92]]
     \<and> tokens_destroy (Some t) (room t) = 4"
  using tokenize_quoted_words[of "[[108, 115], [97, 32, 39, 92]]" 4] by (auto simp: word_ok_def N_MAX_def)

text \<open>C33. Counting words: for a text shorter than 2^31 bytes and a heap with two blocks for every word, count_words succeeds and its list has every word of the text (a maximal run of letters, in lower case, cut to 64 letters) exactly once, with the number of its occurrences; num_words returns the number of words.\<close>

theorem count_words_frequencies:
  assumes "int (length s) < 2 ^ 31" "2 * length (text_words s) \<le> n"
  shows "num_words s = Some (int (length (text_words s)))
    \<and> (\<exists>ws k. count_words s [] n = Some (0, ws, k) \<and> distinct (map wc_word ws)
      \<and> set (map wc_word ws) = Some ` set (text_words s)
      \<and> (\<forall>wc \<in> set ws. wc_count wc = int (count_list (text_words s) (the (wc_word wc)))))"
proof -
  obtain ws k where w: "count_words s [] n = Some (0, ws, k)" "counts ws (text_words s)"
    using count_words_counts[OF assms] by blast
  then show ?thesis using num_words_text[OF assms(1)] counts_words[OF w(2)] by (simp add: counts_def)
qed

theorem count_words_frequencies_witness:
  "num_words [72, 105, 44, 104, 73] = Some 2 \<and> (\<exists>ws k. count_words [72, 105, 44, 104, 73] [] 4 = Some (0, ws, k)
     \<and> set (map wc_word ws) = {Some [104, 105]} \<and> (\<forall>wc \<in> set ws. wc_count wc = 2))"
proof -
  have t: "text_words [72, 105, 44, 104, 73] = [[104, 105], [104, 105]]"
    by (simp add: text_words_def isalpha_def tolower_def MAX_WORD_LEN_def)
  then obtain ws k where w: "count_words [72, 105, 44, 104, 73] [] 4 = Some (0, ws, k)"
    "set (map wc_word ws) = {Some [104, 105]}" "\<forall>wc \<in> set ws. wc_count wc = int (count_list [[104, 105], [104, 105]] (the (wc_word wc)))"
    using count_words_frequencies[of "[72, 105, 44, 104, 73]" 4] by auto
  have "wc_count wc = 2" if "wc \<in> set ws" for wc
  proof -
    have "wc_word wc \<in> set (map wc_word ws)" using that by simp
    then have "wc_word wc = Some [104, 105]" unfolding w(2) by simp
    then show ?thesis using w(3) that by simp
  qed
  then show ?thesis using count_words_frequencies[of "[72, 105, 44, 104, 73]" 4] w(1,2) t by auto
qed

text \<open>C34. From the input to processes: for a pipeline of commands with arguments and at most one input and one output file each, written as a line with quoted words that fits with its newline into the buffer of 4096 bytes, the shell starts one process per command, in order, with exactly the command's arguments, its input from the pipe of the command before it and its output to the pipe of the next one; the files are those of the first and the last command; and the input behind the line is left. The commands do not run side by side: a command is started only when the shell's waitpid for every command before it has returned, so a command that does not end (or fills its pipe, which nobody reads yet) keeps the rest of the pipeline from starting and the shell from reading on.\<close>

theorem shell_runs_pipeline:
  assumes "cs \<noteq> []" "\<forall>c \<in> set cs. command_ok c" "\<forall>w \<in> set (pipeline cs). word_ok w \<and> 10 \<notin> set w" "length (pipeline cs) + 2 \<le> n"
    and "length (command_line (pipeline cs)) + 1 < 4096"
    and "pipeline cs \<noteq> []" "lookup_cmd (hd (pipeline cs)) = None" "last (pipeline cs) \<noteq> AMPERSAND"
  shows "\<exists>ps. shell_round ends (command_line (pipeline cs) @ 10 # rest) n
        = Some (Some (Run False (ps, \<forall>j < length cs. ends j), rest))
    \<and> (\<forall>i. i < length ps \<longleftrightarrow> i < length cs \<and> (\<forall>j < i. ends j))
    \<and> (\<forall>i < length ps. child_args (ps ! i) = cm_argv (cs ! i)
        \<and> child_in (ps ! i) = (if i > 0 then Pipe_nr (i - 1) else file_or (cm_in (cs ! i)))
        \<and> child_out (ps ! i) = (if i < length cs - 1 then Pipe_nr i else file_or (cm_out (cs ! i))))"
  by (intro exI conjI, rule shell_round_pipeline[OF assms(2,1,3-8)])
    (simp_all add: stages_started_iff child_of_def)

theorem shell_runs_pipeline_witness:
  "\<exists>ps. shell_round (\<lambda>i. i \<noteq> 1) (command_line [lit ''ls'', lit ''<'', lit ''in'', lit ''|'', lit ''cat'', lit ''|'', lit ''wc'', lit ''-l''] @ [10]) 11
       = Some (Some (Run False (ps, False), []))
     \<and> length ps = 2 \<and> child_args (ps ! 1) = [lit ''cat''] \<and> child_in (ps ! 0) = Opened (lit ''in'')"
proof -
  let ?cs = "[\<lparr>cm_argv = [lit ''ls''], cm_in = Some (lit ''in''), cm_out = None\<rparr>,
    \<lparr>cm_argv = [lit ''cat''], cm_in = None, cm_out = None\<rparr>,
    \<lparr>cm_argv = [lit ''wc'', lit ''-l''], cm_in = None, cm_out = None\<rparr>]"
  have p: "pipeline ?cs = [lit ''ls'', lit ''<'', lit ''in'', lit ''|'', lit ''cat'', lit ''|'', lit ''wc'', lit ''-l'']"
    by (simp add: render_def redirect_def)
  have "\<forall>c \<in> set ?cs. command_ok c" by (simp add: command_ok_def ordinary_def)
  moreover have "\<forall>w \<in> set (pipeline ?cs). word_ok w \<and> 10 \<notin> set w" unfolding p by (simp add: word_ok_def N_MAX_def)
  moreover have "lookup_cmd (hd (pipeline ?cs)) = None" unfolding p by (simp add: lookup_cmd_def cmd_table_def find_None_iff nth_Cons')
  moreover have "last (pipeline ?cs) \<noteq> AMPERSAND" unfolding p by simp
  moreover have "length (pipeline ?cs) + 2 \<le> 11" "pipeline ?cs \<noteq> []" unfolding p by simp_all
  moreover have "length (command_line (pipeline ?cs)) + 1 < 4096" unfolding p by (simp add: quote_def quote_char_def)
  ultimately obtain ps where ps: "shell_round (\<lambda>i. i \<noteq> 1) (command_line (pipeline ?cs) @ [10]) 11
        = Some (Some (Run False (ps, \<forall>j < length ?cs. j \<noteq> 1), []))"
    "\<forall>i. i < length ps \<longleftrightarrow> i < length ?cs \<and> (\<forall>j < i. j \<noteq> 1)"
    "\<forall>i < length ps. child_args (ps ! i) = cm_argv (?cs ! i)
        \<and> child_in (ps ! i) = (if i > 0 then Pipe_nr (i - 1) else file_or (cm_in (?cs ! i)))"
    using shell_runs_pipeline[of ?cs 11 "\<lambda>i. i \<noteq> 1" "[]"] by blast
  have l: "length ps = 2"
  proof (rule antisym)
    have "\<not> 2 < length ps"
    proof
      assume "2 < length ps"
      then have "\<forall>j < 2. j \<noteq> (1 :: nat)" using ps(2) by blast
      then have "(1 :: nat) \<noteq> 1" by (rule allE[of _ 1]) simp
      then show False by simp
    qed
    then show "length ps \<le> 2" by simp
    show "2 \<le> length ps" using ps(2)[rule_format, of 1] by simp
  qed
  moreover have "(\<forall>j < length ?cs. j \<noteq> 1) = False" by auto
  ultimately show ?thesis using ps(1,3) unfolding p by (intro exI[of _ ps]) (simp add: file_or_def)
qed

text \<open>C35. mm_malloc of a heap in order, whatever has been allocated and freed before: when the first free block that is big enough is not split, the block it returns - a new one at the break or the free one - is at least as big as asked, full of zeros and disjoint from every block in use, whose data it leaves alone, and the heap is in order again. When it is split, the header of the rest, which is now next in the list, lies inside the block that is returned.\<close>

theorem mm_malloc_separate:
  assumes "mm_ok h bs" "0 < sz" "brk h + sz + SIZEOF_BLOCK \<le> brk_max h"
  shows "\<exists>p h'. mm_malloc sz h = Some (p + off_data, h') \<and> (if mm_splits sz bs
    then \<exists>q. ld64 (p + off_next) (hmem h') = Some q \<and> {q..<q + off_data} \<inter> {p + off_data..<p + off_data + sz} \<noteq> {}
    else \<exists>n bs'. mm_ok h' bs' \<and> sz \<le> n \<and> set (mm_live bs') = insert (p, n, 0) (set (mm_live bs))
      \<and> (\<forall>(b, t, g) \<in> set (mm_live bs). p + SIZEOF_BLOCK + n \<le> b \<or> b + SIZEOF_BLOCK + t \<le> p)
      \<and> (\<forall>x. p + off_data \<le> x \<and> x < p + off_data + sz \<longrightarrow> hmem h' x = Some 0) \<and> data_kept (mm_live bs) (hmem h) (hmem h'))"
proof (cases "mm_splits sz bs")
  case True
  then obtain a s f r where f: "fits sz bs = (a, s, f) # r" "sz + SIZEOF_BLOCK < s"
    by (auto simp: mm_splits_def split: list.splits)
  have "{a + sz..<a + sz + off_data} \<inter> {a + off_data..<a + off_data + sz} \<noteq> {}" using assms(2) by (auto simp: off_data_def)
  then show ?thesis using mm_malloc_split[OF assms f] True by (simp only: if_True) blast
next
  case False
  from mm_malloc_ok[OF assms False] obtain p n h' bs' where r: "mm_malloc sz h = Some (p + off_data, h')" "mm_ok h' bs'" "sz \<le> n"
    "(p, n, 0) \<notin> set (mm_live bs)" "set (mm_live bs') = insert (p, n, 0) (set (mm_live bs))"
    "\<forall>x. p + off_data \<le> x \<and> x < p + off_data + sz \<longrightarrow> hmem h' x = Some 0" "data_kept (mm_live bs) (hmem h) (hmem h')" by blast
  show ?thesis using mm_live_apart[OF r(2,5,4)] r False by (simp only: if_False) blast
qed

theorem mm_malloc_separate_witness:
  "\<exists>p h'. mm_malloc 8 \<lparr>hmem = Map.empty, brk_min = 4096, brk = 4096, brk_max = 8192, mm_head = NULL\<rparr> = Some (p + off_data, h')
    \<and> hmem h' (p + off_data) = Some 0"
proof -
  let ?h = "\<lparr>hmem = Map.empty, brk_min = 4096, brk = 4096, brk_max = 8192, mm_head = NULL\<rparr>"
  have "mm_ok ?h []" by (simp add: mm_ok_def room_for_def mapped_def)
  moreover have "\<not> mm_splits 8 []" by (simp add: mm_splits_def fits_def)
  ultimately obtain p h' where "mm_malloc 8 ?h = Some (p + off_data, h')"
    "\<forall>x. p + off_data \<le> x \<and> x < p + off_data + 8 \<longrightarrow> hmem h' x = Some 0"
    using mm_malloc_separate[of ?h "[]" 8] by (auto simp: SIZEOF_BLOCK_def)
  then show ?thesis by fastforce
qed

text \<open>C36. Growing a block with mm_realloc when nothing is split: the new block is big enough and begins with all the bytes of the old one, exactly the old block has been freed - through the three loops of mm_free that merge neighbours and clear free memory -, every other block in use keeps its place, its size and its data, and the heap is in order again.\<close>

theorem mm_realloc_grows:
  assumes "mm_ok h bs" "(a, s, 0) \<in> set bs" "s < sz" "brk h + sz + SIZEOF_BLOCK \<le> brk_max h" "\<not> mm_splits sz bs"
  shows "\<exists>p n h' bs'. mm_realloc (a + off_data) sz h = Some (p + off_data, h') \<and> mm_ok h' bs' \<and> sz \<le> n
    \<and> (p, n, 0) \<notin> set (mm_live bs) \<and> set (mm_live bs') = insert (p, n, 0) (set (mm_live bs) - {(a, s, 0)})
    \<and> (\<forall>i < s. hmem h' (p + off_data + i) = hmem h (a + off_data + i))
    \<and> data_kept (filter (\<lambda>b. b \<noteq> (a, s, 0)) (mm_live bs)) (hmem h) (hmem h')"
  using mm_realloc_ok[OF assms] .

theorem mm_realloc_grows_witness:
  "\<exists>p h'. mm_realloc 4124 8 \<lparr>hmem = (\<lambda>x. if 4096 \<le> x \<and> x < 4132 then Some (if x = 4096 then 4 else 7 * of_bool (4124 \<le> x)) else None),
      brk_min = 4096, brk = 4132, brk_max = 8192, mm_head = 4096\<rparr> = Some (p + off_data, h') \<and> hmem h' (p + off_data) = Some 7"
proof -
  let ?m = "\<lambda>x :: nat. if 4096 \<le> x \<and> x < 4132 then Some (if x = 4096 then 4 else 7 * of_bool (4124 \<le> x)) else None :: 8 word option"
  let ?h = "\<lparr>hmem = ?m, brk_min = 4096, brk = 4132, brk_max = 8192, mm_head = 4096\<rparr>"
  have b: "bytes_at ?m 4096 [4, 0, 0, 0, 0, 0, 0, 0]" "bytes_at ?m 4104 [0, 0, 0, 0, 0, 0, 0, 0]" "bytes_at ?m 4120 [0, 0, 0, 0]"
    by simp_all
  have len: "length [x1, x2, x3, x4, x5, x6, x7, x8] = 8" "length [x1, x2, x3, x4] = 4" for x1 x2 x3 x4 x5 x6 x7 x8 :: "8 word"
    by simp_all
  have "ld64 4096 ?m = Some 4" "ld64 4104 ?m = Some 0" "ld32 4120 ?m = Some 0"
    unfolding ld64_def ld32_def b[THEN load_bytes_at, unfolded len] by simp_all
  then have "mm_ok ?h [(4096, 4, 0)]" by (simp add: mm_ok_def room_for_def mapped_def SIZEOF_BLOCK_def off_next_def off_free_def)
  moreover have "\<not> mm_splits 8 [(4096, 4, 0)]" by (simp add: mm_splits_def fits_def)
  ultimately obtain p h' where "mm_realloc (4096 + off_data) 8 ?h = Some (p + off_data, h')"
    "\<forall>i < 4. hmem h' (p + off_data + i) = hmem ?h (4096 + off_data + i)"
    using mm_realloc_grows[of ?h "[(4096, 4, 0)]" 4096 4 8] by (auto simp: SIZEOF_BLOCK_def)
  then show ?thesis by (intro exI[of _ p] exI[of _ h']) (fastforce simp: off_data_def)
qed

section \<open>Random and fixed-point numbers, partitions, archives\<close>

text \<open>C37. The generator is RC4: whatever the seed and whatever was asked for before, the next n bytes random_bytes writes are bytes m to m + n - 1 of the key stream of the textbook cipher (written independently, over natural numbers modulo 256) keyed with the four bytes of the seed, lowest first, m being the number of bytes already produced; a generator never initialised behaves as one seeded with 0; and its table stays a permutation of the 256 byte values.\<close>

theorem random_bytes_rc4:
  "(let r = snd (random_bytes m (random_init seed)) in
      map unat (fst (random_bytes n r)) = map (key_stream (unat seed)) [m..<m + n]
      \<and> distinct (rc_s r) \<and> set (rc_s r) = UNIV)
    \<and> map unat (fst (random_bytes n \<lparr>rc_s = s, rc_i = i, rc_j = j, inited = False\<rparr>)) = map (key_stream 0) [0..<n]"
proof -
  let ?r = "snd (random_bytes m (random_init seed))"
  have a: "after_rounds ?r (unat seed) m" using random_bytes_key_stream(2)[OF init_after, of m seed] by simp
  have "rc4_ok ?r" using random_bytes_stream(1)[of "random_init seed" m] random_init_ok by (cases "random_bytes m (random_init seed)") simp
  moreover have "map unat (fst (random_bytes n \<lparr>rc_s = s, rc_i = i, rc_j = j, inited = False\<rparr>)) = map (key_stream 0) [0..<n]"
    using random_bytes_key_stream(1)[OF init_after, of n 0] random_bytes_fresh[of "\<lparr>rc_s = s, rc_i = i, rc_j = j, inited = False\<rparr>"] by simp
  ultimately show ?thesis using random_bytes_key_stream(1)[OF a] rc4_ok_perm by (simp add: Let_def)
qed

text \<open>C38. Every partition that the scan of a device registers lies inside the device in exact arithmetic, so no sector of it wraps around or is outside the device, whatever the partition table holds; and the scan returns when the table has no extended partition. With a non-empty extended partition whose place is in the first half of the device it never returns, because the table of an extended partition is read from the first sector again.\<close>

theorem partition_scan_inside:
  assumes "bsize < 2 ^ 32"
  shows "(\<forall>nr ps. partition_scan dev bsize = Some (nr, ps) \<longrightarrow> (\<forall>p \<in> set ps. pa_start p + pa_size p \<le> bsize
       \<and> (\<forall>sec < pa_size p. partition_sector p sec = pa_start p + sec \<and> partition_sector p sec < bsize)))
    \<and> ((\<forall>e \<in> set (table_entries dev bsize 0). \<not> extended_type (pte_type e)) \<longrightarrow> (\<exists>r. partition_scan dev bsize = Some r))
    \<and> (\<forall>e \<in> set (table_entries dev bsize 0). extended_type (pte_type e) \<and> 0 < pte_size e \<and> 0 < pte_offset e
       \<and> 2 * pte_offset e < bsize \<longrightarrow> partition_scan dev bsize = None)"
proof -
  note stuck = scan_stuck[OF _ assms, of dev]
  have "in_device bsize p" if "partition_scan dev bsize = Some (nr, ps)" "p \<in> set ps" for nr ps p
    using parse_keeps[OF that(1)[unfolded partition_scan_def read_partition_table_def]] table_entries_size assms that(2)
    by (auto simp: keeps_in_device_def)
  then have "\<forall>nr ps. partition_scan dev bsize = Some (nr, ps) \<longrightarrow> (\<forall>p \<in> set ps. pa_start p + pa_size p \<le> bsize
       \<and> (\<forall>sec < pa_size p. partition_sector p sec = pa_start p + sec \<and> partition_sector p sec < bsize))"
    using assms by (fastforce simp: in_device_def partition_sector_def)
  moreover have "(\<forall>e \<in> set (table_entries dev bsize 0). \<not> extended_type (pte_type e)) \<longrightarrow> (\<exists>r. partition_scan dev bsize = Some r)"
    using parse_returns assms by (fastforce simp: partition_scan_def read_partition_table_def)
  moreover have "\<forall>e \<in> set (table_entries dev bsize 0). extended_type (pte_type e) \<and> 0 < pte_size e \<and> 0 < pte_offset e
       \<and> 2 * pte_offset e < bsize \<longrightarrow> partition_scan dev bsize = None"
    by (intro ballI impI, rule stuck) (auto simp: bad_entry_def)
  ultimately show ?thesis by (intro conjI)
qed

theorem partition_scan_inside_witness:
  "\<exists>r. partition_scan (\<lambda>_. replicate 446 0 @ [0, 0, 0, 0, 0x21, 0, 0, 0, 1, 0, 0, 0, 4, 0, 0, 0] @ replicate 48 0 @ [0x55, 0xaa]) 8 = Some r"
  using partition_scan_inside[of 8 "\<lambda>_. replicate 446 0 @ [0, 0, 0, 0, 0x21, 0, 0, 0, 1, 0, 0, 0, 4, 0, 0, 0] @ replicate 48 0 @ [0x55, 0xaa]"]
  by (simp add: table_entries_def table_entry_def extended_type_def upt_rec Let_def nth_append)

text \<open>C39. A tar header made for a file or directory whose name, without its dangerous prefixes, has at most 99 bytes is accepted by ustar_parse_header, checksum included, and gives back the stripped name, the type and the size; the stripped name never begins with a slash, "./" or "../".\<close>

theorem ustar_make_parse:
  assumes "type = USTAR_REGULAR \<or> type = USTAR_DIRECTORY" "0 \<le> sz" "sz < 2 ^ 31"
    and "length (strip_antisocial_prefixes name) \<le> 99" "\<forall>c \<in> set name. c < 256 \<and> c \<noteq> 0"
  shows "\<exists>h. ustar_make_header name type sz = Some (Some h) \<and> length h = USTAR_HEADER_SIZE
    \<and> ustar_parse_header h = Inr (Some (strip_antisocial_prefixes name), type, if type = USTAR_REGULAR then nat sz else 0)
    \<and> safe_name (strip_antisocial_prefixes name)"
  using make_parse[OF assms] strip_safe[of name] by (simp add: USTAR_HEADER_SIZE_def)

theorem ustar_make_parse_witness:
  "\<exists>h. ustar_make_header [46, 46, 47, 97] USTAR_REGULAR 5 = Some (Some h) \<and> ustar_parse_header h = Inr (Some [97], USTAR_REGULAR, 5)"
proof -
  have "strip_antisocial_prefixes [46, 46, 47, 97] = [97]"
    by (simp add: strip_antisocial_prefixes_def strip_loop.simps[of "[46, 46, 47, 97]"] strip_loop.simps[of "[97]"])
  then show ?thesis using ustar_make_parse[of USTAR_REGULAR 5 "[46, 46, 47, 97]"] by auto
qed

section \<open>Buffer cache\<close>

text \<open>C40. The buffer cache is transparent: in a consistent cache every write of bytes inside a sector of the device succeeds, changes the device seen through the cache exactly as a write of the bytes in place would, and keeps the cache consistent, whichever block has to make room; and a flush brings the device itself to what was seen through the cache.\<close>

theorem cache_write_through:
  assumes "cache_ok s" "sec < sector_cnt s" "\<not> bc_locked (bcache s)" "ofs + length buff \<le> BLOCK_SECTOR_SIZE"
  shows "\<exists>s' t. cache_write sec buff ofs s = Some s' \<and> view s' = (view s)(sec := memcpy_at (view s sec) ofs buff)
    \<and> cache_ok s' \<and> \<not> bc_locked (bcache s') \<and> flush_cache s' = Some t \<and> sectors t = view s' \<and> view t = view s'"
proof -
  obtain s' where w: "cache_write sec buff ofs s = Some s'" "cache_ok s'" "view s' = (view s)(sec := memcpy_at (view s sec) ofs buff)"
    "\<not> bc_locked (bcache s')" using cache_write_ok[OF assms] by blast
  then show ?thesis using flush_cache_ok[OF w(2,4)] by blast
qed

theorem cache_write_through_witness:
  "\<exists>s' t. cache_write 1 [7, 8] 2 (buffer_cache_init \<lparr>sectors = \<lambda>_. [0, 0, 0, 0], sector_cnt = 2, dev_type = BLOCK_FILESYS, bcache = undefined\<rparr>) = Some s'
     \<and> flush_cache s' = Some t \<and> sectors t 1 = [0, 0, 7, 8]"
proof -
  let ?s = "buffer_cache_init \<lparr>sectors = \<lambda>_. [0, 0, 0, 0], sector_cnt = 2, dev_type = BLOCK_FILESYS, bcache = undefined\<rparr>"
  have "sector_cnt ?s = 2" "\<not> bc_locked (bcache ?s)" "view ?s = (\<lambda>_. [0, 0, 0, 0])"
    using buffer_cache_init_ok(2)[of "\<lparr>sectors = \<lambda>_. [0, 0, 0, 0], sector_cnt = 2, dev_type = BLOCK_FILESYS, bcache = undefined\<rparr>"]
    by (simp_all add: buffer_cache_init_def)
  then show ?thesis using cache_write_through[of ?s 1 2 "[7, 8]"] buffer_cache_init_ok(1)[of "\<lparr>sectors = \<lambda>_. [0, 0, 0, 0], sector_cnt = 2, dev_type = BLOCK_FILESYS, bcache = undefined\<rparr>"]
    by (auto simp: memcpy_at_def BLOCK_SECTOR_SIZE_def)
qed

end
